(* ===== verification/Scl_Prelude.thy ===== *)
theory Scl_Prelude
  imports Main "HOL-Library.Word" "HOL-Library.Monad_Syntax"
begin

text \<open>
  What every component of the library shares: the C types that appear in the sources
  (\<open>size_t\<close> and bytes as machine words, a possibly-\<open>NULL\<close> pointer as an option), the memory
  of one allocated block as a list of bytes, and the arithmetic of 64-bit indices.

  A model that returns \<open>'a ub\<close> returns \<open>None\<close> exactly where the C code would have
  undefined behaviour (an access outside its block, a copy through a null pointer plus a
  non-zero offset). A theorem that such a model returns \<open>Some\<close> is therefore a memory-safety
  statement.
\<close>

unbundle bit_operations_syntax

section \<open>Types\<close>

type_synonym size_t = "64 word"
type_synonym byte = "8 word"
type_synonym block = "byte list"
type_synonym 'a ptr = "'a option"
type_synonym 'a ub = "'a option"

text \<open>\<open>SIZE_MAX\<close> and \<open>PTRDIFF_MAX\<close> of the 64-bit targets the Makefile supports, and
  \<open>alignof(max_align_t)\<close>, which is 16 on both of them.\<close>

abbreviation SIZE_MAX :: size_t where
  "SIZE_MAX \<equiv> - 1"

abbreviation max_align :: size_t where
  "max_align \<equiv> 16"

text \<open>No C object is larger than \<open>PTRDIFF_MAX\<close> bytes.\<close>

abbreviation object_limit :: nat where
  "object_limit \<equiv> 2 ^ 63"

named_theorems mem_simps \<open>reads and writes of element slots inside their block\<close>
named_theorems ring_simps \<open>indices of a power-of-two ring\<close>

section \<open>64-bit index arithmetic\<close>

lemma unat_lt_64 [simp]: "unat (a::size_t) < 18446744073709551616"
proof -
  have "unat a < 2 ^ LENGTH(64)" by (rule unsigned_less)
  then show ?thesis by simp
qed

lemma unat_of_nat_less: "j < unat (c::size_t) \<Longrightarrow> unat (of_nat j :: size_t) = j"
proof -
  assume "j < unat c"
  then have "j < 18446744073709551616" using unat_lt_64 [of c] by linarith
  then show ?thesis by (simp add: unat_of_nat)
qed

lemma unat_SIZE_MAX: "unat SIZE_MAX = 2 ^ 64 - 1"
  by (simp add: unsigned_minus_1_eq_mask mask_eq_exp_minus_1)

lemma unat_exp2:
  assumes "k < 64"
  shows "unat (2 ^ k :: size_t) = 2 ^ k"
proof -
  have "(2::nat) ^ k < 2 ^ 64" using assms by (rule power_strict_increasing) simp
  moreover have "(2 ^ k :: size_t) = of_nat (2 ^ k)" by simp
  ultimately show ?thesis by (simp only: unat_of_nat) simp
qed

lemma unat_Suc_less: "(a::size_t) < b \<Longrightarrow> unat (a + 1) = Suc (unat a)"
proof -
  assume "a < b"
  then have "unat a < unat b" by (simp add: word_less_nat_alt)
  then have "unat a + 1 < 18446744073709551616"
    using unat_lt_64 [of b] by linarith
  then have "unat a + unat (1::size_t) < 2 ^ LENGTH(64)" by simp
  then have "unat (a + 1) = unat a + unat (1::size_t)" by (simp only: unat_add_lem)
  then show ?thesis by simp
qed

lemma unat_mult_bounded:
  fixes a e :: size_t
  assumes "unat a \<le> c" and "c * unat e < 2 ^ 64"
  shows "unat (a * e) = unat a * unat e"
proof -
  have "unat a * unat e \<le> c * unat e" using assms(1) by (rule mult_le_mono1)
  also have "\<dots> < 2 ^ LENGTH(64)" using assms(2) by simp
  finally have "unat a * unat e < 2 ^ LENGTH(64)" .
  then show ?thesis by (simp only: unat_mult_lem)
qed

lemma unat_add_bounded:
  fixes a b :: size_t
  assumes "unat a + unat b < 2 ^ 64"
  shows "unat (a + b) = unat a + unat b"
  using assms unat_add_lem [of a b] by simp

lemma unat_double_bounded:
  fixes a :: size_t
  assumes "unat a < 2 ^ 63"
  shows "unat (a * 2) = unat a * 2"
  using assms by (subst unat_mult_bounded [of _ "unat a"]) auto

lemma unat_eq_0_iff [simp]: "unat (a::size_t) = 0 \<longleftrightarrow> a = 0"
  by (simp add: unat_eq_zero)

lemma unat_pos_iff: "0 < unat (a::size_t) \<longleftrightarrow> a \<noteq> 0"
  by (simp add: unat_gt_0)

lemma word_le_unat: "(a::size_t) \<le> b \<longleftrightarrow> unat a \<le> unat b"
  by (simp add: word_le_nat_alt)

lemma word_less_unat: "(a::size_t) < b \<longleftrightarrow> unat a < unat b"
  by (simp add: word_less_nat_alt)

lemma unat_pred: "(a::size_t) \<noteq> 0 \<Longrightarrow> unat (a - 1) = unat a - 1"
  by (metis unat_minus_one)

lemma unat_diff_le: "(b::size_t) \<le> a \<Longrightarrow> unat (a - b) = unat a - unat b"
  by (rule unat_sub)

subsection \<open>Power-of-two rings\<close>

text \<open>A capacity that \<open>scl_bit_ceil_sz\<close> produced: a power of two that fits a word.\<close>

definition pow2_sz :: "size_t \<Rightarrow> bool" where
  "pow2_sz c \<longleftrightarrow> (\<exists>k < 64. unat c = 2 ^ k)"

lemma pow2_sz_pos: "pow2_sz c \<Longrightarrow> 0 < unat c"
  by (auto simp: pow2_sz_def)

lemma unat_mask_index:
  assumes "pow2_sz c"
  shows "unat (x AND (c - 1)) = unat x mod unat c"
proof -
  obtain k where k: "k < 64" "unat c = 2 ^ k" using assms by (auto simp: pow2_sz_def)
  have "unat (2 ^ k :: size_t) = 2 ^ k" using k(1) by (rule unat_exp2)
  then have "c = 2 ^ k" using k(2) by (simp add: word_eq_iff_unsigned [where 'a = nat])
  then have "x AND (c - 1) = take_bit k x"
    by (simp add: take_bit_eq_mask mask_eq_exp_minus_1)
  then have "unat (x AND (c - 1)) = take_bit k (unat x)" by (simp only: unsigned_take_bit_eq)
  then show ?thesis using k(2) by (simp only: take_bit_eq_mod)
qed

lemma pow2_sz_dvd: "pow2_sz c \<Longrightarrow> unat c dvd 2 ^ 64"
  unfolding pow2_sz_def using le_imp_power_dvd [of _ 64 "2::nat"] by (metis less_imp_le)

lemma ring_index [ring_simps]:
  assumes "pow2_sz c"
  shows "unat ((h + i) AND (c - 1)) = (unat h + unat i) mod unat c"
proof -
  have "unat (h + i) = (unat h + unat i) mod 2 ^ 64" by (simp add: unat_word_ariths)
  then show ?thesis
    using assms pow2_sz_dvd [OF assms] by (simp add: unat_mask_index mod_mod_cancel)
qed

lemma ring_index_one [ring_simps]:
  "pow2_sz c \<Longrightarrow> unat ((h + 1) AND (c - 1)) = (unat h + 1) mod unat c"
  using ring_index [of c h 1] by simp

lemma ring_index_pred:
  assumes "pow2_sz c" and "unat h < unat c"
  shows "unat ((h - 1) AND (c - 1)) = (unat h + unat c - 1) mod unat c"
proof (cases "h = 0")
  case True
  obtain m where m: "2 ^ 64 = unat c * m" using pow2_sz_dvd [OF assms(1)] unfolding dvd_def by blast
  have c: "0 < unat c" using assms(1) by (rule pow2_sz_pos)
  then have mpos: "0 < m" using m by (cases m) auto
  then obtain m' where m': "m = Suc m'" by (cases m) auto
  have "unat (h - 1) = 2 ^ 64 - 1" using True by (simp add: unat_SIZE_MAX)
  also have "\<dots> = (unat c - 1) + unat c * m'" using m m' c by simp
  finally have "unat (h - 1) mod unat c = (unat c - 1) mod unat c" by simp
  moreover have "unat ((h - 1) AND (c - 1)) = unat (h - 1) mod unat c"
    using assms(1) by (rule unat_mask_index)
  ultimately show ?thesis using True by simp
next
  case False
  then have "unat (h - 1) = unat h - 1" by (rule unat_pred)
  moreover have "unat h - 1 + unat c = unat h + unat c - 1"
    using False by (simp add: unat_pos_iff [symmetric])
  ultimately show ?thesis
    using unat_mask_index [OF assms(1), of "h - 1"] mod_add_self2 [of "unat h - 1" "unat c"] by simp
qed

section \<open>Memory blocks\<close>

text \<open>Reading and writing \<open>n\<close> bytes at an offset; outside the block there is no result.\<close>

definition mem_read :: "block \<Rightarrow> nat \<Rightarrow> nat \<Rightarrow> block ub" where
  "mem_read b off n = (if off + n \<le> length b then Some (take n (drop off b)) else None)"

definition mem_write :: "block \<Rightarrow> nat \<Rightarrow> block \<Rightarrow> block ub" where
  "mem_write b off v =
     (if off + length v \<le> length b then Some (take off b @ v @ drop (off + length v) b) else None)"

subsection \<open>Element slots\<close>

text \<open>The containers address a block only in multiples of their element size: slot \<open>i\<close> holds
  the bytes \<open>[i * es, (i + 1) * es)\<close>.\<close>

definition elem :: "nat \<Rightarrow> block \<Rightarrow> nat \<Rightarrow> block" where
  "elem es b i = take es (drop (i * es) b)"

definition put_elem :: "nat \<Rightarrow> block \<Rightarrow> nat \<Rightarrow> block \<Rightarrow> block" where
  "put_elem es b i v = take (i * es) b @ v @ drop (i * es + es) b"

lemma slot_bound: "i < n \<Longrightarrow> i * es + es \<le> n * (es::nat)"
proof -
  assume "i < n"
  then have "Suc i * es \<le> n * es" by (intro mult_le_mono1) simp
  then show ?thesis by simp
qed

lemma slot_before: "j < i \<Longrightarrow> j * es + k < i * es" if "k < (es::nat)"
  using slot_bound [of j i es] that by linarith

lemma length_elem [simp]: "i * es + es \<le> length b \<Longrightarrow> length (elem es b i) = es"
  by (simp add: elem_def)

lemma nth_elem: "i * es + es \<le> length b \<Longrightarrow> k < es \<Longrightarrow> elem es b i ! k = b ! (i * es + k)"
  by (simp add: elem_def)

lemma mem_read_elem [mem_simps]:
  "i * es + es \<le> length b \<Longrightarrow> mem_read b (i * es) es = Some (elem es b i)"
  by (simp add: mem_read_def elem_def)

lemma mem_write_elem [mem_simps]:
  "i * es + es \<le> length b \<Longrightarrow> length v = es \<Longrightarrow>
   mem_write b (i * es) v = Some (put_elem es b i v)"
  by (simp add: mem_write_def put_elem_def)

lemma length_put_elem [simp]:
  "i * es + es \<le> length b \<Longrightarrow> length v = es \<Longrightarrow> length (put_elem es b i v) = length b"
  by (simp add: put_elem_def)

lemma nth_put_elem:
  assumes "i * es + es \<le> length b" and "length v = es" and "k < length b"
  shows "put_elem es b i v ! k
    = (if i * es \<le> k \<and> k < i * es + es then v ! (k - i * es) else b ! k)"
  using assms by (auto simp: put_elem_def nth_append min_def)

lemma elem_put_same [simp]:
  "i * es + es \<le> length b \<Longrightarrow> length v = es \<Longrightarrow> elem es (put_elem es b i v) i = v"
  by (simp add: elem_def put_elem_def)

lemma elem_put_other:
  assumes "i * es + es \<le> length b" and "j * es + es \<le> length b" and "length v = es" and "i \<noteq> j"
  shows "elem es (put_elem es b i v) j = elem es b j"
proof (rule nth_equalityI)
  show "length (elem es (put_elem es b i v) j) = length (elem es b j)" using assms by simp
next
  fix k assume "k < length (elem es (put_elem es b i v) j)"
  then have k: "k < es" using assms by simp
  have "\<not> (i * es \<le> j * es + k \<and> j * es + k < i * es + es)"
  proof (cases "i < j")
    case True
    then show ?thesis using slot_bound [of i j es] by linarith
  next
    case False
    then have "j < i" using assms(4) by simp
    then show ?thesis using slot_before [OF k, of j i] by linarith
  qed
  then show "elem es (put_elem es b i v) j ! k = elem es b j ! k"
    using assms k by (auto simp: nth_elem nth_put_elem)
qed

lemma elem_put:
  "i * es + es \<le> length b \<Longrightarrow> j * es + es \<le> length b \<Longrightarrow> length v = es \<Longrightarrow>
   elem es (put_elem es b i v) j = (if i = j then v else elem es b j)"
  by (simp add: elem_put_other)

lemma elem_append [simp]:
  "i * es + es \<le> length b \<Longrightarrow> elem es (b @ c) i = elem es b i"
  by (simp add: elem_def)

lemma elem_take:
  "i < n \<Longrightarrow> n * es \<le> length b \<Longrightarrow> elem es (take (n * es) b) i = elem es b i"
  using slot_bound [of i n es] by (simp add: elem_def take_drop min_def)

text \<open>Copying \<open>n\<close> consecutive slots within a block, as \<open>memmove\<close> does: the source is read
  as a whole before anything is written.\<close>

lemma mem_move_slots:
  assumes "(s + n) * es \<le> length b" and "(d + n) * es \<le> length b"
  shows "\<exists>b'. (mem_read b (s * es) (n * es) \<bind> mem_write b (d * es)) = Some b' \<and>
    length b' = length b \<and>
    (\<forall>k. k * es + es \<le> length b \<longrightarrow>
      elem es b' k = (if d \<le> k \<and> k < d + n then elem es b (s + k - d) else elem es b k))"
proof -
  let ?v = "take (n * es) (drop (s * es) b)"
  let ?b' = "take (d * es) b @ ?v @ drop (d * es + n * es) b"
  have v: "length ?v = n * es" using assms(1) by (simp add: algebra_simps)
  have len: "length ?b' = length b" using assms by (simp add: algebra_simps)
  have run: "(mem_read b (s * es) (n * es) \<bind> mem_write b (d * es)) = Some ?b'"
    using assms v by (simp add: mem_read_def mem_write_def add_mult_distrib)
  have "elem es ?b' k = (if d \<le> k \<and> k < d + n then elem es b (s + k - d) else elem es b k)"
    if k: "k * es + es \<le> length b" for k
  proof (cases "d \<le> k \<and> k < d + n")
    case True
    then obtain m where m: "k = d + m" "m < n" by (metis add_less_cancel_left le_Suc_ex)
    have "m * es + es \<le> n * es" using m(2) by (rule slot_bound)
    then have "elem es ?b' k = take es (drop (m * es) ?v)"
      using assms m(1) by (simp add: elem_def add_mult_distrib)
    also have "\<dots> = elem es b (s + m)"
      using \<open>m * es + es \<le> n * es\<close> by (simp add: elem_def take_drop add_mult_distrib min_def add.commute add.left_commute)
    finally show ?thesis using True m by simp
  next
    case False
    then consider "k < d" | "d + n \<le> k" by linarith
    then show ?thesis
    proof cases
      case 1
      have "k * es + es \<le> d * es" using 1 by (rule slot_bound)
      moreover have "d * es \<le> length b" using assms(2) by (simp add: add_mult_distrib)
      ultimately have "elem es ?b' k = elem es b k"
        using elem_take [OF 1] by simp
      then show ?thesis by (simp only: if_not_P [OF False])
    next
      case 2
      then obtain m where m: "k = d + n + m" by (metis le_Suc_ex)
      have "elem es ?b' k = elem es b k"
        using assms v
        by (simp add: elem_def m add_mult_distrib add.assoc) (simp add: ac_simps)
      then show ?thesis by (simp only: if_not_P [OF False])
    qed
  qed
  with run len show ?thesis by blast
qed

subsection \<open>The first slots of a block as a list\<close>

definition elems :: "nat \<Rightarrow> block \<Rightarrow> nat \<Rightarrow> block list" where
  "elems es b n = map (elem es b) [0..<n]"

lemma length_elems [simp]: "length (elems es b n) = n"
  by (simp add: elems_def)

lemma nth_elems [simp]: "i < n \<Longrightarrow> elems es b n ! i = elem es b i"
  by (simp add: elems_def)

lemma elems_cong:
  "(\<And>i. i < n \<Longrightarrow> elem es b i = elem es c i) \<Longrightarrow> elems es b n = elems es c n"
  by (simp add: elems_def)

lemma elems_Suc: "elems es b (Suc n) = elems es b n @ [elem es b n]"
  by (simp add: elems_def)

lemma elems_put:
  assumes "n * es \<le> length b" and "i < n" and "length v = es"
  shows "elems es (put_elem es b i v) n = (elems es b n)[i := v]"
proof (rule nth_equalityI)
  fix j assume "j < length (elems es (put_elem es b i v) n)"
  then have j: "j < n" by simp
  have "i * es + es \<le> length b" "j * es + es \<le> length b"
    using slot_bound [OF assms(2), of es] slot_bound [OF j, of es] assms(1) by linarith+
  then show "elems es (put_elem es b i v) n ! j = (elems es b n)[i := v] ! j"
    using assms j by (simp add: elem_put nth_list_update)
qed simp

lemma elems_put_beyond:
  assumes "n \<le> i" and "i * es + es \<le> length b" and "length v = es"
  shows "elems es (put_elem es b i v) n = elems es b n"
proof (rule elems_cong)
  fix j assume "j < n"
  then have "j < i" using assms(1) by simp
  then have "j * es + es \<le> length b" using slot_bound [of j i es] assms(2) by linarith
  then show "elem es (put_elem es b i v) j = elem es b j"
    using assms \<open>j < i\<close> by (simp add: elem_put)
qed

end
