(* ===== verification/Scl_Common.thy ===== *)
theory Scl_Common
  imports Scl_Prelude
begin

text \<open>
  \<open>libs/core/scl_common.h\<close>, \<open>libs/common/scl_common.c\<close> and the copy routines of
  \<open>libs/core/scl_string.c\<close>: the error codes, overflow-safe arithmetic, the bounds checks for
  untrusted lengths, alignment, the bit utilities behind every power-of-two capacity, the
  bounded string copies, and \<open>memcpy\<close> and \<open>memmove\<close> with their \<open>NULL\<close> guards. The lemmas
  relate each of them to its arithmetic meaning on natural numbers.
\<close>

section \<open>Error codes\<close>

datatype scl_error_t =
    SCL_OK | SCL_ERR_NULL_PTR | SCL_ERR_OUT_OF_MEMORY | SCL_ERR_SIZE_OVERFLOW | SCL_ERR_EMPTY
  | SCL_ERR_NOT_FOUND | SCL_ERR_FULL | SCL_ERR_INVALID_INDEX | SCL_ERR_INVALID_ARG
  | SCL_ERR_DUPLICATE | SCL_ERR_ALLOC | SCL_ERR_INVALID_STATE | SCL_ERR_NOT_IMPLEMENTED
  | SCL_ERR_PARSE | SCL_ERR_UNSUPPORTED | SCL_ERR_IO | SCL_ERR_ALIGNMENT | SCL_ERR_LOCK
  | SCL_ERR_TIMEOUT | SCL_ERR_DEADLOCK | SCL_ERR_ML_CONVERGENCE | SCL_ERR_ML_SINGULAR
  | SCL_ERR_ML_NO_SOLUTION | SCL_ERR_ML_EMPTY_CLUSTER | SCL_ERR_ML_MISSING_DATA
  | SCL_ERR_ML_OVERFLOW

text \<open>The enumeration constants count from 0 in this order, so the type is ordered by its code.\<close>

definition err_code :: "scl_error_t \<Rightarrow> nat" where
  "err_code err = (case err of
     SCL_OK \<Rightarrow> 0 | SCL_ERR_NULL_PTR \<Rightarrow> 1 | SCL_ERR_OUT_OF_MEMORY \<Rightarrow> 2 | SCL_ERR_SIZE_OVERFLOW \<Rightarrow> 3
   | SCL_ERR_EMPTY \<Rightarrow> 4 | SCL_ERR_NOT_FOUND \<Rightarrow> 5 | SCL_ERR_FULL \<Rightarrow> 6 | SCL_ERR_INVALID_INDEX \<Rightarrow> 7
   | SCL_ERR_INVALID_ARG \<Rightarrow> 8 | SCL_ERR_DUPLICATE \<Rightarrow> 9 | SCL_ERR_ALLOC \<Rightarrow> 10 | SCL_ERR_INVALID_STATE \<Rightarrow> 11
   | SCL_ERR_NOT_IMPLEMENTED \<Rightarrow> 12 | SCL_ERR_PARSE \<Rightarrow> 13 | SCL_ERR_UNSUPPORTED \<Rightarrow> 14 | SCL_ERR_IO \<Rightarrow> 15
   | SCL_ERR_ALIGNMENT \<Rightarrow> 16 | SCL_ERR_LOCK \<Rightarrow> 17 | SCL_ERR_TIMEOUT \<Rightarrow> 18 | SCL_ERR_DEADLOCK \<Rightarrow> 19
   | SCL_ERR_ML_CONVERGENCE \<Rightarrow> 20 | SCL_ERR_ML_SINGULAR \<Rightarrow> 21 | SCL_ERR_ML_NO_SOLUTION \<Rightarrow> 22
   | SCL_ERR_ML_EMPTY_CLUSTER \<Rightarrow> 23 | SCL_ERR_ML_MISSING_DATA \<Rightarrow> 24 | SCL_ERR_ML_OVERFLOW \<Rightarrow> 25)"

lemma err_code_inj: "err_code e = err_code f \<Longrightarrow> e = f"
  by (cases e; cases f; simp add: err_code_def)

instantiation scl_error_t :: linorder
begin

definition less_eq_scl_error_t :: "scl_error_t \<Rightarrow> scl_error_t \<Rightarrow> bool" where
  "e \<le> f \<longleftrightarrow> err_code e \<le> err_code f"

definition less_scl_error_t :: "scl_error_t \<Rightarrow> scl_error_t \<Rightarrow> bool" where
  "e < f \<longleftrightarrow> err_code e < err_code f"

instance
  by standard (auto simp: less_eq_scl_error_t_def less_scl_error_t_def dest: err_code_inj)

end

definition scl_error_string :: "scl_error_t \<Rightarrow> string" where
  "scl_error_string err = (case err of
     SCL_OK \<Rightarrow> ''success''
   | SCL_ERR_NULL_PTR \<Rightarrow> ''null pointer''
   | SCL_ERR_OUT_OF_MEMORY \<Rightarrow> ''out of memory''
   | SCL_ERR_SIZE_OVERFLOW \<Rightarrow> ''size overflow''
   | SCL_ERR_EMPTY \<Rightarrow> ''container empty''
   | SCL_ERR_NOT_FOUND \<Rightarrow> ''not found''
   | SCL_ERR_FULL \<Rightarrow> ''container full''
   | SCL_ERR_INVALID_INDEX \<Rightarrow> ''invalid index''
   | SCL_ERR_INVALID_ARG \<Rightarrow> ''invalid argument''
   | SCL_ERR_DUPLICATE \<Rightarrow> ''duplicate entry''
   | SCL_ERR_ALLOC \<Rightarrow> ''allocator error''
   | SCL_ERR_INVALID_STATE \<Rightarrow> ''invalid state''
   | SCL_ERR_NOT_IMPLEMENTED \<Rightarrow> ''not implemented''
   | SCL_ERR_PARSE \<Rightarrow> ''parse error''
   | SCL_ERR_UNSUPPORTED \<Rightarrow> ''unsupported''
   | SCL_ERR_IO \<Rightarrow> ''I/O error''
   | SCL_ERR_ALIGNMENT \<Rightarrow> ''alignment error''
   | SCL_ERR_LOCK \<Rightarrow> ''lock failed''
   | SCL_ERR_TIMEOUT \<Rightarrow> ''timeout''
   | SCL_ERR_DEADLOCK \<Rightarrow> ''deadlock''
   | SCL_ERR_ML_CONVERGENCE \<Rightarrow> ''ML: solver did not converge''
   | SCL_ERR_ML_SINGULAR \<Rightarrow> ''ML: singular matrix''
   | SCL_ERR_ML_NO_SOLUTION \<Rightarrow> ''ML: no solution found''
   | SCL_ERR_ML_EMPTY_CLUSTER \<Rightarrow> ''ML: empty cluster''
   | SCL_ERR_ML_MISSING_DATA \<Rightarrow> ''ML: missing data (NaN/Inf)''
   | SCL_ERR_ML_OVERFLOW \<Rightarrow> ''ML: numerical overflow'')"

lemma error_string_inj: "scl_error_string e = scl_error_string f \<Longrightarrow> e = f"
  by (cases e; cases f; simp add: scl_error_string_def)

section \<open>Overflow-safe arithmetic\<close>

text \<open>The three functions return \<open>true\<close> on overflow and otherwise store their result; the
  model returns \<open>None\<close> on overflow. \<open>scl_mul_overflow\<close> is the compiler builtin (the exact
  product does not fit) and \<open>scl_mul_overflow_portable\<close> the division it falls back to.\<close>

definition scl_add_overflow :: "size_t \<Rightarrow> size_t \<Rightarrow> size_t option" where
  "scl_add_overflow a b = (if SIZE_MAX - b < a then None else Some (a + b))"

definition scl_mul_overflow :: "size_t \<Rightarrow> size_t \<Rightarrow> size_t option" where
  "scl_mul_overflow a b = (if 2 ^ 64 \<le> unat a * unat b then None else Some (a * b))"

definition scl_mul_overflow_portable :: "size_t \<Rightarrow> size_t \<Rightarrow> size_t option" where
  "scl_mul_overflow_portable a b = (if 0 < a \<and> SIZE_MAX div a < b then None else Some (a * b))"

definition scl_sub_overflow :: "size_t \<Rightarrow> size_t \<Rightarrow> size_t option" where
  "scl_sub_overflow a b = (if a < b then None else Some (a - b))"

lemma unat_SIZE_MAX_minus: "unat (SIZE_MAX - b) = 2 ^ 64 - 1 - unat b"
  by (simp add: unat_diff_le unat_SIZE_MAX)

lemma scl_add_overflow_eq:
  "scl_add_overflow a b = (if unat a + unat b < 2 ^ 64 then Some (a + b) else None)"
proof -
  have "SIZE_MAX - b < a \<longleftrightarrow> 2 ^ 64 - 1 - unat b < unat a"
    by (simp only: word_less_unat unat_SIZE_MAX_minus)
  also have "\<dots> \<longleftrightarrow> 18446744073709551615 - unat b < unat a" by simp
  also have "\<dots> \<longleftrightarrow> \<not> unat a + unat b < 18446744073709551616"
    using unat_lt_64 [of b] by linarith
  finally show ?thesis by (simp add: scl_add_overflow_def)
qed

lemma scl_add_overflow_Some:
  "scl_add_overflow a b = Some c \<Longrightarrow> unat c = unat a + unat b"
  by (auto simp: scl_add_overflow_eq unat_add_bounded split: if_splits)

lemma scl_mul_overflow_Some:
  assumes "scl_mul_overflow a b = Some c"
  shows "unat c = unat a * unat b"
proof -
  have "unat a * unat b < 2 ^ 64" and "c = a * b"
    using assms by (auto simp: scl_mul_overflow_def split: if_splits)
  then show ?thesis by (simp add: unat_mult_bounded [of a "unat a"])
qed

lemma scl_mul_overflow_None: "scl_mul_overflow a b = None \<longleftrightarrow> 2 ^ 64 \<le> unat a * unat b"
  by (simp add: scl_mul_overflow_def)

lemma scl_mul_overflow_small:
  "unat a * unat b < 2 ^ 64 \<Longrightarrow> scl_mul_overflow a b = Some (a * b)"
  by (simp add: scl_mul_overflow_def)

lemma scl_sub_overflow_eq:
  "scl_sub_overflow a b = (if unat b \<le> unat a then Some (a - b) else None)"
  by (simp add: scl_sub_overflow_def word_less_unat not_less)

lemma mul_overflow_division:
  fixes a b n :: nat
  assumes "0 < n" and "0 < a"
  shows "(n - 1) div a < b \<longleftrightarrow> n \<le> a * b"
proof -
  have "(n - 1) div a < b \<longleftrightarrow> n - 1 < b * a" using assms(2) by (rule div_less_iff_less_mult)
  also have "\<dots> \<longleftrightarrow> n \<le> a * b" using assms(1) by (simp add: mult.commute) linarith
  finally show ?thesis .
qed

lemma scl_mul_overflow_portable_eq: "scl_mul_overflow_portable a b = scl_mul_overflow a b"
proof (cases "a = 0")
  case True
  then show ?thesis by (simp add: scl_mul_overflow_portable_def scl_mul_overflow_def)
next
  case False
  have "SIZE_MAX div a < b \<longleftrightarrow> (2 ^ 64 - 1) div unat a < unat b"
    by (simp only: word_less_unat unat_div unat_SIZE_MAX)
  also have "\<dots> \<longleftrightarrow> 2 ^ 64 \<le> unat a * unat b"
    using False by (intro mul_overflow_division) (simp_all add: unat_pos_iff)
  finally show ?thesis
    using False by (simp add: scl_mul_overflow_portable_def scl_mul_overflow_def word_gt_0)
qed

section \<open>Bounds of untrusted lengths\<close>

definition scl_range_in_bounds :: "size_t \<Rightarrow> size_t \<Rightarrow> size_t \<Rightarrow> bool" where
  "scl_range_in_bounds tot off n = (if tot < off then False else n \<le> tot - off)"

definition scl_clamp_len :: "size_t \<Rightarrow> size_t \<Rightarrow> size_t \<Rightarrow> size_t" where
  "scl_clamp_len tot off want =
     (if tot \<le> off then 0
      else let avail = tot - off in if want < avail then want else avail)"

definition scl_min_sz :: "size_t \<Rightarrow> size_t \<Rightarrow> size_t" where
  "scl_min_sz a b = (if a < b then a else b)"

definition scl_max_sz :: "size_t \<Rightarrow> size_t \<Rightarrow> size_t" where
  "scl_max_sz a b = (if b < a then a else b)"

lemma scl_range_in_bounds_iff:
  "scl_range_in_bounds tot off n \<longleftrightarrow> unat off + unat n \<le> unat tot"
  by (auto simp: scl_range_in_bounds_def word_less_unat word_le_unat unat_diff_le not_less)

lemma unat_scl_clamp_len:
  "unat (scl_clamp_len tot off want) = min (unat want) (unat tot - unat off)"
  by (auto simp: scl_clamp_len_def Let_def word_less_unat word_le_unat unat_diff_le min_def)

section \<open>Alignment\<close>

definition scl_is_pow2_sz :: "size_t \<Rightarrow> bool" where
  "scl_is_pow2_sz v \<longleftrightarrow> v \<noteq> 0 \<and> v AND (v - 1) = 0"

definition scl_is_aligned_sz :: "size_t \<Rightarrow> size_t \<Rightarrow> bool" where
  "scl_is_aligned_sz v align \<longleftrightarrow> v AND (align - 1) = 0"

definition scl_align_forward :: "size_t \<Rightarrow> size_t \<Rightarrow> size_t" where
  "scl_align_forward off align = (let m = align - 1 in (off + m) AND NOT m)"

definition scl_pad_to_cacheline :: "size_t \<Rightarrow> size_t" where
  "scl_pad_to_cacheline sz = (let cl = 64 in (sz + cl - 1) AND NOT (cl - 1))"

lemma and_not_mask_diff: "(x::size_t) AND NOT m = x - (x AND m)"
proof -
  have "(x AND NOT m) + (x AND m) = x"
    by (subst disjunctive_add) (auto simp: bit_simps bit_eq_iff)
  then show ?thesis by (simp add: eq_diff_eq)
qed

lemma scl_is_aligned_eq: "pow2_sz al \<Longrightarrow> scl_is_aligned_sz v al \<longleftrightarrow> unat al dvd unat v"
  using unat_mask_index [of al v] by (auto simp: scl_is_aligned_sz_def dvd_eq_mod_eq_0 simp flip: unat_eq_0_iff)

lemma unat_align_down:
  assumes "pow2_sz al"
  shows "unat (x AND NOT (al - 1)) = unat x - unat x mod unat al"
proof -
  have "unat (x AND (al - 1)) \<le> unat x" using assms by (simp add: unat_mask_index)
  then have "x AND (al - 1) \<le> x" by (simp add: word_le_unat)
  then show ?thesis using assms by (simp add: and_not_mask_diff unat_diff_le unat_mask_index)
qed

lemma round_up_multiple:
  fixes n a :: nat
  assumes "0 < a"
  shows "(n + (a - 1)) - (n + (a - 1)) mod a = (n + (a - 1)) div a * a"
  by (simp add: minus_mod_eq_div_mult)

lemma round_up_least:
  fixes n a :: nat
  assumes "0 < a"
  shows "a dvd (n + (a - 1)) div a * a \<and> n \<le> (n + (a - 1)) div a * a \<and> (n + (a - 1)) div a * a < n + a"
proof -
  define q where "q = (n + (a - 1)) div a * a"
  have "q + (n + (a - 1)) mod a = n + (a - 1)" unfolding q_def by (rule div_mult_mod_eq)
  moreover have "(n + (a - 1)) mod a < a" using assms by (rule mod_less_divisor)
  ultimately have "n \<le> q" "q < n + a" using assms by linarith+
  moreover have "a dvd q" by (simp add: q_def)
  ultimately show ?thesis by (simp only: q_def)
qed

lemma scl_align_forward_eq:
  assumes "pow2_sz al" and "unat off + (unat al - 1) < 2 ^ 64"
  shows "unat (scl_align_forward off al) = (unat off + (unat al - 1)) div unat al * unat al"
proof -
  have al: "0 < unat al" "al \<noteq> 0" using pow2_sz_pos [OF assms(1)] by auto
  have "unat (off + (al - 1)) = unat off + (unat al - 1)"
    using assms(2) al by (simp add: unat_add_bounded unat_pred)
  then have "unat (scl_align_forward off al)
      = (unat off + (unat al - 1)) - (unat off + (unat al - 1)) mod unat al"
    by (simp only: scl_align_forward_def Let_def unat_align_down [OF assms(1)])
  then show ?thesis by (simp only: round_up_multiple [OF al(1)])
qed

section \<open>Bit utilities\<close>

text \<open>\<open>scl_bit_ceil_sz\<close> decrements, smears the highest bit downwards by doubling shifts and
  increments: the increment wraps to 0 when the highest bit was bit 63.\<close>

definition smear :: "nat \<Rightarrow> 'a::len word \<Rightarrow> 'a word" where
  "smear s v = v OR drop_bit s v"

definition scl_bit_ceil_sz :: "size_t \<Rightarrow> size_t" where
  "scl_bit_ceil_sz v =
     (if v = 0 then 1
      else let v = v - 1;
               v = smear 1 v; v = smear 2 v; v = smear 4 v;
               v = smear 8 v; v = smear 16 v; v = smear 32 v
           in v + 1)"

definition scl_bit_ceil_u32 :: "32 word \<Rightarrow> 32 word" where
  "scl_bit_ceil_u32 v =
     (if v = 0 then 1
      else let v = v - 1;
               v = smear 1 v; v = smear 2 v; v = smear 4 v;
               v = smear 8 v; v = smear 16 v
           in v + 1)"

text \<open>\<open>smeared s u v\<close>: bit \<open>i\<close> of \<open>v\<close> is the disjunction of the bits \<open>[i, i + s)\<close> of \<open>u\<close>.\<close>

definition smeared :: "nat \<Rightarrow> 'a::len word \<Rightarrow> 'a word \<Rightarrow> bool" where
  "smeared s u v \<longleftrightarrow> (\<forall>i. bit v i \<longleftrightarrow> (\<exists>d < s. bit u (i + d)))"

lemma smeared_one: "smeared 1 u u"
  by (simp add: smeared_def)

lemma smeared_double:
  assumes "smeared s u v"
  shows "smeared (2 * s) u (smear s v)"
  unfolding smeared_def
proof
  fix i
  have "bit (smear s v) i \<longleftrightarrow> bit v i \<or> bit v (s + i)"
    by (simp add: smear_def bit_or_iff bit_drop_bit_eq)
  also have "\<dots> \<longleftrightarrow> (\<exists>d < s. bit u (i + d)) \<or> (\<exists>d < s. bit u (s + i + d))"
    using assms by (simp add: smeared_def)
  also have "\<dots> \<longleftrightarrow> (\<exists>d < 2 * s. bit u (i + d))"
  proof
    assume "\<exists>d < 2 * s. bit u (i + d)"
    then obtain d where d: "d < 2 * s" "bit u (i + d)" by blast
    show "(\<exists>d < s. bit u (i + d)) \<or> (\<exists>d < s. bit u (s + i + d))"
    proof (cases "d < s")
      case False
      then obtain e where "d = s + e" by (metis le_Suc_ex not_less)
      then have "e < s" "bit u (s + i + e)" using d by (simp_all add: ac_simps)
      then show ?thesis by blast
    qed (use d in blast)
  next
    assume "(\<exists>d < s. bit u (i + d)) \<or> (\<exists>d < s. bit u (s + i + d))"
    then consider d where "d < s" "bit u (i + d)" | d where "d < s" "bit u (s + i + d)" by blast
    then show "\<exists>d < 2 * s. bit u (i + d)"
    proof cases
      case (1 d)
      then show ?thesis by (intro exI [of _ d]) simp
    next
      case (2 d)
      then show ?thesis by (intro exI [of _ "s + d"]) (simp add: ac_simps)
    qed
  qed
  finally show "bit (smear s v) i \<longleftrightarrow> (\<exists>d < 2 * s. bit u (i + d))" .
qed

text \<open>Smearing all the way down leaves the mask of the position of the highest bit.\<close>

lemma smeared_full:
  fixes u v :: "'a::len word"
  assumes "smeared LENGTH('a) u v" and "2 ^ n \<le> unat u" and "unat u < 2 ^ Suc n"
  shows "v = mask (Suc n)"
proof (rule bit_word_eqI)
  fix i assume i: "i < LENGTH('a)"
  have n: "n < LENGTH('a)"
    using le_less_trans [OF assms(2) unsigned_less] by (simp add: power_strict_increasing_iff)
  have ubit: "bit u j \<longleftrightarrow> bit (unat u) j" for j
    by (simp add: bit_unsigned_iff)
  have div: "unat u div 2 ^ n = 1"
    using assms(2,3) by (intro div_nat_eqI) simp_all
  have top: "bit u n" unfolding ubit by (simp add: bit_iff_odd div)
  have none: "\<not> bit u j" if "n < j" for j
  proof -
    have "2 ^ Suc n \<le> (2::nat) ^ j" using that by (intro power_increasing) auto
    then have "unat u div 2 ^ j = 0" using assms(3) by (intro div_less) linarith
    then show ?thesis unfolding ubit by (simp add: bit_iff_odd)
  qed
  have "bit v i \<longleftrightarrow> (\<exists>d < LENGTH('a). bit u (i + d))" using assms(1) by (simp add: smeared_def)
  also have "\<dots> \<longleftrightarrow> i < Suc n"
  proof
    assume "\<exists>d < LENGTH('a). bit u (i + d)"
    then show "i < Suc n" using none by (metis le_add1 less_Suc_eq_le linorder_not_less le_less_trans)
  next
    assume "i < Suc n"
    then show "\<exists>d < LENGTH('a). bit u (i + d)" using top n by (intro exI [of _ "n - i"]) auto
  qed
  also have "\<dots> \<longleftrightarrow> bit (mask (Suc n) :: 'a word) i" using i by (simp add: bit_mask_iff)
  finally show "bit v i = bit (mask (Suc n) :: 'a word) i" .
qed

lemma exists_log2: "0 < n \<Longrightarrow> \<exists>k. 2 ^ k \<le> n \<and> n < 2 ^ Suc k" for n :: nat
proof (induction n rule: less_induct)
  case (less n)
  show ?case
  proof (cases "n = 1")
    case True
    then show ?thesis by (intro exI [of _ 0]) simp
  next
    case False
    then have "0 < n div 2" "n div 2 < n" using less.prems by auto
    then obtain k where "2 ^ k \<le> n div 2" "n div 2 < 2 ^ Suc k" using less.IH by blast
    then show ?thesis by (intro exI [of _ "Suc k"]) auto
  qed
qed

lemma scl_bit_ceil_sz_run:
  assumes "v \<noteq> 0" and "2 ^ n \<le> unat (v - 1)" and "unat (v - 1) < 2 ^ Suc n"
  shows "scl_bit_ceil_sz v = 2 ^ Suc n"
proof -
  let ?u = "v - 1"
  define w where "w = smear 32 (smear 16 (smear 8 (smear 4 (smear 2 (smear 1 ?u)))))"
  have "smeared (2 * (2 * (2 * (2 * (2 * (2 * 1)))))) ?u w"
    unfolding w_def
    using smeared_double [OF smeared_double [OF smeared_double [OF smeared_double
      [OF smeared_double [OF smeared_double [OF smeared_one [of ?u]]]]]]] by simp
  then have "smeared LENGTH(64) ?u w" by simp
  then have "w = mask (Suc n)" using assms(2,3) by (rule smeared_full)
  then have "w + 1 = 2 ^ Suc n" by (simp add: mask_eq_exp_minus_1)
  then show ?thesis using assms(1) by (simp add: scl_bit_ceil_sz_def Let_def w_def)
qed

lemma scl_bit_ceil_sz_small: "scl_bit_ceil_sz 0 = 1" "scl_bit_ceil_sz 1 = 1"
  by (simp_all add: scl_bit_ceil_sz_def smear_def Let_def)

text \<open>Above \<open>2\<^sup>6\<^sup>3\<close> there is no power of two left in the type, and the result is 0.\<close>

lemma scl_bit_ceil_sz_wraps:
  assumes "2 ^ 63 < unat v"
  shows "scl_bit_ceil_sz v = 0"
proof -
  have v: "v \<noteq> 0" using assms by auto
  then have "unat (v - 1) = unat v - 1" by (rule unat_pred)
  then have "2 ^ 63 \<le> unat (v - 1)" using assms by linarith
  moreover have "unat (v - 1) < 2 ^ Suc 63" by simp
  ultimately have "scl_bit_ceil_sz v = 2 ^ Suc 63" using v by (intro scl_bit_ceil_sz_run)
  then show ?thesis by simp
qed

lemma scl_bit_ceil_sz_cases:
  assumes "unat v \<le> 2 ^ 63" and "1 < unat v"
  obtains n where "n < 63" and "unat (scl_bit_ceil_sz v) = 2 ^ Suc n"
    and "2 ^ n < unat v" and "unat v \<le> 2 ^ Suc n"
proof -
  have v: "v \<noteq> 0" using assms(2) by auto
  then have p: "unat (v - 1) = unat v - 1" by (rule unat_pred)
  then obtain n where n: "2 ^ n \<le> unat (v - 1)" "unat (v - 1) < 2 ^ Suc n"
    using exists_log2 [of "unat (v - 1)"] assms(2) by auto
  have "(2::nat) ^ n < 2 ^ 63" using n(1) p assms by linarith
  then have n63: "n < 63" by (rule power_less_imp_less_exp [rotated]) simp
  have "scl_bit_ceil_sz v = 2 ^ Suc n" using v n by (rule scl_bit_ceil_sz_run)
  then have "unat (scl_bit_ceil_sz v) = 2 ^ Suc n" using unat_exp2 [of "Suc n"] n63 by simp
  with n63 that [of n] n p assms(2) show thesis by simp
qed

lemma pow2_scl_bit_ceil_sz:
  assumes "unat v \<le> 2 ^ 63"
  shows "pow2_sz (scl_bit_ceil_sz v)"
proof (cases "1 < unat v")
  case True
  then obtain n where "n < 63" "unat (scl_bit_ceil_sz v) = 2 ^ Suc n"
    using scl_bit_ceil_sz_cases [OF assms] by blast
  then show ?thesis unfolding pow2_sz_def by (intro exI [of _ "Suc n"]) simp
next
  case False
  then have "unat v = 0 \<or> unat v = 1" by linarith
  then have "v = 0 \<or> v = 1" by (metis unat_eq_0_iff word_unat_eq_iff unsigned_1)
  then show ?thesis by (auto simp: scl_bit_ceil_sz_small pow2_sz_def intro: exI [of _ 0])
qed

lemma scl_bit_ceil_sz_ge:
  assumes "unat v \<le> 2 ^ 63"
  shows "v \<le> scl_bit_ceil_sz v"
proof (cases "1 < unat v")
  case True
  then obtain n where "unat (scl_bit_ceil_sz v) = 2 ^ Suc n" "unat v \<le> 2 ^ Suc n"
    using scl_bit_ceil_sz_cases [OF assms] by blast
  then show ?thesis by (simp add: word_le_unat)
next
  case False
  moreover have "0 < unat (scl_bit_ceil_sz v)" using pow2_scl_bit_ceil_sz [OF assms] by (rule pow2_sz_pos)
  ultimately show ?thesis unfolding word_le_unat by linarith
qed

lemma scl_bit_ceil_sz_least:
  assumes "unat v \<le> 2 ^ 63" and p: "pow2_sz p" "v \<le> p"
  shows "scl_bit_ceil_sz v \<le> p"
proof (cases "1 < unat v")
  case False
  then have "v = 0 \<or> v = 1" by (metis unat_eq_0_iff word_unat_eq_iff unsigned_1 less_one linorder_neqE_nat)
  then show ?thesis using pow2_sz_pos [OF p(1)] by (auto simp: scl_bit_ceil_sz_small word_le_unat)
next
  case True
  obtain n where n: "unat (scl_bit_ceil_sz v) = 2 ^ Suc n" "2 ^ n < unat v"
    using scl_bit_ceil_sz_cases [OF assms(1) True] by blast
  obtain k where k: "unat p = 2 ^ k" using p(1) by (auto simp: pow2_sz_def)
  have "(2::nat) ^ n < 2 ^ k" using n(2) p(2) k unfolding word_le_unat by linarith
  then have "n < k" by (simp only: power_strict_increasing_iff one_less_numeral_iff semiring_norm)
  then have "(2::nat) ^ Suc n \<le> 2 ^ k" by (intro power_increasing) simp_all
  then show ?thesis using n(1) k by (simp add: word_le_unat)
qed

lemma unat_half: "unat (drop_bit 1 v) = unat v div 2" for v :: size_t
  by (simp add: drop_bit_eq_div unat_div)

text \<open>The index of the highest set bit: the builtin counts leading zeros of \<open>v | 1\<close>, the
  fallback shifts until one bit is left.\<close>

function log2_loop :: "size_t \<Rightarrow> size_t \<Rightarrow> size_t" where
  "log2_loop v r = (if 1 < v then log2_loop (drop_bit 1 v) (r + 1) else r)"
  by pat_completeness auto
termination
proof (relation "measure (\<lambda>(v, r). unat v)")
  fix v r :: size_t assume "1 < v"
  then have "unat (drop_bit 1 v) < unat v"
    by (simp only: unat_half) (simp add: word_less_unat)
  then show "((drop_bit 1 v, r + 1), v, r) \<in> measure (\<lambda>(v, r). unat v)" by simp
qed simp

declare log2_loop.simps [simp del]

definition scl_log2_sz :: "size_t \<Rightarrow> size_t" where
  "scl_log2_sz v = log2_loop v 0"

lemma unat_log2_loop:
  "v \<noteq> 0 \<Longrightarrow> 2 ^ k \<le> unat v \<Longrightarrow> unat v < 2 ^ Suc k \<Longrightarrow> log2_loop v r = r + of_nat k"
proof (induction v r arbitrary: k rule: log2_loop.induct)
  case (1 v r)
  show ?case
  proof (cases "1 < v")
    case True
    then have "2 \<le> unat v" by (simp add: word_less_unat)
    then obtain m where m: "k = Suc m" using "1.prems"(3) by (cases k) auto
    have "unat (drop_bit 1 v) = unat v div 2" by (rule unat_half)
    moreover have "drop_bit 1 v \<noteq> 0"
      using \<open>2 \<le> unat v\<close> unat_half [of v] by (metis div_greater_zero_iff less_irrefl unat_eq_0_iff zero_less_numeral)
    ultimately have "log2_loop (drop_bit 1 v) (r + 1) = r + 1 + of_nat m"
      using "1.IH" [OF True, of m] "1.prems" m by simp
    then show ?thesis using True m by (simp add: log2_loop.simps [of v])
  next
    case False
    then have "unat v \<le> 1" by (simp add: word_less_unat)
    then have "(2::nat) ^ k \<le> 1" using "1.prems"(2) by linarith
    moreover have "k < 2 ^ k" by (rule less_exp)
    ultimately have "k = 0" by linarith
    then show ?thesis using False by (simp add: log2_loop.simps [of v])
  qed
qed

section \<open>Bounded string copies\<close>

definition byte_at :: "block \<Rightarrow> nat \<Rightarrow> byte ub" where
  "byte_at b i = (if i < length b then Some (b ! i) else None)"

definition set_byte :: "block \<Rightarrow> nat \<Rightarrow> byte \<Rightarrow> block ub" where
  "set_byte b i c = (if i < length b then Some (b[i := c]) else None)"

text \<open>\<open>while (s[n]) n++\<close>: the scan of \<open>strlen\<close> from position \<open>n\<close>.\<close>

function strlen_from :: "block \<Rightarrow> nat \<Rightarrow> nat ub" where
  "strlen_from s n =
     (case byte_at s n of None \<Rightarrow> None
      | Some c \<Rightarrow> if c = 0 then Some n else strlen_from s (Suc n))"
  by pat_completeness auto
termination
  by (relation "measure (\<lambda>(s, n). length s - n)") (auto simp: byte_at_def split: if_splits)

declare strlen_from.simps [simp del]

function strlcpy_copy :: "nat \<Rightarrow> block \<Rightarrow> nat \<Rightarrow> block \<Rightarrow> (nat \<times> block) ub" where
  "strlcpy_copy dsize src n dst =
     (if n + 1 < dsize then do {
        c \<leftarrow> byte_at src n;
        if c = 0 then Some (n, dst)
        else do { dst' \<leftarrow> set_byte dst n c; strlcpy_copy dsize src (Suc n) dst' }
      } else Some (n, dst))"
  by pat_completeness auto
termination
  by (relation "measure (\<lambda>(dsize, src, n, dst). dsize - n)") auto

definition scl_strlcpy :: "block \<Rightarrow> block \<Rightarrow> nat \<Rightarrow> (nat \<times> block) ub" where
  "scl_strlcpy dst src dsize = do {
     (n, dst) \<leftarrow> strlcpy_copy dsize src 0 dst;
     if dsize = 0 then do { l \<leftarrow> strlen_from src 0; Some (l, dst) }
     else do {
       dst \<leftarrow> set_byte dst n 0;
       n \<leftarrow> strlen_from src n;
       Some (n, dst)
     }
   }"

text \<open>\<open>while (di < dsize && dst[di]) di++\<close>.\<close>

function strlcat_end :: "nat \<Rightarrow> block \<Rightarrow> nat \<Rightarrow> nat ub" where
  "strlcat_end dsize dst di =
     (if di < dsize then do {
        c \<leftarrow> byte_at dst di;
        if c = 0 then Some di else strlcat_end dsize dst (Suc di)
      } else Some di)"
  by pat_completeness auto
termination
  by (relation "measure (\<lambda>(dsize, dst, di). dsize - di)") auto

function strlcat_copy :: "nat \<Rightarrow> block \<Rightarrow> nat \<Rightarrow> nat \<Rightarrow> block \<Rightarrow> (nat \<times> nat \<times> block) ub" where
  "strlcat_copy dsize src di si dst =
     (if di + 1 < dsize then do {
        c \<leftarrow> byte_at src si;
        if c = 0 then Some (di, si, dst)
        else do { dst' \<leftarrow> set_byte dst di c; strlcat_copy dsize src (Suc di) (Suc si) dst' }
      } else Some (di, si, dst))"
  by pat_completeness auto
termination
  by (relation "measure (\<lambda>(dsize, src, di, si, dst). dsize - di)") auto

declare strlcpy_copy.simps [simp del] strlcat_end.simps [simp del] strlcat_copy.simps [simp del]

definition scl_strlcat :: "block \<Rightarrow> block \<Rightarrow> nat \<Rightarrow> (nat \<times> block) ub" where
  "scl_strlcat dst src dsize = do {
     di \<leftarrow> strlcat_end dsize dst 0;
     if di = dsize then do { l \<leftarrow> strlen_from src 0; Some (di + l, dst) }
     else do {
       (di, si, dst) \<leftarrow> strlcat_copy dsize src di 0 dst;
       dst \<leftarrow> set_byte dst di 0;
       si \<leftarrow> strlen_from src si;
       Some (di + si, dst)
     }
   }"

text \<open>A block that starts with the C string \<open>s\<close>.\<close>

definition cstring :: "block \<Rightarrow> byte list \<Rightarrow> bool" where
  "cstring b s \<longleftrightarrow> 0 \<notin> set s \<and> (\<exists>t. b = s @ 0 # t)"

lemma cstring_at: "cstring b s \<Longrightarrow> i < length s \<Longrightarrow> byte_at b i = Some (s ! i) \<and> s ! i \<noteq> 0"
  by (auto simp: cstring_def byte_at_def nth_append) (metis nth_mem)

lemma cstring_end: "cstring b s \<Longrightarrow> byte_at b (length s) = Some 0"
  by (auto simp: cstring_def byte_at_def)

lemma strlen_from_cstring: "cstring b s \<Longrightarrow> n \<le> length s \<Longrightarrow> strlen_from b n = Some (length s)"
proof (induction b n rule: strlen_from.induct)
  case (1 b n)
  show ?case
  proof (cases "n = length s")
    case True
    then show ?thesis using "1.prems" by (simp add: strlen_from.simps [of b] cstring_end)
  next
    case False
    then have "n < length s" using "1.prems" by simp
    then show ?thesis
      using cstring_at [OF "1.prems"(1), of n] "1.IH" "1.prems" by (simp add: strlen_from.simps [of b n])
  qed
qed

lemma strlcat_end_cstring:
  "cstring b s \<Longrightarrow> n \<le> length s \<Longrightarrow> length s < dsize \<Longrightarrow> strlcat_end dsize b n = Some (length s)"
proof (induction dsize b n rule: strlcat_end.induct)
  case (1 dsize b n)
  show ?case
  proof (cases "n = length s")
    case True
    then show ?thesis using "1.prems" by (simp add: strlcat_end.simps [of dsize b] cstring_end)
  next
    case False
    then have "n < length s" using "1.prems" by simp
    then show ?thesis
      using cstring_at [OF "1.prems"(1), of n] "1.IH" "1.prems" by (simp add: strlcat_end.simps [of dsize b n])
  qed
qed

lemma strlcat_copy_cstring:
  assumes "cstring b s" and "si \<le> length s" and "di < dsize" and "dsize \<le> length dst"
    and "k = min (length s - si) (dsize - 1 - di)"
  shows "strlcat_copy dsize b di si dst
    = Some (di + k, si + k, take di dst @ take k (drop si s) @ drop (di + k) dst)"
  using assms
proof (induction k arbitrary: di si dst)
  case 0
  then consider "si = length s" | "\<not> di + 1 < dsize" by (auto simp: min_def split: if_splits)
  then show ?case
    by cases (use "0.prems" in \<open>simp_all add: strlcat_copy.simps [of dsize b di] cstring_end\<close>)
next
  case (Suc k)
  have si: "si < length s" and di: "di + 1 < dsize" using Suc.prems(5) by (auto simp: min_def split: if_splits)
  have k: "k = min (length s - Suc si) (dsize - 1 - Suc di)" using Suc.prems(5) by linarith
  have "strlcat_copy dsize b di si dst = strlcat_copy dsize b (Suc di) (Suc si) (dst[di := s ! si])"
    using cstring_at [OF Suc.prems(1) si] di Suc.prems(4)
    by (simp add: strlcat_copy.simps [of dsize b di si dst] set_byte_def)
  also have "\<dots> = Some (Suc di + k, Suc si + k,
      take (Suc di) (dst[di := s ! si]) @ take k (drop (Suc si) s) @ drop (Suc di + k) (dst[di := s ! si]))"
    using si di Suc.prems(1,4) k by (intro Suc.IH) auto
  also have "take (Suc di) (dst[di := s ! si]) = take di dst @ [s ! si]"
    using di Suc.prems(4) by (simp add: take_Suc_conv_app_nth)
  also have "drop (Suc di + k) (dst[di := s ! si]) = drop (di + Suc k) dst" by simp
  also have "(take di dst @ [s ! si]) @ take k (drop (Suc si) s) @ drop (di + Suc k) dst
      = take di dst @ take (Suc k) (drop si s) @ drop (di + Suc k) dst"
    using si by (simp add: Cons_nth_drop_Suc [symmetric])
  finally show ?case by simp
qed

lemma strlcpy_copy_eq:
  "strlcpy_copy dsize b n dst = map_option (\<lambda>(di, si, d). (di, d)) (strlcat_copy dsize b n n dst)"
proof (induction dsize b n dst rule: strlcpy_copy.induct)
  case (1 dsize b n dst)
  then show ?case
    by (cases "byte_at b n"; cases "set_byte dst n (the (byte_at b n))")
      (auto simp: strlcpy_copy.simps [of dsize b n dst] strlcat_copy.simps [of dsize b n n dst])
qed

lemma list_update_append_exact: "length xs = n \<Longrightarrow> ys \<noteq> [] \<Longrightarrow> (xs @ ys)[n := v] = xs @ v # tl ys"
  by (cases ys) (simp_all add: list_update_append)

lemma set_terminator:
  assumes "n < length dst" and "length xs = n"
  shows "set_byte (xs @ drop n dst) n 0 = Some (xs @ 0 # drop (Suc n) dst)"
proof -
  have "(xs @ drop n dst)[n := 0] = xs @ 0 # tl (drop n dst)"
    using assms by (intro list_update_append_exact) simp_all
  then show ?thesis using assms by (simp add: set_byte_def drop_Suc drop_tl)
qed

lemma scl_strlcpy_cstring:
  assumes "cstring src s" and "0 < dsize" and "dsize \<le> length dst"
  shows "scl_strlcpy dst src dsize = Some (length s,
    take (dsize - 1) s @ 0 # drop (Suc (min (length s) (dsize - 1))) dst)"
proof -
  define k where "k = min (length s) (dsize - 1)"
  have kl: "k < length dst" and ks: "k \<le> length s" using assms(2,3) by (auto simp: k_def)
  have "strlcpy_copy dsize src 0 dst = Some (k, take k s @ drop k dst)"
    using strlcat_copy_cstring [OF assms(1), of 0 0 dsize dst k] assms(2,3) by (simp add: strlcpy_copy_eq k_def)
  moreover have "set_byte (take k s @ drop k dst) k 0 = Some (take k s @ 0 # drop (Suc k) dst)"
    using kl ks by (intro set_terminator) simp_all
  moreover have "take k s = take (dsize - 1) s" by (simp add: k_def min_def)
  ultimately show ?thesis
    using assms(2) strlen_from_cstring [OF assms(1) ks]
    unfolding k_def [symmetric] by (simp add: scl_strlcpy_def)
qed

text \<open>The value \<open>scl_strlcat\<close> returns counts the copied bytes twice: \<open>di\<close> has already been
  advanced over them when \<open>si\<close>, which covers the whole source, is added.\<close>

lemma scl_strlcat_cstring:
  assumes "cstring dst d" and "cstring src s" and "length d < dsize" and "dsize \<le> length dst"
  defines "k \<equiv> min (length s) (dsize - 1 - length d)"
  shows "scl_strlcat dst src dsize = Some (length d + k + length s,
    d @ take k s @ 0 # drop (Suc (length d + k)) dst)"
proof -
  have "strlcat_end dsize dst 0 = Some (length d)"
    using strlcat_end_cstring [OF assms(1) _ assms(3), of 0] by simp
  moreover have "strlcat_copy dsize src (length d) 0 dst
      = Some (length d + k, k, d @ take k s @ drop (length d + k) dst)"
    using strlcat_copy_cstring [OF assms(2) _ assms(3,4), of 0 k] assms(1)
    by (auto simp: k_def cstring_def)
  moreover have kl: "length d + k < length dst" using assms(3,4) unfolding k_def by linarith
  have ks: "k \<le> length s" by (simp add: k_def)
  have "set_byte ((d @ take k s) @ drop (length d + k) dst) (length d + k) 0
      = Some ((d @ take k s) @ 0 # drop (Suc (length d + k)) dst)"
    using kl ks by (intro set_terminator) simp_all
  moreover have "strlen_from src k = Some (length s)"
    using assms(2) ks by (rule strlen_from_cstring)
  ultimately show ?thesis using assms(3) by (simp add: scl_strlcat_def)
qed

section \<open>Copies between blocks\<close>

text \<open>\<open>scl_memcpy(dest + doff, src + soff, n)\<close> between two different blocks. A null pointer
  with offset 0 is what the guard of the function sees; with another offset the access is
  undefined.\<close>

definition scl_memcpy :: "block ptr \<Rightarrow> nat \<Rightarrow> block ptr \<Rightarrow> nat \<Rightarrow> nat \<Rightarrow> block ptr ub" where
  "scl_memcpy dest doff src soff n =
     (case dest of
        None \<Rightarrow> if doff = 0 then Some dest else None
      | Some d \<Rightarrow>
          (case src of
             None \<Rightarrow> if soff = 0 then Some dest else None
           | Some s \<Rightarrow> do { v \<leftarrow> mem_read s soff n; d' \<leftarrow> mem_write d doff v; Some (Some d') }))"

text \<open>The same within one block: \<open>memmove\<close> reads before it writes, \<open>memcpy\<close> additionally
  requires the two ranges not to overlap.\<close>

definition scl_memmove :: "block ptr \<Rightarrow> nat \<Rightarrow> nat \<Rightarrow> nat \<Rightarrow> block ptr ub" where
  "scl_memmove b doff soff n =
     (case b of
        None \<Rightarrow> if doff = 0 \<or> soff = 0 then Some b else None
      | Some d \<Rightarrow> do { v \<leftarrow> mem_read d soff n; d' \<leftarrow> mem_write d doff v; Some (Some d') })"

definition scl_memcpy_within :: "block ptr \<Rightarrow> nat \<Rightarrow> nat \<Rightarrow> nat \<Rightarrow> block ptr ub" where
  "scl_memcpy_within b doff soff n =
     (if doff < soff + n \<and> soff < doff + n then None else scl_memmove b doff soff n)"

lemma memcpy_to_slot [mem_simps]:
  "i * es + es \<le> length b \<Longrightarrow> es \<le> length e \<Longrightarrow>
   scl_memcpy (Some b) (i * es) (Some e) 0 es = Some (Some (put_elem es b i (take es e)))"
  by (simp add: scl_memcpy_def mem_read_def mem_write_elem)

lemma memcpy_from_slot [mem_simps]:
  "i * es + es \<le> length b \<Longrightarrow> es \<le> length out \<Longrightarrow>
   scl_memcpy (Some out) 0 (Some b) (i * es) es = Some (Some (elem es b i @ drop es out))"
  by (simp add: scl_memcpy_def mem_read_elem) (simp add: mem_write_def)

lemma memcpy_slot_slot [mem_simps]:
  "i * es + es \<le> length b \<Longrightarrow> j * es + es \<le> length c \<Longrightarrow>
   scl_memcpy (Some b) (i * es) (Some c) (j * es) es = Some (Some (put_elem es b i (elem es c j)))"
  by (simp add: scl_memcpy_def mem_read_elem mem_write_elem)

lemma memmove_slots:
  assumes "(s + n) * es \<le> length b" and "(d + n) * es \<le> length b"
  obtains b' where "scl_memmove (Some b) (d * es) (s * es) (n * es) = Some (Some b')"
    and "length b' = length b"
    and "\<And>k. k * es + es \<le> length b \<Longrightarrow>
      elem es b' k = (if d \<le> k \<and> k < d + n then elem es b (s + k - d) else elem es b k)"
proof -
  from mem_move_slots [OF assms] obtain b' where b':
    "(mem_read b (s * es) (n * es) \<bind> mem_write b (d * es)) = Some b'" "length b' = length b"
    "\<forall>k. k * es + es \<le> length b \<longrightarrow>
      elem es b' k = (if d \<le> k \<and> k < d + n then elem es b (s + k - d) else elem es b k)"
    by blast
  then have "scl_memmove (Some b) (d * es) (s * es) (n * es) = Some (Some b')"
    by (cases "mem_read b (s * es) (n * es)") (simp_all add: scl_memmove_def)
  then show thesis using b' by (intro that) blast+
qed

end
