(* ===== verification/Scl_Alloc.thy ===== *)
theory Scl_Alloc
  imports Scl_Common
begin

text \<open>
  The allocator interface \<open>scl_allocator_t\<close> of \<open>libs/core/scl_common.h\<close> and its default
  implementation over libc in \<open>libs/common/scl_common.c\<close>.

  Every container operation takes the allocator as an argument. The \<open>state\<close> pointer that the C
  functions receive is represented by the number of allocator calls the operation has made so
  far, so that an allocator may answer equal requests differently. A block returned by
  \<open>malloc\<close> has arbitrary contents. libc itself is a parameter; the locale \<open>libc_heap\<close>
  states the documented behaviour of \<open>malloc\<close>, \<open>realloc\<close> and \<open>posix_memalign\<close> that the
  default allocator relies on, and the locale \<open>scl_allocator\<close> what its clients rely on.
\<close>

section \<open>The interface\<close>

record scl_allocator_t =
  malloc_fn :: "nat \<Rightarrow> size_t \<Rightarrow> size_t \<Rightarrow> block ptr"
  calloc_fn :: "nat \<Rightarrow> size_t \<Rightarrow> size_t \<Rightarrow> size_t \<Rightarrow> block ptr"
  realloc_fn :: "nat \<Rightarrow> block ptr \<Rightarrow> size_t \<Rightarrow> size_t \<Rightarrow> size_t \<Rightarrow> block ptr ub"

definition is_object :: "block \<Rightarrow> nat \<Rightarrow> bool" where
  "is_object b n \<longleftrightarrow> length b = n \<and> n < object_limit"

text \<open>What \<open>realloc\<close> keeps of the old block.\<close>

definition keeps_prefix :: "block ptr \<Rightarrow> block \<Rightarrow> bool" where
  "keeps_prefix old new \<longleftrightarrow>
     (case old of None \<Rightarrow> True
      | Some c \<Rightarrow> take (min (length c) (length new)) new = take (min (length c) (length new)) c)"

definition old_size_ok :: "block ptr \<Rightarrow> size_t \<Rightarrow> bool" where
  "old_size_ok p old \<longleftrightarrow> (case p of None \<Rightarrow> True | Some c \<Rightarrow> length c = unat old)"

locale scl_allocator =
  fixes a :: scl_allocator_t
  assumes malloc_block: "malloc_fn a k sz al = Some b \<Longrightarrow> is_object b (unat sz)"
    and calloc_block: "calloc_fn a k n sz al = Some b \<Longrightarrow>
          is_object b (unat n * unat sz) \<and> set b \<subseteq> {0}"
    and realloc_block: "old_size_ok p old \<Longrightarrow>
          \<exists>r. realloc_fn a k p old new al = Some r \<and>
            (\<forall>b. r = Some b \<longrightarrow> is_object b (unat new) \<and> keeps_prefix p b)"
begin

lemma malloc_object:
  "malloc_fn a k sz al = Some b \<Longrightarrow> length b = unat sz"
  "malloc_fn a k sz al = Some b \<Longrightarrow> unat sz < object_limit"
  using malloc_block by (auto simp: is_object_def)

lemma realloc_cases:
  assumes "old_size_ok p old"
  obtains "realloc_fn a k p old new al = Some None"
  | b where "realloc_fn a k p old new al = Some (Some b)"
      and "length b = unat new" and "unat new < object_limit" and "keeps_prefix p b"
proof -
  from realloc_block [OF assms, of k new al] obtain r where
    r: "realloc_fn a k p old new al = Some r"
    and b: "\<And>b. r = Some b \<Longrightarrow> is_object b (unat new) \<and> keeps_prefix p b" by blast
  show thesis
  proof (cases r)
    case None
    with r show thesis by (intro that(1)) simp
  next
    case (Some b')
    then show thesis using r b [OF Some] by (intro that(2) [of b']) (simp_all add: is_object_def)
  qed
qed

end

text \<open>\<open>scl_alloc\<close> and \<open>scl_realloc\<close>: a null allocator stands for the default one.\<close>

definition scl_resolve :: "scl_allocator_t \<Rightarrow> scl_allocator_t ptr \<Rightarrow> scl_allocator_t" where
  "scl_resolve dflt p = (case p of None \<Rightarrow> dflt | Some a \<Rightarrow> a)"

definition scl_alloc ::
    "scl_allocator_t \<Rightarrow> scl_allocator_t ptr \<Rightarrow> nat \<Rightarrow> size_t \<Rightarrow> size_t \<Rightarrow> block ptr" where
  "scl_alloc dflt p k sz al = malloc_fn (scl_resolve dflt p) k sz al"

definition scl_calloc ::
    "scl_allocator_t \<Rightarrow> scl_allocator_t ptr \<Rightarrow> nat \<Rightarrow> size_t \<Rightarrow> size_t \<Rightarrow> size_t \<Rightarrow> block ptr" where
  "scl_calloc dflt p k cnt sz al = calloc_fn (scl_resolve dflt p) k cnt sz al"

definition scl_realloc ::
    "scl_allocator_t \<Rightarrow> scl_allocator_t ptr \<Rightarrow> nat \<Rightarrow> block ptr \<Rightarrow> size_t \<Rightarrow> size_t \<Rightarrow> size_t
     \<Rightarrow> block ptr ub" where
  "scl_realloc dflt p k q old new al = realloc_fn (scl_resolve dflt p) k q old new al"

section \<open>The default allocator\<close>

text \<open>The three libc functions it calls. \<open>realloc\<close> is only reached with a non-null block.\<close>

record libc_heap_t =
  c_malloc :: "nat \<Rightarrow> size_t \<Rightarrow> block ptr"
  c_realloc :: "nat \<Rightarrow> block \<Rightarrow> size_t \<Rightarrow> block ptr"
  c_memalign :: "nat \<Rightarrow> size_t \<Rightarrow> size_t \<Rightarrow> block ptr"

definition def_malloc_fallback :: "libc_heap_t \<Rightarrow> nat \<Rightarrow> size_t \<Rightarrow> size_t \<Rightarrow> block ptr" where
  "def_malloc_fallback h k sz alignment = c_memalign h k alignment sz"

definition def_malloc :: "libc_heap_t \<Rightarrow> nat \<Rightarrow> size_t \<Rightarrow> size_t \<Rightarrow> block ptr" where
  "def_malloc h k sz alignment =
     (if sz = 0 \<or> SIZE_MAX < sz then None
      else if alignment \<le> max_align then c_malloc h k sz
      else def_malloc_fallback h k sz alignment)"

definition def_calloc :: "libc_heap_t \<Rightarrow> nat \<Rightarrow> size_t \<Rightarrow> size_t \<Rightarrow> size_t \<Rightarrow> block ptr" where
  "def_calloc h k count sz alignment =
     (if count = 0 \<or> sz = 0 then None
      else case scl_mul_overflow count sz of
        None \<Rightarrow> None
      | Some tot \<Rightarrow>
          if SIZE_MAX < tot then None
          else case def_malloc h k tot alignment of
            None \<Rightarrow> None
          | Some p \<Rightarrow> Some (replicate (unat tot) 0 @ drop (unat tot) p))"

definition def_realloc ::
    "libc_heap_t \<Rightarrow> nat \<Rightarrow> block ptr \<Rightarrow> size_t \<Rightarrow> size_t \<Rightarrow> size_t \<Rightarrow> block ptr ub" where
  "def_realloc h k ptr old_size new_size alignment =
     (if new_size = 0 \<or> SIZE_MAX < new_size then Some None
      else case ptr of
        None \<Rightarrow> Some (def_malloc h k new_size alignment)
      | Some p \<Rightarrow>
          if alignment \<le> max_align then Some (c_realloc h k p new_size)
          else case def_malloc h k new_size alignment of
            None \<Rightarrow> Some None
          | Some newp \<Rightarrow>
              scl_memcpy (Some newp) 0 (Some p) 0
                (unat (if old_size < new_size then old_size else new_size)))"

definition scl_allocator_default :: "libc_heap_t \<Rightarrow> scl_allocator_t" where
  "scl_allocator_default h =
     \<lparr>malloc_fn = def_malloc h, calloc_fn = def_calloc h, realloc_fn = def_realloc h\<rparr>"

locale libc_heap =
  fixes h :: libc_heap_t
  assumes c_malloc_block: "c_malloc h k sz = Some b \<Longrightarrow> is_object b (unat sz)"
    and c_memalign_block: "c_memalign h k al sz = Some b \<Longrightarrow> is_object b (unat sz)"
    and c_realloc_block: "c_realloc h k p sz = Some b \<Longrightarrow>
          is_object b (unat sz) \<and> keeps_prefix (Some p) b"
begin

lemma def_malloc_block: "def_malloc h k sz al = Some b \<Longrightarrow> is_object b (unat sz)"
  by (auto simp: def_malloc_def def_malloc_fallback_def c_malloc_block c_memalign_block split: if_splits)

lemma def_calloc_block:
  assumes "def_calloc h k n sz al = Some b"
  shows "is_object b (unat n * unat sz) \<and> set b \<subseteq> {0}"
proof -
  obtain tot p where t: "scl_mul_overflow n sz = Some tot" and p: "def_malloc h k tot al = Some p"
    and b: "b = replicate (unat tot) 0 @ drop (unat tot) p"
    using assms by (auto simp: def_calloc_def split: if_splits option.splits)
  have "is_object p (unat tot)" using p by (rule def_malloc_block)
  then have "length p = unat tot" by (simp add: is_object_def)
  then show ?thesis
    using b scl_mul_overflow_Some [OF t] \<open>is_object p (unat tot)\<close> by (auto simp: is_object_def)
qed

lemma def_realloc_copy:
  assumes "length p = unat (old::size_t)" and "is_object q (unat (new::size_t))"
  shows "\<exists>r. scl_memcpy (Some q) 0 (Some p) 0 (unat (if old < new then old else new)) = Some (Some r)
    \<and> is_object r (unat new) \<and> keeps_prefix (Some p) r"
proof -
  let ?n = "min (unat old) (unat new)"
  have n: "unat (if old < new then old else new) = ?n" by (auto simp: word_less_unat min_def)
  have q: "length q = unat new" "unat new < object_limit" using assms(2) by (auto simp: is_object_def)
  let ?r = "take ?n p @ drop ?n q"
  have "scl_memcpy (Some q) 0 (Some p) 0 ?n = Some (Some ?r)"
    using assms(1) q by (simp add: scl_memcpy_def mem_read_def mem_write_def)
  moreover have "is_object ?r (unat new)" using assms(1) q by (simp add: is_object_def)
  moreover have "keeps_prefix (Some p) ?r" using assms(1) q by (simp add: keeps_prefix_def)
  ultimately show ?thesis unfolding n by blast
qed

lemma def_realloc_block:
  assumes "old_size_ok p old"
  shows "\<exists>r. def_realloc h k p old new al = Some r \<and>
    (\<forall>b. r = Some b \<longrightarrow> is_object b (unat new) \<and> keeps_prefix p b)"
proof (cases p)
  case None
  then show ?thesis
    by (auto simp: def_realloc_def keeps_prefix_def dest: def_malloc_block)
next
  case (Some c)
  then have c: "length c = unat old" using assms by (simp add: old_size_ok_def)
  show ?thesis
  proof (cases "def_malloc h k new al")
    case None
    with Some show ?thesis by (auto simp: def_realloc_def dest: c_realloc_block)
  next
    case m: (Some q)
    from def_realloc_copy [OF c def_malloc_block [OF m]] Some m show ?thesis
      by (auto simp: def_realloc_def dest: c_realloc_block)
  qed
qed

end

sublocale libc_heap \<subseteq> scl_allocator "scl_allocator_default h"
proof unfold_locales
  show "is_object b (unat sz)"
    if "malloc_fn (scl_allocator_default h) k sz al = Some b" for k sz al b
    using that by (simp add: scl_allocator_default_def def_malloc_block)
  show "is_object b (unat n * unat sz) \<and> set b \<subseteq> {0}"
    if "calloc_fn (scl_allocator_default h) k n sz al = Some b" for k n sz al b
    using that by (simp add: scl_allocator_default_def def_calloc_block)
  show "\<exists>r. realloc_fn (scl_allocator_default h) k p old new al = Some r \<and>
      (\<forall>b. r = Some b \<longrightarrow> is_object b (unat new) \<and> keeps_prefix p b)"
    if "old_size_ok p old" for p old k new al
    using def_realloc_block [OF that] by (simp add: scl_allocator_default_def)
qed

text \<open>A heap of the kind libc provides: requests up to a limit below \<open>PTRDIFF_MAX\<close> succeed with
  a block of the requested sz. It shows that the assumptions can be met.\<close>

definition resize :: "block \<Rightarrow> nat \<Rightarrow> block" where
  "resize c n = take n c @ replicate (n - length c) 0"

definition limited_heap :: "nat \<Rightarrow> libc_heap_t" where
  "limited_heap limit =
     \<lparr>c_malloc = (\<lambda>k sz. if unat sz < min limit object_limit then Some (replicate (unat sz) 0xAA) else None),
      c_realloc = (\<lambda>k p sz. if unat sz < min limit object_limit then Some (resize p (unat sz)) else None),
      c_memalign = (\<lambda>k al sz. if unat sz < min limit object_limit then Some (replicate (unat sz) 0xAA) else None)\<rparr>"

interpretation limited: libc_heap "limited_heap limit" for limit
  by unfold_locales
    (auto simp: limited_heap_def is_object_def keeps_prefix_def resize_def min_def split: if_splits)

text \<open>The allocator the witnesses use: the default allocator over a heap of 4096 bytes.\<close>

definition demo_alloc :: scl_allocator_t where
  "demo_alloc = scl_allocator_default (limited_heap 4096)"

interpretation demo: scl_allocator demo_alloc
  unfolding demo_alloc_def by (rule limited.scl_allocator_axioms)

end
