(* ===== verification/Scl_Buffer.thy ===== *)
theory Scl_Buffer
  imports Scl_Alloc
begin

text \<open>
  A buffer of \<open>cap\<close> elements of \<open>es\<close> bytes, as every flat container of \<open>libs/structures\<close>
  keeps it: a null pointer while the capacity is 0, otherwise one block of \<open>cap * es\<close> bytes.
  The lemmas say once, for all containers, that an access at a slot below the capacity stays
  inside the block although its offset is computed in \<open>size_t\<close>, and what it does to the slots.
\<close>

definition buf_ok :: "block ptr \<Rightarrow> size_t \<Rightarrow> size_t \<Rightarrow> bool" where
  "buf_ok d cap es \<longleftrightarrow> es \<noteq> 0 \<and>
     (case d of None \<Rightarrow> cap = 0 | Some b \<Rightarrow> is_object b (unat cap * unat es))"

definition slot :: "block ptr \<Rightarrow> size_t \<Rightarrow> nat \<Rightarrow> block" where
  "slot d es i = (case d of None \<Rightarrow> [] | Some b \<Rightarrow> elem (unat es) b i)"

text \<open>The element at byte offset \<open>i * es\<close>, as a comparison callback reads it.\<close>

definition load_elem :: "block ptr \<Rightarrow> size_t \<Rightarrow> size_t \<Rightarrow> block ub" where
  "load_elem d i es = (case d of None \<Rightarrow> None | Some b \<Rightarrow> mem_read b (unat (i * es)) (unat es))"

lemma buf_ok_None [simp]: "buf_ok None 0 es \<longleftrightarrow> es \<noteq> 0"
  by (simp add: buf_ok_def)

lemma buf_ok_es: "buf_ok d cap es \<Longrightarrow> es \<noteq> 0"
  by (simp add: buf_ok_def)

lemma buf_ok_bound:
  assumes "buf_ok d cap es"
  shows "unat cap * unat es < object_limit" and "unat cap < object_limit"
proof -
  have es: "0 < unat es" using assms by (simp add: buf_ok_def unat_pos_iff)
  show p: "unat cap * unat es < object_limit"
    using assms by (cases d) (auto simp: buf_ok_def is_object_def)
  have "unat cap * 1 \<le> unat cap * unat es" using es by (intro mult_le_mono2) simp
  then show "unat cap < object_limit" using p by linarith
qed

lemma buf_slot:
  assumes "buf_ok d cap es" and "i < cap"
  obtains b where "d = Some b" and "length b = unat cap * unat es"
    and "unat (i * es) = unat i * unat es" and "unat i * unat es + unat es \<le> length b"
proof -
  from assms have "cap \<noteq> 0" by auto
  with assms(1) obtain b where b: "d = Some b" "is_object b (unat cap * unat es)"
    by (cases d) (auto simp: buf_ok_def)
  have i: "unat i < unat cap" using assms(2) by (simp add: word_less_unat)
  have "unat cap * unat es < 2 ^ 64" using buf_ok_bound(1) [OF assms(1)] by simp
  then have "unat (i * es) = unat i * unat es" using i by (intro unat_mult_bounded) auto
  then show thesis using b slot_bound [OF i, of "unat es"] by (intro that) (auto simp: is_object_def)
qed

lemma length_slot: "buf_ok d cap es \<Longrightarrow> i < unat cap \<Longrightarrow> length (slot d es i) = unat es"
  using slot_bound [of i "unat cap" "unat es"]
  by (cases d) (auto simp: buf_ok_def slot_def is_object_def)

lemma load_slot: "buf_ok d cap es \<Longrightarrow> i < cap \<Longrightarrow> load_elem d i es = Some (slot d es (unat i))"
  by (erule (1) buf_slot) (simp add: load_elem_def slot_def mem_read_elem)

lemma load_slot_nat:
  assumes "buf_ok d cap es" and "j < unat cap"
  shows "load_elem d (of_nat j) es = Some (slot d es j)"
proof -
  have j: "unat (of_nat j :: size_t) = j"
    using assms(2) by (rule unat_of_nat_less)
  then show ?thesis using assms load_slot [of d cap es "of_nat j"] by (simp add: word_less_unat)
qed

lemma buf_read:
  assumes "buf_ok d cap es" and "i < cap" and "unat es \<le> length out"
  shows "scl_memcpy (Some out) 0 d (unat (i * es)) (unat es)
    = Some (Some (slot d es (unat i) @ drop (unat es) out))"
proof -
  from assms(1,2) obtain b where "d = Some b" "unat (i * es) = unat i * unat es"
    "unat i * unat es + unat es \<le> length b" by (rule buf_slot)
  then show ?thesis using assms(3) by (simp only: slot_def option.case memcpy_from_slot)
qed

lemma buf_write:
  assumes "buf_ok d cap es" and "i < cap" and "unat es \<le> length e"
  obtains d' where "scl_memcpy d (unat (i * es)) (Some e) 0 (unat es) = Some d'"
    and "buf_ok d' cap es"
    and "\<And>j. j < unat cap \<Longrightarrow> slot d' es j = (if j = unat i then take (unat es) e else slot d es j)"
proof -
  from assms(1,2) obtain b where b: "d = Some b" "length b = unat cap * unat es"
    "unat (i * es) = unat i * unat es" "unat i * unat es + unat es \<le> length b" by (rule buf_slot)
  let ?b' = "put_elem (unat es) b (unat i) (take (unat es) e)"
  have "buf_ok (Some ?b') cap es"
    using assms b by (simp add: buf_ok_def is_object_def)
  moreover have "slot (Some ?b') es j = (if j = unat i then take (unat es) e else slot d es j)"
    if "j < unat cap" for j
    using b slot_bound [OF that, of "unat es"] assms(3) by (simp add: slot_def elem_put)
  ultimately show thesis using assms(3) b by (intro that [of "Some ?b'"]) (simp_all add: memcpy_to_slot)
qed

lemma buf_copy:
  assumes "buf_ok d cap es" and "i < cap" and "buf_ok c cap' es" and "k < cap'"
  obtains d' where "scl_memcpy d (unat (i * es)) c (unat (k * es)) (unat es) = Some d'"
    and "buf_ok d' cap es"
    and "\<And>j. j < unat cap \<Longrightarrow> slot d' es j = (if j = unat i then slot c es (unat k) else slot d es j)"
proof -
  from assms(3,4) obtain b where b: "c = Some b" "unat (k * es) = unat k * unat es"
    "unat k * unat es + unat es \<le> length b" by (rule buf_slot)
  have len: "length (elem (unat es) b (unat k)) = unat es" using b(3) by simp
  from buf_write [OF assms(1,2), of "elem (unat es) b (unat k)"] len obtain d' where d':
    "scl_memcpy d (unat (i * es)) (Some (elem (unat es) b (unat k))) 0 (unat es) = Some d'"
    "buf_ok d' cap es"
    "\<And>j. j < unat cap \<Longrightarrow> slot d' es j = (if j = unat i then elem (unat es) b (unat k) else slot d es j)"
    by (metis le_refl take_all)
  have "scl_memcpy d (unat (i * es)) c (unat (k * es)) (unat es) = Some d'"
    using d'(1) b len by (cases d) (auto simp: scl_memcpy_def mem_read_elem mem_read_def [of "elem _ _ _"])
  then show thesis using d'(2,3) b(1) by (intro that [of d']) (simp_all add: slot_def)
qed

text \<open>Moving \<open>n\<close> slots from \<open>s\<close> to \<open>t\<close> inside the buffer.\<close>

lemma buf_move:
  assumes "buf_ok d cap es" and "cap \<noteq> 0"
    and "unat s + unat n \<le> unat cap" and "unat t + unat n \<le> unat cap"
  obtains d' where "scl_memmove d (unat (t * es)) (unat (s * es)) (unat (n * es)) = Some d'"
    and "buf_ok d' cap es"
    and "\<And>j. j < unat cap \<Longrightarrow> slot d' es j
      = (if unat t \<le> j \<and> j < unat t + unat n then slot d es (unat s + j - unat t) else slot d es j)"
proof -
  from assms(1,2) obtain b where b: "d = Some b" "length b = unat cap * unat es"
    by (cases d) (auto simp: buf_ok_def is_object_def)
  have lim: "unat cap * unat es < 2 ^ 64" using buf_ok_bound(1) [OF assms(1)] by simp
  have off: "unat (s * es) = unat s * unat es" "unat (t * es) = unat t * unat es"
    "unat (n * es) = unat n * unat es"
    using lim assms(3,4) by (auto intro!: unat_mult_bounded [of _ "unat cap"])
  have "(unat s + unat n) * unat es \<le> length b" "(unat t + unat n) * unat es \<le> length b"
    unfolding b(2) using assms(3,4) by (auto intro: mult_le_mono1)
  then obtain b' where b': "scl_memmove (Some b) (unat t * unat es) (unat s * unat es) (unat n * unat es) = Some (Some b')"
    "length b' = length b"
    "\<And>k. k * unat es + unat es \<le> length b \<Longrightarrow> elem (unat es) b' k
      = (if unat t \<le> k \<and> k < unat t + unat n then elem (unat es) b (unat s + k - unat t) else elem (unat es) b k)"
    by (rule memmove_slots) blast
  show thesis
  proof (rule that [of "Some b'"])
    show "scl_memmove d (unat (t * es)) (unat (s * es)) (unat (n * es)) = Some (Some b')"
      using b'(1) by (simp add: off b(1))
    show "buf_ok (Some b') cap es" using assms(1) b b'(2) by (simp add: buf_ok_def is_object_def)
    show "slot (Some b') es j
      = (if unat t \<le> j \<and> j < unat t + unat n then slot d es (unat s + j - unat t) else slot d es j)"
      if "j < unat cap" for j
      using b'(3) [of j] slot_bound [OF that, of "unat es"] b by (simp add: slot_def)
  qed
qed

text \<open>The first \<open>n\<close> elements.\<close>

definition slots :: "block ptr \<Rightarrow> size_t \<Rightarrow> nat \<Rightarrow> block list" where
  "slots d es n = map (slot d es) [0..<n]"

lemma length_slots [simp]: "length (slots d es n) = n"
  by (simp add: slots_def)

lemma nth_slots [simp]: "i < n \<Longrightarrow> slots d es n ! i = slot d es i"
  by (simp add: slots_def)

lemma slots_0 [simp]: "slots d es 0 = []"
  by (simp add: slots_def)

lemma slots_Suc: "slots d es (Suc n) = slots d es n @ [slot d es n]"
  by (simp add: slots_def)

lemma slots_cong: "(\<And>i. i < n \<Longrightarrow> slot d es i = slot d' es i) \<Longrightarrow> slots d es n = slots d' es n"
  by (simp add: slots_def)

text \<open>Writing an element behind the first \<open>cnt\<close> ones.\<close>

lemma buf_append:
  assumes "buf_ok d cap es" and "cnt < cap" and "unat es \<le> length e"
  obtains d' where "scl_memcpy d (unat (cnt * es)) (Some e) 0 (unat es) = Some d'"
    and "buf_ok d' cap es" and "cnt + 1 \<le> cap"
    and "slots d' es (unat (cnt + 1)) = slots d es (unat cnt) @ [take (unat es) e]"
proof -
  from buf_write [OF assms] obtain d' where d':
    "scl_memcpy d (unat (cnt * es)) (Some e) 0 (unat es) = Some d'" "buf_ok d' cap es"
    "\<And>j. j < unat cap \<Longrightarrow> slot d' es j = (if j = unat cnt then take (unat es) e else slot d es j)"
    by blast
  have n: "unat (cnt + 1) = Suc (unat cnt)" using assms(2) by (rule unat_Suc_less)
  have lt: "unat cnt < unat cap" using assms(2) by (simp add: word_less_unat)
  have "slots d' es (unat cnt) = slots d es (unat cnt)"
    using d'(3) lt by (intro slots_cong) simp
  then have "slots d' es (unat (cnt + 1)) = slots d es (unat cnt) @ [take (unat es) e]"
    using d'(3) lt by (simp add: n slots_Suc)
  then show thesis using d'(1,2) lt n by (intro that [of d']) (simp_all add: word_le_unat)
qed

section \<open>Fresh and grown buffers\<close>

text \<open>The two errors of an operation that could not get memory.\<close>

definition alloc_failed :: "scl_error_t \<Rightarrow> bool" where
  "alloc_failed err \<longleftrightarrow> err = SCL_ERR_SIZE_OVERFLOW \<or> err = SCL_ERR_OUT_OF_MEMORY"

lemma alloc_failed_simps [simp]:
  "alloc_failed SCL_ERR_SIZE_OVERFLOW" "alloc_failed SCL_ERR_OUT_OF_MEMORY"
  "\<not> alloc_failed SCL_OK" "\<not> alloc_failed SCL_ERR_EMPTY" "\<not> alloc_failed SCL_ERR_FULL"
  by (simp_all add: alloc_failed_def)

definition grown :: "size_t \<Rightarrow> size_t" where
  "grown cap = (if cap = 0 then 4 else cap * 2)"

context scl_allocator
begin

lemma malloc_buf:
  assumes "scl_mul_overflow cap es = Some bytes" and "malloc_fn a k bytes al = Some b" and "es \<noteq> 0"
  shows "buf_ok (Some b) cap es"
  using malloc_block [OF assms(2)] scl_mul_overflow_Some [OF assms(1)] assms(3)
  by (simp add: buf_ok_def)

lemma buf_old_size:
  assumes "buf_ok d cap es"
  shows "\<exists>n. scl_mul_overflow cap es = Some n \<and> n = cap * es \<and> old_size_ok d n"
proof -
  have lt: "unat cap * unat es < 2 ^ 64" using buf_ok_bound(1) [OF assms] by simp
  then have "scl_mul_overflow cap es = Some (cap * es)" by (rule scl_mul_overflow_small)
  moreover have "unat (cap * es) = unat cap * unat es" using lt by (intro unat_mult_bounded) auto
  ultimately show ?thesis
    using assms by (auto simp: buf_ok_def old_size_ok_def is_object_def split: option.splits)
qed

lemma realloc_buf:
  assumes "buf_ok d cap es" and "scl_mul_overflow cap' es = Some bytes" and "old = cap * es"
  obtains "realloc_fn a k d old bytes al = Some None"
  | b where "realloc_fn a k d old bytes al = Some (Some b)" and "buf_ok (Some b) cap' es"
      and "\<And>j. j < unat cap \<Longrightarrow> j < unat cap' \<Longrightarrow> slot (Some b) es j = slot d es j"
proof -
  have ok: "old_size_ok d old" using buf_old_size [OF assms(1)] assms(3) by auto
  have bytes: "unat bytes = unat cap' * unat es" using assms(2) by (rule scl_mul_overflow_Some)
  from ok show thesis
  proof (rule realloc_cases [where k = k and new = bytes and al = al])
    fix b
    assume b: "realloc_fn a k d old bytes al = Some (Some b)" "length b = unat bytes"
      "unat bytes < object_limit" "keeps_prefix d b"
    have buf: "buf_ok (Some b) cap' es"
      using b bytes buf_ok_es [OF assms(1)] by (simp add: buf_ok_def is_object_def)
    have "slot (Some b) es j = slot d es j" if j: "j < unat cap" "j < unat cap'" for j
    proof -
      have "cap \<noteq> 0" using j(1) by auto
      then obtain c where c: "d = Some c" "length c = unat cap * unat es"
        using assms(1) by (cases d) (auto simp: buf_ok_def is_object_def)
      let ?m = "min (length c) (length b)"
      have m: "?m = min (unat cap) (unat cap') * unat es" using c(2) b(2) bytes by (simp add: nat_mult_min_left)
      have "take ?m b = take ?m c" using b(4) c(1) by (simp add: keeps_prefix_def)
      then have "elem (unat es) (take ?m b) j = elem (unat es) (take ?m c) j" by simp
      moreover have "elem (unat es) (take ?m b) j = elem (unat es) b j"
        unfolding m using j m by (intro elem_take) auto
      moreover have "elem (unat es) (take ?m c) j = elem (unat es) c j"
        unfolding m using j m by (intro elem_take) auto
      ultimately show ?thesis using c(1) by (simp add: slot_def)
    qed
    with b(1) buf show thesis by (rule that(2))
  qed (rule that(1))
qed

text \<open>Doubling the capacity of a full buffer, from 0 to 4.\<close>

lemma grow_room:
  assumes buf: "buf_ok d cap es"
  obtains "scl_mul_overflow (grown cap) es = None"
  | bytes where "scl_mul_overflow (grown cap) es = Some bytes" and "realloc_fn a k d (cap * es) bytes al = Some None"
  | bytes b where "scl_mul_overflow (grown cap) es = Some bytes" and "realloc_fn a k d (cap * es) bytes al = Some (Some b)"
      and "buf_ok (Some b) (grown cap) es" and "cap < grown cap"
      and "slots (Some b) es (unat cap) = slots d es (unat cap)"
proof (cases "scl_mul_overflow (grown cap) es")
  case (Some bytes)
  have "unat cap < 2 ^ 63" using buf_ok_bound(2) [OF buf] .
  then have "unat (cap * 2) = unat cap * 2" by (rule unat_double_bounded)
  then have lt: "cap < grown cap" by (auto simp: grown_def word_less_unat unat_pos_iff)
  from buf Some refl show thesis
  proof (rule realloc_buf [where k = k and al = al])
    fix b
    assume b: "realloc_fn a k d (cap * es) bytes al = Some (Some b)" "buf_ok (Some b) (grown cap) es"
      "\<And>j. j < unat cap \<Longrightarrow> j < unat (grown cap) \<Longrightarrow> slot (Some b) es j = slot d es j"
    have "slots (Some b) es (unat cap) = slots d es (unat cap)"
      using b(3) lt by (intro slots_cong) (simp add: word_less_unat)
    then show thesis using Some b(1,2) lt that(3) by blast
  qed (use Some that(2) in blast)
qed (rule that(1))

end

end
