(* ===== verification/Scl_Store.thy ===== *)
theory Scl_Store
  imports Scl_Buffer
begin

text \<open>
  The contract the sequential containers share. A container holds a list of elements of one
  width; \<open>put\<close> appends an element or fails and leaves the container as it was, \<open>get\<close> removes
  one element or reports \<open>SCL_ERR_EMPTY\<close>. Which element \<open>get\<close> removes is a parameter:
  \<open>hd\<close>/\<open>tl\<close> for the queues, \<open>last\<close>/\<open>butlast\<close> for the stacks. The client here is any
  sequence of commands: it is memory-safe, and its history is one of the abstract container.
\<close>

section \<open>Commands and histories\<close>

datatype cmd = Put block | Get

text \<open>What a command did: an element went in, an element came out, or it failed.\<close>

datatype event = Stored block | Fetched block | Failed scl_error_t

fun run_cmds ::
    "('s \<Rightarrow> block \<Rightarrow> (scl_error_t \<times> 's) ub) \<Rightarrow> ('s \<Rightarrow> (scl_error_t \<times> 's \<times> block) ub)
     \<Rightarrow> 's \<Rightarrow> cmd list \<Rightarrow> ('s \<times> event list) ub" where
  "run_cmds put get s [] = Some (s, [])"
| "run_cmds put get s (Put e # cs) = do {
     (err, s') \<leftarrow> put s e;
     (s'', evs) \<leftarrow> run_cmds put get s' cs;
     Some (s'', (if err = SCL_OK then Stored e else Failed err) # evs)
   }"
| "run_cmds put get s (Get # cs) = do {
     (err, s', v) \<leftarrow> get s;
     (s'', evs) \<leftarrow> run_cmds put get s' cs;
     Some (s'', (if err = SCL_OK then Fetched v else Failed err) # evs)
   }"

text \<open>Replaying a history on the abstract container, a list of elements of width \<open>w\<close>:
  \<open>None\<close> if the history is not one of that container.\<close>

fun replay ::
    "nat \<Rightarrow> (block list \<Rightarrow> block) \<Rightarrow> (block list \<Rightarrow> block list) \<Rightarrow> block list \<Rightarrow> event list
     \<Rightarrow> block list option" where
  "replay w pick rest q [] = Some q"
| "replay w pick rest q (Stored e # evs) = replay w pick rest (q @ [take w e]) evs"
| "replay w pick rest q (Fetched v # evs) =
     (if q \<noteq> [] \<and> pick q = v then replay w pick rest (rest q) evs else None)"
| "replay w pick rest q (Failed err # evs) =
     (if err = SCL_ERR_EMPTY \<and> q \<noteq> [] then None else replay w pick rest q evs)"

definition stored :: "nat \<Rightarrow> event list \<Rightarrow> block list" where
  "stored w evs = concat (map (\<lambda>ev. case ev of Stored e \<Rightarrow> [take w e] | _ \<Rightarrow> []) evs)"

definition fetched :: "event list \<Rightarrow> block list" where
  "fetched evs = concat (map (\<lambda>ev. case ev of Fetched v \<Rightarrow> [v] | _ \<Rightarrow> []) evs)"

lemma stored_simps [simp]:
  "stored w [] = []" "stored w (Stored e # evs) = take w e # stored w evs"
  "stored w (Fetched v # evs) = stored w evs" "stored w (Failed err # evs) = stored w evs"
  by (simp_all add: stored_def)

lemma fetched_simps [simp]:
  "fetched [] = []" "fetched (Stored e # evs) = fetched evs"
  "fetched (Fetched v # evs) = v # fetched evs" "fetched (Failed err # evs) = fetched evs"
  by (simp_all add: fetched_def)

text \<open>A first-in first-out history conserves the elements in order.\<close>

lemma replay_fifo: "replay w hd tl q evs = Some q' \<Longrightarrow> fetched evs @ q' = q @ stored w evs"
  by (induction w "hd :: block list \<Rightarrow> _" "tl :: block list \<Rightarrow> _" q evs rule: replay.induct) (auto split: if_splits)

section \<open>The contract\<close>

locale element_store =
  fixes inv :: "'s \<Rightarrow> bool"
    and width :: "'s \<Rightarrow> nat"
    and contents :: "'s \<Rightarrow> block list"
    and put :: "'s \<Rightarrow> block \<Rightarrow> (scl_error_t \<times> 's) ub"
    and get :: "'s \<Rightarrow> (scl_error_t \<times> 's \<times> block) ub"
    and pick :: "block list \<Rightarrow> block"
    and rest :: "block list \<Rightarrow> block list"
  assumes put_law: "inv s \<Longrightarrow> width s \<le> length e \<Longrightarrow>
      \<exists>err s'. put s e = Some (err, s') \<and> inv s' \<and> width s' = width s \<and> err \<noteq> SCL_ERR_EMPTY \<and>
        contents s' = (if err = SCL_OK then contents s @ [take (width s) e] else contents s)"
    and get_law: "inv s \<Longrightarrow> contents s \<noteq> [] \<Longrightarrow>
      \<exists>s'. get s = Some (SCL_OK, s', pick (contents s)) \<and> inv s' \<and> width s' = width s \<and>
        contents s' = rest (contents s)"
    and get_empty_law: "inv s \<Longrightarrow> contents s = [] \<Longrightarrow>
      \<exists>v. get s = Some (SCL_ERR_EMPTY, s, v)"
begin

definition fits :: "nat \<Rightarrow> cmd list \<Rightarrow> bool" where
  "fits w cs \<longleftrightarrow> (\<forall>c \<in> set cs. case c of Put e \<Rightarrow> w \<le> length e | Get \<Rightarrow> True)"

theorem run_replays:
  assumes "inv s" and "fits (width s) cs"
  shows "\<exists>s' evs. run_cmds put get s cs = Some (s', evs) \<and> inv s' \<and> width s' = width s \<and>
    length evs = length cs \<and> replay (width s) pick rest (contents s) evs = Some (contents s')"
  using assms
proof (induction cs arbitrary: s)
  case Nil
  then show ?case by simp
next
  case (Cons c cs)
  show ?case
  proof (cases c)
    case (Put e)
    then obtain err s' where p: "put s e = Some (err, s')" "inv s'" "width s' = width s"
      "err \<noteq> SCL_ERR_EMPTY"
      "contents s' = (if err = SCL_OK then contents s @ [take (width s) e] else contents s)"
      using put_law [OF Cons.prems(1), of e] Cons.prems(2) by (auto simp: fits_def)
    from Cons.IH [OF p(2)] Cons.prems(2) p(3) obtain s'' evs where
      "run_cmds put get s' cs = Some (s'', evs)" "inv s''" "width s'' = width s"
      "length evs = length cs" "replay (width s) pick rest (contents s') evs = Some (contents s'')"
      by (auto simp: fits_def)
    then show ?thesis using Put p by auto
  next
    case Get
    show ?thesis
    proof (cases "contents s = []")
      case True
      then obtain v where "get s = Some (SCL_ERR_EMPTY, s, v)"
        using get_empty_law [OF Cons.prems(1)] by blast
      moreover obtain s'' evs where
        "run_cmds put get s cs = Some (s'', evs)" "inv s''" "width s'' = width s"
        "length evs = length cs" "replay (width s) pick rest (contents s) evs = Some (contents s'')"
        using Cons.IH [OF Cons.prems(1)] Cons.prems(2) by (auto simp: fits_def)
      ultimately show ?thesis using Get True by auto
    next
      case False
      then obtain s' where p: "get s = Some (SCL_OK, s', pick (contents s))" "inv s'"
        "width s' = width s" "contents s' = rest (contents s)"
        using get_law [OF Cons.prems(1)] by blast
      from Cons.IH [OF p(2)] Cons.prems(2) p(3) obtain s'' evs where
        "run_cmds put get s' cs = Some (s'', evs)" "inv s''" "width s'' = width s"
        "length evs = length cs" "replay (width s) pick rest (contents s') evs = Some (contents s'')"
        by (auto simp: fits_def)
      then show ?thesis using Get False p by auto
    qed
  qed
qed

end

locale fifo_store = element_store inv width contents put get hd tl
  for inv :: "'s \<Rightarrow> bool" and width contents put get
begin

theorem run_conserves:
  assumes "inv s" and "fits (width s) cs"
  shows "\<exists>s' evs. run_cmds put get s cs = Some (s', evs) \<and> inv s' \<and>
    fetched evs @ contents s' = contents s @ stored (width s) evs"
  using run_replays [OF assms] replay_fifo by blast

end

locale lifo_store = element_store inv width contents put get last butlast
  for inv :: "'s \<Rightarrow> bool" and width contents put get
begin

text \<open>What was put last comes out first, and the container is as before.\<close>

theorem put_get_roundtrip:
  assumes "inv s" and "width s \<le> length e" and "put s e = Some (SCL_OK, s')"
  shows "\<exists>s''. get s' = Some (SCL_OK, s'', take (width s) e) \<and> inv s'' \<and> contents s'' = contents s"
proof -
  from put_law [OF assms(1,2)] assms(3)
  have "inv s'" "contents s' = contents s @ [take (width s) e]" by auto
  then show ?thesis using get_law [of s'] by auto
qed

end

end
