(* ===== verification/Scl_Cmp.thy ===== *)
theory Scl_Cmp
  imports Scl_Store "HOL-Library.Multiset"
begin

text \<open>
  The comparison callback \<open>scl_cmp_func_t\<close> of \<open>libs/core/scl_common.h\<close>: the locale states what
  sorting, searching, heaps and trees rely on, and is interpreted on the comparator the
  repository itself provides, \<open>scl_counting_i32_cmp\<close> of \<open>libs/sort/counting/scl_counting.c\<close>.
  The second half is the linear scan that every container's search function is built on.
\<close>

section \<open>The comparator contract\<close>

definition le_cmp :: "('a \<Rightarrow> 'a \<Rightarrow> int) \<Rightarrow> 'a \<Rightarrow> 'a \<Rightarrow> bool" where
  "le_cmp cmp x y \<longleftrightarrow> cmp x y \<le> 0"

definition sorted_cmp :: "('a \<Rightarrow> 'a \<Rightarrow> int) \<Rightarrow> 'a list \<Rightarrow> bool" where
  "sorted_cmp cmp xs \<longleftrightarrow> sorted_wrt (le_cmp cmp) xs"

locale comparator =
  fixes cmp :: "'a \<Rightarrow> 'a \<Rightarrow> int"
  assumes cmp_swap: "cmp x y < 0 \<longleftrightarrow> 0 < cmp y x"
    and cmp_trans: "cmp x y \<le> 0 \<Longrightarrow> cmp y z \<le> 0 \<Longrightarrow> cmp x z \<le> 0"
begin

lemma cmp_self [simp]: "cmp x x = 0"
  using cmp_swap [of x x] by linarith

lemma cmp_zero_sym: "cmp x y = 0 \<longleftrightarrow> cmp y x = 0"
  using cmp_swap [of x y] cmp_swap [of y x] by linarith

lemma cmp_le_iff: "cmp x y \<le> 0 \<longleftrightarrow> 0 \<le> cmp y x"
  using cmp_swap [of y x] by linarith

lemma cmp_linear: "cmp x y \<le> 0 \<or> cmp y x \<le> 0"
  using cmp_swap [of x y] by linarith

lemma cmp_less_le_trans: "cmp x y < 0 \<Longrightarrow> cmp y z \<le> 0 \<Longrightarrow> cmp x z < 0"
  using cmp_trans [of y z x] cmp_swap [of x z] cmp_swap [of x y] by linarith

lemma cmp_le_less_trans: "cmp x y \<le> 0 \<Longrightarrow> cmp y z < 0 \<Longrightarrow> cmp x z < 0"
  using cmp_trans [of z x y] cmp_swap [of x z] cmp_swap [of y z] by linarith

lemma le_cmp_trans: "le_cmp cmp x y \<Longrightarrow> le_cmp cmp y z \<Longrightarrow> le_cmp cmp x z"
  unfolding le_cmp_def by (rule cmp_trans)

lemma le_cmp_linear: "\<not> le_cmp cmp x y \<Longrightarrow> le_cmp cmp y x"
  using cmp_linear [of x y] by (simp add: le_cmp_def)

lemma le_cmp_refl [simp]: "le_cmp cmp x x"
  by (simp add: le_cmp_def)

lemma transp_le_cmp: "transp (le_cmp cmp)"
  by (rule transpI) (rule le_cmp_trans)

lemma sorted_cmp_nth:
  "sorted_cmp cmp xs \<longleftrightarrow> (\<forall>i j. i \<le> j \<longrightarrow> j < length xs \<longrightarrow> cmp (xs ! i) (xs ! j) \<le> 0)"
  by (auto simp: sorted_cmp_def sorted_wrt_iff_nth_less le_cmp_def le_less)

lemma sorted_cmp_adjacent:
  "(\<And>i. Suc i < length xs \<Longrightarrow> cmp (xs ! i) (xs ! Suc i) \<le> 0) \<Longrightarrow> sorted_cmp cmp xs"
  unfolding sorted_cmp_def using sorted_wrt_iff_nth_Suc_transp [OF transp_le_cmp]
  by (auto simp: le_cmp_def)

text \<open>In a sorted array the comparison with a key changes sign once.\<close>

lemma sorted_below: "sorted_cmp cmp xs \<Longrightarrow> i \<le> j \<Longrightarrow> j < length xs \<Longrightarrow> cmp (xs ! j) key < 0 \<Longrightarrow> cmp (xs ! i) key < 0"
  using cmp_le_less_trans [of "xs ! i" "xs ! j" key] by (auto simp: sorted_cmp_nth)

lemma sorted_above: "sorted_cmp cmp xs \<Longrightarrow> i \<le> j \<Longrightarrow> j < length xs \<Longrightarrow> 0 < cmp (xs ! i) key \<Longrightarrow> 0 < cmp (xs ! j) key"
  using cmp_less_le_trans [of key "xs ! i" "xs ! j"] cmp_swap [of key]
  by (auto simp: sorted_cmp_nth)

end

text \<open>\<open>(x > y) - (x < y)\<close> on signed 32-bit integers.\<close>

definition scl_counting_i32_cmp :: "32 word \<Rightarrow> 32 word \<Rightarrow> int" where
  "scl_counting_i32_cmp x y = of_bool (sint y < sint x) - of_bool (sint x < sint y)"

interpretation i32: comparator scl_counting_i32_cmp
  by unfold_locales (auto simp: scl_counting_i32_cmp_def)

lemma i32_le: "le_cmp scl_counting_i32_cmp x y \<longleftrightarrow> sint x \<le> sint y"
  by (auto simp: le_cmp_def scl_counting_i32_cmp_def)

text \<open>The same shape on unbounded integers, the comparator of the examples.\<close>

definition int_cmp :: "int \<Rightarrow> int \<Rightarrow> int" where
  "int_cmp x y = of_bool (y < x) - of_bool (x < y)"

interpretation int_order: comparator int_cmp
  by unfold_locales (auto simp: int_cmp_def)

section \<open>Linear scans\<close>

text \<open>\<open>for (i = 0; i < cnt; i++) if (cmp(element i, key) == 0) return i;\<close>\<close>

function scan :: "(size_t \<Rightarrow> 'a ub) \<Rightarrow> ('a \<Rightarrow> int) \<Rightarrow> size_t \<Rightarrow> size_t \<Rightarrow> size_t option ub" where
  "scan rd test i cnt =
     (if i < cnt then do {
        v \<leftarrow> rd i;
        if test v = 0 then Some (Some i) else scan rd test (i + 1) cnt
      } else Some None)"
  by pat_completeness auto
termination
proof (relation "measure (\<lambda>(rd, test, i, cnt). unat cnt - unat i)")
  fix rd :: "size_t \<Rightarrow> 'a ub" and test :: "'a \<Rightarrow> int" and i cnt :: size_t and v
  assume "i < cnt"
  then show "((rd, test, i + 1, cnt), rd, test, i, cnt) \<in> measure (\<lambda>(rd, test, i, cnt). unat cnt - unat i)"
    using unat_Suc_less [of i cnt] by (simp add: word_less_unat)
qed simp

declare scan.simps [simp del]

text \<open>The position of the first element that satisfies a test.\<close>

definition is_first :: "('a \<Rightarrow> bool) \<Rightarrow> 'a list \<Rightarrow> nat option \<Rightarrow> bool" where
  "is_first p xs r \<longleftrightarrow>
     (case r of None \<Rightarrow> \<forall>x \<in> set xs. \<not> p x
      | Some k \<Rightarrow> k < length xs \<and> p (xs ! k) \<and> (\<forall>j < k. \<not> p (xs ! j)))"

lemma scan_from:
  assumes "length xs = unat cnt" and "\<And>j. j < length xs \<Longrightarrow> rd (of_nat j) = Some (xs ! j)"
    and "i \<le> cnt" and "\<And>j. j < unat i \<Longrightarrow> test (xs ! j) \<noteq> 0"
  shows "\<exists>r. scan rd test i cnt = Some r \<and> is_first (\<lambda>x. test x = 0) xs (map_option unat r)"
  using assms(3,4)
proof (induction "unat cnt - unat i" arbitrary: i)
  case 0
  then have i: "i = cnt" by (simp add: word_le_unat word_unat_eq_iff)
  then have "scan rd test i cnt = Some None" by (subst scan.simps) simp
  moreover have "is_first (\<lambda>x. test x = 0) xs None"
    using "0.prems"(2) assms(1) i by (auto simp: is_first_def in_set_conv_nth)
  ultimately show ?case by simp
next
  case (Suc d)
  then have i: "i < cnt" by (simp add: word_less_unat)
  then have l: "unat i < length xs" using assms(1) by (simp add: word_less_unat)
  have rd: "rd i = Some (xs ! unat i)" using assms(2) [OF l] by simp
  show ?case
  proof (cases "test (xs ! unat i) = 0")
    case True
    then have "scan rd test i cnt = Some (Some i)" using i rd by (simp add: scan.simps [of rd test i])
    then show ?thesis using True l Suc.prems(2) by (auto simp: is_first_def)
  next
    case False
    have "d = unat cnt - unat (i + 1)" "i + 1 \<le> cnt"
      using Suc.hyps(2) i unat_Suc_less [OF i] by (auto simp: word_less_unat word_le_unat)
    moreover have "test (xs ! j) \<noteq> 0" if "j < unat (i + 1)" for j
      using that False Suc.prems(2) unat_Suc_less [OF i] by (cases "j = unat i") auto
    ultimately have "\<exists>r. scan rd test (i + 1) cnt = Some r \<and> is_first (\<lambda>x. test x = 0) xs (map_option unat r)"
      by (intro Suc.hyps(1)) auto
    then show ?thesis using i rd False by (simp add: scan.simps [of rd test i])
  qed
qed

lemma scan_first:
  assumes "length xs = unat cnt" and "\<And>j. j < length xs \<Longrightarrow> rd (of_nat j) = Some (xs ! j)"
  shows "\<exists>r. scan rd test 0 cnt = Some r \<and> is_first (\<lambda>x. test x = 0) xs (map_option unat r)"
  using assms by (intro scan_from) (auto simp: word_le_unat)

end
