(* ===== verification/Scl_Array.thy ===== *)
theory Scl_Array
  imports Scl_Cmp
begin

text \<open>
  The growable array of \<open>libs/structures/array/scl_array.c\<close>, on the bytes of its block. The
  record is \<open>scl_array_t\<close>; every operation is modelled with its null checks, its size
  overflow checks, its allocator calls and the byte offsets it computes in \<open>size_t\<close>. A null
  \<open>arr\<close>, \<open>element\<close> or \<open>out\<close> is \<open>None\<close>. The lemmas show that no operation leaves the block or
  breaks the invariant, and what each does to the list of elements, error paths included.
\<close>

record scl_array_t =
  arr_data :: "block ptr"
  arr_element_size :: size_t
  arr_capacity :: size_t
  arr_count :: size_t

definition scl_array_init ::
    "scl_allocator_t \<Rightarrow> scl_array_t ptr \<Rightarrow> size_t \<Rightarrow> size_t \<Rightarrow> scl_error_t \<times> scl_array_t ptr" where
  "scl_array_init a arr element_size initial_capacity =
     (case arr of None \<Rightarrow> (SCL_ERR_NULL_PTR, arr)
      | Some _ \<Rightarrow>
          if element_size = 0 then (SCL_ERR_INVALID_ARG, arr)
          else let s = \<lparr>arr_data = None, arr_element_size = element_size, arr_capacity = 0, arr_count = 0\<rparr> in
            if 0 < initial_capacity then
              case scl_mul_overflow initial_capacity element_size of
                None \<Rightarrow> (SCL_ERR_SIZE_OVERFLOW, Some s)
              | Some bytes \<Rightarrow>
                  (case malloc_fn a 0 bytes max_align of
                     None \<Rightarrow> (SCL_ERR_OUT_OF_MEMORY, Some s)
                   | Some d \<Rightarrow> (SCL_OK, Some (s\<lparr>arr_data := Some d, arr_capacity := initial_capacity\<rparr>)))
            else (SCL_OK, Some s))"

definition scl_array_destroy :: "scl_array_t ptr \<Rightarrow> scl_array_t ptr" where
  "scl_array_destroy arr =
     map_option (\<lambda>s. s\<lparr>arr_data := None, arr_capacity := 0, arr_count := 0\<rparr>) arr"

text \<open>The part of \<open>scl_array_reserve\<close> behind its null check; \<open>push\<close> and \<open>insert\<close> call it with a
  pointer they have checked.\<close>

definition array_reserve ::
    "scl_allocator_t \<Rightarrow> scl_array_t \<Rightarrow> size_t \<Rightarrow> (scl_error_t \<times> scl_array_t) ub" where
  "array_reserve a s new_capacity =
     (if new_capacity \<le> arr_capacity s then Some (SCL_OK, s)
      else
        let es = arr_element_size s;
            old_bytes = (case scl_mul_overflow (arr_capacity s) es of None \<Rightarrow> 0 | Some n \<Rightarrow> n) in
        case scl_mul_overflow new_capacity es of
          None \<Rightarrow> Some (SCL_ERR_SIZE_OVERFLOW, s)
        | Some new_bytes \<Rightarrow> do {
            tmp \<leftarrow> realloc_fn a 0 (arr_data s) old_bytes new_bytes max_align;
            (case tmp of
               None \<Rightarrow> Some (SCL_ERR_OUT_OF_MEMORY, s)
             | Some _ \<Rightarrow> Some (SCL_OK, s\<lparr>arr_data := tmp, arr_capacity := new_capacity\<rparr>))
          })"

definition scl_array_reserve ::
    "scl_allocator_t \<Rightarrow> scl_array_t ptr \<Rightarrow> size_t \<Rightarrow> (scl_error_t \<times> scl_array_t ptr) ub" where
  "scl_array_reserve a arr new_capacity =
     (case arr of None \<Rightarrow> Some (SCL_ERR_NULL_PTR, arr)
      | Some s \<Rightarrow> do { (err, s') \<leftarrow> array_reserve a s new_capacity; Some (err, Some s') })"

text \<open>The growth step at the head of \<open>push\<close> and \<open>insert\<close>.\<close>

definition array_make_room :: "scl_allocator_t \<Rightarrow> scl_array_t \<Rightarrow> (scl_error_t \<times> scl_array_t) ub" where
  "array_make_room a s =
     (if arr_count s = arr_capacity s
      then array_reserve a s (if arr_capacity s = 0 then 4 else arr_capacity s * 2)
      else Some (SCL_OK, s))"

definition scl_array_push ::
    "scl_allocator_t \<Rightarrow> scl_array_t ptr \<Rightarrow> block ptr \<Rightarrow> (scl_error_t \<times> scl_array_t ptr) ub" where
  "scl_array_push a arr element =
     (case (arr, element) of
        (Some s, Some e) \<Rightarrow> do {
          let cnt = arr_count s;
          let es = arr_element_size s;
          (err, s) \<leftarrow> array_make_room a s;
          if err \<noteq> SCL_OK then Some (err, Some s)
          else do {
            d \<leftarrow> scl_memcpy (arr_data s) (unat (cnt * es)) element 0 (unat es);
            Some (SCL_OK, Some (s\<lparr>arr_data := d, arr_count := cnt + 1\<rparr>))
          }
        }
      | _ \<Rightarrow> Some (SCL_ERR_NULL_PTR, arr))"

definition scl_array_pop ::
    "scl_array_t ptr \<Rightarrow> block ptr \<Rightarrow> (scl_error_t \<times> scl_array_t ptr \<times> block ptr) ub" where
  "scl_array_pop arr out =
     (case (arr, out) of
        (Some s, Some _) \<Rightarrow>
          if arr_count s = 0 then Some (SCL_ERR_EMPTY, arr, out)
          else do {
            let es = arr_element_size s;
            let s = s\<lparr>arr_count := arr_count s - 1\<rparr>;
            o' \<leftarrow> scl_memcpy out 0 (arr_data s) (unat (arr_count s * es)) (unat es);
            Some (SCL_OK, Some s, o')
          }
      | _ \<Rightarrow> Some (SCL_ERR_NULL_PTR, arr, out))"

definition scl_array_get ::
    "scl_array_t ptr \<Rightarrow> size_t \<Rightarrow> block ptr \<Rightarrow> (scl_error_t \<times> block ptr) ub" where
  "scl_array_get arr index out =
     (case (arr, out) of
        (Some s, Some _) \<Rightarrow>
          if arr_count s \<le> index then Some (SCL_ERR_INVALID_INDEX, out)
          else do {
            let es = arr_element_size s;
            o' \<leftarrow> scl_memcpy out 0 (arr_data s) (unat (index * es)) (unat es);
            Some (SCL_OK, o')
          }
      | _ \<Rightarrow> Some (SCL_ERR_NULL_PTR, out))"

definition scl_array_set ::
    "scl_array_t ptr \<Rightarrow> size_t \<Rightarrow> block ptr \<Rightarrow> (scl_error_t \<times> scl_array_t ptr) ub" where
  "scl_array_set arr index element =
     (case (arr, element) of
        (Some s, Some _) \<Rightarrow>
          if arr_count s \<le> index then Some (SCL_ERR_INVALID_INDEX, arr)
          else do {
            let es = arr_element_size s;
            d \<leftarrow> scl_memcpy (arr_data s) (unat (index * es)) element 0 (unat es);
            Some (SCL_OK, Some (s\<lparr>arr_data := d\<rparr>))
          }
      | _ \<Rightarrow> Some (SCL_ERR_NULL_PTR, arr))"

definition scl_array_insert ::
    "scl_allocator_t \<Rightarrow> scl_array_t ptr \<Rightarrow> size_t \<Rightarrow> block ptr \<Rightarrow> (scl_error_t \<times> scl_array_t ptr) ub" where
  "scl_array_insert a arr index element =
     (case (arr, element) of
        (Some s, Some _) \<Rightarrow>
          if arr_count s < index then Some (SCL_ERR_INVALID_INDEX, arr)
          else do {
            let cnt = arr_count s;
            let es = arr_element_size s;
            (err, s) \<leftarrow> array_make_room a s;
            if err \<noteq> SCL_OK then Some (err, Some s)
            else do {
              let tail = cnt - index;
              d \<leftarrow> (if 0 < tail
                    then scl_memmove (arr_data s) (unat ((index + 1) * es)) (unat (index * es)) (unat (tail * es))
                    else Some (arr_data s));
              d \<leftarrow> scl_memcpy d (unat (index * es)) element 0 (unat es);
              Some (SCL_OK, Some (s\<lparr>arr_data := d, arr_count := cnt + 1\<rparr>))
            }
          }
      | _ \<Rightarrow> Some (SCL_ERR_NULL_PTR, arr))"

definition scl_array_remove ::
    "scl_array_t ptr \<Rightarrow> size_t \<Rightarrow> block ptr \<Rightarrow> (scl_error_t \<times> scl_array_t ptr \<times> block ptr) ub" where
  "scl_array_remove arr index out =
     (case (arr, out) of
        (Some s, Some _) \<Rightarrow>
          if arr_count s \<le> index then Some (SCL_ERR_INVALID_INDEX, arr, out)
          else do {
            let es = arr_element_size s;
            o' \<leftarrow> scl_memcpy out 0 (arr_data s) (unat (index * es)) (unat es);
            let tail = arr_count s - index - 1;
            d \<leftarrow> (if 0 < tail
                  then scl_memmove (arr_data s) (unat (index * es)) (unat ((index + 1) * es)) (unat (tail * es))
                  else Some (arr_data s));
            Some (SCL_OK, Some (s\<lparr>arr_data := d, arr_count := arr_count s - 1\<rparr>), o')
          }
      | _ \<Rightarrow> Some (SCL_ERR_NULL_PTR, arr, out))"

definition scl_array_shrink ::
    "scl_allocator_t \<Rightarrow> scl_array_t ptr \<Rightarrow> (scl_error_t \<times> scl_array_t ptr) ub" where
  "scl_array_shrink a arr =
     (case arr of None \<Rightarrow> Some (SCL_ERR_NULL_PTR, arr)
      | Some s \<Rightarrow>
          if arr_count s = arr_capacity s then Some (SCL_OK, arr)
          else
            let old_bytes = (case scl_mul_overflow (arr_capacity s) (arr_element_size s) of
                               None \<Rightarrow> 0 | Some n \<Rightarrow> n) in
            case scl_mul_overflow (arr_count s) (arr_element_size s) of
              None \<Rightarrow> Some (SCL_ERR_SIZE_OVERFLOW, arr)
            | Some new_bytes \<Rightarrow>
                if arr_count s = 0 then Some (SCL_OK, Some (s\<lparr>arr_data := None, arr_capacity := 0\<rparr>))
                else do {
                  tmp \<leftarrow> realloc_fn a 0 (arr_data s) old_bytes new_bytes max_align;
                  (case tmp of
                     None \<Rightarrow> Some (SCL_ERR_OUT_OF_MEMORY, arr)
                   | Some _ \<Rightarrow> Some (SCL_OK, Some (s\<lparr>arr_data := tmp, arr_capacity := arr_count s\<rparr>)))
                })"

definition scl_array_count :: "scl_array_t ptr \<Rightarrow> size_t" where
  "scl_array_count arr = (case arr of Some s \<Rightarrow> arr_count s | None \<Rightarrow> 0)"

definition scl_array_capacity :: "scl_array_t ptr \<Rightarrow> size_t" where
  "scl_array_capacity arr = (case arr of Some s \<Rightarrow> arr_capacity s | None \<Rightarrow> 0)"

definition scl_array_empty :: "scl_array_t ptr \<Rightarrow> bool" where
  "scl_array_empty arr = (case arr of Some s \<Rightarrow> arr_count s = 0 | None \<Rightarrow> True)"

definition scl_array_linear_search ::
    "scl_array_t ptr \<Rightarrow> block ptr \<Rightarrow> (block \<Rightarrow> block \<Rightarrow> int) \<Rightarrow> (scl_error_t \<times> size_t option) ub" where
  "scl_array_linear_search arr key cmp =
     (case (arr, key) of
        (Some s, Some k) \<Rightarrow> do {
          r \<leftarrow> scan (\<lambda>i. load_elem (arr_data s) i (arr_element_size s)) (\<lambda>v. cmp v k) 0 (arr_count s);
          Some (case r of None \<Rightarrow> (SCL_ERR_NOT_FOUND, None) | Some i \<Rightarrow> (SCL_OK, Some i))
        }
      | _ \<Rightarrow> Some (SCL_ERR_NULL_PTR, None))"

lemma mid_bounds:
  assumes "lo < (hi::size_t)"
  shows "unat (lo + (hi - lo) div 2) = unat lo + (unat hi - unat lo) div 2"
    and "lo + (hi - lo) div 2 < hi"
proof -
  have l: "unat lo < unat hi" using assms by (simp add: word_less_unat)
  have d: "unat ((hi - lo) div 2) = (unat hi - unat lo) div 2"
    using assms by (simp add: unat_div unat_diff_le)
  have "unat lo + (unat hi - unat lo) div 2 < 18446744073709551616"
    using l unat_lt_64 [of hi] by linarith
  then show m: "unat (lo + (hi - lo) div 2) = unat lo + (unat hi - unat lo) div 2"
    using d by (simp add: unat_add_bounded)
  then show "lo + (hi - lo) div 2 < hi" using l unfolding word_less_unat m by linarith
qed

function array_binary_loop ::
    "(size_t \<Rightarrow> 'a ub) \<Rightarrow> ('a \<Rightarrow> int) \<Rightarrow> size_t \<Rightarrow> size_t \<Rightarrow> size_t option ub" where
  "array_binary_loop rd test lo hi =
     (if lo < hi then do {
        let mid = lo + (hi - lo) div 2;
        v \<leftarrow> rd mid;
        if test v < 0 then array_binary_loop rd test (mid + 1) hi
        else if 0 < test v then array_binary_loop rd test lo mid
        else Some (Some mid)
      } else Some None)"
  by pat_completeness auto
termination
proof (relation "measure (\<lambda>(rd, test, lo, hi). unat hi - unat lo)", goal_cases)
  case (2 rd test lo hi mid v)
  then have "lo \<le> mid" "mid < hi" using mid_bounds [of lo hi] by (auto simp: word_le_unat)
  then show ?case using unat_Suc_less [of mid hi] by (auto simp: word_less_unat word_le_unat)
next
  case (3 rd test lo hi mid v)
  then show ?case using mid_bounds [of lo hi] by (auto simp: word_less_unat)
qed simp

declare array_binary_loop.simps [simp del]

definition scl_array_binary_search ::
    "scl_array_t ptr \<Rightarrow> block ptr \<Rightarrow> (block \<Rightarrow> block \<Rightarrow> int) \<Rightarrow> (scl_error_t \<times> size_t option) ub" where
  "scl_array_binary_search arr key cmp =
     (case (arr, key) of
        (Some s, Some k) \<Rightarrow> do {
          r \<leftarrow> array_binary_loop (\<lambda>i. load_elem (arr_data s) i (arr_element_size s)) (\<lambda>v. cmp v k)
                0 (arr_count s);
          Some (case r of None \<Rightarrow> (SCL_ERR_NOT_FOUND, None) | Some i \<Rightarrow> (SCL_OK, Some i))
        }
      | _ \<Rightarrow> Some (SCL_ERR_NULL_PTR, None))"

section \<open>Invariant and abstraction\<close>

definition array_inv :: "scl_array_t \<Rightarrow> bool" where
  "array_inv s \<longleftrightarrow> buf_ok (arr_data s) (arr_capacity s) (arr_element_size s) \<and>
     arr_count s \<le> arr_capacity s"

definition array_list :: "scl_array_t \<Rightarrow> block list" where
  "array_list s = slots (arr_data s) (arr_element_size s) (unat (arr_count s))"

lemma array_inv_buf: "array_inv s \<Longrightarrow> buf_ok (arr_data s) (arr_capacity s) (arr_element_size s)"
  by (simp add: array_inv_def)

lemma length_array_list [simp]: "length (array_list s) = unat (arr_count s)"
  by (simp add: array_list_def)

lemma array_index: "array_inv s \<Longrightarrow> i < arr_count s \<Longrightarrow> i < arr_capacity s"
  by (auto simp: array_inv_def)

lemma array_list_same_data:
  "arr_data s' = arr_data s \<Longrightarrow> arr_element_size s' = arr_element_size s \<Longrightarrow>
   arr_count s' = arr_count s \<Longrightarrow> array_list s' = array_list s"
  by (simp add: array_list_def)

lemma array_init_ok:
  assumes "scl_allocator a" and "scl_array_init a (Some s0) es cap = (SCL_OK, Some s)"
  shows "array_inv s \<and> array_list s = [] \<and> arr_element_size s = es \<and> arr_capacity s = cap"
  using assms scl_allocator.malloc_buf [OF assms(1)]
  by (auto simp: scl_array_init_def Let_def array_inv_def array_list_def word_gt_0
      split: if_splits option.splits)

text \<open>Opening a gap at \<open>i\<close> and closing it: the \<open>memmove\<close>s of \<open>insert\<close> and \<open>remove\<close>.\<close>

lemma shift_up:
  assumes buf: "buf_ok d cap es" and i: "i \<le> cnt" and cnt: "cnt < cap"
  obtains d' where "(if 0 < cnt - i then scl_memmove d (unat ((i + 1) * es)) (unat (i * es)) (unat ((cnt - i) * es))
      else Some d) = Some d'"
    and "buf_ok d' cap es"
    and "\<And>j. j < unat cap \<Longrightarrow> slot d' es j = (if unat i < j \<and> j \<le> unat cnt then slot d es (j - 1) else slot d es j)"
proof (cases "i = cnt")
  case True
  then show ?thesis using buf by (intro that [of d]) auto
next
  case False
  then have i': "i < cnt" using i by simp
  have n: "unat (i + 1) = Suc (unat i)" "unat (cnt - i) = unat cnt - unat i"
    using unat_Suc_less [OF i'] unat_diff_le [OF i] .
  have lt: "unat i < unat cnt" "unat cnt < unat cap" using i' cnt by (simp_all add: word_less_unat)
  have "0 < cnt - i" using False by (simp add: word_gt_0)
  moreover have "cap \<noteq> 0" using lt by auto
  from buf_move [OF buf this, of i "cnt - i" "i + 1"] obtain d' where
    "scl_memmove d (unat ((i + 1) * es)) (unat (i * es)) (unat ((cnt - i) * es)) = Some d'"
    "buf_ok d' cap es"
    "\<And>j. j < unat cap \<Longrightarrow> slot d' es j = (if unat (i + 1) \<le> j \<and> j < unat (i + 1) + unat (cnt - i)
      then slot d es (unat i + j - unat (i + 1)) else slot d es j)"
    using lt by (auto simp: n)
  ultimately show ?thesis using lt by (intro that [of d']) (auto simp: n)
qed

lemma shift_down:
  assumes buf: "buf_ok d cap es" and i: "i < cnt" and cnt: "cnt \<le> cap"
  obtains d' where "(if 0 < cnt - i - 1 then scl_memmove d (unat (i * es)) (unat ((i + 1) * es)) (unat ((cnt - i - 1) * es))
      else Some d) = Some d'"
    and "buf_ok d' cap es"
    and "\<And>j. j < unat cap \<Longrightarrow> slot d' es j = (if unat i \<le> j \<and> Suc j < unat cnt then slot d es (Suc j) else slot d es j)"
proof (cases "cnt - i - 1 = 0")
  case True
  then have "cnt = i + 1" by (simp add: algebra_simps)
  then have "unat cnt = Suc (unat i)" using unat_Suc_less [OF i] by simp
  then show ?thesis using buf True by (intro that [of d]) auto
next
  case False
  have n: "unat (i + 1) = Suc (unat i)" using i by (rule unat_Suc_less)
  have "i + 1 \<le> cnt" using i n by (simp add: word_le_unat word_less_unat)
  then have m: "unat (cnt - i - 1) = unat cnt - Suc (unat i)"
    using n by (simp add: diff_diff_eq unat_diff_le)
  have lt: "unat i < unat cnt" "unat cnt \<le> unat cap" using i cnt by (simp_all add: word_less_unat word_le_unat)
  have "cap \<noteq> 0" using lt by auto
  moreover have "unat (i + 1) + unat (cnt - i - 1) \<le> unat cap" "unat i + unat (cnt - i - 1) \<le> unat cap"
    using lt by (simp_all only: n m)
  ultimately obtain d' where
    "scl_memmove d (unat (i * es)) (unat ((i + 1) * es)) (unat ((cnt - i - 1) * es)) = Some d'"
    "buf_ok d' cap es"
    "\<And>j. j < unat cap \<Longrightarrow> slot d' es j = (if unat i \<le> j \<and> j < unat i + unat (cnt - i - 1)
      then slot d es (unat (i + 1) + j - unat i) else slot d es j)"
    using buf_move [OF buf, of "i + 1" "cnt - i - 1" i] by blast
  then show ?thesis using lt False by (intro that [of d']) (auto simp: n m word_gt_0)
qed

context scl_allocator
begin

lemma reserve_spec:
  assumes inv: "array_inv s"
  shows "\<exists>err s'. array_reserve a s n = Some (err, s') \<and> array_inv s' \<and>
    array_list s' = array_list s \<and> arr_element_size s' = arr_element_size s \<and>
    arr_count s' = arr_count s \<and>
    (if err = SCL_OK then arr_capacity s' = max (arr_capacity s) n else alloc_failed err \<and> s' = s)"
proof (cases "n \<le> arr_capacity s")
  case True
  then show ?thesis using inv by (simp add: array_reserve_def max_def)
next
  case grow: False
  note buf = array_inv_buf [OF inv]
  obtain old where old: "scl_mul_overflow (arr_capacity s) (arr_element_size s) = Some old"
    "old = arr_capacity s * arr_element_size s" using buf_old_size [OF buf] by blast
  show ?thesis
  proof (cases "scl_mul_overflow n (arr_element_size s)")
    case None
    then show ?thesis using grow inv by (simp add: array_reserve_def alloc_failed_def)
  next
    case (Some bytes)
    from buf Some old(2) show ?thesis
    proof (rule realloc_buf [where k = 0 and al = max_align])
      assume "realloc_fn a 0 (arr_data s) old bytes max_align = Some None"
      then show ?thesis using grow inv Some old by (simp add: array_reserve_def alloc_failed_def)
    next
      fix b
      assume b: "realloc_fn a 0 (arr_data s) old bytes max_align = Some (Some b)"
        "buf_ok (Some b) n (arr_element_size s)"
        "\<And>j. j < unat (arr_capacity s) \<Longrightarrow> j < unat n \<Longrightarrow>
          slot (Some b) (arr_element_size s) j = slot (arr_data s) (arr_element_size s) j"
      let ?s' = "s\<lparr>arr_data := Some b, arr_capacity := n\<rparr>"
      have "array_inv ?s'" using b(2) grow inv by (auto simp: array_inv_def)
      moreover have "array_list ?s' = array_list s"
        using b(3) grow inv by (auto simp: array_list_def array_inv_def word_le_unat intro!: slots_cong)
      moreover have "array_reserve a s n = Some (SCL_OK, ?s')"
        using grow Some old b(1) by (simp add: array_reserve_def)
      ultimately show ?thesis using grow by (auto simp: max_def)
    qed
  qed
qed

lemma make_room_spec:
  assumes inv: "array_inv s"
  shows "\<exists>err s'. array_make_room a s = Some (err, s') \<and> array_inv s' \<and>
    array_list s' = array_list s \<and> arr_element_size s' = arr_element_size s \<and>
    arr_count s' = arr_count s \<and>
    (if err = SCL_OK then arr_count s' < arr_capacity s' else alloc_failed err \<and> s' = s)"
proof (cases "arr_count s = arr_capacity s")
  case False
  then show ?thesis using inv by (auto simp: array_make_room_def array_inv_def)
next
  case True
  let ?n = "if arr_capacity s = 0 then 4 else arr_capacity s * 2"
  have "unat (arr_capacity s) < 2 ^ 63" using buf_ok_bound(2) [OF array_inv_buf [OF inv]] .
  then have "unat (arr_capacity s * 2) = unat (arr_capacity s) * 2" by (rule unat_double_bounded)
  then have "arr_capacity s < ?n" by (auto simp: word_less_unat unat_pos_iff)
  then have n: "max (arr_capacity s) ?n = ?n" by (rule max.absorb2 [OF less_imp_le])
  obtain err s' where "array_reserve a s ?n = Some (err, s')" "array_inv s'"
    "array_list s' = array_list s" "arr_element_size s' = arr_element_size s"
    "arr_count s' = arr_count s"
    "if err = SCL_OK then arr_capacity s' = ?n else alloc_failed err \<and> s' = s"
    using reserve_spec [OF inv, of ?n] unfolding n by blast
  then show ?thesis
    using True \<open>arr_capacity s < ?n\<close> unfolding array_make_room_def
    by (intro exI [of _ err] exI [of _ s']) (auto split: if_splits)
qed

lemma push_spec:
  assumes inv: "array_inv s" and e: "unat (arr_element_size s) \<le> length e"
  shows "\<exists>err s'. scl_array_push a (Some s) (Some e) = Some (err, Some s') \<and> array_inv s' \<and>
    arr_element_size s' = arr_element_size s \<and>
    (if err = SCL_OK then array_list s' = array_list s @ [take (unat (arr_element_size s)) e]
     else alloc_failed err \<and> s' = s)"
proof -
  let ?es = "arr_element_size s" and ?cnt = "arr_count s"
  obtain err s1 where s1: "array_make_room a s = Some (err, s1)" "array_inv s1"
    "array_list s1 = array_list s" "arr_element_size s1 = ?es" "arr_count s1 = ?cnt"
    "if err = SCL_OK then ?cnt < arr_capacity s1 else alloc_failed err \<and> s1 = s"
    using make_room_spec [OF inv] by metis
  show ?thesis
  proof (cases "err = SCL_OK")
    case False
    then show ?thesis using s1 inv by (simp add: scl_array_push_def Let_def)
  next
    case True
    then have cnt: "?cnt < arr_capacity s1" using s1(6) by simp
    from array_inv_buf [OF s1(2)] have buf: "buf_ok (arr_data s1) (arr_capacity s1) ?es" by (simp add: s1(4))
    from buf_write [OF buf cnt e] obtain d' where d':
      "scl_memcpy (arr_data s1) (unat (?cnt * ?es)) (Some e) 0 (unat ?es) = Some d'"
      "buf_ok d' (arr_capacity s1) ?es"
      "\<And>j. j < unat (arr_capacity s1) \<Longrightarrow>
        slot d' ?es j = (if j = unat ?cnt then take (unat ?es) e else slot (arr_data s1) ?es j)"
      by blast
    let ?s' = "s1\<lparr>arr_data := d', arr_count := ?cnt + 1\<rparr>"
    have n: "unat (?cnt + 1) = Suc (unat ?cnt)" using cnt by (rule unat_Suc_less)
    have lt: "unat ?cnt < unat (arr_capacity s1)" using cnt by (simp add: word_less_unat)
    have "array_inv ?s'" using d'(2) lt by (simp add: array_inv_def s1(4) word_le_unat n)
    moreover have "slots d' ?es (unat ?cnt) = slots (arr_data s1) ?es (unat ?cnt)"
      using d'(3) lt by (intro slots_cong) simp
    then have "array_list ?s' = array_list s @ [take (unat ?es) e]"
      using d'(3) lt s1(3,4,5) by (simp add: array_list_def n slots_Suc)
    moreover have "scl_array_push a (Some s) (Some e) = Some (SCL_OK, Some ?s')"
      using s1(1) True d'(1) by (simp add: scl_array_push_def Let_def)
    ultimately show ?thesis using s1(4) by simp
  qed
qed


lemma insert_spec:
  assumes inv: "array_inv s" and i: "i \<le> arr_count s" and e: "unat (arr_element_size s) \<le> length e"
  shows "\<exists>err s'. scl_array_insert a (Some s) i (Some e) = Some (err, Some s') \<and> array_inv s' \<and>
    arr_element_size s' = arr_element_size s \<and>
    (if err = SCL_OK
     then array_list s' = take (unat i) (array_list s) @ [take (unat (arr_element_size s)) e] @ drop (unat i) (array_list s)
     else alloc_failed err \<and> s' = s)"
proof -
  let ?es = "arr_element_size s" and ?cnt = "arr_count s"
  obtain err s1 where s1: "array_make_room a s = Some (err, s1)" "array_inv s1"
    "array_list s1 = array_list s" "arr_element_size s1 = ?es" "arr_count s1 = ?cnt"
    "if err = SCL_OK then ?cnt < arr_capacity s1 else alloc_failed err \<and> s1 = s"
    using make_room_spec [OF inv] by metis
  have ni: "\<not> ?cnt < i" using i by simp
  show ?thesis
  proof (cases "err = SCL_OK")
    case False
    then show ?thesis using s1 inv ni by (simp add: scl_array_insert_def Let_def)
  next
    case True
    then have cnt: "?cnt < arr_capacity s1" using s1(6) by simp
    then have i': "i < arr_capacity s1" using i by simp
    have lt: "unat ?cnt < unat (arr_capacity s1)" "unat i \<le> unat ?cnt"
      using cnt i by (simp_all add: word_less_unat word_le_unat)
    from array_inv_buf [OF s1(2)] have buf: "buf_ok (arr_data s1) (arr_capacity s1) ?es" by (simp add: s1(4))
    obtain d1 where d1:
      "(if 0 < ?cnt - i then scl_memmove (arr_data s1) (unat ((i + 1) * ?es)) (unat (i * ?es)) (unat ((?cnt - i) * ?es))
        else Some (arr_data s1)) = Some d1"
      "buf_ok d1 (arr_capacity s1) ?es"
      "\<And>j. j < unat (arr_capacity s1) \<Longrightarrow> slot d1 ?es j
        = (if unat i < j \<and> j \<le> unat ?cnt then slot (arr_data s1) ?es (j - 1) else slot (arr_data s1) ?es j)"
      using shift_up [OF buf i cnt] by blast
    from buf_write [OF d1(2) i' e] obtain d' where d':
      "scl_memcpy d1 (unat (i * ?es)) (Some e) 0 (unat ?es) = Some d'"
      "buf_ok d' (arr_capacity s1) ?es"
      "\<And>j. j < unat (arr_capacity s1) \<Longrightarrow>
        slot d' ?es j = (if j = unat i then take (unat ?es) e else slot d1 ?es j)"
      by blast
    let ?s' = "s1\<lparr>arr_data := d', arr_count := ?cnt + 1\<rparr>"
    have n: "unat (?cnt + 1) = Suc (unat ?cnt)" using cnt by (rule unat_Suc_less)
    have "array_inv ?s'" using d'(2) lt by (simp add: array_inv_def s1(4) word_le_unat n)
    moreover have "array_list ?s' = take (unat i) (array_list s) @ [take (unat ?es) e] @ drop (unat i) (array_list s)"
      (is "_ = ?r")
    proof (rule nth_equalityI)
      show "length (array_list ?s') = length ?r" using lt by (simp add: n)
      fix j assume "j < length (array_list ?s')"
      then have j: "j < Suc (unat ?cnt)" by (simp add: n)
      have "array_list s = slots (arr_data s1) ?es (unat ?cnt)"
        using s1(3,4,5) by (simp add: array_list_def)
      then show "array_list ?s' ! j = ?r ! j"
        using j lt d'(3) [of j] d1(3) [of j] s1(4)
        by (simp add: array_list_def n nth_append nth_Cons' min_def)
    qed
    moreover have "scl_array_insert a (Some s) i (Some e) = Some (SCL_OK, Some ?s')"
      using s1(1,4) True d'(1) d1(1) ni by (simp add: scl_array_insert_def Let_def)
    ultimately show ?thesis using s1(4) by simp
  qed
qed

lemma shrink_spec:
  assumes inv: "array_inv s"
  shows "\<exists>err s'. scl_array_shrink a (Some s) = Some (err, Some s') \<and> array_inv s' \<and>
    array_list s' = array_list s \<and>
    (if err = SCL_OK then arr_capacity s' = arr_count s else alloc_failed err \<and> s' = s)"
proof (cases "arr_count s = arr_capacity s")
  case True
  then have "scl_array_shrink a (Some s) = Some (SCL_OK, Some s)" by (simp add: scl_array_shrink_def)
  then show ?thesis using True inv by simp
next
  case ne: False
  note buf = array_inv_buf [OF inv]
  obtain old where old: "scl_mul_overflow (arr_capacity s) (arr_element_size s) = Some old"
    "old = arr_capacity s * arr_element_size s" using buf_old_size [OF buf] by blast
  show ?thesis
  proof (cases "scl_mul_overflow (arr_count s) (arr_element_size s)")
    case None
    then show ?thesis using ne inv by (simp add: scl_array_shrink_def alloc_failed_def Let_def)
  next
    case (Some bytes)
    show ?thesis
    proof (cases "arr_count s = 0")
      case True
      let ?s' = "s\<lparr>arr_data := None, arr_capacity := 0\<rparr>"
      have "array_inv ?s'" using True buf_ok_es [OF buf] by (simp add: array_inv_def)
      moreover have "array_list ?s' = array_list s" using True by (simp add: array_list_def)
      moreover have "scl_array_shrink a (Some s) = Some (SCL_OK, Some ?s')"
        using ne True Some by (simp add: scl_array_shrink_def Let_def)
      ultimately show ?thesis using True by simp
    next
    case False
    from buf Some old(2) show ?thesis
    proof (rule realloc_buf [where k = 0 and al = max_align])
      assume "realloc_fn a 0 (arr_data s) old bytes max_align = Some None"
      then show ?thesis using ne False inv Some old by (simp add: scl_array_shrink_def alloc_failed_def)
    next
      fix b
      assume b: "realloc_fn a 0 (arr_data s) old bytes max_align = Some (Some b)"
        "buf_ok (Some b) (arr_count s) (arr_element_size s)"
        "\<And>j. j < unat (arr_capacity s) \<Longrightarrow> j < unat (arr_count s) \<Longrightarrow>
          slot (Some b) (arr_element_size s) j = slot (arr_data s) (arr_element_size s) j"
      let ?s' = "s\<lparr>arr_data := Some b, arr_capacity := arr_count s\<rparr>"
      have "array_inv ?s'" using b(2) by (auto simp: array_inv_def)
      moreover have "array_list ?s' = array_list s"
        using b(3) inv by (auto simp: array_list_def array_inv_def word_le_unat intro!: slots_cong)
      moreover have "scl_array_shrink a (Some s) = Some (SCL_OK, Some ?s')"
        using ne False Some old b(1) by (simp add: scl_array_shrink_def)
      ultimately show ?thesis by auto
    qed
    qed
  qed
qed

end

section \<open>Operations that do not allocate\<close>

lemma pop_spec:
  assumes inv: "array_inv s" and o: "unat (arr_element_size s) \<le> length out" and ne: "arr_count s \<noteq> 0"
  shows "\<exists>s'. scl_array_pop (Some s) (Some out)
      = Some (SCL_OK, Some s', Some (last (array_list s) @ drop (unat (arr_element_size s)) out)) \<and>
    array_inv s' \<and> array_list s' = butlast (array_list s) \<and> arr_element_size s' = arr_element_size s"
proof -
  have n: "unat (arr_count s) = Suc (unat (arr_count s - 1))"
    using ne unat_pred [OF ne] by (simp add: unat_pos_iff)
  then have c: "arr_count s - 1 < arr_capacity s"
    using inv by (auto simp: array_inv_def word_less_unat word_le_unat)
  show ?thesis
    using ne inv buf_read [OF array_inv_buf [OF inv] c o] c n
    by (auto simp: scl_array_pop_def Let_def array_list_def slots_Suc array_inv_def)
qed

lemma get_spec:
  assumes inv: "array_inv s" and o: "unat (arr_element_size s) \<le> length out"
  shows "scl_array_get (Some s) i (Some out) = Some
    (if i < arr_count s then (SCL_OK, Some (array_list s ! unat i @ drop (unat (arr_element_size s)) out))
     else (SCL_ERR_INVALID_INDEX, Some out))"
proof (cases "i < arr_count s")
  case True
  then have "\<not> arr_count s \<le> i" "unat i < unat (arr_count s)" by (simp, simp add: word_less_unat)
  then show ?thesis using True buf_read [OF array_inv_buf [OF inv] array_index [OF inv True] o]
    by (simp add: scl_array_get_def array_list_def Let_def)
qed (simp add: scl_array_get_def linorder_not_less)

lemma set_spec:
  assumes inv: "array_inv s" and e: "unat (arr_element_size s) \<le> length e" and i: "i < arr_count s"
  shows "\<exists>s'. scl_array_set (Some s) i (Some e) = Some (SCL_OK, Some s') \<and> array_inv s' \<and>
    array_list s' = (array_list s)[unat i := take (unat (arr_element_size s)) e] \<and>
    arr_element_size s' = arr_element_size s"
proof -
  from buf_write [OF array_inv_buf [OF inv] array_index [OF inv i] e] obtain d' where d':
    "scl_memcpy (arr_data s) (unat (i * arr_element_size s)) (Some e) 0 (unat (arr_element_size s)) = Some d'"
    "buf_ok d' (arr_capacity s) (arr_element_size s)"
    "\<And>j. j < unat (arr_capacity s) \<Longrightarrow> slot d' (arr_element_size s) j
      = (if j = unat i then take (unat (arr_element_size s)) e else slot (arr_data s) (arr_element_size s) j)"
    by blast
  let ?s' = "s\<lparr>arr_data := d'\<rparr>"
  have "array_list ?s' = (array_list s)[unat i := take (unat (arr_element_size s)) e]"
  proof (rule nth_equalityI)
    fix j assume "j < length (array_list ?s')"
    then have "j < unat (arr_count s)" by simp
    moreover have "unat (arr_count s) \<le> unat (arr_capacity s)"
      using inv by (simp add: array_inv_def word_le_unat)
    ultimately show "array_list ?s' ! j = (array_list s)[unat i := take (unat (arr_element_size s)) e] ! j"
      using d'(3) [of j] by (simp add: array_list_def nth_list_update)
  qed simp
  then show ?thesis using d'(1,2) i inv by (auto simp: scl_array_set_def Let_def array_inv_def)
qed

lemma remove_spec:
  assumes inv: "array_inv s" and o: "unat (arr_element_size s) \<le> length out" and i: "i < arr_count s"
  shows "\<exists>s'. scl_array_remove (Some s) i (Some out)
      = Some (SCL_OK, Some s', Some (array_list s ! unat i @ drop (unat (arr_element_size s)) out)) \<and>
    array_inv s' \<and> arr_element_size s' = arr_element_size s \<and>
    array_list s' = take (unat i) (array_list s) @ drop (Suc (unat i)) (array_list s)"
proof -
  let ?es = "arr_element_size s" and ?cnt = "arr_count s"
  note buf = array_inv_buf [OF inv]
  have lt: "unat i < unat ?cnt" "unat ?cnt \<le> unat (arr_capacity s)"
    using i inv by (simp_all add: array_inv_def word_less_unat word_le_unat)
  have ni: "\<not> ?cnt \<le> i" using i by simp
  have ne: "?cnt \<noteq> 0" using i by auto
  have n: "unat (?cnt - 1) = unat ?cnt - 1" using ne by (rule unat_pred)
  obtain d1 where d1:
    "(if 0 < ?cnt - i - 1 then scl_memmove (arr_data s) (unat (i * ?es)) (unat ((i + 1) * ?es)) (unat ((?cnt - i - 1) * ?es))
      else Some (arr_data s)) = Some d1"
    "buf_ok d1 (arr_capacity s) ?es"
    "\<And>j. j < unat (arr_capacity s) \<Longrightarrow> slot d1 ?es j
      = (if unat i \<le> j \<and> Suc j < unat ?cnt then slot (arr_data s) ?es (Suc j) else slot (arr_data s) ?es j)"
    using shift_down [OF buf i] inv by (auto simp: array_inv_def)
  let ?s' = "s\<lparr>arr_data := d1, arr_count := ?cnt - 1\<rparr>"
  have "scl_array_remove (Some s) i (Some out)
      = Some (SCL_OK, Some ?s', Some (array_list s ! unat i @ drop (unat ?es) out))"
    using d1(1) buf_read [OF buf array_index [OF inv i] o] lt(1) ni
    by (simp add: scl_array_remove_def Let_def array_list_def)
  moreover have "array_inv ?s'" using d1(2) lt by (simp add: array_inv_def word_le_unat n)
  moreover have "array_list ?s' = take (unat i) (array_list s) @ drop (Suc (unat i)) (array_list s)"
    (is "_ = ?r")
  proof (rule nth_equalityI)
    show "length (array_list ?s') = length ?r" using lt by (simp add: n)
    fix j assume "j < length (array_list ?s')"
    then show "array_list ?s' ! j = ?r ! j"
      using lt d1(3) [of j] by (auto simp: array_list_def n nth_append min_def)
  qed
  ultimately show ?thesis by simp
qed

section \<open>The searches\<close>

lemma array_load: "array_inv s \<Longrightarrow> j < unat (arr_count s) \<Longrightarrow>
  load_elem (arr_data s) (of_nat j) (arr_element_size s) = Some (array_list s ! j)"
  using load_slot_nat [OF array_inv_buf, of s j] by (auto simp: array_inv_def array_list_def word_le_unat)

lemma linear_search_spec:
  assumes inv: "array_inv s"
  shows "\<exists>r. scl_array_linear_search (Some s) (Some k) cmp
      = Some (if r = None then SCL_ERR_NOT_FOUND else SCL_OK, r) \<and>
    is_first (\<lambda>v. cmp v k = 0) (array_list s) (map_option unat r)"
  using scan_first [of "array_list s" "arr_count s" "\<lambda>i. load_elem (arr_data s) i (arr_element_size s)" "\<lambda>v. cmp v k"]
    array_load [OF inv]
  by (auto simp: scl_array_linear_search_def split: option.split)

text \<open>The binary search on any sorted array that a reader \<open>rd\<close> delivers.\<close>

definition hit_or_absent :: "('a \<Rightarrow> int) \<Rightarrow> 'a list \<Rightarrow> nat option \<Rightarrow> bool" where
  "hit_or_absent test xs r \<longleftrightarrow>
     (case r of None \<Rightarrow> \<forall>x \<in> set xs. test x \<noteq> 0 | Some k \<Rightarrow> k < length xs \<and> test (xs ! k) = 0)"

context comparator
begin

lemma binary_loop_spec:
  assumes xs: "sorted_cmp cmp xs" and len: "length xs = unat cnt"
    and rd: "\<And>j. j < length xs \<Longrightarrow> rd (of_nat j) = Some (xs ! j)"
  shows "hi \<le> cnt \<Longrightarrow> (\<forall>j < unat lo. j < length xs \<longrightarrow> cmp (xs ! j) key < 0) \<Longrightarrow>
    (\<forall>j. unat hi \<le> j \<and> j < length xs \<longrightarrow> 0 < cmp (xs ! j) key) \<Longrightarrow>
    \<exists>r. array_binary_loop rd (\<lambda>v. cmp v key) lo hi = Some r \<and>
      hit_or_absent (\<lambda>v. cmp v key) xs (map_option unat r)"
proof (induction "unat hi - unat lo" arbitrary: lo hi rule: less_induct)
  case less
  show ?case
  proof (cases "lo < hi")
    case False
    have "cmp x key \<noteq> 0" if x: "x \<in> set xs" for x
    proof -
      obtain j where j: "j < length xs" "xs ! j = x" using x unfolding in_set_conv_nth by blast
      have "j < unat lo \<or> unat hi \<le> j" using False by (auto simp: word_less_unat)
      then have "cmp (xs ! j) key < 0 \<or> 0 < cmp (xs ! j) key" using j(1) less.prems(2,3) by blast
      then show ?thesis using j(2) by auto
    qed
    moreover have "array_binary_loop rd (\<lambda>v. cmp v key) lo hi = Some None"
      using False by (subst array_binary_loop.simps) (simp only: if_False)
    ultimately show ?thesis by (simp add: hit_or_absent_def)
  next
    case True
    define mid where "mid = lo + (hi - lo) div 2"
    have mid: "mid < hi" "unat lo \<le> unat mid" using mid_bounds [OF True] by (auto simp: mid_def)
    then have l: "unat mid < length xs" using less.prems(1) len by (simp add: word_less_unat word_le_unat)
    have read: "rd mid = Some (xs ! unat mid)" using rd [OF l] by simp
    note n = unat_Suc_less [OF mid(1)]
    consider (lt) "cmp (xs ! unat mid) key < 0" | (gt) "0 < cmp (xs ! unat mid) key"
      | (eq) "cmp (xs ! unat mid) key = 0" by linarith
    then show ?thesis
    proof cases
      case lt
      have "array_binary_loop rd (\<lambda>v. cmp v key) lo hi = array_binary_loop rd (\<lambda>v. cmp v key) (mid + 1) hi"
        using True lt read by (subst array_binary_loop.simps) (simp add: mid_def Let_def)
      moreover have "unat hi - unat (mid + 1) < unat hi - unat lo"
        using mid n by (simp add: word_less_unat)
      moreover have "\<forall>j < unat (mid + 1). j < length xs \<longrightarrow> cmp (xs ! j) key < 0"
        unfolding n less_Suc_eq_le using sorted_below [OF xs _ l lt] by blast
      ultimately show ?thesis using less.hyps [of hi "mid + 1", OF _ less.prems(1) _ less.prems(3)] by (simp only:)
    next
      case gt
      have "array_binary_loop rd (\<lambda>v. cmp v key) lo hi = array_binary_loop rd (\<lambda>v. cmp v key) lo mid"
        using True gt read by (subst array_binary_loop.simps) (simp add: mid_def Let_def)
      moreover have "unat mid - unat lo < unat hi - unat lo"
        using mid True by (simp add: word_less_unat)
      moreover have "\<forall>j. unat mid \<le> j \<and> j < length xs \<longrightarrow> 0 < cmp (xs ! j) key"
        using sorted_above [OF xs _ _ gt] by blast
      moreover have "mid \<le> cnt" using mid(1) less.prems(1) by simp
      ultimately show ?thesis using less.hyps [of mid lo, OF _ _ less.prems(2)] by (simp only:)
    next
      case eq
      have "array_binary_loop rd (\<lambda>v. cmp v key) lo hi = Some (Some mid)"
        using True eq read by (subst array_binary_loop.simps) (simp add: mid_def Let_def)
      then show ?thesis using eq l by (simp add: hit_or_absent_def)
    qed
  qed
qed

end

lemma binary_search_spec:
  assumes "comparator cmp" and inv: "array_inv s" and "sorted_cmp cmp (array_list s)"
  shows "\<exists>r. scl_array_binary_search (Some s) (Some k) cmp
      = Some (if r = None then SCL_ERR_NOT_FOUND else SCL_OK, r) \<and>
    hit_or_absent (\<lambda>v. cmp v k) (array_list s) (map_option unat r)"
  using comparator.binary_loop_spec [OF assms(1,3), of "arr_count s"
      "\<lambda>i. load_elem (arr_data s) i (arr_element_size s)" "arr_count s" 0 k] array_load [OF inv]
  by (auto simp: scl_array_binary_search_def split: option.split)

section \<open>The array is a stack-like store\<close>

text \<open>The state of the store is the array with the allocator it is used with; the buffer that
  receives an element is one of exactly the element size.\<close>

definition array_put :: "scl_allocator_t \<times> scl_array_t \<Rightarrow> block \<Rightarrow> (scl_error_t \<times> scl_allocator_t \<times> scl_array_t) ub" where
  "array_put as e = do {
     (err, s) \<leftarrow> scl_array_push (fst as) (Some (snd as)) (Some e);
     Some (err, fst as, the s)
   }"

definition array_take :: "scl_allocator_t \<times> scl_array_t \<Rightarrow> (scl_error_t \<times> (scl_allocator_t \<times> scl_array_t) \<times> block) ub" where
  "array_take as = do {
     (err, s, v) \<leftarrow> scl_array_pop (Some (snd as)) (Some (replicate (unat (arr_element_size (snd as))) 0));
     Some (err, (fst as, the s), the v)
   }"

interpretation array_store: lifo_store "\<lambda>as. scl_allocator (fst as) \<and> array_inv (snd as)"
  "\<lambda>as. unat (arr_element_size (snd as))" "\<lambda>as. array_list (snd as)" array_put array_take
proof
  fix s :: "scl_allocator_t \<times> scl_array_t" and e :: block
  assume "scl_allocator (fst s) \<and> array_inv (snd s)" and "unat (arr_element_size (snd s)) \<le> length e"
  then show "\<exists>err s'. array_put s e = Some (err, s') \<and> (scl_allocator (fst s') \<and> array_inv (snd s')) \<and>
    unat (arr_element_size (snd s')) = unat (arr_element_size (snd s)) \<and> err \<noteq> SCL_ERR_EMPTY \<and>
    array_list (snd s') = (if err = SCL_OK then array_list (snd s) @ [take (unat (arr_element_size (snd s))) e]
      else array_list (snd s))"
    using scl_allocator.push_spec [of "fst s" "snd s" e]
    by (fastforce simp: array_put_def alloc_failed_def split: if_splits)
next
  fix s :: "scl_allocator_t \<times> scl_array_t"
  assume s: "scl_allocator (fst s) \<and> array_inv (snd s)" and "array_list (snd s) \<noteq> []"
  then have "arr_count (snd s) \<noteq> 0" by (auto simp: array_list_def)
  with s show "\<exists>s'. array_take s = Some (SCL_OK, s', last (array_list (snd s))) \<and>
    (scl_allocator (fst s') \<and> array_inv (snd s')) \<and>
    unat (arr_element_size (snd s')) = unat (arr_element_size (snd s)) \<and>
    array_list (snd s') = butlast (array_list (snd s))"
    using pop_spec [of "snd s" "replicate (unat (arr_element_size (snd s))) 0"]
    by (auto simp: array_take_def)
next
  fix s :: "scl_allocator_t \<times> scl_array_t"
  assume "array_list (snd s) = []"
  then have "arr_count (snd s) = 0"
    using length_array_list [of "snd s"] by (metis list.size(3) unat_eq_0_iff)
  then show "\<exists>v. array_take s = Some (SCL_ERR_EMPTY, s, v)"
    by (simp add: array_take_def scl_array_pop_def)
qed

end
