(* ===== verification/Scl_Stack.thy ===== *)
theory Scl_Stack
  imports Scl_Cmp
begin

text \<open>
  The stack of \<open>libs/structures/stack/scl_stack.c\<close>: elements in a growing block, the top behind
  the last one. Unlike the array it computes the old byte count of the block without an overflow
  check; the invariant shows that product never wraps. The stack is a \<open>lifo_store\<close>.
\<close>

record scl_stack_t =
  stk_data :: "block ptr"
  stk_element_size :: size_t
  stk_capacity :: size_t
  stk_count :: size_t

definition scl_stack_init ::
    "scl_allocator_t \<Rightarrow> scl_stack_t ptr \<Rightarrow> size_t \<Rightarrow> size_t \<Rightarrow> scl_error_t \<times> scl_stack_t ptr" where
  "scl_stack_init a stack element_size initial_capacity =
     (case stack of None \<Rightarrow> (SCL_ERR_NULL_PTR, stack)
      | Some _ \<Rightarrow>
          if element_size = 0 then (SCL_ERR_INVALID_ARG, stack)
          else let s = \<lparr>stk_data = None, stk_element_size = element_size, stk_capacity = 0, stk_count = 0\<rparr> in
            if 0 < initial_capacity then
              case scl_mul_overflow initial_capacity element_size of
                None \<Rightarrow> (SCL_ERR_SIZE_OVERFLOW, Some s)
              | Some bytes \<Rightarrow>
                  (case malloc_fn a 0 bytes max_align of
                     None \<Rightarrow> (SCL_ERR_OUT_OF_MEMORY, Some s)
                   | Some d \<Rightarrow> (SCL_OK, Some (s\<lparr>stk_data := Some d, stk_capacity := initial_capacity\<rparr>)))
            else (SCL_OK, Some s))"

definition scl_stack_destroy :: "scl_stack_t ptr \<Rightarrow> scl_stack_t ptr" where
  "scl_stack_destroy stack =
     map_option (\<lambda>s. s\<lparr>stk_data := None, stk_capacity := 0, stk_count := 0\<rparr>) stack"

text \<open>The growth step at the head of \<open>scl_stack_push\<close>.\<close>

definition stack_make_room :: "scl_allocator_t \<Rightarrow> scl_stack_t \<Rightarrow> (scl_error_t \<times> scl_stack_t) ub" where
  "stack_make_room a s =
     (if stk_count s = stk_capacity s then
        let new_cap = (if stk_capacity s = 0 then 4 else stk_capacity s * 2);
            old_bytes = stk_capacity s * stk_element_size s in
        case scl_mul_overflow new_cap (stk_element_size s) of
          None \<Rightarrow> Some (SCL_ERR_SIZE_OVERFLOW, s)
        | Some new_bytes \<Rightarrow> do {
            tmp \<leftarrow> realloc_fn a 0 (stk_data s) old_bytes new_bytes max_align;
            (case tmp of
               None \<Rightarrow> Some (SCL_ERR_OUT_OF_MEMORY, s)
             | Some _ \<Rightarrow> Some (SCL_OK, s\<lparr>stk_data := tmp, stk_capacity := new_cap\<rparr>))
          }
      else Some (SCL_OK, s))"

definition scl_stack_push ::
    "scl_allocator_t \<Rightarrow> scl_stack_t ptr \<Rightarrow> block ptr \<Rightarrow> (scl_error_t \<times> scl_stack_t ptr) ub" where
  "scl_stack_push a stack element =
     (case (stack, element) of
        (Some s, Some _) \<Rightarrow> do {
          let cnt = stk_count s;
          let es = stk_element_size s;
          (err, s) \<leftarrow> stack_make_room a s;
          if err \<noteq> SCL_OK then Some (err, Some s)
          else do {
            d \<leftarrow> scl_memcpy (stk_data s) (unat (cnt * es)) element 0 (unat es);
            Some (SCL_OK, Some (s\<lparr>stk_data := d, stk_count := cnt + 1\<rparr>))
          }
        }
      | _ \<Rightarrow> Some (SCL_ERR_NULL_PTR, stack))"

definition scl_stack_pop ::
    "scl_stack_t ptr \<Rightarrow> block ptr \<Rightarrow> (scl_error_t \<times> scl_stack_t ptr \<times> block ptr) ub" where
  "scl_stack_pop stack out =
     (case (stack, out) of
        (Some s, Some _) \<Rightarrow>
          if stk_count s = 0 then Some (SCL_ERR_EMPTY, stack, out)
          else do {
            let es = stk_element_size s;
            let s = s\<lparr>stk_count := stk_count s - 1\<rparr>;
            o' \<leftarrow> scl_memcpy out 0 (stk_data s) (unat (stk_count s * es)) (unat es);
            Some (SCL_OK, Some s, o')
          }
      | _ \<Rightarrow> Some (SCL_ERR_NULL_PTR, stack, out))"

definition scl_stack_peek :: "scl_stack_t ptr \<Rightarrow> block ptr \<Rightarrow> (scl_error_t \<times> block ptr) ub" where
  "scl_stack_peek stack out =
     (case (stack, out) of
        (Some s, Some _) \<Rightarrow>
          if stk_count s = 0 then Some (SCL_ERR_EMPTY, out)
          else do {
            o' \<leftarrow> scl_memcpy out 0 (stk_data s) (unat ((stk_count s - 1) * stk_element_size s))
                    (unat (stk_element_size s));
            Some (SCL_OK, o')
          }
      | _ \<Rightarrow> Some (SCL_ERR_NULL_PTR, out))"

definition scl_stack_count :: "scl_stack_t ptr \<Rightarrow> size_t" where
  "scl_stack_count stack = (case stack of Some s \<Rightarrow> stk_count s | None \<Rightarrow> 0)"

definition scl_stack_empty :: "scl_stack_t ptr \<Rightarrow> bool" where
  "scl_stack_empty stack = (case stack of Some s \<Rightarrow> stk_count s = 0 | None \<Rightarrow> True)"

definition scl_stack_search ::
    "scl_stack_t ptr \<Rightarrow> block ptr \<Rightarrow> (block \<Rightarrow> block \<Rightarrow> int) \<Rightarrow> (scl_error_t \<times> size_t option) ub" where
  "scl_stack_search stack key cmp =
     (case (stack, key) of
        (Some s, Some k) \<Rightarrow> do {
          r \<leftarrow> scan (\<lambda>i. load_elem (stk_data s) i (stk_element_size s)) (\<lambda>v. cmp v k) 0 (stk_count s);
          Some (case r of None \<Rightarrow> (SCL_ERR_NOT_FOUND, None) | Some i \<Rightarrow> (SCL_OK, Some i))
        }
      | _ \<Rightarrow> Some (SCL_ERR_NULL_PTR, None))"

section \<open>Invariant and abstraction\<close>

definition stack_inv :: "scl_stack_t \<Rightarrow> bool" where
  "stack_inv s \<longleftrightarrow> buf_ok (stk_data s) (stk_capacity s) (stk_element_size s) \<and>
     stk_count s \<le> stk_capacity s"

definition stack_list :: "scl_stack_t \<Rightarrow> block list" where
  "stack_list s = slots (stk_data s) (stk_element_size s) (unat (stk_count s))"

lemma stack_inv_buf: "stack_inv s \<Longrightarrow> buf_ok (stk_data s) (stk_capacity s) (stk_element_size s)"
  by (simp add: stack_inv_def)

lemma length_stack_list [simp]: "length (stack_list s) = unat (stk_count s)"
  by (simp add: stack_list_def)

lemma stack_init_ok:
  assumes "scl_allocator a" and "scl_stack_init a (Some s0) es cap = (SCL_OK, Some s)"
  shows "stack_inv s \<and> stack_list s = [] \<and> stk_element_size s = es \<and> stk_capacity s = cap"
  using assms scl_allocator.malloc_buf [OF assms(1)]
  by (auto simp: scl_stack_init_def Let_def stack_inv_def stack_list_def word_gt_0
      split: if_splits option.splits)

lemma stack_destroyed: "stack_inv s \<Longrightarrow> scl_stack_destroy (Some s) = Some s' \<Longrightarrow> stack_inv s' \<and> stack_list s' = []"
  by (auto simp: scl_stack_destroy_def stack_inv_def stack_list_def buf_ok_def)

context scl_allocator
begin

lemma stack_room_spec:
  assumes inv: "stack_inv s"
  shows "\<exists>err s'. stack_make_room a s = Some (err, s') \<and> stack_inv s' \<and>
    stack_list s' = stack_list s \<and> stk_element_size s' = stk_element_size s \<and>
    stk_count s' = stk_count s \<and>
    (if err = SCL_OK then stk_count s' < stk_capacity s' else alloc_failed err \<and> s' = s)"
proof (cases "stk_count s = stk_capacity s")
  case False
  then show ?thesis using inv by (auto simp: stack_make_room_def stack_inv_def)
next
  case full: True
  from stack_inv_buf [OF inv] show ?thesis
  proof (rule grow_room [where k = 0 and al = max_align])
    assume "scl_mul_overflow (grown (stk_capacity s)) (stk_element_size s) = None"
    then show ?thesis using full inv by (simp add: stack_make_room_def grown_def)
  next
    fix bytes
    assume "scl_mul_overflow (grown (stk_capacity s)) (stk_element_size s) = Some bytes"
      "realloc_fn a 0 (stk_data s) (stk_capacity s * stk_element_size s) bytes max_align = Some None"
    then show ?thesis using full inv by (simp add: stack_make_room_def grown_def)
  next
    fix bytes b
    assume b: "scl_mul_overflow (grown (stk_capacity s)) (stk_element_size s) = Some bytes"
      "realloc_fn a 0 (stk_data s) (stk_capacity s * stk_element_size s) bytes max_align = Some (Some b)"
      "buf_ok (Some b) (grown (stk_capacity s)) (stk_element_size s)" "stk_capacity s < grown (stk_capacity s)"
      "slots (Some b) (stk_element_size s) (unat (stk_capacity s)) = slots (stk_data s) (stk_element_size s) (unat (stk_capacity s))"
    let ?s' = "s\<lparr>stk_data := Some b, stk_capacity := grown (stk_capacity s)\<rparr>"
    have list: "stack_list ?s' = stack_list s" using b(5) full by (simp add: stack_list_def)
    moreover have "stack_inv ?s'" using b(3,4) full by (simp add: stack_inv_def)
    moreover have "stack_make_room a s = Some (SCL_OK, ?s')" using full b(1,2) by (simp add: stack_make_room_def grown_def)
    ultimately show ?thesis using b(4) full by (intro exI [of _ SCL_OK] exI [of _ ?s']) simp
  qed
qed

lemma stack_push_spec:
  assumes inv: "stack_inv s" and e: "unat (stk_element_size s) \<le> length e"
  shows "\<exists>err s'. scl_stack_push a (Some s) (Some e) = Some (err, Some s') \<and> stack_inv s' \<and>
    stk_element_size s' = stk_element_size s \<and>
    (if err = SCL_OK then stack_list s' = stack_list s @ [take (unat (stk_element_size s)) e]
     else alloc_failed err \<and> s' = s)"
proof -
  let ?es = "stk_element_size s" and ?cnt = "stk_count s"
  obtain err s1 where s1: "stack_make_room a s = Some (err, s1)" "stack_inv s1"
    "stack_list s1 = stack_list s" "stk_element_size s1 = ?es" "stk_count s1 = ?cnt"
    "if err = SCL_OK then ?cnt < stk_capacity s1 else alloc_failed err \<and> s1 = s"
    using stack_room_spec [OF inv] by metis
  show ?thesis
  proof (cases "err = SCL_OK")
    case False
    then show ?thesis using s1 inv by (simp add: scl_stack_push_def Let_def)
  next
    case True
    then have cnt: "?cnt < stk_capacity s1" using s1(6) by simp
    from stack_inv_buf [OF s1(2)] have buf: "buf_ok (stk_data s1) (stk_capacity s1) ?es" by (simp add: s1(4))
    from buf_append [OF buf cnt e] obtain d' where d':
      "scl_memcpy (stk_data s1) (unat (?cnt * ?es)) (Some e) 0 (unat ?es) = Some d'"
      "buf_ok d' (stk_capacity s1) ?es" "?cnt + 1 \<le> stk_capacity s1"
      "slots d' ?es (unat (?cnt + 1)) = slots (stk_data s1) ?es (unat ?cnt) @ [take (unat ?es) e]"
      by blast
    let ?s' = "s1\<lparr>stk_data := d', stk_count := ?cnt + 1\<rparr>"
    have "stack_inv ?s'" using d'(2,3) by (simp add: stack_inv_def s1(4))
    moreover have "stack_list ?s' = stack_list s @ [take (unat ?es) e]"
      using d'(4) s1(3,4,5) by (simp add: stack_list_def)
    moreover have "scl_stack_push a (Some s) (Some e) = Some (SCL_OK, Some ?s')"
      using s1(1) True d'(1) by (simp add: scl_stack_push_def Let_def)
    ultimately show ?thesis using s1(4) by simp
  qed
qed

end

lemma stack_top_read:
  assumes inv: "stack_inv s" and o: "unat (stk_element_size s) \<le> length out" and ne: "stk_count s \<noteq> 0"
  shows "scl_memcpy (Some out) 0 (stk_data s) (unat ((stk_count s - 1) * stk_element_size s)) (unat (stk_element_size s))
    = Some (Some (last (stack_list s) @ drop (unat (stk_element_size s)) out))"
    and "stack_inv (s\<lparr>stk_count := stk_count s - 1\<rparr>)"
    and "stack_list (s\<lparr>stk_count := stk_count s - 1\<rparr>) = butlast (stack_list s)"
proof -
  have n: "unat (stk_count s) = Suc (unat (stk_count s - 1))"
    using ne unat_pred [OF ne] by (simp add: unat_pos_iff)
  then have c: "stk_count s - 1 < stk_capacity s"
    using inv by (auto simp: stack_inv_def word_less_unat word_le_unat)
  show "scl_memcpy (Some out) 0 (stk_data s) (unat ((stk_count s - 1) * stk_element_size s)) (unat (stk_element_size s))
    = Some (Some (last (stack_list s) @ drop (unat (stk_element_size s)) out))"
    using buf_read [OF stack_inv_buf [OF inv] c o] n by (simp add: stack_list_def slots_Suc)
  show "stack_inv (s\<lparr>stk_count := stk_count s - 1\<rparr>)" using inv c by (simp add: stack_inv_def)
  show "stack_list (s\<lparr>stk_count := stk_count s - 1\<rparr>) = butlast (stack_list s)"
    by (simp add: stack_list_def n slots_Suc)
qed

lemma stack_pop_spec:
  assumes "stack_inv s" and "unat (stk_element_size s) \<le> length out" and "stk_count s \<noteq> 0"
  shows "\<exists>s'. scl_stack_pop (Some s) (Some out)
      = Some (SCL_OK, Some s', Some (last (stack_list s) @ drop (unat (stk_element_size s)) out)) \<and>
    stack_inv s' \<and> stack_list s' = butlast (stack_list s) \<and> stk_element_size s' = stk_element_size s"
  using assms stack_top_read [OF assms] by (simp add: scl_stack_pop_def Let_def)

lemma stack_peek_spec:
  assumes "stack_inv s" and "unat (stk_element_size s) \<le> length out" and "stk_count s \<noteq> 0"
  shows "scl_stack_peek (Some s) (Some out)
    = Some (SCL_OK, Some (last (stack_list s) @ drop (unat (stk_element_size s)) out))"
  using assms stack_top_read [OF assms] by (simp add: scl_stack_peek_def)

lemma stack_search_spec:
  assumes inv: "stack_inv s"
  shows "\<exists>r. scl_stack_search (Some s) (Some k) cmp = Some (if r = None then SCL_ERR_NOT_FOUND else SCL_OK, r) \<and>
    is_first (\<lambda>v. cmp v k = 0) (stack_list s) (map_option unat r)"
proof -
  have "load_elem (stk_data s) (of_nat j) (stk_element_size s) = Some (stack_list s ! j)"
    if "j < unat (stk_count s)" for j
    using load_slot_nat [OF stack_inv_buf [OF inv], of j] inv that
    by (auto simp: stack_inv_def stack_list_def word_le_unat)
  then show ?thesis
    using scan_first [of "stack_list s" "stk_count s" "\<lambda>i. load_elem (stk_data s) i (stk_element_size s)" "\<lambda>v. cmp v k"]
    by (auto simp: scl_stack_search_def split: option.split)
qed

section \<open>The stack is a last-in first-out store\<close>

definition stack_put :: "scl_allocator_t \<times> scl_stack_t \<Rightarrow> block \<Rightarrow> (scl_error_t \<times> scl_allocator_t \<times> scl_stack_t) ub" where
  "stack_put as e = do {
     (err, s) \<leftarrow> scl_stack_push (fst as) (Some (snd as)) (Some e);
     Some (err, fst as, the s)
   }"

definition stack_take :: "scl_allocator_t \<times> scl_stack_t \<Rightarrow> (scl_error_t \<times> (scl_allocator_t \<times> scl_stack_t) \<times> block) ub" where
  "stack_take as = do {
     (err, s, v) \<leftarrow> scl_stack_pop (Some (snd as)) (Some (replicate (unat (stk_element_size (snd as))) 0));
     Some (err, (fst as, the s), the v)
   }"

interpretation stack_store: lifo_store "\<lambda>as. scl_allocator (fst as) \<and> stack_inv (snd as)"
  "\<lambda>as. unat (stk_element_size (snd as))" "\<lambda>as. stack_list (snd as)" stack_put stack_take
proof
  fix s :: "scl_allocator_t \<times> scl_stack_t" and e :: block
  assume "scl_allocator (fst s) \<and> stack_inv (snd s)" and "unat (stk_element_size (snd s)) \<le> length e"
  then show "\<exists>err s'. stack_put s e = Some (err, s') \<and> (scl_allocator (fst s') \<and> stack_inv (snd s')) \<and>
    unat (stk_element_size (snd s')) = unat (stk_element_size (snd s)) \<and> err \<noteq> SCL_ERR_EMPTY \<and>
    stack_list (snd s') = (if err = SCL_OK then stack_list (snd s) @ [take (unat (stk_element_size (snd s))) e]
      else stack_list (snd s))"
    using scl_allocator.stack_push_spec [of "fst s" "snd s" e]
    by (fastforce simp: stack_put_def alloc_failed_def split: if_splits)
next
  fix s :: "scl_allocator_t \<times> scl_stack_t"
  assume s: "scl_allocator (fst s) \<and> stack_inv (snd s)" and "stack_list (snd s) \<noteq> []"
  then have "stk_count (snd s) \<noteq> 0" by (auto simp: stack_list_def)
  with s show "\<exists>s'. stack_take s = Some (SCL_OK, s', last (stack_list (snd s))) \<and>
    (scl_allocator (fst s') \<and> stack_inv (snd s')) \<and>
    unat (stk_element_size (snd s')) = unat (stk_element_size (snd s)) \<and>
    stack_list (snd s') = butlast (stack_list (snd s))"
    using stack_pop_spec [of "snd s" "replicate (unat (stk_element_size (snd s))) 0"]
    by (auto simp: stack_take_def)
next
  fix s :: "scl_allocator_t \<times> scl_stack_t"
  assume "stack_list (snd s) = []"
  then have "stk_count (snd s) = 0"
    using length_stack_list [of "snd s"] by (metis list.size(3) unat_eq_0_iff)
  then show "\<exists>v. stack_take s = Some (SCL_ERR_EMPTY, s, v)"
    by (simp add: stack_take_def scl_stack_pop_def)
qed

end
