(* ===== verification/Scl_Ring.thy ===== *)
theory Scl_Ring
  imports Scl_Cmp
begin

text \<open>
  What the queue, the deque and the ring buffer share: elements in a buffer of power-of-two
  capacity, element \<open>i\<close> in slot \<open>(head + i) & mask\<close>, the copy loop that straightens such a ring
  into a larger buffer, and the search loop that walks it. \<open>ring\<close> is the abstraction function.
\<close>

definition ring :: "block ptr \<Rightarrow> size_t \<Rightarrow> size_t \<Rightarrow> size_t \<Rightarrow> nat \<Rightarrow> block list" where
  "ring d es cap h n = map (\<lambda>i. slot d es ((unat h + i) mod unat cap)) [0..<n]"

lemma length_ring [simp]: "length (ring d es cap h n) = n"
  by (simp add: ring_def)

lemma nth_ring [simp]: "i < n \<Longrightarrow> ring d es cap h n ! i = slot d es ((unat h + i) mod unat cap)"
  by (simp add: ring_def)

lemma ring_0 [simp]: "ring d es cap h 0 = []"
  by (simp add: ring_def)

text \<open>The ring invariant. The capacity is 0 before the first allocation (and for a capacity
  request that \<open>scl_bit_ceil_sz\<close> wrapped to 0), otherwise a power of two with its mask.\<close>

definition ring_ok :: "block ptr \<Rightarrow> size_t \<Rightarrow> size_t \<Rightarrow> size_t \<Rightarrow> size_t \<Rightarrow> size_t \<Rightarrow> bool" where
  "ring_ok d es cap msk h cnt \<longleftrightarrow> buf_ok d cap es \<and> cnt \<le> cap \<and>
     (cap = 0 \<and> h = 0 \<or> pow2_sz cap \<and> msk = cap - 1 \<and> h < cap)"

lemma ring_ok_buf: "ring_ok d es cap msk h cnt \<Longrightarrow> buf_ok d cap es"
  by (simp add: ring_ok_def)

lemma ring_ok_cap:
  assumes "ring_ok d es cap msk h cnt" and "cap \<noteq> 0"
  shows "pow2_sz cap" and "msk = cap - 1" and "unat h < unat cap" and "unat cnt \<le> unat cap"
  using assms by (auto simp: ring_ok_def word_less_unat word_le_unat)

lemma mod_ring_distinct:
  assumes "i < c" and "j < c" and "(h + i) mod c = (h + j) mod (c::nat)"
  shows "i = j"
proof -
  have "int c dvd int (h + i) - int (h + j)"
    using assms(3) by (metis mod_eq_dvd_iff of_nat_mod)
  then have "int c dvd int i - int j" by simp
  moreover have "\<bar>int i - int j\<bar> < int c" using assms(1,2) by linarith
  ultimately show ?thesis using dvd_imp_le_int [of "int i - int j" "int c"] by fastforce
qed

lemma ring_pos:
  assumes "ring_ok d es cap msk h cnt" and "cap \<noteq> 0"
  shows "unat ((h + i) AND msk) = (unat h + unat i) mod unat cap" and "(h + i) AND msk < cap"
proof -
  note cap = ring_ok_cap [OF assms]
  show u: "unat ((h + i) AND msk) = (unat h + unat i) mod unat cap"
    using ring_index [OF cap(1)] by (simp add: cap(2))
  show "(h + i) AND msk < cap"
    using pow2_sz_pos [OF cap(1)] unfolding word_less_unat u by simp
qed

lemma ring_absorb:
  assumes "ring_ok d es cap msk h cnt" and "cap \<noteq> 0"
  shows "((x AND msk) + y) AND msk = (x + y) AND msk"
proof -
  note cap = ring_ok_cap [OF assms]
  have "unat (((x AND msk) + y) AND msk) = unat ((x + y) AND msk)"
    using ring_index [OF cap(1)] unat_mask_index [OF cap(1)] by (simp add: cap(2) mod_add_left_eq)
  then show ?thesis by (simp only: word_unat_eq_iff)
qed

lemma ring_read:
  assumes ok: "ring_ok d es cap msk h cnt" and i: "i < cnt" and out: "unat es \<le> length out"
  shows "scl_memcpy (Some out) 0 d (unat (((h + i) AND msk) * es)) (unat es)
    = Some (Some (ring d es cap h (unat cnt) ! unat i @ drop (unat es) out))"
proof -
  have "cap \<noteq> 0" using ok i by (auto simp: ring_ok_def)
  note pos = ring_pos [OF ok this]
  have "unat i < unat cnt" using i by (simp add: word_less_unat)
  then show ?thesis using buf_read [OF ring_ok_buf [OF ok] pos(2) out] by (simp add: pos(1))
qed

lemma ring_read_head:
  assumes ok: "ring_ok d es cap msk h cnt" and c: "cnt \<noteq> 0" and out: "unat es \<le> length out"
  shows "scl_memcpy (Some out) 0 d (unat (h * es)) (unat es)
    = Some (Some (hd (ring d es cap h (unat cnt)) @ drop (unat es) out))"
proof -
  have cap: "cap \<noteq> 0" using ok c by (auto simp: ring_ok_def)
  note h = ring_ok_cap(3) [OF ok cap]
  have n: "0 < unat cnt" using c by (simp add: unat_pos_iff)
  then have "hd (ring d es cap h (unat cnt)) = slot d es (unat h)"
    using h hd_conv_nth [of "ring d es cap h (unat cnt)"] by (metis length_ring list.size(3) less_numeral_extra(3) nth_ring add_0_right mod_less)
  then show ?thesis using buf_read [OF ring_ok_buf [OF ok] _ out, of h] h by (simp add: word_less_unat)
qed

lemma ring_load:
  assumes ok: "ring_ok d es cap msk h cnt" and j: "j < unat cnt"
  shows "load_elem d ((h + of_nat j) AND msk) es = Some (ring d es cap h (unat cnt) ! j)"
proof -
  have "cap \<noteq> 0" using ok j by (auto simp: ring_ok_def)
  note pos = ring_pos [OF ok this, of "of_nat j"]
  have "unat (of_nat j :: size_t) = j" using j by (rule unat_of_nat_less)
  then show ?thesis using load_slot [OF ring_ok_buf [OF ok] pos(2)] j by (simp add: pos(1))
qed

text \<open>Writing behind the last element.\<close>

lemma ring_write_back:
  assumes ok: "ring_ok d es cap msk h cnt" and room: "cnt < cap" and e: "unat es \<le> length e"
  obtains d' where "scl_memcpy d (unat (((h + cnt) AND msk) * es)) (Some e) 0 (unat es) = Some d'"
    and "ring_ok d' es cap msk h (cnt + 1)"
    and "ring d' es cap h (Suc (unat cnt)) = ring d es cap h (unat cnt) @ [take (unat es) e]"
proof -
  have "cap \<noteq> 0" using room by auto
  note pos = ring_pos [OF ok this, of cnt] and cap = ring_ok_cap [OF ok this]
  from buf_write [OF ring_ok_buf [OF ok] pos(2) e, unfolded pos(1)] obtain d' where d':
    "scl_memcpy d (unat (((h + cnt) AND msk) * es)) (Some e) 0 (unat es) = Some d'" "buf_ok d' cap es"
    "\<And>j. j < unat cap \<Longrightarrow> slot d' es j
      = (if j = (unat h + unat cnt) mod unat cap then take (unat es) e else slot d es j)"
    by blast
  have lt: "unat cnt < unat cap" using room by (simp add: word_less_unat)
  have "unat (cnt + 1) = Suc (unat cnt)" using room by (rule unat_Suc_less)
  then have "cnt + 1 \<le> cap" using lt by (simp add: word_le_unat)
  then have "ring_ok d' es cap msk h (cnt + 1)" using ok d'(2) by (simp add: ring_ok_def)
  moreover have "ring d' es cap h (Suc (unat cnt)) = ring d es cap h (unat cnt) @ [take (unat es) e]"
  proof (rule nth_equalityI)
    fix j assume "j < length (ring d' es cap h (Suc (unat cnt)))"
    then have j: "j < Suc (unat cnt)" by simp
    have "(unat h + j) mod unat cap = (unat h + unat cnt) mod unat cap \<longleftrightarrow> j = unat cnt"
      using lt j mod_ring_distinct [of j "unat cap" "unat cnt" "unat h"] by auto
    then have "slot d' es ((unat h + j) mod unat cap)
      = (if j = unat cnt then take (unat es) e else slot d es ((unat h + j) mod unat cap))"
      using d'(3) [of "(unat h + j) mod unat cap"] lt by simp
    then show "ring d' es cap h (Suc (unat cnt)) ! j = (ring d es cap h (unat cnt) @ [take (unat es) e]) ! j"
      using j by (cases "j = unat cnt") (simp_all add: nth_append)
  qed simp
  ultimately show thesis using d'(1) that by blast
qed

text \<open>Dropping the first element: the head moves on.\<close>

lemma ring_advance:
  assumes ok: "ring_ok d es cap msk h cnt" and c: "cnt \<noteq> 0"
  shows "ring_ok d es cap msk ((h + 1) AND msk) (cnt - 1)"
    and "ring d es cap ((h + 1) AND msk) (unat (cnt - 1)) = tl (ring d es cap h (unat cnt))"
proof -
  have "cap \<noteq> 0" using ok c by (auto simp: ring_ok_def)
  note pos = ring_pos [OF ok this, of 1] and cap = ring_ok_cap [OF ok this]
  have n: "unat (cnt - 1) = unat cnt - 1" using c by (rule unat_pred)
  then have "cnt - 1 \<le> cap" using cap(4) by (simp add: word_le_unat)
  then show "ring_ok d es cap msk ((h + 1) AND msk) (cnt - 1)"
    using ok pos(2) cap(1,2) by (simp add: ring_ok_def)
  show "ring d es cap ((h + 1) AND msk) (unat (cnt - 1)) = tl (ring d es cap h (unat cnt))"
    by (rule nth_equalityI) (auto simp: n pos(1) nth_tl mod_add_left_eq)
qed

lemma ring_butlast: "(cnt::size_t) \<noteq> 0 \<Longrightarrow> ring d es cap h (unat (cnt - 1)) = butlast (ring d es cap h (unat cnt))"
proof (rule nth_equalityI)
  assume "cnt \<noteq> 0"
  then have n: "unat (cnt - 1) = unat cnt - 1" by (rule unat_pred)
  then show "length (ring d es cap h (unat (cnt - 1))) = length (butlast (ring d es cap h (unat cnt)))" by simp
  fix i assume "i < length (ring d es cap h (unat (cnt - 1)))"
  then show "ring d es cap h (unat (cnt - 1)) ! i = butlast (ring d es cap h (unat cnt)) ! i"
    by (simp add: n nth_butlast)
qed

text \<open>Writing in front of the first element: the head moves back.\<close>

lemma ring_write_front:
  assumes ok: "ring_ok d es cap msk h cnt" and room: "cnt < cap" and e: "unat es \<le> length e"
  defines "h' \<equiv> (h - 1) AND msk"
  obtains d' where "scl_memcpy d (unat (h' * es)) (Some e) 0 (unat es) = Some d'"
    and "ring_ok d' es cap msk h' (cnt + 1)"
    and "ring d' es cap h' (Suc (unat cnt)) = take (unat es) e # ring d es cap h (unat cnt)"
proof -
  have "cap \<noteq> 0" using room by auto
  note cap = ring_ok_cap [OF ok this]
  have lt: "unat cnt < unat cap" using room by (simp add: word_less_unat)
  have h': "unat h' = (unat h + unat cap - 1) mod unat cap"
    using ring_index_pred [OF cap(1,3)] by (simp add: h'_def cap(2))
  then have h'_lt: "h' < cap" using lt by (simp add: word_less_unat)
  have next_pos: "(unat h' + Suc j) mod unat cap = (unat h + j) mod unat cap" for j
  proof -
    have "(unat h' + Suc j) mod unat cap = (unat h + unat cap - 1 + Suc j) mod unat cap"
      unfolding h' by (rule mod_add_left_eq)
    also have "unat h + unat cap - 1 + Suc j = unat h + j + unat cap" using lt by simp
    finally show ?thesis by simp
  qed
  from buf_write [OF ring_ok_buf [OF ok] h'_lt e] obtain d' where d':
    "scl_memcpy d (unat (h' * es)) (Some e) 0 (unat es) = Some d'" "buf_ok d' cap es"
    "\<And>j. j < unat cap \<Longrightarrow> slot d' es j = (if j = unat h' then take (unat es) e else slot d es j)"
    by blast
  have h'_mod: "unat h' mod unat cap = unat h'" using h'_lt by (simp add: word_less_unat)
  have "unat (cnt + 1) = Suc (unat cnt)" using room by (rule unat_Suc_less)
  then have "cnt + 1 \<le> cap" using lt by (simp add: word_le_unat)
  then have "ring_ok d' es cap msk h' (cnt + 1)" using ok d'(2) h'_lt cap by (simp add: ring_ok_def)
  moreover have "ring d' es cap h' (Suc (unat cnt)) = take (unat es) e # ring d es cap h (unat cnt)"
  proof (rule nth_equalityI)
    fix j assume "j < length (ring d' es cap h' (Suc (unat cnt)))"
    then have j: "j < Suc (unat cnt)" by simp
    show "ring d' es cap h' (Suc (unat cnt)) ! j = (take (unat es) e # ring d es cap h (unat cnt)) ! j"
    proof (cases j)
      case 0
      then show ?thesis using d'(3) [of "unat h'"] h'_mod h'_lt by (simp add: word_less_unat)
    next
      case (Suc k)
      then have "(unat h' + j) mod unat cap \<noteq> unat h'"
        using mod_ring_distinct [of j "unat cap" 0 "unat h'"] lt j h'_mod by auto
      then show ?thesis using d'(3) [of "(unat h' + j) mod unat cap"] next_pos [of k] j lt Suc by simp
    qed
  qed simp
  ultimately show thesis using d'(1) that by blast
qed

text \<open>In a full ring the slot of the first element is also the one behind the last.\<close>

lemma ring_replace_oldest:
  assumes ok: "ring_ok d es cap msk h cnt" and cap0: "cap \<noteq> 0" and full: "cnt = cap" and e: "unat es \<le> length e"
  obtains d' where "scl_memcpy d (unat (h * es)) (Some e) 0 (unat es) = Some d'"
    and "ring_ok d' es cap msk ((h + 1) AND msk) cnt"
    and "ring d' es cap ((h + 1) AND msk) (unat cnt) = tl (ring d es cap h (unat cnt)) @ [take (unat es) e]"
proof -
  note pos = ring_pos [OF ok cap0, of 1] and cap = ring_ok_cap [OF ok cap0]
  have h: "h < cap" using cap(3) by (simp add: word_less_unat)
  from buf_write [OF ring_ok_buf [OF ok] h e] obtain d' where d':
    "scl_memcpy d (unat (h * es)) (Some e) 0 (unat es) = Some d'" "buf_ok d' cap es"
    "\<And>j. j < unat cap \<Longrightarrow> slot d' es j = (if j = unat h then take (unat es) e else slot d es j)" by blast
  have "ring_ok d' es cap msk ((h + 1) AND msk) cnt" using ok d'(2) pos(2) cap(1,2) by (simp add: ring_ok_def)
  moreover have "ring d' es cap ((h + 1) AND msk) (unat cnt) = tl (ring d es cap h (unat cnt)) @ [take (unat es) e]"
  proof (rule nth_equalityI)
    show "length (ring d' es cap ((h + 1) AND msk) (unat cnt)) = length (tl (ring d es cap h (unat cnt)) @ [take (unat es) e])"
      using pow2_sz_pos [OF cap(1)] full by simp
    fix j assume "j < length (ring d' es cap ((h + 1) AND msk) (unat cnt))"
    then have j: "j < unat cap" using full by simp
    have step: "(unat ((h + 1) AND msk) + j) mod unat cap = (unat h + Suc j) mod unat cap"
      by (simp add: pos(1) mod_add_left_eq)
    show "ring d' es cap ((h + 1) AND msk) (unat cnt) ! j = (tl (ring d es cap h (unat cnt)) @ [take (unat es) e]) ! j"
    proof (cases "Suc j = unat cap")
      case True
      then have "(unat h + Suc j) mod unat cap = unat h" using cap(3) by simp
      then have "ring d' es cap ((h + 1) AND msk) (unat cnt) ! j = take (unat es) e"
        using j full step d'(3) [OF cap(3)] by simp
      moreover have "length (tl (ring d es cap h (unat cnt))) = j" using True full by simp
      ultimately show ?thesis by (metis nth_append_length)
    next
      case False
      then have sj: "Suc j < unat cap" using j by simp
      have "(unat h + Suc j) mod unat cap \<noteq> unat h"
        using mod_ring_distinct [of "Suc j" "unat cap" 0 "unat h"] sj cap(3) by auto
      moreover have "j < unat cap - Suc 0" using sj by simp
      ultimately show ?thesis
        using sj full step d'(3) [of "(unat h + Suc j) mod unat cap"] by (simp add: nth_append nth_tl)
    qed
  qed
  ultimately show thesis using d'(1) that by blast
qed

section \<open>Growing a ring\<close>

text \<open>\<open>for (i = 0; i < cnt; i++) memcpy(tmp + i * es, data + ((head + i) & mask) * es, es);\<close>\<close>

function ring_copy ::
    "block ptr \<Rightarrow> block ptr \<Rightarrow> size_t \<Rightarrow> size_t \<Rightarrow> size_t \<Rightarrow> size_t \<Rightarrow> size_t \<Rightarrow> block ptr ub" where
  "ring_copy tmp data head msk es i cnt =
     (if i < cnt then do {
        tmp' \<leftarrow> scl_memcpy tmp (unat (i * es)) data (unat (((head + i) AND msk) * es)) (unat es);
        ring_copy tmp' data head msk es (i + 1) cnt
      } else Some tmp)"
  by pat_completeness auto
termination
proof (relation "measure (\<lambda>(tmp, data, head, msk, es, i, cnt). unat cnt - unat i)", goal_cases)
  case (2 tmp data head msk es i cnt tmp')
  then show ?case using unat_Suc_less [of i cnt] by (simp add: word_less_unat)
qed simp

declare ring_copy.simps [simp del]

lemma ring_copy_from:
  assumes ok: "ring_ok d es cap msk h cnt"
  shows "i \<le> cnt \<Longrightarrow> buf_ok tmp cap' es \<Longrightarrow> cnt \<le> cap' \<Longrightarrow>
    (\<forall>j < unat i. slot tmp es j = ring d es cap h (unat cnt) ! j) \<Longrightarrow>
    \<exists>tmp'. ring_copy tmp d h msk es i cnt = Some tmp' \<and> buf_ok tmp' cap' es \<and>
      slots tmp' es (unat cnt) = ring d es cap h (unat cnt)"
proof (induction "unat cnt - unat i" arbitrary: i tmp)
  case 0
  then have "i = cnt" by (simp add: word_le_unat word_unat_eq_iff)
  moreover have "ring_copy tmp d h msk es i i = Some tmp" for i by (subst ring_copy.simps) simp
  ultimately show ?case using 0 by (auto intro: nth_equalityI)
next
  case (Suc n)
  then have i: "i < cnt" by (simp add: word_less_unat)
  then have "cap \<noteq> 0" using ok by (auto simp: ring_ok_def)
  note pos = ring_pos [OF ok this, of i]
  have i': "i < cap'" using i Suc.prems(3) by simp
  from buf_copy [OF Suc.prems(2) i' ring_ok_buf [OF ok] pos(2), unfolded pos(1)] obtain t where t:
    "scl_memcpy tmp (unat (i * es)) d (unat (((h + i) AND msk) * es)) (unat es) = Some t" "buf_ok t cap' es"
    "\<And>j. j < unat cap' \<Longrightarrow> slot t es j = (if j = unat i then slot d es ((unat h + unat i) mod unat cap) else slot tmp es j)"
    by blast
  note n = unat_Suc_less [OF i]
  have lt: "unat i < unat cnt" "unat cnt \<le> unat cap'"
    using i Suc.prems(3) by (simp_all add: word_less_unat word_le_unat)
  have "\<forall>j < unat (i + 1). slot t es j = ring d es cap h (unat cnt) ! j"
    using t(3) lt Suc.prems(4) by (simp add: n less_Suc_eq)
  moreover have "n = unat cnt - unat (i + 1)" "i + 1 \<le> cnt"
    using Suc.hyps(2) lt by (simp_all add: n word_le_unat)
  ultimately have "\<exists>tmp'. ring_copy t d h msk es (i + 1) cnt = Some tmp' \<and> buf_ok tmp' cap' es \<and>
      slots tmp' es (unat cnt) = ring d es cap h (unat cnt)"
    using Suc.hyps(1) t(2) Suc.prems(3) by blast
  then show ?case using i t(1) by (subst ring_copy.simps) simp
qed

text \<open>The doubled ring: head at 0, the same elements, room for one more.\<close>

lemma ring_grow:
  assumes ok: "ring_ok d es cap msk h cap" and buf: "buf_ok (Some b) cap' es"
    and cap': "cap' = (if cap = 0 then 4 else cap * 2)"
  obtains tmp where "ring_copy (Some b) d h msk es 0 cap = Some tmp"
    and "ring_ok tmp es cap' (cap' - 1) 0 cap" and "cap < cap'" and "pow2_sz cap'"
    and "ring tmp es cap' 0 (unat cap) = ring d es cap h (unat cap)"
proof -
  have small: "unat cap < 2 ^ 63" using buf_ok_bound(2) [OF ring_ok_buf [OF ok]] .
  have u: "unat cap' = (if cap = 0 then 4 else unat cap * 2)"
    using unat_double_bounded [OF small] by (simp add: cap')
  then have lt: "cap < cap'" by (auto simp: word_less_unat unat_pos_iff)
  have "pow2_sz cap'"
  proof (cases "cap = 0")
    case True
    then show ?thesis by (auto simp: pow2_sz_def u intro: exI [of _ 2])
  next
    case False
    then obtain k where k: "k < 64" "unat cap = 2 ^ k"
      using ring_ok_cap(1) [OF ok] by (auto simp: pow2_sz_def)
    then have "(2::nat) ^ k < 2 ^ 63" using small by simp
    then have "Suc k < 64" using power_strict_increasing_iff [of "2::nat" k 63] by simp
    then show ?thesis using k False by (auto simp: pow2_sz_def u intro: exI [of _ "Suc k"])
  qed
  moreover have "cap \<le> cap'" using lt by simp
  with ring_copy_from [OF ok, of 0 "Some b" cap'] buf obtain tmp where
    "ring_copy (Some b) d h msk es 0 cap = Some tmp" "buf_ok tmp cap' es"
    "slots tmp es (unat cap) = ring d es cap h (unat cap)" by auto
  moreover have "ring tmp es cap' 0 (unat cap) = slots tmp es (unat cap)"
    using lt by (auto simp: word_less_unat intro: nth_equalityI)
  moreover have "ring_ok tmp es cap' (cap' - 1) 0 cap"
    using \<open>pow2_sz cap'\<close> \<open>buf_ok tmp cap' es\<close> \<open>cap \<le> cap'\<close> lt
    by (simp add: ring_ok_def word_less_unat)
  ultimately show thesis using lt by (intro that [of tmp]) simp_all
qed

section \<open>Searching a ring\<close>

definition ring_search :: "block ptr \<Rightarrow> size_t \<Rightarrow> size_t \<Rightarrow> size_t \<Rightarrow> size_t \<Rightarrow> (block \<Rightarrow> int) \<Rightarrow> (scl_error_t \<times> size_t option) ub" where
  "ring_search d es msk h cnt test = do {
     r \<leftarrow> scan (\<lambda>i. load_elem d ((h + i) AND msk) es) test 0 cnt;
     Some (case r of None \<Rightarrow> (SCL_ERR_NOT_FOUND, None) | Some i \<Rightarrow> (SCL_OK, Some i))
   }"

lemma ring_search_first:
  assumes "ring_ok d es cap msk h cnt"
  shows "\<exists>r. ring_search d es msk h cnt test = Some (if r = None then SCL_ERR_NOT_FOUND else SCL_OK, r) \<and>
    is_first (\<lambda>v. test v = 0) (ring d es cap h (unat cnt)) (map_option unat r)"
  using scan_first [of "ring d es cap h (unat cnt)" cnt "\<lambda>i. load_elem d ((h + i) AND msk) es" test] ring_load [OF assms]
  by (auto simp: ring_search_def split: option.split)

text \<open>A ring over a fresh block is empty.\<close>

lemma ring_ok_fresh:
  assumes "scl_allocator a" and "scl_mul_overflow (scl_bit_ceil_sz n) es = Some bytes"
    and "malloc_fn a k bytes al = Some b" and "es \<noteq> 0"
  shows "ring_ok (Some b) es (scl_bit_ceil_sz n) (scl_bit_ceil_sz n - 1) 0 0"
proof (cases "unat n \<le> 2 ^ 63")
  case True
  then have "pow2_sz (scl_bit_ceil_sz n)" by (rule pow2_scl_bit_ceil_sz)
  then show ?thesis using scl_allocator.malloc_buf [OF assms] pow2_sz_pos [of "scl_bit_ceil_sz n"]
    by (simp add: ring_ok_def word_less_unat word_le_unat)
next
  case False
  then have "scl_bit_ceil_sz n = 0" by (intro scl_bit_ceil_sz_wraps) simp
  then show ?thesis using scl_allocator.malloc_buf [OF assms] by (simp add: ring_ok_def)
qed

end
