(* ===== verification/Scl_Deque.thy ===== *)
theory Scl_Deque
  imports Scl_Ring
begin

text \<open>
  The double-ended queue of \<open>libs/structures/deque/scl_deque.c\<close>: a power-of-two ring written at
  both ends, every byte offset computed with an overflow check. The checks never fail under the
  invariant, so both pairs of operations meet the store contract: pushing at the back and taking
  from the front is a \<open>fifo_store\<close>, pushing and taking at the back is a \<open>lifo_store\<close>.
\<close>

record scl_deque_t =
  deq_data :: "block ptr"
  deq_element_size :: size_t
  deq_capacity :: size_t
  deq_mask :: size_t
  deq_head :: size_t
  deq_count :: size_t

definition scl_deque_init ::
    "scl_allocator_t \<Rightarrow> scl_deque_t ptr \<Rightarrow> size_t \<Rightarrow> size_t \<Rightarrow> scl_error_t \<times> scl_deque_t ptr" where
  "scl_deque_init a deque element_size initial_capacity =
     (case deque of None \<Rightarrow> (SCL_ERR_NULL_PTR, deque)
      | Some _ \<Rightarrow>
          if element_size = 0 then (SCL_ERR_INVALID_ARG, deque)
          else let q = \<lparr>deq_data = None, deq_element_size = element_size, deq_capacity = 0, deq_mask = 0,
                        deq_head = 0, deq_count = 0\<rparr> in
            if 0 < initial_capacity then
              let cap = (if initial_capacity < 4 then 4 else scl_bit_ceil_sz initial_capacity) in
              case scl_mul_overflow cap element_size of
                None \<Rightarrow> (SCL_ERR_SIZE_OVERFLOW, Some q)
              | Some bytes \<Rightarrow>
                  (case malloc_fn a 0 bytes max_align of
                     None \<Rightarrow> (SCL_ERR_OUT_OF_MEMORY, Some q)
                   | Some d \<Rightarrow> (SCL_OK, Some (q\<lparr>deq_data := Some d, deq_capacity := cap, deq_mask := cap - 1\<rparr>)))
            else (SCL_OK, Some q))"

definition scl_deque_destroy :: "scl_deque_t ptr \<Rightarrow> scl_deque_t ptr" where
  "scl_deque_destroy deque =
     map_option (\<lambda>q. q\<lparr>deq_data := None, deq_capacity := 0, deq_mask := 0, deq_head := 0, deq_count := 0\<rparr>) deque"

definition scl_deque_grow :: "scl_allocator_t \<Rightarrow> scl_deque_t \<Rightarrow> (scl_error_t \<times> scl_deque_t) ub" where
  "scl_deque_grow a q =
     (let es = deq_element_size q;
          new_cap = (if deq_capacity q = 0 then 4 else deq_capacity q * 2) in
      case scl_mul_overflow new_cap es of
        None \<Rightarrow> Some (SCL_ERR_SIZE_OVERFLOW, q)
      | Some new_bytes \<Rightarrow>
          (case malloc_fn a 0 new_bytes max_align of
             None \<Rightarrow> Some (SCL_ERR_OUT_OF_MEMORY, q)
           | Some b \<Rightarrow> do {
               tmp \<leftarrow> ring_copy (Some b) (deq_data q) (deq_head q) (deq_mask q) es 0 (deq_count q);
               Some (SCL_OK, q\<lparr>deq_data := tmp, deq_head := 0, deq_capacity := new_cap, deq_mask := new_cap - 1\<rparr>)
             }))"

text \<open>\<open>if (deque->count == deque->capacity) scl_deque_grow(alloc, deque)\<close>, which both pushes start with.\<close>

definition deque_make_room :: "scl_allocator_t \<Rightarrow> scl_deque_t \<Rightarrow> (scl_error_t \<times> scl_deque_t) ub" where
  "deque_make_room a q =
     (if deq_count q = deq_capacity q then scl_deque_grow a q else Some (SCL_OK, q))"

definition scl_deque_push_front ::
    "scl_allocator_t \<Rightarrow> scl_deque_t ptr \<Rightarrow> block ptr \<Rightarrow> (scl_error_t \<times> scl_deque_t ptr) ub" where
  "scl_deque_push_front a deque element =
     (case (deque, element) of
        (Some q, Some _) \<Rightarrow> do {
          (err, q) \<leftarrow> deque_make_room a q;
          if err \<noteq> SCL_OK then Some (err, Some q)
          else do {
            let q = q\<lparr>deq_head := (deq_head q - 1) AND deq_mask q\<rparr>;
            (case scl_mul_overflow (deq_head q) (deq_element_size q) of
               None \<Rightarrow> Some (SCL_ERR_SIZE_OVERFLOW, Some q)
             | Some offset \<Rightarrow> do {
                 d \<leftarrow> scl_memcpy (deq_data q) (unat offset) element 0 (unat (deq_element_size q));
                 Some (SCL_OK, Some (q\<lparr>deq_data := d, deq_count := deq_count q + 1\<rparr>))
               })
          }
        }
      | _ \<Rightarrow> Some (SCL_ERR_NULL_PTR, deque))"

definition scl_deque_push_back ::
    "scl_allocator_t \<Rightarrow> scl_deque_t ptr \<Rightarrow> block ptr \<Rightarrow> (scl_error_t \<times> scl_deque_t ptr) ub" where
  "scl_deque_push_back a deque element =
     (case (deque, element) of
        (Some q, Some _) \<Rightarrow> do {
          (err, q) \<leftarrow> deque_make_room a q;
          if err \<noteq> SCL_OK then Some (err, Some q)
          else (case scl_mul_overflow ((deq_head q + deq_count q) AND deq_mask q) (deq_element_size q) of
                  None \<Rightarrow> Some (SCL_ERR_SIZE_OVERFLOW, Some q)
                | Some offset \<Rightarrow> do {
                    d \<leftarrow> scl_memcpy (deq_data q) (unat offset) element 0 (unat (deq_element_size q));
                    Some (SCL_OK, Some (q\<lparr>deq_data := d, deq_count := deq_count q + 1\<rparr>))
                  })
        }
      | _ \<Rightarrow> Some (SCL_ERR_NULL_PTR, deque))"

definition scl_deque_pop_front ::
    "scl_deque_t ptr \<Rightarrow> block ptr \<Rightarrow> (scl_error_t \<times> scl_deque_t ptr \<times> block ptr) ub" where
  "scl_deque_pop_front deque out =
     (case (deque, out) of
        (Some q, Some _) \<Rightarrow>
          if deq_count q = 0 then Some (SCL_ERR_EMPTY, deque, out)
          else (case scl_mul_overflow (deq_head q) (deq_element_size q) of
                  None \<Rightarrow> Some (SCL_ERR_SIZE_OVERFLOW, deque, out)
                | Some offset \<Rightarrow> do {
                    o' \<leftarrow> scl_memcpy out 0 (deq_data q) (unat offset) (unat (deq_element_size q));
                    Some (SCL_OK, Some (q\<lparr>deq_head := (deq_head q + 1) AND deq_mask q, deq_count := deq_count q - 1\<rparr>), o')
                  })
      | _ \<Rightarrow> Some (SCL_ERR_NULL_PTR, deque, out))"

definition scl_deque_pop_back ::
    "scl_deque_t ptr \<Rightarrow> block ptr \<Rightarrow> (scl_error_t \<times> scl_deque_t ptr \<times> block ptr) ub" where
  "scl_deque_pop_back deque out =
     (case (deque, out) of
        (Some q, Some _) \<Rightarrow>
          if deq_count q = 0 then Some (SCL_ERR_EMPTY, deque, out)
          else (case scl_mul_overflow ((deq_head q + deq_count q - 1) AND deq_mask q) (deq_element_size q) of
                  None \<Rightarrow> Some (SCL_ERR_SIZE_OVERFLOW, deque, out)
                | Some offset \<Rightarrow> do {
                    o' \<leftarrow> scl_memcpy out 0 (deq_data q) (unat offset) (unat (deq_element_size q));
                    Some (SCL_OK, Some (q\<lparr>deq_count := deq_count q - 1\<rparr>), o')
                  })
      | _ \<Rightarrow> Some (SCL_ERR_NULL_PTR, deque, out))"

definition scl_deque_peek_front :: "scl_deque_t ptr \<Rightarrow> block ptr \<Rightarrow> (scl_error_t \<times> block ptr) ub" where
  "scl_deque_peek_front deque out =
     (case (deque, out) of
        (Some q, Some _) \<Rightarrow>
          if deq_count q = 0 then Some (SCL_ERR_EMPTY, out)
          else (case scl_mul_overflow (deq_head q) (deq_element_size q) of
                  None \<Rightarrow> Some (SCL_ERR_SIZE_OVERFLOW, out)
                | Some offset \<Rightarrow> do {
                    o' \<leftarrow> scl_memcpy out 0 (deq_data q) (unat offset) (unat (deq_element_size q));
                    Some (SCL_OK, o')
                  })
      | _ \<Rightarrow> Some (SCL_ERR_NULL_PTR, out))"

definition scl_deque_peek_back :: "scl_deque_t ptr \<Rightarrow> block ptr \<Rightarrow> (scl_error_t \<times> block ptr) ub" where
  "scl_deque_peek_back deque out =
     (case (deque, out) of
        (Some q, Some _) \<Rightarrow>
          if deq_count q = 0 then Some (SCL_ERR_EMPTY, out)
          else (case scl_mul_overflow ((deq_head q + deq_count q - 1) AND deq_mask q) (deq_element_size q) of
                  None \<Rightarrow> Some (SCL_ERR_SIZE_OVERFLOW, out)
                | Some offset \<Rightarrow> do {
                    o' \<leftarrow> scl_memcpy out 0 (deq_data q) (unat offset) (unat (deq_element_size q));
                    Some (SCL_OK, o')
                  })
      | _ \<Rightarrow> Some (SCL_ERR_NULL_PTR, out))"

definition scl_deque_count :: "scl_deque_t ptr \<Rightarrow> size_t" where
  "scl_deque_count deque = (case deque of Some q \<Rightarrow> deq_count q | None \<Rightarrow> 0)"

definition scl_deque_empty :: "scl_deque_t ptr \<Rightarrow> bool" where
  "scl_deque_empty deque = (case deque of Some q \<Rightarrow> deq_count q = 0 | None \<Rightarrow> True)"

definition scl_deque_search ::
    "scl_deque_t ptr \<Rightarrow> block ptr \<Rightarrow> (block \<Rightarrow> block \<Rightarrow> int) \<Rightarrow> (scl_error_t \<times> size_t option) ub" where
  "scl_deque_search deque key cmp =
     (case (deque, key) of
        (Some q, Some k) \<Rightarrow>
          ring_search (deq_data q) (deq_element_size q) (deq_mask q) (deq_head q) (deq_count q) (\<lambda>v. cmp v k)
      | _ \<Rightarrow> Some (SCL_ERR_NULL_PTR, None))"

section \<open>Invariant and abstraction\<close>

definition deque_inv :: "scl_deque_t \<Rightarrow> bool" where
  "deque_inv q \<longleftrightarrow>
     ring_ok (deq_data q) (deq_element_size q) (deq_capacity q) (deq_mask q) (deq_head q) (deq_count q)"

definition deque_list :: "scl_deque_t \<Rightarrow> block list" where
  "deque_list q = ring (deq_data q) (deq_element_size q) (deq_capacity q) (deq_head q) (unat (deq_count q))"

lemma length_deque_list [simp]: "length (deque_list q) = unat (deq_count q)"
  by (simp add: deque_list_def)

lemma deque_list_Nil: "deque_list q = [] \<longleftrightarrow> deq_count q = 0"
  using length_deque_list [of q] by (metis length_0_conv unat_eq_0_iff)

lemma ring_offset:
  assumes "ring_ok d es cap msk h cnt" and "i < cap"
  shows "scl_mul_overflow i es = Some (i * es)"
proof (rule scl_mul_overflow_small)
  have "unat i \<le> unat cap" using assms(2) by (simp add: word_less_unat)
  then have "unat i * unat es \<le> unat cap * unat es" by (rule mult_le_mono1)
  also have "\<dots> < 2 ^ 63" using buf_ok_bound(1) [OF ring_ok_buf [OF assms(1)]] .
  also have "\<dots> < (2::nat) ^ 64" by simp
  finally show "unat i * unat es < 2 ^ 64" .
qed

lemma ring_ok_four: "scl_allocator a \<Longrightarrow> scl_mul_overflow 4 es = Some bytes \<Longrightarrow>
    malloc_fn a k bytes al = Some b \<Longrightarrow> es \<noteq> 0 \<Longrightarrow> ring_ok (Some b) es 4 3 0 0"
  using scl_allocator.malloc_buf [of a 4 es bytes k al b]
  by (auto simp: ring_ok_def pow2_sz_def intro!: exI [of _ 2])

context scl_allocator
begin

lemma deque_room_spec:
  assumes inv: "deque_inv q"
  shows "\<exists>err q'. deque_make_room a q = Some (err, q') \<and> deque_inv q' \<and>
    deque_list q' = deque_list q \<and> deq_element_size q' = deq_element_size q \<and> deq_count q' = deq_count q \<and>
    (if err = SCL_OK then deq_count q' < deq_capacity q' else alloc_failed err \<and> q' = q)"
proof (cases "deq_count q = deq_capacity q")
  case False
  then show ?thesis using inv by (auto simp: deque_make_room_def deque_inv_def ring_ok_def)
next
  case full: True
  let ?cap = "deq_capacity q" and ?es = "deq_element_size q"
  let ?n = "if ?cap = 0 then 4 else ?cap * 2"
  have ok: "ring_ok (deq_data q) ?es ?cap (deq_mask q) (deq_head q) ?cap"
    using inv full by (simp add: deque_inv_def)
  have es: "?es \<noteq> 0" using ring_ok_buf [OF ok] by (rule buf_ok_es)
  show ?thesis
  proof (cases "scl_mul_overflow ?n ?es")
    case None
    then show ?thesis using full inv by (simp add: deque_make_room_def scl_deque_grow_def)
  next
    case (Some bytes)
    show ?thesis
    proof (cases "malloc_fn a 0 bytes max_align")
      case None
      then show ?thesis using full inv Some by (simp add: deque_make_room_def scl_deque_grow_def)
    next
      case (Some b)
      note b = malloc_buf [OF \<open>scl_mul_overflow ?n ?es = Some bytes\<close> Some es]
      from ring_grow [OF ok b refl] obtain tmp where tmp:
        "ring_copy (Some b) (deq_data q) (deq_head q) (deq_mask q) ?es 0 ?cap = Some tmp"
        "ring_ok tmp ?es ?n (?n - 1) 0 ?cap" "?cap < ?n"
        "ring tmp ?es ?n 0 (unat ?cap) = ring (deq_data q) ?es ?cap (deq_head q) (unat ?cap)" by blast
      let ?q' = "q\<lparr>deq_data := tmp, deq_head := 0, deq_capacity := ?n, deq_mask := ?n - 1\<rparr>"
      have "ring_ok tmp ?es ?n (?n - 1) 0 (deq_count q)" using tmp(2) unfolding full .
      then have "deque_inv ?q'" by (simp add: deque_inv_def del: if_split)
      moreover have "deque_list ?q' = deque_list q"
        using tmp(4) by (simp add: deque_list_def full)
      moreover have "deque_make_room a q = Some (SCL_OK, ?q')"
        using full tmp(1) Some \<open>scl_mul_overflow ?n ?es = Some bytes\<close>
        by (simp only: deque_make_room_def scl_deque_grow_def Let_def full option.case bind.bind_lunit if_True simp_thms)
      moreover have "deq_count ?q' < deq_capacity ?q'" using tmp(3) full by simp
      ultimately show ?thesis by (intro exI [of _ SCL_OK] exI [of _ ?q']) simp
    qed
  qed
qed

lemma deque_room_cases:
  assumes "deque_inv q"
  obtains err where "deque_make_room a q = Some (err, q)" and "err \<noteq> SCL_OK" and "alloc_failed err"
  | r where "deque_make_room a q = Some (SCL_OK, r)" and "deque_list r = deque_list q"
      and "deq_element_size r = deq_element_size q" and "deq_count r = deq_count q"
      and "ring_ok (deq_data r) (deq_element_size q) (deq_capacity r) (deq_mask r) (deq_head r) (deq_count q)"
      and "deq_count q < deq_capacity r"
  using deque_room_spec [OF assms] unfolding deque_inv_def by (metis (full_types))

lemma push_back_spec:
  assumes inv: "deque_inv q" and e: "unat (deq_element_size q) \<le> length e"
  shows "\<exists>err q'. scl_deque_push_back a (Some q) (Some e) = Some (err, Some q') \<and> deque_inv q' \<and>
    deq_element_size q' = deq_element_size q \<and>
    (if err = SCL_OK then deque_list q' = deque_list q @ [take (unat (deq_element_size q)) e]
     else alloc_failed err \<and> q' = q)"
  using inv
proof (rule deque_room_cases)
  fix err assume "deque_make_room a q = Some (err, q)" "err \<noteq> SCL_OK" "alloc_failed err"
  then show ?thesis using inv by (simp add: scl_deque_push_back_def)
next
  let ?es = "deq_element_size q" and ?cnt = "deq_count q"
  fix r assume r: "deque_make_room a q = Some (SCL_OK, r)" "deque_list r = deque_list q"
    "deq_element_size r = ?es" "deq_count r = ?cnt"
    and ok: "ring_ok (deq_data r) ?es (deq_capacity r) (deq_mask r) (deq_head r) ?cnt"
    and cnt: "?cnt < deq_capacity r"
  from cnt have cap: "deq_capacity r \<noteq> 0" by auto
  from ring_write_back [OF ok cnt e] obtain d' where d':
    "scl_memcpy (deq_data r) (unat (((deq_head r + ?cnt) AND deq_mask r) * ?es)) (Some e) 0 (unat ?es) = Some d'"
    "ring_ok d' ?es (deq_capacity r) (deq_mask r) (deq_head r) (?cnt + 1)"
    "ring d' ?es (deq_capacity r) (deq_head r) (Suc (unat ?cnt)) = deque_list q @ [take (unat ?es) e]"
    using r(2,3,4) by (auto simp: deque_list_def)
  let ?q' = "r\<lparr>deq_data := d', deq_count := ?cnt + 1\<rparr>"
  have "scl_deque_push_back a (Some q) (Some e) = Some (SCL_OK, Some ?q')"
    using r d'(1) ring_offset [OF ok ring_pos(2) [OF ok cap]] by (simp add: scl_deque_push_back_def)
  then show ?thesis using d'(2,3) r(3) unat_Suc_less [OF cnt] by (simp add: deque_inv_def deque_list_def)
qed

lemma push_front_spec:
  assumes inv: "deque_inv q" and e: "unat (deq_element_size q) \<le> length e"
  shows "\<exists>err q'. scl_deque_push_front a (Some q) (Some e) = Some (err, Some q') \<and> deque_inv q' \<and>
    deq_element_size q' = deq_element_size q \<and>
    (if err = SCL_OK then deque_list q' = take (unat (deq_element_size q)) e # deque_list q
     else alloc_failed err \<and> q' = q)"
  using inv
proof (rule deque_room_cases)
  fix err assume "deque_make_room a q = Some (err, q)" "err \<noteq> SCL_OK" "alloc_failed err"
  then show ?thesis using inv by (simp add: scl_deque_push_front_def)
next
  let ?es = "deq_element_size q" and ?cnt = "deq_count q"
  fix r assume r: "deque_make_room a q = Some (SCL_OK, r)" "deque_list r = deque_list q"
    "deq_element_size r = ?es" "deq_count r = ?cnt"
    and ok: "ring_ok (deq_data r) ?es (deq_capacity r) (deq_mask r) (deq_head r) ?cnt"
    and cnt: "?cnt < deq_capacity r"
  let ?h = "(deq_head r - 1) AND deq_mask r"
  from cnt have cap: "deq_capacity r \<noteq> 0" by auto
  from ring_write_front [OF ok cnt e] obtain d' where d':
    "scl_memcpy (deq_data r) (unat (?h * ?es)) (Some e) 0 (unat ?es) = Some d'"
    "ring_ok d' ?es (deq_capacity r) (deq_mask r) ?h (?cnt + 1)"
    "ring d' ?es (deq_capacity r) ?h (Suc (unat ?cnt)) = take (unat ?es) e # deque_list q"
    using r(2,3,4) by (auto simp: deque_list_def)
  let ?q' = "r\<lparr>deq_data := d', deq_head := ?h, deq_count := ?cnt + 1\<rparr>"
  have "?h < deq_capacity r" using ring_pos(2) [OF ok cap, of "- 1"] by simp
  then have "scl_deque_push_front a (Some q) (Some e) = Some (SCL_OK, Some ?q')"
    using r d'(1) ring_offset [OF ok] by (simp add: scl_deque_push_front_def Let_def)
  then show ?thesis using d'(2,3) r(3) unat_Suc_less [OF cnt] by (simp add: deque_inv_def deque_list_def)
qed

end

section \<open>Reading and removing at both ends\<close>

lemma deque_front:
  assumes inv: "deque_inv q" and o: "unat (deq_element_size q) \<le> length out" and ne: "deq_count q \<noteq> 0"
  shows "scl_mul_overflow (deq_head q) (deq_element_size q) = Some (deq_head q * deq_element_size q)"
    and "scl_memcpy (Some out) 0 (deq_data q) (unat (deq_head q * deq_element_size q)) (unat (deq_element_size q))
      = Some (Some (hd (deque_list q) @ drop (unat (deq_element_size q)) out))"
proof -
  have ok: "ring_ok (deq_data q) (deq_element_size q) (deq_capacity q) (deq_mask q) (deq_head q) (deq_count q)"
    using inv by (simp add: deque_inv_def)
  then have "deq_head q < deq_capacity q" using ne by (auto simp: ring_ok_def)
  then show "scl_mul_overflow (deq_head q) (deq_element_size q) = Some (deq_head q * deq_element_size q)"
    using ring_offset [OF ok] by blast
  show "scl_memcpy (Some out) 0 (deq_data q) (unat (deq_head q * deq_element_size q)) (unat (deq_element_size q))
      = Some (Some (hd (deque_list q) @ drop (unat (deq_element_size q)) out))"
    using ring_read_head [OF ok ne o] by (simp add: deque_list_def)
qed

lemma deque_back:
  assumes inv: "deque_inv q" and o: "unat (deq_element_size q) \<le> length out" and ne: "deq_count q \<noteq> 0"
  defines "p \<equiv> (deq_head q + deq_count q - 1) AND deq_mask q"
  shows "scl_mul_overflow p (deq_element_size q) = Some (p * deq_element_size q)"
    and "scl_memcpy (Some out) 0 (deq_data q) (unat (p * deq_element_size q)) (unat (deq_element_size q))
      = Some (Some (last (deque_list q) @ drop (unat (deq_element_size q)) out))"
proof -
  have ok: "ring_ok (deq_data q) (deq_element_size q) (deq_capacity q) (deq_mask q) (deq_head q) (deq_count q)"
    using inv by (simp add: deque_inv_def)
  then have cap: "deq_capacity q \<noteq> 0" using ne by (auto simp: ring_ok_def)
  have p: "p = (deq_head q + (deq_count q - 1)) AND deq_mask q" by (simp add: p_def algebra_simps)
  show "scl_mul_overflow p (deq_element_size q) = Some (p * deq_element_size q)"
    unfolding p using ring_offset [OF ok ring_pos(2) [OF ok cap]] .
  have n: "unat (deq_count q - 1) = unat (deq_count q) - 1" using ne by (rule unat_pred)
  then have lt: "deq_count q - 1 < deq_count q" using ne by (simp add: word_less_unat unat_pos_iff)
  have "deque_list q \<noteq> []" using ne by (simp add: deque_list_Nil)
  then have "last (deque_list q) = deque_list q ! unat (deq_count q - 1)" by (simp add: last_conv_nth n)
  then show "scl_memcpy (Some out) 0 (deq_data q) (unat (p * deq_element_size q)) (unat (deq_element_size q))
      = Some (Some (last (deque_list q) @ drop (unat (deq_element_size q)) out))"
    unfolding p using ring_read [OF ok lt o] by (simp only: deque_list_def)
qed

lemma pop_front_spec:
  assumes inv: "deque_inv q" and o: "unat (deq_element_size q) \<le> length out" and ne: "deq_count q \<noteq> 0"
  shows "\<exists>q'. scl_deque_pop_front (Some q) (Some out)
      = Some (SCL_OK, Some q', Some (hd (deque_list q) @ drop (unat (deq_element_size q)) out)) \<and>
    deque_inv q' \<and> deque_list q' = tl (deque_list q) \<and> deq_element_size q' = deq_element_size q"
proof -
  have ok: "ring_ok (deq_data q) (deq_element_size q) (deq_capacity q) (deq_mask q) (deq_head q) (deq_count q)"
    using inv by (simp add: deque_inv_def)
  show ?thesis using ne deque_front [OF assms] ring_advance [OF ok ne]
    by (simp add: scl_deque_pop_front_def deque_inv_def deque_list_def)
qed

lemma pop_back_spec:
  assumes inv: "deque_inv q" and o: "unat (deq_element_size q) \<le> length out" and ne: "deq_count q \<noteq> 0"
  shows "\<exists>q'. scl_deque_pop_back (Some q) (Some out)
      = Some (SCL_OK, Some q', Some (last (deque_list q) @ drop (unat (deq_element_size q)) out)) \<and>
    deque_inv q' \<and> deque_list q' = butlast (deque_list q) \<and> deq_element_size q' = deq_element_size q"
proof -
  have "deq_count q - 1 \<le> deq_count q" using unat_pred [OF ne] by (simp add: word_le_unat)
  then have "deque_inv (q\<lparr>deq_count := deq_count q - 1\<rparr>)"
    using inv by (auto simp: deque_inv_def ring_ok_def)
  then show ?thesis using ne deque_back [OF assms] ring_butlast [OF ne]
    by (simp add: scl_deque_pop_back_def deque_list_def)
qed

lemma peek_specs:
  assumes "deque_inv q" and "unat (deq_element_size q) \<le> length out" and "deq_count q \<noteq> 0"
  shows "scl_deque_peek_front (Some q) (Some out) = Some (SCL_OK, Some (hd (deque_list q) @ drop (unat (deq_element_size q)) out))"
    and "scl_deque_peek_back (Some q) (Some out) = Some (SCL_OK, Some (last (deque_list q) @ drop (unat (deq_element_size q)) out))"
  using assms deque_front [OF assms] deque_back [OF assms]
  by (simp_all add: scl_deque_peek_front_def scl_deque_peek_back_def)

lemma deque_search_spec:
  assumes "deque_inv q"
  shows "\<exists>r. scl_deque_search (Some q) (Some k) cmp = Some (if r = None then SCL_ERR_NOT_FOUND else SCL_OK, r) \<and>
    is_first (\<lambda>v. cmp v k = 0) (deque_list q) (map_option unat r)"
  using ring_search_first [OF assms [unfolded deque_inv_def], of "\<lambda>v. cmp v k"]
  by (simp add: scl_deque_search_def deque_list_def)

section \<open>The deque as a queue and as a stack\<close>

definition deque_put :: "scl_allocator_t \<times> scl_deque_t \<Rightarrow> block \<Rightarrow> (scl_error_t \<times> scl_allocator_t \<times> scl_deque_t) ub" where
  "deque_put aq e = do {
     (err, q) \<leftarrow> scl_deque_push_back (fst aq) (Some (snd aq)) (Some e);
     Some (err, fst aq, the q)
   }"

definition deque_take_front :: "scl_allocator_t \<times> scl_deque_t \<Rightarrow> (scl_error_t \<times> (scl_allocator_t \<times> scl_deque_t) \<times> block) ub" where
  "deque_take_front aq = do {
     (err, q, v) \<leftarrow> scl_deque_pop_front (Some (snd aq)) (Some (replicate (unat (deq_element_size (snd aq))) 0));
     Some (err, (fst aq, the q), the v)
   }"

definition deque_take_back :: "scl_allocator_t \<times> scl_deque_t \<Rightarrow> (scl_error_t \<times> (scl_allocator_t \<times> scl_deque_t) \<times> block) ub" where
  "deque_take_back aq = do {
     (err, q, v) \<leftarrow> scl_deque_pop_back (Some (snd aq)) (Some (replicate (unat (deq_element_size (snd aq))) 0));
     Some (err, (fst aq, the q), the v)
   }"

lemma deque_put_law:
  assumes "scl_allocator (fst s) \<and> deque_inv (snd s)" and "unat (deq_element_size (snd s)) \<le> length e"
  shows "\<exists>err s'. deque_put s e = Some (err, s') \<and> (scl_allocator (fst s') \<and> deque_inv (snd s')) \<and>
    unat (deq_element_size (snd s')) = unat (deq_element_size (snd s)) \<and> err \<noteq> SCL_ERR_EMPTY \<and>
    deque_list (snd s') = (if err = SCL_OK then deque_list (snd s) @ [take (unat (deq_element_size (snd s))) e]
      else deque_list (snd s))"
  using assms scl_allocator.push_back_spec [of "fst s" "snd s" e]
  by (fastforce simp: deque_put_def alloc_failed_def split: if_splits)

interpretation deque_queue: fifo_store "\<lambda>aq. scl_allocator (fst aq) \<and> deque_inv (snd aq)"
  "\<lambda>aq. unat (deq_element_size (snd aq))" "\<lambda>aq. deque_list (snd aq)" deque_put deque_take_front
proof (unfold_locales, rule deque_put_law)
  fix s :: "scl_allocator_t \<times> scl_deque_t"
  assume "scl_allocator (fst s) \<and> deque_inv (snd s)" and "deque_list (snd s) \<noteq> []"
  then show "\<exists>s'. deque_take_front s = Some (SCL_OK, s', hd (deque_list (snd s))) \<and>
    (scl_allocator (fst s') \<and> deque_inv (snd s')) \<and>
    unat (deq_element_size (snd s')) = unat (deq_element_size (snd s)) \<and> deque_list (snd s') = tl (deque_list (snd s))"
    using pop_front_spec [of "snd s" "replicate (unat (deq_element_size (snd s))) 0"]
    by (auto simp: deque_take_front_def deque_list_Nil)
next
  fix s :: "scl_allocator_t \<times> scl_deque_t"
  assume "deque_list (snd s) = []"
  then show "\<exists>v. deque_take_front s = Some (SCL_ERR_EMPTY, s, v)"
    by (simp add: deque_take_front_def scl_deque_pop_front_def deque_list_Nil)
qed

interpretation deque_stack: lifo_store "\<lambda>aq. scl_allocator (fst aq) \<and> deque_inv (snd aq)"
  "\<lambda>aq. unat (deq_element_size (snd aq))" "\<lambda>aq. deque_list (snd aq)" deque_put deque_take_back
proof (unfold_locales, rule deque_put_law)
  fix s :: "scl_allocator_t \<times> scl_deque_t"
  assume "scl_allocator (fst s) \<and> deque_inv (snd s)" and "deque_list (snd s) \<noteq> []"
  then show "\<exists>s'. deque_take_back s = Some (SCL_OK, s', last (deque_list (snd s))) \<and>
    (scl_allocator (fst s') \<and> deque_inv (snd s')) \<and>
    unat (deq_element_size (snd s')) = unat (deq_element_size (snd s)) \<and> deque_list (snd s') = butlast (deque_list (snd s))"
    using pop_back_spec [of "snd s" "replicate (unat (deq_element_size (snd s))) 0"]
    by (auto simp: deque_take_back_def deque_list_Nil)
next
  fix s :: "scl_allocator_t \<times> scl_deque_t"
  assume "deque_list (snd s) = []"
  then show "\<exists>v. deque_take_back s = Some (SCL_ERR_EMPTY, s, v)"
    by (simp add: deque_take_back_def scl_deque_pop_back_def deque_list_Nil)
qed

section \<open>Any mix of operations at both ends\<close>

datatype deque_cmd = Push_front block | Push_back block | Pop_front | Pop_back

fun deque_exec :: "scl_allocator_t \<Rightarrow> scl_deque_t \<Rightarrow> deque_cmd \<Rightarrow> (scl_error_t \<times> scl_deque_t \<times> block) ub" where
  "deque_exec a q (Push_front e) = do { (err, q') \<leftarrow> scl_deque_push_front a (Some q) (Some e); Some (err, the q', []) }"
| "deque_exec a q (Push_back e) = do { (err, q') \<leftarrow> scl_deque_push_back a (Some q) (Some e); Some (err, the q', []) }"
| "deque_exec a q Pop_front = do {
     (err, q', v) \<leftarrow> scl_deque_pop_front (Some q) (Some (replicate (unat (deq_element_size q)) 0));
     Some (err, the q', the v)
   }"
| "deque_exec a q Pop_back = do {
     (err, q', v) \<leftarrow> scl_deque_pop_back (Some q) (Some (replicate (unat (deq_element_size q)) 0));
     Some (err, the q', the v)
   }"

fun deque_run :: "scl_allocator_t \<Rightarrow> scl_deque_t \<Rightarrow> deque_cmd list \<Rightarrow> (scl_deque_t \<times> (scl_error_t \<times> block) list) ub" where
  "deque_run a q [] = Some (q, [])"
| "deque_run a q (c # cs) = do {
     (err, q, v) \<leftarrow> deque_exec a q c;
     (q, rs) \<leftarrow> deque_run a q cs;
     Some (q, (err, v) # rs)
   }"

text \<open>The same commands on a list of elements of width \<open>w\<close>: \<open>None\<close> if the list could not have answered
  that way. A push may fail for want of memory and then changes nothing.\<close>

fun list_step :: "nat \<Rightarrow> block list \<Rightarrow> deque_cmd \<Rightarrow> scl_error_t \<times> block \<Rightarrow> block list option" where
  "list_step w xs (Push_front e) (err, v) =
     (if err = SCL_OK then Some (take w e # xs) else if alloc_failed err then Some xs else None)"
| "list_step w xs (Push_back e) (err, v) =
     (if err = SCL_OK then Some (xs @ [take w e]) else if alloc_failed err then Some xs else None)"
| "list_step w xs Pop_front (err, v) =
     (if xs = [] then (if err = SCL_ERR_EMPTY then Some [] else None)
      else if err = SCL_OK \<and> v = hd xs then Some (tl xs) else None)"
| "list_step w xs Pop_back (err, v) =
     (if xs = [] then (if err = SCL_ERR_EMPTY then Some [] else None)
      else if err = SCL_OK \<and> v = last xs then Some (butlast xs) else None)"

fun list_run :: "nat \<Rightarrow> block list \<Rightarrow> deque_cmd list \<Rightarrow> (scl_error_t \<times> block) list \<Rightarrow> block list option" where
  "list_run w xs [] [] = Some xs"
| "list_run w xs (c # cs) (r # rs) = do { xs \<leftarrow> list_step w xs c r; list_run w xs cs rs }"
| "list_run w xs _ _ = None"

fun cmd_fits :: "nat \<Rightarrow> deque_cmd \<Rightarrow> bool" where
  "cmd_fits w (Push_front e) \<longleftrightarrow> w \<le> length e"
| "cmd_fits w (Push_back e) \<longleftrightarrow> w \<le> length e"
| "cmd_fits w _ \<longleftrightarrow> True"

lemma deque_init_ok:
  assumes a: "scl_allocator a" and run: "scl_deque_init a (Some q0) es cap = (SCL_OK, Some q)"
  shows "deque_inv q \<and> deque_list q = [] \<and> deq_element_size q = es"
proof (cases "0 < cap")
  case False
  then show ?thesis using run
    by (auto simp: scl_deque_init_def Let_def deque_inv_def deque_list_def ring_ok_def split: if_splits)
next
  case True
  let ?cap = "if cap < 4 then 4 else scl_bit_ceil_sz cap"
  obtain bytes d where d: "scl_mul_overflow ?cap es = Some bytes" "malloc_fn a 0 bytes max_align = Some d" "es \<noteq> 0"
    and q: "q = \<lparr>deq_data = Some d, deq_element_size = es, deq_capacity = ?cap, deq_mask = ?cap - 1,
      deq_head = 0, deq_count = 0\<rparr>"
    using run True by (auto simp: scl_deque_init_def Let_def split: if_splits option.splits)
  have "ring_ok (Some d) es ?cap (?cap - 1) 0 0"
    using ring_ok_four [OF a _ d(2,3)] ring_ok_fresh [OF a _ d(2,3)] d(1) by (cases "cap < 4") simp_all
  then show ?thesis by (simp add: q deque_inv_def deque_list_def)
qed

lemma deque_exec_spec:
  assumes a: "scl_allocator a" and inv: "deque_inv q" and fit: "cmd_fits (unat (deq_element_size q)) c"
  shows "\<exists>err q' v. deque_exec a q c = Some (err, q', v) \<and> deque_inv q' \<and> deq_element_size q' = deq_element_size q \<and>
    list_step (unat (deq_element_size q)) (deque_list q) c (err, v) = Some (deque_list q')"
proof (cases c)
  case (Push_front e)
  then show ?thesis using scl_allocator.push_front_spec [OF a inv, of e] fit by (fastforce split: if_splits)
next
  case (Push_back e)
  then show ?thesis using scl_allocator.push_back_spec [OF a inv, of e] fit by (fastforce split: if_splits)
next
  case Pop_front
  then show ?thesis using pop_front_spec [OF inv, of "replicate (unat (deq_element_size q)) 0"] inv
    by (cases "deq_count q = 0") (auto simp: deque_list_Nil [THEN iffD2] deque_list_Nil scl_deque_pop_front_def)
next
  case Pop_back
  then show ?thesis using pop_back_spec [OF inv, of "replicate (unat (deq_element_size q)) 0"] inv
    by (cases "deq_count q = 0") (auto simp: deque_list_Nil [THEN iffD2] deque_list_Nil scl_deque_pop_back_def)
qed

lemma deque_run_spec:
  assumes "scl_allocator a"
  shows "deque_inv q \<Longrightarrow> (\<forall>c \<in> set cs. cmd_fits (unat (deq_element_size q)) c) \<Longrightarrow>
    \<exists>q' rs. deque_run a q cs = Some (q', rs) \<and> deque_inv q' \<and>
      list_run (unat (deq_element_size q)) (deque_list q) cs rs = Some (deque_list q')"
proof (induction cs arbitrary: q)
  case Nil
  then show ?case by simp
next
  case (Cons c cs)
  from deque_exec_spec [OF assms Cons.prems(1), of c] Cons.prems(2) obtain err q1 v where
    1: "deque_exec a q c = Some (err, q1, v)" "deque_inv q1" "deq_element_size q1 = deq_element_size q"
    "list_step (unat (deq_element_size q)) (deque_list q) c (err, v) = Some (deque_list q1)" by auto
  from Cons.IH [OF 1(2)] Cons.prems(2) 1(3) obtain q2 rs where
    "deque_run a q1 cs = Some (q2, rs)" "deque_inv q2"
    "list_run (unat (deq_element_size q)) (deque_list q1) cs rs = Some (deque_list q2)" by auto
  then show ?case using 1 by auto
qed

end
