(* ===== verification/Scl_Queue.thy ===== *)
theory Scl_Queue
  imports Scl_Ring
begin

text \<open>
  The queue of \<open>libs/structures/queue/scl_queue.c\<close>: a power-of-two ring with a cached tail index,
  doubled by copying into a fresh block. The queue is a \<open>fifo_store\<close>.
\<close>

record scl_queue_t =
  que_data :: "block ptr"
  que_element_size :: size_t
  que_capacity :: size_t
  que_mask :: size_t
  que_head :: size_t
  que_tail :: size_t
  que_count :: size_t

definition scl_queue_init ::
    "scl_allocator_t \<Rightarrow> scl_queue_t ptr \<Rightarrow> size_t \<Rightarrow> size_t \<Rightarrow> scl_error_t \<times> scl_queue_t ptr" where
  "scl_queue_init a queue element_size initial_capacity =
     (case queue of None \<Rightarrow> (SCL_ERR_NULL_PTR, queue)
      | Some _ \<Rightarrow>
          if element_size = 0 then (SCL_ERR_INVALID_ARG, queue)
          else let q = \<lparr>que_data = None, que_element_size = element_size, que_capacity = 0, que_mask = 0,
                        que_head = 0, que_tail = 0, que_count = 0\<rparr> in
            if 0 < initial_capacity then
              let cap = scl_bit_ceil_sz initial_capacity in
              case scl_mul_overflow cap element_size of
                None \<Rightarrow> (SCL_ERR_SIZE_OVERFLOW, Some q)
              | Some bytes \<Rightarrow>
                  (case malloc_fn a 0 bytes max_align of
                     None \<Rightarrow> (SCL_ERR_OUT_OF_MEMORY, Some q)
                   | Some d \<Rightarrow> (SCL_OK, Some (q\<lparr>que_data := Some d, que_capacity := cap, que_mask := cap - 1\<rparr>)))
            else (SCL_OK, Some q))"

definition scl_queue_destroy :: "scl_queue_t ptr \<Rightarrow> scl_queue_t ptr" where
  "scl_queue_destroy queue =
     map_option (\<lambda>q. q\<lparr>que_data := None, que_capacity := 0, que_head := 0, que_tail := 0, que_count := 0\<rparr>) queue"

text \<open>The growth step at the head of \<open>scl_queue_enqueue\<close>.\<close>

definition queue_make_room :: "scl_allocator_t \<Rightarrow> scl_queue_t \<Rightarrow> (scl_error_t \<times> scl_queue_t) ub" where
  "queue_make_room a q =
     (let cnt = que_count q; cap = que_capacity q; es = que_element_size q in
      if cnt = cap then
        let new_cap = (if cap = 0 then 4 else cap * 2) in
        case scl_mul_overflow new_cap es of
          None \<Rightarrow> Some (SCL_ERR_SIZE_OVERFLOW, q)
        | Some new_bytes \<Rightarrow>
            (case malloc_fn a 0 new_bytes max_align of
               None \<Rightarrow> Some (SCL_ERR_OUT_OF_MEMORY, q)
             | Some b \<Rightarrow> do {
                 tmp \<leftarrow> ring_copy (Some b) (que_data q) (que_head q) (que_mask q) es 0 cnt;
                 Some (SCL_OK, q\<lparr>que_data := tmp, que_head := 0, que_tail := cnt, que_capacity := new_cap,
                                que_mask := new_cap - 1\<rparr>)
               })
      else Some (SCL_OK, q))"

definition scl_queue_enqueue ::
    "scl_allocator_t \<Rightarrow> scl_queue_t ptr \<Rightarrow> block ptr \<Rightarrow> (scl_error_t \<times> scl_queue_t ptr) ub" where
  "scl_queue_enqueue a queue element =
     (case (queue, element) of
        (Some q, Some _) \<Rightarrow> do {
          let cnt = que_count q;
          let es = que_element_size q;
          (err, q) \<leftarrow> queue_make_room a q;
          if err \<noteq> SCL_OK then Some (err, Some q)
          else do {
            d \<leftarrow> scl_memcpy (que_data q) (unat (que_tail q * es)) element 0 (unat es);
            Some (SCL_OK, Some (q\<lparr>que_data := d, que_tail := (que_tail q + 1) AND que_mask q, que_count := cnt + 1\<rparr>))
          }
        }
      | _ \<Rightarrow> Some (SCL_ERR_NULL_PTR, queue))"

definition scl_queue_dequeue ::
    "scl_queue_t ptr \<Rightarrow> block ptr \<Rightarrow> (scl_error_t \<times> scl_queue_t ptr \<times> block ptr) ub" where
  "scl_queue_dequeue queue out =
     (case (queue, out) of
        (Some q, Some _) \<Rightarrow>
          if que_count q = 0 then Some (SCL_ERR_EMPTY, queue, out)
          else do {
            let es = que_element_size q;
            o' \<leftarrow> scl_memcpy out 0 (que_data q) (unat (que_head q * es)) (unat es);
            Some (SCL_OK, Some (q\<lparr>que_head := (que_head q + 1) AND que_mask q, que_count := que_count q - 1\<rparr>), o')
          }
      | _ \<Rightarrow> Some (SCL_ERR_NULL_PTR, queue, out))"

definition scl_queue_peek :: "scl_queue_t ptr \<Rightarrow> block ptr \<Rightarrow> (scl_error_t \<times> block ptr) ub" where
  "scl_queue_peek queue out =
     (case (queue, out) of
        (Some q, Some _) \<Rightarrow>
          if que_count q = 0 then Some (SCL_ERR_EMPTY, out)
          else do {
            o' \<leftarrow> scl_memcpy out 0 (que_data q) (unat (que_head q * que_element_size q)) (unat (que_element_size q));
            Some (SCL_OK, o')
          }
      | _ \<Rightarrow> Some (SCL_ERR_NULL_PTR, out))"

definition scl_queue_count :: "scl_queue_t ptr \<Rightarrow> size_t" where
  "scl_queue_count queue = (case queue of Some q \<Rightarrow> que_count q | None \<Rightarrow> 0)"

definition scl_queue_empty :: "scl_queue_t ptr \<Rightarrow> bool" where
  "scl_queue_empty queue = (case queue of Some q \<Rightarrow> que_count q = 0 | None \<Rightarrow> True)"

definition scl_queue_search ::
    "scl_queue_t ptr \<Rightarrow> block ptr \<Rightarrow> (block \<Rightarrow> block \<Rightarrow> int) \<Rightarrow> (scl_error_t \<times> size_t option) ub" where
  "scl_queue_search queue key cmp =
     (case (queue, key) of
        (Some q, Some k) \<Rightarrow>
          ring_search (que_data q) (que_element_size q) (que_mask q) (que_head q) (que_count q) (\<lambda>v. cmp v k)
      | _ \<Rightarrow> Some (SCL_ERR_NULL_PTR, None))"

section \<open>Invariant and abstraction\<close>

definition queue_inv :: "scl_queue_t \<Rightarrow> bool" where
  "queue_inv q \<longleftrightarrow>
     ring_ok (que_data q) (que_element_size q) (que_capacity q) (que_mask q) (que_head q) (que_count q) \<and>
     (que_capacity q \<noteq> 0 \<longrightarrow> que_tail q = (que_head q + que_count q) AND que_mask q)"

definition queue_list :: "scl_queue_t \<Rightarrow> block list" where
  "queue_list q = ring (que_data q) (que_element_size q) (que_capacity q) (que_head q) (unat (que_count q))"

lemma length_queue_list [simp]: "length (queue_list q) = unat (que_count q)"
  by (simp add: queue_list_def)

lemma queue_list_Nil: "queue_list q = [] \<longleftrightarrow> que_count q = 0"
  using length_queue_list [of q] by (metis length_0_conv unat_eq_0_iff)

lemma queue_init_ok:
  assumes a: "scl_allocator a" and run: "scl_queue_init a (Some q0) es cap = (SCL_OK, Some q)"
  shows "queue_inv q \<and> queue_list q = [] \<and> que_element_size q = es"
proof (cases "0 < cap")
  case False
  then show ?thesis using run
    by (auto simp: scl_queue_init_def Let_def queue_inv_def queue_list_def ring_ok_def split: if_splits)
next
  case True
  then obtain bytes d where d: "scl_mul_overflow (scl_bit_ceil_sz cap) es = Some bytes"
    "malloc_fn a 0 bytes max_align = Some d" "es \<noteq> 0"
    and q: "q = \<lparr>que_data = Some d, que_element_size = es, que_capacity = scl_bit_ceil_sz cap,
      que_mask = scl_bit_ceil_sz cap - 1, que_head = 0, que_tail = 0, que_count = 0\<rparr>"
    using run by (auto simp: scl_queue_init_def Let_def split: if_splits option.splits)
  show ?thesis using ring_ok_fresh [OF a d] by (simp add: q queue_inv_def queue_list_def)
qed

context scl_allocator
begin

lemma queue_room_spec:
  assumes inv: "queue_inv q"
  shows "\<exists>err q'. queue_make_room a q = Some (err, q') \<and> queue_inv q' \<and>
    queue_list q' = queue_list q \<and> que_element_size q' = que_element_size q \<and> que_count q' = que_count q \<and>
    (if err = SCL_OK then que_count q' < que_capacity q' else alloc_failed err \<and> q' = q)"
proof (cases "que_count q = que_capacity q")
  case False
  then show ?thesis using inv by (auto simp: queue_make_room_def queue_inv_def ring_ok_def)
next
  case full: True
  let ?cap = "que_capacity q" and ?es = "que_element_size q"
  let ?n = "if ?cap = 0 then 4 else ?cap * 2"
  have ok: "ring_ok (que_data q) ?es ?cap (que_mask q) (que_head q) ?cap"
    using inv full by (simp add: queue_inv_def)
  have es: "?es \<noteq> 0" using ring_ok_buf [OF ok] by (rule buf_ok_es)
  show ?thesis
  proof (cases "scl_mul_overflow ?n ?es")
    case None
    then show ?thesis using full inv by (simp add: queue_make_room_def)
  next
    case (Some bytes)
    show ?thesis
    proof (cases "malloc_fn a 0 bytes max_align")
      case None
      then show ?thesis using full inv Some by (simp add: queue_make_room_def)
    next
      case (Some b)
      note b = malloc_buf [OF \<open>scl_mul_overflow ?n ?es = Some bytes\<close> Some es]
      from ring_grow [OF ok b refl] obtain tmp where tmp:
        "ring_copy (Some b) (que_data q) (que_head q) (que_mask q) ?es 0 ?cap = Some tmp"
        "ring_ok tmp ?es ?n (?n - 1) 0 ?cap" "?cap < ?n" "pow2_sz ?n"
        "ring tmp ?es ?n 0 (unat ?cap) = ring (que_data q) ?es ?cap (que_head q) (unat ?cap)" by blast
      let ?q' = "q\<lparr>que_data := tmp, que_head := 0, que_tail := ?cap, que_capacity := ?n, que_mask := ?n - 1\<rparr>"
      have "unat (?cap AND (?n - 1)) = unat ?cap"
        using unat_mask_index [OF tmp(4), of ?cap] tmp(3) by (simp only: mod_less word_less_unat)
      then have tail: "?cap AND (?n - 1) = ?cap" by (simp only: word_unat_eq_iff)
      have "ring_ok tmp ?es ?n (?n - 1) 0 (que_count q)" using tmp(2) unfolding full .
      moreover have "?cap = (0 + que_count q) AND (?n - 1)" unfolding full add_0_left by (rule tail [symmetric])
      ultimately have "queue_inv ?q'" by (simp add: queue_inv_def del: if_split)
      moreover have "queue_list ?q' = queue_list q"
        using tmp(5) by (simp add: queue_list_def full)
      moreover have "queue_make_room a q = Some (SCL_OK, ?q')"
        using full tmp(1) Some \<open>scl_mul_overflow ?n ?es = Some bytes\<close>
        by (simp only: queue_make_room_def Let_def full option.case bind.bind_lunit if_True simp_thms)
      moreover have "que_count ?q' < que_capacity ?q'" using tmp(3) full by simp
      ultimately show ?thesis by (intro exI [of _ SCL_OK] exI [of _ ?q']) simp
    qed
  qed
qed

lemma enqueue_spec:
  assumes inv: "queue_inv q" and e: "unat (que_element_size q) \<le> length e"
  shows "\<exists>err q'. scl_queue_enqueue a (Some q) (Some e) = Some (err, Some q') \<and> queue_inv q' \<and>
    que_element_size q' = que_element_size q \<and>
    (if err = SCL_OK then queue_list q' = queue_list q @ [take (unat (que_element_size q)) e]
     else alloc_failed err \<and> q' = q)"
proof -
  let ?es = "que_element_size q" and ?cnt = "que_count q"
  obtain err r where r: "queue_make_room a q = Some (err, r)" "queue_inv r"
    "queue_list r = queue_list q" "que_element_size r = ?es" "que_count r = ?cnt"
    "if err = SCL_OK then ?cnt < que_capacity r else alloc_failed err \<and> r = q"
    using queue_room_spec [OF inv] by metis
  show ?thesis
  proof (cases "err = SCL_OK")
    case False
    then show ?thesis using r inv by (simp add: scl_queue_enqueue_def Let_def)
  next
    case True
    then have cnt: "?cnt < que_capacity r" using r(6) by simp
    then have cap: "que_capacity r \<noteq> 0" by auto
    have ok: "ring_ok (que_data r) ?es (que_capacity r) (que_mask r) (que_head r) ?cnt"
      and tail: "que_tail r = (que_head r + ?cnt) AND que_mask r"
      using r(2,4,5) cap by (simp_all add: queue_inv_def)
    from ring_write_back [OF ok cnt e] obtain d' where d':
      "scl_memcpy (que_data r) (unat (que_tail r * ?es)) (Some e) 0 (unat ?es) = Some d'"
      "ring_ok d' ?es (que_capacity r) (que_mask r) (que_head r) (?cnt + 1)"
      "ring d' ?es (que_capacity r) (que_head r) (Suc (unat ?cnt)) = queue_list q @ [take (unat ?es) e]"
      using r(3,4,5) by (auto simp: queue_list_def tail)
    let ?q' = "r\<lparr>que_data := d', que_tail := (que_tail r + 1) AND que_mask r, que_count := ?cnt + 1\<rparr>"
    have "(que_tail r + 1) AND que_mask r = (que_head r + (?cnt + 1)) AND que_mask r"
      unfolding tail ring_absorb [OF ok cap] by (simp only: add.assoc)
    then have "queue_inv ?q'" using d'(2) by (simp add: queue_inv_def r(4))
    moreover have "queue_list ?q' = queue_list q @ [take (unat ?es) e]"
      using d'(3) unat_Suc_less [OF cnt] by (simp add: queue_list_def r(4))
    moreover have "scl_queue_enqueue a (Some q) (Some e) = Some (SCL_OK, Some ?q')"
      using r(1) True d'(1) by (simp add: scl_queue_enqueue_def Let_def)
    ultimately show ?thesis using r(4) by simp
  qed
qed

end

lemma dequeue_spec:
  assumes inv: "queue_inv q" and o: "unat (que_element_size q) \<le> length out" and ne: "que_count q \<noteq> 0"
  shows "\<exists>q'. scl_queue_dequeue (Some q) (Some out)
      = Some (SCL_OK, Some q', Some (hd (queue_list q) @ drop (unat (que_element_size q)) out)) \<and>
    queue_inv q' \<and> queue_list q' = tl (queue_list q) \<and> que_element_size q' = que_element_size q"
proof -
  have ok: "ring_ok (que_data q) (que_element_size q) (que_capacity q) (que_mask q) (que_head q) (que_count q)"
    using inv by (simp add: queue_inv_def)
  then have cap: "que_capacity q \<noteq> 0" using ne by (auto simp: ring_ok_def)
  note adv = ring_advance [OF ok ne]
  let ?h = "(que_head q + 1) AND que_mask q"
  have "(?h + (que_count q - 1)) AND que_mask q = (que_head q + que_count q) AND que_mask q"
    unfolding ring_absorb [OF ok cap] by (simp add: algebra_simps)
  then show ?thesis
    using inv ne adv ring_read_head [OF ok ne o]
    by (simp add: scl_queue_dequeue_def Let_def queue_inv_def queue_list_def)
qed

lemma queue_peek_spec:
  assumes inv: "queue_inv q" and o: "unat (que_element_size q) \<le> length out" and ne: "que_count q \<noteq> 0"
  shows "scl_queue_peek (Some q) (Some out)
    = Some (SCL_OK, Some (hd (queue_list q) @ drop (unat (que_element_size q)) out))"
proof -
  have ok: "ring_ok (que_data q) (que_element_size q) (que_capacity q) (que_mask q) (que_head q) (que_count q)"
    using inv by (simp add: queue_inv_def)
  show ?thesis using ne ring_read_head [OF ok ne o] by (simp add: scl_queue_peek_def queue_list_def)
qed

lemma queue_search_spec:
  assumes "queue_inv q"
  shows "\<exists>r. scl_queue_search (Some q) (Some k) cmp = Some (if r = None then SCL_ERR_NOT_FOUND else SCL_OK, r) \<and>
    is_first (\<lambda>v. cmp v k = 0) (queue_list q) (map_option unat r)"
proof -
  have "ring_ok (que_data q) (que_element_size q) (que_capacity q) (que_mask q) (que_head q) (que_count q)"
    using assms by (simp add: queue_inv_def)
  from ring_search_first [OF this, of "\<lambda>v. cmp v k"] show ?thesis
    by (simp add: scl_queue_search_def queue_list_def)
qed

section \<open>The queue is a first-in first-out store\<close>

definition queue_put :: "scl_allocator_t \<times> scl_queue_t \<Rightarrow> block \<Rightarrow> (scl_error_t \<times> scl_allocator_t \<times> scl_queue_t) ub" where
  "queue_put aq e = do {
     (err, q) \<leftarrow> scl_queue_enqueue (fst aq) (Some (snd aq)) (Some e);
     Some (err, fst aq, the q)
   }"

definition queue_take :: "scl_allocator_t \<times> scl_queue_t \<Rightarrow> (scl_error_t \<times> (scl_allocator_t \<times> scl_queue_t) \<times> block) ub" where
  "queue_take aq = do {
     (err, q, v) \<leftarrow> scl_queue_dequeue (Some (snd aq)) (Some (replicate (unat (que_element_size (snd aq))) 0));
     Some (err, (fst aq, the q), the v)
   }"

interpretation queue_store: fifo_store "\<lambda>aq. scl_allocator (fst aq) \<and> queue_inv (snd aq)"
  "\<lambda>aq. unat (que_element_size (snd aq))" "\<lambda>aq. queue_list (snd aq)" queue_put queue_take
proof
  fix s :: "scl_allocator_t \<times> scl_queue_t" and e :: block
  assume "scl_allocator (fst s) \<and> queue_inv (snd s)" and "unat (que_element_size (snd s)) \<le> length e"
  then show "\<exists>err s'. queue_put s e = Some (err, s') \<and> (scl_allocator (fst s') \<and> queue_inv (snd s')) \<and>
    unat (que_element_size (snd s')) = unat (que_element_size (snd s)) \<and> err \<noteq> SCL_ERR_EMPTY \<and>
    queue_list (snd s') = (if err = SCL_OK then queue_list (snd s) @ [take (unat (que_element_size (snd s))) e]
      else queue_list (snd s))"
    using scl_allocator.enqueue_spec [of "fst s" "snd s" e]
    by (fastforce simp: queue_put_def alloc_failed_def split: if_splits)
next
  fix s :: "scl_allocator_t \<times> scl_queue_t"
  assume "scl_allocator (fst s) \<and> queue_inv (snd s)" and "queue_list (snd s) \<noteq> []"
  then show "\<exists>s'. queue_take s = Some (SCL_OK, s', hd (queue_list (snd s))) \<and>
    (scl_allocator (fst s') \<and> queue_inv (snd s')) \<and>
    unat (que_element_size (snd s')) = unat (que_element_size (snd s)) \<and>
    queue_list (snd s') = tl (queue_list (snd s))"
    using dequeue_spec [of "snd s" "replicate (unat (que_element_size (snd s))) 0"]
    by (auto simp: queue_take_def queue_list_Nil)
next
  fix s :: "scl_allocator_t \<times> scl_queue_t"
  assume "queue_list (snd s) = []"
  then show "\<exists>v. queue_take s = Some (SCL_ERR_EMPTY, s, v)"
    by (simp add: queue_take_def scl_queue_dequeue_def queue_list_Nil)
qed

end
