(* ===== verification/Scl_Ringbuf.thy ===== *)
theory Scl_Ringbuf
  imports Scl_Queue
begin

text \<open>
  The fixed-capacity ring buffer of \<open>libs/structures/ringbuf/scl_ringbuf.c\<close>. A full buffer either
  refuses an element or, with \<open>overwrite\<close>, replaces its oldest one. Without \<open>overwrite\<close> it is a
  \<open>fifo_store\<close>; with it, the contents are always the last \<open>capacity\<close> elements pushed.
\<close>

record scl_ringbuf_t =
  rb_data :: "block ptr"
  rb_element_size :: size_t
  rb_capacity :: size_t
  rb_mask :: size_t
  rb_head :: size_t
  rb_count :: size_t
  rb_overwrite :: bool

text \<open>\<open>scl_ringbuf_init\<close> stores the result of the allocation before it tests it, and nothing else
  on the error path.\<close>

definition scl_ringbuf_init ::
    "scl_allocator_t \<Rightarrow> scl_ringbuf_t ptr \<Rightarrow> size_t \<Rightarrow> size_t \<Rightarrow> bool \<Rightarrow> scl_error_t \<times> scl_ringbuf_t ptr" where
  "scl_ringbuf_init a rb element_size capacity overwrite =
     (case rb of None \<Rightarrow> (SCL_ERR_NULL_PTR, rb)
      | Some r \<Rightarrow>
          if element_size = 0 \<or> capacity = 0 then (SCL_ERR_INVALID_ARG, rb)
          else let cap = scl_bit_ceil_sz capacity in
            case scl_mul_overflow cap element_size of
              None \<Rightarrow> (SCL_ERR_SIZE_OVERFLOW, rb)
            | Some bytes \<Rightarrow>
                (case malloc_fn a 0 bytes max_align of
                   None \<Rightarrow> (SCL_ERR_OUT_OF_MEMORY, Some (r\<lparr>rb_data := None\<rparr>))
                 | Some d \<Rightarrow> (SCL_OK, Some \<lparr>rb_data = Some d, rb_element_size = element_size, rb_capacity = cap,
                     rb_mask = cap - 1, rb_head = 0, rb_count = 0, rb_overwrite = overwrite\<rparr>)))"

definition scl_ringbuf_destroy :: "scl_ringbuf_t ptr \<Rightarrow> scl_ringbuf_t ptr" where
  "scl_ringbuf_destroy rb = map_option (\<lambda>r. r\<lparr>rb_data := None, rb_capacity := 0, rb_count := 0\<rparr>) rb"

definition scl_ringbuf_push :: "scl_ringbuf_t ptr \<Rightarrow> block ptr \<Rightarrow> (scl_error_t \<times> scl_ringbuf_t ptr) ub" where
  "scl_ringbuf_push rb element =
     (case (rb, element) of
        (Some r, Some _) \<Rightarrow>
          let cnt = rb_count r; cap = rb_capacity r; es = rb_element_size r in
          if cnt = cap then
            if \<not> rb_overwrite r then Some (SCL_ERR_FULL, rb)
            else do {
              d \<leftarrow> scl_memcpy (rb_data r) (unat (rb_head r * es)) element 0 (unat es);
              Some (SCL_OK, Some (r\<lparr>rb_data := d, rb_head := (rb_head r + 1) AND rb_mask r\<rparr>))
            }
          else do {
            let tail = (rb_head r + cnt) AND rb_mask r;
            d \<leftarrow> scl_memcpy (rb_data r) (unat (tail * es)) element 0 (unat es);
            Some (SCL_OK, Some (r\<lparr>rb_data := d, rb_count := cnt + 1\<rparr>))
          }
      | _ \<Rightarrow> Some (SCL_ERR_NULL_PTR, rb))"

definition scl_ringbuf_pop ::
    "scl_ringbuf_t ptr \<Rightarrow> block ptr \<Rightarrow> (scl_error_t \<times> scl_ringbuf_t ptr \<times> block ptr) ub" where
  "scl_ringbuf_pop rb out =
     (case (rb, out) of
        (Some r, Some _) \<Rightarrow>
          if rb_count r = 0 then Some (SCL_ERR_EMPTY, rb, out)
          else do {
            let es = rb_element_size r;
            o' \<leftarrow> scl_memcpy out 0 (rb_data r) (unat (rb_head r * es)) (unat es);
            Some (SCL_OK, Some (r\<lparr>rb_head := (rb_head r + 1) AND rb_mask r, rb_count := rb_count r - 1\<rparr>), o')
          }
      | _ \<Rightarrow> Some (SCL_ERR_NULL_PTR, rb, out))"

definition scl_ringbuf_peek :: "scl_ringbuf_t ptr \<Rightarrow> size_t \<Rightarrow> block ptr \<Rightarrow> (scl_error_t \<times> block ptr) ub" where
  "scl_ringbuf_peek rb index out =
     (case (rb, out) of
        (Some r, Some _) \<Rightarrow>
          if rb_count r \<le> index then Some (SCL_ERR_INVALID_INDEX, out)
          else do {
            let pos = (rb_head r + index) AND rb_mask r;
            o' \<leftarrow> scl_memcpy out 0 (rb_data r) (unat (pos * rb_element_size r)) (unat (rb_element_size r));
            Some (SCL_OK, o')
          }
      | _ \<Rightarrow> Some (SCL_ERR_NULL_PTR, out))"

definition scl_ringbuf_count :: "scl_ringbuf_t ptr \<Rightarrow> size_t" where
  "scl_ringbuf_count rb = (case rb of Some r \<Rightarrow> rb_count r | None \<Rightarrow> 0)"

definition scl_ringbuf_capacity :: "scl_ringbuf_t ptr \<Rightarrow> size_t" where
  "scl_ringbuf_capacity rb = (case rb of Some r \<Rightarrow> rb_capacity r | None \<Rightarrow> 0)"

definition scl_ringbuf_empty :: "scl_ringbuf_t ptr \<Rightarrow> bool" where
  "scl_ringbuf_empty rb = (case rb of Some r \<Rightarrow> rb_count r = 0 | None \<Rightarrow> True)"

definition scl_ringbuf_full :: "scl_ringbuf_t ptr \<Rightarrow> bool" where
  "scl_ringbuf_full rb = (case rb of Some r \<Rightarrow> rb_count r = rb_capacity r | None \<Rightarrow> False)"

definition scl_ringbuf_search ::
    "scl_ringbuf_t ptr \<Rightarrow> block ptr \<Rightarrow> (block \<Rightarrow> block \<Rightarrow> int) \<Rightarrow> (scl_error_t \<times> size_t option) ub" where
  "scl_ringbuf_search rb key cmp =
     (case (rb, key) of
        (Some r, Some k) \<Rightarrow>
          ring_search (rb_data r) (rb_element_size r) (rb_mask r) (rb_head r) (rb_count r) (\<lambda>v. cmp v k)
      | _ \<Rightarrow> Some (SCL_ERR_NULL_PTR, None))"

section \<open>Invariant and abstraction\<close>

text \<open>A usable ring buffer has room for at least one element; \<open>scl_ringbuf_init\<close> establishes this
  for every capacity it is asked for up to \<open>2 ^ 63\<close> (\<open>ringbuf_init_ok\<close>). Beyond that
  \<open>scl_bit_ceil_sz\<close> is 0 and the default allocator refuses the empty request.\<close>

definition ringbuf_inv :: "scl_ringbuf_t \<Rightarrow> bool" where
  "ringbuf_inv r \<longleftrightarrow> rb_capacity r \<noteq> 0 \<and>
     ring_ok (rb_data r) (rb_element_size r) (rb_capacity r) (rb_mask r) (rb_head r) (rb_count r)"

definition ringbuf_list :: "scl_ringbuf_t \<Rightarrow> block list" where
  "ringbuf_list r = ring (rb_data r) (rb_element_size r) (rb_capacity r) (rb_head r) (unat (rb_count r))"

lemma length_ringbuf_list [simp]: "length (ringbuf_list r) = unat (rb_count r)"
  by (simp add: ringbuf_list_def)

lemma ringbuf_list_Nil: "ringbuf_list r = [] \<longleftrightarrow> rb_count r = 0"
  using length_ringbuf_list [of r] by (metis length_0_conv unat_eq_0_iff)

lemma ringbuf_inv_ok: "ringbuf_inv r \<Longrightarrow>
    ring_ok (rb_data r) (rb_element_size r) (rb_capacity r) (rb_mask r) (rb_head r) (rb_count r)"
  by (simp add: ringbuf_inv_def)

lemma ringbuf_init_ok:
  assumes a: "scl_allocator a" and cap: "unat cap \<le> 2 ^ 63"
    and run: "scl_ringbuf_init a (Some r0) es cap ow = (SCL_OK, Some r)"
  shows "ringbuf_inv r \<and> ringbuf_list r = [] \<and> rb_element_size r = es \<and> rb_overwrite r = ow \<and> cap \<le> rb_capacity r"
proof -
  obtain bytes d where d: "scl_mul_overflow (scl_bit_ceil_sz cap) es = Some bytes"
    "malloc_fn a 0 bytes max_align = Some d" "es \<noteq> 0"
    and r: "r = \<lparr>rb_data = Some d, rb_element_size = es, rb_capacity = scl_bit_ceil_sz cap,
      rb_mask = scl_bit_ceil_sz cap - 1, rb_head = 0, rb_count = 0, rb_overwrite = ow\<rparr>"
    using run by (auto simp: scl_ringbuf_init_def Let_def split: if_splits option.splits)
  have "0 < unat (scl_bit_ceil_sz cap)" using pow2_scl_bit_ceil_sz [OF cap] by (rule pow2_sz_pos)
  moreover have "cap \<le> scl_bit_ceil_sz cap"
    using cap by (rule scl_bit_ceil_sz_ge)
  ultimately show ?thesis
    using ring_ok_fresh [OF a d] by (simp add: r ringbuf_inv_def ringbuf_list_def unat_pos_iff)
qed

section \<open>Push\<close>

text \<open>What a push makes of the contents.\<close>

definition ringbuf_pushed :: "bool \<Rightarrow> size_t \<Rightarrow> block list \<Rightarrow> block \<Rightarrow> scl_error_t \<times> block list" where
  "ringbuf_pushed ow cap xs v =
     (if length xs < unat cap then (SCL_OK, xs @ [v])
      else if ow then (SCL_OK, tl xs @ [v]) else (SCL_ERR_FULL, xs))"

lemma ringbuf_push_spec:
  assumes inv: "ringbuf_inv r" and e: "unat (rb_element_size r) \<le> length e"
  shows "\<exists>err r'. scl_ringbuf_push (Some r) (Some e) = Some (err, Some r') \<and> ringbuf_inv r' \<and>
    rb_element_size r' = rb_element_size r \<and> rb_capacity r' = rb_capacity r \<and> rb_overwrite r' = rb_overwrite r \<and>
    (err, ringbuf_list r')
      = ringbuf_pushed (rb_overwrite r) (rb_capacity r) (ringbuf_list r) (take (unat (rb_element_size r)) e)"
proof -
  let ?es = "rb_element_size r" and ?cap = "rb_capacity r" and ?cnt = "rb_count r" and ?m = "rb_mask r" and ?h = "rb_head r"
  note ok = ringbuf_inv_ok [OF inv]
  have cap: "?cap \<noteq> 0" using inv by (simp add: ringbuf_inv_def)
  show ?thesis
  proof (cases "?cnt = ?cap")
    case False
    then have cnt: "?cnt < ?cap" using ok by (simp add: ring_ok_def order_less_le)
    from ring_write_back [OF ok cnt e] obtain d' where d':
      "scl_memcpy (rb_data r) (unat (((?h + ?cnt) AND ?m) * ?es)) (Some e) 0 (unat ?es) = Some d'"
      "ring_ok d' ?es ?cap ?m ?h (?cnt + 1)"
      "ring d' ?es ?cap ?h (Suc (unat ?cnt)) = ringbuf_list r @ [take (unat ?es) e]"
      by (auto simp: ringbuf_list_def)
    let ?r' = "r\<lparr>rb_data := d', rb_count := ?cnt + 1\<rparr>"
    have "scl_ringbuf_push (Some r) (Some e) = Some (SCL_OK, Some ?r')"
      using False d'(1) by (simp add: scl_ringbuf_push_def Let_def)
    then show ?thesis using d'(2,3) cnt cap unat_Suc_less [OF cnt]
      by (simp add: ringbuf_inv_def ringbuf_list_def ringbuf_pushed_def word_less_unat)
  next
    case full: True
    show ?thesis
    proof (cases "rb_overwrite r")
      case False
      then show ?thesis using full inv by (simp add: scl_ringbuf_push_def ringbuf_pushed_def)
    next
      case True
      from ring_replace_oldest [OF ok cap full e] obtain d' where d':
        "scl_memcpy (rb_data r) (unat (?h * ?es)) (Some e) 0 (unat ?es) = Some d'"
        "ring_ok d' ?es ?cap ?m ((?h + 1) AND ?m) ?cnt"
        "ring d' ?es ?cap ((?h + 1) AND ?m) (unat ?cnt) = tl (ringbuf_list r) @ [take (unat ?es) e]"
        by (auto simp: ringbuf_list_def)
      let ?r' = "r\<lparr>rb_data := d', rb_head := (?h + 1) AND ?m\<rparr>"
      have "scl_ringbuf_push (Some r) (Some e) = Some (SCL_OK, Some ?r')"
        using full True d'(1) by (simp add: scl_ringbuf_push_def Let_def)
      then show ?thesis using d'(2,3) cap full True
        by (simp add: ringbuf_inv_def ringbuf_list_def ringbuf_pushed_def)
    qed
  qed
qed

lemma ringbuf_pop_spec:
  assumes inv: "ringbuf_inv r" and o: "unat (rb_element_size r) \<le> length out" and ne: "rb_count r \<noteq> 0"
  shows "\<exists>r'. scl_ringbuf_pop (Some r) (Some out)
      = Some (SCL_OK, Some r', Some (hd (ringbuf_list r) @ drop (unat (rb_element_size r)) out)) \<and>
    ringbuf_inv r' \<and> ringbuf_list r' = tl (ringbuf_list r) \<and> rb_element_size r' = rb_element_size r \<and>
    rb_overwrite r' = rb_overwrite r"
  using inv ne ring_advance [OF ringbuf_inv_ok [OF inv] ne] ring_read_head [OF ringbuf_inv_ok [OF inv] ne o]
  by (simp add: scl_ringbuf_pop_def Let_def ringbuf_inv_def ringbuf_list_def)

lemma ringbuf_peek_spec:
  assumes inv: "ringbuf_inv r" and o: "unat (rb_element_size r) \<le> length out"
  shows "scl_ringbuf_peek (Some r) i (Some out) = Some
    (if i < rb_count r then (SCL_OK, Some (ringbuf_list r ! unat i @ drop (unat (rb_element_size r)) out))
     else (SCL_ERR_INVALID_INDEX, Some out))"
proof (cases "i < rb_count r")
  case True
  then have "\<not> rb_count r \<le> i" by simp
  then show ?thesis using True ring_read [OF ringbuf_inv_ok [OF inv] True o]
    by (simp add: scl_ringbuf_peek_def ringbuf_list_def)
qed (simp add: scl_ringbuf_peek_def linorder_not_less)

lemma ringbuf_search_spec:
  assumes "ringbuf_inv r"
  shows "\<exists>i. scl_ringbuf_search (Some r) (Some k) cmp = Some (if i = None then SCL_ERR_NOT_FOUND else SCL_OK, i) \<and>
    is_first (\<lambda>v. cmp v k = 0) (ringbuf_list r) (map_option unat i)"
  using ring_search_first [OF ringbuf_inv_ok [OF assms], of "\<lambda>v. cmp v k"]
  by (simp add: scl_ringbuf_search_def ringbuf_list_def)

section \<open>Pushing a sequence with overwrite\<close>

fun ringbuf_push_all :: "scl_ringbuf_t \<Rightarrow> block list \<Rightarrow> scl_ringbuf_t ub" where
  "ringbuf_push_all r [] = Some r"
| "ringbuf_push_all r (e # es) = do {
     (err, r') \<leftarrow> scl_ringbuf_push (Some r) (Some e);
     ringbuf_push_all (the r') es
   }"

definition last_n :: "nat \<Rightarrow> 'a list \<Rightarrow> 'a list" where
  "last_n n xs = drop (length xs - n) xs"

lemma last_n_rev: "last_n n xs = rev (take n (rev xs))"
  by (simp add: last_n_def rev_take)

lemma last_n_append [simp]: "last_n n (last_n n xs @ ys) = last_n n (xs @ ys)"
  by (simp add: last_n_rev min_def)

lemma ringbuf_keeps_last:
  "ringbuf_inv r \<Longrightarrow> rb_overwrite r \<Longrightarrow> (\<forall>e \<in> set es. unat (rb_element_size r) \<le> length e) \<Longrightarrow>
   \<exists>r'. ringbuf_push_all r es = Some r' \<and> ringbuf_inv r' \<and>
     ringbuf_list r' = last_n (unat (rb_capacity r)) (ringbuf_list r @ map (take (unat (rb_element_size r))) es)"
proof (induction es arbitrary: r)
  case Nil
  then have "unat (rb_count r) \<le> unat (rb_capacity r)"
    by (auto simp: ringbuf_inv_def ring_ok_def word_le_unat)
  then show ?case using Nil by (simp add: last_n_def)
next
  case (Cons e es)
  have cap: "0 < unat (rb_capacity r)" using Cons.prems(1) by (simp add: ringbuf_inv_def unat_pos_iff)
  have le: "unat (rb_count r) \<le> unat (rb_capacity r)"
    using ringbuf_inv_ok [OF Cons.prems(1)] by (simp add: ring_ok_def word_le_unat)
  let ?v = "take (unat (rb_element_size r)) e"
  from ringbuf_push_spec [OF Cons.prems(1), of e] Cons.prems(2,3) obtain r' where r':
    "scl_ringbuf_push (Some r) (Some e) = Some (SCL_OK, Some r')" "ringbuf_inv r'"
    "rb_element_size r' = rb_element_size r" "rb_capacity r' = rb_capacity r" "rb_overwrite r'"
    "ringbuf_list r' = last_n (unat (rb_capacity r)) (ringbuf_list r @ [?v])"
    using le cap
    by (cases "unat (rb_count r) < unat (rb_capacity r)")
      (auto simp: ringbuf_pushed_def last_n_def drop_Suc tl_append2 ringbuf_list_Nil)
  from Cons.IH [OF r'(2,5)] Cons.prems(3) r'(3,4) obtain r'' where r'':
    "ringbuf_push_all r' es = Some r''" "ringbuf_inv r''"
    "ringbuf_list r'' = last_n (unat (rb_capacity r)) (ringbuf_list r' @ map (take (unat (rb_element_size r))) es)"
    by auto
  have "ringbuf_list r'' = last_n (unat (rb_capacity r)) (ringbuf_list r @ map (take (unat (rb_element_size r))) (e # es))"
    unfolding r''(3) r'(6) by simp
  then show ?case using r'(1) r''(1,2) by simp
qed

section \<open>Without overwrite the ring buffer is a first-in first-out store\<close>

definition ringbuf_put :: "scl_ringbuf_t \<Rightarrow> block \<Rightarrow> (scl_error_t \<times> scl_ringbuf_t) ub" where
  "ringbuf_put r e = do {
     (err, r') \<leftarrow> scl_ringbuf_push (Some r) (Some e);
     Some (err, the r')
   }"

definition ringbuf_take :: "scl_ringbuf_t \<Rightarrow> (scl_error_t \<times> scl_ringbuf_t \<times> block) ub" where
  "ringbuf_take r = do {
     (err, r', v) \<leftarrow> scl_ringbuf_pop (Some r) (Some (replicate (unat (rb_element_size r)) 0));
     Some (err, the r', the v)
   }"

interpretation ringbuf_store: fifo_store "\<lambda>r. ringbuf_inv r \<and> \<not> rb_overwrite r"
  "\<lambda>r. unat (rb_element_size r)" ringbuf_list ringbuf_put ringbuf_take
proof
  fix r and e :: block
  assume "ringbuf_inv r \<and> \<not> rb_overwrite r" and "unat (rb_element_size r) \<le> length e"
  then show "\<exists>err r'. ringbuf_put r e = Some (err, r') \<and> (ringbuf_inv r' \<and> \<not> rb_overwrite r') \<and>
    unat (rb_element_size r') = unat (rb_element_size r) \<and> err \<noteq> SCL_ERR_EMPTY \<and>
    ringbuf_list r' = (if err = SCL_OK then ringbuf_list r @ [take (unat (rb_element_size r)) e] else ringbuf_list r)"
    using ringbuf_push_spec [of r e]
    by (fastforce simp: ringbuf_put_def ringbuf_pushed_def split: if_splits)
next
  fix r
  assume "ringbuf_inv r \<and> \<not> rb_overwrite r" and "ringbuf_list r \<noteq> []"
  then show "\<exists>r'. ringbuf_take r = Some (SCL_OK, r', hd (ringbuf_list r)) \<and> (ringbuf_inv r' \<and> \<not> rb_overwrite r') \<and>
    unat (rb_element_size r') = unat (rb_element_size r) \<and> ringbuf_list r' = tl (ringbuf_list r)"
    using ringbuf_pop_spec [of r "replicate (unat (rb_element_size r)) 0"]
    by (auto simp: ringbuf_take_def ringbuf_list_Nil)
next
  fix r
  assume "ringbuf_list r = []"
  then show "\<exists>v. ringbuf_take r = Some (SCL_ERR_EMPTY, r, v)"
    by (simp add: ringbuf_take_def scl_ringbuf_pop_def ringbuf_list_Nil)
qed

end
