(* ===== verification/Scl_Slots.thy ===== *)
theory Scl_Slots
  imports Scl_Cmp
begin

text \<open>
  The setting of the algorithms that only move whole elements (sorts, searches, heaps, trees in
  arrays): an array is the list of its elements, an access checks its index, a loop is a
  combinator, and \<open>yields m P\<close> says that \<open>m\<close> runs without undefined behaviour and its result
  satisfies \<open>P\<close>. The rules for \<open>yields\<close> are the Hoare rules the loop proofs use.

  Element indices are natural numbers here: they index an array that exists, so they are below
  \<open>PTRDIFF_MAX\<close> and none of the sums the sources form (\<open>lo + (hi - lo) / 2\<close>, \<open>2 * i + 2\<close>) wraps. Where
  a count is only bounded by a caller's argument the theories use \<open>size_t\<close> words.
\<close>

section \<open>Results that exist\<close>

definition yields :: "'a ub \<Rightarrow> ('a \<Rightarrow> bool) \<Rightarrow> bool" where
  "yields m P \<longleftrightarrow> (case m of None \<Rightarrow> False | Some x \<Rightarrow> P x)"

named_theorems yields_intros \<open>introduction rules for results that exist\<close>

lemma yields_Some [simp]: "yields (Some x) P \<longleftrightarrow> P x"
  by (simp add: yields_def)

lemma yields_None [simp]: "\<not> yields None P"
  by (simp add: yields_def)

lemma yields_bind [simp]: "yields (m \<bind> f) P \<longleftrightarrow> yields m (\<lambda>x. yields (f x) P)"
  by (cases m) simp_all

lemma yields_if: "yields (if b then m else n) P \<longleftrightarrow> (if b then yields m P else yields n P)"
  by simp

lemma yields_mono: "yields m P \<Longrightarrow> (\<And>x. P x \<Longrightarrow> Q x) \<Longrightarrow> yields m Q"
  by (cases m) simp_all

lemma yields_bindI: "yields m P \<Longrightarrow> (\<And>x. P x \<Longrightarrow> yields (f x) Q) \<Longrightarrow> yields (m \<bind> f) Q"
  by (cases m) simp_all

lemma yields_conj: "yields m P \<Longrightarrow> yields m Q \<Longrightarrow> yields m (\<lambda>x. P x \<and> Q x)"
  by (cases m) simp_all

lemma yieldsE: "yields m P \<Longrightarrow> (\<And>x. m = Some x \<Longrightarrow> P x \<Longrightarrow> R) \<Longrightarrow> R"
  by (cases m) simp_all

lemma yields_iff: "yields m P \<longleftrightarrow> (\<exists>x. m = Some x \<and> P x)"
  by (cases m) simp_all

lemma yields_split [simp]: "yields m (\<lambda>(x, y). P x y) \<longleftrightarrow> (\<exists>x y. m = Some (x, y) \<and> P x y)"
  by (auto simp: yields_iff)

section \<open>Checked accesses\<close>

definition at :: "'a list \<Rightarrow> nat \<Rightarrow> 'a ub" where
  "at xs i = (if i < length xs then Some (xs ! i) else None)"

definition put_at :: "'a list \<Rightarrow> nat \<Rightarrow> 'a \<Rightarrow> 'a list ub" where
  "put_at xs i v = (if i < length xs then Some (xs[i := v]) else None)"

definition swap_at :: "'a list \<Rightarrow> nat \<Rightarrow> nat \<Rightarrow> 'a list ub" where
  "swap_at xs i j = (if i < length xs \<and> j < length xs then Some (xs[i := xs ! j, j := xs ! i]) else None)"

lemma at_in [simp]: "i < length xs \<Longrightarrow> at xs i = Some (xs ! i)"
  by (simp add: at_def)

lemma put_at_in [simp]: "i < length xs \<Longrightarrow> put_at xs i v = Some (xs[i := v])"
  by (simp add: put_at_def)

lemma swap_at_in [simp]:
  "i < length xs \<Longrightarrow> j < length xs \<Longrightarrow> swap_at xs i j = Some (xs[i := xs ! j, j := xs ! i])"
  by (simp add: swap_at_def)

lemma at_Some: "at xs i = Some v \<longleftrightarrow> i < length xs \<and> xs ! i = v"
  by (auto simp: at_def)

lemma nth_swap: "i < length xs \<Longrightarrow> j < length xs \<Longrightarrow>
  xs[i := xs ! j, j := xs ! i] ! k = (if k = i then xs ! j else if k = j then xs ! i else xs ! k)"
  by (cases "k < length xs") (auto simp: nth_list_update)

section \<open>Counting loops\<close>

text \<open>\<open>for (i = a; i < b; i++) s = body(i, s);\<close>\<close>

fun for_n :: "nat \<Rightarrow> nat \<Rightarrow> (nat \<Rightarrow> 's \<Rightarrow> 's ub) \<Rightarrow> 's \<Rightarrow> 's ub" where
  "for_n 0 i body s = Some s"
| "for_n (Suc n) i body s = do { s' \<leftarrow> body i s; for_n n (Suc i) body s' }"

definition for_up :: "nat \<Rightarrow> nat \<Rightarrow> (nat \<Rightarrow> 's \<Rightarrow> 's ub) \<Rightarrow> 's \<Rightarrow> 's ub" where
  "for_up a b body s = for_n (b - a) a body s"

text \<open>\<open>for (i = n; i > 0; i--) s = body(i, s);\<close>\<close>

fun for_down :: "nat \<Rightarrow> (nat \<Rightarrow> 's \<Rightarrow> 's ub) \<Rightarrow> 's \<Rightarrow> 's ub" where
  "for_down 0 body s = Some s"
| "for_down (Suc n) body s = do { s' \<leftarrow> body (Suc n) s; for_down n body s' }"

lemma for_n_inv:
  assumes "\<And>i s. a \<le> i \<Longrightarrow> i < a + n \<Longrightarrow> I i s \<Longrightarrow> yields (body i s) (I (Suc i))"
  shows "I a s \<Longrightarrow> yields (for_n n a body s) (I (a + n))"
  using assms
proof (induction n arbitrary: a s)
  case 0
  then show ?case by simp
next
  case (Suc n)
  have "yields (body a s) (I (Suc a))" using Suc.prems by simp
  then show ?case
  proof (rule yieldsE)
    fix t assume t: "body a s = Some t" "I (Suc a) t"
    have "yields (for_n n (Suc a) body t) (I (Suc a + n))"
      using t(2) by (intro Suc.IH) (auto intro: Suc.prems(2))
    then show ?thesis by (simp add: t(1))
  qed
qed

lemma for_up_inv:
  assumes "I a s" and "a \<le> b"
    and "\<And>i s. a \<le> i \<Longrightarrow> i < b \<Longrightarrow> I i s \<Longrightarrow> yields (body i s) (I (Suc i))"
  shows "yields (for_up a b body s) (I b)"
  using for_n_inv [of a "b - a" I body s] assms by (simp add: for_up_def)

lemma for_up_rule:
  assumes "I a s" and "a \<le> b"
    and "\<And>i s. a \<le> i \<Longrightarrow> i < b \<Longrightarrow> I i s \<Longrightarrow> yields (body i s) (I (Suc i))"
    and "\<And>s. I b s \<Longrightarrow> P s"
  shows "yields (for_up a b body s) P"
  using for_up_inv [of I, OF assms(1-3)] assms(4) by (rule yields_mono)

text \<open>Partial correctness, for what holds whenever a loop returns.\<close>

lemma for_n_partial:
  assumes "\<And>i s t. I i s \<Longrightarrow> a \<le> i \<Longrightarrow> i < a + n \<Longrightarrow> body i s = Some t \<Longrightarrow> I (Suc i) t"
  shows "for_n n a body s = Some t \<Longrightarrow> I a s \<Longrightarrow> I (a + n) t"
  using assms
proof (induction n arbitrary: a s)
  case 0
  then show ?case by simp
next
  case (Suc n)
  from Suc.prems(1) obtain s' where s': "body a s = Some s'" "for_n n (Suc a) body s' = Some t"
    by (auto simp: bind_eq_Some_conv)
  have "I (Suc a) s'" using Suc.prems(2) s'(1) Suc.prems(3) [of a s s'] by simp
  then have "I (Suc a + n) t" using s'(2) by (intro Suc.IH) (auto intro: Suc.prems(3))
  then show ?case by simp
qed

lemma for_up_partial:
  assumes "for_up a b body s = Some t" and "I a s" and "a \<le> b"
    and "\<And>i s t. I i s \<Longrightarrow> a \<le> i \<Longrightarrow> i < b \<Longrightarrow> body i s = Some t \<Longrightarrow> I (Suc i) t"
  shows "I b t"
  using for_n_partial [of I a "b - a" body s t] assms by (simp add: for_up_def)

lemma for_up_empty [simp]: "b \<le> a \<Longrightarrow> for_up a b body s = Some s"
  by (simp add: for_up_def)

lemma for_up_step: "a < b \<Longrightarrow> for_up a b body s = do { s' \<leftarrow> body a s; for_up (Suc a) b body s' }"
  unfolding for_up_def by (cases "b - a") (simp_all add: Suc_diff_Suc [symmetric] flip: diff_Suc_eq_diff_pred)

lemma for_up_cong:
  assumes "I a s" and "a \<le> b"
    and "\<And>i s. a \<le> i \<Longrightarrow> i < b \<Longrightarrow> I i s \<Longrightarrow> f i s = g i s \<and> yields (g i s) (I (Suc i))"
  shows "for_up a b f s = for_up a b g s"
  using assms
proof (induction "b - a" arbitrary: a s)
  case 0
  then show ?case by simp
next
  case (Suc n)
  have lt: "a < b" using Suc.hyps(2) by simp
  from Suc.prems(3) [of a s] Suc.prems(1) lt have "f a s = g a s" "yields (g a s) (I (Suc a))" by auto
  then obtain t where t: "g a s = Some t" "f a s = Some t" "I (Suc a) t" by (auto simp: yields_iff)
  have "for_up (Suc a) b f t = for_up (Suc a) b g t"
    using Suc.hyps lt t(3) Suc.prems(3) by (intro Suc.hyps(1)) auto
  then show ?case using lt t by (simp add: for_up_step)
qed

lemma for_down_inv:
  assumes "\<And>i s. 0 < i \<Longrightarrow> i \<le> n \<Longrightarrow> I i s \<Longrightarrow> yields (body i s) (I (i - 1))"
  shows "I n s \<Longrightarrow> yields (for_down n body s) (I 0)"
  using assms
proof (induction n arbitrary: s)
  case 0
  then show ?case by simp
next
  case (Suc n)
  have "yields (body (Suc n) s) (I n)" using Suc.prems(2) [of "Suc n" s] Suc.prems(1) by simp
  then show ?case
  proof (rule yieldsE)
    fix t assume t: "body (Suc n) s = Some t" "I n t"
    have "yields (for_down n body t) (I 0)" using t(2) Suc.prems(2) by (intro Suc.IH) simp_all
    then show ?thesis by (simp add: t(1))
  qed
qed

lemma for_down_rule:
  assumes "I n s" and "\<And>i s. 0 < i \<Longrightarrow> i \<le> n \<Longrightarrow> I i s \<Longrightarrow> yields (body i s) (I (i - 1))"
    and "\<And>s. I 0 s \<Longrightarrow> P s"
  shows "yields (for_down n body s) P"
  using for_down_inv [of n I body, OF assms(2,1)] assms(3) by (rule yields_mono)

subsection \<open>Running a loop on a concrete array\<close>

text \<open>Rules under which \<open>simp\<close> evaluates the loops on literal indices, one statement at a time.\<close>

named_theorems eval_simps \<open>evaluation of array programs on literals\<close>

lemma bind_weak_cong: "m = m' \<Longrightarrow> m \<bind> f = m' \<bind> f" for m :: "'a ub"
  by simp

lemma list_update_numeral [eval_simps]: "(x # xs)[numeral k := v] = x # xs[pred_numeral k := v]"
  by (simp add: numeral_eq_Suc)

lemma for_n_numeral [eval_simps]:
  "for_n (numeral k) i body s = do { s' \<leftarrow> body i s; for_n (pred_numeral k) (Suc i) body s' }"
  by (simp add: numeral_eq_Suc)

lemmas [eval_simps] = for_up_def at_def put_at_def swap_at_def

section \<open>Swapping the bytes of two elements\<close>

text \<open>The sources exchange two elements byte by byte (\<open>swap\<close> of the files under \<open>libs/sort\<close>) or in
  chunks of 8, 4, 2 and 1 bytes (\<open>scl_sort_swap\<close>, \<open>scl_heap_swap\<close>). Both are modelled on the two
  byte sequences and shown to exchange them, which is what \<open>swap_at\<close> does to whole elements.\<close>

fun swap :: "block \<Rightarrow> block \<Rightarrow> nat \<Rightarrow> (block \<times> block) ub" where
  "swap a b 0 = Some ([], [])"
| "swap (x # a) (y # b) (Suc n) = do { (a', b') \<leftarrow> swap a b n; Some (y # a', x # b') }"
| "swap _ _ (Suc n) = None"

definition swap_chunk :: "nat \<Rightarrow> block \<Rightarrow> block \<Rightarrow> (block \<times> block) ub" where
  "swap_chunk k a b =
     (if k \<le> length a \<and> k \<le> length b then Some (take k b @ drop k a, take k a @ drop k b) else None)"

function swap_words :: "block \<Rightarrow> block \<Rightarrow> size_t \<Rightarrow> size_t \<Rightarrow> (size_t \<times> size_t \<times> block \<times> block) ub" where
  "swap_words a b off n =
     (if 8 \<le> n then do {
        (a', b') \<leftarrow> swap_chunk 8 (drop (unat off) a) (drop (unat off) b);
        swap_words (take (unat off) a @ a') (take (unat off) b @ b') (off + 8) (n - 8)
      } else Some (off, n, a, b))"
  by pat_completeness auto
termination
proof (relation "measure (\<lambda>(a, b, off, n). unat n)", goal_cases)
  case (2 a b off n x a' b')
  then show ?case by (simp add: unat_diff_le word_le_unat)
qed simp

declare swap_words.simps [simp del]

text \<open>\<open>if (n & k) { t = *a; *a = *b; *b = t; a += k; b += k; }\<close>\<close>

definition swap_tail :: "size_t \<Rightarrow> size_t \<Rightarrow> block \<times> block \<Rightarrow> size_t \<Rightarrow> (size_t \<times> block \<times> block) ub" where
  "swap_tail n k ab off =
     (if n AND k \<noteq> 0 then do {
        (a', b') \<leftarrow> swap_chunk (unat k) (drop (unat off) (fst ab)) (drop (unat off) (snd ab));
        Some (off + k, take (unat off) (fst ab) @ a', take (unat off) (snd ab) @ b')
      } else Some (off, ab))"

definition scl_sort_swap :: "block \<Rightarrow> block \<Rightarrow> size_t \<Rightarrow> (block \<times> block) ub" where
  "scl_sort_swap a b n = do {
     (off, n, a, b) \<leftarrow> swap_words a b 0 n;
     (off, ab) \<leftarrow> swap_tail n 4 (a, b) off;
     (off, ab) \<leftarrow> swap_tail n 2 ab off;
     (off, ab) \<leftarrow> swap_tail n 1 ab off;
     Some ab
   }"

lemma swap_exchanges: "length a = n \<Longrightarrow> length b = n \<Longrightarrow> swap a b n = Some (b, a)"
proof (induction n arbitrary: a b)
  case 0
  then show ?case by simp
next
  case (Suc n)
  then obtain x a' y b' where "a = x # a'" "b = y # b'" by (cases a; cases b) auto
  then show ?case using Suc by simp
qed

text \<open>The progress of a chunked swap: the first \<open>k\<close> bytes are exchanged.\<close>

definition swapped_upto :: "block \<Rightarrow> block \<Rightarrow> nat \<Rightarrow> block \<times> block \<Rightarrow> bool" where
  "swapped_upto a b k ab \<longleftrightarrow> k \<le> length a \<and> ab = (take k b @ drop k a, take k a @ drop k b)"

lemma swapped_step:
  assumes "swapped_upto a b (unat off) ab" and "length b = length a" and "unat off + k \<le> length a"
  shows "\<exists>a' b'. swap_chunk k (drop (unat off) (fst ab)) (drop (unat off) (snd ab)) = Some (a', b') \<and>
    swapped_upto a b (unat off + k) (take (unat off) (fst ab) @ a', take (unat off) (snd ab) @ b')"
proof -
  let ?o = "unat off"
  have "?o \<le> length a" "?o \<le> length b" using assms(2,3) by simp_all
  then have ab: "fst ab = take ?o b @ drop ?o a" "snd ab = take ?o a @ drop ?o b"
    using assms(1) by (auto simp: swapped_upto_def)
  have "take (?o + k) b = take ?o b @ take k (drop ?o b)" "take (?o + k) a = take ?o a @ take k (drop ?o a)"
    by (simp_all add: take_add)
  then show ?thesis
    using assms(2,3) by (simp add: ab swap_chunk_def swapped_upto_def add.commute)
qed

lemma swap_words_spec:
  "swapped_upto a b (unat off) ab \<Longrightarrow> length b = length a \<Longrightarrow> unat off + unat n = length a \<Longrightarrow>
   length a < 2 ^ 64 \<Longrightarrow>
   \<exists>off' n' ab'. swap_words (fst ab) (snd ab) off n = Some (off', n', ab') \<and> n' < 8 \<and>
     swapped_upto a b (unat off') ab' \<and> unat off' + unat n' = length a"
proof (induction "unat n" arbitrary: n off ab rule: less_induct)
  case less
  show ?case
  proof (cases "8 \<le> n")
    case False
    then have "swap_words (fst ab) (snd ab) off n = Some (off, n, ab)" by (subst swap_words.simps) simp
    then show ?thesis using False less.prems by (auto simp: linorder_not_le)
  next
    case True
    then have n: "unat (n - 8) = unat n - 8" "8 \<le> unat n"
      by (simp_all add: unat_diff_le word_le_unat)
    then have off: "unat (off + 8) = unat off + 8"
      using less.prems(3,4) by (subst unat_add_bounded) simp_all
    from swapped_step [OF less.prems(1,2), of 8] n(2) less.prems(3) obtain a' b' where c:
      "swap_chunk 8 (drop (unat off) (fst ab)) (drop (unat off) (snd ab)) = Some (a', b')"
      "swapped_upto a b (unat (off + 8)) (take (unat off) (fst ab) @ a', take (unat off) (snd ab) @ b')"
      by (auto simp: off)
    have "\<exists>off' n' ab'. swap_words (take (unat off) (fst ab) @ a') (take (unat off) (snd ab) @ b') (off + 8) (n - 8)
        = Some (off', n', ab') \<and> n' < 8 \<and> swapped_upto a b (unat off') ab' \<and> unat off' + unat n' = length a"
      using less.hyps [of "n - 8" "off + 8" "(take (unat off) (fst ab) @ a', take (unat off) (snd ab) @ b')"]
        c(2) less.prems(2-4) n off by simp
    then show ?thesis using True c(1) by (subst swap_words.simps) simp
  qed
qed

definition bit_part :: "size_t \<Rightarrow> size_t \<Rightarrow> nat" where
  "bit_part n k = (if n AND k \<noteq> 0 then unat k else 0)"

lemma swap_tail_spec:
  assumes "swapped_upto a b (unat off) ab" and "length b = length a"
    and "unat off + bit_part n k \<le> length a" and "length a < 2 ^ 64"
  shows "\<exists>off' ab'. swap_tail n k ab off = Some (off', ab') \<and> swapped_upto a b (unat off') ab' \<and>
    unat off' = unat off + bit_part n k"
proof (cases "n AND k = 0")
  case True
  then show ?thesis using assms by (simp add: swap_tail_def bit_part_def)
next
  case False
  then have le: "unat off + unat k \<le> length a" using assms(3) by (simp add: bit_part_def)
  then have off: "unat (off + k) = unat off + unat k" using assms(4) by (subst unat_add_bounded) simp_all
  from swapped_step [OF assms(1,2) le] obtain a' b' where
    "swap_chunk (unat k) (drop (unat off) (fst ab)) (drop (unat off) (snd ab)) = Some (a', b')"
    "swapped_upto a b (unat off + unat k) (take (unat off) (fst ab) @ a', take (unat off) (snd ab) @ b')"
    by auto
  then show ?thesis using False by (simp add: swap_tail_def bit_part_def off)
qed

lemma bit_parts:
  assumes "(n::size_t) < 8"
  shows "bit_part n 4 + bit_part n 2 + bit_part n 1 = unat n"
proof -
  have "unat n < 8" using assms by (simp add: word_less_unat)
  moreover have "bit_part (of_nat k) 4 + bit_part (of_nat k) 2 + bit_part (of_nat k) 1 = k" if "k < 8" for k
  proof -
    have "k = 0 \<or> k = 1 \<or> k = 2 \<or> k = 3 \<or> k = 4 \<or> k = 5 \<or> k = 6 \<or> k = 7" using that by linarith
    then show ?thesis by (elim disjE) (simp_all add: bit_part_def)
  qed
  ultimately have "bit_part (of_nat (unat n)) 4 + bit_part (of_nat (unat n)) 2 + bit_part (of_nat (unat n)) 1 = unat n" by blast
  then show ?thesis by simp
qed

text \<open>Whatever the element size, the chunked swap exchanges all bytes of the two elements.\<close>

lemma scl_sort_swap_exchanges:
  assumes "length a = unat n" and "length b = unat n"
  shows "scl_sort_swap a b n = Some (b, a)"
proof -
  have len: "length a < 2 ^ 64" "length b = length a" using assms by simp_all
  have "swapped_upto a b (unat (0::size_t)) (a, b)" by (simp add: swapped_upto_def)
  from swap_words_spec [OF this len(2) _ len(1), of n] assms(1)
  obtain o1 m ab1 where 1: "swap_words a b 0 n = Some (o1, m, ab1)" "m < 8"
    "swapped_upto a b (unat o1) ab1" "unat o1 + unat m = length a" by auto
  note m = bit_parts [OF 1(2)]
  from swap_tail_spec [OF 1(3) len(2) _ len(1), of m 4] m 1(4) obtain o2 ab2 where
    2: "swap_tail m 4 ab1 o1 = Some (o2, ab2)" "swapped_upto a b (unat o2) ab2" "unat o2 = unat o1 + bit_part m 4"
    by auto
  from swap_tail_spec [OF 2(2) len(2) _ len(1), of m 2] m 1(4) 2(3) obtain o3 ab3 where
    3: "swap_tail m 2 ab2 o2 = Some (o3, ab3)" "swapped_upto a b (unat o3) ab3" "unat o3 = unat o2 + bit_part m 2"
    by auto
  from swap_tail_spec [OF 3(2) len(2) _ len(1), of m 1] m 1(4) 2(3) 3(3) obtain o4 ab4 where
    4: "swap_tail m 1 ab3 o3 = Some (o4, ab4)" "swapped_upto a b (unat o4) ab4" "unat o4 = unat o3 + bit_part m 1"
    by auto
  have "unat o4 = length a" using m 1(4) 2(3) 3(3) 4(3) by linarith
  then have "ab4 = (b, a)" using 4(2) len(2) by (simp add: swapped_upto_def)
  then show ?thesis using 1(1) 2(1) 3(1) 4(1) by (cases ab1) (simp add: scl_sort_swap_def)
qed

end
