(* ===== verification/Scl_Sort.thy ===== *)
theory Scl_Sort
  imports Scl_Slots
begin

text \<open>
  What the sorting routines of \<open>libs/sort\<close> promise, as a contract: on an array of \<open>count\<close> elements
  and a comparator they return \<open>SCL_OK\<close> with a sorted permutation, or fail to allocate and leave the
  array as it was; the stable ones also keep the order of equal elements, which determines their
  result completely. Then the quadratic sorts of \<open>scl_sort.c\<close> and of \<open>insertion/\<close>, \<open>bubble/\<close>,
  \<open>selection/\<close> and \<open>shell/\<close>, which differ between the two places only in the byte swap they use
  (both shown to exchange the elements in \<open>Scl_Slots\<close>).
\<close>

section \<open>The contract\<close>

definition eqv :: "('a \<Rightarrow> 'a \<Rightarrow> int) \<Rightarrow> 'a \<Rightarrow> 'a list \<Rightarrow> 'a list" where
  "eqv cmp v xs = filter (\<lambda>x. cmp x v = 0) xs"

definition same_order :: "('a \<Rightarrow> 'a \<Rightarrow> int) \<Rightarrow> 'a list \<Rightarrow> 'a list \<Rightarrow> bool" where
  "same_order cmp xs ys \<longleftrightarrow> (\<forall>v. eqv cmp v xs = eqv cmp v ys)"

lemma eqv_simps [simp]:
  "eqv cmp v [] = []"
  "eqv cmp v (x # xs) = (if cmp x v = 0 then x # eqv cmp v xs else eqv cmp v xs)"
  "eqv cmp v (xs @ ys) = eqv cmp v xs @ eqv cmp v ys"
  by (simp_all add: eqv_def)

lemma set_eqv [simp]: "set (eqv cmp v xs) = {x \<in> set xs. cmp x v = 0}"
  by (simp add: eqv_def)

lemma same_order_refl [simp]: "same_order cmp xs xs"
  by (simp add: same_order_def)

lemma same_order_trans [trans]: "same_order cmp xs ys \<Longrightarrow> same_order cmp ys zs \<Longrightarrow> same_order cmp xs zs"
  by (simp add: same_order_def)

lemma same_order_append: "same_order cmp xs xs' \<Longrightarrow> same_order cmp ys ys' \<Longrightarrow> same_order cmp (xs @ ys) (xs' @ ys')"
  by (simp add: same_order_def)

context comparator
begin

lemma sorted_Nil [simp]: "sorted_cmp cmp []"
  by (simp add: sorted_cmp_def)

lemma sorted_Cons: "sorted_cmp cmp (x # xs) \<longleftrightarrow> (\<forall>y \<in> set xs. cmp x y \<le> 0) \<and> sorted_cmp cmp xs"
  by (simp add: sorted_cmp_def le_cmp_def)

lemma sorted_append: "sorted_cmp cmp (xs @ ys) \<longleftrightarrow>
    sorted_cmp cmp xs \<and> sorted_cmp cmp ys \<and> (\<forall>x \<in> set xs. \<forall>y \<in> set ys. cmp x y \<le> 0)"
  by (auto simp: sorted_cmp_def le_cmp_def sorted_wrt_append)

lemma same_order_set:
  assumes "same_order cmp xs ys"
  shows "set xs = set ys"
proof -
  have s: "set zs = (\<Union>v. set (eqv cmp v zs))" for zs :: "'a list" by (auto intro: cmp_self)
  show ?thesis unfolding s [of xs] s [of ys] using assms by (simp add: same_order_def)
qed

text \<open>A sorted arrangement that keeps equal elements in order is unique.\<close>

lemma stable_unique:
  "sorted_cmp cmp xs \<Longrightarrow> sorted_cmp cmp ys \<Longrightarrow> same_order cmp xs ys \<Longrightarrow> xs = ys"
proof (induction xs arbitrary: ys)
  case Nil
  then show ?case using same_order_set [of "[]" ys] by simp
next
  case (Cons x xs)
  have set: "set (x # xs) = set ys" using Cons.prems(3) by (rule same_order_set)
  then obtain y ys' where ys: "ys = y # ys'" by (cases ys) auto
  have "cmp y x \<le> 0" "cmp x y \<le> 0"
    using set Cons.prems(1,2) unfolding ys sorted_Cons by (metis cmp_self insertE list.simps(15) order_refl insertI1)+
  then have xy: "cmp y x = 0" "cmp x x = 0" using cmp_swap [of y x] by auto
  have e: "eqv cmp v (x # xs) = eqv cmp v (y # ys')" for v using Cons.prems(3) by (simp add: same_order_def ys)
  from e [of x] xy have "x = y" by simp
  moreover have "same_order cmp xs ys'"
    unfolding same_order_def using e \<open>x = y\<close> by (metis eqv_simps(2) list.inject)
  ultimately show ?case using Cons ys by (simp add: sorted_Cons)
qed

end

locale sorter =
  fixes sort_fn :: "'a list ptr \<Rightarrow> nat \<Rightarrow> ('a \<Rightarrow> 'a \<Rightarrow> int) ptr \<Rightarrow> (scl_error_t \<times> 'a list ptr) ub"
  assumes null_base: "sort_fn None n c = Some (SCL_ERR_NULL_PTR, None)"
    and null_cmp: "sort_fn b n None = Some (SCL_ERR_NULL_PTR, b)"
    and sort_law: "comparator cmp \<Longrightarrow> length xs < object_limit \<Longrightarrow>
      \<exists>err ys. sort_fn (Some xs) (length xs) (Some cmp) = Some (err, Some ys) \<and>
        (if err = SCL_OK then mset ys = mset xs \<and> sorted_cmp cmp ys else alloc_failed err \<and> ys = xs)"
begin

text \<open>Whatever happens, the elements are the same.\<close>

lemma sort_permutes:
  assumes "comparator cmp" and "length xs < object_limit" and "sort_fn (Some xs) (length xs) (Some cmp) = Some (err, Some ys)"
  shows "mset ys = mset xs"
  using sort_law [OF assms(1,2)] assms(3) by (auto split: if_splits)

lemma sort_min:
  assumes "comparator cmp" and "length xs < object_limit"
    and "sort_fn (Some xs) (length xs) (Some cmp) = Some (SCL_OK, Some ys)" and "x \<in> set xs"
  shows "cmp (ys ! 0) x \<le> 0"
proof -
  from sort_law [OF assms(1,2)] assms(3) have ys: "mset ys = mset xs" "sorted_cmp cmp ys" by auto
  then have "x \<in> set ys" using assms(4) by (metis set_mset_mset)
  then obtain k where "k < length ys" "ys ! k = x" by (auto simp: in_set_conv_nth)
  then show ?thesis using ys(2) by (auto simp: comparator.sorted_cmp_nth [OF assms(1)])
qed

end

locale stable_sorter = sorter +
  assumes stable_law: "comparator cmp \<Longrightarrow> length xs < object_limit \<Longrightarrow>
      sort_fn (Some xs) (length xs) (Some cmp) = Some (SCL_OK, Some ys) \<Longrightarrow> same_order cmp xs ys"
begin

text \<open>A sorted array comes back unchanged.\<close>

lemma sort_sorted:
  assumes "comparator cmp" and "length xs < object_limit" and "sorted_cmp cmp xs"
    and "sort_fn (Some xs) (length xs) (Some cmp) = Some (SCL_OK, Some ys)"
  shows "ys = xs"
  using comparator.stable_unique [OF assms(1,3) _ stable_law [OF assms(1,2,4)]]
    sort_law [OF assms(1,2)] assms(4) by auto

text \<open>The result is determined by the contract alone.\<close>

lemma sort_result:
  assumes "comparator cmp" and "length xs < object_limit"
    and "sort_fn (Some xs) (length xs) (Some cmp) = Some (SCL_OK, Some ys)"
    and "sorted_cmp cmp zs" and "same_order cmp xs zs"
  shows "ys = zs"
proof (rule comparator.stable_unique [OF assms(1) _ assms(4)])
  show "sorted_cmp cmp ys" using sort_law [OF assms(1,2)] assms(3) by auto
  show "same_order cmp ys zs"
    using stable_law [OF assms(1-3)] assms(5) by (simp add: same_order_def)
qed

end

text \<open>A sort that needs no memory cannot fail.\<close>

locale in_place_sorter = sorter +
  assumes no_failure: "comparator cmp \<Longrightarrow> length xs < object_limit \<Longrightarrow>
      sort_fn (Some xs) (length xs) (Some cmp) = Some (err, b) \<Longrightarrow> err = SCL_OK"
begin

lemma sorts:
  assumes "comparator cmp" and "length xs < object_limit"
  obtains ys where "sort_fn (Some xs) (length xs) (Some cmp) = Some (SCL_OK, Some ys)"
    and "mset ys = mset xs" and "sorted_cmp cmp ys"
proof -
  from sort_law [OF assms] obtain err ys where "sort_fn (Some xs) (length xs) (Some cmp) = Some (err, Some ys)"
    "if err = SCL_OK then mset ys = mset xs \<and> sorted_cmp cmp ys else alloc_failed err \<and> ys = xs" by blast
  with no_failure [OF assms] that show thesis by (auto split: if_splits)
qed

end

locale in_place_stable_sorter = in_place_sorter + stable_sorter

section \<open>Insertion sort\<close>

text \<open>\<open>while (j > 0 && cmp(base[j], base[j - 1]) < 0) { swap(base[j], base[j - 1]); j--; }\<close>\<close>

fun insertion_sift :: "('a \<Rightarrow> 'a \<Rightarrow> int) \<Rightarrow> 'a list \<Rightarrow> nat \<Rightarrow> 'a list ub" where
  "insertion_sift cmp xs 0 = Some xs"
| "insertion_sift cmp xs (Suc j) = do {
     a \<leftarrow> at xs (Suc j);
     b \<leftarrow> at xs j;
     if cmp a b < 0 then do {
       xs' \<leftarrow> swap_at xs (Suc j) j;
       insertion_sift cmp xs' j
     } else Some xs
   }"

definition insertion_loop :: "('a \<Rightarrow> 'a \<Rightarrow> int) \<Rightarrow> nat \<Rightarrow> 'a list \<Rightarrow> 'a list ub" where
  "insertion_loop cmp cnt xs = for_up 1 cnt (\<lambda>i xs. insertion_sift cmp xs i) xs"

definition scl_sort_insertion :: "'a list ptr \<Rightarrow> nat \<Rightarrow> ('a \<Rightarrow> 'a \<Rightarrow> int) ptr \<Rightarrow> (scl_error_t \<times> 'a list ptr) ub" where
  "scl_sort_insertion base cnt cmp =
     (case (base, cmp) of
        (Some xs, Some c) \<Rightarrow>
          if cnt < 2 then Some (SCL_OK, base)
          else do { ys \<leftarrow> insertion_loop c cnt xs; Some (SCL_OK, Some ys) }
      | _ \<Rightarrow> Some (SCL_ERR_NULL_PTR, base))"

definition scl_sort_insertion_sort :: "'a list ptr \<Rightarrow> nat \<Rightarrow> ('a \<Rightarrow> 'a \<Rightarrow> int) ptr \<Rightarrow> (scl_error_t \<times> 'a list ptr) ub" where
  "scl_sort_insertion_sort base cnt cmp =
     (case (base, cmp) of
        (Some xs, Some c) \<Rightarrow>
          if cnt < 2 then Some (SCL_OK, base)
          else do { ys \<leftarrow> insertion_loop c cnt xs; Some (SCL_OK, Some ys) }
      | _ \<Rightarrow> Some (SCL_ERR_NULL_PTR, base))"

text \<open>The reference: insertion into a sorted list from its far end, here the head of the reversed
  prefix.\<close>

fun insr :: "('a \<Rightarrow> 'a \<Rightarrow> int) \<Rightarrow> 'a \<Rightarrow> 'a list \<Rightarrow> 'a list" where
  "insr cmp x [] = [x]"
| "insr cmp x (y # ys) = (if cmp x y < 0 then y # insr cmp x ys else x # y # ys)"

lemma insertion_sift_eq:
  "j < length xs \<Longrightarrow>
   insertion_sift cmp xs j = Some (rev (insr cmp (xs ! j) (rev (take j xs))) @ drop (Suc j) xs)"
proof (induction j arbitrary: xs)
  case 0
  then show ?case by (cases xs) auto
next
  case (Suc j)
  have split: "take (Suc j) xs = take j xs @ [xs ! j]" using Suc.prems by (simp add: take_Suc_conv_app_nth)
  show ?case
  proof (cases "cmp (xs ! Suc j) (xs ! j) < 0")
    case False
    then show ?thesis using Suc.prems by (simp add: split id_take_nth_drop [of "Suc j" xs, symmetric] Cons_nth_drop_Suc)
  next
    case True
    let ?xs = "xs[Suc j := xs ! j, j := xs ! Suc j]"
    have "insertion_sift cmp ?xs j
      = Some (rev (insr cmp (?xs ! j) (rev (take j ?xs))) @ drop (Suc j) ?xs)"
      using Suc.prems by (intro Suc.IH) simp
    moreover have "drop (Suc j) ?xs = xs ! j # drop (Suc (Suc j)) xs"
      using Suc.prems by (simp add: drop_update_swap Cons_nth_drop_Suc [symmetric])
    ultimately show ?thesis using True Suc.prems by (simp add: split)
  qed
qed

lemma mset_insr [simp]: "mset (insr cmp x ys) = add_mset x (mset ys)"
  by (induction ys) auto

context comparator
begin

lemma sorted_insr: "sorted_cmp cmp (rev ys) \<Longrightarrow> sorted_cmp cmp (rev (insr cmp x ys))"
proof (induction ys)
  case Nil
  then show ?case by (simp add: sorted_Cons)
next
  case (Cons y ys)
  have le: "cmp z x \<le> 0" if "cmp y x \<le> 0" "z \<in> set ys" for z
    using Cons.prems that cmp_trans [of z y x] by (simp add: sorted_append)
  have "set (insr cmp x ys) = insert x (set ys)" by (metis mset_insr set_mset_add_mset_insert set_mset_mset)
  then show ?case using Cons le cmp_le_iff [of x y] cmp_le_iff [of y x]
    by (auto simp: sorted_append sorted_Cons)
qed

lemma same_order_insr: "same_order cmp (rev (insr cmp x ys)) (rev ys @ [x])"
proof (induction ys)
  case Nil
  then show ?case by simp
next
  case (Cons y ys)
  have "\<not> (cmp x v = 0 \<and> cmp y v = 0)" if "cmp x y < 0" for v
    using cmp_trans [of y v x] cmp_zero_sym [of x v] cmp_swap [of x y] that by auto
  then show ?case using Cons by (auto simp: same_order_def)
qed

text \<open>One round: the sorted prefix grows by one element.\<close>

definition sorting :: "'a list \<Rightarrow> nat \<Rightarrow> 'a list \<Rightarrow> bool" where
  "sorting xs i ys \<longleftrightarrow> length ys = length xs \<and> mset ys = mset xs \<and> same_order cmp xs ys \<and> sorted_cmp cmp (take i ys)"

lemma insertion_round:
  assumes "sorting xs i ys" and "i < length xs"
  shows "yields (insertion_sift cmp ys i) (sorting xs (Suc i))"
proof -
  let ?zs = "rev (insr cmp (ys ! i) (rev (take i ys)))"
  have i: "i < length ys" and ys: "ys = take i ys @ ys ! i # drop (Suc i) ys"
    using assms by (auto simp: sorting_def id_take_nth_drop)
  have len: "length ?zs = Suc i" using i by (metis mset_insr length_rev length_take min_less_iff_conj min.absorb4 size_add_mset size_mset)
  have "mset (?zs @ drop (Suc i) ys) = mset ys" by (subst (3) ys) simp
  moreover have "same_order cmp (take i ys @ [ys ! i]) ?zs"
    using same_order_insr [of "ys ! i" "rev (take i ys)"] by (simp add: same_order_def)
  then have "same_order cmp ((take i ys @ [ys ! i]) @ drop (Suc i) ys) (?zs @ drop (Suc i) ys)"
    by (rule same_order_append) simp
  then have "same_order cmp ys (?zs @ drop (Suc i) ys)" using ys by simp
  ultimately show ?thesis
    using assms(1) len sorted_insr [of "rev (take i ys)" "ys ! i"] i
    by (auto simp: insertion_sift_eq sorting_def intro: same_order_trans)
qed

lemma insertion_loop_sorts:
  assumes "cnt = length xs" and "0 < cnt"
  shows "yields (insertion_loop cmp cnt xs) (\<lambda>ys. mset ys = mset xs \<and> sorted_cmp cmp ys \<and> same_order cmp xs ys)"
  unfolding insertion_loop_def
proof (rule for_up_rule [of "sorting xs"])
  show "sorting xs 1 xs" using assms by (cases xs) (auto simp: sorting_def sorted_Cons)
  show "1 \<le> cnt" using assms(2) by simp
  show "yields (insertion_sift cmp ys i) (sorting xs (Suc i))" if "1 \<le> i" "i < cnt" "sorting xs i ys" for i ys
    using insertion_round that assms(1) by simp
  show "mset ys = mset xs \<and> sorted_cmp cmp ys \<and> same_order cmp xs ys" if "sorting xs cnt ys" for ys
    using that assms(1) by (auto simp: sorting_def)
qed

lemma short_sorted: "length xs < 2 \<Longrightarrow> sorted_cmp cmp xs"
  by (cases xs; cases "tl xs") (auto simp: sorted_Cons)

end

text \<open>The shape all in-place sorts share: null checks, nothing to do below two elements, a loop.\<close>

definition run_sort :: "(('a \<Rightarrow> 'a \<Rightarrow> int) \<Rightarrow> nat \<Rightarrow> 'a list \<Rightarrow> 'a list ub) \<Rightarrow>
    'a list ptr \<Rightarrow> nat \<Rightarrow> ('a \<Rightarrow> 'a \<Rightarrow> int) ptr \<Rightarrow> (scl_error_t \<times> 'a list ptr) ub" where
  "run_sort loop base cnt cmp =
     (case (base, cmp) of
        (Some xs, Some c) \<Rightarrow>
          if cnt < 2 then Some (SCL_OK, base)
          else do { ys \<leftarrow> loop c cnt xs; Some (SCL_OK, Some ys) }
      | _ \<Rightarrow> Some (SCL_ERR_NULL_PTR, base))"

lemma run_sort_sorter:
  assumes "\<And>cmp xs. comparator cmp \<Longrightarrow> length xs < object_limit \<Longrightarrow> 2 \<le> length xs \<Longrightarrow>
    yields (loop cmp (length xs) xs) (\<lambda>ys. mset ys = mset xs \<and> sorted_cmp cmp ys)"
  shows "in_place_sorter (run_sort loop)"
proof
  show "run_sort loop None n c = Some (SCL_ERR_NULL_PTR, None)" for n c by (simp add: run_sort_def)
  show "run_sort loop b n None = Some (SCL_ERR_NULL_PTR, b)" for b n by (simp add: run_sort_def split: option.split)
next
  fix cmp :: "'a \<Rightarrow> 'a \<Rightarrow> int" and xs :: "'a list"
  assume c: "comparator cmp" and len: "length xs < object_limit"
  show "\<exists>err ys. run_sort loop (Some xs) (length xs) (Some cmp) = Some (err, Some ys) \<and>
    (if err = SCL_OK then mset ys = mset xs \<and> sorted_cmp cmp ys else alloc_failed err \<and> ys = xs)"
  proof (cases "length xs < 2")
    case True
    then show ?thesis using comparator.short_sorted [OF c] by (simp add: run_sort_def)
  next
    case False
    then have "yields (loop cmp (length xs) xs) (\<lambda>ys. mset ys = mset xs \<and> sorted_cmp cmp ys)"
      using assms [OF c len] by simp
    then show ?thesis using False by (auto simp: run_sort_def yields_iff)
  qed
  show "err = SCL_OK" if "run_sort loop (Some xs) (length xs) (Some cmp) = Some (err, b)" for err b
    using that by (auto simp: run_sort_def bind_eq_Some_conv split: if_splits)
qed

lemma run_sort_stable:
  assumes "\<And>cmp xs. comparator cmp \<Longrightarrow> length xs < object_limit \<Longrightarrow> 2 \<le> length xs \<Longrightarrow>
    yields (loop cmp (length xs) xs) (\<lambda>ys. mset ys = mset xs \<and> sorted_cmp cmp ys \<and> same_order cmp xs ys)"
  shows "in_place_stable_sorter (run_sort loop)"
proof -
  have ip: "in_place_sorter (run_sort loop)"
    by (rule run_sort_sorter) (rule yields_mono [OF assms], auto)
  moreover have "stable_sorter_axioms (run_sort loop)"
  proof
    fix cmp :: "'a \<Rightarrow> 'a \<Rightarrow> int" and xs ys :: "'a list"
    assume c: "comparator cmp" and len: "length xs < object_limit"
      and run: "run_sort loop (Some xs) (length xs) (Some cmp) = Some (SCL_OK, Some ys)"
    show "same_order cmp xs ys"
    proof (cases "length xs < 2")
      case True
      then show ?thesis using run by (simp add: run_sort_def)
    next
      case False
      then show ?thesis using assms [OF c len] run by (auto simp: run_sort_def yields_iff)
    qed
  qed
  ultimately show ?thesis
    by (intro in_place_stable_sorter.intro stable_sorter.intro in_place_sorter.axioms(1) [OF ip] ip)
qed

lemma insertion_run_sort:
  "scl_sort_insertion = run_sort insertion_loop" "scl_sort_insertion_sort = run_sort insertion_loop"
  by (intro ext, simp add: scl_sort_insertion_def scl_sort_insertion_sort_def run_sort_def)+

interpretation insertion: in_place_stable_sorter scl_sort_insertion
  unfolding insertion_run_sort
  by (rule run_sort_stable) (rule comparator.insertion_loop_sorts, auto)

interpretation insertion_sort: in_place_stable_sorter scl_sort_insertion_sort
  unfolding insertion_run_sort
  by (rule run_sort_stable) (rule comparator.insertion_loop_sorts, auto)

end
