(* ===== verification/Scl_Sort_Simple.thy ===== *)
theory Scl_Sort_Simple
  imports Scl_Sort
begin

text \<open>
  Bubble, selection and Shell sort of \<open>libs/sort/scl_sort.c\<close> and of \<open>bubble/\<close>, \<open>selection/\<close> and \<open>shell/\<close>.
  Bubble sort meets the stable contract, the other two the plain one. Shell sort is a sequence of
  permutations whose last round, with gap 1, is insertion sort.
\<close>

section \<open>Bubble sort\<close>

definition bubble_step :: "('a \<Rightarrow> 'a \<Rightarrow> int) \<Rightarrow> nat \<Rightarrow> 'a list \<times> bool \<Rightarrow> ('a list \<times> bool) ub" where
  "bubble_step cmp j st = do {
     a \<leftarrow> at (fst st) (j + 1);
     b \<leftarrow> at (fst st) j;
     if cmp a b < 0 then do { xs \<leftarrow> swap_at (fst st) j (j + 1); Some (xs, True) } else Some st
   }"

function bubble_loop :: "('a \<Rightarrow> 'a \<Rightarrow> int) \<Rightarrow> nat \<Rightarrow> nat \<Rightarrow> 'a list \<Rightarrow> 'a list ub" where
  "bubble_loop cmp cnt i xs =
     (if i < cnt - 1 then do {
        (xs, swapped) \<leftarrow> for_up 0 (cnt - 1 - i) (bubble_step cmp) (xs, False);
        if \<not> swapped then Some xs else bubble_loop cmp cnt (i + 1) xs
      } else Some xs)"
  by pat_completeness auto
termination by (relation "measure (\<lambda>(cmp, cnt, i, xs). cnt - i)") auto

declare bubble_loop.simps [simp del]

definition scl_sort_bubble :: "'a list ptr \<Rightarrow> nat \<Rightarrow> ('a \<Rightarrow> 'a \<Rightarrow> int) ptr \<Rightarrow> (scl_error_t \<times> 'a list ptr) ub" where
  "scl_sort_bubble base cnt cmp =
     (case (base, cmp) of
        (Some xs, Some c) \<Rightarrow>
          if cnt < 2 then Some (SCL_OK, base)
          else do { ys \<leftarrow> bubble_loop c cnt 0 xs; Some (SCL_OK, Some ys) }
      | _ \<Rightarrow> Some (SCL_ERR_NULL_PTR, base))"

definition scl_sort_bubble_sort :: "'a list ptr \<Rightarrow> nat \<Rightarrow> ('a \<Rightarrow> 'a \<Rightarrow> int) ptr \<Rightarrow> (scl_error_t \<times> 'a list ptr) ub" where
  "scl_sort_bubble_sort base cnt cmp =
     (case (base, cmp) of
        (Some xs, Some c) \<Rightarrow>
          if cnt < 2 then Some (SCL_OK, base)
          else do { ys \<leftarrow> bubble_loop c cnt 0 xs; Some (SCL_OK, Some ys) }
      | _ \<Rightarrow> Some (SCL_ERR_NULL_PTR, base))"

lemma swap_neighbours:
  assumes "Suc j < length xs"
  shows "xs[j := xs ! Suc j, Suc j := xs ! j] = take j xs @ [xs ! Suc j, xs ! j] @ drop (Suc (Suc j)) xs"
    and "xs = take j xs @ [xs ! j, xs ! Suc j] @ drop (Suc (Suc j)) xs"
proof -
  show xs: "xs = take j xs @ [xs ! j, xs ! Suc j] @ drop (Suc (Suc j)) xs"
    using assms by (simp add: Cons_nth_drop_Suc)
  have "length (take j xs) = j" using assms by simp
  then have "(take j xs @ [u, v] @ r)[j := a, Suc j := b] = take j xs @ [a, b] @ r" for u v a b r
    by (simp add: list_update_append)
  then show "xs[j := xs ! Suc j, Suc j := xs ! j] = take j xs @ [xs ! Suc j, xs ! j] @ drop (Suc (Suc j)) xs"
    using xs by metis
qed

context comparator
begin

lemma swap_same_order:
  assumes "Suc j < length xs" and "cmp (xs ! Suc j) (xs ! j) < 0"
  shows "same_order cmp xs (xs[j := xs ! Suc j, Suc j := xs ! j])"
proof -
  have "\<not> (cmp (xs ! Suc j) v = 0 \<and> cmp (xs ! j) v = 0)" for v
    using cmp_trans [of "xs ! j" v "xs ! Suc j"] cmp_zero_sym [of "xs ! Suc j" v] cmp_swap [of "xs ! Suc j" "xs ! j"] assms(2)
    by auto
  then have "same_order cmp [xs ! j, xs ! Suc j] [xs ! Suc j, xs ! j]" by (auto simp: same_order_def)
  then have "same_order cmp (take j xs @ [xs ! j, xs ! Suc j] @ drop (Suc (Suc j)) xs)
      (take j xs @ [xs ! Suc j, xs ! j] @ drop (Suc (Suc j)) xs)"
    by (intro same_order_append) simp_all
  then show ?thesis using swap_neighbours [OF assms(1)] by metis
qed

lemma sorted_take_Suc:
  assumes "sorted_cmp cmp (take (Suc j) xs)" and "Suc j < length xs" and "cmp (xs ! j) (xs ! Suc j) \<le> 0"
  shows "sorted_cmp cmp (take (Suc (Suc j)) xs)"
proof (rule sorted_cmp_adjacent)
  fix i assume i: "Suc i < length (take (Suc (Suc j)) xs)"
  show "cmp (take (Suc (Suc j)) xs ! i) (take (Suc (Suc j)) xs ! Suc i) \<le> 0"
  proof (cases "i = j")
    case True
    then show ?thesis using assms(2,3) by simp
  next
    case False
    then have "i < j" using i by simp
    moreover have "cmp (take (Suc j) xs ! i) (take (Suc j) xs ! Suc i) \<le> 0"
      using assms(1,2) \<open>i < j\<close> unfolding sorted_cmp_nth by (metis Suc_mono le_SucI length_take less_SucI min.absorb4 order_refl)
    ultimately show ?thesis by simp
  qed
qed

text \<open>A pass over the first \<open>m\<close> pairs moves a maximum of the first \<open>m + 1\<close> elements to position \<open>m\<close>,
  touches nothing behind it, and reports no swap only if that prefix was sorted.\<close>

definition bubbled :: "'a list \<Rightarrow> nat \<Rightarrow> nat \<Rightarrow> 'a list \<times> bool \<Rightarrow> bool" where
  "bubbled xs m j st \<longleftrightarrow> (case st of (ys, sw) \<Rightarrow>
     length ys = length xs \<and> mset ys = mset xs \<and> same_order cmp xs ys \<and>
     drop (Suc m) ys = drop (Suc m) xs \<and> (\<forall>k \<le> j. cmp (ys ! k) (ys ! j) \<le> 0) \<and>
     (\<not> sw \<longrightarrow> ys = xs \<and> sorted_cmp cmp (take (Suc j) xs)))"

lemma bubble_step_inv:
  assumes "bubbled xs m j st" and "j < m" and "m < length xs"
  shows "yields (bubble_step cmp j st) (bubbled xs m (Suc j))"
proof -
  obtain ys sw where st: "st = (ys, sw)" by (cases st)
  have inv: "length ys = length xs" "mset ys = mset xs" "same_order cmp xs ys" "drop (Suc m) ys = drop (Suc m) xs"
    "\<forall>k \<le> j. cmp (ys ! k) (ys ! j) \<le> 0" "\<not> sw \<longrightarrow> ys = xs \<and> sorted_cmp cmp (take (Suc j) xs)"
    using assms(1) by (auto simp: bubbled_def st)
  have j: "Suc j < length ys" using assms(2,3) inv(1) by simp
  show ?thesis
  proof (cases "cmp (ys ! Suc j) (ys ! j) < 0")
    case True
    let ?zs = "ys[j := ys ! Suc j, Suc j := ys ! j]"
    have "\<forall>k \<le> Suc j. cmp (?zs ! k) (?zs ! Suc j) \<le> 0"
      using inv(5) True j by (auto simp: nth_list_update le_Suc_eq)
    moreover have "mset ?zs = mset xs" using j inv(2) by (simp add: mset_swap)
    moreover have "drop (Suc m) ?zs = drop (Suc m) xs" using inv(4) assms(2) by simp
    moreover have "same_order cmp xs ?zs" using inv(3) swap_same_order [OF j True] by (rule same_order_trans)
    ultimately show ?thesis using True j inv(1) by (simp add: bubble_step_def bubbled_def st)
  next
    case False
    then have "cmp (ys ! j) (ys ! Suc j) \<le> 0" using cmp_swap [of "ys ! Suc j" "ys ! j"] by linarith
    then have le: "\<forall>k \<le> Suc j. cmp (ys ! k) (ys ! Suc j) \<le> 0"
      using inv(5) cmp_trans by (metis cmp_self le_Suc_eq order_refl)
    moreover have "\<not> sw \<longrightarrow> ys = xs \<and> sorted_cmp cmp (take (Suc (Suc j)) xs)"
      using inv(6) sorted_take_Suc j \<open>cmp (ys ! j) (ys ! Suc j) \<le> 0\<close> by blast
    ultimately show ?thesis using False j inv(1-4) by (simp add: bubble_step_def bubbled_def st)
  qed
qed

lemma bubble_pass:
  assumes "m < length xs"
  shows "yields (for_up 0 m (bubble_step cmp) (xs, False)) (bubbled xs m m)"
proof (rule for_up_inv [of "bubbled xs m"])
  show "bubbled xs m 0 (xs, False)" using assms by (cases xs) (auto simp: bubbled_def sorted_Cons)
qed (use bubble_step_inv assms in auto)

text \<open>After \<open>i\<close> passes the last \<open>i\<close> elements are in place.\<close>

definition settled :: "nat \<Rightarrow> 'a list \<Rightarrow> bool" where
  "settled k xs \<longleftrightarrow> sorted_cmp cmp (drop k xs) \<and> (\<forall>x \<in> set (take k xs). \<forall>y \<in> set (drop k xs). cmp x y \<le> 0)"

lemma settled_sorted: "settled k xs \<Longrightarrow> sorted_cmp cmp (take k xs) \<Longrightarrow> sorted_cmp cmp xs"
  unfolding settled_def by (metis append_take_drop_id sorted_append)

lemma bubble_settles:
  assumes "bubbled xs m m (ys, sw)" and "m < length xs" and "settled (Suc m) xs"
  shows "settled m ys"
proof -
  have len: "length ys = length xs" and d: "drop (Suc m) ys = drop (Suc m) xs"
    and max: "\<forall>k \<le> m. cmp (ys ! k) (ys ! m) \<le> 0" and m: "mset ys = mset xs"
    using assms(1) by (auto simp: bubbled_def)
  have "mset (take (Suc m) ys) = mset (take (Suc m) xs)"
    using m d by (metis append_take_drop_id mset_append add_right_cancel)
  then have front: "set (take (Suc m) ys) = set (take (Suc m) xs)" by (metis set_mset_mset)
  have dm: "drop m ys = ys ! m # drop (Suc m) ys" using assms(2) len by (simp add: Cons_nth_drop_Suc)
  have tm: "set (take (Suc m) ys) = insert (ys ! m) (set (take m ys))"
    using assms(2) len by (simp add: take_Suc_conv_app_nth)
  have "cmp x (ys ! m) \<le> 0" if "x \<in> set (take m ys)" for x
  proof -
    from that obtain k where "k < m" "x = ys ! k" using assms(2) len by (auto simp: in_set_conv_nth)
    then show ?thesis using max by simp
  qed
  then show ?thesis
    using assms(3) front unfolding settled_def dm d tm sorted_Cons by auto
qed

lemma bubble_loop_spec:
  "mset xs = mset zs \<Longrightarrow> same_order cmp zs xs \<Longrightarrow> settled (length xs - i) xs \<Longrightarrow> 2 \<le> length xs \<Longrightarrow> i \<le> length xs - 1 \<Longrightarrow>
   yields (bubble_loop cmp (length xs) i xs) (\<lambda>ys. mset ys = mset zs \<and> sorted_cmp cmp ys \<and> same_order cmp zs ys)"
proof (induction "length xs - 1 - i" arbitrary: i xs)
  case 0
  then have "length xs - i = 1" by simp
  then have "sorted_cmp cmp xs"
    using settled_sorted [OF "0.prems"(3)] by (cases xs) (auto simp: sorted_Cons)
  moreover have "bubble_loop cmp (length xs) i xs = Some xs" using 0 by (simp add: bubble_loop.simps)
  ultimately show ?case using "0.prems" by simp
next
  case (Suc d)
  let ?m = "length xs - 1 - i"
  have m: "?m < length xs" "Suc ?m = length xs - i" "i < length xs - 1" using Suc by simp_all
  from bubble_pass [OF m(1)] obtain ys sw where
    run: "for_up 0 ?m (bubble_step cmp) (xs, False) = Some (ys, sw)" and b: "bubbled xs ?m ?m (ys, sw)"
    by (auto simp: yields_iff)
  have len: "length ys = length xs" and ms: "mset ys = mset zs" and so: "same_order cmp zs ys"
    using b Suc.prems(1,2) by (auto simp: bubbled_def intro: same_order_trans)
  show ?case
  proof (cases sw)
    case False
    then have "ys = xs" "sorted_cmp cmp (take (length xs - i) xs)" using b m(2) by (simp_all add: bubbled_def)
    then have "sorted_cmp cmp ys" using settled_sorted [OF Suc.prems(3)] by simp
    then show ?thesis using False run ms so m(3) by (subst bubble_loop.simps) simp
  next
    case True
    have "settled (length ys - (i + 1)) ys" using bubble_settles [OF b m(1)] Suc.prems(3) m(2) len by simp
    then have "yields (bubble_loop cmp (length ys) (i + 1) ys)
        (\<lambda>ys. mset ys = mset zs \<and> sorted_cmp cmp ys \<and> same_order cmp zs ys)"
      using Suc.hyps(2) Suc.prems(4) m(3) len ms so by (intro Suc.hyps(1)) simp_all
    then show ?thesis using True run m(3) len by (subst bubble_loop.simps) simp
  qed
qed

end

lemma bubble_run_sort:
  "scl_sort_bubble = run_sort (\<lambda>cmp cnt. bubble_loop cmp cnt 0)"
  "scl_sort_bubble_sort = run_sort (\<lambda>cmp cnt. bubble_loop cmp cnt 0)"
  by (intro ext, simp add: scl_sort_bubble_def scl_sort_bubble_sort_def run_sort_def)+

lemma bubble_loop_sorts:
  "comparator cmp \<Longrightarrow> 2 \<le> length xs \<Longrightarrow>
   yields (bubble_loop cmp (length xs) 0 xs) (\<lambda>ys. mset ys = mset xs \<and> sorted_cmp cmp ys \<and> same_order cmp xs ys)"
  by (rule comparator.bubble_loop_spec) (auto simp: comparator.settled_def comparator.sorted_Nil)

interpretation bubble: in_place_stable_sorter scl_sort_bubble
  unfolding bubble_run_sort by (rule run_sort_stable) (rule bubble_loop_sorts)

interpretation bubble_sort: in_place_stable_sorter scl_sort_bubble_sort
  unfolding bubble_run_sort by (rule run_sort_stable) (rule bubble_loop_sorts)

section \<open>Selection sort\<close>

definition selection_min :: "('a \<Rightarrow> 'a \<Rightarrow> int) \<Rightarrow> nat \<Rightarrow> 'a list \<Rightarrow> nat \<Rightarrow> nat ub" where
  "selection_min cmp cnt xs i =
     for_up (i + 1) cnt (\<lambda>j min_idx. do {
       a \<leftarrow> at xs j;
       b \<leftarrow> at xs min_idx;
       Some (if cmp a b < 0 then j else min_idx)
     }) i"

definition selection_loop :: "('a \<Rightarrow> 'a \<Rightarrow> int) \<Rightarrow> nat \<Rightarrow> 'a list \<Rightarrow> 'a list ub" where
  "selection_loop cmp cnt xs =
     for_up 0 (cnt - 1) (\<lambda>i xs. do {
       min_idx \<leftarrow> selection_min cmp cnt xs i;
       if min_idx \<noteq> i then swap_at xs i min_idx else Some xs
     }) xs"

definition scl_sort_selection :: "'a list ptr \<Rightarrow> nat \<Rightarrow> ('a \<Rightarrow> 'a \<Rightarrow> int) ptr \<Rightarrow> (scl_error_t \<times> 'a list ptr) ub" where
  "scl_sort_selection base cnt cmp =
     (case (base, cmp) of
        (Some xs, Some c) \<Rightarrow>
          if cnt < 2 then Some (SCL_OK, base)
          else do { ys \<leftarrow> selection_loop c cnt xs; Some (SCL_OK, Some ys) }
      | _ \<Rightarrow> Some (SCL_ERR_NULL_PTR, base))"

definition scl_sort_selection_sort :: "'a list ptr \<Rightarrow> nat \<Rightarrow> ('a \<Rightarrow> 'a \<Rightarrow> int) ptr \<Rightarrow> (scl_error_t \<times> 'a list ptr) ub" where
  "scl_sort_selection_sort base cnt cmp =
     (case (base, cmp) of
        (Some xs, Some c) \<Rightarrow>
          if cnt < 2 then Some (SCL_OK, base)
          else do { ys \<leftarrow> selection_loop c cnt xs; Some (SCL_OK, Some ys) }
      | _ \<Rightarrow> Some (SCL_ERR_NULL_PTR, base))"

context comparator
begin

lemma selection_min_spec:
  assumes "cnt = length xs" and "i < cnt"
  shows "yields (selection_min cmp cnt xs i) (\<lambda>m. i \<le> m \<and> m < cnt \<and> (\<forall>k. i \<le> k \<and> k < cnt \<longrightarrow> cmp (xs ! m) (xs ! k) \<le> 0))"
  unfolding selection_min_def
proof (rule for_up_inv [of "\<lambda>j m. i \<le> m \<and> m < cnt \<and> (\<forall>k. i \<le> k \<and> k < j \<longrightarrow> cmp (xs ! m) (xs ! k) \<le> 0)"])
  show "i \<le> i \<and> i < cnt \<and> (\<forall>k. i \<le> k \<and> k < i + 1 \<longrightarrow> cmp (xs ! i) (xs ! k) \<le> 0)"
    using assms(2) by (auto simp: less_Suc_eq_le dest: antisym)
next
  fix j m
  assume j: "i + 1 \<le> j" "j < cnt" and inv: "i \<le> m \<and> m < cnt \<and> (\<forall>k. i \<le> k \<and> k < j \<longrightarrow> cmp (xs ! m) (xs ! k) \<le> 0)"
  have "cmp (xs ! j) (xs ! k) \<le> 0" if "cmp (xs ! j) (xs ! m) < 0" "i \<le> k" "k < j" for k
    using that inv cmp_trans [of "xs ! j" "xs ! m" "xs ! k"] by simp
  moreover have "cmp (xs ! m) (xs ! j) \<le> 0" if "\<not> cmp (xs ! j) (xs ! m) < 0"
    using that cmp_swap [of "xs ! j" "xs ! m"] by linarith
  ultimately show "yields (do { a \<leftarrow> at xs j; b \<leftarrow> at xs m; Some (if cmp a b < 0 then j else m) })
      (\<lambda>m. i \<le> m \<and> m < cnt \<and> (\<forall>k. i \<le> k \<and> k < Suc j \<longrightarrow> cmp (xs ! m) (xs ! k) \<le> 0))"
    using j inv assms(1) by (auto simp: less_Suc_eq)
qed (use assms in simp)

lemma selection_loop_sorts:
  assumes cnt: "cnt = length xs" and "2 \<le> cnt"
  shows "yields (selection_loop cmp cnt xs) (\<lambda>ys. mset ys = mset xs \<and> sorted_cmp cmp ys)"
  unfolding selection_loop_def
proof (rule for_up_rule [of "\<lambda>i ys. length ys = cnt \<and> mset ys = mset xs \<and>
    (\<forall>a b. a < i \<and> a \<le> b \<and> b < cnt \<longrightarrow> cmp (ys ! a) (ys ! b) \<le> 0)"])
  fix i ys
  assume i: "0 \<le> i" "i < cnt - 1" and inv: "length ys = cnt \<and> mset ys = mset xs \<and>
    (\<forall>a b. a < i \<and> a \<le> b \<and> b < cnt \<longrightarrow> cmp (ys ! a) (ys ! b) \<le> 0)"
  have "i < cnt" using i by simp
  from selection_min_spec [OF _ this, of ys] inv obtain m where m: "selection_min cmp cnt ys i = Some m"
    "i \<le> m" "m < cnt" "\<forall>k. i \<le> k \<and> k < cnt \<longrightarrow> cmp (ys ! m) (ys ! k) \<le> 0"
    by (auto simp: yields_iff)
  let ?zs = "ys[i := ys ! m, m := ys ! i]"
  have "cmp (?zs ! a) (?zs ! b) \<le> 0" if ab: "a < Suc i" "a \<le> b" "b < cnt" for a b
  proof (cases "a = i")
    case True
    then show ?thesis using m ab \<open>i < cnt\<close> inv by (simp add: nth_swap)
  next
    case False
    then have "a < i" using ab(1) by simp
    then show ?thesis using m(2,3) ab inv \<open>i < cnt\<close> by (simp add: nth_swap)
  qed
  moreover have "mset ?zs = mset xs" using inv m(3) \<open>i < cnt\<close> by (simp add: mset_swap)
  moreover have "(if m \<noteq> i then swap_at ys i m else Some ys) = Some ?zs"
    using m(3) \<open>i < cnt\<close> inv by simp
  ultimately show "yields (do { min_idx \<leftarrow> selection_min cmp cnt ys i; if min_idx \<noteq> i then swap_at ys i min_idx else Some ys })
      (\<lambda>ys. length ys = cnt \<and> mset ys = mset xs \<and> (\<forall>a b. a < Suc i \<and> a \<le> b \<and> b < cnt \<longrightarrow> cmp (ys ! a) (ys ! b) \<le> 0))"
    using m(1) inv by simp
next
  fix ys
  assume inv: "length ys = cnt \<and> mset ys = mset xs \<and>
    (\<forall>a b. a < cnt - 1 \<and> a \<le> b \<and> b < cnt \<longrightarrow> cmp (ys ! a) (ys ! b) \<le> 0)"
  then have "sorted_cmp cmp ys" by (intro sorted_cmp_adjacent) auto
  then show "mset ys = mset xs \<and> sorted_cmp cmp ys" using inv by simp
qed (use cnt in simp_all)

end

lemma selection_run_sort:
  "scl_sort_selection = run_sort selection_loop" "scl_sort_selection_sort = run_sort selection_loop"
  by (intro ext, simp add: scl_sort_selection_def scl_sort_selection_sort_def run_sort_def)+

interpretation selection: in_place_sorter scl_sort_selection
  unfolding selection_run_sort by (rule run_sort_sorter) (rule comparator.selection_loop_sorts, simp_all)

interpretation selection_sort: in_place_sorter scl_sort_selection_sort
  unfolding selection_run_sort by (rule run_sort_sorter) (rule comparator.selection_loop_sorts, simp_all)

section \<open>Shell sort\<close>

text \<open>The inner \<open>while\<close>. With gap 0 it would not end, hence no result; the loop over the gaps stops
  before that.\<close>

function shell_sift :: "('a \<Rightarrow> 'a \<Rightarrow> int) \<Rightarrow> nat \<Rightarrow> 'a list \<Rightarrow> nat \<Rightarrow> 'a list ub" where
  "shell_sift cmp gap xs j =
     (if gap = 0 then None
      else if gap \<le> j then do {
        a \<leftarrow> at xs j;
        b \<leftarrow> at xs (j - gap);
        if cmp a b < 0 then do { xs' \<leftarrow> swap_at xs j (j - gap); shell_sift cmp gap xs' (j - gap) } else Some xs
      } else Some xs)"
  by pat_completeness auto
termination by (relation "measure (\<lambda>(cmp, gap, xs, j). j)") auto

declare shell_sift.simps [simp del]

function shell_loop :: "('a \<Rightarrow> 'a \<Rightarrow> int) \<Rightarrow> nat \<Rightarrow> nat \<Rightarrow> 'a list \<Rightarrow> 'a list ub" where
  "shell_loop cmp cnt gap xs =
     (if 0 < gap then do {
        xs \<leftarrow> for_up gap cnt (\<lambda>i xs. shell_sift cmp gap xs i) xs;
        shell_loop cmp cnt (gap div 2) xs
      } else Some xs)"
  by pat_completeness auto
termination by (relation "measure (\<lambda>(cmp, cnt, gap, xs). gap)") auto

declare shell_loop.simps [simp del]

definition scl_sort_shell :: "'a list ptr \<Rightarrow> nat \<Rightarrow> ('a \<Rightarrow> 'a \<Rightarrow> int) ptr \<Rightarrow> (scl_error_t \<times> 'a list ptr) ub" where
  "scl_sort_shell base cnt cmp =
     (case (base, cmp) of
        (Some xs, Some c) \<Rightarrow>
          if cnt < 2 then Some (SCL_OK, base)
          else do { ys \<leftarrow> shell_loop c cnt (cnt div 2) xs; Some (SCL_OK, Some ys) }
      | _ \<Rightarrow> Some (SCL_ERR_NULL_PTR, base))"

definition scl_sort_shell_sort :: "'a list ptr \<Rightarrow> nat \<Rightarrow> ('a \<Rightarrow> 'a \<Rightarrow> int) ptr \<Rightarrow> (scl_error_t \<times> 'a list ptr) ub" where
  "scl_sort_shell_sort base cnt cmp =
     (case (base, cmp) of
        (Some xs, Some c) \<Rightarrow>
          if cnt < 2 then Some (SCL_OK, base)
          else do { ys \<leftarrow> shell_loop c cnt (cnt div 2) xs; Some (SCL_OK, Some ys) }
      | _ \<Rightarrow> Some (SCL_ERR_NULL_PTR, base))"

lemma shell_sift_permutes:
  "0 < gap \<Longrightarrow> j < length xs \<Longrightarrow> yields (shell_sift cmp gap xs j) (\<lambda>ys. length ys = length xs \<and> mset ys = mset xs)"
proof (induction cmp gap xs j rule: shell_sift.induct)
  case (1 cmp gap xs j)
  show ?case
  proof (cases "gap \<le> j \<and> cmp (xs ! j) (xs ! (j - gap)) < 0")
    case False
    then show ?thesis using 1 by (subst shell_sift.simps) auto
  next
    case True
    let ?ys = "xs[j := xs ! (j - gap), j - gap := xs ! j]"
    have "yields (shell_sift cmp gap ?ys (j - gap)) (\<lambda>ys. length ys = length ?ys \<and> mset ys = mset ?ys)"
      using 1 True by (intro "1.IH" [of "xs ! j" "xs ! (j - gap)"]) auto
    then show ?thesis using 1 True by (subst shell_sift.simps) (simp add: mset_swap)
  qed
qed

lemma shell_sift_one: "j < length xs \<Longrightarrow> shell_sift cmp 1 xs j = insertion_sift cmp xs j"
proof (induction j arbitrary: xs)
  case 0
  then show ?case by (subst shell_sift.simps) simp
next
  case (Suc j)
  then show ?case by (subst shell_sift.simps) simp
qed

context comparator
begin

lemma shell_loop_sorts:
  "0 < gap \<Longrightarrow> 2 \<le> cnt \<Longrightarrow> cnt = length xs \<Longrightarrow> gap \<le> cnt \<Longrightarrow>
   yields (shell_loop cmp cnt gap xs) (\<lambda>ys. mset ys = mset xs \<and> sorted_cmp cmp ys)"
proof (induction gap arbitrary: xs rule: less_induct)
  case (less gap)
  show ?case
  proof (cases "gap = 1")
    case True
    have "for_up 1 cnt (\<lambda>i xs. shell_sift cmp 1 xs i) xs = insertion_loop cmp cnt xs"
      unfolding insertion_loop_def
    proof (rule for_up_cong [of "sorting xs"])
      show "sorting xs 1 xs" using less.prems(2,3) by (cases xs) (auto simp: sorting_def sorted_Cons)
      show "shell_sift cmp 1 ys i = insertion_sift cmp ys i \<and> yields (insertion_sift cmp ys i) (sorting xs (Suc i))"
        if "1 \<le> i" "i < cnt" "sorting xs i ys" for i ys
        using insertion_round [OF that(3)] shell_sift_one [of i ys] that less.prems(3) by (simp add: sorting_def)
    qed (use less.prems(2) in simp)
    moreover have "yields (insertion_loop cmp cnt xs) (\<lambda>ys. mset ys = mset xs \<and> sorted_cmp cmp ys)"
      by (rule yields_mono [OF insertion_loop_sorts]) (use less.prems in auto)
    moreover have "shell_loop cmp cnt (1 div 2) ys = Some ys" for ys by (subst shell_loop.simps) simp
    ultimately show ?thesis using True by (subst shell_loop.simps) (auto simp: yields_iff)
  next
    case False
    have "yields (for_up gap cnt (\<lambda>i xs. shell_sift cmp gap xs i) xs) (\<lambda>ys. length ys = cnt \<and> mset ys = mset xs)"
    proof (rule for_up_inv [of "\<lambda>i ys. length ys = cnt \<and> mset ys = mset xs"])
      show "yields (shell_sift cmp gap ys i) (\<lambda>zs. length zs = cnt \<and> mset zs = mset xs)"
        if "i < cnt" "length ys = cnt \<and> mset ys = mset xs" for i ys
        using shell_sift_permutes [of gap i ys cmp] less.prems(1) that by simp
    qed (use less.prems in simp_all)
    then show ?thesis
    proof (rule yieldsE)
      fix ys assume run: "for_up gap cnt (\<lambda>i xs. shell_sift cmp gap xs i) xs = Some ys"
        and ys: "length ys = cnt \<and> mset ys = mset xs"
      have "yields (shell_loop cmp cnt (gap div 2) ys) (\<lambda>zs. mset zs = mset ys \<and> sorted_cmp cmp zs)"
        using less.prems False ys by (intro less.IH) auto
      then show ?thesis using run ys less.prems(1) by (subst shell_loop.simps) simp
    qed
  qed
qed

end

lemma shell_run_sort:
  "scl_sort_shell = run_sort (\<lambda>cmp cnt. shell_loop cmp cnt (cnt div 2))"
  "scl_sort_shell_sort = run_sort (\<lambda>cmp cnt. shell_loop cmp cnt (cnt div 2))"
  by (intro ext, simp add: scl_sort_shell_def scl_sort_shell_sort_def run_sort_def)+

interpretation shell: in_place_sorter scl_sort_shell
  unfolding shell_run_sort by (rule run_sort_sorter) (rule comparator.shell_loop_sorts, auto)

interpretation shell_sort: in_place_sorter scl_sort_shell_sort
  unfolding shell_run_sort by (rule run_sort_sorter) (rule comparator.shell_loop_sorts, auto)

end
