(* ===== verification/Scl_Sort_Heap.thy ===== *)
theory Scl_Sort_Heap
  imports Scl_Sort_Simple
begin

text \<open>
  Heapsort of \<open>libs/sort/scl_sort.c\<close> and \<open>libs/sort/heap/scl_heap_sort.c\<close>, and the theory of binary
  heaps in arrays that the heap container and the path searches use as well: sifting down restores
  the heap order below one position, building works from the last parent to the root, and the root
  of a heap is a greatest element.
\<close>

section \<open>The code\<close>

text \<open>The \<open>swp\<close> that one iteration of the sift loop chooses: the root or its larger child.\<close>

definition sift_choice :: "('a \<Rightarrow> 'a \<Rightarrow> int) \<Rightarrow> 'a list \<Rightarrow> nat \<Rightarrow> nat \<Rightarrow> nat ub" where
  "sift_choice cmp xs root e = do {
     let child = root * 2 + 1;
     s \<leftarrow> at xs root;
     c \<leftarrow> at xs child;
     let swp = (if cmp s c < 0 then child else root);
     if child + 1 \<le> e then do {
       s \<leftarrow> at xs swp;
       c \<leftarrow> at xs (child + 1);
       Some (if cmp s c < 0 then child + 1 else swp)
     } else Some swp
   }"

lemma sift_choice_cases:
  "sift_choice cmp xs root e = Some w \<Longrightarrow> root * 2 + 1 \<le> e \<Longrightarrow> w = root \<or> (root < w \<and> w \<le> e)"
  by (auto simp: sift_choice_def Let_def bind_eq_Some_conv split: if_splits)

function sift_down :: "('a \<Rightarrow> 'a \<Rightarrow> int) \<Rightarrow> 'a list \<Rightarrow> nat \<Rightarrow> nat \<Rightarrow> 'a list ub" where
  "sift_down cmp xs root e =
     (if root * 2 + 1 \<le> e then do {
        swp \<leftarrow> sift_choice cmp xs root e;
        if swp = root then Some xs
        else do {
          xs' \<leftarrow> swap_at xs root swp;
          sift_down cmp xs' swp e
        }
      } else Some xs)"
  by pat_completeness auto
termination
  by (relation "measure (\<lambda>(cmp, xs, root, e). e - root)") (auto dest!: sift_choice_cases)

declare sift_down.simps [simp del]

definition heap_sort_loop :: "('a \<Rightarrow> 'a \<Rightarrow> int) \<Rightarrow> nat \<Rightarrow> 'a list \<Rightarrow> 'a list ub" where
  "heap_sort_loop cmp cnt xs = do {
     xs \<leftarrow> for_down (cnt div 2) (\<lambda>i xs. sift_down cmp xs (i - 1) (cnt - 1)) xs;
     for_down (cnt - 1) (\<lambda>i xs. do {
       xs \<leftarrow> swap_at xs 0 i;
       sift_down cmp xs 0 (i - 1)
     }) xs
   }"

definition scl_sort_heap :: "'a list ptr \<Rightarrow> nat \<Rightarrow> ('a \<Rightarrow> 'a \<Rightarrow> int) ptr \<Rightarrow> (scl_error_t \<times> 'a list ptr) ub" where
  "scl_sort_heap base cnt cmp =
     (case (base, cmp) of
        (Some xs, Some c) \<Rightarrow>
          if cnt < 2 then Some (SCL_OK, base)
          else do { ys \<leftarrow> heap_sort_loop c cnt xs; Some (SCL_OK, Some ys) }
      | _ \<Rightarrow> Some (SCL_ERR_NULL_PTR, base))"

definition scl_sort_heap_sort :: "'a list ptr \<Rightarrow> nat \<Rightarrow> ('a \<Rightarrow> 'a \<Rightarrow> int) ptr \<Rightarrow> (scl_error_t \<times> 'a list ptr) ub" where
  "scl_sort_heap_sort base cnt cmp =
     (case (base, cmp) of
        (Some xs, Some c) \<Rightarrow>
          if cnt < 2 then Some (SCL_OK, base)
          else do { ys \<leftarrow> heap_sort_loop c cnt xs; Some (SCL_OK, Some ys) }
      | _ \<Rightarrow> Some (SCL_ERR_NULL_PTR, base))"

section \<open>Heap order\<close>

definition child_of :: "nat \<Rightarrow> nat \<Rightarrow> bool" where
  "child_of p j \<longleftrightarrow> j = 2 * p + 1 \<or> j = 2 * p + 2"

lemma child_of_parent: "0 < j \<Longrightarrow> child_of ((j - 1) div 2) j"
  by (auto simp: child_of_def)

lemma child_of_less: "child_of p j \<Longrightarrow> p < j"
  by (auto simp: child_of_def)

lemma child_of_unique: "child_of p j \<Longrightarrow> child_of q j \<Longrightarrow> p = q"
  by (auto simp: child_of_def)

text \<open>Among the first \<open>n\<close> elements, every parent from position \<open>s\<close> on is at least as large as its
  children; \<open>heap_but\<close> exempts the children of position \<open>i\<close>, which are still below its parent.\<close>

definition heap_from :: "('a \<Rightarrow> 'a \<Rightarrow> int) \<Rightarrow> nat \<Rightarrow> nat \<Rightarrow> 'a list \<Rightarrow> bool" where
  "heap_from cmp s n xs \<longleftrightarrow> (\<forall>p j. s \<le> p \<and> child_of p j \<and> j < n \<longrightarrow> cmp (xs ! j) (xs ! p) \<le> 0)"

definition heap_but :: "('a \<Rightarrow> 'a \<Rightarrow> int) \<Rightarrow> nat \<Rightarrow> nat \<Rightarrow> nat \<Rightarrow> 'a list \<Rightarrow> bool" where
  "heap_but cmp s n i xs \<longleftrightarrow>
     (\<forall>p j. s \<le> p \<and> p \<noteq> i \<and> child_of p j \<and> j < n \<longrightarrow> cmp (xs ! j) (xs ! p) \<le> 0) \<and>
     (\<forall>p j. s \<le> p \<and> child_of p i \<and> child_of i j \<and> j < n \<longrightarrow> cmp (xs ! j) (xs ! p) \<le> 0)"

lemma heap_but_above: "heap_from cmp (Suc i) n xs \<Longrightarrow> heap_but cmp i n i xs"
  by (auto simp: heap_but_def heap_from_def child_of_def)

lemma heap_from_half: "n div 2 \<le> s \<Longrightarrow> heap_from cmp s n xs"
  by (auto simp: heap_from_def child_of_def)

text \<open>Two arrays that agree outside the first \<open>n\<close> elements and are permutations of each other.\<close>

definition perm_upto :: "nat \<Rightarrow> 'a list \<Rightarrow> 'a list \<Rightarrow> bool" where
  "perm_upto n xs ys \<longleftrightarrow> length ys = length xs \<and> mset ys = mset xs \<and> drop n ys = drop n xs"

lemma perm_upto_refl [simp]: "perm_upto n xs xs"
  by (simp add: perm_upto_def)

lemma perm_upto_trans: "perm_upto n xs ys \<Longrightarrow> perm_upto n ys zs \<Longrightarrow> perm_upto n xs zs"
  by (simp add: perm_upto_def)

lemma perm_upto_swap: "i < n \<Longrightarrow> j < n \<Longrightarrow> n \<le> length xs \<Longrightarrow> perm_upto n xs (xs[i := xs ! j, j := xs ! i])"
  by (simp add: perm_upto_def mset_swap)

lemma perm_upto_front: "perm_upto n xs ys \<Longrightarrow> set (take n ys) = set (take n xs)"
  unfolding perm_upto_def by (metis append_take_drop_id mset_append add_right_cancel set_mset_mset)

context comparator
begin

lemma heap_root_max: "heap_from cmp 0 n xs \<Longrightarrow> k < n \<Longrightarrow> cmp (xs ! k) (xs ! 0) \<le> 0"
proof (induction k rule: less_induct)
  case (less k)
  show ?case
  proof (cases "k = 0")
    case False
    let ?p = "(k - 1) div 2"
    have "child_of ?p k" using False by (intro child_of_parent) simp
    then have "cmp (xs ! k) (xs ! ?p) \<le> 0" and "?p < k"
      using less.prems by (auto simp: heap_from_def child_of_less)
    moreover have "cmp (xs ! ?p) (xs ! 0) \<le> 0" using less \<open>?p < k\<close> by simp
    ultimately show ?thesis using cmp_trans by blast
  qed simp
qed

text \<open>The choice: the root when it dominates its children, else a child that dominates both.\<close>

lemma sift_choice_spec:
  assumes "root * 2 + 1 \<le> e" and "e < length xs"
  shows "yields (sift_choice cmp xs root e) (\<lambda>w. (w = root \<or> child_of root w \<and> w \<le> e) \<and>
    (w = root \<or> cmp (xs ! root) (xs ! w) \<le> 0) \<and> (\<forall>j. child_of root j \<and> j \<le> e \<longrightarrow> cmp (xs ! j) (xs ! w) \<le> 0))"
proof -
  let ?l = "Suc (root * 2)" and ?r = "Suc (Suc (root * 2))"
  define w where "w = (if cmp (xs ! root) (xs ! ?l) < 0 then ?l else root)"
  have w: "cmp (xs ! ?l) (xs ! w) \<le> 0" "cmp (xs ! root) (xs ! w) \<le> 0" "w = root \<or> w = ?l" "w < length xs"
    using assms cmp_le_iff [of "xs ! ?l" "xs ! root"] by (auto simp: w_def)
  have ch: "child_of root j \<and> j \<le> e \<longleftrightarrow> j = ?l \<or> (j = ?r \<and> ?r \<le> e)" for j
    using assms by (auto simp: child_of_def)
  have run: "sift_choice cmp xs root e = Some (if ?r \<le> e \<and> cmp (xs ! w) (xs ! ?r) < 0 then ?r else w)"
    using assms w(4) by (simp add: sift_choice_def Let_def flip: w_def)
  show ?thesis
  proof (cases "?r \<le> e \<and> cmp (xs ! w) (xs ! ?r) < 0")
    case True
    then have "cmp (xs ! ?l) (xs ! ?r) \<le> 0" "cmp (xs ! root) (xs ! ?r) \<le> 0"
      using w cmp_trans [of _ "xs ! w" "xs ! ?r"] by simp_all
    then show ?thesis using True unfolding run ch by (auto simp: child_of_def)
  next
    case False
    then have "?r \<le> e \<longrightarrow> cmp (xs ! ?r) (xs ! w) \<le> 0" using cmp_le_iff [of "xs ! ?r" "xs ! w"] by auto
    moreover have "w = root \<or> child_of root w \<and> w \<le> e" using w(3) assms by (auto simp: child_of_def)
    ultimately show ?thesis using w(1,2) False unfolding run ch by auto
  qed
qed

lemma heap_but_step:
  assumes but: "heap_but cmp s n i xs" and i: "s \<le> i" and w: "child_of i w" "w < n" and n: "n \<le> length xs"
    and le: "cmp (xs ! i) (xs ! w) \<le> 0" and max: "\<forall>j. child_of i j \<and> j < n \<longrightarrow> cmp (xs ! j) (xs ! w) \<le> 0"
  shows "heap_but cmp s n w (xs[i := xs ! w, w := xs ! i])"
proof -
  let ?ys = "xs[i := xs ! w, w := xs ! i]"
  have iw: "i < w" using w(1) by (rule child_of_less)
  have nth: "?ys ! k = (if k = i then xs ! w else if k = w then xs ! i else xs ! k)" for k
    using w(2) n iw by (simp add: nth_swap)
  have "cmp (?ys ! j) (?ys ! p) \<le> 0" if p: "s \<le> p" "p \<noteq> w" "child_of p j" "j < n" for p j
  proof -
    consider "p = i" | "p \<noteq> i" "j = i" | "p \<noteq> i" "j \<noteq> i" by blast
    then show ?thesis
    proof cases
      case 1
      then show ?thesis using p max le iw by (auto simp: nth)
    next
      case 2
      then have "p < i" using p(3) child_of_less by blast
      then show ?thesis using 2 p w but iw by (auto simp: nth heap_but_def)
    next
      case 3
      moreover have "j \<noteq> w" using 3 p(3) w(1) child_of_unique by blast
      ultimately show ?thesis using p but by (auto simp: nth heap_but_def)
    qed
  qed
  moreover have "cmp (?ys ! j) (?ys ! p) \<le> 0" if p: "s \<le> p" "child_of p w" "child_of w j" "j < n" for p j
  proof -
    have "p = i" using p(2) w(1) by (rule child_of_unique)
    moreover have "w < j" using p(3) by (rule child_of_less)
    ultimately show ?thesis using p but iw by (auto simp: nth heap_but_def)
  qed
  ultimately show ?thesis by (simp add: heap_but_def)
qed

lemma sift_down_spec:
  "heap_but cmp s (Suc e) i xs \<Longrightarrow> s \<le> i \<Longrightarrow> e < length xs \<Longrightarrow>
   yields (sift_down cmp xs i e) (\<lambda>ys. heap_from cmp s (Suc e) ys \<and> perm_upto (Suc e) xs ys)"
proof (induction "e - i" arbitrary: i xs rule: less_induct)
  case less
  show ?case
  proof (cases "i * 2 + 1 \<le> e")
    case False
    then have "sift_down cmp xs i e = Some xs" by (subst sift_down.simps) simp
    moreover have "heap_from cmp s (Suc e) xs"
      using less.prems(1) False by (auto simp: heap_but_def heap_from_def child_of_def)
    ultimately show ?thesis by simp
  next
    case True
    from sift_choice_spec [OF True less.prems(3)] obtain w where w: "sift_choice cmp xs i e = Some w"
      "w = i \<or> child_of i w \<and> w \<le> e" "w = i \<or> cmp (xs ! i) (xs ! w) \<le> 0"
      "\<forall>j. child_of i j \<and> j \<le> e \<longrightarrow> cmp (xs ! j) (xs ! w) \<le> 0"
      by (auto simp: yields_iff)
    show ?thesis
    proof (cases "w = i")
      case True
      then have "heap_from cmp s (Suc e) xs"
        using less.prems(1) w(4) by (auto simp: heap_but_def heap_from_def less_Suc_eq_le)
      then show ?thesis using True w(1) by (subst sift_down.simps) simp
    next
      case False
      then have cw: "child_of i w" "w < Suc e" "cmp (xs ! i) (xs ! w) \<le> 0" using w by auto
      let ?ys = "xs[i := xs ! w, w := xs ! i]"
      have "i < w" using cw(1) by (rule child_of_less)
      then have iw: "i < Suc e" "e - w < e - i" using cw(2) by simp_all
      have "heap_but cmp s (Suc e) w ?ys"
        using heap_but_step [OF less.prems(1,2) cw(1,2) _ cw(3)] less.prems(3) w(4) by (simp add: less_Suc_eq_le)
      then have "yields (sift_down cmp ?ys w e) (\<lambda>zs. heap_from cmp s (Suc e) zs \<and> perm_upto (Suc e) ?ys zs)"
        using less.prems(2,3) \<open>i < w\<close> iw(2) by (intro less.hyps) simp_all
      moreover have "perm_upto (Suc e) xs ?ys" using iw cw(2) less.prems(3) by (intro perm_upto_swap) simp_all
      ultimately have "yields (sift_down cmp ?ys w e) (\<lambda>zs. heap_from cmp s (Suc e) zs \<and> perm_upto (Suc e) xs zs)"
        by (auto simp: yields_iff intro: perm_upto_trans)
      then show ?thesis using True False w(1) iw(1) cw(2) less.prems(3)
        by (subst sift_down.simps) simp
    qed
  qed
qed

lemma heap_build:
  assumes "cnt = length xs" and "2 \<le> cnt"
  shows "yields (for_down (cnt div 2) (\<lambda>i xs. sift_down cmp xs (i - 1) (cnt - 1)) xs)
    (\<lambda>ys. heap_from cmp 0 cnt ys \<and> perm_upto cnt xs ys)"
proof (rule for_down_rule [of "\<lambda>i ys. heap_from cmp i cnt ys \<and> perm_upto cnt xs ys"])
  fix i ys
  assume i: "0 < i" "i \<le> cnt div 2" and inv: "heap_from cmp i cnt ys \<and> perm_upto cnt xs ys"
  have "heap_but cmp (i - 1) cnt (i - 1) ys" using inv i by (intro heap_but_above) simp
  moreover have "length ys = cnt" using inv assms(1) by (simp add: perm_upto_def)
  ultimately have "yields (sift_down cmp ys (i - 1) (cnt - 1)) (\<lambda>zs. heap_from cmp (i - 1) cnt zs \<and> perm_upto cnt ys zs)"
    using sift_down_spec [of "i - 1" "cnt - 1" "i - 1" ys] assms(2) by simp
  then show "yields (sift_down cmp ys (i - 1) (cnt - 1)) (\<lambda>zs. heap_from cmp (i - 1) cnt zs \<and> perm_upto cnt xs zs)"
    using inv by (auto elim!: yields_mono intro: perm_upto_trans)
qed (use heap_from_half in auto)

lemma heap_extract_round:
  assumes heap: "heap_from cmp 0 (Suc i) xs" and i: "0 < i" "i < length xs" and settled: "settled (Suc i) xs"
  shows "yields (do { xs \<leftarrow> swap_at xs 0 i; sift_down cmp xs 0 (i - 1) })
    (\<lambda>ys. heap_from cmp 0 i ys \<and> settled i ys \<and> length ys = length xs \<and> mset ys = mset xs)"
proof -
  let ?ys = "xs[0 := xs ! i, i := xs ! 0]"
  have nth: "?ys ! k = (if k = 0 then xs ! i else if k = i then xs ! 0 else xs ! k)" for k
    by (rule nth_swap) (use i in auto)
  have "heap_but cmp 0 i 0 ?ys"
    using heap by (auto simp: heap_but_def heap_from_def nth child_of_def)
  then have "yields (sift_down cmp ?ys 0 (i - 1)) (\<lambda>zs. heap_from cmp 0 i zs \<and> perm_upto i ?ys zs)"
    using sift_down_spec [of 0 "i - 1" 0 ?ys] i by simp
  moreover have "settled i zs" if z: "perm_upto i ?ys zs" for zs
  proof -
    have "drop i zs = drop i ?ys" using z by (simp only: perm_upto_def)
    also have "\<dots> = ?ys ! i # drop (Suc i) ?ys" using i by (intro Cons_nth_drop_Suc [symmetric]) simp
    also have "\<dots> = xs ! 0 # drop (Suc i) xs" using i by simp
    finally have d: "drop i zs = xs ! 0 # drop (Suc i) xs" .
    have "set (take (Suc i) ?ys) = set (take (Suc i) xs)"
      using i by (intro perm_upto_front perm_upto_swap) simp_all
    then have "set (take i ?ys) \<subseteq> set (take (Suc i) xs)"
      using set_take_subset_set_take [of i "Suc i" ?ys] by simp
    then have t: "set (take i zs) \<subseteq> set (take (Suc i) xs)" using perm_upto_front [OF z] by simp
    have root: "xs ! 0 \<in> set (take (Suc i) xs)" using i by (auto simp: in_set_conv_nth intro!: exI [of _ 0])
    have "cmp x (xs ! 0) \<le> 0" if "x \<in> set (take (Suc i) xs)" for x
      using that heap_root_max [OF heap] i by (auto simp: in_set_conv_nth)
    then show ?thesis using settled t root unfolding settled_def d sorted_Cons by auto
  qed
  moreover have "swap_at xs 0 i = Some ?ys" by (rule swap_at_in) (use i in auto)
  moreover have "mset ?ys = mset xs" by (rule mset_swap) (use i in auto)
  ultimately show ?thesis
    by (auto simp: yields_iff perm_upto_def)
qed

lemma heap_sort_loop_sorts:
  assumes "cnt = length xs" and "2 \<le> cnt"
  shows "yields (heap_sort_loop cmp cnt xs) (\<lambda>ys. mset ys = mset xs \<and> sorted_cmp cmp ys)"
proof -
  have "yields (for_down (cnt - 1) (\<lambda>i xs. do { xs \<leftarrow> swap_at xs 0 i; sift_down cmp xs 0 (i - 1) }) ys)
      (\<lambda>zs. mset zs = mset xs \<and> sorted_cmp cmp zs)"
    if ys: "heap_from cmp 0 cnt ys" "perm_upto cnt xs ys" for ys
  proof (rule for_down_rule [of "\<lambda>i zs. heap_from cmp 0 (Suc i) zs \<and> settled (Suc i) zs \<and> length zs = cnt \<and> mset zs = mset xs"])
    show "heap_from cmp 0 (Suc (cnt - 1)) ys \<and> settled (Suc (cnt - 1)) ys \<and> length ys = cnt \<and> mset ys = mset xs"
    proof -
      have "Suc (cnt - 1) = cnt" using assms(2) by simp
      then show ?thesis using ys assms(1) by (simp add: settled_def perm_upto_def)
    qed
  next
    fix i zs
    assume "0 < i" "i \<le> cnt - 1" and inv: "heap_from cmp 0 (Suc i) zs \<and> settled (Suc i) zs \<and> length zs = cnt \<and> mset zs = mset xs"
    then show "yields (do { xs \<leftarrow> swap_at zs 0 i; sift_down cmp xs 0 (i - 1) })
        (\<lambda>zs. heap_from cmp 0 (Suc (i - 1)) zs \<and> settled (Suc (i - 1)) zs \<and> length zs = cnt \<and> mset zs = mset xs)"
      using heap_extract_round [of i zs] assms(2) by simp
  next
    fix zs
    assume zs: "heap_from cmp 0 (Suc 0) zs \<and> settled (Suc 0) zs \<and> length zs = cnt \<and> mset zs = mset xs"
    then have "sorted_cmp cmp zs"
      using settled_sorted [of "Suc 0" zs] by (cases zs) (auto simp: sorted_Cons)
    then show "mset zs = mset xs \<and> sorted_cmp cmp zs" using zs by simp
  qed
  then show ?thesis using heap_build [OF assms] by (auto simp: heap_sort_loop_def elim!: yields_mono)
qed

end

lemma heap_run_sort:
  "scl_sort_heap = run_sort heap_sort_loop" "scl_sort_heap_sort = run_sort heap_sort_loop"
  by (intro ext, simp add: scl_sort_heap_def scl_sort_heap_sort_def run_sort_def)+

interpretation heap_sorter: in_place_sorter scl_sort_heap
  unfolding heap_run_sort by (rule run_sort_sorter) (rule comparator.heap_sort_loop_sorts, simp_all)

interpretation heap_sort: in_place_sorter scl_sort_heap_sort
  unfolding heap_run_sort by (rule run_sort_sorter) (rule comparator.heap_sort_loop_sorts, simp_all)

end
