(* ===== verification/Scl_Sort_Merge.thy ===== *)
theory Scl_Sort_Merge
  imports Scl_Sort
begin

text \<open>
  Mergesort: the bottom-up version of \<open>libs/sort/scl_sort.c\<close> and \<open>libs/sort/merge/scl_merge.c\<close>, and the
  top-down and multithreaded versions of the latter. The scratch buffer is written at consecutive
  indices, so the model keeps its written prefix and checks every write against the block that was
  allocated. All versions meet the stable contract, so they return the same array.
\<close>

section \<open>Merging two runs\<close>

text \<open>\<open>tmp[ti++] = x\<close> in a block of \<open>bytes\<close> bytes.\<close>

definition push_tmp :: "nat \<Rightarrow> nat \<Rightarrow> 'a list \<Rightarrow> 'a \<Rightarrow> 'a list ub" where
  "push_tmp es bytes tmp x = (if (length tmp + 1) * es \<le> bytes then Some (tmp @ [x]) else None)"

function merge_runs ::
    "('a \<Rightarrow> 'a \<Rightarrow> int) \<Rightarrow> nat \<Rightarrow> nat \<Rightarrow> 'a list \<Rightarrow> nat \<Rightarrow> nat \<Rightarrow> nat \<Rightarrow> nat \<Rightarrow> 'a list \<Rightarrow> (nat \<times> nat \<times> 'a list) ub" where
  "merge_runs cmp es bytes base mid r li ri tmp =
     (if li < mid \<and> ri < r then do {
        a \<leftarrow> at base li;
        b \<leftarrow> at base ri;
        if cmp a b \<le> 0 then do { tmp \<leftarrow> push_tmp es bytes tmp a; merge_runs cmp es bytes base mid r (li + 1) ri tmp }
        else do { tmp \<leftarrow> push_tmp es bytes tmp b; merge_runs cmp es bytes base mid r li (ri + 1) tmp }
      } else Some (li, ri, tmp))"
  by pat_completeness auto
termination
  by (relation "measure (\<lambda>(cmp, es, bytes, base, mid, r, li, ri, tmp). (mid - li) + (r - ri))") auto

declare merge_runs.simps [simp del]

text \<open>\<open>while (li < mid) tmp[ti++] = base[li++];\<close>\<close>

definition copy_run :: "nat \<Rightarrow> nat \<Rightarrow> 'a list \<Rightarrow> nat \<Rightarrow> nat \<Rightarrow> 'a list \<Rightarrow> 'a list ub" where
  "copy_run es bytes base li mid tmp = for_up li mid (\<lambda>k tmp. do { a \<leftarrow> at base k; push_tmp es bytes tmp a }) tmp"

text \<open>The copy back: \<open>memcpy(base + i * es, tmp, ti * es)\<close>.\<close>

definition copy_back :: "'a list \<Rightarrow> nat \<Rightarrow> 'a list \<Rightarrow> 'a list ub" where
  "copy_back base i tmp =
     (if i + length tmp \<le> length base then Some (take i base @ tmp @ drop (i + length tmp) base) else None)"

text \<open>\<open>msort_merge\<close>, and the body of the bottom-up loop: merge \<open>[lo, mid)\<close> with \<open>[mid, hi)\<close>.\<close>

definition msort_merge :: "('a \<Rightarrow> 'a \<Rightarrow> int) \<Rightarrow> nat \<Rightarrow> nat \<Rightarrow> 'a list \<Rightarrow> nat \<Rightarrow> nat \<Rightarrow> nat \<Rightarrow> 'a list ub" where
  "msort_merge cmp es bytes base lo mid hi = do {
     (li, ri, tmp) \<leftarrow> merge_runs cmp es bytes base mid hi lo mid [];
     tmp \<leftarrow> copy_run es bytes base li mid tmp;
     tmp \<leftarrow> copy_run es bytes base ri hi tmp;
     copy_back base lo tmp
   }"

section \<open>Bottom-up mergesort\<close>

text \<open>The loops over \<open>i\<close> and \<open>width\<close>. With width 0 neither would end; the code starts at 1.\<close>

function merge_pass :: "('a \<Rightarrow> 'a \<Rightarrow> int) \<Rightarrow> nat \<Rightarrow> nat \<Rightarrow> nat \<Rightarrow> nat \<Rightarrow> nat \<Rightarrow> 'a list \<Rightarrow> 'a list ub" where
  "merge_pass cmp es bytes cnt width i base =
     (if width = 0 then None
      else if i < cnt then
        let mid = i + width in
        if cnt \<le> mid then merge_pass cmp es bytes cnt width (i + 2 * width) base
        else
          let r = (if cnt < i + 2 * width then cnt else i + 2 * width) in do {
            base \<leftarrow> msort_merge cmp es bytes base i mid r;
            merge_pass cmp es bytes cnt width (i + 2 * width) base
          }
      else Some base)"
  by pat_completeness auto
termination by (relation "measure (\<lambda>(cmp, es, bytes, cnt, width, i, base). cnt - i)") auto

function merge_widths :: "('a \<Rightarrow> 'a \<Rightarrow> int) \<Rightarrow> nat \<Rightarrow> nat \<Rightarrow> nat \<Rightarrow> nat \<Rightarrow> 'a list \<Rightarrow> 'a list ub" where
  "merge_widths cmp es bytes cnt width base =
     (if width = 0 then None
      else if width < cnt then do {
        base \<leftarrow> merge_pass cmp es bytes cnt width 0 base;
        merge_widths cmp es bytes cnt (width * 2) base
      } else Some base)"
  by pat_completeness auto
termination by (relation "measure (\<lambda>(cmp, es, bytes, cnt, width, base). cnt - width)") auto

declare merge_pass.simps [simp del] merge_widths.simps [simp del]

definition scl_sort_merge ::
    "scl_allocator_t \<Rightarrow> 'a list ptr \<Rightarrow> size_t \<Rightarrow> size_t \<Rightarrow> ('a \<Rightarrow> 'a \<Rightarrow> int) ptr \<Rightarrow> (scl_error_t \<times> 'a list ptr) ub" where
  "scl_sort_merge a base cnt es cmp =
     (case (base, cmp) of
        (Some xs, Some c) \<Rightarrow>
          if cnt < 2 then Some (SCL_OK, base)
          else (case scl_mul_overflow cnt es of
                  None \<Rightarrow> Some (SCL_ERR_SIZE_OVERFLOW, base)
                | Some bytes \<Rightarrow>
                    (case malloc_fn a 0 bytes max_align of
                       None \<Rightarrow> Some (SCL_ERR_OUT_OF_MEMORY, base)
                     | Some tmp \<Rightarrow> do {
                         ys \<leftarrow> merge_widths c (unat es) (length tmp) (unat cnt) 1 xs;
                         Some (SCL_OK, Some ys)
                       }))
      | _ \<Rightarrow> Some (SCL_ERR_NULL_PTR, base))"

definition scl_sort_merge_sort ::
    "scl_allocator_t \<Rightarrow> 'a list ptr \<Rightarrow> size_t \<Rightarrow> size_t \<Rightarrow> ('a \<Rightarrow> 'a \<Rightarrow> int) ptr \<Rightarrow> (scl_error_t \<times> 'a list ptr) ub" where
  "scl_sort_merge_sort a base cnt es cmp =
     (case (base, cmp) of
        (Some xs, Some c) \<Rightarrow>
          if cnt < 2 then Some (SCL_OK, base)
          else (case scl_mul_overflow cnt es of
                  None \<Rightarrow> Some (SCL_ERR_SIZE_OVERFLOW, base)
                | Some bytes \<Rightarrow>
                    (case malloc_fn a 0 bytes max_align of
                       None \<Rightarrow> Some (SCL_ERR_OUT_OF_MEMORY, base)
                     | Some tmp \<Rightarrow> do {
                         ys \<leftarrow> merge_widths c (unat es) (length tmp) (unat cnt) 1 xs;
                         Some (SCL_OK, Some ys)
                       }))
      | _ \<Rightarrow> Some (SCL_ERR_NULL_PTR, base))"

section \<open>Top-down and multithreaded mergesort\<close>

function msort_seq :: "('a \<Rightarrow> 'a \<Rightarrow> int) \<Rightarrow> nat \<Rightarrow> nat \<Rightarrow> 'a list \<Rightarrow> nat \<Rightarrow> nat \<Rightarrow> 'a list ub" where
  "msort_seq cmp es bytes base lo hi =
     (if hi - lo < 2 then Some base
      else do {
        let mid = lo + (hi - lo) div 2;
        base \<leftarrow> msort_seq cmp es bytes base lo mid;
        base \<leftarrow> msort_seq cmp es bytes base mid hi;
        msort_merge cmp es bytes base lo mid hi
      })"
  by pat_completeness auto
termination by (relation "measure (\<lambda>(cmp, es, bytes, base, lo, hi). hi - lo)") auto

declare msort_seq.simps [simp del]

text \<open>How the left half of a split runs: in the current thread because no thread could be created, or
  in a worker. The halves touch disjoint ranges of both arrays, so the model lets the worker finish
  before or after the right half; finer interleavings are not modelled. \<open>plan\<close> says what happens at
  the split of \<open>[lo, hi)\<close>.\<close>

datatype spawn = Inline | Worker_first | Worker_last

function msort_par ::
    "('a \<Rightarrow> 'a \<Rightarrow> int) \<Rightarrow> nat \<Rightarrow> nat \<Rightarrow> (nat \<Rightarrow> nat \<Rightarrow> spawn) \<Rightarrow> 'a list \<Rightarrow> nat \<Rightarrow> nat \<Rightarrow> nat \<Rightarrow> 'a list ub" where
  "msort_par cmp es bytes plan base lo hi depth =
     (let n = hi - lo in
      if n < 2 then Some base
      else if depth = 0 \<or> n < 2048 then msort_seq cmp es bytes base lo hi
      else do {
        let mid = lo + n div 2;
        base \<leftarrow> (case plan lo hi of
           Inline \<Rightarrow> do {
             base \<leftarrow> msort_par cmp es bytes plan base lo mid 0;
             msort_par cmp es bytes plan base mid hi (depth - 1)
           }
         | Worker_first \<Rightarrow> do {
             base \<leftarrow> msort_par cmp es bytes plan base lo mid (depth - 1);
             msort_par cmp es bytes plan base mid hi (depth - 1)
           }
         | Worker_last \<Rightarrow> do {
             base \<leftarrow> msort_par cmp es bytes plan base mid hi (depth - 1);
             msort_par cmp es bytes plan base lo mid (depth - 1)
           });
        msort_merge cmp es bytes base lo mid hi
      })"
  by pat_completeness auto
termination by (relation "measure (\<lambda>(cmp, es, bytes, plan, base, lo, hi, depth). hi - lo)") auto

declare msort_par.simps [simp del]

text \<open>\<open>for (t = 1; t < threads; t <<= 1) depth++;\<close> for \<open>threads\<close> up to \<open>SCL_SORT_MERGE_MAX_THREADS\<close>.\<close>

function depth_for :: "nat \<Rightarrow> nat \<Rightarrow> nat \<Rightarrow> nat" where
  "depth_for t threads depth =
     (if 0 < t \<and> t < threads then depth_for (t * 2) threads (depth + 1) else depth)"
  by pat_completeness auto
termination by (relation "measure (\<lambda>(t, threads, depth). threads - t)") auto

declare depth_for.simps [simp del]

text \<open>The thread budget, clamped to \<open>SCL_SORT_MERGE_MAX_THREADS\<close>, and the depth it allows; \<open>online\<close>
  is what \<open>sysconf(_SC_NPROCESSORS_ONLN)\<close> reports.\<close>

definition depth_budget :: "int \<Rightarrow> nat \<Rightarrow> nat" where
  "depth_budget online max_threads =
     (let threads = (if max_threads = 0 then (if 0 < online then nat online else 1) else max_threads);
          threads = (if 128 < threads then 128 else threads);
          threads = (if threads < 1 then 1 else threads) in
      depth_for 1 threads 0)"

definition scl_sort_merge_sort_mt ::
    "scl_allocator_t \<Rightarrow> int \<Rightarrow> (nat \<Rightarrow> nat \<Rightarrow> spawn) \<Rightarrow> 'a list ptr \<Rightarrow> size_t \<Rightarrow> size_t \<Rightarrow> ('a \<Rightarrow> 'a \<Rightarrow> int) ptr \<Rightarrow> nat
     \<Rightarrow> (scl_error_t \<times> 'a list ptr) ub" where
  "scl_sort_merge_sort_mt a online plan base cnt es cmp max_threads =
     (case (base, cmp) of
        (Some xs, Some c) \<Rightarrow>
          if es = 0 then Some (SCL_ERR_INVALID_ARG, base)
          else if cnt < 2 then Some (SCL_OK, base)
          else (case scl_mul_overflow cnt es of
                  None \<Rightarrow> Some (SCL_ERR_SIZE_OVERFLOW, base)
                | Some bytes \<Rightarrow>
                    let depth = depth_budget online max_threads in
                    (case malloc_fn a 0 bytes max_align of
                       None \<Rightarrow> Some (SCL_ERR_OUT_OF_MEMORY, base)
                     | Some tmp \<Rightarrow> do {
                         ys \<leftarrow> (if depth = 0 then msort_seq c (unat es) (length tmp) xs 0 (unat cnt)
                               else msort_par c (unat es) (length tmp) plan xs 0 (unat cnt) depth);
                         Some (SCL_OK, Some ys)
                       }))
      | _ \<Rightarrow> Some (SCL_ERR_NULL_PTR, base))"

lemma mult_le_bytes: "m \<le> n \<Longrightarrow> n * es \<le> bytes \<Longrightarrow> m * es \<le> (bytes::nat)"
  by (meson mult_le_mono1 order_trans)

section \<open>Merging as a list function\<close>

definition segment :: "'a list \<Rightarrow> nat \<Rightarrow> nat \<Rightarrow> 'a list" where
  "segment xs i j = take (j - i) (drop i xs)"

lemma length_segment [simp]: "j \<le> length xs \<Longrightarrow> length (segment xs i j) = j - i"
  by (simp add: segment_def)

lemma segment_empty [simp]: "j \<le> i \<Longrightarrow> segment xs i j = []"
  by (simp add: segment_def)

lemma segment_Cons: "i < j \<Longrightarrow> j \<le> length xs \<Longrightarrow> segment xs i j = xs ! i # segment xs (Suc i) j"
  by (simp add: segment_def Cons_nth_drop_Suc [symmetric] take_Cons')

lemma segment_snoc: "i \<le> j \<Longrightarrow> j < length xs \<Longrightarrow> segment xs i (Suc j) = segment xs i j @ [xs ! j]"
  by (simp add: segment_def Suc_diff_le take_Suc_conv_app_nth)

lemma segment_split:
  assumes "i \<le> k" and "k \<le> j"
  shows "segment xs i j = segment xs i k @ segment xs k j"
proof -
  obtain m n where "k = i + m" "j = i + m + n" using assms by (metis le_Suc_ex)
  then show ?thesis by (simp add: segment_def take_add add.commute)
qed

lemma split_segment: "i \<le> j \<Longrightarrow> j \<le> length xs \<Longrightarrow> xs = take i xs @ segment xs i j @ drop j xs"
  using append_take_drop_id [of "j - i" "drop i xs"] append_take_drop_id [of i xs] by (simp add: segment_def)

fun merge_list :: "('a \<Rightarrow> 'a \<Rightarrow> int) \<Rightarrow> 'a list \<Rightarrow> 'a list \<Rightarrow> 'a list" where
  "merge_list cmp [] ys = ys"
| "merge_list cmp (x # xs) [] = x # xs"
| "merge_list cmp (x # xs) (y # ys) =
     (if cmp x y \<le> 0 then x # merge_list cmp xs (y # ys) else y # merge_list cmp (x # xs) ys)"

lemma merge_list_Nil2 [simp]: "merge_list cmp xs [] = xs"
  by (cases xs) simp_all

lemma mset_merge_list [simp]: "mset (merge_list cmp xs ys) = mset xs + mset ys"
  by (induction cmp xs ys rule: merge_list.induct) auto

lemma set_merge_list [simp]: "set (merge_list cmp xs ys) = set xs \<union> set ys"
  by (metis mset_merge_list set_mset_mset set_mset_union)

lemma length_merge_list [simp]: "length (merge_list cmp xs ys) = length xs + length ys"
  by (metis mset_merge_list size_mset size_union)

lemma merge_list_induct [case_names Nil1 Nil2 Cons]:
  assumes "\<And>ys. P [] ys" and "\<And>x xs. P (x # xs) []"
    and "\<And>x xs y ys. P xs (y # ys) \<Longrightarrow> P (x # xs) ys \<Longrightarrow> P (x # xs) (y # ys)"
  shows "P xs ys"
proof (induction xs arbitrary: ys)
  case (Cons x xs)
  show ?case by (induction ys) (use Cons assms in auto)
qed (rule assms(1))

lemma sorted_head_above: "comparator cmp \<Longrightarrow> sorted_cmp cmp (x # xs) \<Longrightarrow> cmp y x < 0 \<Longrightarrow> z \<in> set (x # xs) \<Longrightarrow> cmp y z < 0"
  using comparator.cmp_less_le_trans [of cmp y x z] by (auto simp: comparator.sorted_Cons)

context comparator
begin

lemma sorted_merge_list:
  "sorted_cmp cmp xs \<Longrightarrow> sorted_cmp cmp ys \<Longrightarrow> sorted_cmp cmp (merge_list cmp xs ys)"
proof (induction xs ys rule: merge_list_induct)
  case (Cons x xs y ys)
  have "cmp y x \<le> 0" if "\<not> cmp x y \<le> 0" using that cmp_linear [of x y] by simp
  then show ?case using Cons by (auto simp: sorted_Cons intro: cmp_trans)
qed simp_all

lemma same_order_merge_list:
  "sorted_cmp cmp xs \<Longrightarrow> same_order cmp (xs @ ys) (merge_list cmp xs ys)"
proof (induction xs ys rule: merge_list_induct)
  case (Cons x xs y ys)
  show ?case
  proof (cases "cmp x y \<le> 0")
    case True
    then show ?thesis using Cons by (auto simp: same_order_def sorted_Cons)
  next
    case False
    then have yx: "cmp y x < 0" using cmp_swap [of y x] by linarith
    have "eqv cmp v (x # xs) = []" if "cmp y v = 0" for v
    proof -
      have "cmp z v \<noteq> 0" if "z \<in> set (x # xs)" for z
        using sorted_head_above [OF comparator_axioms Cons.prems yx that] \<open>cmp y v = 0\<close>
          cmp_less_le_trans [of y z v] by auto
      then show ?thesis by (simp add: eqv_def filter_empty_conv)
    qed
    then have "eqv cmp v ((x # xs) @ y # ys) = eqv cmp v (y # (x # xs) @ ys)" for v
      by (cases "cmp y v = 0")
        (simp_all only: eqv_simps(2) [of cmp v y ys] eqv_simps(2) [of cmp v y "(x # xs) @ ys"] eqv_simps(3) append_Nil if_True if_False)
    then have "same_order cmp ((x # xs) @ y # ys) (y # (x # xs) @ ys)"
      unfolding same_order_def by blast
    moreover have "same_order cmp (y # (x # xs) @ ys) (y # merge_list cmp (x # xs) ys)"
      using Cons by (auto simp: same_order_def)
    ultimately show ?thesis using False by (auto intro: same_order_trans)
  qed
qed simp_all

end

section \<open>The merge loops compute it\<close>

lemma copy_run_spec:
  "li \<le> mid \<Longrightarrow> mid \<le> length base \<Longrightarrow> (length tmp + (mid - li)) * es \<le> bytes \<Longrightarrow>
   copy_run es bytes base li mid tmp = Some (tmp @ segment base li mid)"
proof (induction "mid - li" arbitrary: li tmp)
  case 0
  then show ?case by (simp add: copy_run_def)
next
  case (Suc n)
  then have li: "li < mid" by simp
  have "(length tmp + 1) * es \<le> (length tmp + (mid - li)) * es" using li by (intro mult_le_mono1) arith
  then have p: "push_tmp es bytes tmp (base ! li) = Some (tmp @ [base ! li])"
    using Suc.prems(3) by (simp add: push_tmp_def)
  have "copy_run es bytes base (Suc li) mid (tmp @ [base ! li]) = Some ((tmp @ [base ! li]) @ segment base (Suc li) mid)"
  proof (rule Suc.hyps(1))
    have "length (tmp @ [base ! li]) + (mid - Suc li) = length tmp + (mid - li)" using li by simp
    then show "(length (tmp @ [base ! li]) + (mid - Suc li)) * es \<le> bytes" using Suc.prems(3) by (simp only:)
  qed (use Suc li in simp_all)
  then show ?case using p li Suc.prems(2) by (simp add: copy_run_def for_up_step segment_Cons)
qed

lemma merge_runs_spec:
  "li \<le> mid \<Longrightarrow> mid \<le> length base \<Longrightarrow> ri \<le> r \<Longrightarrow> r \<le> length base \<Longrightarrow>
   (length tmp + ((mid - li) + (r - ri))) * es \<le> bytes \<Longrightarrow>
   yields (merge_runs cmp es bytes base mid r li ri tmp) (\<lambda>st. case st of (li', ri', tmp') \<Rightarrow>
     li' \<le> mid \<and> ri' \<le> r \<and> length tmp' + ((mid - li') + (r - ri')) = length tmp + ((mid - li) + (r - ri)) \<and>
     tmp' @ segment base li' mid @ segment base ri' r = tmp @ merge_list cmp (segment base li mid) (segment base ri r))"
proof (induction "(mid - li) + (r - ri)" arbitrary: li ri tmp rule: less_induct)
  case less
  show ?case
  proof (cases "li < mid \<and> ri < r")
    case False
    then have "segment base li mid = [] \<or> segment base ri r = []" by auto
    then have "segment base li mid @ segment base ri r = merge_list cmp (segment base li mid) (segment base ri r)" by auto
    then show ?thesis using False less.prems by (subst merge_runs.simps) auto
  next
    case True
    have "(length tmp + 1) * es \<le> (length tmp + ((mid - li) + (r - ri))) * es" using True by (intro mult_le_mono1) arith
    then have p: "push_tmp es bytes tmp x = Some (tmp @ [x])" for x
      using less.prems(5) by (simp add: push_tmp_def)
    show ?thesis
    proof (cases "cmp (base ! li) (base ! ri) \<le> 0")
      case le: True
      have "Suc (length tmp + ((mid - Suc li) + (r - ri))) = length tmp + ((mid - li) + (r - ri))" using True by arith
      then have "yields (merge_runs cmp es bytes base mid r (li + 1) ri (tmp @ [base ! li])) (\<lambda>st. case st of (li', ri', tmp') \<Rightarrow>
         li' \<le> mid \<and> ri' \<le> r \<and> length tmp' + ((mid - li') + (r - ri')) = length (tmp @ [base ! li]) + ((mid - (li + 1)) + (r - ri)) \<and>
         tmp' @ segment base li' mid @ segment base ri' r = (tmp @ [base ! li]) @ merge_list cmp (segment base (li + 1) mid) (segment base ri r))"
        using less.prems True by (intro less.hyps) auto
      then show ?thesis
        using True le p less.prems by (subst merge_runs.simps) (auto simp: segment_Cons elim!: yields_mono)
    next
      case gt: False
      have "Suc (length tmp + ((mid - li) + (r - Suc ri))) = length tmp + ((mid - li) + (r - ri))" using True by arith
      then have "yields (merge_runs cmp es bytes base mid r li (ri + 1) (tmp @ [base ! ri])) (\<lambda>st. case st of (li', ri', tmp') \<Rightarrow>
         li' \<le> mid \<and> ri' \<le> r \<and> length tmp' + ((mid - li') + (r - ri')) = length (tmp @ [base ! ri]) + ((mid - li) + (r - (ri + 1))) \<and>
         tmp' @ segment base li' mid @ segment base ri' r = (tmp @ [base ! ri]) @ merge_list cmp (segment base li mid) (segment base (ri + 1) r))"
        using less.prems True by (intro less.hyps) auto
      then show ?thesis
        using True gt p less.prems by (subst merge_runs.simps) (auto simp: segment_Cons elim!: yields_mono)
    qed
  qed
qed

lemma msort_merge_spec:
  assumes "lo \<le> mid" and "mid \<le> hi" and "hi \<le> length base" and "(hi - lo) * es \<le> bytes"
  shows "msort_merge cmp es bytes base lo mid hi
    = Some (take lo base @ merge_list cmp (segment base lo mid) (segment base mid hi) @ drop hi base)"
proof -
  have "(length ([]::'a list) + ((mid - lo) + (hi - mid))) * es \<le> bytes" using assms by simp
  from merge_runs_spec [OF assms(1) _ assms(2,3) this, of cmp] assms(2,3) obtain li ri tmp where
    run: "merge_runs cmp es bytes base mid hi lo mid [] = Some (li, ri, tmp)" and le: "li \<le> mid" "ri \<le> hi"
    and len: "length tmp + ((mid - li) + (hi - ri)) = hi - lo"
    and out: "tmp @ segment base li mid @ segment base ri hi = merge_list cmp (segment base lo mid) (segment base mid hi)"
    using assms(1) by (auto simp: yields_iff)
  have b: "(length tmp + (mid - li)) * es \<le> bytes" "(length (tmp @ segment base li mid) + (hi - ri)) * es \<le> bytes"
    using assms len le by (auto intro: order_trans [OF mult_le_mono1 [of _ "hi - lo"]])
  let ?m = "merge_list cmp (segment base lo mid) (segment base mid hi)"
  have "length ?m = hi - lo" using assms by simp
  then have "copy_back base lo ?m = Some (take lo base @ ?m @ drop hi base)"
    using assms by (simp add: copy_back_def)
  moreover have "copy_run es bytes base li mid tmp = Some (tmp @ segment base li mid)"
    using le(1) assms(2,3) b(1) by (intro copy_run_spec) simp_all
  moreover have "copy_run es bytes base ri hi (tmp @ segment base li mid) = Some ?m"
    using le(2) assms(3) b(2) out by (subst copy_run_spec) simp_all
  ultimately show ?thesis by (simp add: msort_merge_def run)
qed

section \<open>Bottom-up: runs of doubling width\<close>

function pass_list :: "('a \<Rightarrow> 'a \<Rightarrow> int) \<Rightarrow> nat \<Rightarrow> 'a list \<Rightarrow> 'a list" where
  "pass_list cmp w xs =
     (if w = 0 \<or> length xs \<le> w then xs
      else merge_list cmp (take w xs) (take w (drop w xs)) @ pass_list cmp w (drop (2 * w) xs))"
  by pat_completeness auto
termination by (relation "measure (\<lambda>(cmp, w, xs). length xs)") auto

declare pass_list.simps [simp del]

lemma pass_list_Nil [simp]: "pass_list cmp w [] = []"
  by (subst pass_list.simps) simp

inductive runs :: "('a \<Rightarrow> 'a \<Rightarrow> int) \<Rightarrow> nat \<Rightarrow> 'a list \<Rightarrow> bool" for cmp w where
  runs_Nil: "runs cmp w []"
| runs_step: "sorted_cmp cmp (take w xs) \<Longrightarrow> runs cmp w (drop w xs) \<Longrightarrow> runs cmp w xs"

lemma runs_head: "runs cmp w xs \<Longrightarrow> sorted_cmp cmp (take w xs)"
  by (erule runs.cases) (simp_all add: sorted_cmp_def)

lemma runs_tail: "runs cmp w xs \<Longrightarrow> runs cmp w (drop w xs)"
  by (erule runs.cases) (simp_all add: runs_Nil)

lemma length_pass_list [simp]: "length (pass_list cmp w xs) = length xs"
proof (induction cmp w xs rule: pass_list.induct)
  case (1 cmp w xs)
  show ?case
  proof (cases "w = 0 \<or> length xs \<le> w")
    case False
    then show ?thesis using 1 by (subst pass_list.simps) (auto simp: min_def)
  qed (auto simp: pass_list.simps)
qed

lemma merge_pass_eq:
  "0 < w \<Longrightarrow> length base = cnt \<Longrightarrow> cnt * es \<le> bytes \<Longrightarrow>
   merge_pass cmp es bytes cnt w i base = Some (take i base @ pass_list cmp w (drop i base))"
proof (induction "cnt - i" arbitrary: i base rule: less_induct)
  case less
  show ?case
  proof (cases "i < cnt")
    case False
    then show ?thesis using less.prems by (subst merge_pass.simps) simp
  next
    case i: True
    then have dec: "cnt - (i + 2 * w) < cnt - i" using less.prems(1) by simp
    show ?thesis
    proof (cases "cnt \<le> i + w")
      case True
      then have "merge_pass cmp es bytes cnt w (i + 2 * w) base = Some base"
        using less.hyps [OF dec less.prems] less.prems(2) by simp
      moreover have "length (drop i base) \<le> w" using True less.prems(2) by simp
      then have "pass_list cmp w (drop i base) = drop i base" by (subst pass_list.simps) (simp only: if_True simp_thms)
      ultimately show ?thesis using True i less.prems(1) by (subst merge_pass.simps) simp
    next
      case False
      define r where "r = (if cnt < i + 2 * w then cnt else i + 2 * w)"
      have r: "i + w \<le> r" "r \<le> length base" "r \<le> i + 2 * w" "r = cnt \<or> r = i + 2 * w"
        using False less.prems(2) by (auto simp: r_def)
      let ?xs = "drop i base"
      let ?m = "merge_list cmp (take w ?xs) (take w (drop w ?xs))"
      have "(r - i) * es \<le> bytes"
        by (rule mult_le_bytes [OF _ less.prems(3)]) (use r(2) less.prems(2) in simp)
      from msort_merge_spec [OF _ r(1,2) this, of cmp]
      have m: "msort_merge cmp es bytes base i (i + w) r
        = Some (take i base @ merge_list cmp (segment base i (i + w)) (segment base (i + w) r) @ drop r base)" by simp
      have "take (r - (i + w)) (drop (i + w) base) = take w (drop (i + w) base)"
        using r(3,4) less.prems(2) by (elim disjE) auto
      then have s: "segment base i (i + w) = take w ?xs" "segment base (i + w) r = take w (drop w ?xs)"
        by (simp_all add: segment_def add.commute)
      let ?base = "take i base @ ?m @ drop r base"
      have len: "length ?m = r - i"
      proof -
        have "length ?m = length (segment base i (i + w)) + length (segment base (i + w) r)" by (simp only: s length_merge_list)
        then show ?thesis using r by simp
      qed
      have rest: "merge_pass cmp es bytes cnt w (i + 2 * w) ?base
        = Some (take (i + 2 * w) ?base @ pass_list cmp w (drop (i + 2 * w) ?base))"
        using dec less.prems r len i by (intro less.hyps) simp_all
      have d: "drop (i + 2 * w) base = drop (2 * w) ?xs" by (simp add: add.commute)
      have "take (i + 2 * w) ?base = take i base @ ?m \<and> drop (i + 2 * w) ?base = drop (2 * w) ?xs"
      proof (cases "r = i + 2 * w")
        case True
        then show ?thesis using len i less.prems(2) d by simp
      next
        case False
        then have "r = cnt" "r < i + 2 * w" using r(3,4) by simp_all
        then show ?thesis using len i less.prems(2) by simp
      qed
      moreover have "pass_list cmp w ?xs = ?m @ pass_list cmp w (drop (2 * w) ?xs)"
        using False i less.prems(1,2) by (subst pass_list.simps) simp
      moreover have "merge_pass cmp es bytes cnt w i base = merge_pass cmp es bytes cnt w (i + 2 * w) ?base"
        using i False less.prems(1) m by (subst merge_pass.simps) (simp add: Let_def s flip: r_def)
      ultimately show ?thesis using rest by simp
    qed
  qed
qed

lemma drop_cong_le:
  assumes "drop k ys = drop k xs" and "k \<le> i"
  shows "drop i ys = drop i xs"
proof -
  from assms(2) obtain m where i: "i = m + k" by (metis add.commute le_Suc_ex)
  have "drop m (drop k ys) = drop m (drop k xs)" using assms(1) by (rule arg_cong)
  then show ?thesis by (simp add: i)
qed

lemma take_cong_le:
  assumes "take k ys = take k xs" and "i \<le> k"
  shows "take i ys = take i xs"
proof -
  have "take i (take k ys) = take i (take k xs)" using assms(1) by (rule arg_cong)
  then show ?thesis using assms(2) by (simp add: min_def)
qed

lemma segment_drop_cong: "drop k ys = drop k xs \<Longrightarrow> k \<le> i \<Longrightarrow> segment ys i j = segment xs i j"
  by (simp add: segment_def drop_cong_le [of k ys xs i])

lemma segment_take_cong: "take k ys = take k xs \<Longrightarrow> j \<le> k \<Longrightarrow> segment ys i j = segment xs i j"
  unfolding segment_def drop_take [symmetric] by (simp add: take_cong_le [of k ys xs j])

context comparator
begin

lemma runs_pass:
  "0 < w \<Longrightarrow> runs cmp w xs \<Longrightarrow>
   runs cmp (2 * w) (pass_list cmp w xs) \<and> same_order cmp xs (pass_list cmp w xs) \<and> mset (pass_list cmp w xs) = mset xs"
proof (induction "length xs" arbitrary: xs rule: less_induct)
  case less
  show ?case
  proof (cases "length xs \<le> w")
    case True
    then have "sorted_cmp cmp xs" using runs_head [OF less.prems(2)] by simp
    have "runs cmp (2 * w) xs"
      by (rule runs_step) (use \<open>sorted_cmp cmp xs\<close> True in \<open>simp_all add: runs_Nil\<close>)
    then show ?thesis using True by (subst (1 2 3) pass_list.simps) simp
  next
    case False
    let ?a = "take w xs" and ?b = "take w (drop w xs)" and ?r = "drop (2 * w) xs"
    let ?m = "merge_list cmp ?a ?b"
    have runs: "sorted_cmp cmp ?a" "sorted_cmp cmp ?b" "runs cmp w ?r"
      using runs_head [OF less.prems(2)] runs_head [OF runs_tail [OF less.prems(2)]]
        runs_tail [OF runs_tail [OF less.prems(2)]] by (simp_all add: mult_2)
    have IH: "runs cmp (2 * w) (pass_list cmp w ?r)" "same_order cmp ?r (pass_list cmp w ?r)" "mset (pass_list cmp w ?r) = mset ?r"
      using less.hyps [of ?r] False less.prems(1) runs(3) by auto
    have p: "pass_list cmp w xs = ?m @ pass_list cmp w ?r"
      using False less.prems(1) by (subst pass_list.simps) simp
    have "xs = ?a @ ?b @ drop w (drop w xs)" by (simp only: append_take_drop_id)
    then have xs: "xs = (?a @ ?b) @ ?r" by (simp add: mult_2)
    have len: "length ?m \<le> 2 * w" "length ?m < 2 * w \<Longrightarrow> ?r = []" by auto
    have t: "take (2 * w) (?m @ pass_list cmp w ?r) = ?m" and d: "drop (2 * w) (?m @ pass_list cmp w ?r) = pass_list cmp w ?r"
      using len by (cases "length ?m = 2 * w"; simp)+
    have "runs cmp (2 * w) (?m @ pass_list cmp w ?r)"
    proof (rule runs_step)
      show "sorted_cmp cmp (take (2 * w) (?m @ pass_list cmp w ?r))"
        unfolding t using runs(1,2) by (rule sorted_merge_list)
      show "runs cmp (2 * w) (drop (2 * w) (?m @ pass_list cmp w ?r))" unfolding d by (rule IH(1))
    qed
    moreover have "same_order cmp ((?a @ ?b) @ ?r) (?m @ pass_list cmp w ?r)"
      using same_order_merge_list [OF runs(1)] IH(2) by (rule same_order_append)
    moreover have "mset (?m @ pass_list cmp w ?r) = mset ((?a @ ?b) @ ?r)" using IH(3) by simp
    ultimately show ?thesis unfolding p xs [symmetric] by blast
  qed
qed

lemma merge_widths_spec:
  "0 < w \<Longrightarrow> runs cmp w xs \<Longrightarrow> cnt * es \<le> bytes \<Longrightarrow> length xs = cnt \<Longrightarrow>
   yields (merge_widths cmp es bytes cnt w xs) (\<lambda>ys. mset ys = mset xs \<and> sorted_cmp cmp ys \<and> same_order cmp xs ys)"
proof (induction "cnt - w" arbitrary: w xs rule: less_induct)
  case less
  show ?case
  proof (cases "w < cnt")
    case False
    then have "sorted_cmp cmp xs" using runs_head [OF less.prems(2)] less.prems(4) by simp
    then show ?thesis using False less.prems(1) by (subst merge_widths.simps) simp
  next
    case True
    let ?ys = "pass_list cmp w xs"
    note p = runs_pass [OF less.prems(1,2)]
    have "yields (merge_widths cmp es bytes cnt (w * 2) ?ys)
        (\<lambda>ys. mset ys = mset ?ys \<and> sorted_cmp cmp ys \<and> same_order cmp ?ys ys)"
      using less.prems True p by (intro less.hyps) (simp_all add: mult.commute)
    then have "yields (merge_widths cmp es bytes cnt (w * 2) ?ys)
        (\<lambda>ys. mset ys = mset xs \<and> sorted_cmp cmp ys \<and> same_order cmp xs ys)"
      using p by (auto elim!: yields_mono intro: same_order_trans)
    then show ?thesis using True less.prems(1) merge_pass_eq [OF less.prems(1,4,3), of cmp 0]
      by (subst merge_widths.simps) simp
  qed
qed

lemma runs_one: "runs cmp 1 xs"
proof (induction xs)
  case (Cons x xs)
  show ?case by (rule runs_step) (use Cons in \<open>simp_all add: sorted_Cons\<close>)
qed (rule runs_Nil)

section \<open>Top-down: sorting a range\<close>

definition range_sorted :: "nat \<Rightarrow> nat \<Rightarrow> 'a list \<Rightarrow> 'a list \<Rightarrow> bool" where
  "range_sorted lo hi xs ys \<longleftrightarrow> length ys = length xs \<and> take lo ys = take lo xs \<and> drop hi ys = drop hi xs \<and>
     mset (segment ys lo hi) = mset (segment xs lo hi) \<and> sorted_cmp cmp (segment ys lo hi) \<and>
     same_order cmp (segment xs lo hi) (segment ys lo hi)"

lemma merge_range:
  assumes le: "lo \<le> mid" "mid \<le> hi" "hi \<le> length xs" and b: "(hi - lo) * es \<le> bytes"
    and zs: "length zs = length xs" "take lo zs = take lo xs" "drop hi zs = drop hi xs"
    and left: "mset (segment zs lo mid) = mset (segment xs lo mid)" "sorted_cmp cmp (segment zs lo mid)"
      "same_order cmp (segment xs lo mid) (segment zs lo mid)"
    and right: "mset (segment zs mid hi) = mset (segment xs mid hi)" "sorted_cmp cmp (segment zs mid hi)"
      "same_order cmp (segment xs mid hi) (segment zs mid hi)"
  shows "yields (msort_merge cmp es bytes zs lo mid hi) (range_sorted lo hi xs)"
proof -
  let ?m = "merge_list cmp (segment zs lo mid) (segment zs mid hi)"
  let ?ys = "take lo zs @ ?m @ drop hi zs"
  have run: "msort_merge cmp es bytes zs lo mid hi = Some ?ys"
    using le zs(1) b by (intro msort_merge_spec) simp_all
  have len: "length ?m = hi - lo" "length (take lo zs) = lo" using le zs(1) by simp_all
  then have sl: "segment ?ys lo hi = ?m" by (simp add: segment_def)
  have split: "segment xs lo hi = segment xs lo mid @ segment xs mid hi" using le(1,2) by (rule segment_split)
  have "same_order cmp (segment xs lo mid @ segment xs mid hi) (segment zs lo mid @ segment zs mid hi)"
    using left(3) right(3) by (rule same_order_append)
  then have "same_order cmp (segment xs lo hi) ?m"
    using same_order_merge_list [OF left(2)] unfolding split by (rule same_order_trans)
  moreover have "take lo ?ys = take lo xs" "drop hi ?ys = drop hi xs" "length ?ys = length xs"
    using len zs le by simp_all
  ultimately show ?thesis
    using sorted_merge_list [OF left(2) right(2)] left(1) right(1) unfolding run
    by (simp add: range_sorted_def sl split)
qed

text \<open>The two halves may be sorted in either order.\<close>

lemma merge_halves:
  assumes "lo \<le> mid" and "mid \<le> hi" and "hi \<le> length xs" and "(hi - lo) * es \<le> bytes"
    and "range_sorted lo mid xs ys \<and> range_sorted mid hi ys zs \<or> range_sorted mid hi xs ys \<and> range_sorted lo mid ys zs"
  shows "yields (msort_merge cmp es bytes zs lo mid hi) (range_sorted lo hi xs)"
proof -
  have dhi: "drop hi vs = drop hi us" if "drop mid vs = drop mid us" for us vs :: "'a list"
    using that assms(2) by (rule drop_cong_le)
  have tlo: "take lo vs = take lo us" if "take mid vs = take mid us" for us vs :: "'a list"
    using that assms(1) by (rule take_cong_le)
  show ?thesis
    using assms(5)
  proof
    assume h: "range_sorted lo mid xs ys \<and> range_sorted mid hi ys zs"
    then have "segment zs lo mid = segment ys lo mid" "segment ys mid hi = segment xs mid hi"
      by (auto simp: range_sorted_def intro: segment_take_cong segment_drop_cong)
    then show ?thesis using h tlo [of zs ys] dhi [of ys xs]
      by (intro merge_range assms) (auto simp: range_sorted_def)
  next
    assume h: "range_sorted mid hi xs ys \<and> range_sorted lo mid ys zs"
    then have "segment zs mid hi = segment ys mid hi" "segment ys lo mid = segment xs lo mid"
      by (auto simp: range_sorted_def intro: segment_take_cong segment_drop_cong)
    then show ?thesis using h tlo [of ys xs] dhi [of zs ys]
      by (intro merge_range assms) (auto simp: range_sorted_def)
  qed
qed

lemma range_sorted_short: "hi - lo < 2 \<Longrightarrow> range_sorted lo hi xs xs"
  using short_sorted [of "segment xs lo hi"] by (simp add: range_sorted_def segment_def)

lemma msort_seq_spec:
  "hi \<le> length xs \<Longrightarrow> (hi - lo) * es \<le> bytes \<Longrightarrow> yields (msort_seq cmp es bytes xs lo hi) (range_sorted lo hi xs)"
proof (induction "hi - lo" arbitrary: lo hi xs rule: less_induct)
  case less
  show ?case
  proof (cases "hi - lo < 2")
    case True
    then show ?thesis by (subst msort_seq.simps) (simp add: range_sorted_short)
  next
    case False
    define mid where "mid = lo + (hi - lo) div 2"
    have mid: "lo < mid" "mid < hi" using False by (auto simp: mid_def)
    have b: "(mid - lo) * es \<le> bytes" "(hi - mid) * es \<le> bytes"
      by (rule mult_le_bytes [OF _ less.prems(2)], use mid in simp)+
    have 1: "yields (msort_seq cmp es bytes xs lo mid) (range_sorted lo mid xs)"
      using mid less.prems b by (intro less.hyps) simp_all
    have 2: "yields (msort_seq cmp es bytes ys mid hi) (range_sorted mid hi ys)" if "range_sorted lo mid xs ys" for ys
      using mid less.prems b that by (intro less.hyps) (simp_all add: range_sorted_def)
    have 3: "yields (msort_merge cmp es bytes zs lo mid hi) (range_sorted lo hi xs)"
      if "range_sorted lo mid xs ys" "range_sorted mid hi ys zs" for ys zs
      using mid less.prems that by (intro merge_halves) auto
    have "msort_seq cmp es bytes xs lo hi = do { ys \<leftarrow> msort_seq cmp es bytes xs lo mid;
      zs \<leftarrow> msort_seq cmp es bytes ys mid hi; msort_merge cmp es bytes zs lo mid hi }"
      using False by (subst msort_seq.simps) (simp add: mid_def Let_def)
    also have "yields \<dots> (range_sorted lo hi xs)"
      by (rule yields_bindI [OF 1], rule yields_bindI [OF 2], assumption, rule 3)
    finally show ?thesis .
  qed
qed

lemma msort_par_spec:
  "hi \<le> length xs \<Longrightarrow> (hi - lo) * es \<le> bytes \<Longrightarrow>
   yields (msort_par cmp es bytes plan xs lo hi depth) (range_sorted lo hi xs)"
proof (induction "hi - lo" arbitrary: lo hi xs depth rule: less_induct)
  case less
  show ?case
  proof (cases "hi - lo < 2 \<or> depth = 0 \<or> hi - lo < 2048")
    case True
    then show ?thesis using msort_seq_spec [OF less.prems]
      by (subst msort_par.simps) (auto simp: range_sorted_short Let_def)
  next
    case False
    define mid where "mid = lo + (hi - lo) div 2"
    have mid: "lo < mid" "mid < hi" using False by (auto simp: mid_def)
    have b: "(mid - lo) * es \<le> bytes" "(hi - mid) * es \<le> bytes"
      by (rule mult_le_bytes [OF _ less.prems(2)], use mid in simp)+
    have left: "yields (msort_par cmp es bytes plan ys lo mid k) (range_sorted lo mid ys)" if "length ys = length xs" for ys k
      using mid less.prems b that by (intro less.hyps) simp_all
    have right: "yields (msort_par cmp es bytes plan ys mid hi k) (range_sorted mid hi ys)" if "length ys = length xs" for ys k
      using mid less.prems b that by (intro less.hyps) simp_all
    have merged: "yields (msort_merge cmp es bytes zs lo mid hi) (range_sorted lo hi xs)"
      if "range_sorted lo mid xs ys \<and> range_sorted mid hi ys zs \<or> range_sorted mid hi xs ys \<and> range_sorted lo mid ys zs" for ys zs
      using mid less.prems that by (intro merge_halves) simp_all
    have "yields (do { ys \<leftarrow> msort_par cmp es bytes plan xs lo mid k; msort_par cmp es bytes plan ys mid hi m })
        (\<lambda>zs. yields (msort_merge cmp es bytes zs lo mid hi) (range_sorted lo hi xs))" for k m
      by (rule yields_bindI [OF left [OF refl]], rule yields_mono [OF right])
        (simp add: range_sorted_def, blast intro: merged)
    moreover have "yields (do { ys \<leftarrow> msort_par cmp es bytes plan xs mid hi k; msort_par cmp es bytes plan ys lo mid m })
        (\<lambda>zs. yields (msort_merge cmp es bytes zs lo mid hi) (range_sorted lo hi xs))" for k m
      by (rule yields_bindI [OF right [OF refl]], rule yields_mono [OF left])
        (simp add: range_sorted_def, blast intro: merged)
    ultimately have "yields (case plan lo hi of
        Inline \<Rightarrow> do { ys \<leftarrow> msort_par cmp es bytes plan xs lo mid 0; msort_par cmp es bytes plan ys mid hi (depth - 1) }
      | Worker_first \<Rightarrow> do { ys \<leftarrow> msort_par cmp es bytes plan xs lo mid (depth - 1); msort_par cmp es bytes plan ys mid hi (depth - 1) }
      | Worker_last \<Rightarrow> do { ys \<leftarrow> msort_par cmp es bytes plan xs mid hi (depth - 1); msort_par cmp es bytes plan ys lo mid (depth - 1) })
      (\<lambda>zs. yields (msort_merge cmp es bytes zs lo mid hi) (range_sorted lo hi xs))"
      by (cases "plan lo hi") (simp_all only: spawn.case)
    then show ?thesis using False by (subst msort_par.simps) (simp add: Let_def flip: mid_def)
  qed
qed

end

section \<open>The contract\<close>

text \<open>The error paths and the final result, for any sort of the first \<open>count\<close> elements through a scratch
  block.\<close>

context scl_allocator
begin

lemma scratch_enough:
  assumes "scl_mul_overflow cnt es = Some bytes" and "malloc_fn a k bytes al = Some tmp"
  shows "unat cnt * unat es \<le> length tmp"
  using scl_mul_overflow_Some [OF assms(1)] malloc_object [OF assms(2)] by simp

end

lemma of_nat_count:
  assumes "n < object_limit"
  shows "unat (of_nat n :: size_t) = n" and "(of_nat n :: size_t) < 2 \<longleftrightarrow> n < 2"
proof -
  have "n < 18446744073709551616" using assms by simp
  then show u: "unat (of_nat n :: size_t) = n" by (simp add: unat_of_nat)
  show "(of_nat n :: size_t) < 2 \<longleftrightarrow> n < 2" by (simp add: word_less_unat u)
qed

lemma merge_sort_eq: "scl_sort_merge_sort = scl_sort_merge"
  by (intro ext) (simp add: scl_sort_merge_sort_def scl_sort_merge_def)

context scl_allocator
begin

lemma merge_sort_result:
  assumes c: "comparator cmp" and len: "length xs < object_limit"
  shows "\<exists>err ys. scl_sort_merge a (Some xs) (of_nat (length xs)) es (Some cmp) = Some (err, Some ys) \<and>
    (if err = SCL_OK then mset ys = mset xs \<and> sorted_cmp cmp ys \<and> same_order cmp xs ys else alloc_failed err \<and> ys = xs)"
proof (cases "length xs < 2")
  case True
  then show ?thesis using comparator.short_sorted [OF c] of_nat_count [OF len] by (simp add: scl_sort_merge_def)
next
  case False
  note n = of_nat_count [OF len]
  show ?thesis
  proof (cases "scl_mul_overflow (of_nat (length xs)) es")
    case None
    then show ?thesis using False n(2) by (simp add: scl_sort_merge_def)
  next
    case (Some bytes)
    show ?thesis
    proof (cases "malloc_fn a 0 bytes max_align")
      case None
      then show ?thesis using False n(2) Some by (simp add: scl_sort_merge_def)
    next
      case (Some tmp)
      have "length xs * unat es \<le> length tmp"
        using scratch_enough [OF \<open>scl_mul_overflow (of_nat (length xs)) es = Some bytes\<close> Some] n(1) by simp
      then have "yields (merge_widths cmp (unat es) (length tmp) (length xs) 1 xs)
          (\<lambda>ys. mset ys = mset xs \<and> sorted_cmp cmp ys \<and> same_order cmp xs ys)"
        by (intro comparator.merge_widths_spec [OF c]) (simp_all add: comparator.runs_one [OF c, unfolded One_nat_def])
      then show ?thesis
        using False n Some \<open>scl_mul_overflow (of_nat (length xs)) es = Some bytes\<close>
        by (auto simp: scl_sort_merge_def yields_iff)
    qed
  qed
qed

lemma merge_sort_mt_result:
  assumes c: "comparator cmp" and len: "length xs < object_limit" and es: "es \<noteq> 0"
  shows "\<exists>err ys. scl_sort_merge_sort_mt a online plan (Some xs) (of_nat (length xs)) es (Some cmp) k = Some (err, Some ys) \<and>
    (if err = SCL_OK then mset ys = mset xs \<and> sorted_cmp cmp ys \<and> same_order cmp xs ys else alloc_failed err \<and> ys = xs)"
proof (cases "length xs < 2")
  case True
  then show ?thesis using comparator.short_sorted [OF c] of_nat_count [OF len] es by (simp add: scl_sort_merge_sort_mt_def)
next
  case False
  note n = of_nat_count [OF len]
  show ?thesis
  proof (cases "scl_mul_overflow (of_nat (length xs)) es")
    case None
    then show ?thesis using False n(2) es by (simp add: scl_sort_merge_sort_mt_def)
  next
    case (Some bytes)
    show ?thesis
    proof (cases "malloc_fn a 0 bytes max_align")
      case None
      then show ?thesis using False n(2) Some es by (simp add: scl_sort_merge_sort_mt_def Let_def)
    next
      case (Some tmp)
      have b: "(length xs - 0) * unat es \<le> length tmp"
        using scratch_enough [OF \<open>scl_mul_overflow (of_nat (length xs)) es = Some bytes\<close> Some] n(1) by simp
      have whole: "mset ys = mset xs \<and> sorted_cmp cmp ys \<and> same_order cmp xs ys"
        if "comparator.range_sorted cmp 0 (length xs) xs ys" for ys
        using that by (auto simp: comparator.range_sorted_def [OF c] segment_def)
      have "yields (if d = 0 then msort_seq cmp (unat es) (length tmp) xs 0 (length xs)
            else msort_par cmp (unat es) (length tmp) plan xs 0 (length xs) d)
          (\<lambda>ys. mset ys = mset xs \<and> sorted_cmp cmp ys \<and> same_order cmp xs ys)"
        for d
        using yields_mono [OF comparator.msort_seq_spec [OF c order_refl b] whole]
          yields_mono [OF comparator.msort_par_spec [OF c order_refl b] whole] by simp
      then obtain ys where "(if depth_budget online k = 0 then msort_seq cmp (unat es) (length tmp) xs 0 (length xs)
            else msort_par cmp (unat es) (length tmp) plan xs 0 (length xs) (depth_budget online k)) = Some ys"
        "mset ys = mset xs" "sorted_cmp cmp ys" "same_order cmp xs ys" unfolding yields_iff by blast
      then show ?thesis
        using False n es Some \<open>scl_mul_overflow (of_nat (length xs)) es = Some bytes\<close>
        by (intro exI [of _ SCL_OK] exI [of _ ys]) (simp add: scl_sort_merge_sort_mt_def Let_def split: if_splits)
    qed
  qed
qed

sublocale merge: stable_sorter "\<lambda>base n cmp. scl_sort_merge a base (of_nat n) es cmp" for es
proof
  show "scl_sort_merge a None (of_nat n) es c = Some (SCL_ERR_NULL_PTR, None)" for n and c :: "('a \<Rightarrow> 'a \<Rightarrow> int) ptr"
    by (simp add: scl_sort_merge_def)
  show "scl_sort_merge a b (of_nat n) es None = Some (SCL_ERR_NULL_PTR, b)" for n and b :: "'a list ptr"
    by (cases b) (simp_all add: scl_sort_merge_def)
  fix cmp :: "'a \<Rightarrow> 'a \<Rightarrow> int" and xs ys :: "'a list"
  assume *: "comparator cmp" "length xs < object_limit"
  from merge_sort_result [OF *, of es] obtain err zs where
    r: "scl_sort_merge a (Some xs) (of_nat (length xs)) es (Some cmp) = Some (err, Some zs)"
    "if err = SCL_OK then mset zs = mset xs \<and> sorted_cmp cmp zs \<and> same_order cmp xs zs else alloc_failed err \<and> zs = xs"
    by blast
  then show "\<exists>err zs. scl_sort_merge a (Some xs) (of_nat (length xs)) es (Some cmp) = Some (err, Some zs) \<and>
    (if err = SCL_OK then mset zs = mset xs \<and> sorted_cmp cmp zs else alloc_failed err \<and> zs = xs)"
    by (intro exI [of _ err] exI [of _ zs]) (simp split: if_splits)
  show "same_order cmp xs ys" if "scl_sort_merge a (Some xs) (of_nat (length xs)) es (Some cmp) = Some (SCL_OK, Some ys)"
    using r that by simp
qed

end

end
