(* ===== verification/Scl_Sort_Quick.thy ===== *)
theory Scl_Sort_Quick
  imports Scl_Sort
begin

text \<open>
  The two iterative quicksorts: \<open>scl_sort_quick\<close> of \<open>libs/sort/scl_sort.c\<close>, which partitions around
  the last element, and \<open>scl_sort_quick_sort\<close> of \<open>libs/sort/quick/scl_quick.c\<close>, with a median-of-three
  pivot and insertion sort below 17 elements. Both keep the pending ranges in \<open>long stack[256]\<close>; the
  model runs out of results when a push would not fit, so the theorems also show it never does. The
  first one sorts. The second one compares with the slot the pivot was moved out of and does not
  (\<open>quick_sort_unsorted\<close>); what it does keep is the elements.
\<close>

section \<open>Ranges and the explicit stack\<close>

type_synonym ranges = "(int \<times> int) list"

text \<open>\<open>stack[++sp] = l; stack[++sp] = r;\<close> with room for 128 ranges.\<close>

definition push_range :: "int \<Rightarrow> int \<Rightarrow> ranges \<Rightarrow> ranges ub" where
  "push_range l r stk = (if length stk < 128 then Some ((l, r) # stk) else None)"

text \<open>The smaller part goes on top.\<close>

definition push_parts :: "int \<Rightarrow> int \<Rightarrow> int \<Rightarrow> ranges \<Rightarrow> ranges ub" where
  "push_parts l i r stk =
     (if i - 1 - l < r - (i + 1) then do { stk \<leftarrow> push_range (i + 1) r stk; push_range l (i - 1) stk }
      else do { stk \<leftarrow> push_range l (i - 1) stk; push_range (i + 1) r stk })"

text \<open>One step of the partition loop: \<open>i\<close> starts one below the range, and the pivot is read from slot
  \<open>p\<close> at every comparison.\<close>

definition part_step :: "('a \<Rightarrow> 'a \<Rightarrow> int) \<Rightarrow> nat \<Rightarrow> nat \<Rightarrow> 'a list \<times> int \<Rightarrow> ('a list \<times> int) ub" where
  "part_step cmp p j st = (case st of (xs, i) \<Rightarrow> do {
     a \<leftarrow> at xs j;
     b \<leftarrow> at xs p;
     if cmp a b < 0 then do {
       let i = i + 1;
       xs \<leftarrow> (if i \<noteq> int j then swap_at xs (nat i) j else Some xs);
       Some (xs, i)
     } else Some (xs, i)
   })"

definition partition_at :: "('a \<Rightarrow> 'a \<Rightarrow> int) \<Rightarrow> nat \<Rightarrow> 'a list \<Rightarrow> nat \<Rightarrow> nat \<Rightarrow> ('a list \<times> int) ub" where
  "partition_at cmp p xs l r = do {
     (xs, i) \<leftarrow> for_up l r (part_step cmp p) (xs, int l - 1);
     let i = i + 1;
     xs \<leftarrow> (if i \<noteq> int r then swap_at xs (nat i) r else Some xs);
     Some (xs, i)
   }"

lemma partition_bounds:
  assumes "partition_at cmp p xs l r = Some (ys, i)" and "l \<le> r"
  shows "int l \<le> i \<and> i \<le> int r \<and> length ys = length xs"
proof -
  from assms(1) obtain zs k where loop: "for_up l r (part_step cmp p) (xs, int l - 1) = Some (zs, k)"
    and rest: "i = k + 1" "(if k + 1 \<noteq> int r then swap_at zs (nat (k + 1)) r else Some zs) = Some ys"
    by (auto simp: partition_at_def bind_eq_Some_conv Let_def)
  have "case (zs, k) of (zs, k) \<Rightarrow> int l - 1 \<le> k \<and> k < int r \<and> length zs = length xs"
    by (rule for_up_partial [OF loop, of "\<lambda>j (zs, k). int l - 1 \<le> k \<and> k < int j \<and> length zs = length xs"])
      (use assms(2) in \<open>auto simp: part_step_def bind_eq_Some_conv Let_def swap_at_def split: if_splits\<close>)
  then show ?thesis using rest by (auto simp: swap_at_def split: if_splits)
qed

section \<open>\<open>scl_sort_quick\<close>\<close>

definition pending :: "ranges \<Rightarrow> nat" where
  "pending stk = (\<Sum>(l, r) \<leftarrow> stk. 2 * nat (r - l + 1) + 1)"

lemma pending_simps [simp]: "pending [] = 0" "pending ((l, r) # stk) = 2 * nat (r - l + 1) + 1 + pending stk"
  by (simp_all add: pending_def)

lemma pending_parts:
  "push_parts l i r stk = Some stk' \<Longrightarrow> l \<le> i \<Longrightarrow> i \<le> r \<Longrightarrow> pending stk' < pending ((l, r) # stk)"
  by (auto simp: push_parts_def push_range_def split: if_splits)

function quick_loop :: "('a \<Rightarrow> 'a \<Rightarrow> int) \<Rightarrow> ranges \<Rightarrow> 'a list \<Rightarrow> 'a list ub" where
  "quick_loop cmp [] xs = Some xs"
| "quick_loop cmp ((l, r) # stk) xs =
     (if r \<le> l then quick_loop cmp stk xs
      else if l < 0 then None
      else do {
        (xs, i) \<leftarrow> partition_at cmp (nat r) xs (nat l) (nat r);
        stk \<leftarrow> push_parts l i r stk;
        quick_loop cmp stk xs
      })"
  by pat_completeness auto
termination
proof (relation "measure (\<lambda>(cmp, stk, xs). pending stk)", goal_cases)
  case (3 cmp l r stk xs yi ys i stk')
  then have "int (nat l) \<le> i \<and> i \<le> int (nat r)" using partition_bounds [of cmp "nat r" xs "nat l" "nat r" ys i] by simp
  then show ?case using 3 pending_parts [of l i r stk stk'] by simp
qed auto

definition scl_sort_quick :: "'a list ptr \<Rightarrow> nat \<Rightarrow> ('a \<Rightarrow> 'a \<Rightarrow> int) ptr \<Rightarrow> (scl_error_t \<times> 'a list ptr) ub" where
  "scl_sort_quick base cnt cmp =
     (case (base, cmp) of
        (Some xs, Some c) \<Rightarrow>
          if cnt < 2 then Some (SCL_OK, base)
          else do { ys \<leftarrow> quick_loop c [(0, int cnt - 1)] xs; Some (SCL_OK, Some ys) }
      | _ \<Rightarrow> Some (SCL_ERR_NULL_PTR, base))"

section \<open>\<open>scl_sort_quick_sort\<close>\<close>

definition median_of_three :: "('a \<Rightarrow> 'a \<Rightarrow> int) \<Rightarrow> 'a list \<Rightarrow> nat \<Rightarrow> nat \<Rightarrow> nat \<Rightarrow> nat ub" where
  "median_of_three cmp xs a b c = do {
     pa \<leftarrow> at xs a;
     pb \<leftarrow> at xs b;
     pc \<leftarrow> at xs c;
     Some (if cmp pa pb < 0
           then (if cmp pb pc < 0 then b else if cmp pa pc < 0 then c else a)
           else (if cmp pa pc < 0 then a else if cmp pb pc < 0 then c else b))
   }"

text \<open>\<open>while (j >= l && cmp(base[j], key) > 0) { base[j + 1] = base[j]; j--; } base[j + 1] = key;\<close> with \<open>j\<close>
  one above the index read, so that it stays a natural number.\<close>

fun shift_in :: "('a \<Rightarrow> 'a \<Rightarrow> int) \<Rightarrow> nat \<Rightarrow> 'a \<Rightarrow> nat \<Rightarrow> 'a list \<Rightarrow> 'a list ub" where
  "shift_in cmp l key 0 xs = put_at xs 0 key"
| "shift_in cmp l key (Suc j) xs =
     (if j < l then put_at xs (Suc j) key
      else do {
        a \<leftarrow> at xs j;
        if 0 < cmp a key then do { xs \<leftarrow> put_at xs (Suc j) a; shift_in cmp l key j xs }
        else put_at xs (Suc j) key
      })"

definition insertion_range :: "('a \<Rightarrow> 'a \<Rightarrow> int) \<Rightarrow> nat \<Rightarrow> nat \<Rightarrow> 'a list \<Rightarrow> 'a list ub" where
  "insertion_range cmp l r xs =
     for_up (l + 1) (r + 1) (\<lambda>i xs. do { key \<leftarrow> at xs i; shift_in cmp l key i xs }) xs"

text \<open>The loop, with the number of calls made to the default allocator: elements above 256 bytes need
  a heap buffer for the key at every small range.\<close>

function quick_sort_loop ::
    "scl_allocator_t \<Rightarrow> size_t \<Rightarrow> ('a \<Rightarrow> 'a \<Rightarrow> int) \<Rightarrow> nat \<Rightarrow> ranges \<Rightarrow> 'a list \<Rightarrow> (scl_error_t \<times> 'a list) ub" where
  "quick_sort_loop a es cmp k [] xs = Some (SCL_OK, xs)"
| "quick_sort_loop a es cmp k ((l, r) # stk) xs =
     (if r \<le> l then quick_sort_loop a es cmp k stk xs
      else if l < 0 then None
      else if r - l + 1 \<le> 16 then
        (if 256 < es then
           (case malloc_fn a k es max_align of
              None \<Rightarrow> Some (SCL_ERR_OUT_OF_MEMORY, xs)
            | Some _ \<Rightarrow> do {
                xs \<leftarrow> insertion_range cmp (nat l) (nat r) xs;
                quick_sort_loop a es cmp (Suc k) stk xs
              })
         else do {
           xs \<leftarrow> insertion_range cmp (nat l) (nat r) xs;
           quick_sort_loop a es cmp k stk xs
         })
      else do {
        let mid = l + (r - l) div 2;
        p_idx \<leftarrow> median_of_three cmp xs (nat l) (nat mid) (nat r);
        xs \<leftarrow> (if int p_idx \<noteq> r then swap_at xs p_idx (nat r) else Some xs);
        (xs, i) \<leftarrow> partition_at cmp p_idx xs (nat l) (nat r);
        stk \<leftarrow> push_parts l i r stk;
        quick_sort_loop a es cmp k stk xs
      })"
  by pat_completeness auto
termination
proof (relation "measure (\<lambda>(a, es, cmp, k, stk, xs). pending stk)", goal_cases)
  case (5 a es cmp k l r stk xs mid p_idx ys zi zs i stk')
  then have "int (nat l) \<le> i \<and> i \<le> int (nat r)" using partition_bounds [of cmp p_idx ys "nat l" "nat r" zs i] by simp
  then show ?case using 5 pending_parts [of l i r stk stk'] by simp
qed auto

definition scl_sort_quick_sort ::
    "scl_allocator_t \<Rightarrow> 'a list ptr \<Rightarrow> nat \<Rightarrow> size_t \<Rightarrow> ('a \<Rightarrow> 'a \<Rightarrow> int) ptr \<Rightarrow> (scl_error_t \<times> 'a list ptr) ub" where
  "scl_sort_quick_sort a base cnt es cmp =
     (case (base, cmp) of
        (Some xs, Some c) \<Rightarrow>
          if cnt < 2 then Some (SCL_OK, base)
          else do { (err, ys) \<leftarrow> quick_sort_loop a es c 0 [(0, int cnt - 1)] xs; Some (err, Some ys) }
      | _ \<Rightarrow> Some (SCL_ERR_NULL_PTR, base))"


section \<open>Rearranging inside a range\<close>

definition range_perm :: "nat \<Rightarrow> nat \<Rightarrow> 'a list \<Rightarrow> 'a list \<Rightarrow> bool" where
  "range_perm l r xs ys \<longleftrightarrow> length ys = length xs \<and> mset ys = mset xs \<and>
     (\<forall>k. k < l \<or> r < k \<longrightarrow> ys ! k = xs ! k) \<and> (\<forall>k. l \<le> k \<and> k \<le> r \<longrightarrow> (\<exists>m. l \<le> m \<and> m \<le> r \<and> ys ! k = xs ! m))"

lemma range_perm_refl [simp]: "range_perm l r xs xs"
  by (auto simp: range_perm_def)

lemma range_perm_trans: "range_perm l r xs ys \<Longrightarrow> range_perm l r ys zs \<Longrightarrow> range_perm l r xs zs"
  unfolding range_perm_def by (metis (no_types))

lemma range_perm_swap:
  assumes "l \<le> i" and "i \<le> r" and "l \<le> j" and "j \<le> r" and "r < length xs"
  shows "range_perm l r xs (xs[i := xs ! j, j := xs ! i])"
proof -
  have "i < length xs" "j < length xs" using assms by simp_all
  then show ?thesis using assms unfolding range_perm_def by (auto simp: nth_swap mset_swap)
qed

text \<open>The partition loop keeps the elements smaller than what slot \<open>p\<close> held at each comparison in
  front. Whatever slot it is, the loop stays in its range and permutes.\<close>

lemma partition_permutes:
  assumes "l \<le> r" and "r < length xs" and "p < length xs"
  shows "yields (partition_at cmp p xs l r) (\<lambda>st. case st of (ys, i) \<Rightarrow>
    int l \<le> i \<and> i \<le> int r \<and> range_perm l r xs ys)"
proof -
  have step: "yields (part_step cmp p j st) (\<lambda>st. case st of (zs, k) \<Rightarrow> int l - 1 \<le> k \<and> k < int (Suc j) \<and> range_perm l r xs zs)"
    if j: "l \<le> j" "j < r" and inv: "case st of (zs, k) \<Rightarrow> int l - 1 \<le> k \<and> k < int j \<and> range_perm l r xs zs" for j st
  proof -
    obtain zs k where st: "st = (zs, k)" by (cases st)
    have zs: "int l - 1 \<le> k" "k < int j" "range_perm l r xs zs" "length zs = length xs"
      using inv by (auto simp: st range_perm_def)
    have "nat (k + 1) < length zs" "j < length zs" "p < length zs" using zs j assms by simp_all
    moreover have "range_perm l r xs (zs[nat (k + 1) := zs ! j, j := zs ! nat (k + 1)])"
      using zs j assms by (intro range_perm_trans [OF zs(3)] range_perm_swap) simp_all
    ultimately show ?thesis using zs by (simp add: part_step_def st Let_def)
  qed
  have "yields (for_up l r (part_step cmp p) (xs, int l - 1))
      (\<lambda>st. case st of (zs, k) \<Rightarrow> int l - 1 \<le> k \<and> k < int r \<and> range_perm l r xs zs)"
    by (rule for_up_inv [of "\<lambda>j st. case st of (zs, k) \<Rightarrow> int l - 1 \<le> k \<and> k < int j \<and> range_perm l r xs zs"])
      (use assms(1) step in auto)
  then obtain zs k where run: "for_up l r (part_step cmp p) (xs, int l - 1) = Some (zs, k)"
    and zs: "int l - 1 \<le> k" "k < int r" "range_perm l r xs zs" by auto
  have len: "length zs = length xs" using zs(3) by (simp add: range_perm_def)
  have "nat (k + 1) < length zs" "r < length zs" using zs(1,2) assms len by simp_all
  moreover have "range_perm l r xs (zs[nat (k + 1) := zs ! r, r := zs ! nat (k + 1)])"
    using zs len assms by (intro range_perm_trans [OF zs(3)] range_perm_swap) simp_all
  ultimately show ?thesis using zs by (simp add: partition_at_def run Let_def)
qed

section \<open>The stack never overflows\<close>

text \<open>A range with \<open>d\<close> ranges below it has at most \<open>n / 2 ^ d\<close> elements.\<close>

fun halving :: "nat \<Rightarrow> ranges \<Rightarrow> bool" where
  "halving n [] \<longleftrightarrow> True"
| "halving n ((l, r) # stk) \<longleftrightarrow> 2 ^ length stk * nat (r - l + 1) \<le> n \<and> halving n stk"

lemma push_parts_fits:
  assumes h: "halving n ((l, r) # stk)" and n: "n < 2 ^ 63" and lr: "l < r" and i: "l \<le> i" "i \<le> r"
  shows "\<exists>p q. push_parts l i r stk = Some (p # q # stk) \<and> halving n (p # q # stk) \<and>
    (p, q) \<in> {((l, i - 1), (i + 1, r)), ((i + 1, r), (l, i - 1))}"
proof -
  let ?m = "nat (r - l + 1)"
  have "2 * 2 ^ length stk \<le> ?m * 2 ^ length stk" using lr by (intro mult_le_mono1) simp
  also have "\<dots> \<le> n" using h by (simp add: mult.commute)
  finally have "2 ^ Suc (length stk) < (2::nat) ^ 63" using n by simp
  then have small: "length stk < 62" by (metis Suc_less_eq numeral_nat(2) power_less_imp_less_exp one_less_numeral_iff semiring_norm(76) eval_nat_numeral(3) Suc_numeral)
  have part: "halving n ((l1, r1) # (l2, r2) # stk)"
    if "2 * nat (r1 - l1 + 1) \<le> ?m" "nat (r2 - l2 + 1) \<le> ?m" for l1 r1 l2 r2
  proof -
    have m: "2 ^ length stk * ?m \<le> n" "halving n stk" using h by simp_all
    have "2 ^ length stk * (2 * nat (r1 - l1 + 1)) \<le> n" "2 ^ length stk * nat (r2 - l2 + 1) \<le> n"
      using m(1) mult_le_mono2 [OF that(1)] mult_le_mono2 [OF that(2)] order_trans by blast+
    moreover have "2 ^ length ((l2, r2) # stk) * nat (r1 - l1 + 1) = 2 ^ length stk * (2 * nat (r1 - l1 + 1))" by simp
    ultimately show ?thesis using m(2) by (simp only: halving.simps simp_thms)
  qed
  show ?thesis
  proof (cases "i - 1 - l < r - (i + 1)")
    case True
    then have "push_parts l i r stk = Some ((l, i - 1) # (i + 1, r) # stk)"
      using small by (simp add: push_parts_def push_range_def)
    moreover have "halving n ((l, i - 1) # (i + 1, r) # stk)" using True i lr by (intro part) auto
    ultimately show ?thesis by blast
  next
    case False
    then have "push_parts l i r stk = Some ((i + 1, r) # (l, i - 1) # stk)"
      using small by (simp add: push_parts_def push_range_def)
    moreover have "halving n ((i + 1, r) # (l, i - 1) # stk)" using False i lr by (intro part) auto
    ultimately show ?thesis by blast
  qed
qed

section \<open>\<open>scl_sort_quick\<close> sorts\<close>

definition split_at :: "('a \<Rightarrow> 'a \<Rightarrow> int) \<Rightarrow> 'a \<Rightarrow> nat \<Rightarrow> nat \<Rightarrow> 'a list \<times> int \<Rightarrow> bool" where
  "split_at cmp v l j st \<longleftrightarrow> (case st of (zs, k) \<Rightarrow>
     (\<forall>m. int l \<le> int m \<and> int m \<le> k \<longrightarrow> cmp (zs ! m) v < 0) \<and>
     (\<forall>m. k < int m \<and> m < j \<longrightarrow> 0 \<le> cmp (zs ! m) v))"

definition part_inv :: "('a \<Rightarrow> 'a \<Rightarrow> int) \<Rightarrow> 'a list \<Rightarrow> nat \<Rightarrow> nat \<Rightarrow> nat \<Rightarrow> 'a list \<times> int \<Rightarrow> bool" where
  "part_inv cmp xs l r j st \<longleftrightarrow> (case st of (zs, k) \<Rightarrow>
     int l - 1 \<le> k \<and> k < int j \<and> range_perm l r xs zs \<and> zs ! r = xs ! r) \<and> split_at cmp (xs ! r) l j st"

lemma part_step_inv:
  assumes inv: "part_inv cmp xs l r j st" and j: "l \<le> j" "j < r" and r: "r < length xs"
  shows "yields (part_step cmp r j st) (part_inv cmp xs l r (Suc j))"
proof -
  obtain zs k where st: "st = (zs, k)" by (cases st)
  have zs: "int l - 1 \<le> k" "k < int j" "range_perm l r xs zs" "zs ! r = xs ! r" "length zs = length xs"
    and sp: "split_at cmp (xs ! r) l j (zs, k)"
    using inv by (auto simp: st part_inv_def range_perm_def)
  show ?thesis
  proof (cases "cmp (zs ! j) (xs ! r) < 0")
    case False
    then have "split_at cmp (xs ! r) l (Suc j) (zs, k)" using sp by (auto simp: split_at_def less_Suc_eq)
    then show ?thesis using False zs j r by (simp add: part_step_def st part_inv_def)
  next
    case True
    let ?i = "nat (k + 1)"
    let ?ys = "zs[?i := zs ! j, j := zs ! ?i]"
    have i: "int ?i = k + 1" "?i \<le> j" "l \<le> ?i" using zs(1,2) by simp_all
    have nth: "?ys ! m = (if m = ?i then zs ! j else if m = j then zs ! ?i else zs ! m)" for m
      by (rule nth_swap) (use i j r zs(5) in simp_all)
    have "range_perm l r xs ?ys"
      using zs i j r by (intro range_perm_trans [OF zs(3)] range_perm_swap) simp_all
    moreover have "split_at cmp (xs ! r) l (Suc j) (?ys, k + 1)"
      using sp True i j unfolding split_at_def by (auto simp: nth less_Suc_eq le_less)
    moreover have "?ys ! r = xs ! r" using nth [of r] i j zs(4) by simp
    moreover have "(if k + 1 \<noteq> int j then swap_at zs ?i j else Some zs) = Some ?ys"
      using i j r zs(5) by auto
    ultimately show ?thesis using True zs j r
      by (simp add: part_step_def st part_inv_def Let_def del: nat_add_distrib)
  qed
qed

lemma partition_spec:
  assumes cmp: "comparator cmp" and lr: "l \<le> r" "r < length xs"
  shows "yields (partition_at cmp r xs l r) (\<lambda>st. case st of (ys, i) \<Rightarrow>
    int l \<le> i \<and> i \<le> int r \<and> range_perm l r xs ys \<and>
    (\<forall>m. l \<le> m \<and> int m < i \<longrightarrow> cmp (ys ! m) (ys ! nat i) \<le> 0) \<and>
    (\<forall>m. i < int m \<and> m \<le> r \<longrightarrow> cmp (ys ! nat i) (ys ! m) \<le> 0))"
proof -
  have "yields (for_up l r (part_step cmp r) (xs, int l - 1)) (part_inv cmp xs l r r)"
  proof (rule for_up_inv [of "part_inv cmp xs l r"])
    show "part_inv cmp xs l r l (xs, int l - 1)" by (auto simp: part_inv_def split_at_def)
    show "yields (part_step cmp r j st) (part_inv cmp xs l r (Suc j))"
      if "l \<le> j" "j < r" "part_inv cmp xs l r j st" for j st
      using that(3,1,2) lr(2) by (rule part_step_inv)
  qed (rule lr(1))
  then obtain zs k where run: "for_up l r (part_step cmp r) (xs, int l - 1) = Some (zs, k)"
    and inv: "part_inv cmp xs l r r (zs, k)" by (auto simp: yields_iff)
  have zs: "int l - 1 \<le> k" "k < int r" "range_perm l r xs zs" "zs ! r = xs ! r" "length zs = length xs"
    and sp: "split_at cmp (xs ! r) l r (zs, k)"
    using inv by (auto simp: part_inv_def range_perm_def)
  let ?i = "nat (k + 1)"
  define ys where "ys = zs[?i := zs ! r, r := zs ! ?i]"
  have i: "int ?i = k + 1" "?i \<le> r" "l \<le> ?i" using zs(1,2) by simp_all
  have nth: "ys ! m = (if m = ?i then xs ! r else if m = r then zs ! ?i else zs ! m)" for m
    unfolding zs(4) [symmetric] ys_def by (rule nth_swap) (use i lr zs(5) in simp_all)
  have "cmp (ys ! m) (ys ! ?i) \<le> 0" if "l \<le> m" "int m < k + 1" for m
    using sp that i by (auto simp: nth split_at_def comparator.cmp_self [OF cmp] intro: less_imp_le)
  moreover have "cmp (ys ! ?i) (ys ! m) \<le> 0" if m: "k + 1 < int m" "m \<le> r" for m
  proof -
    have "k < int (if m = r then ?i else m) \<and> (if m = r then ?i else m) < r"
    proof (cases "m = r")
      case True
      then have "k < int ?i" "?i < r" using m i(1) by linarith+
      then show ?thesis using True by simp
    next
      case False
      then show ?thesis using m by simp
    qed
    then have "0 \<le> cmp (zs ! (if m = r then ?i else m)) (xs ! r)"
      using sp unfolding split_at_def prod.case by blast
    then show ?thesis using m i comparator.cmp_le_iff [OF cmp] by (auto simp: nth)
  qed
  moreover have "range_perm l r xs ys"
    unfolding ys_def using zs i lr by (intro range_perm_trans [OF zs(3)] range_perm_swap) simp_all
  moreover have "(if k + 1 \<noteq> int r then swap_at zs ?i r else Some zs) = Some ys"
    using i lr zs(5) by (auto simp: ys_def)
  ultimately show ?thesis using zs(1,2) by (simp add: partition_at_def run Let_def del: nat_add_distrib)
qed

text \<open>Two positions may be out of order only inside one pending range, and the pending ranges are
  disjoint.\<close>

definition same_range :: "ranges \<Rightarrow> nat \<Rightarrow> nat \<Rightarrow> bool" where
  "same_range stk a b \<longleftrightarrow> (\<exists>(l, r) \<in> set stk. l \<le> int a \<and> int b \<le> r)"

definition apart :: "int \<times> int \<Rightarrow> int \<times> int \<Rightarrow> bool" where
  "apart p q \<longleftrightarrow> (\<forall>k. \<not> (fst p \<le> k \<and> k \<le> snd p \<and> fst q \<le> k \<and> k \<le> snd q))"

definition quick_inv :: "('a \<Rightarrow> 'a \<Rightarrow> int) \<Rightarrow> 'a list \<Rightarrow> ranges \<Rightarrow> 'a list \<Rightarrow> bool" where
  "quick_inv cmp xs0 stk xs \<longleftrightarrow> length xs = length xs0 \<and> mset xs = mset xs0 \<and> halving (length xs0) stk \<and>
     (\<forall>(l, r) \<in> set stk. 0 \<le> l \<and> r < int (length xs0)) \<and> sorted_wrt apart stk \<and>
     (\<forall>a b. a < b \<and> b < length xs0 \<longrightarrow> cmp (xs ! a) (xs ! b) \<le> 0 \<or> same_range stk a b)"

lemma quick_inv_drop:
  assumes "quick_inv cmp xs0 ((l, r) # stk) xs" and "r \<le> l"
  shows "quick_inv cmp xs0 stk xs"
proof -
  have "same_range stk a b" if "same_range ((l, r) # stk) a b" "a < b" for a b
    using that assms(2) by (auto simp: same_range_def)
  then show ?thesis using assms(1) by (simp add: quick_inv_def) blast
qed

lemma quick_inv_split:
  assumes cmp: "comparator cmp" and inv: "quick_inv cmp xs0 ((l, r) # stk) xs" and lr: "l < r"
    and ys: "int (nat l) \<le> i" "i \<le> int (nat r)" "range_perm (nat l) (nat r) xs ys"
      "\<forall>m. nat l \<le> m \<and> int m < i \<longrightarrow> cmp (ys ! m) (ys ! nat i) \<le> 0"
      "\<forall>m. i < int m \<and> m \<le> nat r \<longrightarrow> cmp (ys ! nat i) (ys ! m) \<le> 0"
    and stk: "halving (length xs0) (p # q # stk)" "(p, q) \<in> {((l, i - 1), (i + 1, r)), ((i + 1, r), (l, i - 1))}"
  shows "quick_inv cmp xs0 (p # q # stk) ys"
proof -
  have l0: "0 \<le> l" and rn: "r < int (length xs0)" and ap: "\<forall>q \<in> set stk. apart (l, r) q" "sorted_wrt apart stk"
    and len: "length xs = length xs0"
    using inv by (auto simp: quick_inv_def)
  have set: "set (p # q # stk) = {(l, i - 1), (i + 1, r)} \<union> set stk" using stk(2) by auto
  have sr: "same_range (p # q # stk) a b \<longleftrightarrow>
      (l \<le> int a \<and> int b \<le> i - 1) \<or> (i + 1 \<le> int a \<and> int b \<le> r) \<or> same_range stk a b" for a b
    unfolding same_range_def set by auto
  have li: "l \<le> i" "i \<le> r" using ys(1,2) l0 lr by simp_all
  have out: "ys ! m = xs ! m" if "int m < l \<or> r < int m" for m
  proof -
    have "m < nat l \<or> nat r < m" using that l0 lr by linarith
    then show ?thesis using ys(3) by (auto simp: range_perm_def)
  qed
  have inn: "\<exists>m'. l \<le> int m' \<and> int m' \<le> r \<and> ys ! m = xs ! m'" if "l \<le> int m" "int m \<le> r" for m
  proof -
    have "nat l \<le> m" "m \<le> nat r" using that l0 lr by linarith+
    then obtain m' where "nat l \<le> m'" "m' \<le> nat r" "ys ! m = xs ! m'"
      using ys(3) unfolding range_perm_def by blast
    moreover have "l \<le> int m'" "int m' \<le> r" using \<open>nat l \<le> m'\<close> \<open>m' \<le> nat r\<close> l0 lr by linarith+
    ultimately show ?thesis by blast
  qed
  have ord: "cmp (xs ! a) (xs ! b) \<le> 0 \<or> same_range ((l, r) # stk) a b" if "a < b" "b < length xs0" for a b
    using inv that by (auto simp: quick_inv_def)
  have alone: "\<not> same_range stk a b" if "l \<le> int a \<and> int a \<le> r \<or> l \<le> int b \<and> int b \<le> r" "a < b" for a b
  proof
    assume "same_range stk a b"
    then obtain l' r' where "(l', r') \<in> set stk" "l' \<le> int a" "int b \<le> r'" by (auto simp: same_range_def)
    then have "apart (l, r) (l', r')" "l' \<le> int a \<and> int a \<le> r'" "l' \<le> int b \<and> int b \<le> r'" using ap(1) that(2) by auto
    then show False using that(1) unfolding apart_def fst_conv snd_conv by blast
  qed
  have "cmp (ys ! a) (ys ! b) \<le> 0 \<or> same_range (p # q # stk) a b" if ab: "a < b" "b < length xs0" for a b
  proof -
    consider (both) "l \<le> int a" "int b \<le> r" | (left) "int a < l" "l \<le> int b" "int b \<le> r"
      | (right) "l \<le> int a" "int a \<le> r" "r < int b" | (out) "int a < l \<or> r < int a" "int b < l \<or> r < int b"
      using ab(1) by linarith
    then show ?thesis
    proof cases
      case both
      consider "int b < i" | "i < int a" | "int a \<le> i" "i \<le> int b" by linarith
      then show ?thesis
      proof cases
        case 3
        have ia: "cmp (ys ! a) (ys ! nat i) \<le> 0" if "a \<noteq> nat i"
        proof -
          have "nat l \<le> a" "int a < i" using that 3 both by linarith+
          then show ?thesis using ys(4) by blast
        qed
        have ib: "cmp (ys ! nat i) (ys ! b) \<le> 0" if "b \<noteq> nat i"
        proof -
          have "b \<le> nat r" "i < int b" using that 3 both l0 by linarith+
          then show ?thesis using ys(5) by blast
        qed
        show ?thesis
          using ia ib ab(1) comparator.cmp_trans [OF cmp, of "ys ! a" "ys ! nat i" "ys ! b"]
          by (cases "a = nat i"; cases "b = nat i") auto
      qed (use both in \<open>simp_all add: sr\<close>)
    next
      case left
      then obtain m where m: "l \<le> int m" "int m \<le> r" "ys ! b = xs ! m" using inn by blast
      have "\<not> same_range ((l, r) # stk) a m" using alone [of a m] left(1) m by (auto simp: same_range_def)
      then show ?thesis using ord [of a m] m left(1) rn out [of a] by auto
    next
      case right
      then obtain m where m: "l \<le> int m" "int m \<le> r" "ys ! a = xs ! m" using inn by blast
      have "\<not> same_range ((l, r) # stk) m b" using alone [of m b] right(3) m by (auto simp: same_range_def)
      then show ?thesis using ord [of m b] m right(3) ab(2) out [of b] by auto
    next
      case out
      then have "ys ! a = xs ! a" "ys ! b = xs ! b" using \<open>\<And>m. int m < l \<or> r < int m \<Longrightarrow> ys ! m = xs ! m\<close> by blast+
      moreover have "same_range ((l, r) # stk) a b \<Longrightarrow> same_range stk a b"
        using out ab(1) by (auto simp: same_range_def)
      then have "same_range ((l, r) # stk) a b \<Longrightarrow> same_range (p # q # stk) a b" by (simp add: sr)
      ultimately show ?thesis using ord [OF ab] by auto
    qed
  qed
  moreover have "sorted_wrt apart (p # q # stk)"
    using ap stk(2) li by (auto simp: apart_def)
  moreover have "\<forall>(l', r') \<in> set (p # q # stk). 0 \<le> l' \<and> r' < int (length xs0)"
    using inv li l0 rn unfolding set by (auto simp: quick_inv_def)
  ultimately show ?thesis using stk(1) ys(3) inv by (simp add: quick_inv_def range_perm_def)
qed

lemma quick_loop_spec:
  assumes cmp: "comparator cmp" and n: "length xs0 < 2 ^ 63"
  shows "quick_inv cmp xs0 stk xs \<Longrightarrow> yields (quick_loop cmp stk xs) (\<lambda>ys. mset ys = mset xs0 \<and> sorted_cmp cmp ys)"
proof (induction "pending stk" arbitrary: stk xs rule: less_induct)
  case less
  show ?case
  proof (cases stk)
    case Nil
    then have "sorted_cmp cmp xs"
      using less.prems by (intro comparator.sorted_cmp_adjacent [OF cmp]) (auto simp: quick_inv_def same_range_def)
    then show ?thesis using Nil less.prems by (simp add: quick_inv_def)
  next
    case (Cons top rest)
    then obtain l r where stk: "stk = (l, r) # rest" by (cases top) simp
    show ?thesis
    proof (cases "r \<le> l")
      case True
      have "quick_inv cmp xs0 rest xs" using less.prems True unfolding stk by (rule quick_inv_drop)
      then show ?thesis using True less.hyps [of rest xs] by (simp add: stk)
    next
      case False
      have lr: "0 \<le> l" "r < int (length xs)" "halving (length xs0) ((l, r) # rest)"
        using less.prems by (simp_all add: quick_inv_def stk)
      then have "nat l \<le> nat r" "nat r < length xs" using False by simp_all
      from partition_spec [OF cmp this] obtain ys i where run: "partition_at cmp (nat r) xs (nat l) (nat r) = Some (ys, i)"
        and ys: "int (nat l) \<le> i" "i \<le> int (nat r)" "range_perm (nat l) (nat r) xs ys"
          "\<forall>m. nat l \<le> m \<and> int m < i \<longrightarrow> cmp (ys ! m) (ys ! nat i) \<le> 0"
          "\<forall>m. i < int m \<and> m \<le> nat r \<longrightarrow> cmp (ys ! nat i) (ys ! m) \<le> 0"
        by auto
      have li: "l \<le> i" "i \<le> r" "l < r" using ys(1,2) lr(1) False by simp_all
      from push_parts_fits [OF lr(3) n li(3,1,2)] obtain p q where pq: "push_parts l i r rest = Some (p # q # rest)"
        "halving (length xs0) (p # q # rest)" "(p, q) \<in> {((l, i - 1), (i + 1, r)), ((i + 1, r), (l, i - 1))}" by blast
      have "quick_inv cmp xs0 (p # q # rest) ys"
        using quick_inv_split [OF cmp less.prems [unfolded stk] li(3) ys pq(2,3)] .
      then have "yields (quick_loop cmp (p # q # rest) ys) (\<lambda>ys. mset ys = mset xs0 \<and> sorted_cmp cmp ys)"
        using pending_parts [OF pq(1) li(1,2)] by (intro less.hyps) (simp add: stk)
      then show ?thesis using False lr(1) run pq(1) by (simp add: stk)
    qed
  qed
qed

lemma quick_run_sort: "scl_sort_quick = run_sort (\<lambda>cmp cnt. quick_loop cmp [(0, int cnt - 1)])"
  by (intro ext, simp add: scl_sort_quick_def run_sort_def)

interpretation quick: in_place_sorter scl_sort_quick
  unfolding quick_run_sort
proof (rule run_sort_sorter)
  fix cmp :: "'a \<Rightarrow> 'a \<Rightarrow> int" and xs :: "'a list"
  assume *: "comparator cmp" "length xs < object_limit"
  have "quick_inv cmp xs [(0, int (length xs) - 1)] xs" by (auto simp: quick_inv_def same_range_def)
  with * show "yields (quick_loop cmp [(0, int (length xs) - 1)] xs) (\<lambda>ys. mset ys = mset xs \<and> sorted_cmp cmp ys)"
    by (rule quick_loop_spec)
qed

section \<open>What \<open>scl_sort_quick_sort\<close> does\<close>

lemma shift_in_eq:
  assumes "comparator cmp"
  shows "l \<le> j \<Longrightarrow> j < length xs \<Longrightarrow>
    shift_in cmp l key j xs = Some (take l xs @ rev (insr cmp key (rev (drop l (take j xs)))) @ drop (Suc j) xs)"
proof (induction j arbitrary: xs)
  case 0
  then show ?case by (cases xs) auto
next
  case (Suc j)
  show ?case
  proof (cases "j < l")
    case True
    then have "l = Suc j" using Suc.prems(1) by simp
    then show ?thesis using Suc.prems(2) True by (simp add: upd_conv_take_nth_drop)
  next
    case False
    then have split: "drop l (take (Suc j) xs) = drop l (take j xs) @ [xs ! j]"
      using Suc.prems by (simp add: take_Suc_conv_app_nth)
    show ?thesis
    proof (cases "0 < cmp (xs ! j) key")
      case True
      let ?xs = "xs[Suc j := xs ! j]"
      have "shift_in cmp l key j ?xs
        = Some (take l ?xs @ rev (insr cmp key (rev (drop l (take j ?xs)))) @ drop (Suc j) ?xs)"
        using Suc.prems False by (intro Suc.IH) simp_all
      moreover have "drop (Suc j) ?xs = xs ! j # drop (Suc (Suc j)) xs"
        using Suc.prems(2) by (simp add: drop_update_swap Cons_nth_drop_Suc [symmetric])
      moreover have "cmp key (xs ! j) < 0" using True comparator.cmp_swap [OF assms] by simp
      ultimately show ?thesis using True False Suc.prems split by simp
    next
      case le: False
      then have "\<not> cmp key (xs ! j) < 0" using comparator.cmp_swap [OF assms] by simp
      moreover have "take l xs @ drop l (take (Suc j) xs) = take (Suc j) xs"
        using False Suc.prems by (metis append_take_drop_id min.absorb1 not_less_eq_eq nle_le take_take)
      then have "take l xs @ drop l (take j xs) @ [xs ! j] = take (Suc j) xs" unfolding split .
      ultimately show ?thesis using le False Suc.prems split by (simp add: upd_conv_take_nth_drop)
    qed
  qed
qed

lemma shift_in_permutes: "l \<le> j \<Longrightarrow> j < length xs \<Longrightarrow>
    yields (shift_in cmp l key j xs) (\<lambda>ys. length ys = length xs \<and> mset (ys) = mset (xs[j := key]))"
proof (induction j arbitrary: xs)
  case 0
  then show ?case by simp
next
  case (Suc j)
  show ?case
  proof (cases "j < l \<or> \<not> 0 < cmp (xs ! j) key")
    case True
    then show ?thesis using Suc.prems by auto
  next
    case False
    let ?xs = "xs[Suc j := xs ! j]"
    have "yields (shift_in cmp l key j ?xs) (\<lambda>ys. length ys = length ?xs \<and> mset ys = mset (?xs[j := key]))"
      using Suc.prems False by (intro Suc.IH) simp_all
    moreover have "mset (?xs[j := key]) = mset (xs[Suc j := key])"
    proof -
      let ?ys = "xs[Suc j := key]"
      have "mset (?ys[Suc j := ?ys ! j, j := ?ys ! Suc j]) = mset ?ys"
        by (rule mset_swap) (use Suc.prems(2) in simp_all)
      then show ?thesis using Suc.prems(2) by simp
    qed
    ultimately show ?thesis using False Suc.prems by simp
  qed
qed

lemma insertion_range_permutes:
  assumes "l \<le> r" and "r < length xs"
  shows "yields (insertion_range cmp l r xs) (\<lambda>ys. length ys = length xs \<and> mset ys = mset xs)"
  unfolding insertion_range_def
proof (rule for_up_inv [of "\<lambda>i ys. length ys = length xs \<and> mset ys = mset xs"])
  fix i ys
  assume i: "l + 1 \<le> i" "i < r + 1" and ys: "length ys = length xs \<and> mset ys = mset xs"
  then have "i < length ys" using assms by simp
  then show "yields (do { key \<leftarrow> at ys i; shift_in cmp l key i ys }) (\<lambda>ys. length ys = length xs \<and> mset ys = mset xs)"
    using shift_in_permutes [of l i ys cmp "ys ! i"] i ys by simp
qed (use assms in simp_all)

lemma insertion_range_whole:
  assumes "comparator cmp" and "0 < length xs"
  shows "yields (insertion_range cmp 0 (length xs - 1) xs) (\<lambda>ys. mset ys = mset xs \<and> sorted_cmp cmp ys)"
proof -
  have "insertion_range cmp 0 (length xs - 1) xs = insertion_loop cmp (length xs) xs"
  proof -
    have "for_up 1 (length xs) (\<lambda>i xs. do { key \<leftarrow> at xs i; shift_in cmp 0 key i xs }) xs
      = for_up 1 (length xs) (\<lambda>i xs. insertion_sift cmp xs i) xs"
    proof (rule for_up_cong [of "comparator.sorting cmp xs"])
      show "comparator.sorting cmp xs 1 xs"
        using assms by (cases xs) (auto simp: comparator.sorting_def comparator.sorted_Cons comparator.sorted_Nil)
      fix i ys
      assume "1 \<le> i" "i < length xs" and ys: "comparator.sorting cmp xs i ys"
      moreover have "i < length ys" using ys \<open>i < length xs\<close> by (simp add: comparator.sorting_def [OF assms(1)])
      ultimately show "do { key \<leftarrow> at ys i; shift_in cmp 0 key i ys } = insertion_sift cmp ys i \<and>
        yields (insertion_sift cmp ys i) (comparator.sorting cmp xs (Suc i))"
        using comparator.insertion_round [OF assms(1) ys] shift_in_eq [OF assms(1)] by (simp add: insertion_sift_eq)
    qed (use assms(2) in linarith)
    then show ?thesis using assms(2) by (simp add: insertion_range_def insertion_loop_def)
  qed
  then show ?thesis
    using comparator.insertion_loop_sorts [OF assms(1) refl assms(2)] by (auto elim!: yields_mono)
qed

text \<open>In every case the elements survive, every access is inside the array and the stack of ranges
  suffices. The only error is a failed allocation of the key buffer.\<close>

definition pending_ok :: "nat \<Rightarrow> ranges \<Rightarrow> bool" where
  "pending_ok n stk \<longleftrightarrow> halving n stk \<and> (\<forall>(l, r) \<in> set stk. 0 \<le> l \<and> r < int n)"

lemma median_in:
  assumes "l < length xs" "m < length xs" "r < length xs" "l \<le> m" "m \<le> r"
  shows "yields (median_of_three cmp xs l m r) (\<lambda>p. l \<le> p \<and> p \<le> r)"
  using assms by (simp add: median_of_three_def)

lemma quick_sort_loop_permutes:
  assumes n: "n < 2 ^ 63"
  shows "pending_ok n stk \<Longrightarrow> length xs = n \<Longrightarrow>
    yields (quick_sort_loop a es cmp k stk xs) (\<lambda>res. case res of (err, ys) \<Rightarrow>
      mset ys = mset xs \<and> (err = SCL_OK \<or> err = SCL_ERR_OUT_OF_MEMORY \<and> 256 < es))"
proof (induction "pending stk" arbitrary: k stk xs rule: less_induct)
  case less
  show ?case
  proof (cases stk)
    case Nil
    then show ?thesis by simp
  next
    case (Cons top rest)
    then obtain l r where stk: "stk = (l, r) # rest" by (cases top) simp
    have lr: "0 \<le> l" "r < int n" and h: "halving n ((l, r) # rest)" and rest: "pending_ok n rest"
      using less.prems by (simp_all add: pending_ok_def stk)
    have IH: "yields (quick_sort_loop a es cmp k' stk' ys) (\<lambda>res. case res of (err, zs) \<Rightarrow>
        mset zs = mset xs \<and> (err = SCL_OK \<or> err = SCL_ERR_OUT_OF_MEMORY \<and> 256 < es))"
      if "pending stk' < pending stk" "pending_ok n stk'" "length ys = length xs \<and> mset ys = mset xs" for k' stk' ys
      using less.hyps [of stk' ys k'] that less.prems(2) by simp
    consider (trivial) "r \<le> l" | (small) "l < r" "r - l + 1 \<le> 16" | (large) "l < r" "16 < r - l + 1" by linarith
    then show ?thesis
    proof cases
      case trivial
      then show ?thesis using IH [of rest xs k] rest by (simp add: stk)
    next
      case small
      have "yields (insertion_range cmp (nat l) (nat r) xs) (\<lambda>ys. length ys = length xs \<and> mset ys = mset xs)"
        using small lr less.prems(2) by (intro insertion_range_permutes) simp_all
      then obtain ys where ys: "insertion_range cmp (nat l) (nat r) xs = Some ys" "length ys = length xs \<and> mset ys = mset xs"
        by (auto simp: yields_iff)
      show ?thesis using small lr ys IH [of rest ys] rest by (auto simp: stk split: option.split)
    next
      case large
      let ?m = "l + (r - l) div 2"
      have m: "nat l < length xs" "nat ?m < length xs" "nat r < length xs" "nat l \<le> nat ?m" "nat ?m \<le> nat r"
        using large lr less.prems(2) by linarith+
      from median_in [OF m] obtain p where p: "median_of_three cmp xs (nat l) (nat ?m) (nat r) = Some p"
        "nat l \<le> p" "p \<le> nat r" by (auto simp: yields_iff)
      define ys where "ys = xs[p := xs ! nat r, nat r := xs ! p]"
      have pl: "p < length xs" using p(3) m(3) by simp
      have ys: "(if int p \<noteq> r then swap_at xs p (nat r) else Some xs) = Some ys" "length ys = length xs" "mset ys = mset xs"
        using pl m(3) lr large by (auto simp: ys_def mset_swap)
      have "yields (partition_at cmp p ys (nat l) (nat r)) (\<lambda>st. case st of (zs, i) \<Rightarrow>
          int (nat l) \<le> i \<and> i \<le> int (nat r) \<and> range_perm (nat l) (nat r) ys zs)"
        using m pl ys(2) by (intro partition_permutes) simp_all
      then obtain zs i where part: "partition_at cmp p ys (nat l) (nat r) = Some (zs, i)"
        and i: "l \<le> i" "i \<le> r" and zs: "range_perm (nat l) (nat r) ys zs" using lr large by auto
      from push_parts_fits [OF h n large(1) i] obtain p' q' where pq: "push_parts l i r rest = Some (p' # q' # rest)"
        "halving n (p' # q' # rest)" "(p', q') \<in> {((l, i - 1), (i + 1, r)), ((i + 1, r), (l, i - 1))}" by blast
      have "pending_ok n (p' # q' # rest)"
        using pq(2,3) rest lr i by (auto simp: pending_ok_def)
      then have "yields (quick_sort_loop a es cmp k (p' # q' # rest) zs) (\<lambda>res. case res of (err, zs) \<Rightarrow>
          mset zs = mset xs \<and> (err = SCL_OK \<or> err = SCL_ERR_OUT_OF_MEMORY \<and> 256 < es))"
        using pending_parts [OF pq(1) i] ys zs by (intro IH) (simp_all add: stk range_perm_def)
      then show ?thesis using large lr p(1) ys(1) part pq(1) by (simp add: stk Let_def)
    qed
  qed
qed

lemma quick_sort_permutes:
  assumes "length xs < object_limit"
  shows "\<exists>err ys. scl_sort_quick_sort a (Some xs) (length xs) es (Some cmp) = Some (err, Some ys) \<and>
    mset ys = mset xs \<and> (err = SCL_OK \<or> err = SCL_ERR_OUT_OF_MEMORY \<and> 256 < es)"
proof (cases "length xs < 2")
  case False
  have "pending_ok (length xs) [(0, int (length xs) - 1)]" by (simp add: pending_ok_def)
  from quick_sort_loop_permutes [OF assms this refl, of a es cmp 0] obtain err ys where
    "quick_sort_loop a es cmp 0 [(0, int (length xs) - 1)] xs = Some (err, ys)"
    "mset ys = mset xs" "err = SCL_OK \<or> err = SCL_ERR_OUT_OF_MEMORY \<and> 256 < es" by (auto simp del: quick_sort_loop.simps)
  then show ?thesis using False by (simp add: scl_sort_quick_sort_def del: quick_sort_loop.simps)
qed (simp add: scl_sort_quick_sort_def)

text \<open>Up to 16 elements it is an insertion sort.\<close>

lemma quick_sort_small:
  assumes "comparator cmp" and "length xs \<le> 16" and "es \<le> 256"
  shows "\<exists>ys. scl_sort_quick_sort a (Some xs) (length xs) es (Some cmp) = Some (SCL_OK, Some ys) \<and>
    mset ys = mset xs \<and> sorted_cmp cmp ys"
proof (cases "length xs < 2")
  case True
  then show ?thesis using comparator.short_sorted [OF assms(1)] by (simp add: scl_sort_quick_sort_def)
next
  case False
  then have "yields (insertion_range cmp 0 (length xs - 1) xs) (\<lambda>ys. mset ys = mset xs \<and> sorted_cmp cmp ys)"
    by (intro insertion_range_whole assms) (cases xs, auto)
  then obtain ys where ys: "insertion_range cmp 0 (length xs - 1) xs = Some ys" "mset ys = mset xs" "sorted_cmp cmp ys"
    by (auto simp: yields_iff)
  moreover have "nat (int (length xs) - 1) = length xs - 1" using False by simp
  moreover have "\<not> 256 < es" using assms(3) by simp
  ultimately have "quick_sort_loop a es cmp 0 [(0, int (length xs) - 1)] xs = Some (SCL_OK, ys)"
    using False assms(2) by simp
  then show ?thesis using False ys by (simp add: scl_sort_quick_sort_def del: quick_sort_loop.simps)
qed

section \<open>What goes wrong with 17 elements\<close>

text \<open>With 17 elements the stale pivot slot shows: even the sorted array \<open>0, ..., 16\<close> comes back
  unsorted. The median goes to the end, the partition compares with the slot it came from.\<close>

lemma shift_in_numeral [eval_simps]: "shift_in cmp l key (numeral k) xs =
     (if pred_numeral k < l then put_at xs (numeral k) key
      else do {
        a \<leftarrow> at xs (pred_numeral k);
        if 0 < cmp a key then do { xs \<leftarrow> put_at xs (numeral k) a; shift_in cmp l key (pred_numeral k) xs }
        else put_at xs (numeral k) key
      })"
  by (simp only: numeral_eq_Suc shift_in.simps)

lemma stale_median:
  "median_of_three int_cmp [0, 1, 2, 3, 4, 5, 6, 7, 8, 9, 10, 11, 12, 13, 14, 15, 16] 0 8 16 = Some 8"
  by (simp add: median_of_three_def int_cmp_def)

lemma stale_partition:
  "partition_at int_cmp 8 [0, 1, 2, 3, 4, 5, 6, 7, 16, 9, 10, 11, 12, 13, 14, 15, 8] 0 16
    = Some ([0, 1, 2, 3, 4, 5, 6, 7, 9, 8, 10, 11, 12, 13, 14, 15, 16], 9)"
  by (simp add: partition_at_def part_step_def int_cmp_def eval_simps Let_def cong: bind_weak_cong)

lemma stale_ranges:
  "insertion_range int_cmp 0 8 [0, 1, 2, 3, 4, 5, 6, 7, 9, 8, 10, 11, 12, 13, 14, 15, 16]
    = Some [0, 1, 2, 3, 4, 5, 6, 7, 9, 8, 10, 11, 12, 13, 14, 15, 16]"
  "insertion_range int_cmp 10 16 [0, 1, 2, 3, 4, 5, 6, 7, 9, 8, 10, 11, 12, 13, 14, 15, 16]
    = Some [0, 1, 2, 3, 4, 5, 6, 7, 9, 8, 10, 11, 12, 13, 14, 15, 16]"
  by (simp_all add: insertion_range_def int_cmp_def eval_simps Let_def cong: bind_weak_cong)

lemma quick_sort_unsorted:
  "scl_sort_quick_sort a (Some [0, 1, 2, 3, 4, 5, 6, 7, 8, 9, 10, 11, 12, 13, 14, 15, 16]) 17 4 (Some int_cmp)
    = Some (SCL_OK, Some [0, 1, 2, 3, 4, 5, 6, 7, 9, 8, 10, 11, 12, 13, 14, 15, 16])"
  using stale_median stale_partition stale_ranges
  by (simp add: scl_sort_quick_sort_def swap_at_def push_parts_def push_range_def)

end
