(* ===== verification/Scl_Search.thy ===== *)
theory Scl_Search
  imports Scl_Slots
begin

text \<open>
  The searches over arrays of \<open>libs/search\<close> that take a comparator: linear, sentinel, binary, jump,
  Fibonacci, exponential and ternary search. A search reads elements and returns an error code and the
  index it stored; the model is given the initial contents of \<open>*out_index\<close>, which an unsuccessful search
  leaves alone.

  Two of the loops do not end on every input: the inclusive binary search behind exponential search and
  the ternary search stay at \<open>lo = hi = 0\<close> when the key is smaller than every element. They are modelled
  by their loop body and a number of iterations, so that both facts can be stated: with a key that is not
  below the first element \<open>count\<close> iterations are enough, with a smaller one no number is.
\<close>

section \<open>The contract\<close>

definition search_entry ::
    "('a list \<Rightarrow> nat \<Rightarrow> 'k \<Rightarrow> ('a \<Rightarrow> 'k \<Rightarrow> int) \<Rightarrow> nat option ub) \<Rightarrow>
     'a list ptr \<Rightarrow> nat \<Rightarrow> 'k ptr \<Rightarrow> ('a \<Rightarrow> 'k \<Rightarrow> int) ptr \<Rightarrow> nat ptr \<Rightarrow> (scl_error_t \<times> nat ptr) ub" where
  "search_entry body base cnt key cmp out_index =
     (case (base, key, cmp, out_index) of
        (Some xs, Some k, Some c, Some _) \<Rightarrow>
          if cnt = 0 then Some (SCL_ERR_EMPTY, out_index)
          else do {
            r \<leftarrow> body xs cnt k c;
            Some (case r of None \<Rightarrow> (SCL_ERR_NOT_FOUND, out_index) | Some i \<Rightarrow> (SCL_OK, Some i))
          }
      | _ \<Rightarrow> Some (SCL_ERR_NULL_PTR, out_index))"

text \<open>What an index means: an element that compares equal, or none in the whole array.\<close>

definition hit :: "('a \<Rightarrow> 'k \<Rightarrow> int) \<Rightarrow> 'a list \<Rightarrow> 'k \<Rightarrow> nat option \<Rightarrow> bool" where
  "hit cmp xs k r \<longleftrightarrow> (case r of None \<Rightarrow> \<forall>x \<in> set xs. cmp x k \<noteq> 0 | Some i \<Rightarrow> i < length xs \<and> cmp (xs ! i) k = 0)"

lemma hit_simps [simp]:
  "hit cmp xs k None \<longleftrightarrow> (\<forall>x \<in> set xs. cmp x k \<noteq> 0)"
  "hit cmp xs k (Some i) \<longleftrightarrow> i < length xs \<and> cmp (xs ! i) k = 0"
  by (simp_all add: hit_def)

lemma no_hit: "(\<And>j. j < length xs \<Longrightarrow> cmp (xs ! j) k \<noteq> 0) \<Longrightarrow> hit cmp xs k None"
  by (auto simp: in_set_conv_nth)

locale searcher =
  fixes f :: "'a list ptr \<Rightarrow> nat \<Rightarrow> 'a ptr \<Rightarrow> ('a \<Rightarrow> 'a \<Rightarrow> int) ptr \<Rightarrow> nat ptr \<Rightarrow> (scl_error_t \<times> nat ptr) ub"
    and ready :: "('a \<Rightarrow> 'a \<Rightarrow> int) \<Rightarrow> 'a list \<Rightarrow> 'a \<Rightarrow> bool"
  assumes null_law: "b = None \<or> key = None \<or> c = None \<or> out = None \<Longrightarrow> f b n key c out = Some (SCL_ERR_NULL_PTR, out)"
    and empty_law: "f (Some xs) 0 (Some k) (Some cmp) (Some i) = Some (SCL_ERR_EMPTY, Some i)"
    and search_law: "comparator cmp \<Longrightarrow> ready cmp xs k \<Longrightarrow> 0 < length xs \<Longrightarrow> length xs < object_limit \<Longrightarrow>
      \<exists>r. f (Some xs) (length xs) (Some k) (Some cmp) (Some i)
          = Some (case r of None \<Rightarrow> (SCL_ERR_NOT_FOUND, Some i) | Some j \<Rightarrow> (SCL_OK, Some j)) \<and> hit cmp xs k r"
begin

text \<open>It succeeds exactly when the key is there.\<close>

lemma finds:
  assumes "comparator cmp" and "ready cmp xs k" and "0 < length xs" and "length xs < object_limit"
  shows "(\<exists>j. f (Some xs) (length xs) (Some k) (Some cmp) (Some i) = Some (SCL_OK, Some j) \<and> j < length xs \<and> cmp (xs ! j) k = 0) \<or>
    f (Some xs) (length xs) (Some k) (Some cmp) (Some i) = Some (SCL_ERR_NOT_FOUND, Some i) \<and> (\<forall>x \<in> set xs. cmp x k \<noteq> 0)"
  using search_law [OF assms, of i] by (auto split: option.splits)

text \<open>If only one position can match, the result is that position.\<close>

lemma finds_unique:
  assumes "comparator cmp" and "ready cmp xs k" and "length xs < object_limit"
    and "j < length xs" and "cmp (xs ! j) k = 0" and "\<And>m. m < length xs \<Longrightarrow> cmp (xs ! m) k = 0 \<Longrightarrow> m = j"
  shows "f (Some xs) (length xs) (Some k) (Some cmp) (Some i) = Some (SCL_OK, Some j)"
proof -
  have "0 < length xs" using assms(4) by linarith
  from finds [OF assms(1,2) this assms(3), of i] show ?thesis
    using assms(4-6) nth_mem by blast
qed

end

lemma search_entry_searcher:
  assumes "\<And>cmp xs k. comparator cmp \<Longrightarrow> ready cmp xs k \<Longrightarrow> 0 < length xs \<Longrightarrow> length xs < object_limit \<Longrightarrow>
    yields (body xs (length xs) k cmp) (hit cmp xs k)"
  shows "searcher (search_entry body) ready"
proof
  show "search_entry body b n key c out = Some (SCL_ERR_NULL_PTR, out)"
    if "b = None \<or> key = None \<or> c = None \<or> out = None" for b n key c out
    using that by (auto simp: search_entry_def split: option.split)
  show "search_entry body (Some xs) 0 (Some k) (Some cmp) (Some i) = Some (SCL_ERR_EMPTY, Some i)" for xs k cmp i
    by (simp add: search_entry_def)
next
  fix cmp :: "'a \<Rightarrow> 'a \<Rightarrow> int" and xs :: "'a list" and k i
  assume "comparator cmp" "ready cmp xs k" "0 < length xs" "length xs < object_limit"
  then have "yields (body xs (length xs) k cmp) (hit cmp xs k)" by (rule assms)
  then obtain r where "body xs (length xs) k cmp = Some r" "hit cmp xs k r" by (auto simp: yields_iff)
  then show "\<exists>r. search_entry body (Some xs) (length xs) (Some k) (Some cmp) (Some i)
      = Some (case r of None \<Rightarrow> (SCL_ERR_NOT_FOUND, Some i) | Some j \<Rightarrow> (SCL_OK, Some j)) \<and> hit cmp xs k r"
    using \<open>0 < length xs\<close> by (intro exI [of _ r]) (simp add: search_entry_def)
qed

section \<open>Linear search\<close>

function linear_from :: "('a \<Rightarrow> 'k \<Rightarrow> int) \<Rightarrow> 'a list \<Rightarrow> 'k \<Rightarrow> nat \<Rightarrow> nat \<Rightarrow> nat option ub" where
  "linear_from cmp xs k i e =
     (if i < e then do {
        v \<leftarrow> at xs i;
        if cmp v k = 0 then Some (Some i) else linear_from cmp xs k (i + 1) e
      } else Some None)"
  by pat_completeness auto
termination by (relation "measure (\<lambda>(cmp, xs, k, i, e). e - i)") auto

declare linear_from.simps [simp del]

definition scl_search_linear_search ::
    "'a list ptr \<Rightarrow> nat \<Rightarrow> 'k ptr \<Rightarrow> ('a \<Rightarrow> 'k \<Rightarrow> int) ptr \<Rightarrow> nat ptr \<Rightarrow> (scl_error_t \<times> nat ptr) ub" where
  "scl_search_linear_search = search_entry (\<lambda>xs cnt k cmp. linear_from cmp xs k 0 cnt)"

text \<open>A scan of \<open>[i, e)\<close> finds the first match in it.\<close>

lemma linear_from_spec:
  "e \<le> length xs \<Longrightarrow> yields (linear_from cmp xs k i e) (\<lambda>r. case r of
     None \<Rightarrow> \<forall>j. i \<le> j \<and> j < e \<longrightarrow> cmp (xs ! j) k \<noteq> 0
   | Some j \<Rightarrow> i \<le> j \<and> j < e \<and> cmp (xs ! j) k = 0 \<and> (\<forall>m. i \<le> m \<and> m < j \<longrightarrow> cmp (xs ! m) k \<noteq> 0))"
proof (induction "e - i" arbitrary: i)
  case 0
  then show ?case by (subst linear_from.simps) simp
next
  case (Suc n)
  then have i: "i < e" "i < length xs" by simp_all
  show ?case
  proof (cases "cmp (xs ! i) k = 0")
    case True
    then show ?thesis using i by (subst linear_from.simps) simp
  next
    case False
    have split: "i \<le> j \<longleftrightarrow> j = i \<or> i + 1 \<le> j" for j by auto
    show ?thesis
      using Suc.hyps(1) [of "i + 1"] Suc.hyps(2) Suc.prems i False
      by (subst linear_from.simps) (fastforce simp: split intro: yields_mono split: option.splits)
  qed
qed

lemma linear_body: "0 < length xs \<Longrightarrow> yields (linear_from cmp xs k 0 (length xs)) (hit cmp xs k)"
  by (rule yields_mono [OF linear_from_spec [OF order_refl]])
    (auto simp: hit_def in_set_conv_nth split: option.splits)

interpretation linear: searcher scl_search_linear_search "\<lambda>cmp xs k. True"
  unfolding scl_search_linear_search_def by (rule search_entry_searcher) (rule linear_body)

section \<open>Sentinel search\<close>

text \<open>The copy has one slot more than the array, with the key in it; the loop has no bounds check of its
  own, so a result of the model means that the sentinel stopped it.\<close>

function sentinel_scan :: "('a \<Rightarrow> 'a \<Rightarrow> int) \<Rightarrow> 'a list \<Rightarrow> 'a \<Rightarrow> nat \<Rightarrow> nat ub" where
  "sentinel_scan cmp copy k i = do {
     v \<leftarrow> at copy i;
     if cmp v k \<noteq> 0 then sentinel_scan cmp copy k (i + 1) else Some i
   }"
  by pat_completeness auto
termination
  by (relation "measure (\<lambda>(cmp, copy, k, i). length copy - i)") (auto simp: at_def split: if_splits)

declare sentinel_scan.simps [simp del]

definition scl_search_sentinel_linear_search ::
    "scl_allocator_t \<Rightarrow> 'a list ptr \<Rightarrow> size_t \<Rightarrow> size_t \<Rightarrow> 'a ptr \<Rightarrow> ('a \<Rightarrow> 'a \<Rightarrow> int) ptr \<Rightarrow> nat ptr
     \<Rightarrow> (scl_error_t \<times> nat ptr) ub" where
  "scl_search_sentinel_linear_search a base cnt es key cmp out_index =
     (case (base, key, cmp, out_index) of
        (Some xs, Some k, Some c, Some _) \<Rightarrow>
          if cnt = 0 then Some (SCL_ERR_EMPTY, out_index)
          else if es = 0 then Some (SCL_ERR_INVALID_ARG, out_index)
          else (case scl_mul_overflow (cnt + 1) es of
                  None \<Rightarrow> Some (SCL_ERR_SIZE_OVERFLOW, out_index)
                | Some bytes \<Rightarrow>
                    (case malloc_fn a 0 bytes max_align of
                       None \<Rightarrow> Some (SCL_ERR_OUT_OF_MEMORY, out_index)
                     | Some b \<Rightarrow>
                         if unat cnt \<le> length xs \<and> Suc (unat cnt) * unat es \<le> length b then do {
                           i \<leftarrow> sentinel_scan c (take (unat cnt) xs @ [k]) k 0;
                           Some (if i < unat cnt then (SCL_OK, Some i) else (SCL_ERR_NOT_FOUND, out_index))
                         } else None))
      | _ \<Rightarrow> Some (SCL_ERR_NULL_PTR, out_index))"

lemma sentinel_scan_spec:
  assumes "comparator cmp"
  shows "i \<le> length xs \<Longrightarrow> yields (sentinel_scan cmp (xs @ [k]) k i) (\<lambda>j.
    i \<le> j \<and> j \<le> length xs \<and> (j < length xs \<longrightarrow> cmp (xs ! j) k = 0) \<and> (\<forall>m. i \<le> m \<and> m < j \<longrightarrow> cmp (xs ! m) k \<noteq> 0))"
proof (induction "length xs - i" arbitrary: i)
  case 0
  then have "i = length xs" by simp
  then show ?case using comparator.cmp_self [OF assms] by (subst sentinel_scan.simps) simp
next
  case (Suc n)
  then have i: "i < length xs" by simp
  show ?case
  proof (cases "cmp (xs ! i) k = 0")
    case True
    then show ?thesis using i by (subst sentinel_scan.simps) (simp add: nth_append)
  next
    case False
    have split: "i \<le> j \<longleftrightarrow> j = i \<or> i + 1 \<le> j" for j by auto
    show ?thesis
      using Suc.hyps(1) [of "i + 1"] Suc.hyps(2) i False
      by (subst sentinel_scan.simps) (fastforce simp: nth_append split intro: yields_mono)
  qed
qed

text \<open>It returns what linear search returns, or an error of the allocation.\<close>

lemma sentinel_result:
  assumes a: "scl_allocator a" and c: "comparator cmp" and xs: "0 < length xs" "length xs < object_limit" and es: "es \<noteq> 0"
  shows "\<exists>err j. scl_search_sentinel_linear_search a (Some xs) (of_nat (length xs)) es (Some k) (Some cmp) (Some i)
      = Some (err, Some j) \<and> (alloc_failed err \<and> j = i \<or>
        scl_search_linear_search (Some xs) (length xs) (Some k) (Some cmp) (Some i) = Some (err, Some j))"
proof -
  let ?n = "of_nat (length xs) :: size_t"
  have n: "unat ?n = length xs" using xs(2) by (simp add: unat_of_nat take_bit_nat_eq_self)
  have nz: "?n \<noteq> 0" using xs(1) n by auto
  have n1: "unat (?n + 1) = Suc (length xs)" using xs(2) n by (subst unat_add_bounded) simp_all
  show ?thesis
  proof (cases "scl_mul_overflow (?n + 1) es")
    case None
    then show ?thesis using nz es by (simp add: scl_search_sentinel_linear_search_def)
  next
    case (Some bytes)
    show ?thesis
    proof (cases "malloc_fn a 0 bytes max_align")
      case None
      then show ?thesis using nz es Some by (simp add: scl_search_sentinel_linear_search_def)
    next
      case alloc: (Some b)
      have "Suc (length xs) * unat es \<le> length b"
        using scl_mul_overflow_Some [OF Some] scl_allocator.malloc_object(1) [OF a alloc] n1 by simp
      moreover obtain j where j: "sentinel_scan cmp (xs @ [k]) k 0 = Some j" "j \<le> length xs"
        "j < length xs \<Longrightarrow> cmp (xs ! j) k = 0" "\<And>m. m < j \<Longrightarrow> cmp (xs ! m) k \<noteq> 0"
        using sentinel_scan_spec [OF c, of 0 xs k] by (auto simp: yields_iff)
      ultimately have run: "scl_search_sentinel_linear_search a (Some xs) ?n es (Some k) (Some cmp) (Some i)
          = Some (if j < length xs then (SCL_OK, Some j) else (SCL_ERR_NOT_FOUND, Some i))"
        using nz es Some alloc n by (simp add: scl_search_sentinel_linear_search_def)
      obtain r where r: "linear_from cmp xs k 0 (length xs) = Some r"
        "case r of None \<Rightarrow> \<forall>j. 0 \<le> j \<and> j < length xs \<longrightarrow> cmp (xs ! j) k \<noteq> 0
         | Some j \<Rightarrow> 0 \<le> j \<and> j < length xs \<and> cmp (xs ! j) k = 0 \<and> (\<forall>m. 0 \<le> m \<and> m < j \<longrightarrow> cmp (xs ! m) k \<noteq> 0)"
        using linear_from_spec [OF order_refl, of cmp xs k 0] unfolding yields_iff by blast
      have "r = (if j < length xs then Some j else None)"
      proof (cases r)
        case None
        then show ?thesis using r(2) j(3) by auto
      next
        case (Some m)
        then have m: "m < length xs" "cmp (xs ! m) k = 0" "\<And>q. q < m \<Longrightarrow> cmp (xs ! q) k \<noteq> 0" using r(2) by auto
        then have "\<not> m < j" "\<not> j < m" using j(3,4) by auto
        then show ?thesis using Some m(1) by simp
      qed
      then show ?thesis using run r(1) xs(1)
        by (auto simp: scl_search_linear_search_def search_entry_def)
    qed
  qed
qed

section \<open>Binary search\<close>

function binary_loop :: "('a \<Rightarrow> 'k \<Rightarrow> int) \<Rightarrow> 'a list \<Rightarrow> 'k \<Rightarrow> nat \<Rightarrow> nat \<Rightarrow> nat option ub" where
  "binary_loop cmp xs k lo hi =
     (if lo < hi then do {
        let mid = lo + (hi - lo) div 2;
        v \<leftarrow> at xs mid;
        let r = cmp v k;
        if r = 0 then Some (Some mid)
        else if r < 0 then binary_loop cmp xs k (mid + 1) hi
        else binary_loop cmp xs k lo mid
      } else Some None)"
  by pat_completeness auto
termination by (relation "measure (\<lambda>(cmp, xs, k, lo, hi). hi - lo)") auto

declare binary_loop.simps [simp del]

definition scl_search_binary_search ::
    "'a list ptr \<Rightarrow> nat \<Rightarrow> 'k ptr \<Rightarrow> ('a \<Rightarrow> 'k \<Rightarrow> int) ptr \<Rightarrow> nat ptr \<Rightarrow> (scl_error_t \<times> nat ptr) ub" where
  "scl_search_binary_search = search_entry (\<lambda>xs cnt k cmp. binary_loop cmp xs k 0 cnt)"

text \<open>The invariant all searches of a sorted array share: what lies before \<open>lo\<close> is smaller than the key, what
  lies from \<open>hi\<close> on is greater.\<close>

definition narrowed :: "('a \<Rightarrow> 'k \<Rightarrow> int) \<Rightarrow> 'a list \<Rightarrow> 'k \<Rightarrow> nat \<Rightarrow> nat \<Rightarrow> bool" where
  "narrowed cmp xs k lo hi \<longleftrightarrow> hi \<le> length xs \<and> (\<forall>j < lo. j < length xs \<longrightarrow> cmp (xs ! j) k < 0) \<and>
     (\<forall>j. hi \<le> j \<and> j < length xs \<longrightarrow> 0 < cmp (xs ! j) k)"

lemma narrowed_whole: "n = length xs \<Longrightarrow> narrowed cmp xs k 0 n"
  by (simp add: narrowed_def)

lemma narrowed_none: "narrowed cmp xs k lo hi \<Longrightarrow> hi \<le> lo \<Longrightarrow> hit cmp xs k None"
proof (rule no_hit)
  fix j assume n: "narrowed cmp xs k lo hi" "hi \<le> lo" and j: "j < length xs"
  have "j < lo \<or> hi \<le> j" using n(2) by linarith
  then show "cmp (xs ! j) k \<noteq> 0" using n(1) j by (force simp: narrowed_def)
qed

lemma all_below: "\<forall>j < e. j < length xs \<longrightarrow> cmp (xs ! j) k < 0 \<Longrightarrow> length xs \<le> e \<Longrightarrow> hit cmp xs k None"
  using narrowed_none [of cmp xs k e "length xs"] by (simp add: narrowed_def)

context comparator
begin

lemma narrowed_up:
  assumes "sorted_cmp cmp xs" and "narrowed cmp xs k lo hi" and "m < length xs" and "cmp (xs ! m) k < 0"
  shows "narrowed cmp xs k (m + 1) hi"
  using assms sorted_below [OF assms(1) _ assms(3,4)] by (auto simp: narrowed_def)

lemma narrowed_down:
  assumes "sorted_cmp cmp xs" and "narrowed cmp xs k lo hi" and "m < length xs" and "0 < cmp (xs ! m) k"
  shows "narrowed cmp xs k lo m"
  using assms sorted_above [OF assms(1) _ _ assms(4)] by (auto simp: narrowed_def)

lemma binary_loop_hit:
  assumes xs: "sorted_cmp cmp xs"
  shows "narrowed cmp xs k lo hi \<Longrightarrow> yields (binary_loop cmp xs k lo hi) (hit cmp xs k)"
proof (induction "hi - lo" arbitrary: lo hi rule: less_induct)
  case less
  show ?case
  proof (cases "lo < hi")
    case False
    then show ?thesis using narrowed_none [OF less.prems] by (subst binary_loop.simps) simp
  next
    case True
    let ?m = "lo + (hi - lo) div 2"
    have m: "?m < hi" "?m < length xs" using True less.prems by (auto simp: narrowed_def)
    have dec: "hi - (?m + 1) < hi - lo" "?m - lo < hi - lo" using True by linarith+
    consider "cmp (xs ! ?m) k = 0" | "cmp (xs ! ?m) k < 0" | "0 < cmp (xs ! ?m) k" by linarith
    then show ?thesis
    proof cases
      case 1
      then show ?thesis using True m by (subst binary_loop.simps) (simp add: Let_def)
    next
      case 2
      then show ?thesis using True m less.hyps [OF dec(1) narrowed_up [OF xs less.prems m(2) 2]]
        by (subst binary_loop.simps) (simp add: Let_def)
    next
      case 3
      then show ?thesis using True m less.hyps [OF dec(2) narrowed_down [OF xs less.prems m(2) 3]]
        by (subst binary_loop.simps) (simp add: Let_def)
    qed
  qed
qed

end

interpretation binary: searcher scl_search_binary_search "\<lambda>cmp xs k. sorted_cmp cmp xs"
  unfolding scl_search_binary_search_def
  by (rule search_entry_searcher) (rule comparator.binary_loop_hit, simp_all add: narrowed_whole)

section \<open>Jump search\<close>

text \<open>The block size is \<open>(size_t)scl_sqrt((double)count)\<close>, raised to 1 when that is 0; the square root is a
  parameter, and nothing is assumed of it: the search is correct with every block size.\<close>

function jump_loop :: "('a \<Rightarrow> 'k \<Rightarrow> int) \<Rightarrow> 'a list \<Rightarrow> 'k \<Rightarrow> nat \<Rightarrow> nat \<Rightarrow> nat \<Rightarrow> nat option ub" where
  "jump_loop cmp xs k step cnt prev =
     (if prev < cnt then do {
        let block_end = (if cnt < prev + step then cnt else prev + step);
        v \<leftarrow> at xs (block_end - 1);
        if 0 \<le> cmp v k then linear_from cmp xs k prev block_end
        else if block_end = cnt then Some None
        else if block_end \<le> prev then None
        else jump_loop cmp xs k step cnt block_end
      } else Some None)"
  by pat_completeness auto
termination by (relation "measure (\<lambda>(cmp, xs, k, step, cnt, prev). cnt - prev)") auto

declare jump_loop.simps [simp del]

definition scl_search_jump_search ::
    "(nat \<Rightarrow> nat) \<Rightarrow> 'a list ptr \<Rightarrow> nat \<Rightarrow> 'k ptr \<Rightarrow> ('a \<Rightarrow> 'k \<Rightarrow> int) ptr \<Rightarrow> nat ptr \<Rightarrow> (scl_error_t \<times> nat ptr) ub" where
  "scl_search_jump_search sqrt_sz = search_entry (\<lambda>xs cnt k cmp.
     let step = sqrt_sz cnt; step = (if step = 0 then 1 else step) in
     jump_loop cmp xs k step cnt 0)"

context comparator
begin

lemma jump_loop_hit:
  assumes xs: "sorted_cmp cmp xs" and step: "0 < step"
  shows "(\<forall>j < prev. j < length xs \<longrightarrow> cmp (xs ! j) k < 0) \<Longrightarrow>
    yields (jump_loop cmp xs k step (length xs) prev) (hit cmp xs k)"
proof (induction "length xs - prev" arbitrary: prev rule: less_induct)
  case less
  show ?case
  proof (cases "prev < length xs")
    case False
    then have "hit cmp xs k None" using all_below [of prev xs cmp k] less.prems by simp
    then show ?thesis using False by (subst jump_loop.simps) simp
  next
    case True
    define e where "e = (if length xs < prev + step then length xs else prev + step)"
    have e: "prev < e" "e \<le> length xs" using True step by (auto simp: e_def)
    let ?v = "xs ! (e - 1)"
    show ?thesis
    proof (cases "0 \<le> cmp ?v k")
      case True
      have above: "0 < cmp (xs ! j) k" if "\<forall>j. prev \<le> j \<and> j < e \<longrightarrow> cmp (xs ! j) k \<noteq> 0" "e \<le> j" "j < length xs" for j
      proof -
        have "cmp ?v k \<noteq> 0" using that(1) e by simp
        then have "0 < cmp ?v k" using True by linarith
        moreover have "e - 1 \<le> j" using that(2) by linarith
        ultimately show ?thesis using sorted_above [OF xs _ that(3)] by blast
      qed
      have "hit cmp xs k r" if r: "case r of None \<Rightarrow> \<forall>j. prev \<le> j \<and> j < e \<longrightarrow> cmp (xs ! j) k \<noteq> 0
          | Some j \<Rightarrow> prev \<le> j \<and> j < e \<and> cmp (xs ! j) k = 0 \<and> (\<forall>m. prev \<le> m \<and> m < j \<longrightarrow> cmp (xs ! m) k \<noteq> 0)" for r
      proof (cases r)
        case (Some j)
        then show ?thesis using r e by simp
      next
        case None
        have "hit cmp xs k None"
        proof (rule no_hit)
          fix j assume j: "j < length xs"
          consider "j < prev" | "prev \<le> j" "j < e" | "e \<le> j" by linarith
          then show "cmp (xs ! j) k \<noteq> 0"
            using less.prems j r above [of j] unfolding None option.case by cases force+
        qed
        then show ?thesis using None by simp
      qed
      then have "yields (linear_from cmp xs k prev e) (hit cmp xs k)"
        by (rule yields_mono [OF linear_from_spec [OF e(2)]])
      then show ?thesis using True \<open>prev < length xs\<close> e
        by (subst jump_loop.simps) (simp add: Let_def flip: e_def)
    next
      case False
      then have below: "\<forall>j < e. j < length xs \<longrightarrow> cmp (xs ! j) k < 0"
        using sorted_below [OF xs, of _ "e - 1" k] e by simp
      show ?thesis
      proof (cases "e = length xs")
        case True
        then have "hit cmp xs k None" using all_below [of e xs cmp k] below by simp
        then show ?thesis using True False \<open>prev < length xs\<close> e
          by (subst jump_loop.simps) (simp add: Let_def flip: e_def)
      next
        case ne: False
        have "yields (jump_loop cmp xs k step (length xs) e) (hit cmp xs k)"
          using less.hyps [OF _ below] e \<open>prev < length xs\<close> by simp
        then show ?thesis using ne False \<open>prev < length xs\<close> e
          by (subst jump_loop.simps) (simp add: Let_def flip: e_def)
      qed
    qed
  qed
qed

end

interpretation jump: searcher "scl_search_jump_search sqrt_sz" "\<lambda>cmp xs k. sorted_cmp cmp xs" for sqrt_sz
  unfolding scl_search_jump_search_def Let_def
  by (rule search_entry_searcher) (rule comparator.jump_loop_hit, simp_all)

end
