(* ===== verification/Scl_Search_Range.thy ===== *)
theory Scl_Search_Range
  imports Scl_Search
begin

text \<open>
  Exponential, ternary, unbounded and Fibonacci search of \<open>libs/search\<close>.

  The inclusive ranges of the first three shrink by \<open>hi = (mid == 0) ? 0 : mid - 1\<close>. With a key below the
  first element the loop reaches \<open>lo = hi = 0\<close> and stays there. The loops are therefore modelled by their
  body and a number of iterations; \<open>Running\<close> means that they are not done after that many. The lemmas give
  the number that is enough when the first element is not above the key, and show that otherwise no number
  is. Fibonacci search always ends, but can miss an element.
\<close>

section \<open>Loops that may not end\<close>

datatype 'r run = Returns 'r | Running

fun iterate :: "nat \<Rightarrow> ('s \<Rightarrow> ('r + 's) ub) \<Rightarrow> 's \<Rightarrow> 'r run ub" where
  "iterate 0 body s = Some Running"
| "iterate (Suc n) body s = do {
     r \<leftarrow> body s;
     (case r of Inl x \<Rightarrow> Some (Returns x) | Inr s' \<Rightarrow> iterate n body s')
   }"

lemma iterate_ends:
  assumes "\<And>s. I s \<Longrightarrow> yields (body s) (\<lambda>r. case r of Inl x \<Rightarrow> P x | Inr s' \<Rightarrow> I s' \<and> m s' < m s)"
  shows "I s \<Longrightarrow> m s < n \<Longrightarrow> yields (iterate n body s) (\<lambda>r. \<exists>x. r = Returns x \<and> P x)"
proof (induction n arbitrary: s)
  case 0
  then show ?case by simp
next
  case (Suc n)
  from assms [OF Suc.prems(1)] show ?case
  proof (rule yieldsE)
    fix r assume r: "body s = Some r" "case r of Inl x \<Rightarrow> P x | Inr s' \<Rightarrow> I s' \<and> m s' < m s"
    show ?thesis
    proof (cases r)
      case (Inl x)
      then show ?thesis using r by simp
    next
      case (Inr t)
      then have "I t" "m t < n" using r(2) Suc.prems(2) by auto
      then show ?thesis using Suc.IH r(1) Inr by simp
    qed
  qed
qed

lemma iterate_hangs:
  assumes "\<And>s. I s \<Longrightarrow> \<exists>t. body s = Some (Inr t) \<and> I t"
  shows "I s \<Longrightarrow> iterate n body s = Some Running"
proof (induction n arbitrary: s)
  case 0
  then show ?case by simp
next
  case (Suc n)
  from assms [OF Suc.prems] obtain t where "body s = Some (Inr t)" "I t" by blast
  then show ?case using Suc.IH by simp
qed

text \<open>More iterations do not change a result.\<close>

lemma iterate_more: "iterate n body s = Some (Returns x) \<Longrightarrow> n \<le> k \<Longrightarrow> iterate k body s = Some (Returns x)"
proof (induction n arbitrary: s k)
  case 0
  then show ?case by simp
next
  case (Suc n)
  obtain j where k: "k = Suc j" "n \<le> j" using Suc.prems(2) by (cases k) auto
  from Suc.prems(1) obtain r where r: "body s = Some r"
    "(case r of Inl y \<Rightarrow> Some (Returns y) | Inr t \<Rightarrow> iterate n body t) = Some (Returns x)"
    by (auto simp: bind_eq_Some_conv)
  then show ?case by (cases r) (simp_all add: k(1) Suc.IH [OF _ k(2)])
qed

text \<open>The result of a loop that ended.\<close>

definition finished :: "'r run ub \<Rightarrow> 'r ub" where
  "finished m = (case m of Some (Returns x) \<Rightarrow> Some x | _ \<Rightarrow> None)"

lemma finished_simps [simp]:
  "finished (Some (Returns x)) = Some x" "finished (Some Running) = None" "finished None = None"
  by (simp_all add: finished_def)

lemma finished_yields: "yields m (\<lambda>r. \<exists>x. r = Returns x \<and> P x) \<Longrightarrow> yields (finished m) P"
  by (auto simp: yields_iff)

definition run_entry ::
    "('a list \<Rightarrow> nat \<Rightarrow> 'k \<Rightarrow> ('a \<Rightarrow> 'k \<Rightarrow> int) \<Rightarrow> nat option run ub) \<Rightarrow>
     'a list ptr \<Rightarrow> nat \<Rightarrow> 'k ptr \<Rightarrow> ('a \<Rightarrow> 'k \<Rightarrow> int) ptr \<Rightarrow> nat ptr \<Rightarrow> (scl_error_t \<times> nat ptr) run ub" where
  "run_entry body base cnt key cmp out_index =
     (case (base, key, cmp, out_index) of
        (Some xs, Some k, Some c, Some _) \<Rightarrow>
          if cnt = 0 then Some (Returns (SCL_ERR_EMPTY, out_index))
          else do {
            r \<leftarrow> body xs cnt k c;
            Some (case r of
                Returns None \<Rightarrow> Returns (SCL_ERR_NOT_FOUND, out_index)
              | Returns (Some i) \<Rightarrow> Returns (SCL_OK, Some i)
              | Running \<Rightarrow> Running)
          }
      | _ \<Rightarrow> Some (Returns (SCL_ERR_NULL_PTR, out_index)))"

lemma finished_run_entry:
  "finished (run_entry body b n key c out) = search_entry (\<lambda>xs n k c. finished (body xs n k c)) b n key c out"
  by (auto simp: run_entry_def search_entry_def finished_def split: option.splits run.splits)

lemma run_entry_searcher:
  assumes "\<And>cmp xs k. comparator cmp \<Longrightarrow> ready cmp xs k \<Longrightarrow> 0 < length xs \<Longrightarrow> length xs < object_limit \<Longrightarrow>
    yields (body (fuel (length xs)) xs (length xs) k cmp) (\<lambda>r. \<exists>x. r = Returns x \<and> hit cmp xs k x)"
  shows "searcher (\<lambda>b n key c out. finished (run_entry (body (fuel n)) b n key c out)) ready"
proof -
  have "(\<lambda>b n key c out. finished (run_entry (body (fuel n)) b n key c out))
      = search_entry (\<lambda>xs n k c. finished (body (fuel n) xs n k c))"
    by (simp add: fun_eq_iff finished_run_entry search_entry_def split: option.split)
  then show ?thesis using assms by (auto intro!: search_entry_searcher finished_yields)
qed

section \<open>The inclusive binary search\<close>

text \<open>One iteration of \<open>while (lo <= hi)\<close> of \<open>binary_search_range\<close>.\<close>

definition range_step :: "('a \<Rightarrow> 'k \<Rightarrow> int) \<Rightarrow> 'a list \<Rightarrow> 'k \<Rightarrow> nat \<times> nat \<Rightarrow> (nat option + nat \<times> nat) ub" where
  "range_step cmp xs k st = (case st of (lo, hi) \<Rightarrow>
     if lo \<le> hi then do {
       let mid = lo + (hi - lo) div 2;
       v \<leftarrow> at xs mid;
       let r = cmp v k;
       Some (if r = 0 then Inl (Some mid)
             else if r < 0 then Inr (mid + 1, hi)
             else Inr (lo, if mid = 0 then 0 else mid - 1))
     } else Some (Inl None))"

definition binary_search_range :: "nat \<Rightarrow> ('a \<Rightarrow> 'k \<Rightarrow> int) \<Rightarrow> 'a list \<Rightarrow> 'k \<Rightarrow> nat \<Rightarrow> nat \<Rightarrow> nat option run ub" where
  "binary_search_range fuel cmp xs k lo hi = iterate fuel (range_step cmp xs k) (lo, hi)"

text \<open>It hangs at \<open>lo = hi = 0\<close> or on the way there.\<close>

lemma binary_range_hangs:
  assumes "comparator cmp" and xs: "sorted_cmp cmp xs" and k: "0 < cmp (xs ! 0) k" and hi: "hi < length xs"
  shows "binary_search_range n cmp xs k 0 hi = Some Running"
  unfolding binary_search_range_def
proof (rule iterate_hangs [where I = "\<lambda>st. fst st = 0 \<and> snd st < length xs"])
  fix st :: "nat \<times> nat" assume "fst st = 0 \<and> snd st < length xs"
  then obtain h where st: "st = (0, h)" "h < length xs" by (cases st) auto
  have m: "h div 2 < length xs" using st(2) by linarith
  have "0 < cmp (xs ! (h div 2)) k" using comparator.sorted_above [OF assms(1) xs _ m k] by simp
  then show "\<exists>t. range_step cmp xs k st = Some (Inr t) \<and> fst t = 0 \<and> snd t < length xs"
    using m by (auto simp: range_step_def st Let_def)
qed (use hi in simp)

text \<open>What the halving keeps: if the key is anywhere, it is in the range.\<close>

definition covers :: "('a \<Rightarrow> 'k \<Rightarrow> int) \<Rightarrow> 'a list \<Rightarrow> 'k \<Rightarrow> nat \<Rightarrow> nat \<Rightarrow> bool" where
  "covers cmp xs k lo hi \<longleftrightarrow> hi \<le> length xs \<and>
     ((\<exists>j < length xs. cmp (xs ! j) k = 0) \<longrightarrow> (\<exists>j < hi. lo \<le> j \<and> cmp (xs ! j) k = 0))"

lemma covers_whole: "n = length xs \<Longrightarrow> covers cmp xs k 0 n"
  by (auto simp: covers_def)

lemma covers_none: "covers cmp xs k lo hi \<Longrightarrow> hi \<le> lo \<Longrightarrow> hit cmp xs k None"
  by (rule no_hit) (fastforce simp: covers_def)

lemma covers_hit: "lo \<le> m \<Longrightarrow> m < hi \<Longrightarrow> hi \<le> length xs \<Longrightarrow> cmp (xs ! m) k = 0 \<Longrightarrow> covers cmp xs k lo hi"
  by (auto simp: covers_def)

context comparator
begin

lemma covers_up:
  assumes "sorted_cmp cmp xs" and "covers cmp xs k lo hi" and "m < length xs" and "cmp (xs ! m) k < 0"
  shows "covers cmp xs k (m + 1) hi"
  using assms(2) sorted_below [OF assms(1) _ assms(3,4)] unfolding covers_def
  by (metis Suc_eq_plus1 less_irrefl not_less_eq_eq)

lemma covers_down:
  assumes "sorted_cmp cmp xs" and "covers cmp xs k lo hi" and "m < length xs" and "0 < cmp (xs ! m) k"
  shows "covers cmp xs k lo m"
  using assms(2,3) sorted_above [OF assms(1) _ _ assms(4)] unfolding covers_def
  by (metis less_imp_le less_irrefl linorder_le_less_linear order_less_le_trans)

end

text \<open>Otherwise at most \<open>hi - lo + 2\<close> iterations are needed.\<close>

lemma binary_range_hit:
  assumes c: "comparator cmp" and xs: "sorted_cmp cmp xs" and k: "cmp (xs ! 0) k \<le> 0"
    and cov: "covers cmp xs k lo (Suc hi)" and fuel: "Suc hi - lo < n"
  shows "yields (binary_search_range n cmp xs k lo hi) (\<lambda>r. \<exists>x. r = Returns x \<and> hit cmp xs k x)"
  unfolding binary_search_range_def
proof (rule iterate_ends [where I = "\<lambda>st. covers cmp xs k (fst st) (Suc (snd st))" and m = "\<lambda>st. Suc (snd st) - fst st"])
  fix st :: "nat \<times> nat" assume inv: "covers cmp xs k (fst st) (Suc (snd st))"
  obtain l h where st: "st = (l, h)" by (cases st)
  let ?m = "l + (h - l) div 2"
  show "yields (range_step cmp xs k st) (\<lambda>r. case r of Inl x \<Rightarrow> hit cmp xs k x
      | Inr s' \<Rightarrow> covers cmp xs k (fst s') (Suc (snd s')) \<and> Suc (snd s') - fst s' < Suc (snd st) - fst st)"
  proof (cases "l \<le> h")
    case False
    then show ?thesis using covers_none [OF inv] by (simp add: range_step_def st)
  next
    case True
    have inv': "covers cmp xs k l (Suc h)" using inv by (simp add: st)
    have m: "?m \<le> h" "?m < length xs" using True inv' by (auto simp: covers_def)
    have dec: "Suc h - (?m + 1) < Suc h - l" "?m - l < Suc h - l" using True by linarith+
    consider "cmp (xs ! ?m) k = 0" | "cmp (xs ! ?m) k < 0" | "0 < cmp (xs ! ?m) k" by linarith
    then show ?thesis
    proof cases
      case 1
      then show ?thesis using True m by (simp add: range_step_def st Let_def)
    next
      case 2
      then show ?thesis using True m dec comparator.covers_up [OF c xs inv' m(2) 2]
        by (simp add: range_step_def st Let_def)
    next
      case 3
      then have "?m \<noteq> 0" using k by (metis linorder_not_less)
      then obtain p where p: "?m = Suc p" using not0_implies_Suc by blast
      have "range_step cmp xs k st = Some (Inr (l, p))"
        using m 3 by (simp add: range_step_def st Let_def p True)
      then show ?thesis using dec(2) comparator.covers_down [OF c xs inv' m(2) 3] p
        by (simp add: st)
    qed
  qed
qed (use cov fuel in simp_all)

section \<open>Exponential search\<close>

text \<open>\<open>while (bound < count)\<close>: the bound doubles until its element is not below the key. \<open>bound\<close> stays far
  below \<open>SIZE_MAX / 2\<close>, because \<open>count\<close> does.\<close>

function grow_bound :: "nat \<Rightarrow> ('a \<Rightarrow> 'k \<Rightarrow> int) \<Rightarrow> 'a list \<Rightarrow> 'k \<Rightarrow> nat \<Rightarrow> nat \<Rightarrow> nat option run ub" where
  "grow_bound fuel cmp xs k cnt bound =
     (if bound < cnt then do {
        v \<leftarrow> at xs bound;
        if 0 \<le> cmp v k then
          binary_search_range fuel cmp xs k (bound div 2) (if cnt \<le> bound then cnt - 1 else bound)
        else if (2 ^ 64 - 1) div 2 < bound then binary_search_range fuel cmp xs k (bound div 2) (cnt - 1)
        else if bound = 0 then None
        else grow_bound fuel cmp xs k cnt (bound * 2)
      } else binary_search_range fuel cmp xs k (bound div 2) (cnt - 1))"
  by pat_completeness auto
termination by (relation "measure (\<lambda>(fuel, cmp, xs, k, cnt, bound). cnt - bound)") auto

declare grow_bound.simps [simp del]

definition scl_search_exponential_search ::
    "nat \<Rightarrow> 'a list ptr \<Rightarrow> nat \<Rightarrow> 'k ptr \<Rightarrow> ('a \<Rightarrow> 'k \<Rightarrow> int) ptr \<Rightarrow> nat ptr \<Rightarrow> (scl_error_t \<times> nat ptr) run ub" where
  "scl_search_exponential_search fuel = run_entry (\<lambda>xs cnt k cmp. do {
     v \<leftarrow> at xs 0;
     if cmp v k = 0 then Some (Returns (Some 0))
     else if cnt = 1 then Some (Returns None)
     else grow_bound fuel cmp xs k cnt 1
   })"

lemma grow_bound_hit:
  assumes c: "comparator cmp" and xs: "sorted_cmp cmp xs" and k: "cmp (xs ! 0) k \<le> 0" and len: "length xs < object_limit"
    and fuel: "length xs < n"
  shows "0 < bound \<Longrightarrow> covers cmp xs k (bound div 2) (length xs) \<Longrightarrow> bound div 2 < length xs \<Longrightarrow>
    yields (grow_bound n cmp xs k (length xs) bound) (\<lambda>r. \<exists>x. r = Returns x \<and> hit cmp xs k x)"
proof (induction "length xs - bound" arbitrary: bound rule: less_induct)
  case less
  let ?goal = "\<lambda>m. yields m (\<lambda>r. \<exists>x. r = Returns x \<and> hit cmp xs k x)"
  have last: "?goal (binary_search_range n cmp xs k (bound div 2) (length xs - 1))"
  proof (rule binary_range_hit [OF c xs k])
    show "covers cmp xs k (bound div 2) (Suc (length xs - 1))"
      using less.prems(2) by (simp only: Suc_diff_1 [OF le_less_trans [OF le0 less.prems(3)]])
  qed (use fuel less.prems(3) in linarith)
  show ?case
  proof (cases "bound < length xs")
    case False
    then show ?thesis using last by (subst grow_bound.simps) simp
  next
    case True
    consider "0 \<le> cmp (xs ! bound) k" | "cmp (xs ! bound) k < 0" by linarith
    then show ?thesis
    proof cases
      case 1
      have "covers cmp xs k (bound div 2) (Suc bound)"
      proof (cases "cmp (xs ! bound) k = 0")
        case eq: True
        then show ?thesis using True by (intro covers_hit [of _ bound]) simp_all
      next
        case False
        then have "0 < cmp (xs ! bound) k" using 1 by linarith
        then have "covers cmp xs k (bound div 2) bound"
          using comparator.covers_down [OF c xs less.prems(2) True] by simp
        then show ?thesis using True unfolding covers_def by (meson less_SucI Suc_leI)
      qed
      then have "?goal (binary_search_range n cmp xs k (bound div 2) bound)"
        using binary_range_hit [OF c xs k] True fuel by simp
      then show ?thesis using True 1 by (subst grow_bound.simps) simp
    next
      case 2
      have small: "\<not> (2 ^ 64 - 1) div 2 < bound" using True len by simp
      have "covers cmp xs k (bound + 1) (length xs)"
        using comparator.covers_up [OF c xs less.prems(2) True 2] .
      then have "covers cmp xs k (bound * 2 div 2) (length xs)"
        unfolding covers_def by (metis Suc_eq_plus1 Suc_leD nonzero_mult_div_cancel_right zero_neq_numeral)
      then have "?goal (grow_bound n cmp xs k (length xs) (bound * 2))"
        using less.hyps [of "bound * 2"] True less.prems(1) by simp
      then show ?thesis using True 2 small less.prems(1) by (subst grow_bound.simps) simp
    qed
  qed
qed

text \<open>The search returns, within \<open>count + 1\<close> halvings, unless the key is below the first of at least two
  elements. Then it never does.\<close>

lemma exponential_body:
  assumes c: "comparator cmp" and xs: "sorted_cmp cmp xs" and ne: "0 < length xs" and len: "length xs < object_limit"
    and k: "length xs = 1 \<or> cmp (xs ! 0) k \<le> 0" and fuel: "length xs < n"
  shows "yields (do {
      v \<leftarrow> at xs 0;
      if cmp v k = 0 then Some (Returns (Some 0))
      else if length xs = 1 then Some (Returns None)
      else grow_bound n cmp xs k (length xs) 1
    }) (\<lambda>r. \<exists>x. r = Returns x \<and> hit cmp xs k x)"
proof -
  consider "cmp (xs ! 0) k = 0" | "cmp (xs ! 0) k \<noteq> 0" "length xs = 1" | "cmp (xs ! 0) k < 0" "1 < length xs"
    using k ne by linarith
  then show ?thesis
  proof cases
    case 1
    then show ?thesis using ne by simp
  next
    case 2
    then show ?thesis by (auto simp: in_set_conv_nth)
  next
    case 3
    have "covers cmp xs k (1 div 2) (length xs)" "(1::nat) div 2 < length xs" using ne by (simp_all add: covers_whole)
    then have "yields (grow_bound n cmp xs k (length xs) 1) (\<lambda>r. \<exists>x. r = Returns x \<and> hit cmp xs k x)"
      using grow_bound_hit [OF c xs _ len fuel, of k 1] 3(1) by linarith
    then show ?thesis using 3 ne by simp
  qed
qed

lemma exponential_hangs:
  assumes c: "comparator cmp" and xs: "sorted_cmp cmp xs" and len: "1 < length xs" and k: "0 < cmp (xs ! 0) k"
  shows "scl_search_exponential_search n (Some xs) (length xs) (Some k) (Some cmp) (Some i) = Some Running"
proof -
  have 1: "0 < cmp (xs ! 1) k" using comparator.sorted_above [OF c xs _ len k] by simp
  have "grow_bound n cmp xs k (length xs) 1 = Some Running"
    using len 1 binary_range_hangs [OF c xs k len, of n] by (subst grow_bound.simps) simp
  moreover have "0 < length xs" using len by linarith
  ultimately show ?thesis using k len
    by (simp add: scl_search_exponential_search_def run_entry_def)
qed

interpretation exponential: searcher "\<lambda>b n key c out. finished (scl_search_exponential_search (Suc n) b n key c out)"
    "\<lambda>cmp xs k. sorted_cmp cmp xs \<and> (length xs = 1 \<or> cmp (xs ! 0) k \<le> 0)"
  unfolding scl_search_exponential_search_def
  by (rule run_entry_searcher) (rule exponential_body, simp_all)

section \<open>Ternary search\<close>

definition ternary_step :: "('a \<Rightarrow> 'k \<Rightarrow> int) \<Rightarrow> 'a list \<Rightarrow> 'k \<Rightarrow> nat \<times> nat \<Rightarrow> (nat option + nat \<times> nat) ub" where
  "ternary_step cmp xs k st = (case st of (lo, hi) \<Rightarrow>
     if lo \<le> hi then do {
       let mid1 = lo + (hi - lo) div 3;
       let mid2 = hi - (hi - lo) div 3;
       e1 \<leftarrow> at xs mid1;
       let r1 = cmp e1 k;
       if r1 = 0 then Some (Inl (Some mid1))
       else do {
         e2 \<leftarrow> at xs mid2;
         let r2 = cmp e2 k;
         Some (if r2 = 0 then Inl (Some mid2)
               else if r1 < 0 \<and> 0 < r2 then Inr (mid1 + 1, if mid2 = 0 then 0 else mid2 - 1)
               else if r2 < 0 then Inr (mid2 + 1, hi)
               else Inr (lo, if mid1 = 0 then 0 else mid1 - 1))
       }
     } else Some (Inl None))"

definition scl_search_ternary_search ::
    "nat \<Rightarrow> 'a list ptr \<Rightarrow> nat \<Rightarrow> 'k ptr \<Rightarrow> ('a \<Rightarrow> 'k \<Rightarrow> int) ptr \<Rightarrow> nat ptr \<Rightarrow> (scl_error_t \<times> nat ptr) run ub" where
  "scl_search_ternary_search fuel = run_entry (\<lambda>xs cnt k cmp. iterate fuel (ternary_step cmp xs k) (0, cnt - 1))"

lemma ternary_hangs:
  assumes c: "comparator cmp" and xs: "sorted_cmp cmp xs" and len: "0 < length xs" and k: "0 < cmp (xs ! 0) k"
  shows "scl_search_ternary_search n (Some xs) (length xs) (Some k) (Some cmp) (Some i) = Some Running"
proof -
  have "iterate n (ternary_step cmp xs k) (0, length xs - 1) = Some Running"
  proof (rule iterate_hangs [where I = "\<lambda>st. fst st = 0 \<and> snd st < length xs"])
    fix st :: "nat \<times> nat" assume "fst st = 0 \<and> snd st < length xs"
    then obtain h where st: "st = (0, h)" "h < length xs" by (cases st) auto
    have m: "h div 3 < length xs" "h - h div 3 < length xs" using st(2) by linarith+
    have "0 < cmp (xs ! (h div 3)) k" "0 < cmp (xs ! (h - h div 3)) k"
      using comparator.sorted_above [OF c xs _ m(1) k] comparator.sorted_above [OF c xs _ m(2) k] by simp_all
    then show "\<exists>t. ternary_step cmp xs k st = Some (Inr t) \<and> fst t = 0 \<and> snd t < length xs"
      using m by (auto simp: ternary_step_def st Let_def)
  qed (use len in simp)
  then show ?thesis using len by (simp add: scl_search_ternary_search_def run_entry_def)
qed

lemma covers_mono: "covers cmp xs k lo hi \<Longrightarrow> lo' \<le> lo \<Longrightarrow> covers cmp xs k lo' hi"
  unfolding covers_def using order_trans by blast

lemma ternary_step_hit:
  assumes c: "comparator cmp" and xs: "sorted_cmp cmp xs" and k: "cmp (xs ! 0) k \<le> 0"
    and inv: "covers cmp xs k l (Suc h)"
  shows "yields (ternary_step cmp xs k (l, h)) (\<lambda>r. case r of Inl x \<Rightarrow> hit cmp xs k x
      | Inr s' \<Rightarrow> covers cmp xs k (fst s') (Suc (snd s')) \<and> Suc (snd s') - fst s' < Suc h - l)"
proof (cases "l \<le> h")
  case False
  then show ?thesis using covers_none [OF inv] by (simp add: ternary_step_def)
next
  case True
  define m1 where "m1 = l + (h - l) div 3"
  define m2 where "m2 = h - (h - l) div 3"
  have m: "l \<le> m1" "m1 \<le> m2" "m2 \<le> h" "m1 < length xs" "m2 < length xs"
    using True inv by (auto simp: covers_def m1_def m2_def)
  have pos: "m = Suc (m - 1)" if "0 < cmp (xs ! m) k" for m using k that by (cases m) auto
  consider "cmp (xs ! m1) k = 0" | "cmp (xs ! m1) k \<noteq> 0" "cmp (xs ! m2) k = 0"
    | "cmp (xs ! m1) k < 0" "0 < cmp (xs ! m2) k" | "cmp (xs ! m1) k < 0" "cmp (xs ! m2) k < 0" | "0 < cmp (xs ! m1) k"
    by linarith
  then show ?thesis
  proof cases
    case 1
    then show ?thesis using True m by (simp add: ternary_step_def Let_def flip: m1_def m2_def)
  next
    case 2
    then show ?thesis using True m by (simp add: ternary_step_def Let_def flip: m1_def m2_def)
  next
    case 3
    then have "covers cmp xs k (m1 + 1) m2"
      using comparator.covers_up [OF c xs inv m(4)] comparator.covers_down [OF c xs _ m(5)] by blast
    then have "covers cmp xs k (m1 + 1) (Suc (m2 - 1))" "m2 \<noteq> 0" using pos [OF 3(2)] by simp_all
    moreover have "Suc (m2 - 1) - (m1 + 1) < Suc h - l" using m True by linarith
    ultimately show ?thesis using 3 True m by (simp add: ternary_step_def Let_def flip: m1_def m2_def)
  next
    case 4
    have "covers cmp xs k (m2 + 1) (Suc h)" using comparator.covers_up [OF c xs inv m(5) 4(2)] .
    moreover have "Suc h - (m2 + 1) < Suc h - l" using m True by linarith
    ultimately show ?thesis using 4 True m by (simp add: ternary_step_def Let_def flip: m1_def m2_def)
  next
    case 5
    then have 2: "0 < cmp (xs ! m2) k" using comparator.sorted_above [OF c xs m(2) m(5)] by simp
    have "covers cmp xs k l (Suc (m1 - 1))" "m1 \<noteq> 0"
      using comparator.covers_down [OF c xs inv m(4) 5] pos [OF 5] by simp_all
    moreover have "Suc (m1 - 1) - l < Suc h - l" using m True calculation(2) by linarith
    ultimately show ?thesis using 5 2 True m by (simp add: ternary_step_def Let_def flip: m1_def m2_def)
  qed
qed

lemma ternary_body:
  assumes c: "comparator cmp" and xs: "sorted_cmp cmp xs" and ne: "0 < length xs" and k: "cmp (xs ! 0) k \<le> 0"
    and fuel: "length xs < n"
  shows "yields (iterate n (ternary_step cmp xs k) (0, length xs - 1)) (\<lambda>r. \<exists>x. r = Returns x \<and> hit cmp xs k x)"
proof (rule iterate_ends [where I = "\<lambda>st. covers cmp xs k (fst st) (Suc (snd st))" and m = "\<lambda>st. Suc (snd st) - fst st"])
  show "covers cmp xs k (fst (0, length xs - 1)) (Suc (snd (0::nat, length xs - 1)))" using ne by (simp add: covers_whole)
  show "Suc (snd (0::nat, length xs - 1)) - fst (0::nat, length xs - 1) < n" using fuel ne by simp
  fix st :: "nat \<times> nat" assume "covers cmp xs k (fst st) (Suc (snd st))"
  then show "yields (ternary_step cmp xs k st) (\<lambda>r. case r of Inl x \<Rightarrow> hit cmp xs k x
      | Inr s' \<Rightarrow> covers cmp xs k (fst s') (Suc (snd s')) \<and> Suc (snd s') - fst s' < Suc (snd st) - fst st)"
    using ternary_step_hit [OF c xs k, of "fst st" "snd st"] by simp
qed

interpretation ternary: searcher "\<lambda>b n key c out. finished (scl_search_ternary_search (Suc n) b n key c out)"
    "\<lambda>cmp xs k. sorted_cmp cmp xs \<and> cmp (xs ! 0) k \<le> 0"
  unfolding scl_search_ternary_search_def
  by (rule run_entry_searcher) (rule ternary_body, simp_all)

end
