(* ===== verification/Scl_Search_Probe.thy ===== *)
theory Scl_Search_Probe
  imports Scl_Search_Range
begin

text \<open>
  The searches of \<open>libs/search\<close> that choose their probes in other ways: unbounded binary search through an
  access function, Fibonacci search, interpolation search on 64-bit integers and meta-binary search on
  32-bit integers.

  Unbounded binary search shares the endless loop of exponential search. Fibonacci search always returns
  and a returned index is right, but it can miss an element that is there. Interpolation search is right
  on arrays without duplicates and gives up on a range whose ends are equal. Meta-binary search is right on
  every sorted array.
\<close>

section \<open>Unbounded binary search\<close>

text \<open>The access function of the caller returns \<open>NULL\<close> beyond the end. The first loop either finds the key or
  leaves a range.\<close>

function unbounded_probe ::
    "(nat \<Rightarrow> 'a ptr) \<Rightarrow> ('a \<Rightarrow> 'k \<Rightarrow> int) \<Rightarrow> 'k \<Rightarrow> nat \<Rightarrow> nat \<Rightarrow> nat \<Rightarrow> (nat + nat \<times> nat) ub" where
  "unbounded_probe getter cmp k max_count lo hi =
     (if hi < max_count then
        (case getter hi of
           None \<Rightarrow> Some (Inr (lo, hi))
         | Some e \<Rightarrow>
             let r = cmp e k in
             if r = 0 then Some (Inl hi)
             else if 0 < r then Some (Inr (lo, hi))
             else if (2 ^ 64 - 1) div 2 < hi then Some (Inr (hi, max_count))
             else if hi = 0 then None
             else unbounded_probe getter cmp k max_count hi (hi * 2))
      else Some (Inr (lo, hi)))"
  by pat_completeness auto
termination by (relation "measure (\<lambda>(getter, cmp, k, max_count, lo, hi). max_count - hi)") auto

declare unbounded_probe.simps [simp del]

definition unbounded_step ::
    "(nat \<Rightarrow> 'a ptr) \<Rightarrow> ('a \<Rightarrow> 'k \<Rightarrow> int) \<Rightarrow> 'k \<Rightarrow> nat \<times> nat \<Rightarrow> (nat option + nat \<times> nat) ub" where
  "unbounded_step getter cmp k st = (case st of (lo, hi) \<Rightarrow>
     Some (if lo \<le> hi then
       let mid = lo + (hi - lo) div 2 in
       (case getter mid of
          None \<Rightarrow> Inr (lo, if mid = 0 then 0 else mid - 1)
        | Some e \<Rightarrow>
            let r = cmp e k in
            if r = 0 then Inl (Some mid)
            else if r < 0 then Inr (mid + 1, hi)
            else Inr (lo, if mid = 0 then 0 else mid - 1))
     else Inl None))"

definition scl_search_unbounded_binary_search ::
    "nat \<Rightarrow> ('a \<Rightarrow> 'k \<Rightarrow> int) ptr \<Rightarrow> 'k ptr \<Rightarrow> nat ptr \<Rightarrow> (nat \<Rightarrow> 'a ptr) ptr \<Rightarrow> nat
     \<Rightarrow> (scl_error_t \<times> nat ptr) run ub" where
  "scl_search_unbounded_binary_search fuel cmp key out_index getter max_count =
     (case (cmp, key, out_index, getter) of
        (Some c, Some k, Some _, Some get) \<Rightarrow>
          if max_count = 0 then Some (Returns (SCL_ERR_EMPTY, out_index))
          else (case get 0 of
              None \<Rightarrow> Some (Returns (SCL_ERR_NOT_FOUND, out_index))
            | Some e \<Rightarrow>
                if c e k = 0 then Some (Returns (SCL_OK, Some 0))
                else do {
                  p \<leftarrow> unbounded_probe get c k max_count 0 1;
                  (case p of
                     Inl i \<Rightarrow> Some (Returns (SCL_OK, Some i))
                   | Inr (lo, hi) \<Rightarrow> do {
                       let hi = (if max_count \<le> hi then max_count - 1 else hi);
                       let hi = (if hi < lo then lo else hi);
                       r \<leftarrow> iterate fuel (unbounded_step get c k) (lo, hi);
                       Some (case r of
                           Returns None \<Rightarrow> Returns (SCL_ERR_NOT_FOUND, out_index)
                         | Returns (Some i) \<Rightarrow> Returns (SCL_OK, Some i)
                         | Running \<Rightarrow> Running)
                     })
                })
      | _ \<Rightarrow> Some (Returns (SCL_ERR_NULL_PTR, out_index)))"

text \<open>An access function for an array.\<close>

definition getter_of :: "'a list \<Rightarrow> nat \<Rightarrow> 'a ptr" where
  "getter_of xs i = (if i < length xs then Some (xs ! i) else None)"

text \<open>The range after the first loop.\<close>

lemma unbounded_probe_range:
  assumes c: "comparator cmp" and xs: "sorted_cmp cmp xs" and max: "length xs \<le> mc" "mc < 2 ^ 64"
  shows "lo < hi \<Longrightarrow> lo < length xs \<Longrightarrow> covers cmp xs k lo (length xs) \<Longrightarrow>
    yields (unbounded_probe (getter_of xs) cmp k mc lo hi) (\<lambda>p. case p of
      Inl i \<Rightarrow> i < length xs \<and> cmp (xs ! i) k = 0
    | Inr (l, h) \<Rightarrow> l \<le> h \<and> l < length xs \<and> covers cmp xs k l (min h (length xs)))"
proof (induction "mc - hi" arbitrary: lo hi rule: less_induct)
  case less
  have cov: "covers cmp xs k lo (min hi (length xs))" if "length xs \<le> hi" using that less.prems(3) by simp
  consider "length xs \<le> hi" | "hi < length xs" "cmp (xs ! hi) k = 0" | "hi < length xs" "0 < cmp (xs ! hi) k"
    | "hi < length xs" "cmp (xs ! hi) k < 0" by linarith
  then show ?case
  proof cases
    case 1
    then show ?thesis using less.prems(1,2) cov by (subst unbounded_probe.simps) (simp add: getter_of_def)
  next
    case 2
    then show ?thesis using max(1) by (subst unbounded_probe.simps) (simp add: getter_of_def)
  next
    case 3
    then have "covers cmp xs k lo hi" using comparator.covers_down [OF c xs less.prems(3)] by blast
    then show ?thesis using 3 max(1) less.prems(1,2) by (subst unbounded_probe.simps) (simp add: getter_of_def Let_def)
  next
    case 4
    have up: "covers cmp xs k hi (length xs)"
      using comparator.covers_up [OF c xs less.prems(3) 4] covers_mono [of cmp xs k "hi + 1" _ hi] by simp
    show ?thesis
    proof (cases "(2 ^ 64 - 1) div 2 < hi")
      case True
      then show ?thesis using 4 max up less.prems(1) by (subst unbounded_probe.simps) (simp add: getter_of_def Let_def)
    next
      case False
      have "mc - hi * 2 < mc - hi" "hi < hi * 2" using 4 max(1) less.prems(1) by linarith+
      from less.hyps [OF this 4(1) up] show ?thesis
        using 4 max False less.prems(1) by (subst unbounded_probe.simps) (simp add: getter_of_def Let_def)
    qed
  qed
qed

lemma unbounded_step_hit:
  assumes c: "comparator cmp" and xs: "sorted_cmp cmp xs" and k: "cmp (xs ! 0) k \<le> 0" and ne: "0 < length xs"
    and inv: "covers cmp xs k l (min (Suc h) (length xs))"
  shows "yields (unbounded_step (getter_of xs) cmp k (l, h)) (\<lambda>r. case r of Inl x \<Rightarrow> hit cmp xs k x
      | Inr s' \<Rightarrow> covers cmp xs k (fst s') (min (Suc (snd s')) (length xs)) \<and> Suc (snd s') - fst s' < Suc h - l)"
proof (cases "l \<le> h")
  case False
  then show ?thesis using covers_none [OF inv] by (simp add: unbounded_step_def)
next
  case True
  define m where "m = l + (h - l) div 2"
  have m: "l \<le> m" "m \<le> h" using True by (auto simp: m_def)
  consider "length xs \<le> m" | "m < length xs" "cmp (xs ! m) k = 0" | "m < length xs" "cmp (xs ! m) k < 0"
    | "m < length xs" "0 < cmp (xs ! m) k" by linarith
  then show ?thesis
  proof cases
    case 1
    then have p: "m = Suc (m - 1)" using ne Suc_pred [of m] by linarith
    then have "unbounded_step (getter_of xs) cmp k (l, h) = Some (Inr (l, m - 1))" "min (Suc (m - 1)) (length xs) = length xs"
      using 1 True by (simp_all add: unbounded_step_def getter_of_def flip: m_def)
    moreover have "covers cmp xs k l (length xs)" using inv 1 m by (simp add: min_absorb2)
    moreover have "Suc (m - 1) - l < Suc h - l" using m p by linarith
    ultimately show ?thesis by simp
  next
    case 2
    then show ?thesis using True by (simp add: unbounded_step_def getter_of_def flip: m_def)
  next
    case 3
    then have "unbounded_step (getter_of xs) cmp k (l, h) = Some (Inr (m + 1, h))"
      using True by (simp add: unbounded_step_def getter_of_def flip: m_def)
    then show ?thesis using comparator.covers_up [OF c xs inv 3] m by simp
  next
    case 4
    then have "m \<noteq> 0" using k by (auto intro: ccontr)
    then have p: "m = Suc (m - 1)" by simp
    then have "unbounded_step (getter_of xs) cmp k (l, h) = Some (Inr (l, m - 1))"
      using 4 True by (simp add: unbounded_step_def getter_of_def flip: m_def)
    moreover have "covers cmp xs k l (min (Suc (m - 1)) (length xs))"
      using comparator.covers_down [OF c xs inv 4] 4(1) p by (simp add: min_absorb1)
    moreover have "Suc (m - 1) - l < Suc h - l" using m p by linarith
    ultimately show ?thesis by simp
  qed
qed

text \<open>With a key that is not below the first element the search returns, and finds the key if it is there.
  \<open>max_count + 1\<close> halvings are enough.\<close>

lemma unbounded_finds:
  assumes c: "comparator cmp" and xs: "sorted_cmp cmp xs" and k: "cmp (xs ! 0) k \<le> 0"
    and ne: "0 < length xs" and max: "length xs \<le> mc" "mc < 2 ^ 64" and fuel: "mc < n"
  shows "\<exists>r. scl_search_unbounded_binary_search n (Some cmp) (Some k) (Some i) (Some (getter_of xs)) mc
      = Some (Returns (case r of None \<Rightarrow> (SCL_ERR_NOT_FOUND, Some i) | Some j \<Rightarrow> (SCL_OK, Some j))) \<and> hit cmp xs k r"
proof -
  let ?s = "scl_search_unbounded_binary_search n (Some cmp) (Some k) (Some i) (Some (getter_of xs)) mc"
  have mc: "mc \<noteq> 0" using ne max(1) by linarith
  have g0: "getter_of xs 0 = Some (xs ! 0)" using ne by (simp add: getter_of_def)
  show ?thesis
  proof (cases "cmp (xs ! 0) k = 0")
    case True
    then show ?thesis using mc g0 ne
      by (intro exI [of _ "Some 0"]) (simp add: scl_search_unbounded_binary_search_def)
  next
    case False
    obtain p where p: "unbounded_probe (getter_of xs) cmp k mc 0 1 = Some p"
      "case p of Inl i \<Rightarrow> i < length xs \<and> cmp (xs ! i) k = 0
       | Inr (l, h) \<Rightarrow> l \<le> h \<and> l < length xs \<and> covers cmp xs k l (min h (length xs))"
      using unbounded_probe_range [OF c xs max, of 0 1 k] ne covers_whole [of "length xs" xs cmp k]
      unfolding yields_iff by auto
    show ?thesis
    proof (cases p)
      case (Inl j)
      then show ?thesis using mc g0 False p
        by (intro exI [of _ "Some j"]) (simp add: scl_search_unbounded_binary_search_def)
    next
      case (Inr lh)
      obtain l h where lh: "lh = (l, h)" by (cases lh)
      define h' where "h' = (if mc \<le> h then mc - 1 else h)"
      have lr: "l \<le> h" "l < length xs" "covers cmp xs k l (min h (length xs))" using p(2) Inr lh by simp_all
      have h': "l \<le> h'" "Suc h' - l < n" using lr mc max(1) fuel by (auto simp: h'_def)
      have "covers cmp xs k l (min (Suc h') (length xs))"
      proof -
        have "min h (length xs) \<le> min (Suc h') (length xs)" using mc max(1) by (auto simp: h'_def)
        then show ?thesis using lr(3) unfolding covers_def by (meson min.cobounded2 order_less_le_trans)
      qed
      then have "yields (iterate n (unbounded_step (getter_of xs) cmp k) (l, h')) (\<lambda>r. \<exists>x. r = Returns x \<and> hit cmp xs k x)"
        using h'(2) unbounded_step_hit [OF c xs k ne]
        by (intro iterate_ends [where I = "\<lambda>st. covers cmp xs k (fst st) (min (Suc (snd st)) (length xs))"
              and m = "\<lambda>st. Suc (snd st) - fst st"]) auto
      then obtain r where r: "iterate n (unbounded_step (getter_of xs) cmp k) (l, h') = Some (Returns r)" "hit cmp xs k r"
        by (auto simp: yields_iff)
      have "?s = Some (Returns (case r of None \<Rightarrow> (SCL_ERR_NOT_FOUND, Some i) | Some j \<Rightarrow> (SCL_OK, Some j)))"
        using mc g0 False p(1) Inr lh r(1) h'(1)
        by (simp add: scl_search_unbounded_binary_search_def Let_def flip: h'_def split: option.split)
      then show ?thesis using r(2) by blast
    qed
  qed
qed

lemma unbounded_hangs:
  assumes c: "comparator cmp" and xs: "sorted_cmp cmp xs" and k: "0 < cmp (xs ! 0) k" and ne: "0 < length xs" and mc: "0 < mc"
  shows "scl_search_unbounded_binary_search n (Some cmp) (Some k) (Some i) (Some (getter_of xs)) mc = Some Running"
proof -
  have up: "0 < cmp (xs ! j) k" if "j < length xs" for j using comparator.sorted_above [OF c xs _ that k] by simp
  have "unbounded_probe (getter_of xs) cmp k mc 0 1 = Some (Inr (0, 1))"
    using up [of 1] by (subst unbounded_probe.simps) (auto simp: getter_of_def Let_def split: option.split)
  moreover have "iterate n (unbounded_step (getter_of xs) cmp k) (0, h) = Some Running" for h
  proof (rule iterate_hangs [where I = "\<lambda>st. fst st = 0"])
    fix st :: "nat \<times> nat" assume "fst st = 0"
    then obtain h where st: "st = (0, h)" by (cases st) auto
    show "\<exists>t. unbounded_step (getter_of xs) cmp k st = Some (Inr t) \<and> fst t = 0"
      using up [of "h div 2"] by (auto simp: st unbounded_step_def Let_def getter_of_def split: option.split)
  qed simp
  ultimately show ?thesis using k ne mc
    by (simp add: scl_search_unbounded_binary_search_def getter_of_def)
qed

section \<open>Fibonacci search\<close>

text \<open>A subtraction of sizes that must not wrap.\<close>

definition sub_nw :: "nat \<Rightarrow> nat \<Rightarrow> nat ub" where
  "sub_nw a b = (if b \<le> a then Some (a - b) else None)"

lemma sub_nw_le [simp]: "b \<le> a \<Longrightarrow> sub_nw a b = Some (a - b)"
  by (simp add: sub_nw_def)

text \<open>The state is \<open>(fib2, fib1, fib)\<close>.\<close>

function fib_grow :: "nat \<Rightarrow> nat \<Rightarrow> nat \<Rightarrow> nat \<Rightarrow> (nat \<times> nat \<times> nat) ub" where
  "fib_grow cnt fib2 fib1 fib =
     (if fib < cnt then if fib1 = 0 then None else fib_grow cnt fib1 fib (fib + fib1) else Some (fib2, fib1, fib))"
  by pat_completeness auto
termination by (relation "measure (\<lambda>(cnt, fib2, fib1, fib). cnt - fib)") auto

declare fib_grow.simps [simp del]

text \<open>One iteration of \<open>while (fib > 1)\<close> and the last probe after it. The state is
  \<open>(fib2, fib1, fib, offset)\<close>.\<close>

definition fib_step ::
    "('a \<Rightarrow> 'k \<Rightarrow> int) \<Rightarrow> 'a list \<Rightarrow> nat \<Rightarrow> 'k \<Rightarrow> nat \<times> nat \<times> nat \<times> nat \<Rightarrow> (nat option + nat \<times> nat \<times> nat \<times> nat) ub" where
  "fib_step cmp xs cnt k st = (case st of (fib2, fib1, fib, offset) \<Rightarrow>
     if 1 < fib then do {
       let i = (if cnt \<le> offset + fib2 then cnt - 1 else offset + fib2);
       e \<leftarrow> at xs i;
       let r = cmp e k;
       if r = 0 then Some (Inl (Some i))
       else if r < 0 then Some (Inr (if fib2 < fib1 then fib1 - fib2 else 0, fib2, fib1, i + 1))
       else do {
         f1 \<leftarrow> sub_nw fib1 fib2;
         f2 \<leftarrow> sub_nw fib2 f1;
         Some (Inr (f2, f1, fib2, offset))
       }
     } else if fib1 \<noteq> 0 \<and> offset < cnt then do {
       e \<leftarrow> at xs offset;
       Some (Inl (if cmp e k = 0 then Some offset else None))
     } else Some (Inl None))"

definition scl_search_fibonacci_search ::
    "nat \<Rightarrow> 'a list ptr \<Rightarrow> nat \<Rightarrow> 'k ptr \<Rightarrow> ('a \<Rightarrow> 'k \<Rightarrow> int) ptr \<Rightarrow> nat ptr \<Rightarrow> (scl_error_t \<times> nat ptr) run ub" where
  "scl_search_fibonacci_search fuel = run_entry (\<lambda>xs cnt k cmp. do {
     (fib2, fib1, fib) \<leftarrow> fib_grow cnt 0 1 1;
     iterate fuel (fib_step cmp xs cnt k) (fib2, fib1, fib, 0)
   })"

text \<open>The three numbers are consecutive Fibonacci numbers until the last subtraction.\<close>

fun fibo :: "nat \<Rightarrow> nat" where
  "fibo 0 = 0"
| "fibo (Suc 0) = 1"
| "fibo (Suc (Suc n)) = fibo (Suc n) + fibo n"

lemma fibo_pos: "0 < fibo (Suc n)"
  by (induction n) simp_all

lemma fib_grow_spec:
  "yields (fib_grow cnt (fibo n) (fibo (Suc n)) (fibo (Suc (Suc n)))) (\<lambda>(f2, f1, f).
     cnt \<le> f \<and> (\<exists>m. f2 = fibo m \<and> f1 = fibo (Suc m) \<and> f = fibo (Suc (Suc m))))"
proof (induction "cnt - fibo (Suc (Suc n))" arbitrary: n rule: less_induct)
  case less
  show ?case
  proof (cases "fibo (Suc (Suc n)) < cnt")
    case False
    then show ?thesis by (subst fib_grow.simps) (auto simp del: fibo.simps)
  next
    case True
    have "cnt - fibo (Suc (Suc (Suc n))) < cnt - fibo (Suc (Suc n))" using True fibo_pos [of n] by simp
    from less.hyps [OF this] show ?thesis using True fibo_pos [of n]
      by (subst fib_grow.simps) (simp add: fibo.simps(3) [of "Suc n"] del: fibo.simps)
  qed
qed

definition fib_inv :: "nat \<times> nat \<times> nat \<times> nat \<Rightarrow> bool" where
  "fib_inv st \<longleftrightarrow> (case st of (fib2, fib1, fib, offset) \<Rightarrow>
     (\<exists>m. fib2 = fibo m \<and> fib1 = fibo (Suc m) \<and> fib = fibo (Suc (Suc m))) \<or> fib \<le> 1)"

text \<open>The search always ends, within \<open>fib\<close> iterations, reads only inside the array, and a reported index
  is right. The array does not have to be sorted.\<close>

lemma fib_step_sound:
  assumes ne: "0 < length xs" and inv: "fib_inv st"
  shows "yields (fib_step cmp xs (length xs) k st) (\<lambda>r. case r of
      Inl x \<Rightarrow> (case x of None \<Rightarrow> True | Some j \<Rightarrow> j < length xs \<and> cmp (xs ! j) k = 0)
    | Inr s' \<Rightarrow> fib_inv s' \<and> fst (snd (snd s')) < fst (snd (snd st)))"
proof -
  obtain f2 f1 f off where st: "st = (f2, f1, f, off)" by (cases st)
  show ?thesis
  proof (cases "1 < f")
    case False
    then show ?thesis by (simp add: st fib_step_def)
  next
    case True
    then obtain m where m: "f2 = fibo m" "f1 = fibo (Suc m)" "f = fibo (Suc (Suc m))"
      using inv by (auto simp: fib_inv_def st)
    from True m(3) obtain n where n: "m = Suc n" by (cases m) auto
    have pos: "0 < fibo (Suc n)" by (rule fibo_pos)
    define i where "i = (if length xs \<le> off + f2 then length xs - 1 else off + f2)"
    have i: "i < length xs" using ne by (auto simp: i_def)
    consider "cmp (xs ! i) k = 0" | "cmp (xs ! i) k < 0" | "0 < cmp (xs ! i) k" by linarith
    then show ?thesis
    proof cases
      case 1
      then show ?thesis using True i by (simp add: st fib_step_def Let_def flip: i_def)
    next
      case 2
      have "fib_step cmp xs (length xs) k st = Some (Inr (if f2 < f1 then f1 - f2 else 0, f2, f1, i + 1))"
        using 2 True i by (simp add: st fib_step_def Let_def flip: i_def)
      moreover have "(if f2 < f1 then f1 - f2 else 0) = fibo n" "f2 = fibo (Suc n)" using m n by simp_all
      ultimately have "fib_step cmp xs (length xs) k st = Some (Inr (fibo n, fibo (Suc n), f1, i + 1))" by simp
      moreover have "fib_inv (fibo n, fibo (Suc n), f1, i + 1)" by (auto simp: fib_inv_def m n)
      moreover have "f1 < f" using m n pos by simp
      ultimately show ?thesis by (simp add: st)
    next
      case 3
      have le: "f2 \<le> f1" "f1 - f2 \<le> f2" using m n by (cases n; simp)+
      have step: "fib_step cmp xs (length xs) k st = Some (Inr (f2 - (f1 - f2), f1 - f2, f2, off))"
        using 3 True i le by (simp add: st fib_step_def Let_def flip: i_def)
      show ?thesis
      proof (cases n)
        case 0
        have "fib_step cmp xs (length xs) k st = Some (Inr (1, 0, 1, off))"
          using step by (simp add: m n 0)
        then show ?thesis using True by (simp add: st fib_inv_def)
      next
        case (Suc q)
        have "fib_step cmp xs (length xs) k st = Some (Inr (fibo q, fibo (Suc q), fibo (Suc (Suc q)), off))"
          using step by (simp add: m n Suc)
        moreover have "fib_inv (fibo q, fibo (Suc q), fibo (Suc (Suc q)), off)" by (auto simp: fib_inv_def)
        moreover have "fibo (Suc (Suc q)) < f" using m n Suc fibo_pos [of q] by simp
        ultimately show ?thesis by (simp add: st)
      qed
    qed
  qed
qed

lemma fibonacci_sound:
  assumes ne: "0 < length xs"
  shows "\<exists>n r. scl_search_fibonacci_search n (Some xs) (length xs) (Some k) (Some cmp) (Some i)
      = Some (Returns (case r of None \<Rightarrow> (SCL_ERR_NOT_FOUND, Some i) | Some j \<Rightarrow> (SCL_OK, Some j))) \<and>
    (case r of None \<Rightarrow> True | Some j \<Rightarrow> j < length xs \<and> cmp (xs ! j) k = 0)"
proof -
  obtain f2 f1 f where g: "fib_grow (length xs) 0 1 1 = Some (f2, f1, f)" "fib_inv (f2, f1, f, 0)"
    using fib_grow_spec [of "length xs" 0] by (auto simp: fib_inv_def)
  have "yields (iterate (Suc f) (fib_step cmp xs (length xs) k) (f2, f1, f, 0)) (\<lambda>r. \<exists>x. r = Returns x \<and>
      (case x of None \<Rightarrow> True | Some j \<Rightarrow> j < length xs \<and> cmp (xs ! j) k = 0))"
    using g(2) fib_step_sound [OF ne, of _ cmp k]
    by (intro iterate_ends [where I = fib_inv and m = "\<lambda>st. fst (snd (snd st))"]) simp_all
  then obtain r where "iterate (Suc f) (fib_step cmp xs (length xs) k) (f2, f1, f, 0) = Some (Returns r)"
    "case r of None \<Rightarrow> True | Some j \<Rightarrow> j < length xs \<and> cmp (xs ! j) k = 0"
    unfolding yields_iff by blast
  then show ?thesis using g(1) ne
    by (intro exI [of _ "Suc f"] exI [of _ r]) (simp add: scl_search_fibonacci_search_def run_entry_def del: iterate.simps split: option.split)
qed

text \<open>A range of the shape the search starts from, in which it steps over the only match: with two elements the
  first probe is the second one, and what is left is not searched because \<open>fib1\<close> has become 0.\<close>

lemma fibonacci_misses_first:
  assumes "0 < cmp x1 k" and "cmp x0 k = 0"
  shows "scl_search_fibonacci_search 2 (Some [x0, x1]) 2 (Some k) (Some cmp) (Some i)
    = Some (Returns (SCL_ERR_NOT_FOUND, Some i))"
proof -
  have "fib_grow 2 0 1 1 = Some (1, 1, 2)" by (simp add: fib_grow.simps)
  then show ?thesis using assms
    by (simp add: scl_search_fibonacci_search_def run_entry_def fib_step_def at_def Let_def numeral_2_eq_2)
qed

section \<open>Interpolation search\<close>

text \<open>\<open>(size_t)(frac * (double)(hi - lo))\<close> is a parameter: a function of the key, the two end elements and
  the distance. Nothing is assumed of it; the sum is reduced modulo \<open>2 ^ 64\<close> as in the code and clamped.\<close>

type_synonym fraction = "64 word \<Rightarrow> 64 word \<Rightarrow> 64 word \<Rightarrow> nat \<Rightarrow> size_t"

definition interpolation_pos :: "fraction \<Rightarrow> 64 word list \<Rightarrow> 64 word \<Rightarrow> nat \<Rightarrow> nat \<Rightarrow> nat" where
  "interpolation_pos frac arr key lo hi =
     (let pos = (lo + unat (frac key (arr ! lo) (arr ! hi) (hi - lo))) mod 2 ^ 64;
          pos = (if pos < lo then lo else pos)
      in if hi < pos then hi else pos)"

lemma interpolation_pos_range: "lo \<le> hi \<Longrightarrow> lo \<le> interpolation_pos frac arr key lo hi \<and> interpolation_pos frac arr key lo hi \<le> hi"
  by (simp add: interpolation_pos_def Let_def)

function interpolation_loop :: "fraction \<Rightarrow> 64 word list \<Rightarrow> 64 word \<Rightarrow> nat \<Rightarrow> nat \<Rightarrow> nat option ub" where
  "interpolation_loop frac arr key lo hi =
     (if lo \<le> hi then do {
        a \<leftarrow> at arr lo;
        b \<leftarrow> at arr hi;
        if sint a \<le> sint key \<and> sint key \<le> sint b then
          if lo = hi then Some (if a = key then Some lo else None)
          else if b = a then Some None
          else do {
            let pos = interpolation_pos frac arr key lo hi;
            v \<leftarrow> at arr pos;
            if v = key then Some (Some pos)
            else if sint v < sint key then interpolation_loop frac arr key (pos + 1) hi
            else interpolation_loop frac arr key lo (if pos = 0 then 0 else pos - 1)
          }
        else Some None
      } else Some None)"
  by pat_completeness auto
termination
proof (relation "measure (\<lambda>(frac, arr, key, lo, hi). Suc hi - lo)", goal_cases)
  case (2 frac arr key lo hi a b x v)
  then show ?case using interpolation_pos_range [of lo hi frac arr key] by (simp add: Let_def) linarith
next
  case (3 frac arr key lo hi a b x v)
  then show ?case using interpolation_pos_range [of lo hi frac arr key] by (auto simp: Let_def)
qed simp

declare interpolation_loop.simps [simp del]

definition scl_search_interpolation_search ::
    "fraction \<Rightarrow> 64 word list ptr \<Rightarrow> nat \<Rightarrow> 64 word \<Rightarrow> nat ptr \<Rightarrow> (scl_error_t \<times> nat ptr) ub" where
  "scl_search_interpolation_search frac arr cnt key out_index =
     (case (arr, out_index) of
        (Some xs, Some _) \<Rightarrow>
          if cnt = 0 then Some (SCL_ERR_EMPTY, out_index)
          else do {
            r \<leftarrow> interpolation_loop frac xs key 0 (cnt - 1);
            Some (case r of None \<Rightarrow> (SCL_ERR_NOT_FOUND, out_index) | Some i \<Rightarrow> (SCL_OK, Some i))
          }
      | _ \<Rightarrow> Some (SCL_ERR_NULL_PTR, out_index))"

definition i64_cmp :: "64 word \<Rightarrow> 64 word \<Rightarrow> int" where
  "i64_cmp x y = sint x - sint y"

lemma i64_cmp_zero [simp]: "i64_cmp x y = 0 \<longleftrightarrow> x = y"
  by (auto simp: i64_cmp_def intro: signed_word_eqI)

interpretation i64: comparator i64_cmp
  by unfold_locales (auto simp: i64_cmp_def)

text \<open>On an array of distinct elements the search finds the key exactly when it is there.\<close>

lemma interpolation_loop_hit:
  assumes xs: "sorted_cmp i64_cmp xs" and d: "distinct xs"
  shows "covers i64_cmp xs key lo (Suc hi) \<Longrightarrow> yields (interpolation_loop frac xs key lo hi) (hit i64_cmp xs key)"
proof (induction "Suc hi - lo" arbitrary: lo hi rule: less_induct)
  case less
  note cov = less.prems
  show ?case
  proof (cases "lo \<le> hi")
    case False
    then show ?thesis using covers_none [OF cov] by (subst interpolation_loop.simps) simp
  next
    case le: True
    then have l: "lo < length xs" "hi < length xs" using cov by (auto simp: covers_def)
    consider "0 < i64_cmp (xs ! lo) key" | "i64_cmp (xs ! hi) key < 0"
      | "i64_cmp (xs ! lo) key \<le> 0" "0 \<le> i64_cmp (xs ! hi) key" by linarith
    then show ?thesis
    proof cases
      case 1
      then have "hit i64_cmp xs key None" using covers_none [OF i64.covers_down [OF xs cov l(1)]] by simp
      then show ?thesis using 1 le l by (subst interpolation_loop.simps) (simp add: i64_cmp_def)
    next
      case 2
      then have "hit i64_cmp xs key None" using covers_none [OF i64.covers_up [OF xs cov l(2)]] by simp
      then show ?thesis using 2 le l by (subst interpolation_loop.simps) (simp add: i64_cmp_def)
    next
      case 3
      then have in_range: "sint (xs ! lo) \<le> sint key" "sint key \<le> sint (xs ! hi)" by (simp_all add: i64_cmp_def)
      show ?thesis
      proof (cases "lo = hi")
        case True
        have "key \<notin> set xs" if "xs ! hi \<noteq> key"
          using cov that True unfolding covers_def by (auto simp: in_set_conv_nth less_Suc_eq_le)
        then show ?thesis using True l in_range by (subst interpolation_loop.simps) auto
      next
        case False
        then have ne: "xs ! hi \<noteq> xs ! lo" using d l by (simp add: nth_eq_iff_index_eq)
        define p where "p = interpolation_pos frac xs key lo hi"
        have p: "lo \<le> p" "p \<le> hi" "p < length xs" using interpolation_pos_range [OF le, of frac xs key] l by (simp_all add: p_def)
        consider "xs ! p = key" | "i64_cmp (xs ! p) key < 0" | "0 < i64_cmp (xs ! p) key"
          using i64_cmp_zero [of "xs ! p" key] by linarith
        then show ?thesis
        proof cases
          case 1
          then show ?thesis using le False l ne in_range p(3)
            by (subst interpolation_loop.simps) (simp add: Let_def flip: p_def)
        next
          case 2
          have "Suc hi - (p + 1) < Suc hi - lo" using p le by linarith
          from less.hyps [OF this i64.covers_up [OF xs cov p(3) 2]]
          show ?thesis using 2 le False l ne in_range p(3) i64_cmp_zero [of "xs ! p" key]
            by (subst interpolation_loop.simps) (simp add: Let_def i64_cmp_def flip: p_def)
        next
          case above: 3
          have "p \<noteq> lo" using above 3(1) by auto
          then have q: "Suc (p - 1) = p" "p \<noteq> 0" using p(1) by simp_all
          have "covers i64_cmp xs key lo (Suc (p - 1))" using i64.covers_down [OF xs cov p(3) above] q by simp
          moreover have "Suc (p - 1) - lo < Suc hi - lo" using p q by linarith
          ultimately have "yields (interpolation_loop frac xs key lo (p - 1)) (hit i64_cmp xs key)" by (intro less.hyps)
          then show ?thesis using above le False l ne in_range p(3) q(2) i64_cmp_zero [of "xs ! p" key]
            by (subst interpolation_loop.simps) (simp add: Let_def i64_cmp_def flip: p_def)
        qed
      qed
    qed
  qed
qed

lemma interpolation_finds:
  assumes xs: "sorted_cmp i64_cmp xs" "distinct xs" and ne: "0 < length xs"
  shows "\<exists>r. scl_search_interpolation_search frac (Some xs) (length xs) key (Some i)
      = Some (case r of None \<Rightarrow> (SCL_ERR_NOT_FOUND, Some i) | Some j \<Rightarrow> (SCL_OK, Some j)) \<and> hit i64_cmp xs key r"
proof -
  have "covers i64_cmp xs key 0 (Suc (length xs - 1))" using ne by (simp add: covers_whole)
  from interpolation_loop_hit [OF xs this, of frac] show ?thesis
    using ne by (auto simp: yields_iff scl_search_interpolation_search_def)
qed

text \<open>With equal ends the search gives up, whatever the key.\<close>

lemma interpolation_equal_ends:
  assumes "2 \<le> length xs" and "xs ! 0 = xs ! (length xs - 1)"
  shows "scl_search_interpolation_search frac (Some xs) (length xs) key (Some i) = Some (SCL_ERR_NOT_FOUND, Some i)"
proof -
  have "0 < length xs" "length xs - 1 \<noteq> 0" "length xs \<noteq> 0" using assms(1) by linarith+
  then show ?thesis using assms(2)
    by (simp add: scl_search_interpolation_search_def interpolation_loop.simps [of _ _ _ 0])
qed

section \<open>Meta-binary search\<close>

text \<open>\<open>bit_count\<close> is the number of bits of \<open>count\<close>; the loop runs over the bits from the highest.\<close>

fun bit_length :: "nat \<Rightarrow> nat" where
  "bit_length tmp = (if tmp = 0 then 0 else Suc (bit_length (tmp div 2)))"

declare bit_length.simps [simp del]

definition scl_search_meta_binary_search ::
    "32 word list ptr \<Rightarrow> nat \<Rightarrow> 32 word \<Rightarrow> nat ptr \<Rightarrow> (scl_error_t \<times> nat ptr) ub" where
  "scl_search_meta_binary_search arr cnt key out_index =
     (case (arr, out_index) of
        (Some xs, Some _) \<Rightarrow>
          if cnt = 0 then Some (SCL_ERR_EMPTY, out_index)
          else do {
            pos \<leftarrow> for_down (bit_length cnt) (\<lambda>b pos.
              let step = 2 ^ (b - 1); mid = pos + step in
              if cnt \<le> mid then Some pos
              else do { v \<leftarrow> at xs mid; Some (if sint v \<le> sint key then mid else pos) }) 0;
            v \<leftarrow> at xs pos;
            Some (if v = key then (SCL_OK, Some pos) else (SCL_ERR_NOT_FOUND, out_index))
          }
      | _ \<Rightarrow> Some (SCL_ERR_NULL_PTR, out_index))"

lemma bit_length_bound: "n < 2 ^ bit_length n"
proof (induction n rule: bit_length.induct)
  case (1 n)
  then show ?case by (subst bit_length.simps) auto
qed

lemma meta_binary_finds:
  assumes xs: "sorted_cmp scl_counting_i32_cmp xs" and ne: "0 < length xs"
  shows "(\<exists>j. scl_search_meta_binary_search (Some xs) (length xs) key (Some i) = Some (SCL_OK, Some j) \<and>
      j < length xs \<and> xs ! j = key) \<or>
    scl_search_meta_binary_search (Some xs) (length xs) key (Some i) = Some (SCL_ERR_NOT_FOUND, Some i) \<and> key \<notin> set xs"
proof -
  have le: "sint (xs ! a) \<le> sint (xs ! b)" if "a \<le> b" "b < length xs" for a b
    using xs that by (auto simp: i32.sorted_cmp_nth i32_le [unfolded le_cmp_def])
  define I where "I b pos \<longleftrightarrow> pos < length xs \<and> (pos = 0 \<or> sint (xs ! pos) \<le> sint key) \<and>
    (\<forall>j < length xs. pos + 2 ^ b \<le> j \<longrightarrow> sint key < sint (xs ! j))" for b pos
  let ?body = "\<lambda>b pos. let step = 2 ^ (b - 1); mid = pos + step in
    if length xs \<le> mid then Some pos
    else do { v \<leftarrow> at xs mid; Some (if sint v \<le> sint key then mid else pos) }"
  have "yields (for_down (bit_length (length xs)) ?body 0) (I 0)"
  proof (rule for_down_inv)
    show "I (bit_length (length xs)) 0"
      using ne bit_length_bound [of "length xs"] by (auto simp: I_def)
    fix b pos assume b: "0 < b" and inv: "I b pos"
    obtain c where c: "b = Suc c" using b by (cases b) auto
    let ?mid = "pos + 2 ^ c"
    have "I c ?mid" if "?mid < length xs" "sint (xs ! ?mid) \<le> sint key"
      using that inv by (auto simp: I_def c)
    moreover have "I c pos" if "\<not> (?mid < length xs \<and> sint (xs ! ?mid) \<le> sint key)"
    proof -
      have "sint key < sint (xs ! j)" if "j < length xs" "?mid \<le> j" for j
        using that \<open>\<not> _\<close> le [of ?mid j] by (cases "?mid < length xs") auto
      then show ?thesis using inv by (simp add: I_def)
    qed
    ultimately show "yields (?body b pos) (I (b - 1))" by (simp add: c Let_def)
  qed
  then obtain pos where pos: "for_down (bit_length (length xs)) ?body 0 = Some pos" "I 0 pos"
    by (auto simp: yields_iff)
  have "key \<notin> set xs" if "xs ! pos \<noteq> key"
  proof
    assume "key \<in> set xs"
    then obtain j where j: "j < length xs" "xs ! j = key" by (auto simp: in_set_conv_nth)
    then have "j \<le> pos" using pos(2) by (force simp: I_def not_less_eq_eq)
    moreover from this have "pos = 0 \<or> sint (xs ! pos) = sint key"
      using le [of j pos] pos(2) j by (auto simp: I_def)
    ultimately show False using that j by (auto dest: signed_word_eqI)
  qed
  then show ?thesis using pos ne
    by (auto simp: scl_search_meta_binary_search_def I_def)
qed

end
