(* ===== verification/Scl_Search_String.thy ===== *)
theory Scl_Search_String
  imports Scl_Search_Range
begin

text \<open>
  The string searches of \<open>libs/search\<close> on arrays of C strings, any of which may be \<open>NULL\<close>. A C string is
  the list of its bytes without the terminator. Each search is related to the comparator search of the same
  shape with \<open>strcmp\<close>, so that the contract of \<open>Scl_Search\<close> carries over.
\<close>

section \<open>C strings\<close>

type_synonym cstring = "byte list"

text \<open>\<open>strcmp\<close> compares unsigned bytes; C fixes only the sign of the result, and the callers look at
  nothing else.\<close>

fun strcmp :: "cstring \<Rightarrow> cstring \<Rightarrow> int" where
  "strcmp [] [] = 0"
| "strcmp [] (y # ys) = - 1"
| "strcmp (x # xs) [] = 1"
| "strcmp (x # xs) (y # ys) = (if x = y then strcmp xs ys else if x < y then - 1 else 1)"

lemma strcmp_zero [simp]: "strcmp s t = 0 \<longleftrightarrow> s = t"
  by (induction s t rule: strcmp.induct) auto

lemma strcmp_less_iff: "strcmp s t < 0 \<longleftrightarrow> 0 < strcmp t s"
  by (induction s t rule: strcmp.induct) auto

lemma strcmp_le_trans: "strcmp s t \<le> 0 \<Longrightarrow> strcmp t u \<le> 0 \<Longrightarrow> strcmp s u \<le> 0"
proof (induction s t arbitrary: u rule: strcmp.induct)
  case (4 x xs y ys)
  then show ?case by (cases u) (auto split: if_splits)
qed (case_tac u; auto)+

interpretation strings: comparator strcmp
  by unfold_locales (rule strcmp_less_iff, rule strcmp_le_trans)

text \<open>The searches store nothing when they fail.\<close>

definition string_entry ::
    "(cstring ptr list \<Rightarrow> nat \<Rightarrow> cstring \<Rightarrow> nat ptr \<Rightarrow> (scl_error_t \<times> nat ptr) ub) \<Rightarrow>
     cstring ptr list ptr \<Rightarrow> nat \<Rightarrow> cstring ptr \<Rightarrow> nat ptr \<Rightarrow> (scl_error_t \<times> nat ptr) ub" where
  "string_entry body strs cnt key idx =
     (case (strs, key, idx) of
        (Some xs, Some k, Some _) \<Rightarrow> if cnt = 0 then Some (SCL_ERR_EMPTY, idx) else body xs cnt k idx
      | _ \<Rightarrow> Some (SCL_ERR_NULL_PTR, idx))"

section \<open>Linear search\<close>

function linear_string_loop :: "cstring ptr list \<Rightarrow> cstring \<Rightarrow> nat ptr \<Rightarrow> nat \<Rightarrow> nat \<Rightarrow> (scl_error_t \<times> nat ptr) ub" where
  "linear_string_loop strs key idx i cnt =
     (if i < cnt then do {
        s \<leftarrow> at strs i;
        (case s of
           None \<Rightarrow> linear_string_loop strs key idx (i + 1) cnt
         | Some s \<Rightarrow> if strcmp s key = 0 then Some (SCL_OK, Some i) else linear_string_loop strs key idx (i + 1) cnt)
      } else Some (SCL_ERR_NOT_FOUND, idx))"
  by pat_completeness auto
termination by (relation "measure (\<lambda>(strs, key, idx, i, cnt). cnt - i)") auto

declare linear_string_loop.simps [simp del]

definition scl_search_linear_string :: "cstring ptr list ptr \<Rightarrow> nat \<Rightarrow> cstring ptr \<Rightarrow> nat ptr \<Rightarrow> (scl_error_t \<times> nat ptr) ub" where
  "scl_search_linear_string = string_entry (\<lambda>xs cnt k idx. linear_string_loop xs k idx 0 cnt)"

text \<open>A missing string never matches.\<close>

definition string_match :: "cstring ptr \<Rightarrow> cstring \<Rightarrow> int" where
  "string_match s k = (case s of None \<Rightarrow> 1 | Some s \<Rightarrow> strcmp s k)"

lemma linear_string_loop_eq:
  "linear_string_loop strs key idx i cnt = do {
     r \<leftarrow> linear_from string_match strs key i cnt;
     Some (case r of None \<Rightarrow> (SCL_ERR_NOT_FOUND, idx) | Some i \<Rightarrow> (SCL_OK, Some i))
   }"
proof (induction "cnt - i" arbitrary: i)
  case 0
  then show ?case by (subst linear_string_loop.simps, subst linear_from.simps) simp
next
  case (Suc n)
  then have "n = cnt - (i + 1)" "i < cnt" by simp_all
  with Suc.hyps(1) [of "i + 1"] show ?case
    by (subst linear_string_loop.simps, subst linear_from.simps)
      (cases "at strs i"; cases "the (at strs i)"; simp add: string_match_def)
qed

lemma linear_string_eq: "scl_search_linear_string strs cnt key idx = scl_search_linear_search strs cnt key (Some string_match) idx"
  by (simp add: scl_search_linear_string_def scl_search_linear_search_def string_entry_def search_entry_def
      linear_string_loop_eq split: option.split)

section \<open>Binary search\<close>

function binary_string_loop :: "cstring ptr list \<Rightarrow> cstring \<Rightarrow> nat ptr \<Rightarrow> nat \<Rightarrow> nat \<Rightarrow> (scl_error_t \<times> nat ptr) ub" where
  "binary_string_loop strs key idx lo hi =
     (if lo < hi then do {
        let mid = lo + (hi - lo) div 2;
        s \<leftarrow> at strs mid;
        (case s of
           None \<Rightarrow> Some (SCL_ERR_INVALID_ARG, idx)
         | Some s \<Rightarrow>
             let r = strcmp s key in
             if r = 0 then Some (SCL_OK, Some mid)
             else if r < 0 then binary_string_loop strs key idx (mid + 1) hi
             else binary_string_loop strs key idx lo mid)
      } else Some (SCL_ERR_NOT_FOUND, idx))"
  by pat_completeness auto
termination by (relation "measure (\<lambda>(strs, key, idx, lo, hi). hi - lo)") auto

declare binary_string_loop.simps [simp del]

definition scl_search_binary_string :: "cstring ptr list ptr \<Rightarrow> nat \<Rightarrow> cstring ptr \<Rightarrow> nat ptr \<Rightarrow> (scl_error_t \<times> nat ptr) ub" where
  "scl_search_binary_string = string_entry (\<lambda>xs cnt k idx. binary_string_loop xs k idx 0 cnt)"

lemma at_map [simp]: "at (map f xs) i = map_option f (at xs i)"
  by (simp add: at_def)

lemma binary_string_loop_eq:
  "binary_string_loop (map Some strs) key idx lo hi = do {
     r \<leftarrow> binary_loop strcmp strs key lo hi;
     Some (case r of None \<Rightarrow> (SCL_ERR_NOT_FOUND, idx) | Some i \<Rightarrow> (SCL_OK, Some i))
   }"
proof (induction "hi - lo" arbitrary: lo hi rule: less_induct)
  case less
  show ?case
  proof (cases "lo < hi")
    case False
    then show ?thesis by (subst binary_string_loop.simps, subst binary_loop.simps) simp
  next
    case True
    let ?m = "lo + (hi - lo) div 2"
    have "hi - (?m + 1) < hi - lo" "?m - lo < hi - lo" using True by linarith+
    note ih = less.hyps [OF this(1)] less.hyps [OF this(2)]
    show ?thesis using True ih
      by (subst binary_string_loop.simps, subst binary_loop.simps)
        (cases "at strs ?m"; simp add: Let_def)
  qed
qed

text \<open>Without missing strings it is binary search with \<open>strcmp\<close>.\<close>

lemma binary_string_eq:
  "scl_search_binary_string (Some (map Some strs)) cnt key idx = scl_search_binary_search (Some strs) cnt key (Some strcmp) idx"
  by (cases key; cases idx) (simp_all add: scl_search_binary_string_def scl_search_binary_search_def string_entry_def
      search_entry_def binary_string_loop_eq)

section \<open>Exponential search\<close>

definition string_range_step ::
    "cstring ptr list \<Rightarrow> cstring \<Rightarrow> nat ptr \<Rightarrow> nat \<times> nat \<Rightarrow> ((scl_error_t \<times> nat ptr) + nat \<times> nat) ub" where
  "string_range_step strs key idx st = (case st of (lo, hi) \<Rightarrow>
     if lo \<le> hi then do {
       let mid = lo + (hi - lo) div 2;
       s \<leftarrow> at strs mid;
       Some (case s of
           None \<Rightarrow> Inl (SCL_ERR_INVALID_ARG, idx)
         | Some s \<Rightarrow>
             let r = strcmp s key in
             if r = 0 then Inl (SCL_OK, Some mid)
             else if r < 0 then Inr (mid + 1, hi)
             else Inr (lo, if mid = 0 then 0 else mid - 1))
     } else Some (Inl (SCL_ERR_NOT_FOUND, idx)))"

definition binary_string_range ::
    "nat \<Rightarrow> cstring ptr list \<Rightarrow> nat \<Rightarrow> nat \<Rightarrow> cstring \<Rightarrow> nat ptr \<Rightarrow> (scl_error_t \<times> nat ptr) run ub" where
  "binary_string_range fuel strs lo hi key idx = iterate fuel (string_range_step strs key idx) (lo, hi)"

function grow_string :: "nat \<Rightarrow> cstring ptr list \<Rightarrow> nat \<Rightarrow> cstring \<Rightarrow> nat ptr \<Rightarrow> nat \<Rightarrow> (scl_error_t \<times> nat ptr) run ub" where
  "grow_string fuel strs cnt key idx bound =
     (if bound < cnt then do {
        s \<leftarrow> at strs bound;
        (case s of
           None \<Rightarrow> Some (Returns (SCL_ERR_INVALID_ARG, idx))
         | Some s \<Rightarrow>
             if 0 \<le> strcmp s key then binary_string_range fuel strs (bound div 2) bound key idx
             else if (2 ^ 64 - 1) div 2 < bound then binary_string_range fuel strs (bound div 2) (cnt - 1) key idx
             else if bound = 0 then None
             else grow_string fuel strs cnt key idx (bound * 2))
      } else binary_string_range fuel strs (bound div 2) (cnt - 1) key idx)"
  by pat_completeness auto
termination by (relation "measure (\<lambda>(fuel, strs, cnt, key, idx, bound). cnt - bound)") auto

declare grow_string.simps [simp del]

definition scl_search_exponential_string ::
    "nat \<Rightarrow> cstring ptr list ptr \<Rightarrow> nat \<Rightarrow> cstring ptr \<Rightarrow> nat ptr \<Rightarrow> (scl_error_t \<times> nat ptr) run ub" where
  "scl_search_exponential_string fuel strs cnt key idx =
     (case (strs, key, idx) of
        (Some xs, Some k, Some _) \<Rightarrow>
          if cnt = 0 then Some (Returns (SCL_ERR_EMPTY, idx))
          else do {
            s \<leftarrow> at xs 0;
            (case s of
               None \<Rightarrow> Some (Returns (SCL_ERR_INVALID_ARG, idx))
             | Some s \<Rightarrow>
                 if strcmp s k = 0 then Some (Returns (SCL_OK, Some 0))
                 else if cnt = 1 then Some (Returns (SCL_ERR_NOT_FOUND, idx))
                 else grow_string fuel xs cnt k idx 1)
          }
      | _ \<Rightarrow> Some (Returns (SCL_ERR_NULL_PTR, idx)))"

text \<open>How the result of a comparator search is reported.\<close>

definition report :: "nat ptr \<Rightarrow> nat option run \<Rightarrow> (scl_error_t \<times> nat ptr) run" where
  "report idx r = (case r of
     Returns None \<Rightarrow> Returns (SCL_ERR_NOT_FOUND, idx)
   | Returns (Some i) \<Rightarrow> Returns (SCL_OK, Some i)
   | Running \<Rightarrow> Running)"

definition report_step :: "nat ptr \<Rightarrow> nat option + 's \<Rightarrow> (scl_error_t \<times> nat ptr) + 's" where
  "report_step idx r = (case r of
     Inl None \<Rightarrow> Inl (SCL_ERR_NOT_FOUND, idx)
   | Inl (Some i) \<Rightarrow> Inl (SCL_OK, Some i)
   | Inr st \<Rightarrow> Inr st)"

lemma string_range_step_eq: "string_range_step (map Some strs) key idx st = map_option (report_step idx) (range_step strcmp strs key st)"
proof -
  obtain lo hi where st: "st = (lo, hi)" by (cases st)
  show ?thesis by (cases "at strs (lo + (hi - lo) div 2)")
    (simp_all add: st string_range_step_def range_step_def report_step_def Let_def)
qed

lemma iterate_report:
  "iterate n (\<lambda>st. map_option (report_step idx) (body st)) st = map_option (report idx) (iterate n body st)"
proof (induction n arbitrary: st)
  case 0
  then show ?case by (simp add: report_def)
next
  case (Suc n)
  show ?case
  proof (cases "body st")
    case None
    then show ?thesis by simp
  next
    case (Some r)
    then show ?thesis using Suc by (cases r) (auto simp: report_step_def report_def split: option.split)
  qed
qed

lemma binary_string_range_eq:
  "binary_string_range n (map Some strs) lo hi key idx = map_option (report idx) (binary_search_range n strcmp strs key lo hi)"
  unfolding binary_string_range_def binary_search_range_def iterate_report [symmetric]
  by (rule arg_cong [of _ _ "\<lambda>f. iterate n f (lo, hi)"]) (rule ext, rule string_range_step_eq)

lemma grow_string_eq:
  "grow_string n (map Some strs) cnt key idx bound = map_option (report idx) (grow_bound n strcmp strs key cnt bound)"
proof (induction "cnt - bound" arbitrary: bound rule: less_induct)
  case less
  show ?case
  proof (cases "bound < cnt \<and> bound \<noteq> 0")
    case False
    then show ?thesis
      by (subst grow_string.simps, subst grow_bound.simps) (cases "at strs 0"; auto simp: binary_string_range_eq)
  next
    case True
    then have "cnt - bound * 2 < cnt - bound" by linarith
    from less.hyps [OF this] True show ?thesis
      by (subst grow_string.simps, subst grow_bound.simps) (cases "at strs bound"; simp add: binary_string_range_eq)
  qed
qed

lemma exponential_string_eq:
  "scl_search_exponential_string n (Some (map Some strs)) cnt (Some key) (Some i)
     = scl_search_exponential_search n (Some strs) cnt (Some key) (Some strcmp) (Some i)"
proof (cases "cnt = 0")
  case False
  then show ?thesis
    by (cases "at strs 0") (auto simp: scl_search_exponential_string_def scl_search_exponential_search_def run_entry_def
        grow_string_eq report_def map_option_case split: option.split)
qed (simp add: scl_search_exponential_string_def scl_search_exponential_search_def run_entry_def)

text \<open>A missing string that is looked at is reported.\<close>

lemma missing_string:
  assumes "length strs = cnt" and "0 < cnt" and "strs ! (cnt div 2) = None"
  shows "scl_search_binary_string (Some strs) cnt (Some key) (Some i) = Some (SCL_ERR_INVALID_ARG, Some i)"
proof -
  have "cnt div 2 < length strs" using assms by linarith
  then show ?thesis using assms
    by (simp add: scl_search_binary_string_def string_entry_def binary_string_loop.simps [of _ _ _ 0])
qed

end
