(* ===== verification/Scl_Quickselect.thy ===== *)
theory Scl_Quickselect
  imports Scl_Sort_Quick
begin

text \<open>
  Quickselect of \<open>libs/search/quickselect/scl_quickselect.c\<close>: it works on a copy, moves the median of three
  to the end of the range as the pivot and narrows the range to the side that holds index \<open>k\<close>. The result
  is described by its rank: at most \<open>k\<close> elements are smaller, more than \<open>k\<close> are not greater.
\<close>

section \<open>The code\<close>

text \<open>\<open>median_of_three\<close>; the name is taken by the one of quick sort, which returns an index.\<close>

definition qs_order :: "('a \<Rightarrow> 'a \<Rightarrow> int) \<Rightarrow> nat \<Rightarrow> nat \<Rightarrow> 'a list \<Rightarrow> 'a list ub" where
  "qs_order cmp a b xs = do {
     x \<leftarrow> at xs a;
     y \<leftarrow> at xs b;
     if 0 < cmp x y then swap_at xs a b else Some xs
   }"

definition qs_median_of_three :: "('a \<Rightarrow> 'a \<Rightarrow> int) \<Rightarrow> nat \<Rightarrow> nat \<Rightarrow> 'a list \<Rightarrow> 'a list ub" where
  "qs_median_of_three cmp lo hi xs = do {
     let mid = lo + (hi - lo) div 2;
     xs \<leftarrow> qs_order cmp lo mid xs;
     xs \<leftarrow> qs_order cmp mid hi xs;
     xs \<leftarrow> qs_order cmp lo mid xs;
     swap_at xs mid hi
   }"

definition qs_step :: "('a \<Rightarrow> 'a \<Rightarrow> int) \<Rightarrow> nat \<Rightarrow> nat \<Rightarrow> nat \<times> 'a list \<Rightarrow> (nat \<times> 'a list) ub" where
  "qs_step cmp hi j st = (case st of (i, xs) \<Rightarrow> do {
     x \<leftarrow> at xs j;
     pivot \<leftarrow> at xs hi;
     if cmp x pivot < 0 then do { xs \<leftarrow> swap_at xs i j; Some (i + 1, xs) } else Some (i, xs)
   })"

definition partition :: "('a \<Rightarrow> 'a \<Rightarrow> int) \<Rightarrow> nat \<Rightarrow> nat \<Rightarrow> 'a list \<Rightarrow> (nat \<times> 'a list) ub" where
  "partition cmp lo hi xs = do {
     xs \<leftarrow> (if 2 \<le> hi - lo then qs_median_of_three cmp lo hi xs else Some xs);
     (i, xs) \<leftarrow> for_up lo hi (qs_step cmp hi) (lo, xs);
     xs \<leftarrow> swap_at xs i hi;
     Some (i, xs)
   }"

lemma qs_step_fst: "qs_step cmp hi j st = Some st' \<Longrightarrow> fst st' = fst st \<or> fst st' = Suc (fst st)"
  by (auto simp: qs_step_def bind_eq_Some_conv split: prod.splits if_splits)

lemma partition_range:
  assumes "partition cmp lo hi xs = Some (p, ys)" and "lo \<le> hi"
  shows "lo \<le> p \<and> p \<le> hi"
proof -
  obtain zs ws where "for_up lo hi (qs_step cmp hi) (lo, zs) = Some (p, ws)"
    using assms(1) by (auto simp: partition_def bind_eq_Some_conv split: if_splits)
  then have "lo \<le> fst (p, ws) \<and> fst (p, ws) \<le> hi"
  proof (rule for_up_partial [where I = "\<lambda>j st. lo \<le> fst st \<and> fst st \<le> j"])
    fix j and st st' :: "nat \<times> 'a list"
    assume "lo \<le> fst st \<and> fst st \<le> j" "qs_step cmp hi j st = Some st'"
    then show "lo \<le> fst st' \<and> fst st' \<le> Suc j" using qs_step_fst [of cmp hi j st st'] by linarith
  qed (use assms(2) in simp_all)
  then show ?thesis by simp
qed

function select_loop :: "('a \<Rightarrow> 'a \<Rightarrow> int) \<Rightarrow> nat \<Rightarrow> nat \<Rightarrow> nat \<Rightarrow> 'a list \<Rightarrow> 'a list ub" where
  "select_loop cmp k lo hi xs =
     (if lo < hi then do {
        (p, xs) \<leftarrow> partition cmp lo hi xs;
        if p = k then Some xs
        else if k < p then select_loop cmp k lo (if p = 0 then 0 else p - 1) xs
        else select_loop cmp k (p + 1) hi xs
      } else Some xs)"
  by pat_completeness auto
termination
proof (relation "measure (\<lambda>(cmp, k, lo, hi, xs). hi - lo)", goal_cases)
  case (2 cmp k lo hi xs q p ys)
  then show ?case using partition_range [of cmp lo hi xs p ys] by auto
next
  case (3 cmp k lo hi xs q p ys)
  then show ?case using partition_range [of cmp lo hi xs p ys] by auto
qed simp

declare select_loop.simps [simp del]

definition scl_search_quickselect ::
    "scl_allocator_t \<Rightarrow> 'a list ptr \<Rightarrow> size_t \<Rightarrow> size_t \<Rightarrow> ('a \<Rightarrow> 'a \<Rightarrow> int) ptr \<Rightarrow> size_t \<Rightarrow> 'a ptr
     \<Rightarrow> (scl_error_t \<times> 'a ptr) ub" where
  "scl_search_quickselect a base cnt es cmp k out =
     (case (base, cmp, out) of
        (Some xs, Some c, Some _) \<Rightarrow>
          if cnt = 0 then Some (SCL_ERR_EMPTY, out)
          else if cnt \<le> k then Some (SCL_ERR_INVALID_INDEX, out)
          else (case scl_mul_overflow cnt es of
                  None \<Rightarrow> Some (SCL_ERR_SIZE_OVERFLOW, out)
                | Some bytes \<Rightarrow>
                    (case malloc_fn a 0 bytes max_align of
                       None \<Rightarrow> Some (SCL_ERR_OUT_OF_MEMORY, out)
                     | Some b \<Rightarrow>
                         if unat cnt \<le> length xs \<and> unat cnt * unat es \<le> length b then do {
                           zs \<leftarrow> select_loop c (unat k) 0 (unat cnt - 1) (take (unat cnt) xs);
                           v \<leftarrow> at zs (unat k);
                           Some (SCL_OK, Some v)
                         } else None))
      | _ \<Rightarrow> Some (SCL_ERR_NULL_PTR, out))"

section \<open>Partition\<close>

lemma range_perm_len: "range_perm l r xs ys \<Longrightarrow> length ys = length xs"
  by (simp add: range_perm_def)

lemma qs_swap:
  assumes "range_perm lo hi xs ys" and "lo \<le> a" "a \<le> hi" "lo \<le> b" "b \<le> hi" and "hi < length xs"
  shows "yields (swap_at ys a b) (range_perm lo hi xs)"
proof -
  have "hi < length ys" using assms(1,6) by (simp add: range_perm_len)
  then show ?thesis using assms range_perm_swap [of lo a hi b ys] by (auto intro: range_perm_trans)
qed

lemma qs_order_perm:
  assumes "range_perm lo hi xs ys" and "lo \<le> a" "a \<le> hi" "lo \<le> b" "b \<le> hi" and "hi < length xs"
  shows "yields (qs_order cmp a b ys) (range_perm lo hi xs)"
  using qs_swap [OF assms] assms by (simp add: qs_order_def range_perm_len)

lemma qs_median_perm:
  assumes "lo \<le> hi" and "hi < length xs"
  shows "yields (qs_median_of_three cmp lo hi xs) (range_perm lo hi xs)"
proof -
  have mid: "lo \<le> lo + (hi - lo) div 2" "lo + (hi - lo) div 2 \<le> hi" using assms(1) by linarith+
  note order = qs_order_perm [OF _ _ _ _ _ assms(2), where cmp = cmp]
  have "yields (qs_order cmp lo (lo + (hi - lo) div 2) xs) (range_perm lo hi xs)"
    using assms(1) mid by (intro order) simp_all
  then obtain ys where ys: "qs_order cmp lo (lo + (hi - lo) div 2) xs = Some ys" "range_perm lo hi xs ys"
    unfolding yields_iff by blast
  have "yields (qs_order cmp (lo + (hi - lo) div 2) hi ys) (range_perm lo hi xs)"
    using assms(1) mid ys(2) by (intro order) simp_all
  then obtain zs where zs: "qs_order cmp (lo + (hi - lo) div 2) hi ys = Some zs" "range_perm lo hi xs zs"
    unfolding yields_iff by blast
  have "yields (qs_order cmp lo (lo + (hi - lo) div 2) zs) (range_perm lo hi xs)"
    using assms(1) mid zs(2) by (intro order) simp_all
  then obtain ws where ws: "qs_order cmp lo (lo + (hi - lo) div 2) zs = Some ws" "range_perm lo hi xs ws"
    unfolding yields_iff by blast
  have "yields (swap_at ws (lo + (hi - lo) div 2) hi) (range_perm lo hi xs)"
    using mid assms by (intro qs_swap [OF ws(2)]) simp_all
  then show ?thesis by (simp add: qs_median_of_three_def ys(1) zs(1) ws(1))
qed

definition qs_inv :: "('a \<Rightarrow> 'a \<Rightarrow> int) \<Rightarrow> 'a list \<Rightarrow> nat \<Rightarrow> nat \<Rightarrow> nat \<Rightarrow> nat \<times> 'a list \<Rightarrow> bool" where
  "qs_inv cmp xs lo hi j st \<longleftrightarrow> (case st of (i, zs) \<Rightarrow>
     lo \<le> i \<and> i \<le> j \<and> range_perm lo hi xs zs \<and> zs ! hi = xs ! hi \<and>
     (\<forall>m. lo \<le> m \<and> m < i \<longrightarrow> cmp (zs ! m) (xs ! hi) < 0) \<and>
     (\<forall>m. i \<le> m \<and> m < j \<longrightarrow> 0 \<le> cmp (zs ! m) (xs ! hi)))"

lemma qs_step_inv:
  assumes inv: "qs_inv cmp xs lo hi j st" and j: "lo \<le> j" "j < hi" and hi: "hi < length xs"
  shows "yields (qs_step cmp hi j st) (qs_inv cmp xs lo hi (Suc j))"
proof -
  obtain i zs where st: "st = (i, zs)" by (cases st)
  have zs: "lo \<le> i" "i \<le> j" "range_perm lo hi xs zs" "zs ! hi = xs ! hi" "length zs = length xs"
    and lt: "\<And>m. lo \<le> m \<Longrightarrow> m < i \<Longrightarrow> cmp (zs ! m) (xs ! hi) < 0"
    and ge: "\<And>m. i \<le> m \<Longrightarrow> m < j \<Longrightarrow> 0 \<le> cmp (zs ! m) (xs ! hi)"
    using inv by (auto simp: st qs_inv_def range_perm_len)
  show ?thesis
  proof (cases "cmp (zs ! j) (xs ! hi) < 0")
    case False
    then show ?thesis using zs lt ge j hi by (auto simp: qs_step_def st qs_inv_def less_Suc_eq)
  next
    case True
    let ?ys = "zs[i := zs ! j, j := zs ! i]"
    have nth: "?ys ! m = (if m = i then zs ! j else if m = j then zs ! i else zs ! m)" for m
      by (rule nth_swap) (use zs j hi in simp_all)
    have "range_perm lo hi xs ?ys"
      using zs j hi by (intro range_perm_trans [OF zs(3)] range_perm_swap) simp_all
    moreover have "cmp (?ys ! m) (xs ! hi) < 0" if "lo \<le> m" "m < i + 1" for m
      using that zs(2) lt True by (cases "m = i") (simp_all add: nth)
    moreover have "0 \<le> cmp (?ys ! m) (xs ! hi)" if "i + 1 \<le> m" "m < Suc j" for m
      using that zs(2) ge by (cases "m = j") (simp_all add: nth)
    moreover have "?ys ! hi = xs ! hi" using nth [of hi] zs j by simp
    ultimately show ?thesis using True zs j hi by (simp add: qs_step_def st qs_inv_def)
  qed
qed

lemma qs_partition_spec:
  assumes c: "comparator cmp" and lh: "lo < hi" "hi < length xs"
  shows "yields (partition cmp lo hi xs) (\<lambda>(p, zs). lo \<le> p \<and> p \<le> hi \<and> range_perm lo hi xs zs \<and>
    (\<forall>m. lo \<le> m \<and> m < p \<longrightarrow> cmp (zs ! m) (zs ! p) \<le> 0) \<and>
    (\<forall>m. p < m \<and> m \<le> hi \<longrightarrow> cmp (zs ! p) (zs ! m) \<le> 0))"
proof -
  have "yields (if 2 \<le> hi - lo then qs_median_of_three cmp lo hi xs else Some xs) (range_perm lo hi xs)"
    using qs_median_perm [of lo hi xs] lh by simp
  then obtain ys where ys: "(if 2 \<le> hi - lo then qs_median_of_three cmp lo hi xs else Some xs) = Some ys"
    "range_perm lo hi xs ys" unfolding yields_iff by blast
  then have len: "hi < length ys" using lh by (simp add: range_perm_len)
  have "yields (for_up lo hi (qs_step cmp hi) (lo, ys)) (qs_inv cmp ys lo hi hi)"
  proof (rule for_up_inv [where I = "qs_inv cmp ys lo hi"])
    show "qs_inv cmp ys lo hi lo (lo, ys)" by (simp add: qs_inv_def)
  qed (use lh qs_step_inv [OF _ _ _ len] in simp_all)
  then obtain i zs where run: "for_up lo hi (qs_step cmp hi) (lo, ys) = Some (i, zs)" and inv: "qs_inv cmp ys lo hi hi (i, zs)"
    by (auto simp: yields_iff)
  have zs: "lo \<le> i" "i \<le> hi" "range_perm lo hi ys zs" "zs ! hi = ys ! hi" "length zs = length ys"
    and lt: "\<And>m. lo \<le> m \<Longrightarrow> m < i \<Longrightarrow> cmp (zs ! m) (ys ! hi) < 0"
    and ge: "\<And>m. i \<le> m \<Longrightarrow> m < hi \<Longrightarrow> 0 \<le> cmp (zs ! m) (ys ! hi)"
    using inv by (auto simp: qs_inv_def range_perm_len)
  let ?ws = "zs[i := zs ! hi, hi := zs ! i]"
  have nth: "?ws ! m = (if m = i then zs ! hi else if m = hi then zs ! i else zs ! m)" for m
    by (rule nth_swap) (use zs len in simp_all)
  have "range_perm lo hi xs ?ws"
    using zs lh len by (intro range_perm_trans [OF ys(2)] range_perm_trans [OF zs(3)] range_perm_swap) simp_all
  moreover have "cmp (?ws ! m) (?ws ! i) \<le> 0" if "lo \<le> m" "m < i" for m
    unfolding nth using that zs(2,4) lt [of m] by simp
  moreover have "cmp (?ws ! i) (?ws ! m) \<le> 0" if "i < m" "m \<le> hi" for m
  proof (cases "m = hi")
    case True
    then have "0 \<le> cmp (zs ! i) (ys ! hi)" using ge [of i] that by simp
    then show ?thesis unfolding nth using True that zs(4) by (simp add: comparator.cmp_le_iff [OF c])
  next
    case False
    then have "0 \<le> cmp (zs ! m) (ys ! hi)" using ge [of m] that by simp
    then show ?thesis unfolding nth using False that zs(4) by (simp add: comparator.cmp_le_iff [OF c])
  qed
  ultimately show ?thesis using zs len by (simp add: partition_def ys(1) run)
qed

section \<open>Selection\<close>

definition selecting :: "('a \<Rightarrow> 'a \<Rightarrow> int) \<Rightarrow> 'a list \<Rightarrow> nat \<Rightarrow> nat \<Rightarrow> 'a list \<Rightarrow> bool" where
  "selecting cmp xs lo hi zs \<longleftrightarrow> mset zs = mset xs \<and> hi < length xs \<and>
     (\<forall>m j. m < lo \<and> lo \<le> j \<and> j < length xs \<longrightarrow> cmp (zs ! m) (zs ! j) \<le> 0) \<and>
     (\<forall>m j. m \<le> hi \<and> hi < j \<and> j < length xs \<longrightarrow> cmp (zs ! m) (zs ! j) \<le> 0)"

lemma selecting_perm:
  assumes "selecting cmp xs lo hi zs" and "range_perm lo hi zs ws" and lo: "lo \<le> hi"
  shows "selecting cmp xs lo hi ws"
proof -
  have s: "mset zs = mset xs" "hi < length xs"
      "\<And>m j. m < lo \<Longrightarrow> lo \<le> j \<Longrightarrow> j < length xs \<Longrightarrow> cmp (zs ! m) (zs ! j) \<le> 0"
      "\<And>m j. m \<le> hi \<Longrightarrow> hi < j \<Longrightarrow> j < length xs \<Longrightarrow> cmp (zs ! m) (zs ! j) \<le> 0"
    using assms(1) unfolding selecting_def by blast+
  note rp = assms(2) [unfolded range_perm_def, THEN conjunct2]
  have out: "ws ! q = zs ! q" if "q < lo \<or> hi < q" for q
    using rp [THEN conjunct2, THEN conjunct1, rule_format, OF that] .
  have inn: thesis if "lo \<le> q" "q \<le> hi" "\<And>p. lo \<le> p \<Longrightarrow> p \<le> hi \<Longrightarrow> ws ! q = zs ! p \<Longrightarrow> thesis" for q thesis
    using rp [THEN conjunct2, THEN conjunct2, rule_format, of q] that by blast
  have "cmp (ws ! m) (ws ! j) \<le> 0" if mj: "m < lo" "lo \<le> j" "j < length xs" for m j
  proof (cases "j \<le> hi")
    case True
    obtain p where "lo \<le> p" "p \<le> hi" "ws ! j = zs ! p" by (rule inn [OF mj(2) True])
    then show ?thesis using s(2) s(3) [of m p] out [of m] that(1) by simp
  next
    case False
    then show ?thesis using s(3) [of m j] out [of m] out [of j] that by simp
  qed
  moreover have "cmp (ws ! m) (ws ! j) \<le> 0" if mj: "m \<le> hi" "hi < j" "j < length xs" for m j
  proof (cases "lo \<le> m")
    case True
    obtain p where "lo \<le> p" "p \<le> hi" "ws ! m = zs ! p" by (rule inn [OF True mj(1)])
    then show ?thesis using s(4) [of p j] out [of j] that(2,3) by simp
  next
    case False
    then have "ws ! m = zs ! m" "ws ! j = zs ! j" using out that(2) by simp_all
    then show ?thesis using s(4) [OF that] by simp
  qed
  moreover have "mset ws = mset xs" using s(1) rp [THEN conjunct1] by simp
  ultimately show ?thesis using s(2) by (simp add: selecting_def)
qed

text \<open>The element at \<open>k\<close> separates the array.\<close>

definition separated :: "('a \<Rightarrow> 'a \<Rightarrow> int) \<Rightarrow> 'a list \<Rightarrow> nat \<Rightarrow> 'a list \<Rightarrow> bool" where
  "separated cmp xs k zs \<longleftrightarrow> mset zs = mset xs \<and> k < length xs \<and>
     (\<forall>m < k. cmp (zs ! m) (zs ! k) \<le> 0) \<and> (\<forall>m < length xs. k < m \<longrightarrow> cmp (zs ! k) (zs ! m) \<le> 0)"

lemma select_loop_spec:
  assumes c: "comparator cmp"
  shows "selecting cmp xs lo hi zs \<Longrightarrow> lo \<le> k \<Longrightarrow> k \<le> hi \<Longrightarrow> yields (select_loop cmp k lo hi zs) (separated cmp xs k)"
proof (induction "hi - lo" arbitrary: lo hi zs rule: less_induct)
  case less
  have hi: "hi < length xs" and m: "mset zs = mset xs" using less.prems(1) unfolding selecting_def by blast+
  have len: "length zs = length xs" using m by (rule mset_eq_length)
  show ?case
  proof (cases "lo < hi")
    case False
    then have "lo = k" "hi = k" using less.prems by simp_all
    then have "separated cmp xs k zs" using less.prems(1) unfolding selecting_def separated_def by (meson less_imp_le order_refl)
    then show ?thesis using False by (subst select_loop.simps) simp
  next
    case True
    obtain p ws where part: "partition cmp lo hi zs = Some (p, ws)" "lo \<le> p" "p \<le> hi" "range_perm lo hi zs ws"
      and lo_p: "\<And>m. lo \<le> m \<Longrightarrow> m < p \<Longrightarrow> cmp (ws ! m) (ws ! p) \<le> 0"
      and p_hi: "\<And>m. p < m \<Longrightarrow> m \<le> hi \<Longrightarrow> cmp (ws ! p) (ws ! m) \<le> 0"
      using qs_partition_spec [OF c True hi [folded len]] unfolding yields_split by blast
    have sel: "selecting cmp xs lo hi ws" using selecting_perm [OF less.prems(1) part(4)] True by simp
    then have s: "mset ws = mset xs"
      "\<And>m j. m < lo \<Longrightarrow> lo \<le> j \<Longrightarrow> j < length xs \<Longrightarrow> cmp (ws ! m) (ws ! j) \<le> 0"
      "\<And>m j. m \<le> hi \<Longrightarrow> hi < j \<Longrightarrow> j < length xs \<Longrightarrow> cmp (ws ! m) (ws ! j) \<le> 0"
      unfolding selecting_def by blast+
    have below: "cmp (ws ! m) (ws ! p) \<le> 0" if "m < p" for m
      using that s(2) [of m p] lo_p [of m] part hi by (cases "m < lo") simp_all
    have above: "cmp (ws ! p) (ws ! m) \<le> 0" if "p < m" "m < length xs" for m
      using that s(3) [of p m] p_hi [of m] part by (cases "m \<le> hi") simp_all
    have cut: "cmp (ws ! m) (ws ! j) \<le> 0" if "m \<le> p" "p \<le> j" "j < length xs" for m j
    proof -
      have "cmp (ws ! m) (ws ! p) \<le> 0" using that below comparator.cmp_self [OF c] by (cases "m = p") simp_all
      moreover have "cmp (ws ! p) (ws ! j) \<le> 0" using that above comparator.cmp_self [OF c] by (cases "j = p") simp_all
      ultimately show ?thesis by (rule comparator.cmp_trans [OF c])
    qed
    consider "p = k" | "k < p" | "p < k" by linarith
    then show ?thesis
    proof cases
      case 1
      have "separated cmp xs k ws" unfolding separated_def using 1 s(1) below above hi part(3) by (metis order_le_less_trans)
      then show ?thesis using True 1 part(1) by (subst select_loop.simps) simp
    next
      case 2
      have "selecting cmp xs lo (p - 1) ws"
        unfolding selecting_def
      proof (intro conjI allI impI)
        show "mset ws = mset xs" by (rule s(1))
        show "p - 1 < length xs" using part(3) hi by linarith
        show "cmp (ws ! m) (ws ! j) \<le> 0" if "m < lo \<and> lo \<le> j \<and> j < length xs" for m j using s(2) that by blast
        show "cmp (ws ! m) (ws ! j) \<le> 0" if "m \<le> p - 1 \<and> p - 1 < j \<and> j < length xs" for m j
          using that 2 by (intro cut) linarith+
      qed
      moreover have "p - 1 - lo < hi - lo" using 2 less.prems part by linarith
      ultimately have "yields (select_loop cmp k lo (p - 1) ws) (separated cmp xs k)"
        using 2 less.prems by (intro less.hyps) simp_all
      then show ?thesis using True 2 part(1) by (subst select_loop.simps) simp
    next
      case 3
      have "selecting cmp xs (p + 1) hi ws"
        unfolding selecting_def
      proof (intro conjI allI impI)
        show "cmp (ws ! m) (ws ! j) \<le> 0" if "m < p + 1 \<and> p + 1 \<le> j \<and> j < length xs" for m j
          using that by (intro cut) linarith+
        show "cmp (ws ! m) (ws ! j) \<le> 0" if "m \<le> hi \<and> hi < j \<and> j < length xs" for m j using s(3) that by blast
      qed (fact s(1) hi)+
      moreover have "hi - (p + 1) < hi - lo" using 3 less.prems part by linarith
      ultimately have "yields (select_loop cmp k (p + 1) hi ws) (separated cmp xs k)"
        using 3 less.prems by (intro less.hyps) simp_all
      then show ?thesis using True 3 part(1) by (subst select_loop.simps) simp
    qed
  qed
qed

text \<open>The rank of a value among the elements.\<close>

definition has_rank :: "('a \<Rightarrow> 'a \<Rightarrow> int) \<Rightarrow> 'a list \<Rightarrow> nat \<Rightarrow> 'a \<Rightarrow> bool" where
  "has_rank cmp xs k v \<longleftrightarrow> v \<in> set xs \<and> length (filter (\<lambda>x. cmp x v < 0) xs) \<le> k \<and>
     k < length (filter (\<lambda>x. cmp x v \<le> 0) xs)"

lemma length_filter_mset: "mset xs = mset ys \<Longrightarrow> length (filter P xs) = length (filter P ys)"
  by (metis mset_filter size_mset)

lemma separated_rank:
  assumes c: "comparator cmp" and "separated cmp xs k zs"
  shows "has_rank cmp xs k (zs ! k)"
proof -
  have z: "mset zs = mset xs" "k < length xs" "\<And>m. m < k \<Longrightarrow> cmp (zs ! m) (zs ! k) \<le> 0"
    "\<And>m. m < length xs \<Longrightarrow> k < m \<Longrightarrow> cmp (zs ! k) (zs ! m) \<le> 0"
    using assms(2) by (auto simp: separated_def)
  then have len: "k < length zs" using mset_eq_length by metis
  let ?v = "zs ! k"
  have split: "zs = take k zs @ ?v # drop (Suc k) zs" using len by (rule id_take_nth_drop)
  have "filter (\<lambda>x. cmp x ?v < 0) (drop (Suc k) zs) = []"
  proof (rule ccontr)
    assume "filter (\<lambda>x. cmp x ?v < 0) (drop (Suc k) zs) \<noteq> []"
    then obtain x where x: "x \<in> set (drop (Suc k) zs)" "cmp x ?v < 0" by (auto simp: filter_empty_conv)
    then obtain i where "i < length zs - Suc k" "x = zs ! (Suc k + i)" by (auto simp: in_set_conv_nth)
    moreover have "length zs = length xs" using z(1) by (rule mset_eq_length)
    ultimately have "cmp ?v x \<le> 0" using z(4) [of "Suc k + i"] by simp
    then show False using x(2) comparator.cmp_swap [OF c, of x ?v] by linarith
  qed
  then have "length (filter (\<lambda>x. cmp x ?v < 0) zs) = length (filter (\<lambda>x. cmp x ?v < 0) (take k zs))"
    using arg_cong [OF split, of "filter (\<lambda>x. cmp x ?v < 0)"] comparator.cmp_self [OF c, of ?v]
    by (simp del: append_take_drop_id)
  moreover have "length (filter (\<lambda>x. cmp x ?v < 0) (take k zs)) \<le> k"
    using length_filter_le [of _ "take k zs"] len by (metis length_take min.absorb4)
  moreover have "filter (\<lambda>x. cmp x ?v \<le> 0) (take k zs) = take k zs"
    using z(3) len by (auto simp: filter_id_conv in_set_conv_nth)
  then have "k < length (filter (\<lambda>x. cmp x ?v \<le> 0) zs)"
    using arg_cong [OF split, of "filter (\<lambda>x. cmp x ?v \<le> 0)"] len comparator.cmp_self [OF c, of ?v]
    by (simp add: min_absorb2)
  ultimately have "length (filter (\<lambda>x. cmp x ?v < 0) xs) \<le> k" "k < length (filter (\<lambda>x. cmp x ?v \<le> 0) xs)"
    using length_filter_mset [OF z(1)] by metis+
  moreover have "?v \<in> set xs" using len z(1) by (metis nth_mem set_mset_mset)
  ultimately show ?thesis by (simp add: has_rank_def)
qed

text \<open>It delivers the element of rank \<open>k\<close>, or an error of the allocation.\<close>

lemma quickselect_rank:
  assumes a: "scl_allocator a" and c: "comparator cmp" and xs: "length xs = unat cnt" and k: "k < cnt"
  shows "\<exists>err v. scl_search_quickselect a (Some xs) cnt es (Some cmp) k (Some old) = Some (err, Some v) \<and>
    (if err = SCL_OK then has_rank cmp xs (unat k) v else alloc_failed err \<and> v = old)"
proof -
  have nz: "cnt \<noteq> 0" "\<not> cnt \<le> k" using k by auto
  have k': "unat k < unat cnt" using k by (simp add: word_less_unat)
  show ?thesis
  proof (cases "scl_mul_overflow cnt es")
    case None
    then show ?thesis using nz by (simp add: scl_search_quickselect_def)
  next
    case (Some bytes)
    show ?thesis
    proof (cases "malloc_fn a 0 bytes max_align")
      case None
      then show ?thesis using nz Some by (simp add: scl_search_quickselect_def)
    next
      case alloc: (Some b)
      have "unat cnt * unat es \<le> length b"
        using scl_mul_overflow_Some [OF Some] scl_allocator.malloc_object(1) [OF a alloc] by simp
      moreover have "selecting cmp xs 0 (unat cnt - 1) xs" using xs k' by (auto simp: selecting_def)
      then have "yields (select_loop cmp (unat k) 0 (unat cnt - 1) xs) (separated cmp xs (unat k))"
        by (rule select_loop_spec [OF c]) (use k' in simp_all)
      then obtain zs where zs: "select_loop cmp (unat k) 0 (unat cnt - 1) xs = Some zs" "separated cmp xs (unat k) zs"
        unfolding yields_iff by blast
      moreover have "unat k < length zs" using zs(2) mset_eq_length by (metis separated_def)
      ultimately show ?thesis using nz Some alloc xs separated_rank [OF c zs(2)]
        by (simp add: scl_search_quickselect_def)
    qed
  qed
qed

end
