(* ===== verification/Scl_Heap.thy ===== *)
theory Scl_Heap
  imports Scl_Stack Scl_Sort_Heap
begin

text \<open>
  The binary heap of \<open>libs/structures/heap/scl_heap.c\<close>, a min-heap of fixed-size elements in one block.
  The sift loops read and exchange elements as bytes, with indices in \<open>size_t\<close>; they are shown to run as
  the loops on lists of elements do, where heap order is the one of heapsort with the comparison reversed.
\<close>

record scl_heap_t =
  hp_data :: "block ptr"
  hp_element_size :: size_t
  hp_capacity :: size_t
  hp_count :: size_t
  hp_cmp :: "block \<Rightarrow> block \<Rightarrow> int"

section \<open>The code\<close>

definition scl_heap_init ::
    "scl_allocator_t \<Rightarrow> scl_heap_t ptr \<Rightarrow> size_t \<Rightarrow> size_t \<Rightarrow> (block \<Rightarrow> block \<Rightarrow> int) ptr \<Rightarrow> scl_error_t \<times> scl_heap_t ptr" where
  "scl_heap_init a heap element_size initial_capacity cmp =
     (case (heap, cmp) of
        (Some _, Some c) \<Rightarrow>
          if element_size = 0 then (SCL_ERR_INVALID_ARG, heap)
          else let h = \<lparr>hp_data = None, hp_element_size = element_size, hp_capacity = 0, hp_count = 0, hp_cmp = c\<rparr> in
            if 0 < initial_capacity then
              case scl_mul_overflow initial_capacity element_size of
                None \<Rightarrow> (SCL_ERR_SIZE_OVERFLOW, Some h)
              | Some bytes \<Rightarrow>
                  (case malloc_fn a 0 bytes max_align of
                     None \<Rightarrow> (SCL_ERR_OUT_OF_MEMORY, Some h)
                   | Some d \<Rightarrow> (SCL_OK, Some (h\<lparr>hp_data := Some d, hp_capacity := initial_capacity\<rparr>)))
            else (SCL_OK, Some h)
      | _ \<Rightarrow> (SCL_ERR_NULL_PTR, heap))"

definition scl_heap_destroy :: "scl_heap_t ptr \<Rightarrow> scl_heap_t ptr" where
  "scl_heap_destroy heap = map_option (\<lambda>h. h\<lparr>hp_data := None, hp_capacity := 0, hp_count := 0\<rparr>) heap"

definition scl_heap_parent :: "size_t \<Rightarrow> size_t" where
  "scl_heap_parent i = (i - 1) div 2"

definition scl_heap_left :: "size_t \<Rightarrow> size_t" where
  "scl_heap_left i = 2 * i + 1"

definition scl_heap_right :: "size_t \<Rightarrow> size_t" where
  "scl_heap_right i = 2 * i + 2"

text \<open>The two elements are exchanged in chunks of 8, 4, 2 and 1 bytes, by the same statements as
  \<open>scl_sort_swap\<close>.\<close>

definition scl_heap_swap :: "block ptr \<Rightarrow> size_t \<Rightarrow> size_t \<Rightarrow> size_t \<Rightarrow> block ptr ub" where
  "scl_heap_swap d es i j = do {
     a \<leftarrow> load_elem d i es;
     b \<leftarrow> load_elem d j es;
     (a', b') \<leftarrow> scl_sort_swap a b es;
     d \<leftarrow> scl_memcpy d (unat (i * es)) (Some a') 0 (unat es);
     scl_memcpy d (unat (j * es)) (Some b') 0 (unat es)
   }"

function scl_heap_sift_up :: "(block \<Rightarrow> block \<Rightarrow> int) \<Rightarrow> size_t \<Rightarrow> block ptr \<Rightarrow> size_t \<Rightarrow> block ptr ub" where
  "scl_heap_sift_up cmp es d i =
     (if 0 < i then do {
        let p = scl_heap_parent i;
        a \<leftarrow> load_elem d p es;
        b \<leftarrow> load_elem d i es;
        if cmp a b \<le> 0 then Some d
        else do { d \<leftarrow> scl_heap_swap d es i p; scl_heap_sift_up cmp es d p }
      } else Some d)"
  by pat_completeness auto
termination
proof (relation "measure (\<lambda>(cmp, es, d, i). unat i)", goal_cases)
  case (2 cmp es d i p a b d')
  then have "i \<noteq> 0" by simp
  then have "unat (i - 1) < unat i" using unat_pred [of i] unat_pos_iff [of i] by simp
  then have "unat (scl_heap_parent i) < unat i" by (simp add: scl_heap_parent_def unat_div)
  then show ?case using 2 by simp
qed simp

declare scl_heap_sift_up.simps [simp del]

text \<open>\<open>smallest\<close> of one iteration of the sift-down loop.\<close>

definition heap_smallest :: "(block \<Rightarrow> block \<Rightarrow> int) \<Rightarrow> size_t \<Rightarrow> size_t \<Rightarrow> block ptr \<Rightarrow> size_t \<Rightarrow> size_t ub" where
  "heap_smallest cmp es n d i = do {
     let l = scl_heap_left i;
     let r = scl_heap_right i;
     smallest \<leftarrow> (if l < n then do {
         a \<leftarrow> load_elem d l es; b \<leftarrow> load_elem d i es; Some (if cmp a b < 0 then l else i) } else Some i);
     (if r < n then do {
         a \<leftarrow> load_elem d r es; b \<leftarrow> load_elem d smallest es; Some (if cmp a b < 0 then r else smallest) }
      else Some smallest)
   }"

text \<open>There is no result if a child index has wrapped around; the invariant of the heap excludes it.\<close>

function scl_heap_sift_down ::
    "(block \<Rightarrow> block \<Rightarrow> int) \<Rightarrow> size_t \<Rightarrow> size_t \<Rightarrow> block ptr \<Rightarrow> size_t \<Rightarrow> block ptr ub" where
  "scl_heap_sift_down cmp es n d i = do {
     smallest \<leftarrow> heap_smallest cmp es n d i;
     if smallest = i then Some d
     else if smallest < i \<or> n \<le> smallest then None
     else do { d \<leftarrow> scl_heap_swap d es i smallest; scl_heap_sift_down cmp es n d smallest }
   }"
  by pat_completeness auto
termination
proof (relation "measure (\<lambda>(cmp, es, n, d, i). unat n - unat i)", goal_cases)
  case (2 cmp es n d i smallest d')
  then have "i < smallest" "smallest < n" by auto
  then show ?case by (simp add: word_less_unat)
qed simp

declare scl_heap_sift_down.simps [simp del]

text \<open>The growth step at the head of \<open>scl_heap_push\<close>.\<close>

definition heap_make_room :: "scl_allocator_t \<Rightarrow> scl_heap_t \<Rightarrow> (scl_error_t \<times> scl_heap_t) ub" where
  "heap_make_room a h =
     (if hp_count h = hp_capacity h then
        let new_cap = (if hp_capacity h = 0 then 4 else hp_capacity h * 2);
            old_bytes = hp_capacity h * hp_element_size h in
        case scl_mul_overflow new_cap (hp_element_size h) of
          None \<Rightarrow> Some (SCL_ERR_SIZE_OVERFLOW, h)
        | Some new_bytes \<Rightarrow> do {
            tmp \<leftarrow> realloc_fn a 0 (hp_data h) old_bytes new_bytes max_align;
            (case tmp of
               None \<Rightarrow> Some (SCL_ERR_OUT_OF_MEMORY, h)
             | Some _ \<Rightarrow> Some (SCL_OK, h\<lparr>hp_data := tmp, hp_capacity := new_cap\<rparr>))
          }
      else Some (SCL_OK, h))"

definition scl_heap_push ::
    "scl_allocator_t \<Rightarrow> scl_heap_t ptr \<Rightarrow> block ptr \<Rightarrow> (scl_error_t \<times> scl_heap_t ptr) ub" where
  "scl_heap_push a heap element =
     (case (heap, element) of
        (Some h, Some _) \<Rightarrow> do {
          let cnt = hp_count h;
          let es = hp_element_size h;
          (err, h) \<leftarrow> heap_make_room a h;
          if err \<noteq> SCL_OK then Some (err, Some h)
          else do {
            d \<leftarrow> scl_memcpy (hp_data h) (unat (cnt * es)) element 0 (unat es);
            d \<leftarrow> scl_heap_sift_up (hp_cmp h) es d cnt;
            Some (SCL_OK, Some (h\<lparr>hp_data := d, hp_count := cnt + 1\<rparr>))
          }
        }
      | _ \<Rightarrow> Some (SCL_ERR_NULL_PTR, heap))"

definition scl_heap_pop :: "scl_heap_t ptr \<Rightarrow> block ptr \<Rightarrow> (scl_error_t \<times> scl_heap_t ptr \<times> block ptr) ub" where
  "scl_heap_pop heap out =
     (case (heap, out) of
        (Some h, Some _) \<Rightarrow>
          if hp_count h = 0 then Some (SCL_ERR_EMPTY, heap, out)
          else do {
            let es = hp_element_size h;
            out \<leftarrow> scl_memcpy out 0 (hp_data h) 0 (unat es);
            let n = hp_count h - 1;
            if 0 < n then do {
              d \<leftarrow> scl_memcpy (hp_data h) 0 (hp_data h) (unat (n * es)) (unat es);
              d \<leftarrow> scl_heap_sift_down (hp_cmp h) es n d 0;
              Some (SCL_OK, Some (h\<lparr>hp_data := d, hp_count := n\<rparr>), out)
            } else Some (SCL_OK, Some (h\<lparr>hp_count := n\<rparr>), out)
          }
      | _ \<Rightarrow> Some (SCL_ERR_NULL_PTR, heap, out))"

definition scl_heap_peek :: "scl_heap_t ptr \<Rightarrow> block ptr \<Rightarrow> (scl_error_t \<times> block ptr) ub" where
  "scl_heap_peek heap out =
     (case (heap, out) of
        (Some h, Some _) \<Rightarrow>
          if hp_count h = 0 then Some (SCL_ERR_EMPTY, out)
          else do {
            out \<leftarrow> scl_memcpy out 0 (hp_data h) 0 (unat (hp_element_size h));
            Some (SCL_OK, out)
          }
      | _ \<Rightarrow> Some (SCL_ERR_NULL_PTR, out))"

definition scl_heap_count :: "scl_heap_t ptr \<Rightarrow> size_t" where
  "scl_heap_count heap = (case heap of Some h \<Rightarrow> hp_count h | None \<Rightarrow> 0)"

definition scl_heap_empty :: "scl_heap_t ptr \<Rightarrow> bool" where
  "scl_heap_empty heap = (case heap of Some h \<Rightarrow> hp_count h = 0 | None \<Rightarrow> True)"

definition scl_heap_search ::
    "scl_heap_t ptr \<Rightarrow> block ptr \<Rightarrow> (block \<Rightarrow> block \<Rightarrow> int) ptr \<Rightarrow> size_t ptr \<Rightarrow> (scl_error_t \<times> size_t ptr) ub" where
  "scl_heap_search heap key cmp out_index =
     (case (heap, key, cmp, out_index) of
        (Some h, Some k, Some c, Some _) \<Rightarrow> do {
          r \<leftarrow> scan (\<lambda>i. load_elem (hp_data h) i (hp_element_size h)) (\<lambda>v. c v k) 0 (hp_count h);
          Some (case r of None \<Rightarrow> (SCL_ERR_NOT_FOUND, out_index) | Some i \<Rightarrow> (SCL_OK, Some i))
        }
      | _ \<Rightarrow> Some (SCL_ERR_NULL_PTR, out_index))"

section \<open>Heap order on lists\<close>

definition flipped :: "('a \<Rightarrow> 'a \<Rightarrow> int) \<Rightarrow> 'a \<Rightarrow> 'a \<Rightarrow> int" where
  "flipped cmp x y = cmp y x"

lemma flipped_comparator: "comparator cmp \<Longrightarrow> comparator (flipped cmp)"
  unfolding comparator_def flipped_def by blast

text \<open>Sifting up: only the element at \<open>i\<close> may be smaller than its parent.\<close>

definition heap_up_but :: "('a \<Rightarrow> 'a \<Rightarrow> int) \<Rightarrow> nat \<Rightarrow> nat \<Rightarrow> 'a list \<Rightarrow> bool" where
  "heap_up_but cmp n i xs \<longleftrightarrow>
     (\<forall>p j. child_of p j \<and> j < n \<and> j \<noteq> i \<longrightarrow> cmp (xs ! j) (xs ! p) \<le> 0) \<and>
     (\<forall>p j. child_of p i \<and> child_of i j \<and> j < n \<longrightarrow> cmp (xs ! j) (xs ! p) \<le> 0)"

context comparator
begin

lemma heap_up_done:
  "heap_up_but cmp n i xs \<Longrightarrow> (i = 0 \<or> cmp (xs ! i) (xs ! ((i - 1) div 2)) \<le> 0) \<Longrightarrow> heap_from cmp 0 n xs"
  unfolding heap_up_but_def heap_from_def
  by (metis child_of_less child_of_parent child_of_unique not_gr_zero not_less_zero)

lemma heap_up_step:
  assumes up: "heap_up_but cmp n i xs" and i: "0 < i" "i < n" and n: "n \<le> length xs"
    and gt: "0 < cmp (xs ! i) (xs ! ((i - 1) div 2))"
  shows "heap_up_but cmp n ((i - 1) div 2) (xs[i := xs ! ((i - 1) div 2), (i - 1) div 2 := xs ! i])"
proof -
  define p where "p = (i - 1) div 2"
  have p: "child_of p i" "p < i" using i child_of_parent [of i] child_of_less by (auto simp: p_def)
  let ?ys = "xs[i := xs ! p, p := xs ! i]"
  have nth: "?ys ! k = (if k = i then xs ! p else if k = p then xs ! i else xs ! k)" for k
    by (rule nth_swap) (use i n p in simp_all)
  have gt': "cmp (xs ! p) (xs ! i) \<le> 0" using gt cmp_swap by (simp add: p_def cmp_le_iff)
  have child: "cmp (xs ! j) (xs ! q) \<le> 0" if "child_of q j" "j < n" "j \<noteq> i" for q j
    using up that by (auto simp: heap_up_but_def)
  have grand: "cmp (xs ! j) (xs ! q) \<le> 0" if "child_of q i" "child_of i j" "j < n" for q j
    using up that by (auto simp: heap_up_but_def)
  have "cmp (?ys ! j) (?ys ! q) \<le> 0" if q: "child_of q j" "j < n" "j \<noteq> p" for q j
  proof -
    consider "q = p" "j = i" | "q = p" "j \<noteq> i" | "q = i" | "q \<noteq> p" "q \<noteq> i" by blast
    then show ?thesis
    proof cases
      case 1
      then show ?thesis using gt' p by (simp add: nth)
    next
      case 2
      then have "cmp (xs ! j) (xs ! p) \<le> 0" using child q by blast
      then show ?thesis using 2 q p cmp_trans [OF _ gt'] child_of_less [OF q(1)] by (auto simp: nth)
    next
      case 3
      then show ?thesis using grand [OF p(1)] q child_of_less [OF q(1)] p by (auto simp: nth)
    next
      case 4
      moreover have "j \<noteq> i" using 4 q(1) p(1) child_of_unique by blast
      ultimately show ?thesis using child q by (simp add: nth)
    qed
  qed
  moreover have "cmp (?ys ! j) (?ys ! q) \<le> 0" if q: "child_of q p" "child_of p j" "j < n" for q j
  proof -
    have qp: "q < p" using q(1) by (rule child_of_less)
    then have "cmp (xs ! p) (xs ! q) \<le> 0" using child [OF q(1)] p i by simp
    moreover have "cmp (xs ! j) (xs ! p) \<le> 0" if "j \<noteq> i" using child q that by blast
    ultimately show ?thesis
      using qp p child_of_less [OF q(2)] cmp_trans [of "xs ! j" "xs ! p" "xs ! q"] by (auto simp: nth)
  qed
  ultimately show ?thesis by (simp add: heap_up_but_def p_def)
qed

end

function sift_up :: "('a \<Rightarrow> 'a \<Rightarrow> int) \<Rightarrow> 'a list \<Rightarrow> nat \<Rightarrow> 'a list" where
  "sift_up cmp xs i =
     (if 0 < i \<and> 0 < cmp (xs ! i) (xs ! ((i - 1) div 2))
      then sift_up cmp (xs[i := xs ! ((i - 1) div 2), (i - 1) div 2 := xs ! i]) ((i - 1) div 2) else xs)"
  by pat_completeness auto
termination by (relation "measure (\<lambda>(cmp, xs, i). i)") auto

declare sift_up.simps [simp del]

lemma sift_up_heap:
  assumes "comparator cmp"
  shows "heap_up_but cmp n i xs \<Longrightarrow> i < n \<Longrightarrow> n \<le> length xs \<Longrightarrow>
    heap_from cmp 0 n (sift_up cmp xs i) \<and> perm_upto n xs (sift_up cmp xs i)"
proof (induction i arbitrary: xs rule: less_induct)
  case (less i)
  show ?case
  proof (cases "0 < i \<and> 0 < cmp (xs ! i) (xs ! ((i - 1) div 2))")
    case False
    then have "sift_up cmp xs i = xs" by (subst sift_up.simps) auto
    then show ?thesis using comparator.heap_up_done [OF assms less.prems(1)] False by auto
  next
    case True
    let ?p = "(i - 1) div 2"
    let ?ys = "xs[i := xs ! ?p, ?p := xs ! i]"
    have p: "?p < i" using True by auto
    have "heap_up_but cmp n ?p ?ys"
      using comparator.heap_up_step [OF assms less.prems(1) _ less.prems(2,3)] True by blast
    from less.IH [OF p this] less.prems(2,3) p
    have "heap_from cmp 0 n (sift_up cmp ?ys ?p) \<and> perm_upto n ?ys (sift_up cmp ?ys ?p)" by simp
    moreover have "perm_upto n xs ?ys" using less.prems p by (intro perm_upto_swap) simp_all
    ultimately show ?thesis using True perm_upto_trans by (subst (1 2) sift_up.simps) auto
  qed
qed

section \<open>The byte loops run as the list loops\<close>

lemma heap_swap_slots:
  assumes buf: "buf_ok d cap es" and i: "i < cap" and j: "j < cap" and ne: "i \<noteq> j"
  obtains d' where "scl_heap_swap d es i j = Some d'" and "buf_ok d' cap es"
    and "\<And>k. k < unat cap \<Longrightarrow> slot d' es k = (if k = unat i then slot d es (unat j)
      else if k = unat j then slot d es (unat i) else slot d es k)"
proof -
  have l: "unat i < unat cap" "unat j < unat cap" using i j by (simp_all add: word_less_unat)
  have uij: "unat i \<noteq> unat j" using ne by (simp add: word_unat_eq_iff)
  have len: "length (slot d es (unat i)) = unat es" "length (slot d es (unat j)) = unat es"
    using length_slot [OF buf] l by simp_all
  from buf_write [OF buf i, of "slot d es (unat j)"] len obtain d1 where d1:
    "scl_memcpy d (unat (i * es)) (Some (slot d es (unat j))) 0 (unat es) = Some d1" "buf_ok d1 cap es"
    "\<And>k. k < unat cap \<Longrightarrow> slot d1 es k = (if k = unat i then slot d es (unat j) else slot d es k)"
    by (metis order_refl take_all)
  from buf_write [OF d1(2) j, of "slot d es (unat i)"] len obtain d2 where d2:
    "scl_memcpy d1 (unat (j * es)) (Some (slot d es (unat i))) 0 (unat es) = Some d2" "buf_ok d2 cap es"
    "\<And>k. k < unat cap \<Longrightarrow> slot d2 es k = (if k = unat j then slot d es (unat i) else slot d1 es k)"
    by (metis order_refl take_all)
  have "scl_heap_swap d es i j = Some d2"
    using load_slot [OF buf i] load_slot [OF buf j] scl_sort_swap_exchanges [OF len] d1(1) d2(1)
    by (simp add: scl_heap_swap_def)
  then show thesis using d2(2,3) d1(3) uij by (intro that [of d2]) auto
qed

lemma swap_slots_list:
  assumes "buf_ok d cap es" and "i < cap" and "j < cap" and "i \<noteq> j" and "unat i < n" and "unat j < n" and "n \<le> unat cap"
  obtains d' where "scl_heap_swap d es i j = Some d'" and "buf_ok d' cap es"
    and "slots d' es n = (slots d es n)[unat i := slots d es n ! unat j, unat j := slots d es n ! unat i]"
proof -
  from heap_swap_slots [OF assms(1-4)] obtain d' where d': "scl_heap_swap d es i j = Some d'" "buf_ok d' cap es"
    "\<And>k. k < unat cap \<Longrightarrow> slot d' es k = (if k = unat i then slot d es (unat j)
      else if k = unat j then slot d es (unat i) else slot d es k)" by blast
  have "slots d' es n = (slots d es n)[unat i := slots d es n ! unat j, unat j := slots d es n ! unat i]"
  proof (rule nth_equalityI)
    fix k assume "k < length (slots d' es n)"
    then have k: "k < n" by simp
    then show "slots d' es n ! k = (slots d es n)[unat i := slots d es n ! unat j, unat j := slots d es n ! unat i] ! k"
      using d'(3) [of k] assms(5-7) by (subst nth_swap) auto
  qed simp
  with d'(1,2) show thesis by (rule that)
qed

lemma unat_parent: "i \<noteq> 0 \<Longrightarrow> unat (scl_heap_parent i) = (unat i - 1) div 2"
  by (simp add: scl_heap_parent_def unat_div unat_pred)

lemma heap_sift_up_list:
  assumes n: "n \<le> unat cap"
  shows "buf_ok d cap es \<Longrightarrow> unat i < n \<Longrightarrow>
    \<exists>d'. scl_heap_sift_up cmp es d i = Some d' \<and> buf_ok d' cap es \<and> slots d' es n = sift_up (flipped cmp) (slots d es n) (unat i)"
proof (induction "unat i" arbitrary: d i rule: less_induct)
  case less
  show ?case
  proof (cases "i = 0")
    case True
    then have "sift_up (flipped cmp) (slots d es n) (unat i) = slots d es n" by (subst sift_up.simps) simp
    then show ?thesis using True less.prems by (subst scl_heap_sift_up.simps) simp
  next
    case False
    let ?p = "scl_heap_parent i"
    have p: "unat ?p = (unat i - 1) div 2" using False by (rule unat_parent)
    have pi: "unat ?p < unat i" using False unat_pos_iff [of i] p by auto
    have c: "i < cap" "?p < cap" using less.prems(2) n pi by (simp_all add: word_less_unat)
    note ld = load_slot [OF less.prems(1) c(1)] load_slot [OF less.prems(1) c(2)]
    let ?xs = "slots d es n"
    have nth: "?xs ! unat i = slot d es (unat i)" "?xs ! unat ?p = slot d es (unat ?p)"
      using less.prems(2) pi by simp_all
    show ?thesis
    proof (cases "cmp (slot d es (unat ?p)) (slot d es (unat i)) \<le> 0")
      case True
      then have "sift_up (flipped cmp) ?xs (unat i) = ?xs"
        using nth by (subst sift_up.simps, unfold p [symmetric]) (simp add: flipped_def)
      then show ?thesis using True False ld less.prems(1)
        by (subst scl_heap_sift_up.simps) (simp add: word_gt_0 Let_def)
    next
      case gt: False
      have ne: "i \<noteq> ?p" using pi by auto
      from swap_slots_list [OF less.prems(1) c ne less.prems(2) _ n] pi less.prems(2) obtain d1 where
        d1: "scl_heap_swap d es i ?p = Some d1" "buf_ok d1 cap es"
        "slots d1 es n = ?xs[unat i := ?xs ! unat ?p, unat ?p := ?xs ! unat i]" by auto
      from less.hyps [OF pi d1(2)] pi less.prems(2) obtain d2 where
        d2: "scl_heap_sift_up cmp es d1 ?p = Some d2" "buf_ok d2 cap es"
        "slots d2 es n = sift_up (flipped cmp) (slots d1 es n) (unat ?p)" by auto
      have "sift_up (flipped cmp) ?xs (unat i) = sift_up (flipped cmp) (slots d1 es n) (unat ?p)"
        using gt False nth d1(3) by (subst sift_up.simps, unfold p [symmetric]) (simp add: flipped_def unat_pos_iff)
      moreover have "scl_heap_sift_up cmp es d i = Some d2"
        using gt False ld d1(1) d2(1) by (subst scl_heap_sift_up.simps) (simp add: word_gt_0 Let_def)
      ultimately show ?thesis using d2 by simp
    qed
  qed
qed

lemma unat_child:
  assumes "i < n" and "unat n < 2 ^ 63"
  shows "unat (scl_heap_left i) = unat i * 2 + 1" and "unat (scl_heap_right i) = unat i * 2 + 2"
proof -
  have i: "Suc (unat i) < 2 ^ 63" using assms by (simp add: word_less_unat)
  then have d: "unat (2 * i) = unat i * 2" using unat_double_bounded [of i] by (simp add: mult.commute)
  then show "unat (scl_heap_left i) = unat i * 2 + 1" "unat (scl_heap_right i) = unat i * 2 + 2"
    using i unfolding scl_heap_left_def scl_heap_right_def by (subst unat_add_bounded; simp)+
qed

text \<open>The choice of the smaller child is the one heapsort makes with the comparison reversed.\<close>

lemma heap_smallest_list:
  assumes buf: "buf_ok d cap es" and n: "0 < n" "n \<le> cap" and i: "i < n" and lim: "unat n < 2 ^ 63"
  shows "if unat i * 2 + 1 \<le> unat n - 1
    then \<exists>w. heap_smallest cmp es n d i = Some w \<and> w < n \<and>
      sift_choice (flipped cmp) (slots d es (unat n)) (unat i) (unat n - 1) = Some (unat w)
    else heap_smallest cmp es n d i = Some i"
proof -
  note u = unat_child [OF i lim]
  let ?l = "scl_heap_left i" and ?r = "scl_heap_right i" and ?xs = "slots d es (unat n)"
  have lt: "?l < n \<longleftrightarrow> unat i * 2 + 1 < unat n" "?r < n \<longleftrightarrow> unat i * 2 + 2 < unat n"
    using u by (simp_all add: word_less_unat)
  have ld: "load_elem d j es = Some (?xs ! unat j)" if "j < n" for j
    using that n load_slot [OF buf, of j] by (simp add: word_less_unat word_le_unat)
  show ?thesis
  proof (cases "unat i * 2 + 1 \<le> unat n - 1")
    case False
    then have "\<not> ?l < n" "\<not> ?r < n" using lt by simp_all
    then show ?thesis using False by (simp add: heap_smallest_def Let_def)
  next
    case True
    then have l: "?l < n" using lt n unat_pos_iff [of n] by (simp add: word_gt_0)
    define s where "s = (if cmp (?xs ! unat ?l) (?xs ! unat i) < 0 then ?l else i)"
    have s: "s < n" "unat s = (if flipped cmp (?xs ! unat i) (?xs ! (unat i * 2 + 1)) < 0 then unat i * 2 + 1 else unat i)"
      using l i u by (auto simp: s_def flipped_def)
    show ?thesis
    proof (cases "?r < n")
      case False
      then have "\<not> unat i * 2 + 1 + 1 \<le> unat n - 1" using lt by simp
      then have "sift_choice (flipped cmp) ?xs (unat i) (unat n - 1) = Some (unat s)"
        using True l i by (simp add: sift_choice_def Let_def s(2) u word_less_unat)
      moreover have "heap_smallest cmp es n d i = Some s"
        using False l i by (simp add: heap_smallest_def Let_def ld s_def)
      ultimately show ?thesis using True s(1) by simp
    next
      case r: True
      then have "unat i * 2 + 1 + 1 \<le> unat n - 1" using lt by simp
      then have "sift_choice (flipped cmp) ?xs (unat i) (unat n - 1)
          = Some (if flipped cmp (?xs ! unat s) (?xs ! (unat i * 2 + 2)) < 0 then unat i * 2 + 2 else unat s)"
        using True l i r lt s(1) unfolding s(2)
        by (cases "flipped cmp (?xs ! unat i) (?xs ! (unat i * 2 + 1)) < 0") (simp_all add: sift_choice_def Let_def u word_less_unat)
      moreover have "heap_smallest cmp es n d i = Some (if cmp (?xs ! unat ?r) (?xs ! unat s) < 0 then ?r else s)"
        using r l i s(1) by (simp add: heap_smallest_def Let_def ld flip: s_def)
      ultimately show ?thesis using True s(1) r u by (simp add: flipped_def)
    qed
  qed
qed

lemma heap_sift_down_list:
  assumes n: "0 < n" "n \<le> cap" and lim: "unat n < 2 ^ 63"
  shows "buf_ok d cap es \<Longrightarrow> i < n \<Longrightarrow> sift_down (flipped cmp) (slots d es (unat n)) (unat i) (unat n - 1) = Some ys \<Longrightarrow>
    \<exists>d'. scl_heap_sift_down cmp es n d i = Some d' \<and> buf_ok d' cap es \<and> slots d' es (unat n) = ys"
proof (induction "unat n - unat i" arbitrary: d i rule: less_induct)
  case less
  let ?xs = "slots d es (unat n)"
  note ch = heap_smallest_list [OF less.prems(1) n less.prems(2) lim, of cmp]
  show ?case
  proof (cases "unat i * 2 + 1 \<le> unat n - 1")
    case False
    then have "ys = ?xs" using less.prems(3) by (subst (asm) sift_down.simps) simp
    then show ?thesis using ch False less.prems(1) by (subst scl_heap_sift_down.simps) simp
  next
    case True
    then obtain w where w: "heap_smallest cmp es n d i = Some w" "w < n"
      "sift_choice (flipped cmp) ?xs (unat i) (unat n - 1) = Some (unat w)" using ch by auto
    show ?thesis
    proof (cases "w = i")
      case eq: True
      then have "ys = ?xs" using less.prems(3) True w(3) by (subst (asm) sift_down.simps) simp
      then show ?thesis using w(1) eq less.prems(1) by (subst scl_heap_sift_down.simps) simp
    next
      case False
      then have uw: "unat w \<noteq> unat i" by (simp add: word_unat_eq_iff)
      then have iw: "unat i < unat w" using sift_choice_cases [OF w(3)] True by auto
      have lt: "unat i < unat n" "unat w < unat n" using less.prems(2) w(2) by (simp_all add: word_less_unat)
      have cap: "i < cap" "w < cap" "unat n \<le> unat cap"
        using order_less_le_trans [OF _ n(2)] less.prems(2) w(2) n(2) by (blast, blast, simp add: word_le_unat)
      from swap_slots_list [OF less.prems(1) cap(1,2) False [symmetric] lt cap(3)] obtain d1 where
        d1: "scl_heap_swap d es i w = Some d1" "buf_ok d1 cap es"
        "slots d1 es (unat n) = ?xs[unat i := ?xs ! unat w, unat w := ?xs ! unat i]" .
      have "sift_down (flipped cmp) (slots d1 es (unat n)) (unat w) (unat n - 1) = Some ys"
        using less.prems(3) True w(3) uw lt d1(3) by (subst (asm) sift_down.simps) simp
      moreover have "unat n - unat w < unat n - unat i" using iw lt by linarith
      ultimately obtain d2 where d2: "scl_heap_sift_down cmp es n d1 w = Some d2" "buf_ok d2 cap es" "slots d2 es (unat n) = ys"
        using less.hyps [OF _ d1(2) w(2)] by blast
      have "\<not> (w < i \<or> n \<le> w)" using iw w(2) by (simp add: word_less_unat not_le)
      then have "scl_heap_sift_down cmp es n d i = Some d2"
        using False w(1) d1(1) d2(1) by (subst scl_heap_sift_down.simps) simp
      then show ?thesis using d2 by blast
    qed
  qed
qed

section \<open>Invariant and operations\<close>

definition heap_inv :: "scl_heap_t \<Rightarrow> bool" where
  "heap_inv h \<longleftrightarrow> buf_ok (hp_data h) (hp_capacity h) (hp_element_size h) \<and> hp_count h \<le> hp_capacity h \<and>
     comparator (hp_cmp h) \<and>
     heap_from (flipped (hp_cmp h)) 0 (unat (hp_count h)) (slots (hp_data h) (hp_element_size h) (unat (hp_count h)))"

definition heap_list :: "scl_heap_t \<Rightarrow> block list" where
  "heap_list h = slots (hp_data h) (hp_element_size h) (unat (hp_count h))"

lemma heap_inv_buf: "heap_inv h \<Longrightarrow> buf_ok (hp_data h) (hp_capacity h) (hp_element_size h)"
  by (simp add: heap_inv_def)

lemma heap_inv_order: "heap_inv h \<Longrightarrow> heap_from (flipped (hp_cmp h)) 0 (length (heap_list h)) (heap_list h)"
  by (simp add: heap_inv_def heap_list_def)

lemma length_heap_list [simp]: "length (heap_list h) = unat (hp_count h)"
  by (simp add: heap_list_def)

lemma heap_init_ok:
  assumes "scl_allocator a" and "comparator cmp" and "scl_heap_init a (Some h0) es cap (Some cmp) = (SCL_OK, Some h)"
  shows "heap_inv h \<and> heap_list h = [] \<and> hp_element_size h = es \<and> hp_capacity h = cap \<and> hp_cmp h = cmp"
  using assms scl_allocator.malloc_buf [OF assms(1)]
  by (auto simp: scl_heap_init_def Let_def heap_inv_def heap_list_def heap_from_def word_gt_0
      split: if_splits option.splits)

lemma heap_destroyed: "heap_inv h \<Longrightarrow> scl_heap_destroy (Some h) = Some h' \<Longrightarrow> heap_inv h' \<and> heap_list h' = []"
  by (auto simp: scl_heap_destroy_def heap_inv_def heap_list_def heap_from_def buf_ok_def)

text \<open>The root is a least element.\<close>

lemma heap_root_least:
  assumes "heap_inv h" and "x \<in> set (heap_list h)"
  shows "hp_cmp h (heap_list h ! 0) x \<le> 0"
proof -
  have c: "comparator (flipped (hp_cmp h))" using assms(1) flipped_comparator by (auto simp: heap_inv_def)
  obtain k where "k < length (heap_list h)" "x = heap_list h ! k" using assms(2) by (auto simp: in_set_conv_nth)
  then show ?thesis
    using comparator.heap_root_max [OF c heap_inv_order [OF assms(1)], of k] by (simp add: flipped_def)
qed

lemma heap_from_append:
  assumes "heap_from cmp 0 (length xs) xs"
  shows "heap_up_but cmp (Suc (length xs)) (length xs) (xs @ [e])"
proof -
  have "cmp ((xs @ [e]) ! j) ((xs @ [e]) ! p) \<le> 0" if "child_of p j" "j < length xs" for p j
    using assms that child_of_less [OF that(1)] by (simp add: nth_append heap_from_def)
  moreover have False if "child_of (length xs) j" "j < Suc (length xs)" for j
    using child_of_less [OF that(1)] that(2) by simp
  ultimately show ?thesis unfolding heap_up_but_def by (metis less_SucE)
qed

context scl_allocator
begin

lemma heap_room_spec:
  assumes inv: "heap_inv h"
  shows "\<exists>err h'. heap_make_room a h = Some (err, h') \<and> heap_inv h' \<and> heap_list h' = heap_list h \<and>
    hp_element_size h' = hp_element_size h \<and> hp_count h' = hp_count h \<and> hp_cmp h' = hp_cmp h \<and>
    (if err = SCL_OK then hp_count h' < hp_capacity h' else alloc_failed err \<and> h' = h)"
proof (cases "hp_count h = hp_capacity h")
  case False
  then show ?thesis using inv by (auto simp: heap_make_room_def heap_inv_def)
next
  case full: True
  from heap_inv_buf [OF inv] show ?thesis
  proof (rule grow_room [where k = 0 and al = max_align])
    assume "scl_mul_overflow (grown (hp_capacity h)) (hp_element_size h) = None"
    then show ?thesis using full inv by (simp add: heap_make_room_def grown_def)
  next
    fix bytes
    assume "scl_mul_overflow (grown (hp_capacity h)) (hp_element_size h) = Some bytes"
      "realloc_fn a 0 (hp_data h) (hp_capacity h * hp_element_size h) bytes max_align = Some None"
    then show ?thesis using full inv by (simp add: heap_make_room_def grown_def)
  next
    fix bytes b
    assume b: "scl_mul_overflow (grown (hp_capacity h)) (hp_element_size h) = Some bytes"
      "realloc_fn a 0 (hp_data h) (hp_capacity h * hp_element_size h) bytes max_align = Some (Some b)"
      "buf_ok (Some b) (grown (hp_capacity h)) (hp_element_size h)" "hp_capacity h < grown (hp_capacity h)"
      "slots (Some b) (hp_element_size h) (unat (hp_capacity h)) = slots (hp_data h) (hp_element_size h) (unat (hp_capacity h))"
    let ?h' = "h\<lparr>hp_data := Some b, hp_capacity := grown (hp_capacity h)\<rparr>"
    have list: "heap_list ?h' = heap_list h" using b(5) full by (simp add: heap_list_def)
    then have "heap_inv ?h'" using inv b(3,4) full by (simp add: heap_inv_def heap_list_def)
    moreover have "heap_make_room a h = Some (SCL_OK, ?h')" using full b(1,2) by (simp add: heap_make_room_def grown_def)
    ultimately show ?thesis using list b(4) full by (intro exI [of _ SCL_OK] exI [of _ ?h']) simp
  qed
qed

text \<open>Pushing keeps the heap and adds one element, or fails and changes nothing.\<close>

lemma heap_push_spec:
  assumes inv: "heap_inv h" and e: "unat (hp_element_size h) \<le> length e"
  shows "\<exists>err h'. scl_heap_push a (Some h) (Some e) = Some (err, Some h') \<and> heap_inv h' \<and>
    hp_element_size h' = hp_element_size h \<and> hp_cmp h' = hp_cmp h \<and>
    (if err = SCL_OK then mset (heap_list h') = add_mset (take (unat (hp_element_size h)) e) (mset (heap_list h))
     else alloc_failed err \<and> h' = h)"
proof -
  let ?es = "hp_element_size h" and ?cnt = "hp_count h"
  obtain err h1 where h1: "heap_make_room a h = Some (err, h1)" "heap_inv h1" "heap_list h1 = heap_list h"
    "hp_element_size h1 = ?es" "hp_count h1 = ?cnt" "hp_cmp h1 = hp_cmp h"
    "if err = SCL_OK then ?cnt < hp_capacity h1 else alloc_failed err \<and> h1 = h"
    using heap_room_spec [OF inv] by metis
  show ?thesis
  proof (cases "err = SCL_OK")
    case False
    then show ?thesis using h1 inv by (simp add: scl_heap_push_def Let_def)
  next
    case True
    then have cnt: "?cnt < hp_capacity h1" using h1(7) by simp
    from heap_inv_buf [OF h1(2)] have buf: "buf_ok (hp_data h1) (hp_capacity h1) ?es" by (simp add: h1(4))
    from buf_append [OF buf cnt e] obtain d where d:
      "scl_memcpy (hp_data h1) (unat (?cnt * ?es)) (Some e) 0 (unat ?es) = Some d"
      "buf_ok d (hp_capacity h1) ?es" "?cnt + 1 \<le> hp_capacity h1"
      "slots d ?es (unat (?cnt + 1)) = slots (hp_data h1) ?es (unat ?cnt) @ [take (unat ?es) e]" by blast
    have xs: "slots d ?es (unat (?cnt + 1)) = heap_list h @ [take (unat ?es) e]"
      using d(4) h1(3,4,5) by (simp add: heap_list_def)
    have n: "unat (?cnt + 1) = Suc (unat ?cnt)" using cnt by (rule unat_Suc_less)
    have n': "unat (?cnt + 1) \<le> unat (hp_capacity h1)" using d(3) by (simp add: word_le_unat)
    let ?ys = "sift_up (flipped (hp_cmp h)) (heap_list h @ [take (unat ?es) e]) (unat ?cnt)"
    obtain d' where d': "scl_heap_sift_up (hp_cmp h) ?es d ?cnt = Some d'" "buf_ok d' (hp_capacity h1) ?es"
      "slots d' ?es (unat (?cnt + 1)) = ?ys"
      using heap_sift_up_list [OF n' d(2), of ?cnt "hp_cmp h"] n xs by auto
    have "comparator (flipped (hp_cmp h))" using inv flipped_comparator by (auto simp: heap_inv_def)
    then have ys: "heap_from (flipped (hp_cmp h)) 0 (Suc (unat ?cnt)) ?ys \<and>
        perm_upto (Suc (unat ?cnt)) (heap_list h @ [take (unat ?es) e]) ?ys"
      using heap_from_append [OF heap_inv_order [OF inv], of "take (unat ?es) e"] by (intro sift_up_heap) simp_all
    let ?h' = "h1\<lparr>hp_data := d', hp_count := ?cnt + 1\<rparr>"
    have "heap_inv ?h'" using d'(2,3) d(3) h1(2,4,6) ys n by (simp add: heap_inv_def)
    moreover have "mset (heap_list ?h') = add_mset (take (unat ?es) e) (mset (heap_list h))"
      using d'(3) h1(4) ys by (simp add: heap_list_def perm_upto_def)
    moreover have "scl_heap_push a (Some h) (Some e) = Some (SCL_OK, Some ?h')"
      using h1(1,6) True d(1) d'(1) by (simp add: scl_heap_push_def Let_def)
    ultimately show ?thesis using h1(4,6) by simp
  qed
qed

end

lemma heap_top_read:
  assumes inv: "heap_inv h" and o: "unat (hp_element_size h) \<le> length out" and ne: "hp_count h \<noteq> 0"
  shows "scl_memcpy (Some out) 0 (hp_data h) 0 (unat (hp_element_size h))
    = Some (Some (heap_list h ! 0 @ drop (unat (hp_element_size h)) out))"
proof -
  have c: "0 < hp_count h" "hp_count h \<le> hp_capacity h" using ne inv by (auto simp: heap_inv_def word_gt_0)
  then have "0 < hp_capacity h" by simp
  from buf_read [OF heap_inv_buf [OF inv] this o] show ?thesis
    using ne by (simp add: heap_list_def unat_pos_iff)
qed

text \<open>Popping delivers a least element, removes it and keeps the heap.\<close>

lemma heap_pop_spec:
  assumes inv: "heap_inv h" and o: "unat (hp_element_size h) \<le> length out" and ne: "hp_count h \<noteq> 0"
  shows "\<exists>h' v. scl_heap_pop (Some h) (Some out) = Some (SCL_OK, Some h', Some (v @ drop (unat (hp_element_size h)) out)) \<and>
    heap_inv h' \<and> hp_element_size h' = hp_element_size h \<and> hp_cmp h' = hp_cmp h \<and>
    mset (heap_list h) = add_mset v (mset (heap_list h')) \<and> (\<forall>x \<in> set (heap_list h). hp_cmp h v x \<le> 0)"
proof -
  let ?es = "hp_element_size h" and ?n = "hp_count h - 1" and ?v = "heap_list h ! 0"
  have n: "unat (hp_count h) = Suc (unat ?n)" using ne unat_pred [OF ne] by (simp add: unat_pos_iff)
  have cap: "hp_count h \<le> hp_capacity h" using inv by (simp add: heap_inv_def)
  have lt: "?n < hp_capacity h" "?n \<le> hp_capacity h" using n cap by (simp_all add: word_less_unat word_le_unat)
  note buf = heap_inv_buf [OF inv] and rd = heap_top_read [OF inv o ne]
  have least: "\<forall>x \<in> set (heap_list h). hp_cmp h ?v x \<le> 0" using heap_root_least [OF inv] by blast
  show ?thesis
  proof (cases "?n = 0")
    case True
    let ?h' = "h\<lparr>hp_count := ?n\<rparr>"
    have "heap_list h = [?v]" using n True by (simp add: heap_list_def slots_Suc)
    moreover have "heap_list ?h' = []" using True by (simp add: heap_list_def)
    ultimately have "mset (heap_list h) = add_mset ?v (mset (heap_list ?h'))" by (metis mset.simps(1) mset.simps(2))
    moreover have "heap_inv ?h'" using inv True by (simp add: heap_inv_def heap_from_def)
    moreover have "scl_heap_pop (Some h) (Some out) = Some (SCL_OK, Some ?h', Some (?v @ drop (unat ?es) out))"
      using ne rd True by (simp add: scl_heap_pop_def Let_def)
    ultimately show ?thesis using least by (intro exI [of _ ?h'] exI [of _ ?v]) simp
  next
    case False
    then have pos: "0 < ?n" by (simp add: word_gt_0)
    then have c0: "0 < hp_capacity h" using lt(1) by (rule order_less_trans)
    from buf_copy [OF buf c0 buf lt(1)] obtain d where d:
      "scl_memcpy (hp_data h) 0 (hp_data h) (unat (?n * ?es)) (unat ?es) = Some d" "buf_ok d (hp_capacity h) ?es"
      "\<And>j. j < unat (hp_capacity h) \<Longrightarrow> slot d ?es j = (if j = 0 then slot (hp_data h) ?es (unat ?n) else slot (hp_data h) ?es j)"
      by auto
    let ?xs = "heap_list h" and ?m = "unat ?n"
    let ?ys = "(butlast ?xs)[0 := last ?xs]"
    have len: "length ?xs = Suc ?m" using n by simp
    have m: "0 < ?m" using False by (simp add: unat_pos_iff)
    have ys: "slots d ?es ?m = ?ys"
    proof (rule nth_equalityI)
      fix j assume "j < length (slots d ?es ?m)"
      then have j: "j < ?m" "j < unat (hp_capacity h)" using lt(2) by (simp_all add: word_le_unat)
      have "?xs ! k = slot (hp_data h) ?es k" if "k < Suc ?m" for k using that n by (simp add: heap_list_def)
      moreover have "?xs \<noteq> []" using len by (metis length_0_conv nat.distinct(1))
      then have "last ?xs = ?xs ! ?m" using len by (simp add: last_conv_nth)
      ultimately show "slots d ?es ?m ! j = ?ys ! j"
        using j m len d(3) [OF j(2)] by (simp add: nth_list_update nth_butlast)
    qed (use len in simp)
    have cmp: "comparator (flipped (hp_cmp h))" using inv flipped_comparator by (auto simp: heap_inv_def)
    have lim: "?m < 2 ^ 63" using buf_ok_bound(2) [OF buf] lt(1) by (simp add: word_less_unat)
    have "heap_but (flipped (hp_cmp h)) 0 ?m 0 ?ys"
    proof -
      have "flipped (hp_cmp h) (?xs ! j) (?xs ! p) \<le> 0" if "child_of p j" "j < ?m" for p j
        using heap_inv_order [OF inv] that len unfolding heap_from_def by simp
      moreover have "?ys ! k = ?xs ! k" if "k \<noteq> 0" "k < ?m" for k using that len by (simp add: nth_butlast)
      moreover have "j \<noteq> 0" "p < j" if "child_of p j" for p j using child_of_less [OF that] by simp_all
      ultimately show ?thesis unfolding heap_but_def
        by (metis (no_types, lifting) less_trans)
    qed
    then have "yields (sift_down (flipped (hp_cmp h)) ?ys 0 (?m - 1))
        (\<lambda>zs. heap_from (flipped (hp_cmp h)) 0 ?m zs \<and> perm_upto ?m ?ys zs)"
      using comparator.sift_down_spec [OF cmp, of 0 "?m - 1" 0 ?ys] m len by simp
    then obtain zs where zs: "sift_down (flipped (hp_cmp h)) ?ys 0 (?m - 1) = Some zs"
      "heap_from (flipped (hp_cmp h)) 0 ?m zs" "perm_upto ?m ?ys zs" by (auto simp: yields_iff)
    from heap_sift_down_list [OF pos lt(2) lim d(2) pos] zs(1) ys obtain d' where d':
      "scl_heap_sift_down (hp_cmp h) ?es ?n d 0 = Some d'" "buf_ok d' (hp_capacity h) ?es" "slots d' ?es ?m = zs" by auto
    let ?h' = "h\<lparr>hp_data := d', hp_count := ?n\<rparr>"
    have "heap_inv ?h'" using d'(2,3) lt(2) inv zs(2) by (simp add: heap_inv_def)
    moreover have "mset ?xs = add_mset ?v (mset (heap_list ?h'))"
    proof -
      obtain x zs' where x: "?xs = x # zs'" using len by (cases ?xs) simp_all
      then have "length zs' = ?m" using len by simp
      then have "zs' \<noteq> []" using m by (metis less_irrefl list.size(3))
      then have "mset (last zs' # butlast zs') = mset zs'"
        using arg_cong [OF append_butlast_last_id [of zs'], of mset] by (simp del: append_butlast_last_id)
      moreover have "?ys = last zs' # butlast zs'" using x \<open>zs' \<noteq> []\<close> by simp
      moreover have "mset zs = mset ?ys" using zs(3) by (simp add: perm_upto_def)
      moreover have "heap_list ?h' = zs" using d'(3) by (simp add: heap_list_def)
      ultimately show ?thesis using x by simp
    qed
    moreover have "scl_heap_pop (Some h) (Some out) = Some (SCL_OK, Some ?h', Some (?v @ drop (unat ?es) out))"
      using ne rd pos d(1) d'(1) by (simp add: scl_heap_pop_def Let_def)
    ultimately show ?thesis using least by (intro exI [of _ ?h'] exI [of _ ?v]) simp
  qed
qed

lemma heap_peek_spec:
  assumes "heap_inv h" and "unat (hp_element_size h) \<le> length out" and "hp_count h \<noteq> 0"
  shows "scl_heap_peek (Some h) (Some out) = Some (SCL_OK, Some (heap_list h ! 0 @ drop (unat (hp_element_size h)) out))"
  using assms heap_top_read [OF assms] by (simp add: scl_heap_peek_def)

lemma heap_search_spec:
  assumes inv: "heap_inv h"
  shows "\<exists>r. scl_heap_search (Some h) (Some k) (Some cmp) (Some i)
      = Some (case r of None \<Rightarrow> (SCL_ERR_NOT_FOUND, Some i) | Some j \<Rightarrow> (SCL_OK, Some j)) \<and>
    is_first (\<lambda>v. cmp v k = 0) (heap_list h) (map_option unat r)"
proof -
  have "load_elem (hp_data h) (of_nat j) (hp_element_size h) = Some (heap_list h ! j)" if "j < unat (hp_count h)" for j
    using load_slot_nat [OF heap_inv_buf [OF inv], of j] inv that
    by (auto simp: heap_inv_def heap_list_def word_le_unat)
  then show ?thesis
    using scan_first [of "heap_list h" "hp_count h" "\<lambda>i. load_elem (hp_data h) i (hp_element_size h)" "\<lambda>v. cmp v k"]
    by (auto simp: scl_heap_search_def)
qed

section \<open>Emptying a heap\<close>

text \<open>\<open>while (scl_heap_pop(h, &v) == SCL_OK) ...\<close> for at most \<open>n\<close> pops.\<close>

fun heap_drain :: "nat \<Rightarrow> scl_heap_t \<Rightarrow> (scl_heap_t \<times> block list) ub" where
  "heap_drain 0 h = Some (h, [])"
| "heap_drain (Suc n) h = do {
     (err, h', v) \<leftarrow> scl_heap_pop (Some h) (Some (replicate (unat (hp_element_size h)) 0));
     if err \<noteq> SCL_OK then Some (h, [])
     else do { (h'', vs) \<leftarrow> heap_drain n (the h'); Some (h'', the v # vs) }
   }"

lemma heap_drain_sorts:
  "heap_inv h \<Longrightarrow> \<exists>h' vs. heap_drain (unat (hp_count h)) h = Some (h', vs) \<and> heap_inv h' \<and> heap_list h' = [] \<and>
    mset vs = mset (heap_list h) \<and> sorted_cmp (hp_cmp h) vs"
proof (induction "unat (hp_count h)" arbitrary: h)
  case 0
  then show ?case by (auto simp: heap_list_def sorted_cmp_def)
next
  case (Suc n)
  have c: "comparator (hp_cmp h)" using Suc.prems by (simp add: heap_inv_def)
  have ne: "hp_count h \<noteq> 0" using Suc.hyps(2) by auto
  let ?out = "replicate (unat (hp_element_size h)) (0::byte)"
  from heap_pop_spec [OF Suc.prems _ ne, of ?out] obtain h1 v where pop:
    "scl_heap_pop (Some h) (Some ?out) = Some (SCL_OK, Some h1, Some v)" "heap_inv h1" "hp_cmp h1 = hp_cmp h"
    "mset (heap_list h) = add_mset v (mset (heap_list h1))" "\<forall>x \<in> set (heap_list h). hp_cmp h v x \<le> 0" by auto
  have "Suc (length (heap_list h1)) = length (heap_list h)" using pop(4) by (metis size_add_mset size_mset)
  then have n: "n = unat (hp_count h1)" using Suc.hyps(2) by simp
  from Suc.hyps(1) [OF n pop(2)] obtain h2 vs where rest: "heap_drain n h1 = Some (h2, vs)" "heap_inv h2" "heap_list h2 = []"
    "mset vs = mset (heap_list h1)" "sorted_cmp (hp_cmp h) vs" using n pop(3) by auto
  have "set vs \<subseteq> set (heap_list h)" using pop(4) rest(4) by (metis insert_iff set_mset_add_mset_insert set_mset_mset subsetI)
  then have "sorted_cmp (hp_cmp h) (v # vs)" using rest(5) pop(5) by (auto simp: comparator.sorted_Cons [OF c])
  then show ?case using pop(1,4) rest n Suc.hyps(2) by (simp flip: Suc.hyps(2))
qed

end
