(* ===== verification/Scl_Typed.thy ===== *)
theory Scl_Typed
  imports Scl_Buffer Scl_Slots
begin

text \<open>
  Blocks used as arrays of \<open>size_t\<close>: the values are the little-endian contents of consecutive groups of
  eight bytes, or of four bytes for arrays of \<open>int32_t\<close>. A fresh block has arbitrary values, one of \<open>calloc\<close>
  has zeros.
\<close>

definition u64_of :: "block \<Rightarrow> size_t" where
  "u64_of b = word_of_int (horner_sum uint 256 b)"

definition u64_array :: "block \<Rightarrow> size_t list" where
  "u64_array b = map u64_of (elems 8 b (length b div 8))"

lemma length_u64_array [simp]: "length (u64_array b) = length b div 8"
  by (simp add: u64_array_def)

lemma horner_zeros: "set b \<subseteq> {0} \<Longrightarrow> horner_sum uint 256 (b :: block) = 0"
  by (induction b) auto

lemma u64_array_zeros: "set b \<subseteq> {0} \<Longrightarrow> u64_array b = replicate (length b div 8) 0"
proof (rule nth_equalityI)
  fix i assume b: "set b \<subseteq> {0}" and "i < length (u64_array b)"
  then have i: "i < length b div 8" by simp
  have "set (elem 8 b i) \<subseteq> {0}" using b set_take_subset set_drop_subset unfolding elem_def by (metis subset_trans)
  then show "u64_array b ! i = replicate (length b div 8) 0 ! i"
    using i by (simp add: u64_array_def u64_of_def horner_zeros)
qed simp

text \<open>Storing \<open>0, 1, \<dots>\<close> in the first slots.\<close>

lemma store_indices:
  assumes "n \<le> length xs"
  shows "for_up 0 n (\<lambda>i xs. put_at xs i (f i)) xs = Some (map f [0..<n] @ drop n xs)"
proof -
  have "yields (for_up 0 n (\<lambda>i xs. put_at xs i (f i)) xs) (\<lambda>ys. ys = map f [0..<n] @ drop n xs)"
  proof (rule for_up_inv [where I = "\<lambda>i ys. ys = map f [0..<i] @ drop i xs"])
    fix i ys assume i: "i < n" and ys: "ys = map f [0..<i] @ drop i xs"
    have "drop i xs = xs ! i # drop (Suc i) xs" using i assms by (simp add: Cons_nth_drop_Suc)
    then have "ys[i := f i] = map f [0..<Suc i] @ drop (Suc i) xs" by (simp add: ys list_update_append)
    then show "yields (put_at ys i (f i)) (\<lambda>ys. ys = map f [0..<Suc i] @ drop (Suc i) xs)"
      using i assms by (simp add: ys)
  qed simp_all
  then show ?thesis by (auto simp: yields_iff)
qed

text \<open>The contents of a block read as \<open>int32_t\<close>.\<close>

definition i32_of :: "block \<Rightarrow> 32 word" where
  "i32_of b = word_of_int (horner_sum uint 256 b)"

definition i32_array :: "block \<Rightarrow> 32 word list" where
  "i32_array b = map i32_of (elems 4 b (length b div 4))"

lemma length_i32_array [simp]: "length (i32_array b) = length b div 4"
  by (simp add: i32_array_def)

end
