(* ===== verification/Scl_Unionfind.thy ===== *)
theory Scl_Unionfind
  imports Scl_Typed
begin

text \<open>
  The disjoint-set forest of \<open>libs/structures/unionfind/scl_unionfind.c\<close>, with path halving and union by
  rank. The abstraction is the equivalence \<open>uf_rel\<close> on \<open>0 \<dots> count - 1\<close>: finding keeps it, a union joins two
  classes, and \<open>sets\<close> is the number of classes. The invariant has ranks growing along the parents, which is
  why every search ends, and bounds the ranks, which is why they never wrap.
\<close>

record scl_unionfind_t =
  uf_parent :: "size_t list ptr"
  uf_rank :: "size_t list ptr"
  uf_count :: size_t
  uf_sets :: size_t

section \<open>The code\<close>

text \<open>The product \<open>count * sizeof(size_t)\<close> is not checked by the code; \<open>calloc\<close> checks it.\<close>

definition scl_unionfind_init ::
    "scl_allocator_t \<Rightarrow> scl_unionfind_t ptr \<Rightarrow> size_t \<Rightarrow> (scl_error_t \<times> scl_unionfind_t ptr) ub" where
  "scl_unionfind_init a uf cnt =
     (case uf of
        None \<Rightarrow> Some (SCL_ERR_NULL_PTR, uf)
      | Some u \<Rightarrow>
          if cnt = 0 then Some (SCL_ERR_INVALID_ARG, uf)
          else do {
            let parent = map_option u64_array (malloc_fn a 0 (cnt * 8) max_align);
            let rank = map_option u64_array (calloc_fn a 1 cnt 8 max_align);
            (case (parent, rank) of
               (Some p, Some r) \<Rightarrow> do {
                 p \<leftarrow> for_up 0 (unat cnt) (\<lambda>i p. put_at p i (of_nat i)) p;
                 Some (SCL_OK, Some (u\<lparr>uf_parent := Some p, uf_rank := Some r, uf_count := cnt, uf_sets := cnt\<rparr>))
               }
             | _ \<Rightarrow> Some (SCL_ERR_OUT_OF_MEMORY, Some (u\<lparr>uf_parent := parent, uf_rank := rank\<rparr>)))
          })"

definition scl_unionfind_destroy :: "scl_unionfind_t ptr \<Rightarrow> scl_unionfind_t ptr" where
  "scl_unionfind_destroy uf =
     map_option (\<lambda>u. u\<lparr>uf_parent := None, uf_rank := None, uf_count := 0, uf_sets := 0\<rparr>) uf"

text \<open>\<open>while (parent[x] != x) { parent[x] = parent[parent[x]]; x = parent[x]; }\<close>; \<open>None\<close> is also the value of
  a loop that does not end.\<close>

partial_function (option) find_loop :: "size_t list \<Rightarrow> size_t \<Rightarrow> (size_t list \<times> size_t) ub" where
  [code]: "find_loop ps x = do {
     p \<leftarrow> at ps (unat x);
     if p \<noteq> x then do {
       g \<leftarrow> at ps (unat p);
       ps \<leftarrow> put_at ps (unat x) g;
       x \<leftarrow> at ps (unat x);
       find_loop ps x
     } else Some (ps, x)
   }"

definition scl_unionfind_find :: "scl_unionfind_t ptr \<Rightarrow> size_t \<Rightarrow> (size_t \<times> scl_unionfind_t ptr) ub" where
  "scl_unionfind_find uf x =
     (case uf of
        None \<Rightarrow> Some (SIZE_MAX, uf)
      | Some u \<Rightarrow>
          if uf_count u \<le> x then Some (SIZE_MAX, uf)
          else (case uf_parent u of
              None \<Rightarrow> None
            | Some ps \<Rightarrow> do { (ps, r) \<leftarrow> find_loop ps x; Some (r, Some (u\<lparr>uf_parent := Some ps\<rparr>)) }))"

text \<open>The three ways to link two roots.\<close>

definition uf_link :: "size_t list \<Rightarrow> size_t list \<Rightarrow> size_t \<Rightarrow> size_t \<Rightarrow> (size_t list \<times> size_t list) ub" where
  "uf_link ps rk rx ry = do {
     a \<leftarrow> at rk (unat rx);
     b \<leftarrow> at rk (unat ry);
     if a < b then do { ps \<leftarrow> put_at ps (unat rx) ry; Some (ps, rk) }
     else if b < a then do { ps \<leftarrow> put_at ps (unat ry) rx; Some (ps, rk) }
     else do { ps \<leftarrow> put_at ps (unat ry) rx; rk \<leftarrow> put_at rk (unat rx) (a + 1); Some (ps, rk) }
   }"

definition scl_unionfind_union ::
    "scl_unionfind_t ptr \<Rightarrow> size_t \<Rightarrow> size_t \<Rightarrow> (scl_error_t \<times> scl_unionfind_t ptr) ub" where
  "scl_unionfind_union uf x y =
     (case uf of
        None \<Rightarrow> Some (SCL_ERR_NULL_PTR, uf)
      | Some u \<Rightarrow>
          if uf_count u \<le> x \<or> uf_count u \<le> y then Some (SCL_ERR_INVALID_INDEX, uf)
          else do {
            (rx, uf) \<leftarrow> scl_unionfind_find uf x;
            (ry, uf) \<leftarrow> scl_unionfind_find uf y;
            if rx = ry then Some (SCL_OK, uf)
            else do {
              u \<leftarrow> uf;
              ps \<leftarrow> uf_parent u;
              rk \<leftarrow> uf_rank u;
              (ps, rk) \<leftarrow> uf_link ps rk rx ry;
              Some (SCL_OK, Some (u\<lparr>uf_parent := Some ps, uf_rank := Some rk, uf_sets := uf_sets u - 1\<rparr>))
            }
          })"

text \<open>The cast removes a \<open>const\<close>: the query compresses paths too.\<close>

definition scl_unionfind_connected :: "scl_unionfind_t ptr \<Rightarrow> size_t \<Rightarrow> size_t \<Rightarrow> (bool \<times> scl_unionfind_t ptr) ub" where
  "scl_unionfind_connected uf x y =
     (case uf of
        None \<Rightarrow> Some (False, uf)
      | Some u \<Rightarrow>
          if uf_count u \<le> x \<or> uf_count u \<le> y then Some (False, uf)
          else do {
            (rx, uf) \<leftarrow> scl_unionfind_find uf x;
            (ry, uf) \<leftarrow> scl_unionfind_find uf y;
            Some (rx = ry, uf)
          })"

definition scl_unionfind_count :: "scl_unionfind_t ptr \<Rightarrow> size_t" where
  "scl_unionfind_count uf = (case uf of Some u \<Rightarrow> uf_count u | None \<Rightarrow> 0)"

definition scl_unionfind_sets :: "scl_unionfind_t ptr \<Rightarrow> size_t" where
  "scl_unionfind_sets uf = (case uf of Some u \<Rightarrow> uf_sets u | None \<Rightarrow> 0)"

section \<open>Forests\<close>

inductive root_of :: "size_t list \<Rightarrow> nat \<Rightarrow> nat \<Rightarrow> bool" for ps where
  root_here: "unat (ps ! i) = i \<Longrightarrow> root_of ps i i"
| root_up: "unat (ps ! i) \<noteq> i \<Longrightarrow> root_of ps (unat (ps ! i)) r \<Longrightarrow> root_of ps i r"

inductive_cases root_ofE: "root_of ps i r"

lemma root_of_top: "unat (ps ! i) = i \<Longrightarrow> root_of ps i r \<longleftrightarrow> r = i"
  by (auto elim: root_ofE intro: root_here)

lemma root_of_step: "unat (ps ! i) \<noteq> i \<Longrightarrow> root_of ps i r \<longleftrightarrow> root_of ps (unat (ps ! i)) r"
  by (auto elim: root_ofE intro: root_up)

text \<open>Parents are nodes, and ranks grow from a node to its parent.\<close>

definition forest :: "nat \<Rightarrow> size_t list \<Rightarrow> size_t list \<Rightarrow> bool" where
  "forest n ps rk \<longleftrightarrow> n \<le> length ps \<and> n \<le> length rk \<and>
     (\<forall>i < n. unat (ps ! i) < n \<and> (unat (ps ! i) \<noteq> i \<longrightarrow> rk ! i < rk ! unat (ps ! i)))"

lemma forestD:
  assumes "forest n ps rk" and "i < n"
  shows "unat (ps ! i) < n" and "unat (ps ! i) \<noteq> i \<Longrightarrow> rk ! i < rk ! unat (ps ! i)" and "i < length ps" and "i < length rk"
  using assms by (auto simp: forest_def)

text \<open>The distance in rank to the top is what decreases along a path.\<close>

lemma up_measure: "rk ! i < rk ! p \<Longrightarrow> unat (SIZE_MAX - rk ! p) < unat (SIZE_MAX - rk ! (i::nat))"
proof -
  have u: "unat (SIZE_MAX - a) = 18446744073709551615 - unat a" for a :: size_t
    using unat_diff_le [of a SIZE_MAX] by (simp add: unat_SIZE_MAX)
  assume "rk ! i < rk ! p"
  then have lt: "unat (rk ! i) < unat (rk ! p)" by (simp add: word_less_unat)
  then have "unat (rk ! i) < 18446744073709551615" using unat_lt_64 [of "rk ! p"] by linarith
  with lt show ?thesis unfolding u by (rule diff_less_mono2)
qed

lemma root_exists:
  assumes "forest n ps rk"
  shows "i < n \<Longrightarrow> \<exists>r < n. root_of ps i r \<and> unat (ps ! r) = r"
proof (induction "unat (SIZE_MAX - rk ! i)" arbitrary: i rule: less_induct)
  case less
  show ?case
  proof (cases "unat (ps ! i) = i")
    case True
    then show ?thesis using less.prems root_here by blast
  next
    case False
    then have "\<exists>r < n. root_of ps (unat (ps ! i)) r \<and> unat (ps ! r) = r"
      using forestD [OF assms less.prems] up_measure by (intro less.hyps) blast+
    then show ?thesis using False root_up by blast
  qed
qed

lemma root_unique: "root_of ps i r \<Longrightarrow> root_of ps i s \<Longrightarrow> r = s"
proof (induction rule: root_of.induct)
  case (root_here i)
  then show ?case by (simp add: root_of_top)
next
  case (root_up i r)
  then show ?case by (simp add: root_of_step [of ps i])
qed

lemma root_fixed: "root_of ps i r \<Longrightarrow> unat (ps ! r) = r"
  by (induction rule: root_of.induct)

text \<open>It is enough to show that roots are mapped one way.\<close>

lemma roots_by_map:
  assumes "forest n ps rk" and "\<And>i r. root_of ps i r \<Longrightarrow> root_of qs i (f r)" and "i < n"
  shows "root_of qs i s \<longleftrightarrow> (\<exists>r. root_of ps i r \<and> s = f r)"
proof -
  obtain r where r: "root_of ps i r" using root_exists [OF assms(1,3)] by blast
  have "root_of qs i (f r)" using assms(2) r by blast
  then show ?thesis using r root_unique by blast
qed

text \<open>Halving a path.\<close>

lemma halving_forest:
  assumes "forest n ps rk" and x: "x < n" "unat (ps ! x) \<noteq> x"
  shows "forest n (ps[x := ps ! unat (ps ! x)]) rk"
proof -
  let ?p = "unat (ps ! x)" and ?g = "unat (ps ! unat (ps ! x))"
  note xn = forestD [OF assms(1) x(1)]
  note p = xn(1) xn(2) [OF x(2)]
  note pn = forestD [OF assms(1) p(1)]
  have up: "rk ! x < rk ! ?g"
  proof (cases "?g = ?p")
    case False
    then show ?thesis using p(2) pn(2) order_less_trans by blast
  qed (use p(2) in simp)
  have "unat (ps[x := ps ! ?p] ! i) < n \<and>
      (unat (ps[x := ps ! ?p] ! i) \<noteq> i \<longrightarrow> rk ! i < rk ! unat (ps[x := ps ! ?p] ! i))" if i: "i < n" for i
  proof (cases "i = x")
    case True
    then show ?thesis using pn(1) up xn(3) by simp
  next
    case False
    then show ?thesis using forestD [OF assms(1) i] by simp
  qed
  then show ?thesis using assms(1) by (simp add: forest_def)
qed

lemma halving_roots:
  assumes f: "forest n ps rk" and x: "x < n" "unat (ps ! x) \<noteq> x" and i: "i < n"
  shows "root_of (ps[x := ps ! unat (ps ! x)]) i r \<longleftrightarrow> root_of ps i r"
proof -
  let ?p = "unat (ps ! x)" and ?qs = "ps[x := ps ! unat (ps ! x)]"
  note xl = forestD(3) [OF f x(1)]
  have up: "root_of ?qs i r" if "root_of ps i r" for i r
    using that
  proof (induction rule: root_of.induct)
    case (root_here i)
    then have "i \<noteq> x" using x(2) by auto
    then show ?case using root_here by (simp add: root_of_top)
  next
    case (root_up i r)
    show ?case
    proof (cases "i = x")
      case False
      then show ?thesis using root_up by (subst root_of_step) simp_all
    next
      case True
      have p: "?p < n" "rk ! x < rk ! ?p" using forestD [OF f x(1)] x(2) by blast+
      have px: "?p \<noteq> x" using x(2) .
      show ?thesis
      proof (cases "unat (ps ! ?p) = ?p")
        case eq: True
        then have "r = ?p" using root_up.hyps(2) True root_unique root_here by blast
        moreover have "root_of ?qs ?p ?p" using eq px by (simp add: root_of_top)
        ultimately show ?thesis unfolding True using eq px xl by (subst root_of_step) simp_all
      next
        case ne: False
        let ?g = "unat (ps ! ?p)"
        have "rk ! ?p < rk ! ?g" using forestD(2) [OF f p(1) ne] .
        then have gx: "?g \<noteq> x" using p(2) by (metis order.asym)
        have "root_of ?qs ?p r" using root_up.IH True by simp
        then have "root_of ?qs ?g r" using px ne root_of_step [of ?qs ?p r] by simp
        then show ?thesis unfolding True using gx xl by (subst root_of_step) simp_all
      qed
    qed
  qed
  have "root_of ?qs i r \<longleftrightarrow> (\<exists>s. root_of ps i s \<and> r = s)"
    by (rule roots_by_map [OF f up i])
  then show ?thesis by simp
qed

text \<open>The loop ends at the root and changes no root.\<close>

lemma find_loop_spec:
  assumes "n < 2 ^ 64"
  shows "forest n ps rk \<Longrightarrow> unat x < n \<Longrightarrow>
    yields (find_loop ps x) (\<lambda>(qs, r). length qs = length ps \<and> forest n qs rk \<and> unat r < n \<and> root_of ps (unat x) (unat r) \<and>
      (\<forall>i < n. \<forall>s. root_of qs i s \<longleftrightarrow> root_of ps i s))"
proof (induction "unat (SIZE_MAX - rk ! unat x)" arbitrary: ps x rule: less_induct)
  case less
  note f = less.prems(1) and x = less.prems(2)
  show ?case
  proof (cases "ps ! unat x = x")
    case True
    then have "root_of ps (unat x) (unat x)" by (simp add: root_of_top)
    then show ?thesis using True forestD [OF f x] f x by (subst find_loop.simps) simp
  next
    case False
    then have ne: "unat (ps ! unat x) \<noteq> unat x" by (simp add: word_unat_eq_iff)
    let ?p = "unat (ps ! unat x)"
    let ?g = "ps ! ?p"
    let ?qs = "ps[unat x := ?g]"
    have p: "?p < n" "rk ! unat x < rk ! ?p" using forestD(1,2) [OF f x] ne by blast+
    note g = forestD(1,2) [OF f p(1)]
    have "rk ! unat x < rk ! unat ?g"
      using p(2) g(2) order_less_trans [OF p(2)] by (cases "unat ?g = ?p") simp_all
    from less.hyps [OF up_measure [OF this] halving_forest [OF f x ne] g(1)] obtain qs r where
      q: "find_loop ?qs ?g = Some (qs, r)" "length qs = length ps" "forest n qs rk" "unat r < n"
      "root_of ?qs (unat ?g) (unat r)" "\<And>i s. i < n \<Longrightarrow> root_of qs i s \<longleftrightarrow> root_of ?qs i s" by auto
    have roots: "root_of qs i s \<longleftrightarrow> root_of ps i s" if "i < n" for i s
      using q(6) [OF that] halving_roots [OF f x ne that] by simp
    have "root_of ps (unat ?g) (unat r)" using q(5) halving_roots [OF f x ne g(1)] by simp
    then have "root_of ps ?p (unat r)"
      by (cases "unat ?g = ?p") (simp_all add: root_of_step)
    then have "root_of ps (unat x) (unat r)" using ne by (rule root_up [rotated])
    moreover have "find_loop ps x = Some (qs, r)"
      using False forestD(3) [OF f x] forestD(3) [OF f p(1)] q(1) by (subst find_loop.simps) simp
    ultimately show ?thesis using q(2-4) roots by auto
  qed
qed

section \<open>The contract\<close>

text \<open>The equivalence the structure stands for, and its classes.\<close>

definition uf_same :: "nat \<Rightarrow> size_t list \<Rightarrow> nat \<Rightarrow> nat \<Rightarrow> bool" where
  "uf_same n ps i j \<longleftrightarrow> i < n \<and> j < n \<and> (\<exists>r. root_of ps i r \<and> root_of ps j r)"

definition uf_roots :: "nat \<Rightarrow> size_t list \<Rightarrow> nat set" where
  "uf_roots n ps = {r. r < n \<and> unat (ps ! r) = r}"

definition uf_rel :: "scl_unionfind_t \<Rightarrow> nat \<Rightarrow> nat \<Rightarrow> bool" where
  "uf_rel u = uf_same (unat (uf_count u)) (the (uf_parent u))"

definition uf_inv :: "scl_unionfind_t \<Rightarrow> bool" where
  "uf_inv u \<longleftrightarrow> (case (uf_parent u, uf_rank u) of
     (Some ps, Some rk) \<Rightarrow> forest (unat (uf_count u)) ps rk \<and>
       unat (uf_sets u) = card (uf_roots (unat (uf_count u)) ps) \<and>
       (\<forall>i < unat (uf_count u). unat (rk ! i) + unat (uf_sets u) \<le> unat (uf_count u))
   | _ \<Rightarrow> False)"

lemma uf_invE:
  assumes "uf_inv u"
  obtains ps rk where "uf_parent u = Some ps" "uf_rank u = Some rk" "forest (unat (uf_count u)) ps rk"
    "unat (uf_sets u) = card (uf_roots (unat (uf_count u)) ps)"
    "\<And>i. i < unat (uf_count u) \<Longrightarrow> unat (rk ! i) + unat (uf_sets u) \<le> unat (uf_count u)"
  using assms by (auto simp: uf_inv_def split: option.splits)

text \<open>It is an equivalence, and two roots are never related.\<close>

lemma uf_same_iff:
  assumes "root_of ps i r" and "root_of ps j s" and "i < n" and "j < n"
  shows "uf_same n ps i j \<longleftrightarrow> r = s"
  using assms root_unique unfolding uf_same_def by blast

lemma uf_rel_equiv:
  assumes "uf_inv u"
  shows "i < unat (uf_count u) \<Longrightarrow> uf_rel u i i" and "uf_rel u i j \<Longrightarrow> uf_rel u j i"
    and "uf_rel u i j \<Longrightarrow> uf_rel u j k \<Longrightarrow> uf_rel u i k"
proof -
  obtain ps rk where u: "uf_parent u = Some ps" "forest (unat (uf_count u)) ps rk" using uf_invE [OF assms] by metis
  show "i < unat (uf_count u) \<Longrightarrow> uf_rel u i i" using root_exists [OF u(2)] by (auto simp: uf_rel_def uf_same_def u(1))
  show "uf_rel u i j \<Longrightarrow> uf_rel u j i" "uf_rel u i j \<Longrightarrow> uf_rel u j k \<Longrightarrow> uf_rel u i k"
    by (auto simp: uf_rel_def uf_same_def dest: root_unique)
qed

subsection \<open>Init\<close>

lemma uf_init_spec:
  assumes a: "scl_allocator a" and c: "cnt \<noteq> 0"
  shows "\<exists>err v. scl_unionfind_init a (Some u) cnt = Some (err, Some v) \<and>
    (if err = SCL_OK then uf_inv v \<and> uf_count v = cnt \<and> uf_sets v = cnt \<and>
       (\<forall>i j. uf_rel v i j \<longleftrightarrow> i < unat cnt \<and> j = i)
     else err = SCL_ERR_OUT_OF_MEMORY)"
proof -
  let ?n = "unat cnt"
  consider "malloc_fn a 0 (cnt * 8) max_align = None" | "calloc_fn a 1 cnt 8 max_align = None"
    | b z where "malloc_fn a 0 (cnt * 8) max_align = Some b" "calloc_fn a 1 cnt 8 max_align = Some z"
    by (metis option.exhaust)
  then show ?thesis
  proof cases
    case 1
    then show ?thesis using c by (simp add: scl_unionfind_init_def)
  next
    case 2
    then show ?thesis using c
      by (cases "malloc_fn a 0 (cnt * 8) max_align") (simp_all add: scl_unionfind_init_def)
  next
    case 3
    have z: "is_object z (?n * 8)" "set z \<subseteq> {0}" using scl_allocator.calloc_block [OF a 3(2)] by auto
    then have "?n * 8 < 2 ^ 64" by (simp add: is_object_def)
    then have "unat (cnt * 8) = ?n * 8" using unat_mult_bounded [of cnt ?n 8] by simp
    then have lb: "length b = ?n * 8" using scl_allocator.malloc_object(1) [OF a 3(1)] by simp
    let ?ps = "map of_nat [0..<?n] :: size_t list" and ?rk = "replicate ?n 0 :: size_t list"
    let ?v = "u\<lparr>uf_parent := Some ?ps, uf_rank := Some ?rk, uf_count := cnt, uf_sets := cnt\<rparr>"
    have "u64_array z = ?rk" using u64_array_zeros [OF z(2)] z(1) by (simp add: is_object_def)
    moreover have "for_up 0 ?n (\<lambda>i p. put_at p i (of_nat i)) (u64_array b) = Some ?ps"
      using store_indices [of ?n "u64_array b" of_nat] lb by simp
    ultimately have run: "scl_unionfind_init a (Some u) cnt = Some (SCL_OK, Some ?v)"
      using c 3 by (simp add: scl_unionfind_init_def)
    have self: "unat (?ps ! i) = i" if "i < ?n" for i using that by (simp add: unat_of_nat_less)
    then have "uf_roots ?n ?ps = {..<?n}" by (auto simp: uf_roots_def)
    then have "uf_inv ?v" using self by (simp add: uf_inv_def forest_def)
    moreover have "uf_rel ?v i j \<longleftrightarrow> i < ?n \<and> j = i" for i j
      using self by (auto simp: uf_rel_def uf_same_def root_of_top)
    ultimately show ?thesis using run by (intro exI [of _ SCL_OK] exI [of _ ?v]) simp
  qed
qed

subsection \<open>Find\<close>

lemma uf_find_spec:
  assumes inv: "uf_inv u" and x: "unat x < unat (uf_count u)"
  shows "\<exists>r v. scl_unionfind_find (Some u) x = Some (r, Some v) \<and> uf_inv v \<and> uf_count v = uf_count u \<and>
    uf_sets v = uf_sets u \<and> uf_rank v = uf_rank u \<and> unat r < unat (uf_count u) \<and>
    root_of (the (uf_parent v)) (unat x) (unat r) \<and>
    (\<forall>i < unat (uf_count u). \<forall>s. root_of (the (uf_parent v)) i s \<longleftrightarrow> root_of (the (uf_parent u)) i s)"
proof -
  let ?n = "unat (uf_count u)"
  obtain ps rk where u: "uf_parent u = Some ps" "uf_rank u = Some rk" "forest ?n ps rk"
    "unat (uf_sets u) = card (uf_roots ?n ps)" "\<And>i. i < ?n \<Longrightarrow> unat (rk ! i) + unat (uf_sets u) \<le> ?n"
    using uf_invE [OF inv] by metis
  have "?n < 2 ^ 64" by simp
  from find_loop_spec [OF this u(3) x] obtain qs r where q: "find_loop ps x = Some (qs, r)" "forest ?n qs rk"
    "unat r < ?n" "root_of ps (unat x) (unat r)" "\<And>i s. i < ?n \<Longrightarrow> root_of qs i s \<longleftrightarrow> root_of ps i s" by auto
  have "unat (qs ! i) = i \<longleftrightarrow> unat (ps ! i) = i" if "i < ?n" for i
  proof -
    have "root_of ps i i \<longleftrightarrow> root_of qs i i" using q(5) [OF that] by simp
    then show ?thesis using root_fixed root_here by blast
  qed
  then have "uf_roots ?n qs = uf_roots ?n ps" by (auto simp: uf_roots_def)
  then have "uf_inv (u\<lparr>uf_parent := Some qs\<rparr>)" using u(2,4,5) q(2) by (simp add: uf_inv_def)
  moreover have "\<not> uf_count u \<le> x" using x by (simp add: word_le_unat)
  ultimately show ?thesis using q(1,3,4,5) u(1) x
    by (intro exI [of _ r] exI [of _ "u\<lparr>uf_parent := Some qs\<rparr>"]) (simp add: scl_unionfind_find_def)
qed

lemma uf_rel_cong:
  assumes "uf_count v = uf_count u"
    and "\<And>i s. i < unat (uf_count u) \<Longrightarrow> root_of (the (uf_parent v)) i s \<longleftrightarrow> root_of (the (uf_parent u)) i s"
  shows "uf_rel v = uf_rel u"
  using assms by (auto simp: uf_rel_def uf_same_def fun_eq_iff)

text \<open>Finding two elements in a row.\<close>

lemma uf_find_twice:
  assumes inv: "uf_inv u" and x: "unat x < unat (uf_count u)" and y: "unat y < unat (uf_count u)"
  obtains rx ry v w where "scl_unionfind_find (Some u) x = Some (rx, Some v)"
    "scl_unionfind_find (Some v) y = Some (ry, Some w)"
    "uf_inv w" "uf_count w = uf_count u" "uf_sets w = uf_sets u" "uf_rel w = uf_rel u"
    "unat rx < unat (uf_count u)" "unat ry < unat (uf_count u)"
    "root_of (the (uf_parent w)) (unat x) (unat rx)" "root_of (the (uf_parent w)) (unat y) (unat ry)"
proof -
  from uf_find_spec [OF inv x] obtain rx v where v: "scl_unionfind_find (Some u) x = Some (rx, Some v)" "uf_inv v"
    "uf_count v = uf_count u" "uf_sets v = uf_sets u" "unat rx < unat (uf_count u)"
    "root_of (the (uf_parent v)) (unat x) (unat rx)"
    "\<And>i s. i < unat (uf_count u) \<Longrightarrow> root_of (the (uf_parent v)) i s \<longleftrightarrow> root_of (the (uf_parent u)) i s" by blast
  from uf_find_spec [OF v(2), of y] y v(3) obtain ry w where w: "scl_unionfind_find (Some v) y = Some (ry, Some w)" "uf_inv w"
    "uf_count w = uf_count u" "uf_sets w = uf_sets v" "unat ry < unat (uf_count u)"
    "root_of (the (uf_parent w)) (unat y) (unat ry)"
    "\<And>i s. i < unat (uf_count u) \<Longrightarrow> root_of (the (uf_parent w)) i s \<longleftrightarrow> root_of (the (uf_parent v)) i s" by metis
  show thesis
  proof (rule that [OF v(1) w(1,2,3)])
    show "uf_sets w = uf_sets u" using w(4) v(4) by simp
    show "uf_rel w = uf_rel u" using v(7) w(3,7) by (intro uf_rel_cong) simp_all
    show "root_of (the (uf_parent w)) (unat x) (unat rx)" using v(6) w(7) [OF x] by simp
  qed (use v(5) w(5,6) in auto)
qed

lemma uf_connected_spec:
  assumes inv: "uf_inv u" and x: "unat x < unat (uf_count u)" and y: "unat y < unat (uf_count u)"
  shows "\<exists>v. scl_unionfind_connected (Some u) x y = Some (uf_rel u (unat x) (unat y), Some v) \<and> uf_inv v \<and>
    uf_rel v = uf_rel u \<and> uf_count v = uf_count u \<and> uf_sets v = uf_sets u"
proof -
  from uf_find_twice [OF assms] obtain rx ry v w where w: "scl_unionfind_find (Some u) x = Some (rx, Some v)"
    "scl_unionfind_find (Some v) y = Some (ry, Some w)"
    "uf_inv w" "uf_count w = uf_count u" "uf_sets w = uf_sets u" "uf_rel w = uf_rel u"
    "root_of (the (uf_parent w)) (unat x) (unat rx)" "root_of (the (uf_parent w)) (unat y) (unat ry)" by metis
  have "uf_rel w (unat x) (unat y) \<longleftrightarrow> unat rx = unat ry"
    unfolding uf_rel_def using uf_same_iff [OF w(7,8)] x y w(4) by simp
  then have "(rx = ry) = uf_rel u (unat x) (unat y)" using w(6) by (simp add: word_unat_eq_iff)
  moreover have "\<not> (uf_count u \<le> x \<or> uf_count u \<le> y)" using x y by (simp add: word_le_unat)
  ultimately show ?thesis using w by (simp add: scl_unionfind_connected_def)
qed

subsection \<open>Union\<close>

text \<open>Hanging one root below another.\<close>

lemma link_roots:
  assumes f: "forest n ps rk" and r: "unat (ps ! r) = r" and t: "unat (ps ! unat t) = unat t" "unat t \<noteq> r"
    and rn: "r < n" and i: "i < n"
  shows "root_of (ps[r := t]) i s \<longleftrightarrow> (\<exists>q. root_of ps i q \<and> s = (if q = r then unat t else q))"
proof (rule roots_by_map [OF f _ i])
  fix i q assume "root_of ps i q"
  then show "root_of (ps[r := t]) i (if q = r then unat t else q)"
  proof (induction rule: root_of.induct)
    case (root_here i)
    show ?case
    proof (cases "i = r")
      case True
      then show ?thesis using t forestD(3) [OF f rn] root_of_step [of "ps[r := t]" r] root_of_top [of "ps[r := t]" "unat t"] by simp
    next
      case False
      then show ?thesis using root_here by (simp add: root_of_top)
    qed
  next
    case (root_up i q)
    then have "i \<noteq> r" using r by auto
    then show ?case using root_up by (simp add: root_of_step [of "ps[r := t]" i])
  qed
qed

lemma link_forest:
  assumes f: "forest n ps rk" and "unat t < n" and "rk ! r < rk' ! unat t"
    and "n \<le> length rk'" and "\<And>i. i < n \<Longrightarrow> rk ! i \<le> rk' ! i" and "\<And>i. i < n \<Longrightarrow> i \<noteq> unat t \<Longrightarrow> rk' ! i = rk ! i"
    and top: "unat (ps ! unat t) = unat t" and rt: "r \<noteq> unat t" and r: "r < n"
  shows "forest n (ps[r := t]) rk'"
proof -
  have "unat (ps[r := t] ! i) < n \<and> (unat (ps[r := t] ! i) \<noteq> i \<longrightarrow> rk' ! i < rk' ! unat (ps[r := t] ! i))" if i: "i < n" for i
  proof (cases "i = r")
    case True
    then show ?thesis using assms(2,3) assms(6) [OF r rt] forestD(3) [OF f r] by simp
  next
    case False
    let ?p = "unat (ps ! i)"
    have p: "?p < n" using forestD(1) [OF f i] .
    have "rk' ! i < rk' ! ?p" if "?p \<noteq> i"
    proof -
      have "i \<noteq> unat t" using that top by auto
      then have "rk' ! i = rk ! i" using assms(6) [OF i] by simp
      also have "\<dots> < rk ! ?p" using forestD(2) [OF f i that] .
      also have "\<dots> \<le> rk' ! ?p" using assms(5) [OF p] .
      finally show ?thesis .
    qed
    then show ?thesis using False p by simp
  qed
  then show ?thesis using f assms(4) by (simp add: forest_def)
qed

lemma link_count:
  assumes "n \<le> length ps" and "r < n" and "unat (ps ! r) = r" and "unat t \<noteq> r"
  shows "uf_roots n (ps[r := t]) = uf_roots n ps - {r}" and "r \<in> uf_roots n ps"
  using assms by (auto simp: uf_roots_def nth_list_update split: if_splits)

text \<open>All three ways to link leave a forest in which one root has gone.\<close>

lemma uf_link_spec:
  assumes f: "forest n ps rk" and rx: "unat rx < n" "unat (ps ! unat rx) = unat rx"
    and ry: "unat ry < n" "unat (ps ! unat ry) = unat ry" and ne: "rx \<noteq> ry" and room: "unat (rk ! unat rx) + 1 < 2 ^ 64"
  obtains r t qs rk' where "uf_link ps rk rx ry = Some (qs, rk')" and "qs = ps[unat r := t]"
    and "(r, t) \<in> {(rx, ry), (ry, rx)}" and "forest n qs rk'"
    and "\<And>i. i < n \<Longrightarrow> unat (rk' ! i) \<le> unat (rk ! i) + 1"
proof -
  have une: "unat rx \<noteq> unat ry" using ne by (simp add: word_unat_eq_iff)
  note lx = forestD(3,4) [OF f rx(1)] and ly = forestD(3,4) [OF f ry(1)]
  have len: "n \<le> length rk" using f by (simp add: forest_def)
  consider "rk ! unat rx < rk ! unat ry" | "rk ! unat ry < rk ! unat rx" | "rk ! unat rx = rk ! unat ry" by fastforce
  then show thesis
  proof cases
    case 1
    have "forest n (ps[unat rx := ry]) rk" using 1 rx ry une len by (intro link_forest [OF f]) auto
    then show thesis using 1 lx ly by (intro that [of "ps[unat rx := ry]" rk rx ry]) (simp_all add: uf_link_def)
  next
    case 2
    have "forest n (ps[unat ry := rx]) rk" using 2 rx ry une len by (intro link_forest [OF f]) auto
    then show thesis using 2 lx ly by (intro that [of "ps[unat ry := rx]" rk ry rx]) (auto simp: uf_link_def)
  next
    case 3
    let ?rk = "rk[unat rx := rk ! unat rx + 1]"
    have up: "unat (rk ! unat rx + 1) = unat (rk ! unat rx) + 1" using room by (subst unat_add_bounded) simp_all
    have le: "rk ! i \<le> ?rk ! i" "unat (?rk ! i) \<le> unat (rk ! i) + 1" for i
      using up lx by (cases "i = unat rx"; simp add: word_le_unat)+
    have "rk ! unat ry < ?rk ! unat rx" using 3 up lx by (simp add: word_less_unat)
    then have "forest n (ps[unat ry := rx]) ?rk" using rx ry une len le(1) by (intro link_forest [OF f]) auto
    then show thesis using 3 lx ly le(2) by (intro that [of "ps[unat ry := rx]" ?rk ry rx]) (simp_all add: uf_link_def)
  qed
qed

text \<open>A union joins the two classes and nothing else; \<open>sets\<close> drops by one unless they were one class.\<close>

lemma uf_union_spec:
  assumes inv: "uf_inv u" and x: "unat x < unat (uf_count u)" and y: "unat y < unat (uf_count u)"
  shows "\<exists>v. scl_unionfind_union (Some u) x y = Some (SCL_OK, Some v) \<and> uf_inv v \<and> uf_count v = uf_count u \<and>
    unat (uf_sets v) = (if uf_rel u (unat x) (unat y) then unat (uf_sets u) else unat (uf_sets u) - 1) \<and>
    (\<forall>i j. uf_rel v i j \<longleftrightarrow> uf_rel u i j \<or> uf_rel u i (unat x) \<and> uf_rel u (unat y) j \<or> uf_rel u i (unat y) \<and> uf_rel u (unat x) j)"
proof -
  let ?n = "unat (uf_count u)"
  from uf_find_twice [OF assms] obtain rx ry v w where w: "scl_unionfind_find (Some u) x = Some (rx, Some v)"
    "scl_unionfind_find (Some v) y = Some (ry, Some w)"
    "uf_inv w" "uf_count w = uf_count u" "uf_sets w = uf_sets u" "uf_rel w = uf_rel u"
    "unat rx < ?n" "unat ry < ?n"
    "root_of (the (uf_parent w)) (unat x) (unat rx)" "root_of (the (uf_parent w)) (unat y) (unat ry)" by metis
  obtain ps rk where p: "uf_parent w = Some ps" "uf_rank w = Some rk" "forest ?n ps rk"
    "unat (uf_sets u) = card (uf_roots ?n ps)" "\<And>i. i < ?n \<Longrightarrow> unat (rk ! i) + unat (uf_sets u) \<le> ?n"
    using uf_invE [OF w(3)] w(4,5) by metis
  have rx: "root_of ps (unat x) (unat rx)" "unat (ps ! unat rx) = unat rx" using w(9) p(1) root_fixed by auto
  have ry: "root_of ps (unat y) (unat ry)" "unat (ps ! unat ry) = unat ry" using w(10) p(1) root_fixed by auto
  have rel: "uf_rel u = uf_same ?n ps" using w(4,6) p(1) by (metis option.sel uf_rel_def)
  have in_range: "\<not> (uf_count u \<le> x \<or> uf_count u \<le> y)" using x y by (simp add: word_le_unat)
  have same: "uf_rel u (unat x) (unat y) \<longleftrightarrow> rx = ry"
    unfolding rel uf_same_iff [OF rx(1) ry(1) x y] by (simp add: word_unat_eq_iff)
  show ?thesis
  proof (cases "rx = ry")
    case True
    have "uf_rel u (unat x) (unat y)" using same True by simp
    then have "uf_rel u i j \<longleftrightarrow> uf_rel u i j \<or> uf_rel u i (unat x) \<and> uf_rel u (unat y) j \<or> uf_rel u i (unat y) \<and> uf_rel u (unat x) j" for i j
      unfolding rel uf_same_def using root_unique by blast
    then show ?thesis using True w(1-6) in_range same by (simp add: scl_unionfind_union_def)
  next
    case False
    have une: "unat rx \<noteq> unat ry" using False by (simp add: word_unat_eq_iff)
    have fin: "finite (uf_roots ?n ps)" by (simp add: uf_roots_def)
    have "{unat rx, unat ry} \<subseteq> uf_roots ?n ps" using rx ry w(7,8) by (simp add: uf_roots_def)
    then have two: "2 \<le> unat (uf_sets u)" using card_mono [OF fin, of "{unat rx, unat ry}"] une p(4) by simp
    have "unat (rk ! unat rx) + 1 < 18446744073709551616"
      using p(5) [OF w(7)] two unat_lt_64 [of "uf_count u"] by linarith
    then have "unat (rk ! unat rx) + 1 < 2 ^ 64" by simp
    note link = uf_link_spec [OF p(3) w(7) rx(2) w(8) ry(2) False this]
    obtain r t qs rk' where
      l: "uf_link ps rk rx ry = Some (qs, rk')" "qs = ps[unat r := t]" "(r, t) \<in> {(rx, ry), (ry, rx)}"
      "forest ?n qs rk'" "\<And>i. i < ?n \<Longrightarrow> unat (rk' ! i) \<le> unat (rk ! i) + 1"
      by (rule link) (rule that)
    have rt: "unat r < ?n" "unat t < ?n" "unat (ps ! unat r) = unat r" "unat (ps ! unat t) = unat t" "unat t \<noteq> unat r"
      using l(3) w(7,8) rx ry une by auto
    let ?v = "w\<lparr>uf_parent := Some qs, uf_rank := Some rk', uf_sets := uf_sets w - 1\<rparr>"
    have run: "scl_unionfind_union (Some u) x y = Some (SCL_OK, Some ?v)"
      using in_range w(1,2) False p(1,2) l(1) by (simp add: scl_unionfind_union_def)
    have sets: "unat (uf_sets u - 1) = unat (uf_sets u) - 1" using two by (intro unat_pred) auto
    have "?n \<le> length ps" using p(3) by (simp add: forest_def)
    note lc = link_count [OF this rt(1,3,5)]
    have "card (uf_roots ?n qs) = unat (uf_sets u) - 1" using lc fin p(4) by (simp add: l(2))
    moreover have "unat (rk' ! i) + (unat (uf_sets u) - 1) \<le> ?n" if "i < ?n" for i
      using l(5) [OF that] p(5) [OF that] two by linarith
    ultimately have "uf_inv ?v" using l(4) w(4,5) sets by (simp add: uf_inv_def)
    moreover have "uf_rel ?v i j \<longleftrightarrow> uf_rel u i j \<or> uf_rel u i (unat x) \<and> uf_rel u (unat y) j \<or> uf_rel u i (unat y) \<and> uf_rel u (unat x) j" for i j
    proof (cases "i < ?n \<and> j < ?n")
      case True
      then obtain a b where ab: "root_of ps i a" "root_of ps j b" using root_exists [OF p(3)] by blast
      have qr: "root_of qs k s \<longleftrightarrow> s = (if c = unat r then unat t else c)" if "k < ?n" "root_of ps k c" for k s c
        using link_roots [OF p(3) rt(3,4,5,1) that(1), of s] root_unique [OF that(2)] that(2) unfolding l(2) by blast
      have v: "uf_rel ?v i j \<longleftrightarrow> (if a = unat r then unat t else a) = (if b = unat r then unat t else b)"
        using True qr [OF _ ab(1)] qr [OF _ ab(2)] w(4) by (simp add: uf_rel_def uf_same_def)
      have u: "uf_rel u i j \<longleftrightarrow> a = b" "uf_rel u i (unat x) \<longleftrightarrow> a = unat rx" "uf_rel u (unat y) j \<longleftrightarrow> unat ry = b"
        "uf_rel u i (unat y) \<longleftrightarrow> a = unat ry" "uf_rel u (unat x) j \<longleftrightarrow> unat rx = b"
        unfolding rel using True ab rx(1) ry(1) x y by (simp_all add: uf_same_iff)
      show ?thesis unfolding v u using l(3) une by auto
    next
      case False
      then show ?thesis using w(4) by (auto simp: uf_rel_def uf_same_def)
    qed
    ultimately show ?thesis using run w(4) sets w(5) same False by (intro exI [of _ ?v]) simp
  qed
qed

end
