(* ===== verification/Scl_Fold.thy ===== *)
theory Scl_Fold
  imports Scl_Slots
begin

text \<open>
  Combining the elements of a list with the callback the range-query structures take. The total of the
  empty list is missing, as in the code, whose first operand is copied instead of combined.
\<close>

fun join :: "('a \<Rightarrow> 'a \<Rightarrow> 'a) \<Rightarrow> 'a option \<Rightarrow> 'a option \<Rightarrow> 'a option" where
  "join f None y = y"
| "join f (Some x) None = Some x"
| "join f (Some x) (Some y) = Some (f x y)"

fun total :: "('a \<Rightarrow> 'a \<Rightarrow> 'a) \<Rightarrow> 'a list \<Rightarrow> 'a option" where
  "total f [] = None"
| "total f (x # xs) = join f (Some x) (total f xs)"

definition associative :: "('a \<Rightarrow> 'a \<Rightarrow> 'a) \<Rightarrow> bool" where
  "associative f \<longleftrightarrow> (\<forall>x y z. f (f x y) z = f x (f y z))"

definition idempotent :: "('a \<Rightarrow> 'a \<Rightarrow> 'a) \<Rightarrow> bool" where
  "idempotent f \<longleftrightarrow> (\<forall>x. f x x = x)"

lemma join_None [simp]: "join f x None = x"
  by (cases x) simp_all

lemma join_assoc: "associative f \<Longrightarrow> join f (join f x y) z = join f x (join f y z)"
  by (cases x; cases y; cases z) (simp_all add: associative_def)

lemma join_same: "idempotent f \<Longrightarrow> join f x x = x"
  by (cases x) (simp_all add: idempotent_def)

lemma total_single: "total f [x] = Some x"
  by simp

lemma total_Some: "xs \<noteq> [] \<Longrightarrow> \<exists>v. total f xs = Some v"
proof (cases xs)
  case (Cons x ys)
  then show ?thesis by (cases "total f ys") simp_all
qed simp

lemma total_append: "associative f \<Longrightarrow> total f (xs @ ys) = join f (total f xs) (total f ys)"
proof (induction xs)
  case (Cons x xs)
  then show ?case by (simp add: join_assoc [symmetric] del: join.simps)
qed simp

text \<open>Two overlapping stretches cover their union.\<close>

lemma total_overlap:
  assumes a: "associative f" and i: "idempotent f"
  shows "join f (total f (xs @ ys)) (total f (ys @ zs)) = total f (xs @ ys @ zs)"
proof -
  have "join f (join f (total f xs) (total f ys)) (join f (total f ys) (total f zs))
      = join f (total f xs) (join f (join f (total f ys) (total f ys)) (total f zs))"
    by (simp add: join_assoc [OF a])
  then show ?thesis by (simp add: total_append [OF a] join_same [OF i])
qed

text \<open>The accumulation loop: copy the first element, combine with the others.\<close>

fun accumulate :: "('a \<Rightarrow> 'a \<Rightarrow> 'a) \<Rightarrow> 'a list \<Rightarrow> 'a option \<Rightarrow> nat list \<Rightarrow> 'a option ub" where
  "accumulate f d acc [] = Some acc"
| "accumulate f d acc (i # is) = do {
     v \<leftarrow> at d i;
     accumulate f d (Some (case acc of None \<Rightarrow> v | Some a \<Rightarrow> f a v)) is
   }"

lemma accumulate_total:
  assumes "associative f"
  shows "(\<forall>i \<in> set is. i < length d) \<Longrightarrow> accumulate f d acc is = Some (join f acc (total f (map (nth d) is)))"
proof (induction "is" arbitrary: acc)
  case (Cons i "is")
  have "(case acc of None \<Rightarrow> d ! i | Some a \<Rightarrow> f a (d ! i)) = (case join f acc (Some (d ! i)) of Some v \<Rightarrow> v)"
    by (cases acc) simp_all
  moreover obtain v where "join f acc (Some (d ! i)) = Some v" by (cases acc) simp_all
  ultimately show ?case using Cons join_assoc [OF assms, of acc "Some (d ! i)" "total f (map (nth d) is)"] by simp
qed simp

lemma accumulate_append:
  "accumulate f d acc (is @ js) = do { acc' \<leftarrow> accumulate f d acc is; accumulate f d acc' js }"
  by (induction "is" arbitrary: acc) simp_all

end
