(* ===== verification/Scl_Segtree.thy ===== *)
theory Scl_Segtree
  imports Scl_Fold Scl_Buffer
begin

text \<open>
  The segment tree of \<open>libs/structures/segtree/scl_segtree.c\<close>: a complete binary tree in an array, the
  elements in the leaves, every inner node the combination of its children. The model works on whole
  elements; \<open>zero\<close> is the element whose bytes are all zero, which \<open>calloc\<close> leaves in the padding.

  A query collects the nodes that cover the range, at most 64 on each side, and combines them from left to
  right, so its result is the total of the elements in order even when the callback does not commute.
\<close>

record 'a scl_segtree_t =
  sg_data :: "'a list ptr"
  sg_n :: size_t
  sg_size :: size_t
  sg_element_size :: size_t
  sg_combine :: "'a \<Rightarrow> 'a \<Rightarrow> 'a"

section \<open>The code\<close>

text \<open>\<open>while (size < n)\<close>: doubling, with the overflow check; \<open>None\<close> is the error.\<close>

function seg_round :: "nat \<Rightarrow> nat \<Rightarrow> nat option" where
  "seg_round n sz =
     (if sz < n then if (2 ^ 64 - 1) div 2 < sz \<or> sz = 0 then None else seg_round n (sz * 2) else Some sz)"
  by pat_completeness auto
termination by (relation "measure (\<lambda>(n, sz). n - sz)") auto

declare seg_round.simps [simp del]

definition seg_combine :: "('a \<Rightarrow> 'a \<Rightarrow> 'a) \<Rightarrow> 'a list \<Rightarrow> nat \<Rightarrow> 'a list ub" where
  "seg_combine f d i = do {
     x \<leftarrow> at d (2 * i);
     y \<leftarrow> at d (2 * i + 1);
     put_at d i (f x y)
   }"

definition scl_segtree_init ::
    "'a \<Rightarrow> scl_allocator_t \<Rightarrow> 'a scl_segtree_t ptr \<Rightarrow> size_t \<Rightarrow> size_t \<Rightarrow> 'a list ptr \<Rightarrow> ('a \<Rightarrow> 'a \<Rightarrow> 'a) ptr
     \<Rightarrow> (scl_error_t \<times> 'a scl_segtree_t ptr) ub" where
  "scl_segtree_init zero a tree n es data combine =
     (case (tree, combine, data) of
        (Some t, Some f, Some src) \<Rightarrow>
          if n = 0 \<or> es = 0 then Some (SCL_ERR_INVALID_ARG, tree)
          else (case seg_round (unat n) 1 of
              None \<Rightarrow> Some (SCL_ERR_SIZE_OVERFLOW, tree)
            | Some sz \<Rightarrow>
                if (2 ^ 64 - 1) div 2 < sz then Some (SCL_ERR_SIZE_OVERFLOW, tree)
                else (case calloc_fn a 0 (of_nat (2 * sz)) es max_align of
                    None \<Rightarrow> Some (SCL_ERR_OUT_OF_MEMORY, Some (t\<lparr>sg_data := None\<rparr>))
                  | Some b \<Rightarrow>
                      if length b < 2 * sz * unat es then None
                      else do {
                        d \<leftarrow> for_up 0 (unat n) (\<lambda>i d. do { v \<leftarrow> at src i; put_at d (sz + i) v })
                               (replicate (2 * sz) zero);
                        d \<leftarrow> for_down (sz - 1) (\<lambda>i d. seg_combine f d i) d;
                        Some (SCL_OK, Some \<lparr>sg_data = Some d, sg_n = n, sg_size = of_nat sz,
                          sg_element_size = es, sg_combine = f\<rparr>)
                      }))
      | _ \<Rightarrow> Some (SCL_ERR_NULL_PTR, tree))"

definition scl_segtree_destroy :: "'a scl_segtree_t ptr \<Rightarrow> 'a scl_segtree_t ptr" where
  "scl_segtree_destroy tree =
     map_option (\<lambda>t. if sg_data t = None then t else t\<lparr>sg_data := None, sg_n := 0, sg_size := 0\<rparr>) tree"

text \<open>\<open>for (p >>= 1; p >= 1; p >>= 1)\<close>, entered with the halved index.\<close>

function seg_climb :: "('a \<Rightarrow> 'a \<Rightarrow> 'a) \<Rightarrow> 'a list \<Rightarrow> nat \<Rightarrow> 'a list ub" where
  "seg_climb f d p = (if 1 \<le> p then do { d \<leftarrow> seg_combine f d p; seg_climb f d (p div 2) } else Some d)"
  by pat_completeness auto
termination by (relation "measure (\<lambda>(f, d, p). p)") auto

declare seg_climb.simps [simp del]

definition scl_segtree_update ::
    "'a scl_segtree_t ptr \<Rightarrow> size_t \<Rightarrow> 'a ptr \<Rightarrow> (scl_error_t \<times> 'a scl_segtree_t ptr) ub" where
  "scl_segtree_update tree idx val =
     (case (tree, val) of
        (Some t, Some v) \<Rightarrow>
          if sg_n t \<le> idx then Some (SCL_ERR_INVALID_INDEX, tree)
          else do {
            let p = unat (sg_size t + idx);
            d \<leftarrow> sg_data t;
            d \<leftarrow> put_at d p v;
            d \<leftarrow> seg_climb (sg_combine t) d (p div 2);
            Some (SCL_OK, Some (t\<lparr>sg_data := Some d\<rparr>))
          }
      | _ \<Rightarrow> Some (SCL_ERR_NULL_PTR, tree))"

text \<open>The loop of a query fills the arrays \<open>left_idx\<close> and \<open>right_idx\<close> of 64 entries.\<close>

definition push_idx :: "nat list \<Rightarrow> nat \<Rightarrow> nat list ub" where
  "push_idx xs i = (if length xs < 64 then Some (xs @ [i]) else None)"

function seg_collect :: "nat \<Rightarrow> nat \<Rightarrow> nat list \<Rightarrow> nat list \<Rightarrow> (nat list \<times> nat list) ub" where
  "seg_collect l r left right =
     (if l < r then do {
        (l', left) \<leftarrow> (if odd l then do { left \<leftarrow> push_idx left l; Some (l + 1, left) } else Some (l, left));
        right \<leftarrow> (if odd r then push_idx right (r - 1) else Some right);
        seg_collect (l' div 2) ((if odd r then r - 1 else r) div 2) left right
      } else Some (left, right))"
  by pat_completeness auto
termination by (relation "measure (\<lambda>(l, r, left, right). r)") auto

declare seg_collect.simps [simp del]

definition scl_segtree_query ::
    "'a scl_segtree_t ptr \<Rightarrow> size_t \<Rightarrow> size_t \<Rightarrow> 'a ptr \<Rightarrow> (scl_error_t \<times> 'a ptr) ub" where
  "scl_segtree_query tree l r out =
     (case (tree, out) of
        (Some t, Some _) \<Rightarrow>
          if r \<le> l \<or> sg_n t < r then Some (SCL_ERR_INVALID_ARG, out)
          else do {
            (left, right) \<leftarrow> seg_collect (unat (l + sg_size t)) (unat (r + sg_size t)) [] [];
            d \<leftarrow> sg_data t;
            acc \<leftarrow> accumulate (sg_combine t) d None left;
            acc \<leftarrow> accumulate (sg_combine t) d acc (rev right);
            Some (case acc of None \<Rightarrow> (SCL_ERR_EMPTY, out) | Some v \<Rightarrow> (SCL_OK, Some v))
          }
      | _ \<Rightarrow> Some (SCL_ERR_NULL_PTR, out))"

section \<open>The tree\<close>

definition node_ok :: "('a \<Rightarrow> 'a \<Rightarrow> 'a) \<Rightarrow> 'a list \<Rightarrow> nat \<Rightarrow> bool" where
  "node_ok f d i \<longleftrightarrow> d ! i = f (d ! (2 * i)) (d ! (2 * i + 1))"

definition tree_ok :: "('a \<Rightarrow> 'a \<Rightarrow> 'a) \<Rightarrow> nat \<Rightarrow> 'a list \<Rightarrow> bool" where
  "tree_ok f sz d \<longleftrightarrow> (\<forall>i. 1 \<le> i \<and> i < sz \<longrightarrow> node_ok f d i)"

definition seg_inv :: "'a scl_segtree_t \<Rightarrow> bool" where
  "seg_inv t \<longleftrightarrow> (case sg_data t of None \<Rightarrow> False | Some d \<Rightarrow>
     0 < unat (sg_size t) \<and> unat (sg_n t) \<le> unat (sg_size t) \<and> length d = 2 * unat (sg_size t) \<and>
     2 * unat (sg_size t) < 2 ^ 63 \<and> tree_ok (sg_combine t) (unat (sg_size t)) d)"

definition seg_list :: "'a scl_segtree_t \<Rightarrow> 'a list" where
  "seg_list t = take (unat (sg_n t)) (drop (unat (sg_size t)) (the (sg_data t)))"

lemma seg_combine_ok:
  "2 * i + 1 < length d \<Longrightarrow> seg_combine f d i = Some (d[i := f (d ! (2 * i)) (d ! (2 * i + 1))])"
  by (simp add: seg_combine_def)

text \<open>Writing one node spoils at most its parent.\<close>

lemma node_ok_update: "node_ok f d j \<Longrightarrow> j \<noteq> i \<Longrightarrow> i div 2 \<noteq> j \<Longrightarrow> node_ok f (d[i := v]) j"
  by (auto simp: node_ok_def)

lemma node_ok_combined:
  "2 * i + 1 < length d \<Longrightarrow> 0 < i \<Longrightarrow> node_ok f (d[i := f (d ! (2 * i)) (d ! (2 * i + 1))]) i"
  by (simp add: node_ok_def)

subsection \<open>Rounding up\<close>

lemma seg_round_spec:
  "seg_round n (2 ^ k) = Some s \<Longrightarrow> \<exists>m. s = 2 ^ m \<and> n \<le> s \<and> (k < m \<longrightarrow> 2 ^ (m - 1) < n)"
proof (induction "n - 2 ^ k" arbitrary: k rule: less_induct)
  case less
  show ?case
  proof (cases "2 ^ k < n")
    case False
    then have "s = 2 ^ k" using less.prems by (subst (asm) seg_round.simps) simp
    then show ?thesis using False by (intro exI [of _ k]) simp
  next
    case True
    then have "seg_round n (2 ^ Suc k) = Some s" using less.prems
      by (subst (asm) seg_round.simps) (auto simp: mult.commute split: if_splits)
    moreover have "n - 2 ^ Suc k < n - 2 ^ k" using True by (intro diff_less_mono2) simp_all
    ultimately obtain m where m: "s = 2 ^ m" "n \<le> s" "Suc k < m \<longrightarrow> 2 ^ (m - 1) < n" using less.hyps by blast
    have "k < m \<longrightarrow> 2 ^ (m - 1) < n"
    proof
      assume "k < m"
      then have "m = Suc k \<or> Suc k < m" by linarith
      then show "2 ^ (m - 1) < n" using m(3) True by auto
    qed
    then show ?thesis using m by blast
  qed
qed

subsection \<open>Init\<close>

lemma seg_leaves:
  assumes n: "n \<le> sz" "n \<le> length src"
  shows "for_up 0 n (\<lambda>i d. do { v \<leftarrow> at src i; put_at d (sz + i) v }) (replicate (2 * sz) zero)
    = Some (replicate sz zero @ take n src @ replicate (sz - n) zero)"
proof -
  have "yields (for_up 0 n (\<lambda>i d. do { v \<leftarrow> at src i; put_at d (sz + i) v }) (replicate (2 * sz) zero))
      (\<lambda>d. d = replicate sz zero @ take n src @ replicate (sz - n) zero)"
  proof (rule for_up_inv [where I = "\<lambda>i d. d = replicate sz zero @ take i src @ replicate (sz - i) zero"])
    show "replicate (2 * sz) zero = replicate sz zero @ take 0 src @ replicate (sz - 0) zero"
      by (simp add: mult_2 replicate_add)
    fix i d assume i: "i < n" and d: "d = replicate sz zero @ take i src @ replicate (sz - i) zero"
    have "sz - i = Suc (sz - Suc i)" "i < length src" using i n by simp_all
    then have "d[sz + i := src ! i] = replicate sz zero @ take (Suc i) src @ replicate (sz - Suc i) zero"
      by (simp add: d list_update_append take_Suc_conv_app_nth)
    then show "yields (do { v \<leftarrow> at src i; put_at d (sz + i) v })
        (\<lambda>d. d = replicate sz zero @ take (Suc i) src @ replicate (sz - Suc i) zero)"
      using i n by (simp add: d)
  qed simp
  then show ?thesis by (auto simp: yields_iff)
qed

lemma seg_build:
  assumes len: "length d = 2 * sz" and sz: "0 < sz"
  shows "yields (for_down (sz - 1) (\<lambda>i d. seg_combine f d i) d) (\<lambda>d'.
    length d' = 2 * sz \<and> drop sz d' = drop sz d \<and> tree_ok f sz d')"
proof (rule for_down_rule [where I = "\<lambda>i d'. length d' = 2 * sz \<and> drop sz d' = drop sz d \<and>
      (\<forall>j. i < j \<and> j < sz \<longrightarrow> node_ok f d' j)"])
  fix i d'
  assume i: "0 < i" "i \<le> sz - 1" and inv: "length d' = 2 * sz \<and> drop sz d' = drop sz d \<and>
      (\<forall>j. i < j \<and> j < sz \<longrightarrow> node_ok f d' j)"
  let ?e = "d'[i := f (d' ! (2 * i)) (d' ! (2 * i + 1))]"
  have b: "2 * i + 1 < length d'" using i inv by linarith
  have "node_ok f ?e j" if "i - 1 < j" "j < sz" for j
  proof (cases "j = i")
    case True
    then show ?thesis using node_ok_combined [OF b i(1)] by simp
  next
    case False
    then have "i < j" using that by linarith
    then show ?thesis using inv that False by (intro node_ok_update) auto
  qed
  moreover have "drop sz ?e = drop sz d" using inv i by (simp add: drop_update_cancel)
  ultimately show "yields (seg_combine f d' i) (\<lambda>d'. length d' = 2 * sz \<and> drop sz d' = drop sz d \<and>
      (\<forall>j. i - 1 < j \<and> j < sz \<longrightarrow> node_ok f d' j))"
    using inv by (simp add: seg_combine_ok [OF b])
qed (use len in \<open>auto simp: tree_ok_def\<close>)

lemma seg_init_spec:
  assumes a: "scl_allocator a" and n: "n \<noteq> 0" "unat n \<le> length src" and es: "es \<noteq> 0"
  shows "\<exists>err t'. scl_segtree_init zero a (Some t) n es (Some src) (Some f) = Some (err, Some t') \<and>
    (if err = SCL_OK then seg_inv t' \<and> seg_list t' = take (unat n) src \<and> sg_combine t' = f \<and> sg_n t' = n else alloc_failed err)"
proof (cases "seg_round (unat n) 1")
  case None
  then show ?thesis using n es by (simp add: scl_segtree_init_def)
next
  case (Some sz)
  show ?thesis
  proof (cases "(2 ^ 64 - 1) div 2 < sz")
    case True
    then show ?thesis using n es Some by (simp add: scl_segtree_init_def)
  next
    case False
    obtain m where m: "sz = 2 ^ m" "unat n \<le> sz" using seg_round_spec [of "unat n" 0 sz] Some by auto
    have pos: "0 < sz" using m(1) by simp
    have u: "unat (of_nat (2 * sz) :: size_t) = 2 * sz" "unat (of_nat sz :: size_t) = sz"
      using False by (simp_all only: unat_of_nat, simp_all add: take_bit_nat_eq_self)
    show ?thesis
    proof (cases "calloc_fn a 0 (of_nat (2 * sz)) es max_align")
      case None
      then show ?thesis using n es Some False by (simp add: scl_segtree_init_def)
    next
      case alloc: (Some b)
      have b: "length b = 2 * sz * unat es" "2 * sz * unat es < 2 ^ 63"
        using scl_allocator.calloc_block [OF a alloc] u by (simp_all add: is_object_def)
      have "2 * sz * 1 \<le> 2 * sz * unat es" using es by (intro mult_le_mono2) (simp add: Suc_leI unat_pos_iff)
      then have lim: "2 * sz < 2 ^ 63" using b(2) by linarith
      let ?d = "replicate sz zero @ take (unat n) src @ replicate (sz - unat n) zero"
      have len: "length ?d = 2 * sz" using m(2) n(2) by simp
      from seg_build [OF len pos, of f] obtain d where d: "for_down (sz - 1) (\<lambda>i d. seg_combine f d i) ?d = Some d"
        "length d = 2 * sz" "drop sz d = drop sz ?d" "tree_ok f sz d" by (auto simp: yields_iff)
      let ?t = "\<lparr>sg_data = Some d, sg_n = n, sg_size = of_nat sz, sg_element_size = es, sg_combine = f\<rparr>"
      have "scl_segtree_init zero a (Some t) n es (Some src) (Some f) = Some (SCL_OK, Some ?t)"
        using n es Some False alloc b(1) d(1) seg_leaves [OF m(2) n(2), of zero] by (simp add: scl_segtree_init_def)
      moreover have "seg_inv ?t" using pos m(2) d lim u by (simp add: seg_inv_def)
      moreover have "seg_list ?t = take (unat n) src" using d(3) u n(2) by (simp add: seg_list_def)
      ultimately show ?thesis by (intro exI [of _ SCL_OK] exI [of _ ?t]) simp
    qed
  qed
qed

subsection \<open>Update\<close>

definition on_path :: "nat \<Rightarrow> nat \<Rightarrow> bool" where
  "on_path p i \<longleftrightarrow> (\<exists>k. i = p div 2 ^ k)"

lemma on_path_iff: "on_path p i \<longleftrightarrow> i = p \<or> on_path (p div 2) i"
proof
  assume "on_path p i"
  then obtain k where k: "i = p div 2 ^ k" by (auto simp: on_path_def)
  show "i = p \<or> on_path (p div 2) i"
  proof (cases k)
    case (Suc j)
    then have "i = p div 2 div 2 ^ j" using k by (simp add: div_mult2_eq)
    then show ?thesis by (auto simp: on_path_def)
  qed (use k in simp)
next
  assume "i = p \<or> on_path (p div 2) i"
  then show "on_path p i"
  proof
    assume "i = p"
    then show ?thesis by (auto simp: on_path_def intro: exI [of _ 0])
  next
    assume "on_path (p div 2) i"
    then obtain k where "i = p div 2 div 2 ^ k" by (auto simp: on_path_def)
    then have "i = p div 2 ^ Suc k" by (simp add: div_mult2_eq)
    then show ?thesis unfolding on_path_def by blast
  qed
qed

lemma seg_climb_spec:
  assumes "length d = 2 * sz"
  shows "p < sz \<Longrightarrow> length d = 2 * sz \<Longrightarrow> (\<forall>i. 1 \<le> i \<and> i < sz \<and> \<not> on_path p i \<longrightarrow> node_ok f d i) \<Longrightarrow>
    yields (seg_climb f d p) (\<lambda>d'. length d' = 2 * sz \<and> drop sz d' = drop sz d \<and> tree_ok f sz d')"
proof (induction p arbitrary: d rule: less_induct)
  case (less p)
  show ?case
  proof (cases "p = 0")
    case True
    then have "\<not> on_path p i" if "1 \<le> i" for i using that by (auto simp: on_path_def)
    then have "tree_ok f sz d" using less.prems(3) by (auto simp: tree_ok_def)
    then show ?thesis using True less.prems(2) by (subst seg_climb.simps) simp
  next
    case False
    let ?e = "d[p := f (d ! (2 * p)) (d ! (2 * p + 1))]"
    have b: "2 * p + 1 < length d" using less.prems by linarith
    have ok: "node_ok f ?e i" if "1 \<le> i" "i < sz" "\<not> on_path (p div 2) i" for i
    proof (cases "i = p")
      case True
      then show ?thesis using node_ok_combined [OF b] False by simp
    next
      case ne: False
      then have "node_ok f d i" using less.prems(3) that on_path_iff [of p i] by blast
      moreover have "p div 2 \<noteq> i" using that(3) on_path_iff [of "p div 2" i] by blast
      ultimately show ?thesis using ne by (intro node_ok_update)
    qed
    have "p div 2 < p" "p div 2 < sz" using False less.prems(1) by simp_all
    then have "yields (seg_climb f ?e (p div 2)) (\<lambda>d'. length d' = 2 * sz \<and> drop sz d' = drop sz ?e \<and> tree_ok f sz d')"
      using less.prems(2) ok by (intro less.IH) auto
    moreover have "drop sz ?e = drop sz d" using less.prems(1) by (simp add: drop_update_cancel)
    ultimately show ?thesis using False by (subst seg_climb.simps) (simp add: seg_combine_ok [OF b])
  qed
qed

lemma seg_update_spec:
  assumes inv: "seg_inv t" and idx: "idx < sg_n t"
  shows "\<exists>t'. scl_segtree_update (Some t) idx (Some v) = Some (SCL_OK, Some t') \<and> seg_inv t' \<and>
    seg_list t' = (seg_list t)[unat idx := v] \<and> sg_combine t' = sg_combine t \<and> sg_n t' = sg_n t"
proof -
  let ?n = "unat (sg_n t)" and ?s = "unat (sg_size t)" and ?f = "sg_combine t"
  obtain d where d: "sg_data t = Some d" "0 < ?s" "?n \<le> ?s" "length d = 2 * ?s" "2 * ?s < 2 ^ 63" "tree_ok ?f ?s d"
    using inv by (auto simp: seg_inv_def split: option.splits)
  have i: "unat idx < ?n" using idx by (simp add: word_less_unat)
  have p: "unat (sg_size t + idx) = ?s + unat idx" using i d(3,5) by (subst unat_add_bounded) simp_all
  let ?p = "?s + unat idx" and ?e = "d[?s + unat idx := v]"
  have "node_ok ?f ?e j" if "1 \<le> j" "j < ?s" "\<not> on_path (?p div 2) j" for j
  proof (rule node_ok_update)
    show "node_ok ?f d j" using d(6) that by (simp add: tree_ok_def)
    show "?p div 2 \<noteq> j" using that(3) on_path_iff [of "?p div 2" j] by blast
  qed (use that i in simp)
  moreover have "?p div 2 < ?s" using i d(3) by linarith
  moreover have le: "length ?e = 2 * ?s" using d(4) by simp
  ultimately have "yields (seg_climb ?f ?e (?p div 2)) (\<lambda>d'. length d' = 2 * ?s \<and> drop ?s d' = drop ?s ?e \<and> tree_ok ?f ?s d')"
    by (intro seg_climb_spec [OF le]) auto
  then obtain d' where d': "seg_climb ?f ?e (?p div 2) = Some d'" "length d' = 2 * ?s" "drop ?s d' = drop ?s ?e" "tree_ok ?f ?s d'"
    by (auto simp: yields_iff)
  have "seg_inv (t\<lparr>sg_data := Some d'\<rparr>)" using d d' by (simp add: seg_inv_def)
  moreover have "drop ?s ?e = (drop ?s d)[unat idx := v]" by (simp add: drop_update_swap)
  then have "seg_list (t\<lparr>sg_data := Some d'\<rparr>) = (seg_list t)[unat idx := v]"
    using d'(3) d(1) by (simp add: seg_list_def take_update_swap)
  moreover have "scl_segtree_update (Some t) idx (Some v) = Some (SCL_OK, Some (t\<lparr>sg_data := Some d'\<rparr>))"
    using idx d(1,3,4) i d'(1) by (simp add: scl_segtree_update_def p not_le)
  ultimately show ?thesis by simp
qed

subsection \<open>Query\<close>

lemma total_level:
  assumes assoc: "associative f" and ok: "tree_ok f sz d" and a: "1 \<le> a"
  shows "a \<le> b \<Longrightarrow> b \<le> sz \<Longrightarrow> total f (map (nth d) [2 * a..<2 * b]) = total f (map (nth d) [a..<b])"
proof (induction b rule: dec_induct)
  case (step b)
  have "[2 * a..<2 * Suc b] = [2 * a..<2 * b] @ [2 * b, 2 * b + 1]" "[a..<Suc b] = [a..<b] @ [b]"
    using step.hyps by (simp_all add: upt_Suc)
  moreover have "d ! b = f (d ! (2 * b)) (d ! (2 * b + 1))"
    using ok a step by (simp add: tree_ok_def node_ok_def)
  ultimately show ?case using step by (simp add: total_append [OF assoc])
qed simp

text \<open>The nodes collected cover the range in order, and there are few of them.\<close>

lemma seg_collect_spec:
  assumes assoc: "associative f" and ok: "tree_ok f sz d" and len: "length d = 2 * sz"
  shows "1 \<le> l \<Longrightarrow> l \<le> r \<Longrightarrow> r \<le> 2 * sz \<Longrightarrow> r < 2 ^ k \<Longrightarrow> length left + k \<le> 64 \<Longrightarrow> length right + k \<le> 64 \<Longrightarrow>
    (\<forall>i \<in> set left \<union> set right. i < length d) \<Longrightarrow>
    yields (seg_collect l r left right) (\<lambda>(left', right'). (\<forall>i \<in> set left' \<union> set right'. i < length d) \<and>
      total f (map (nth d) (left' @ rev right')) = total f (map (nth d) (left @ [l..<r] @ rev right)))"
proof (induction r arbitrary: l k left right rule: less_induct)
  case (less r)
  show ?case
  proof (cases "l < r")
    case False
    then show ?thesis using less.prems by (subst seg_collect.simps) simp
  next
    case True
    define l' where "l' = (if odd l then l + 1 else l)"
    define r' where "r' = (if odd r then r - 1 else r)"
    define left' where "left' = (if odd l then left @ [l] else left)"
    define right' where "right' = (if odd r then right @ [r - 1] else right)"
    have k: "0 < k" using less.prems(4) True by (cases k) auto
    have le: "l' \<le> r'" using True by (cases "odd l"; cases "odd r") (auto simp: l'_def r'_def elim!: oddE evenE)
    have ev: "even l'" "even r'" by (simp_all add: l'_def r'_def)
    then obtain a b where ab: "l' = 2 * a" "r' = 2 * b" by (auto elim!: evenE)
    have ab': "1 \<le> a" "a \<le> b" "b \<le> sz" "b < r"
      using ab le less.prems(1,3) True by (auto simp: l'_def r'_def split: if_splits)
    have "(2::nat) ^ k = 2 * 2 ^ (k - 1)" using k by (cases k) simp_all
    then have bk: "b < 2 ^ (k - 1)" using less.prems(4) ab(2) by (simp add: r'_def split: if_splits)
    have lens: "length left' + (k - 1) \<le> 64" "length right' + (k - 1) \<le> 64"
      using less.prems(5,6) k by (auto simp: left'_def right'_def)
    have inr: "\<forall>i \<in> set left' \<union> set right'. i < length d"
      using less.prems(3,7) True len by (auto simp: left'_def right'_def)
    have step: "seg_collect l r left right = seg_collect a b left' right'"
    proof -
      have "length left < 64" "length right < 64" using less.prems(5,6) k by linarith+
      moreover have "a = l' div 2" "b = r' div 2" using ab by simp_all
      ultimately show ?thesis using True unfolding l'_def r'_def left'_def right'_def
        by (subst seg_collect.simps) (cases "odd l"; cases "odd r"; simp add: push_idx_def)
    qed
    have "left @ [l..<r] @ rev right = left' @ [l'..<r'] @ rev right'"
    proof -
      have "[l..<r] = (if odd l then [l] else []) @ [l'..<r]" using True by (simp add: l'_def upt_conv_Cons)
      moreover have "[l'..<r] = [l'..<r'] @ (if odd r then [r - 1] else [])"
      proof (cases "odd r")
        case odd: True
        then have "r = Suc r'" using True by (auto simp: r'_def)
        then show ?thesis using odd le by (simp add: upt_Suc)
      qed (simp add: r'_def)
      ultimately show ?thesis by (simp add: left'_def right'_def)
    qed
    moreover have "total f (map (nth d) [l'..<r']) = total f (map (nth d) [a..<b])"
      unfolding ab by (rule total_level [OF assoc ok ab'(1-3)])
    ultimately have "total f (map (nth d) (left @ [l..<r] @ rev right)) = total f (map (nth d) (left' @ [a..<b] @ rev right'))"
      by (simp add: total_append [OF assoc])
    then show ?thesis
      unfolding step using less.IH [OF ab'(4,1,2) _ bk lens inr] ab'(3) by simp
  qed
qed

text \<open>A query returns the total of the elements \<open>l \<dots> r - 1\<close>.\<close>

lemma seg_query_spec:
  assumes inv: "seg_inv t" and assoc: "associative (sg_combine t)" and lr: "l < r" "r \<le> sg_n t"
  shows "\<exists>v. scl_segtree_query (Some t) l r (Some old) = Some (SCL_OK, Some v) \<and>
    total (sg_combine t) (take (unat r - unat l) (drop (unat l) (seg_list t))) = Some v"
proof -
  let ?n = "unat (sg_n t)" and ?s = "unat (sg_size t)" and ?f = "sg_combine t"
  obtain d where d: "sg_data t = Some d" "0 < ?s" "?n \<le> ?s" "length d = 2 * ?s" "2 * ?s < 2 ^ 63" "tree_ok ?f ?s d"
    using inv by (auto simp: seg_inv_def split: option.splits)
  have u: "unat l < unat r" "unat r \<le> ?n" using lr by (simp_all add: word_less_unat word_le_unat)
  have idx: "unat (l + sg_size t) = ?s + unat l" "unat (r + sg_size t) = ?s + unat r"
    using u d(3,5) by (subst unat_add_bounded; simp)+
  let ?L = "?s + unat l" and ?R = "?s + unat r"
  have "yields (seg_collect ?L ?R [] []) (\<lambda>(left', right'). (\<forall>i \<in> set left' \<union> set right'. i < length d) \<and>
      total ?f (map (nth d) (left' @ rev right')) = total ?f (map (nth d) ([] @ [?L..<?R] @ rev [])))"
    using d u by (intro seg_collect_spec [OF assoc d(6,4), where k = 63]) simp_all
  then obtain left right where c: "seg_collect ?L ?R [] [] = Some (left, right)"
    "\<forall>i \<in> set left \<union> set right. i < length d"
    "total ?f (map (nth d) (left @ rev right)) = total ?f (map (nth d) [?L..<?R])" by auto
  have "map (nth d) [?L..<?R] = take (unat r - unat l) (drop (unat l) (seg_list t))"
    using d(1,4) u d(3) by (intro nth_equalityI) (simp_all add: seg_list_def add.assoc)
  then have tot: "total ?f (map (nth d) (left @ rev right)) = total ?f (take (unat r - unat l) (drop (unat l) (seg_list t)))"
    using c(3) by simp
  have "take (unat r - unat l) (drop (unat l) (seg_list t)) \<noteq> []" using u d(1,3,4) by (simp add: seg_list_def)
  then obtain v where v: "total ?f (take (unat r - unat l) (drop (unat l) (seg_list t))) = Some v" using total_Some by blast
  have "accumulate ?f d None (left @ rev right) = Some (Some v)"
    using accumulate_total [OF assoc, of "left @ rev right" d None] c(2) tot v by auto
  then obtain acc where "accumulate ?f d None left = Some acc" "accumulate ?f d acc (rev right) = Some (Some v)"
    by (auto simp: accumulate_append bind_eq_Some_conv)
  then have "scl_segtree_query (Some t) l r (Some old) = Some (SCL_OK, Some v)"
    using lr d(1) c(1) by (simp add: scl_segtree_query_def idx not_le not_less)
  then show ?thesis using v by simp
qed

end
