(* ===== verification/Scl_Sparse.thy ===== *)
theory Scl_Sparse
  imports Scl_Fold Scl_Buffer
begin

text \<open>
  The sparse table of \<open>libs/structures/sparse/scl_sparse.c\<close>: level \<open>k\<close> holds the totals of all stretches of
  \<open>2 ^ k\<close> elements. A query combines two overlapping stretches, so the callback has to be associative and
  idempotent (minimum, maximum, gcd, bitwise and, or). The model works on whole elements; \<open>fresh\<close> stands
  for the arbitrary contents of memory from \<open>malloc\<close>.

  The loop that counts levels shifts \<open>1UL\<close> by 64 when \<open>n\<close> is at least \<open>2 ^ 63\<close>, before any allocation could
  refuse such a size; that is undefined, and the model has no result there. When an allocation fails the code
  frees what it got and leaves the freed pointers in the struct; the model has no addresses and clears them.
\<close>

record 'a scl_sparse_t =
  sp_levels :: "'a list list ptr"
  sp_scratch :: "'a ptr"
  sp_n :: size_t
  sp_levels_count :: nat
  sp_element_size :: size_t
  sp_combine :: "'a \<Rightarrow> 'a \<Rightarrow> 'a"

section \<open>The code\<close>

text \<open>\<open>while ((1UL << levels_count) <= n) levels_count++;\<close>\<close>

function sparse_levels :: "nat \<Rightarrow> nat \<Rightarrow> nat ub" where
  "sparse_levels n k = (if 64 \<le> k then None else if 2 ^ k \<le> n then sparse_levels n (k + 1) else Some k)"
  by pat_completeness auto
termination by (relation "measure (\<lambda>(n, k). 64 - k)") auto

declare sparse_levels.simps [simp del]

text \<open>The allocation of the levels, calls \<open>2, 3, \<dots>\<close> of the allocator; \<open>None\<close> when one fails.\<close>

fun alloc_levels :: "scl_allocator_t \<Rightarrow> 'a \<Rightarrow> nat \<Rightarrow> size_t \<Rightarrow> nat \<Rightarrow> nat \<Rightarrow> 'a list list option" where
  "alloc_levels a fresh call level_sz n 0 = Some []"
| "alloc_levels a fresh call level_sz n (Suc c) =
     (case malloc_fn a call level_sz max_align of
        None \<Rightarrow> None
      | Some _ \<Rightarrow> map_option (Cons (replicate n fresh)) (alloc_levels a fresh (Suc call) level_sz n c))"

definition sparse_fill :: "('a \<Rightarrow> 'a \<Rightarrow> 'a) \<Rightarrow> nat \<Rightarrow> nat \<Rightarrow> 'a list list \<Rightarrow> 'a list list ub" where
  "sparse_fill f n k levels = do {
     let len = 2 ^ k;
     let prev_len = 2 ^ (k - 1);
     prev \<leftarrow> at levels (k - 1);
     cur \<leftarrow> at levels k;
     cur \<leftarrow> for_up 0 (n + 1 - len) (\<lambda>i cur. do {
       x \<leftarrow> at prev i;
       y \<leftarrow> at prev (i + prev_len);
       put_at cur i (f x y)
     }) cur;
     put_at levels k cur
   }"

definition scl_sparse_init ::
    "'a \<Rightarrow> scl_allocator_t \<Rightarrow> 'a scl_sparse_t ptr \<Rightarrow> size_t \<Rightarrow> size_t \<Rightarrow> 'a list ptr \<Rightarrow> ('a \<Rightarrow> 'a \<Rightarrow> 'a) ptr
     \<Rightarrow> (scl_error_t \<times> 'a scl_sparse_t ptr) ub" where
  "scl_sparse_init fresh a st n es data combine =
     (case (st, combine, data) of
        (Some s, Some f, Some src) \<Rightarrow>
          if n = 0 \<or> es = 0 then Some (SCL_ERR_INVALID_ARG, st)
          else do {
            levels_count \<leftarrow> sparse_levels (unat n) 0;
            let freed = s\<lparr>sp_levels := None, sp_scratch := None\<rparr>;
            if calloc_fn a 0 (of_nat levels_count) 8 max_align = None \<or> malloc_fn a 1 es max_align = None
            then Some (SCL_ERR_OUT_OF_MEMORY, Some freed)
            else (case scl_mul_overflow n es of
                None \<Rightarrow> Some (SCL_ERR_SIZE_OVERFLOW, Some freed)
              | Some level_sz \<Rightarrow>
                  (case alloc_levels a fresh 2 level_sz (unat n) levels_count of
                     None \<Rightarrow> Some (SCL_ERR_OUT_OF_MEMORY, Some freed)
                   | Some levels \<Rightarrow> do {
                       base \<leftarrow> (if unat n \<le> length src then put_at levels 0 (take (unat n) src) else None);
                       levels \<leftarrow> for_up 1 levels_count (sparse_fill f (unat n)) base;
                       Some (SCL_OK, Some \<lparr>sp_levels = Some levels, sp_scratch = Some fresh, sp_n = n,
                         sp_levels_count = levels_count, sp_element_size = es, sp_combine = f\<rparr>)
                     }))
          }
      | _ \<Rightarrow> Some (SCL_ERR_NULL_PTR, st))"

definition scl_sparse_destroy :: "'a scl_sparse_t ptr \<Rightarrow> 'a scl_sparse_t ptr" where
  "scl_sparse_destroy st =
     map_option (\<lambda>s. s\<lparr>sp_levels := None, sp_scratch := None, sp_n := 0, sp_levels_count := 0\<rparr>) st"

text \<open>\<open>while ((1UL << (k + 1)) <= len) k++;\<close>\<close>

function sparse_log :: "nat \<Rightarrow> nat \<Rightarrow> nat ub" where
  "sparse_log len k = (if 63 \<le> k then None else if 2 ^ (k + 1) \<le> len then sparse_log len (k + 1) else Some k)"
  by pat_completeness auto
termination by (relation "measure (\<lambda>(len, k). 63 - k)") auto

declare sparse_log.simps [simp del]

text \<open>The result goes through \<open>scratch\<close>.\<close>

definition scl_sparse_query ::
    "'a scl_sparse_t ptr \<Rightarrow> size_t \<Rightarrow> size_t \<Rightarrow> 'a ptr \<Rightarrow> (scl_error_t \<times> 'a scl_sparse_t ptr \<times> 'a ptr) ub" where
  "scl_sparse_query st l r out =
     (case (st, out) of
        (Some s, Some _) \<Rightarrow>
          if r < l \<or> sp_n s \<le> r then Some (SCL_ERR_INVALID_ARG, st, out)
          else do {
            let len = unat (r - l + 1);
            k \<leftarrow> sparse_log len 0;
            levels \<leftarrow> sp_levels s;
            level \<leftarrow> at levels k;
            x \<leftarrow> at level (unat l);
            y \<leftarrow> at level (unat r + 1 - 2 ^ k);
            let v = sp_combine s x y;
            Some (SCL_OK, Some (s\<lparr>sp_scratch := Some v\<rparr>), Some v)
          }
      | _ \<Rightarrow> Some (SCL_ERR_NULL_PTR, st, out))"

section \<open>Counting levels\<close>

lemma sparse_levels_spec:
  "n < 2 ^ 63 \<Longrightarrow> 0 < n \<Longrightarrow> k < 64 \<Longrightarrow> (0 < k \<longrightarrow> 2 ^ (k - 1) \<le> n) \<Longrightarrow>
   \<exists>c. sparse_levels n k = Some c \<and> 0 < c \<and> 2 ^ (c - 1) \<le> n \<and> n < 2 ^ c"
proof (induction "64 - k" arbitrary: k)
  case 0
  then show ?case by simp
next
  case (Suc d)
  show ?case
  proof (cases "2 ^ k \<le> n")
    case False
    then have "0 < k" using Suc.prems(2) by (cases k) auto
    then show ?thesis using False Suc.prems by (subst sparse_levels.simps) auto
  next
    case True
    have "(2::nat) ^ k < 2 ^ 63" using True Suc.prems(1) by linarith
    then have "k < 63" by (metis one_less_numeral_iff power_less_imp_less_exp semiring_norm(76))
    then have "\<exists>c. sparse_levels n (k + 1) = Some c \<and> 0 < c \<and> 2 ^ (c - 1) \<le> n \<and> n < 2 ^ c"
      using Suc.hyps True Suc.prems by (intro Suc.hyps(1)) simp_all
    then show ?thesis using True Suc.prems(3) by (subst sparse_levels.simps) simp
  qed
qed

text \<open>The shift by 64.\<close>

lemma sparse_levels_shift: "2 ^ 63 \<le> n \<Longrightarrow> sparse_levels n k = None"
proof (induction "64 - k" arbitrary: k)
  case 0
  then show ?case by (subst sparse_levels.simps) simp
next
  case (Suc d)
  then have "k \<le> 63" by simp
  then have "(2::nat) ^ k \<le> 2 ^ 63" by (intro power_increasing) simp_all
  then have "2 ^ k \<le> n" using Suc.prems by linarith
  moreover have "sparse_levels n (k + 1) = None" using Suc by (intro Suc.hyps(1)) simp_all
  ultimately show ?case by (subst sparse_levels.simps) simp
qed

lemma sparse_log_spec:
  "k < 63 \<Longrightarrow> len < 2 ^ 63 \<Longrightarrow> 2 ^ k \<le> len \<Longrightarrow> \<exists>c. sparse_log len k = Some c \<and> 2 ^ c \<le> len \<and> len < 2 ^ Suc c"
proof (induction "63 - k" arbitrary: k)
  case 0
  then show ?case by simp
next
  case (Suc d)
  show ?case
  proof (cases "2 ^ (k + 1) \<le> len")
    case False
    then show ?thesis using Suc.prems by (subst sparse_log.simps) auto
  next
    case True
    have "(2::nat) ^ (k + 1) < 2 ^ 63" using True Suc.prems(2) by linarith
    then have "k + 1 < 63" by (metis one_less_numeral_iff power_less_imp_less_exp semiring_norm(76))
    then have "\<exists>c. sparse_log len (k + 1) = Some c \<and> 2 ^ c \<le> len \<and> len < 2 ^ Suc c"
      using Suc.hyps Suc.prems True by (intro Suc.hyps(1)) simp_all
    then show ?thesis using True Suc.prems(1) by (subst sparse_log.simps) simp
  qed
qed

section \<open>Filling the levels\<close>

definition stretch :: "'a list \<Rightarrow> nat \<Rightarrow> nat \<Rightarrow> 'a list" where
  "stretch xs i m = take m (drop i xs)"

lemma stretch_append: "stretch xs i (m + k) = stretch xs i m @ stretch xs (i + m) k"
  unfolding stretch_def take_add drop_drop by (simp only: add.commute)

definition level_ok :: "('a \<Rightarrow> 'a \<Rightarrow> 'a) \<Rightarrow> 'a list \<Rightarrow> nat \<Rightarrow> 'a list \<Rightarrow> bool" where
  "level_ok f xs k level \<longleftrightarrow> length level = length xs \<and>
     (\<forall>i. i + 2 ^ k \<le> length xs \<longrightarrow> total f (stretch xs i (2 ^ k)) = Some (level ! i))"

definition levels_ok :: "('a \<Rightarrow> 'a \<Rightarrow> 'a) \<Rightarrow> 'a list \<Rightarrow> nat \<Rightarrow> 'a list list \<Rightarrow> bool" where
  "levels_ok f xs c levels \<longleftrightarrow> (\<forall>k < c. level_ok f xs k (levels ! k))"

lemma alloc_levels_shape:
  "alloc_levels a fresh call level_sz n c = Some levels \<Longrightarrow> length levels = c \<and> (\<forall>l \<in> set levels. length l = n)"
  by (induction c arbitrary: call levels) (auto split: option.splits)

lemma level_zero: "level_ok f xs 0 xs"
  by (auto simp: level_ok_def stretch_def take_Suc_conv_app_nth)

lemma fill_level:
  assumes assoc: "associative f" and prev: "level_ok f xs (k - 1) prev" and k: "0 < k"
    and cur: "length cur = length xs" and n: "2 ^ k \<le> length xs"
  shows "yields (for_up 0 (length xs + 1 - 2 ^ k) (\<lambda>i cur. do {
       x \<leftarrow> at prev i; y \<leftarrow> at prev (i + 2 ^ (k - 1)); put_at cur i (f x y) }) cur) (level_ok f xs k)"
proof (rule for_up_rule [where I = "\<lambda>j level. length level = length xs \<and>
      (\<forall>i < j. total f (stretch xs i (2 ^ k)) = Some (level ! i))"])
  have half: "(2::nat) ^ k = 2 ^ (k - 1) + 2 ^ (k - 1)" using k by (cases k) simp_all
  fix j and level :: "'a list"
  assume j: "j < length xs + 1 - 2 ^ k" and inv: "length level = length xs \<and>
      (\<forall>i < j. total f (stretch xs i (2 ^ k)) = Some (level ! i))"
  have le: "j + 2 ^ (k - 1) + 2 ^ (k - 1) \<le> length xs" using j n half by linarith
  have p: "length prev = length xs" "total f (stretch xs j (2 ^ (k - 1))) = Some (prev ! j)"
    "total f (stretch xs (j + 2 ^ (k - 1)) (2 ^ (k - 1))) = Some (prev ! (j + 2 ^ (k - 1)))"
    using prev le by (simp_all add: level_ok_def)
  have tot: "total f (stretch xs j (2 ^ k)) = Some (f (prev ! j) (prev ! (j + 2 ^ (k - 1))))"
    unfolding half stretch_append using p(2,3) by (simp add: total_append [OF assoc])
  have "0 < (2::nat) ^ (k - 1)" by simp
  then have "j < length xs" "j + 2 ^ (k - 1) < length xs" using le by linarith+
  then show "yields (do { x \<leftarrow> at prev j; y \<leftarrow> at prev (j + 2 ^ (k - 1)); put_at level j (f x y) })
      (\<lambda>level. length level = length xs \<and> (\<forall>i < Suc j. total f (stretch xs i (2 ^ k)) = Some (level ! i)))"
    using inv p(1) tot by (simp add: less_Suc_eq)
next
  fix level :: "'a list"
  assume "length level = length xs \<and> (\<forall>i < length xs + 1 - 2 ^ k. total f (stretch xs i (2 ^ k)) = Some (level ! i))"
  then show "level_ok f xs k level" by (simp add: level_ok_def)
qed (use cur in simp_all)

lemma sparse_fill_spec:
  assumes assoc: "associative f" and inv: "levels_ok f xs k levels" and k: "0 < k" "k < length levels"
    and len: "\<forall>l \<in> set levels. length l = length xs" and n: "2 ^ k \<le> length xs"
  shows "yields (sparse_fill f (length xs) k levels) (\<lambda>levels'. levels_ok f xs (Suc k) levels' \<and>
    length levels' = length levels \<and> (\<forall>l \<in> set levels'. length l = length xs))"
proof -
  have prev: "level_ok f xs (k - 1) (levels ! (k - 1))" using inv k(1) by (simp add: levels_ok_def)
  have cur: "length (levels ! k) = length xs" using len k(2) by simp
  from fill_level [OF assoc prev k(1) cur n] obtain level where level:
    "for_up 0 (length xs + 1 - 2 ^ k) (\<lambda>i cur. do {
       x \<leftarrow> at (levels ! (k - 1)) i; y \<leftarrow> at (levels ! (k - 1)) (i + 2 ^ (k - 1)); put_at cur i (f x y) }) (levels ! k) = Some level"
    "level_ok f xs k level" unfolding yields_iff by blast
  have "levels_ok f xs (Suc k) (levels[k := level])"
    using inv level(2) k(2) by (auto simp: levels_ok_def nth_list_update less_Suc_eq)
  moreover have "\<forall>l \<in> set (levels[k := level]). length l = length xs"
    using len level(2) set_update_subset_insert by (fastforce simp: level_ok_def)
  ultimately show ?thesis using k level(1) by (simp add: sparse_fill_def)
qed

section \<open>The contract\<close>

definition sparse_inv :: "'a list \<Rightarrow> 'a scl_sparse_t \<Rightarrow> bool" where
  "sparse_inv xs s \<longleftrightarrow> length xs = unat (sp_n s) \<and> xs \<noteq> [] \<and> length xs < 2 ^ 63 \<and> length xs < 2 ^ sp_levels_count s \<and>
     (case sp_levels s of None \<Rightarrow> False
      | Some levels \<Rightarrow> length levels = sp_levels_count s \<and> levels_ok (sp_combine s) xs (sp_levels_count s) levels)"

lemma sparse_init_spec:
  assumes a: "scl_allocator a" and assoc: "associative f" and n: "n \<noteq> 0" "unat n < 2 ^ 63" "unat n \<le> length src" and es: "es \<noteq> 0"
  shows "\<exists>err s'. scl_sparse_init fresh a (Some s) n es (Some src) (Some f) = Some (err, Some s') \<and>
    (if err = SCL_OK then sparse_inv (take (unat n) src) s' \<and> sp_n s' = n \<and> sp_combine s' = f else alloc_failed err)"
proof -
  let ?xs = "take (unat n) src"
  have xs: "length ?xs = unat n" "0 < length ?xs" using n by (simp_all add: unat_pos_iff)
  obtain c where c: "sparse_levels (unat n) 0 = Some c" "0 < c" "2 ^ (c - 1) \<le> unat n" "unat n < 2 ^ c"
    using sparse_levels_spec [of "unat n" 0] n by (auto simp: unat_pos_iff)
  show ?thesis
  proof (cases "calloc_fn a 0 (of_nat c) 8 max_align = None \<or> malloc_fn a 1 es max_align = None")
    case True
    then show ?thesis using n es c(1) by (simp add: scl_sparse_init_def Let_def)
  next
    case ok: False
    show ?thesis
    proof (cases "scl_mul_overflow n es")
      case None
      then show ?thesis using n es c(1) ok by (simp add: scl_sparse_init_def Let_def)
    next
      case sz: (Some level_sz)
      show ?thesis
      proof (cases "alloc_levels a fresh 2 level_sz (unat n) c")
        case None
        then show ?thesis using n es c(1) ok sz by (simp add: scl_sparse_init_def Let_def)
      next
        case (Some levels)
        then have l: "length levels = c" "\<forall>l \<in> set levels. length l = length ?xs"
          using alloc_levels_shape [OF Some] xs(1) by auto
        let ?base = "levels[0 := ?xs]"
        have "yields (for_up 1 c (sparse_fill f (length ?xs)) ?base) (\<lambda>ls. levels_ok f ?xs c ls \<and> length ls = c)"
        proof (rule for_up_rule [where I = "\<lambda>k ls. levels_ok f ?xs k ls \<and> length ls = c \<and> (\<forall>l \<in> set ls. length l = length ?xs)"])
          show "levels_ok f ?xs 1 ?base \<and> length ?base = c \<and> (\<forall>l \<in> set ?base. length l = length ?xs)"
            using l c(2) level_zero set_update_subset_insert [of levels 0 ?xs] by (auto simp: levels_ok_def)
          fix k ls
          assume k: "1 \<le> k" "k < c" and inv: "levels_ok f ?xs k ls \<and> length ls = c \<and> (\<forall>l \<in> set ls. length l = length ?xs)"
          have "(2::nat) ^ k \<le> 2 ^ (c - 1)" using k by (intro power_increasing) simp_all
          then have "2 ^ k \<le> length ?xs" using c(3) xs(1) by linarith
          then show "yields (sparse_fill f (length ?xs) k ls)
              (\<lambda>ls. levels_ok f ?xs (Suc k) ls \<and> length ls = c \<and> (\<forall>l \<in> set ls. length l = length ?xs))"
            using sparse_fill_spec [OF assoc, of ?xs k ls] inv k by simp
        qed (use c(2) in auto)
        then obtain ls where ls: "for_up 1 c (sparse_fill f (unat n)) ?base = Some ls" "levels_ok f ?xs c ls" "length ls = c"
          unfolding xs(1) yields_iff by blast
        let ?s = "\<lparr>sp_levels = Some ls, sp_scratch = Some fresh, sp_n = n, sp_levels_count = c,
          sp_element_size = es, sp_combine = f\<rparr>"
        have "scl_sparse_init fresh a (Some s) n es (Some src) (Some f) = Some (SCL_OK, Some ?s)"
          using n es c(1,2) ok sz Some l(1) ls(1) by (simp add: scl_sparse_init_def Let_def)
        moreover have "sparse_inv ?xs ?s" using xs n(2) c(4) ls by (auto simp: sparse_inv_def)
        ultimately show ?thesis by (intro exI [of _ SCL_OK] exI [of _ ?s]) simp
      qed
    qed
  qed
qed

text \<open>Too large a count is undefined behaviour, not an error.\<close>

lemma sparse_init_shift:
  "2 ^ 63 \<le> unat n \<Longrightarrow> es \<noteq> 0 \<Longrightarrow> scl_sparse_init fresh a (Some s) n es (Some src) (Some f) = None"
proof -
  assume n: "2 ^ 63 \<le> unat n" and es: "es \<noteq> 0"
  then have "n \<noteq> 0" by auto
  then show ?thesis using es sparse_levels_shift [OF n, of 0] by (simp add: scl_sparse_init_def)
qed

lemma sparse_query_spec:
  assumes inv: "sparse_inv xs s" and assoc: "associative (sp_combine s)" and idem: "idempotent (sp_combine s)"
    and lr: "l \<le> r" "r < sp_n s"
  shows "\<exists>v s'. scl_sparse_query (Some s) l r (Some old) = Some (SCL_OK, Some s', Some v) \<and> sparse_inv xs s' \<and>
    total (sp_combine s) (stretch xs (unat l) (unat r + 1 - unat l)) = Some v"
proof -
  let ?f = "sp_combine s" and ?l = "unat l" and ?r = "unat r"
  obtain levels where s: "length xs = unat (sp_n s)" "xs \<noteq> []" "length xs < 2 ^ 63" "length xs < 2 ^ sp_levels_count s"
    "sp_levels s = Some levels" "length levels = sp_levels_count s" "levels_ok ?f xs (sp_levels_count s) levels"
    using inv by (auto simp: sparse_inv_def split: option.splits)
  have u: "?l \<le> ?r" "?r < length xs" using lr s(1) by (simp_all add: word_le_unat word_less_unat)
  have d: "unat (r - l) = ?r - ?l" using lr(1) by (rule unat_diff_le)
  then have len: "unat (r - l + 1) = ?r + 1 - ?l" using u s(3) by (subst unat_add_bounded) simp_all
  let ?m = "?r + 1 - ?l"
  have "\<exists>k. sparse_log ?m 0 = Some k \<and> 2 ^ k \<le> ?m \<and> ?m < 2 ^ Suc k"
    by (rule sparse_log_spec) (use u s(3) in simp_all)
  then obtain k where k: "sparse_log ?m 0 = Some k" "2 ^ k \<le> ?m" "?m < 2 ^ Suc k" by blast
  have "(2::nat) ^ k < 2 ^ sp_levels_count s" using k(2) u s(4) by linarith
  then have kc: "k < sp_levels_count s" by (metis one_less_numeral_iff power_less_imp_less_exp semiring_norm(76))
  let ?level = "levels ! k"
  have lv: "length ?level = length xs" "\<And>i. i + 2 ^ k \<le> length xs \<Longrightarrow> total ?f (stretch xs i (2 ^ k)) = Some (?level ! i)"
    using s(7) kc by (auto simp: levels_ok_def level_ok_def)
  let ?j = "?r + 1 - 2 ^ k"
  have j: "?j + 2 ^ k = ?r + 1" "?l \<le> ?j" "?j \<le> ?l + 2 ^ k" using k(2,3) u by (simp_all add: le_diff_conv2)
  have t: "total ?f (stretch xs ?l (2 ^ k)) = Some (?level ! ?l)" "total ?f (stretch xs ?j (2 ^ k)) = Some (?level ! ?j)"
    using lv(2) [of ?l] lv(2) [of ?j] j u k(2) by simp_all
  define p where "p = ?j - ?l"
  define q where "q = ?l + 2 ^ k - ?j"
  have pq: "2 ^ k = p + q" "?j = ?l + p" "?m = p + (q + p)" using j k(2) u by (simp_all add: p_def q_def)
  have pk: "\<And>i. stretch xs i (2 ^ k) = stretch xs i p @ stretch xs (i + p) q"
    unfolding pq(1) by (rule stretch_append)
  have qk: "\<And>i. stretch xs i (2 ^ k) = stretch xs i q @ stretch xs (i + q) p"
    unfolding pq(1) add.commute [of p q] by (rule stretch_append)
  have "stretch xs ?l (2 ^ k) = stretch xs ?l p @ stretch xs ?j q" using pk [of ?l] by (simp only: pq(2))
  moreover have "stretch xs ?j (2 ^ k) = stretch xs ?j q @ stretch xs (?j + q) p" by (rule qk)
  moreover have "stretch xs ?l ?m = stretch xs ?l p @ stretch xs ?j q @ stretch xs (?j + q) p"
    by (simp only: pq(3) stretch_append pq(2))
  ultimately have "total ?f (stretch xs ?l ?m) = join ?f (total ?f (stretch xs ?l (2 ^ k))) (total ?f (stretch xs ?j (2 ^ k)))"
    by (simp only: total_overlap [OF assoc idem])
  then have tot: "total ?f (stretch xs ?l ?m) = Some (?f (?level ! ?l) (?level ! ?j))" using t by simp
  have "0 < (2::nat) ^ k" by simp
  then have "?j < length xs" using j(1) u by linarith
  then have "scl_sparse_query (Some s) l r (Some old)
      = Some (SCL_OK, Some (s\<lparr>sp_scratch := Some (?f (?level ! ?l) (?level ! ?j))\<rparr>), Some (?f (?level ! ?l) (?level ! ?j)))"
    using lr k(1) s(5,6) kc lv(1) u len by (simp add: scl_sparse_query_def Let_def not_le not_less)
  moreover have "sparse_inv xs (s\<lparr>sp_scratch := Some (?f (?level ! ?l) (?level ! ?j))\<rparr>)"
    using inv s(5) by (simp add: sparse_inv_def)
  ultimately show ?thesis using tot by blast
qed

end
