(* ===== verification/Scl_Fenwick.thy ===== *)
theory Scl_Fenwick
  imports Scl_Fold Scl_Buffer
begin

text \<open>
  The Fenwick tree of \<open>libs/structures/fenwick/scl_fenwick.c\<close>: node \<open>i\<close> holds the total of the
  \<open>i & -i\<close> elements that end at position \<open>i\<close>, counted from one. The model works on whole elements;
  \<open>zero\<close> is the element of zero bytes \<open>calloc\<close> leaves in the unused node 0, and \<open>fresh\<close> the contents of
  the scratch element. The tree needs \<open>add\<close> to be associative and commutative, and \<open>sub\<close> to undo it.
\<close>

record 'a scl_fenwick_t =
  fw_tree :: "'a list ptr"
  fw_scratch :: "'a ptr"
  fw_n :: size_t
  fw_element_size :: size_t
  fw_add :: "'a \<Rightarrow> 'a \<Rightarrow> 'a"
  fw_sub :: "'a \<Rightarrow> 'a \<Rightarrow> 'a"

section \<open>The code\<close>

text \<open>\<open>i & -i\<close>\<close>

definition low_bit :: "size_t \<Rightarrow> size_t" where
  "low_bit i = i AND - i"

text \<open>\<open>add(tree[j], tree[j], tree[i])\<close>\<close>

definition fenwick_add_to :: "('a \<Rightarrow> 'a \<Rightarrow> 'a) \<Rightarrow> 'a list \<Rightarrow> size_t \<Rightarrow> 'a \<Rightarrow> 'a list ub" where
  "fenwick_add_to f d j v = do { x \<leftarrow> at d (unat j); put_at d (unat j) (f x v) }"

definition fenwick_push :: "('a \<Rightarrow> 'a \<Rightarrow> 'a) \<Rightarrow> size_t \<Rightarrow> nat \<Rightarrow> 'a list \<Rightarrow> 'a list ub" where
  "fenwick_push f n i d =
     (let j = of_nat i + low_bit (of_nat i)
      in if j \<le> n then do { v \<leftarrow> at d i; fenwick_add_to f d j v } else Some d)"

definition scl_fenwick_init ::
    "'a \<Rightarrow> 'a \<Rightarrow> scl_allocator_t \<Rightarrow> 'a scl_fenwick_t ptr \<Rightarrow> size_t \<Rightarrow> size_t \<Rightarrow> 'a list ptr \<Rightarrow> ('a \<Rightarrow> 'a \<Rightarrow> 'a) ptr
     \<Rightarrow> ('a \<Rightarrow> 'a \<Rightarrow> 'a) ptr \<Rightarrow> (scl_error_t \<times> 'a scl_fenwick_t ptr) ub" where
  "scl_fenwick_init zero fresh a fw n es data add sub =
     (case (fw, add, sub, data) of
        (Some s, Some f, Some g, Some src) \<Rightarrow>
          if n = 0 \<or> es = 0 then Some (SCL_ERR_INVALID_ARG, fw)
          else if n = SIZE_MAX then Some (SCL_ERR_SIZE_OVERFLOW, fw)
          else if calloc_fn a 0 (n + 1) es max_align = None \<or> malloc_fn a 1 es max_align = None
          then Some (SCL_ERR_OUT_OF_MEMORY, Some (s\<lparr>fw_tree := None, fw_scratch := None\<rparr>))
          else do {
            d \<leftarrow> for_up 1 (unat n + 1) (\<lambda>i d. do { v \<leftarrow> at src (i - 1); put_at d i v }) (replicate (unat n + 1) zero);
            d \<leftarrow> for_up 1 (unat n + 1) (fenwick_push f n) d;
            Some (SCL_OK, Some \<lparr>fw_tree = Some d, fw_scratch = Some fresh, fw_n = n, fw_element_size = es,
              fw_add = f, fw_sub = g\<rparr>)
          }
      | _ \<Rightarrow> Some (SCL_ERR_NULL_PTR, fw))"

definition scl_fenwick_destroy :: "'a scl_fenwick_t ptr \<Rightarrow> 'a scl_fenwick_t ptr" where
  "scl_fenwick_destroy fw = map_option (\<lambda>s. s\<lparr>fw_tree := None, fw_scratch := None, fw_n := 0\<rparr>) fw"

text \<open>\<open>while (i <= n) { add; i += i & -i; }\<close>; the sum must not wrap for the loop to end.\<close>

partial_function (option) fenwick_up :: "('a \<Rightarrow> 'a \<Rightarrow> 'a) \<Rightarrow> size_t \<Rightarrow> 'a \<Rightarrow> size_t \<Rightarrow> 'a list \<Rightarrow> 'a list option" where
  "fenwick_up f n delta i d =
     (if i \<le> n then do { d \<leftarrow> fenwick_add_to f d i delta; fenwick_up f n delta (i + low_bit i) d } else Some d)"

definition scl_fenwick_update ::
    "'a scl_fenwick_t ptr \<Rightarrow> size_t \<Rightarrow> 'a ptr \<Rightarrow> (scl_error_t \<times> 'a scl_fenwick_t ptr) ub" where
  "scl_fenwick_update fw idx delta =
     (case (fw, delta) of
        (Some s, Some v) \<Rightarrow>
          if fw_n s \<le> idx then Some (SCL_ERR_INVALID_INDEX, fw)
          else do {
            d \<leftarrow> fw_tree s;
            d \<leftarrow> fenwick_up (fw_add s) (fw_n s) v (idx + 1) d;
            Some (SCL_OK, Some (s\<lparr>fw_tree := Some d\<rparr>))
          }
      | _ \<Rightarrow> Some (SCL_ERR_NULL_PTR, fw))"

partial_function (option) fenwick_down :: "('a \<Rightarrow> 'a \<Rightarrow> 'a) \<Rightarrow> 'a list \<Rightarrow> size_t \<Rightarrow> 'a option \<Rightarrow> 'a option option" where
  "fenwick_down f d i acc =
     (if 0 < i then do {
        v \<leftarrow> at d (unat i);
        fenwick_down f d (i - low_bit i) (Some (case acc of None \<Rightarrow> v | Some x \<Rightarrow> f x v))
      } else Some acc)"

definition scl_fenwick_prefix :: "'a scl_fenwick_t ptr \<Rightarrow> size_t \<Rightarrow> 'a ptr \<Rightarrow> (scl_error_t \<times> 'a ptr) ub" where
  "scl_fenwick_prefix fw idx out =
     (case (fw, out) of
        (Some s, Some _) \<Rightarrow>
          if fw_n s \<le> idx then Some (SCL_ERR_INVALID_INDEX, out)
          else do {
            d \<leftarrow> fw_tree s;
            acc \<leftarrow> fenwick_down (fw_add s) d (idx + 1) None;
            Some (case acc of None \<Rightarrow> (SCL_ERR_EMPTY, out) | Some v \<Rightarrow> (SCL_OK, Some v))
          }
      | _ \<Rightarrow> Some (SCL_ERR_NULL_PTR, out))"

definition scl_fenwick_range_query ::
    "'a scl_fenwick_t ptr \<Rightarrow> size_t \<Rightarrow> size_t \<Rightarrow> 'a ptr \<Rightarrow> (scl_error_t \<times> 'a scl_fenwick_t ptr \<times> 'a ptr) ub" where
  "scl_fenwick_range_query fw l r out =
     (case (fw, out) of
        (Some s, Some _) \<Rightarrow>
          if r < l \<or> fw_n s \<le> r then Some (SCL_ERR_INVALID_ARG, fw, out)
          else do {
            (err, out) \<leftarrow> scl_fenwick_prefix fw r out;
            if err \<noteq> SCL_OK then Some (err, fw, out)
            else if 0 < l then do {
              (err, scratch) \<leftarrow> scl_fenwick_prefix fw (l - 1) (fw_scratch s);
              let fw' = Some (s\<lparr>fw_scratch := scratch\<rparr>);
              if err \<noteq> SCL_OK then Some (err, fw', out)
              else do {
                x \<leftarrow> out;
                y \<leftarrow> scratch;
                Some (SCL_OK, fw', Some (fw_sub s x y))
              }
            } else Some (SCL_OK, fw, out)
          }
      | _ \<Rightarrow> Some (SCL_ERR_NULL_PTR, fw, out))"

section \<open>The lowest bit\<close>

fun lsb :: "nat \<Rightarrow> nat" where
  "lsb n = (if n = 0 then 0 else if odd n then 1 else 2 * lsb (n div 2))"

declare lsb.simps [simp del]

lemma lsb_0 [simp]: "lsb 0 = 0"
  by (subst lsb.simps) simp

lemma lsb_odd [simp]: "odd n \<Longrightarrow> lsb n = 1"
  by (subst lsb.simps) (auto simp: odd_pos)

lemma lsb_double [simp]: "lsb (2 * n) = 2 * lsb n"
  by (cases "n = 0") (simp, subst lsb.simps, simp)

lemma lsb_pos: "0 < n \<Longrightarrow> 0 < lsb n \<and> lsb n \<le> n"
proof (induction n rule: lsb.induct)
  case (1 n)
  then show ?case
  proof (cases "odd n")
    case False
    then obtain m where m: "n = 2 * m" by (auto elim: evenE)
    then show ?thesis using 1 False by simp
  qed auto
qed

text \<open>The nodes: where the parent of a node is, and how their ranges lie.\<close>

lemma lsb_parent: "0 < i \<Longrightarrow> 2 * lsb i \<le> lsb (i + lsb i)"
proof (induction i rule: lsb.induct)
  case (1 i)
  show ?case
  proof (cases "odd i")
    case True
    then obtain m where m: "i = 2 * m + 1" by (elim oddE) simp
    have e: "i + lsb i = 2 * (m + 1)" using True m by simp
    show ?thesis unfolding e lsb_double using True lsb_pos [of "m + 1"] by simp
  next
    case False
    then obtain m where m: "i = 2 * m" by (auto elim: evenE)
    have e: "2 * m + 2 * lsb m = 2 * (m + lsb m)" by simp
    have "2 * lsb m \<le> lsb (m + lsb m)" using 1 False m by simp
    then show ?thesis unfolding m lsb_double e by simp
  qed
qed

lemma lsb_between: "i < j \<Longrightarrow> j < i + lsb i \<Longrightarrow> i \<le> j - lsb j"
proof (induction i arbitrary: j rule: lsb.induct)
  case (1 i)
  show ?case
  proof (cases "i = 0 \<or> odd i")
    case True
    then show ?thesis using "1.prems" by auto
  next
    case False
    then obtain m where m: "i = 2 * m" by (auto elim: evenE)
    show ?thesis
    proof (cases "odd j")
      case True
      then show ?thesis using "1.prems" by simp
    next
      case even: False
      then obtain k where k: "j = 2 * k" by (auto elim: evenE)
      have "m \<le> k - lsb k" using "1.IH" [of k] "1.prems" False m k by simp
      then show ?thesis unfolding m k lsb_double by simp
    qed
  qed
qed

lemma lsb_sibling:
  "0 < c \<Longrightarrow> c - lsb c = (c + lsb c) - lsb (c + lsb c) \<or> (c - lsb c) + lsb (c - lsb c) = c + lsb c"
proof (induction c rule: lsb.induct)
  case (1 c)
  show ?case
  proof (cases "odd c")
    case True
    then obtain m where m: "c = 2 * m + 1" by (elim oddE) simp
    have e: "c - lsb c = 2 * m" "c + lsb c = 2 * (m + 1)" using True m by simp_all
    show ?thesis
    proof (cases "odd m")
      case True
      then show ?thesis unfolding e lsb_double by simp
    next
      case False
      then show ?thesis unfolding e lsb_double by simp
    qed
  next
    case False
    then obtain m where m: "c = 2 * m" by (auto elim: evenE)
    have e: "2 * m - 2 * lsb m = 2 * (m - lsb m)" "2 * m + 2 * lsb m = 2 * (m + lsb m)" by simp_all
    have "m - lsb m = (m + lsb m) - lsb (m + lsb m) \<or> (m - lsb m) + lsb (m - lsb m) = m + lsb m"
      using 1 False m by simp
    moreover have "2 * (m + lsb m) - 2 * lsb (m + lsb m) = 2 * ((m + lsb m) - lsb (m + lsb m))"
      "2 * (m - lsb m) + 2 * lsb (m - lsb m) = 2 * ((m - lsb m) + lsb (m - lsb m))" by simp_all
    ultimately show ?thesis unfolding m lsb_double e by presburger
  qed
qed

text \<open>What the word computes.\<close>

lemma and_minus_int: "0 \<le> x \<Longrightarrow> x AND - x = int (lsb (nat x))"
proof (induction "nat x" arbitrary: x rule: less_induct)
  case less
  show ?case
  proof (cases "x = 0")
    case False
    show ?thesis
    proof (cases "odd x")
      case True
      then obtain m where m: "x = 2 * m + 1" by (elim oddE) simp
      then have "(- x) div 2 = NOT m" by (simp add: not_int_def)
      moreover have "x div 2 = m" using m by simp
      ultimately have "x AND - x = 1" using True by (subst and_rec) simp
      moreover have "odd (nat x)" using True less.prems by (simp add: even_nat_iff)
      ultimately show ?thesis by simp
    next
      case even: False
      then obtain m where m: "x = 2 * m" by (auto elim: evenE)
      have "m AND - m = int (lsb (nat m))" using less m False by simp
      moreover have "nat x = 2 * nat m" using m less.prems by simp
      moreover have "- (2 * m) div 2 = - m" by presburger
      then have "x AND - x = 2 * (m AND - m)" unfolding m by (subst and_rec) simp
      ultimately show ?thesis by simp
    qed
  qed simp
qed

lemma unat_low_bit: "unat (low_bit i) = lsb (unat i)"
proof -
  have m: "uint (- i) = take_bit 64 (- uint i)" by (simp add: uint_word_ariths take_bit_eq_mod)
  have "0 \<le> uint i \<and> uint i < 2 ^ 64" using uint_lt2p [of i] by simp
  then have i: "take_bit 64 (uint i) = uint i" by (simp add: take_bit_int_eq_self)
  have "uint (low_bit i) = uint i AND uint (- i)" unfolding low_bit_def by (rule unsigned_and_eq)
  also have "\<dots> = take_bit 64 (uint i AND - uint i)" unfolding m take_bit_and i ..
  also have "\<dots> = take_bit 64 (int (lsb (unat i)))" by (simp add: and_minus_int)
  also have "\<dots> = int (lsb (unat i))"
  proof (rule take_bit_int_eq_self)
    have "lsb (unat i) \<le> unat i" using lsb_pos [of "unat i"] by (cases "i = 0") (simp_all add: unat_pos_iff)
    then have "lsb (unat i) < 18446744073709551616" using unat_lt_64 [of i] by linarith
    then show "int (lsb (unat i)) < 2 ^ 64" by simp
  qed simp
  finally have "int (unat (low_bit i)) = int (lsb (unat i))" by simp
  then show ?thesis by (simp only: of_nat_eq_iff)
qed

section \<open>The contract\<close>

definition commutative :: "('a \<Rightarrow> 'a \<Rightarrow> 'a) \<Rightarrow> bool" where
  "commutative f \<longleftrightarrow> (\<forall>x y. f x y = f y x)"

lemma join_commute: "commutative f \<Longrightarrow> join f x y = join f y x"
  by (cases x; cases y) (simp_all add: commutative_def)

definition between :: "'a list \<Rightarrow> nat \<Rightarrow> nat \<Rightarrow> 'a list" where
  "between xs a b = take (b - a) (drop a xs)"

lemma between_append: "a \<le> b \<Longrightarrow> b \<le> c \<Longrightarrow> between xs a c = between xs a b @ between xs b c"
proof -
  assume ab: "a \<le> b" "b \<le> c"
  then have "c - a = (b - a) + (c - b)" by simp
  then have "between xs a c = take (b - a) (drop a xs) @ take (c - b) (drop (b - a) (drop a xs))"
    unfolding between_def by (simp only: take_add)
  then show ?thesis using ab by (simp add: between_def)
qed

lemma between_same [simp]: "between xs a a = []"
  by (simp add: between_def)

lemma between_single: "i < length xs \<Longrightarrow> between xs i (Suc i) = [xs ! i]"
  by (simp add: between_def take_Suc_conv_app_nth)

lemma between_all: "between xs 0 n = take n xs"
  by (simp add: between_def)

lemma between_update_out: "p < a \<or> b \<le> p \<Longrightarrow> between (xs[p := v]) a b = between xs a b"
proof (elim disjE)
  assume "b \<le> p"
  then show ?thesis by (cases "a \<le> b") (simp_all add: between_def take_drop)
qed (simp add: between_def)

text \<open>Node \<open>k\<close> has the total of its range.\<close>

definition fen_node :: "('a \<Rightarrow> 'a \<Rightarrow> 'a) \<Rightarrow> 'a list \<Rightarrow> 'a list \<Rightarrow> nat \<Rightarrow> bool" where
  "fen_node f xs d k \<longleftrightarrow> total f (between xs (k - lsb k) k) = Some (d ! k)"

definition fen_inv :: "'a list \<Rightarrow> 'a scl_fenwick_t \<Rightarrow> bool" where
  "fen_inv xs s \<longleftrightarrow> length xs = unat (fw_n s) \<and> length xs < 2 ^ 63 \<and> associative (fw_add s) \<and> commutative (fw_add s) \<and>
     fw_scratch s \<noteq> None \<and>
     (case fw_tree s of None \<Rightarrow> False
      | Some d \<Rightarrow> length d = Suc (length xs) \<and> (\<forall>k. 0 < k \<and> k \<le> length xs \<longrightarrow> fen_node (fw_add s) xs d k))"

text \<open>Moving to the parent and to the preceding range cannot wrap.\<close>

lemma up_step:
  assumes "unat i < 2 ^ 63"
  shows "unat (i + low_bit i) = unat i + lsb (unat i)"
proof -
  have "lsb (unat i) \<le> unat i" using lsb_pos [of "unat i"] by (cases "i = 0") (simp_all add: unat_pos_iff)
  then show ?thesis using assms by (subst unat_add_bounded) (simp_all add: unat_low_bit)
qed

lemma down_step: "0 < i \<Longrightarrow> unat (i - low_bit i) = unat i - lsb (unat i)"
  using lsb_pos [of "unat i"]
  by (subst unat_diff_le) (simp_all add: word_le_unat unat_low_bit word_less_unat)

subsection \<open>Prefix totals\<close>

lemma fenwick_down_spec:
  assumes f: "associative f" "commutative f" and d: "length d = Suc (length xs)"
    and nodes: "\<And>k. 0 < k \<Longrightarrow> k \<le> length xs \<Longrightarrow> fen_node f xs d k"
  shows "unat i \<le> length xs \<Longrightarrow> fenwick_down f d i acc = Some (join f acc (total f (take (unat i) xs)))"
proof (induction "unat i" arbitrary: i acc rule: less_induct)
  case less
  show ?case
  proof (cases "i = 0")
    case True
    then show ?thesis by (subst fenwick_down.simps) simp
  next
    case False
    then have pos: "0 < i" "0 < unat i" by (simp_all add: word_less_unat unat_pos_iff)
    let ?j = "i - low_bit i"
    have j: "unat ?j = unat i - lsb (unat i)" using pos(1) by (rule down_step)
    have lsb: "0 < lsb (unat i)" "lsb (unat i) \<le> unat i" using lsb_pos pos(2) by auto
    have node: "total f (between xs (unat ?j) (unat i)) = Some (d ! unat i)"
      using nodes [of "unat i"] pos(2) less.prems j by (simp add: fen_node_def)
    let ?acc = "Some (case acc of None \<Rightarrow> d ! unat i | Some x \<Rightarrow> f x (d ! unat i))"
    have acc: "?acc = join f acc (Some (d ! unat i))" by (cases acc) simp_all
    have "fenwick_down f d ?j ?acc = Some (join f ?acc (total f (take (unat ?j) xs)))"
      using j lsb less.prems by (intro less.hyps) simp_all
    moreover have "join f ?acc (total f (take (unat ?j) xs)) = join f acc (total f (take (unat i) xs))"
    proof -
      have le: "unat ?j \<le> unat i" using j by simp
      have "take (unat i) xs = between xs 0 (unat ?j) @ between xs (unat ?j) (unat i)"
        using between_append [OF _ le, of 0 xs] by (simp add: between_all)
      then have "total f (take (unat i) xs) = join f (total f (take (unat ?j) xs)) (Some (d ! unat i))"
        using node by (simp add: total_append [OF f(1)] between_all)
      then show ?thesis
        unfolding acc join_assoc [OF f(1)] using join_commute [OF f(2), of "Some (d ! unat i)"] by simp
    qed
    ultimately show ?thesis using pos less.prems d by (subst fenwick_down.simps) simp
  qed
qed

lemma fenwick_prefix_spec:
  assumes inv: "fen_inv xs s" and idx: "idx < fw_n s"
  shows "\<exists>v. scl_fenwick_prefix (Some s) idx (Some old) = Some (SCL_OK, Some v) \<and>
    total (fw_add s) (take (Suc (unat idx)) xs) = Some v"
proof -
  obtain d where d: "fw_tree s = Some d" "length d = Suc (length xs)"
    "\<And>k. 0 < k \<Longrightarrow> k \<le> length xs \<Longrightarrow> fen_node (fw_add s) xs d k"
    using inv by (auto simp: fen_inv_def split: option.splits)
  have f: "associative (fw_add s)" "commutative (fw_add s)" "length xs = unat (fw_n s)" using inv by (simp_all add: fen_inv_def)
  have i: "unat (idx + 1) = Suc (unat idx)" using idx by (rule unat_Suc_less)
  have lt: "unat idx < length xs" using idx f(3) by (simp add: word_less_unat)
  then obtain v where v: "total (fw_add s) (take (Suc (unat idx)) xs) = Some v"
    using total_Some [of "take (Suc (unat idx)) xs" "fw_add s"] by fastforce
  have "fenwick_down (fw_add s) d (idx + 1) None = Some (Some v)"
    using fenwick_down_spec [OF f(1,2) d(2,3), of "idx + 1" None] i lt v by simp
  then show ?thesis using idx d(1) v by (simp add: scl_fenwick_prefix_def not_le)
qed

text \<open>A range is the difference of two prefixes.\<close>

lemma fenwick_range_spec:
  assumes inv: "fen_inv xs s" and lr: "l \<le> r" "r < fw_n s"
    and sub: "\<And>x y. fw_sub s (fw_add s x y) x = y"
  shows "\<exists>v s'. scl_fenwick_range_query (Some s) l r (Some old) = Some (SCL_OK, Some s', Some v) \<and> fen_inv xs s' \<and>
    total (fw_add s) (between xs (unat l) (Suc (unat r))) = Some v"
proof -
  from fenwick_prefix_spec [OF inv lr(2), of old] obtain x where x:
    "scl_fenwick_prefix (Some s) r (Some old) = Some (SCL_OK, Some x)" "total (fw_add s) (take (Suc (unat r)) xs) = Some x" by blast
  have le: "unat l \<le> unat r" "unat r < length xs" using lr inv by (simp_all add: word_le_unat word_less_unat fen_inv_def)
  show ?thesis
  proof (cases "l = 0")
    case True
    then have "scl_fenwick_range_query (Some s) l r (Some old) = Some (SCL_OK, Some s, Some x)"
      using lr x(1) by (simp add: scl_fenwick_range_query_def not_le not_less)
    then show ?thesis using inv x(2) True by (simp add: between_all)
  next
    case False
    have l1: "l - 1 < fw_n s" "Suc (unat (l - 1)) = unat l"
      using False le inv by (simp_all add: word_less_unat unat_pred fen_inv_def unat_pos_iff)
    obtain old' where scr: "fw_scratch s = Some old'" using inv by (auto simp: fen_inv_def)
    from fenwick_prefix_spec [OF inv l1(1), of old'] obtain y where y:
      "scl_fenwick_prefix (Some s) (l - 1) (fw_scratch s) = Some (SCL_OK, Some y)" "total (fw_add s) (take (unat l) xs) = Some y"
      unfolding l1(2) scr by blast
    let ?rest = "between xs (unat l) (Suc (unat r))"
    have "take (Suc (unat r)) xs = take (unat l) xs @ ?rest"
      using between_append [of 0 "unat l" "Suc (unat r)" xs] le by (simp add: between_all)
    then have "Some x = join (fw_add s) (Some y) (total (fw_add s) ?rest)"
      using x(2) y(2) inv by (simp add: total_append fen_inv_def)
    moreover have "?rest \<noteq> []" using le by (simp add: between_def)
    then obtain v where v: "total (fw_add s) ?rest = Some v" using total_Some [of ?rest "fw_add s"] by blast
    ultimately have "fw_sub s x y = v" using sub by simp
    then have "scl_fenwick_range_query (Some s) l r (Some old)
        = Some (SCL_OK, Some (s\<lparr>fw_scratch := Some y\<rparr>), Some v)"
      using False lr x(1) y(1)
      by (simp add: scl_fenwick_range_query_def not_le not_less Let_def word_neq_0_conv)
    moreover have "fen_inv xs (s\<lparr>fw_scratch := Some y\<rparr>)"
      using inv by (auto simp: fen_inv_def split: option.splits)
    ultimately show ?thesis using v by blast
  qed
qed

subsection \<open>Updates\<close>

text \<open>Combining a value into one element of a list combines it into the total.\<close>

lemma total_update:
  assumes f: "associative f" "commutative f"
  shows "p < length xs \<Longrightarrow> total f (xs[p := f (xs ! p) v]) = join f (total f xs) (Some v)"
proof (induction xs arbitrary: p)
  case (Cons x xs)
  show ?case
  proof (cases p)
    case 0
    have "join f (Some (f x v)) (total f xs) = join f (join f (Some x) (Some v)) (total f xs)" by simp
    also have "\<dots> = join f (join f (Some x) (total f xs)) (Some v)"
      unfolding join_assoc [OF f(1)] using join_commute [OF f(2), of "Some v"] by simp
    finally show ?thesis using 0 by simp
  next
    case (Suc q)
    then have "total f (xs[q := f (xs ! q) v]) = join f (total f xs) (Some v)" using Cons by simp
    then show ?thesis using Suc by (simp only: list_update_code total.simps nth_Cons_Suc join_assoc [OF f(1)])
  qed
qed simp

lemma between_update_in:
  "a \<le> p \<Longrightarrow> p < b \<Longrightarrow> between (xs[p := v]) a b = (between xs a b)[p - a := v]"
  by (simp add: between_def drop_update_swap take_update_swap)

lemma fen_node_updated:
  assumes f: "associative f" "commutative f" and node: "fen_node f xs d k" and k: "k \<le> length xs"
    and p: "k - lsb k \<le> p" "p < k" and d': "d' ! k = f (d ! k) v"
  shows "fen_node f (xs[p := f (xs ! p) v]) d' k"
proof -
  have "p - (k - lsb k) < length (between xs (k - lsb k) k)" using p k by (simp add: between_def)
  moreover have "between xs (k - lsb k) k ! (p - (k - lsb k)) = xs ! p" using p k by (simp add: between_def)
  ultimately have "total f ((between xs (k - lsb k) k)[p - (k - lsb k) := f (xs ! p) v])
      = join f (total f (between xs (k - lsb k) k)) (Some v)"
    using total_update [OF f, of "p - (k - lsb k)" "between xs (k - lsb k) k" v] by simp
  then show ?thesis using node p d' by (simp add: fen_node_def between_update_in)
qed

lemma fen_node_kept:
  assumes "fen_node f xs d k" and "p < k - lsb k \<or> k \<le> p" and "d' ! k = d ! k"
  shows "fen_node f (xs[p := v]) d' k"
  using assms by (simp add: fen_node_def between_update_out)

text \<open>The nodes below \<open>i\<close> that cover position \<open>p\<close> are done, the others not.\<close>

definition up_inv :: "('a \<Rightarrow> 'a \<Rightarrow> 'a) \<Rightarrow> 'a list \<Rightarrow> nat \<Rightarrow> 'a \<Rightarrow> 'a list \<Rightarrow> nat \<Rightarrow> bool" where
  "up_inv f xs p v d i \<longleftrightarrow> length d = Suc (length xs) \<and> p < i \<and> i - lsb i \<le> p \<and>
     (\<forall>k. 0 < k \<and> k \<le> length xs \<longrightarrow>
       (if k < i then fen_node f (xs[p := f (xs ! p) v]) d k else fen_node f xs d k))"

lemma fenwick_up_spec:
  assumes f: "associative f" "commutative f" and n: "unat n = length xs" "length xs < 2 ^ 63"
  shows "up_inv f xs p v d (unat i) \<Longrightarrow> unat i < 2 ^ 63 + 2 ^ 63 \<Longrightarrow>
    \<exists>d'. fenwick_up f n v i d = Some d' \<and> length d' = Suc (length xs) \<and>
      (\<forall>k. 0 < k \<and> k \<le> length xs \<longrightarrow> fen_node f (xs[p := f (xs ! p) v]) d' k)"
proof (induction "2 ^ 64 - unat i" arbitrary: i d rule: less_induct)
  case less
  note inv = less.prems(1) [unfolded up_inv_def]
  show ?case
  proof (cases "i \<le> n")
    case False
    then have "\<forall>k. 0 < k \<and> k \<le> length xs \<longrightarrow> fen_node f (xs[p := f (xs ! p) v]) d k"
      using inv n(1) by (simp add: word_le_unat)
    then show ?thesis using False inv by (subst fenwick_up.simps) simp
  next
    case True
    then have i: "unat i \<le> length xs" "0 < unat i" using inv n(1) by (simp_all add: word_le_unat)
    let ?d = "d[unat i := f (d ! unat i) v]"
    let ?j = "i + low_bit i"
    have j: "unat ?j = unat i + lsb (unat i)" using i n(2) by (intro up_step) simp
    have lsb: "0 < lsb (unat i)" "lsb (unat i) \<le> unat i" using lsb_pos i(2) by auto
    have "up_inv f xs p v ?d (unat ?j)"
      unfolding up_inv_def
    proof (intro conjI allI impI)
      show "length ?d = Suc (length xs)" using inv by simp
      show "p < unat ?j" using inv j by simp
      have "unat ?j - lsb (unat ?j) \<le> unat i - lsb (unat i)" using lsb_parent [OF i(2)] j by simp
      then show "unat ?j - lsb (unat ?j) \<le> p" using inv by linarith
      fix k assume k: "0 < k \<and> k \<le> length xs"
      show "if k < unat ?j then fen_node f (xs[p := f (xs ! p) v]) ?d k else fen_node f xs ?d k"
      proof (cases "k = unat i")
        case True
        then have "fen_node f (xs[p := f (xs ! p) v]) ?d k"
          using inv k by (intro fen_node_updated [OF f, of xs d]) simp_all
        then show ?thesis using True j lsb by simp
      next
        case False
        have node: "if k < unat i then fen_node f (xs[p := f (xs ! p) v]) d k else fen_node f xs d k" using inv k by blast
        show ?thesis
        proof (cases "k < unat ?j")
          case True
          show ?thesis
          proof (cases "k < unat i")
            case True
            then show ?thesis using node False j by (simp add: fen_node_def)
          next
            case ge: False
            then have "unat i \<le> k - lsb k" using True False j by (intro lsb_between) simp_all
            then have "p < k - lsb k" using inv by linarith
            then have "fen_node f (xs[p := f (xs ! p) v]) ?d k"
              using node ge False by (intro fen_node_kept [of f xs d]) simp_all
            then show ?thesis using True by simp
          qed
        next
          case ge: False
          then have "\<not> k < unat i" using j by simp
          then show ?thesis using node False ge by (simp add: fen_node_def)
        qed
      qed
    qed
    moreover have "unat ?j < 2 ^ 63 + 2 ^ 63" using j lsb i n(2) by simp
    moreover have "2 ^ 64 - unat ?j < 2 ^ 64 - unat i" using j lsb i n(2) by simp
    ultimately obtain d' where d': "fenwick_up f n v ?j ?d = Some d'" "length d' = Suc (length xs)"
      "\<forall>k. 0 < k \<and> k \<le> length xs \<longrightarrow> fen_node f (xs[p := f (xs ! p) v]) d' k"
      using less.hyps by blast
    have "fenwick_up f n v i d = Some d'"
      using True inv i d'(1) by (subst fenwick_up.simps) (simp add: fenwick_add_to_def)
    then show ?thesis using d'(2,3) by blast
  qed
qed

lemma fenwick_update_spec:
  assumes inv: "fen_inv xs s" and idx: "idx < fw_n s"
  shows "\<exists>s'. scl_fenwick_update (Some s) idx (Some v) = Some (SCL_OK, Some s') \<and>
    fen_inv (xs[unat idx := fw_add s (xs ! unat idx) v]) s' \<and> fw_add s' = fw_add s \<and> fw_sub s' = fw_sub s \<and> fw_n s' = fw_n s"
proof -
  let ?f = "fw_add s"
  obtain d where d: "fw_tree s = Some d" "length d = Suc (length xs)"
    "\<And>k. 0 < k \<Longrightarrow> k \<le> length xs \<Longrightarrow> fen_node ?f xs d k"
    using inv by (auto simp: fen_inv_def split: option.splits)
  have f: "associative ?f" "commutative ?f" "unat (fw_n s) = length xs" "length xs < 2 ^ 63"
    using inv by (simp_all add: fen_inv_def)
  have i: "unat (idx + 1) = Suc (unat idx)" using idx by (rule unat_Suc_less)
  have lt: "unat idx < length xs" using idx f(3) by (simp add: word_less_unat)
  have "up_inv ?f xs (unat idx) v d (unat (idx + 1))"
    unfolding up_inv_def
  proof (intro conjI allI impI)
    show "length d = Suc (length xs)" by (rule d(2))
    show "unat idx < unat (idx + 1)" using i by simp
    show "unat (idx + 1) - lsb (unat (idx + 1)) \<le> unat idx" using lsb_pos [of "Suc (unat idx)"] unfolding i by linarith
    fix k assume k: "0 < k \<and> k \<le> length xs"
    then have node: "fen_node ?f xs d k" using d(3) by blast
    show "if k < unat (idx + 1) then fen_node ?f (xs[unat idx := ?f (xs ! unat idx) v]) d k else fen_node ?f xs d k"
      using fen_node_kept [OF node, of "unat idx" d] node i by simp
  qed
  moreover have "unat (idx + 1) < 2 ^ 63 + 2 ^ 63" using i lt f(4) by simp
  ultimately obtain d' where d': "fenwick_up ?f (fw_n s) v (idx + 1) d = Some d'" "length d' = Suc (length xs)"
    "\<forall>k. 0 < k \<and> k \<le> length xs \<longrightarrow> fen_node ?f (xs[unat idx := ?f (xs ! unat idx) v]) d' k"
    using fenwick_up_spec [OF f] by blast
  let ?s = "s\<lparr>fw_tree := Some d'\<rparr>"
  have "scl_fenwick_update (Some s) idx (Some v) = Some (SCL_OK, Some ?s)"
    using idx d(1) d'(1) by (simp add: scl_fenwick_update_def not_le)
  moreover have "fen_inv (xs[unat idx := ?f (xs ! unat idx) v]) ?s" using inv d'(2,3) by (simp add: fen_inv_def)
  ultimately show ?thesis by (intro exI [of _ ?s]) simp
qed

subsection \<open>Building\<close>

text \<open>Before node \<open>i\<close> is pushed, node \<open>k\<close> has the total of its own element and of its children below \<open>i\<close>,
  whose ranges end at \<open>m\<close>.\<close>

definition build_node :: "('a \<Rightarrow> 'a \<Rightarrow> 'a) \<Rightarrow> 'a list \<Rightarrow> nat \<Rightarrow> 'a list \<Rightarrow> nat \<Rightarrow> bool" where
  "build_node f xs i d k \<longleftrightarrow> (\<exists>m. k - lsb k \<le> m \<and> m < k \<and>
     Some (d ! k) = join f (total f (between xs (k - lsb k) m)) (Some (xs ! (k - 1))) \<and>
     (\<forall>c. 0 < c \<longrightarrow> c + lsb c = k \<longrightarrow> (c < i \<longrightarrow> c \<le> m) \<and> (i \<le> c \<longrightarrow> m \<le> c - lsb c)))"

definition build_inv :: "('a \<Rightarrow> 'a \<Rightarrow> 'a) \<Rightarrow> 'a list \<Rightarrow> nat \<Rightarrow> 'a list \<Rightarrow> bool" where
  "build_inv f xs i d \<longleftrightarrow> length d = Suc (length xs) \<and> (\<forall>k. 0 < k \<and> k \<le> length xs \<longrightarrow> build_node f xs i d k)"

lemma child_below: "0 < c \<Longrightarrow> c + lsb c = k \<Longrightarrow> k - lsb k \<le> c - lsb c"
  using lsb_parent [of c] by auto

lemma build_start:
  assumes "0 < k" "k \<le> length xs" "d ! k = xs ! (k - 1)"
  shows "build_node f xs 1 d k"
  unfolding build_node_def
proof (intro exI [of _ "k - lsb k"] conjI allI impI)
  show "k - lsb k < k" using lsb_pos [OF assms(1)] by simp
  fix c assume c: "0 < c" "c + lsb c = k"
  show "k - lsb k \<le> c - lsb c" using child_below [OF c] .
qed (use assms in simp_all)

text \<open>A node all of whose children were pushed is complete.\<close>

lemma build_complete:
  assumes k: "0 < k" "k \<le> length xs" "k \<le> i" and node: "build_node f xs i d k" and f: "associative f"
  shows "fen_node f xs d k"
proof -
  obtain m where m: "k - lsb k \<le> m" "m < k"
    "Some (d ! k) = join f (total f (between xs (k - lsb k) m)) (Some (xs ! (k - 1)))"
    "\<And>c. 0 < c \<Longrightarrow> c + lsb c = k \<Longrightarrow> c < i \<Longrightarrow> c \<le> m" using node unfolding build_node_def by blast
  have "m = k - 1"
  proof (cases "odd k")
    case True
    then show ?thesis using m(1,2) by simp
  next
    case False
    then have "odd (k - 1)" "0 < k - 1" using k(1) by (auto elim!: evenE)
    then have "k - 1 \<le> m" using m(4) [of "k - 1"] k by simp
    then show ?thesis using m(2) by simp
  qed
  moreover have "between xs (k - 1) k = [xs ! (k - 1)]" using between_single [of "k - 1" xs] k by simp
  moreover have "between xs (k - lsb k) k = between xs (k - lsb k) (k - 1) @ between xs (k - 1) k"
    using lsb_pos [OF k(1)] by (intro between_append) linarith+
  ultimately show ?thesis using m(3) by (simp add: fen_node_def total_append [OF f])
qed

lemma build_step:
  assumes f: "associative f" "commutative f" and i: "0 < i" "i \<le> length xs" and inv: "build_inv f xs i d"
    and j: "j = i + lsb i"
  shows "build_inv f xs (Suc i) (if j \<le> length xs then d[j := f (d ! j) (d ! i)] else d)"
    (is "build_inv f xs (Suc i) ?d")
  unfolding build_inv_def
proof (intro conjI allI impI)
  show "length ?d = Suc (length xs)" using inv by (simp add: build_inv_def)
  fix k assume k: "0 < k \<and> k \<le> length xs"
  obtain m where m: "k - lsb k \<le> m" "m < k"
    "Some (d ! k) = join f (total f (between xs (k - lsb k) m)) (Some (xs ! (k - 1)))"
    "\<And>c. 0 < c \<Longrightarrow> c + lsb c = k \<Longrightarrow> (c < i \<longrightarrow> c \<le> m) \<and> (i \<le> c \<longrightarrow> m \<le> c - lsb c)"
    using inv k unfolding build_inv_def build_node_def by blast
  show "build_node f xs (Suc i) ?d k"
  proof (cases "k = j")
    case False
    then have "?d ! k = d ! k" by simp
    moreover have "(c < Suc i \<longrightarrow> c \<le> m) \<and> (Suc i \<le> c \<longrightarrow> m \<le> c - lsb c)" if "0 < c" "c + lsb c = k" for c
      using m(4) [OF that] that False j by (cases "c = i") auto
    ultimately show ?thesis unfolding build_node_def using m(1-3) by (intro exI [of _ m]) simp
  next
    case True
    have li: "0 < lsb i" "lsb i \<le> i" using lsb_pos [OF i(1)] by auto
    have d: "?d ! k = f (d ! k) (d ! i)" using True k inv by (simp add: build_inv_def)
    have "m \<le> i - lsb i" using m(4) [OF i(1)] True j by simp
    moreover have "i - lsb i \<le> m"
      using lsb_sibling [OF i(1)] m(1) m(4) [of "i - lsb i"] True j i(1) li
      by (cases "i - lsb i = 0") auto
    ultimately have mi: "m = i - lsb i" by simp
    have "build_node f xs i d i" using inv i by (simp add: build_inv_def)
    then have node: "total f (between xs m i) = Some (d ! i)"
      using build_complete [OF i(1,2) order.refl _ f(1)] by (simp add: fen_node_def mi)
    have le: "k - lsb k \<le> m" "m \<le> i" using m(1) mi by simp_all
    let ?A = "total f (between xs (k - lsb k) m)" and ?x = "Some (xs ! (k - 1))"
    have "Some (?d ! k) = join f (Some (d ! k)) (Some (d ! i))" by (simp only: d join.simps)
    also have "\<dots> = join f (join f ?A ?x) (total f (between xs m i))" by (simp only: m(3) node)
    also have "\<dots> = join f (join f ?A (total f (between xs m i))) ?x"
      unfolding join_assoc [OF f(1)] using join_commute [OF f(2), of ?x] by simp
    also have "join f ?A (total f (between xs m i)) = total f (between xs (k - lsb k) i)"
      unfolding between_append [OF le] total_append [OF f(1)] ..
    finally have sum: "Some (?d ! k) = join f (total f (between xs (k - lsb k) i)) ?x" .
    have "(c < Suc i \<longrightarrow> c \<le> i) \<and> (Suc i \<le> c \<longrightarrow> i \<le> c - lsb c)" if "0 < c" "c + lsb c = k" for c
      using that True j lsb_between [of i c] lsb_pos [of c] by auto
    then show ?thesis unfolding build_node_def using sum le True j li by (intro exI [of _ i]) simp
  qed
qed

lemma fenwick_push_eq:
  assumes n: "unat n = length xs" "length xs < 2 ^ 63" and i: "0 < i" "i \<le> length xs" and d: "length d = Suc (length xs)"
    and j: "j = i + lsb i"
  shows "fenwick_push f n i d = Some (if j \<le> length xs then d[j := f (d ! j) (d ! i)] else d)"
proof -
  have u: "unat (of_nat i :: size_t) = i" using i n by (intro unat_of_nat_less [of _ "n + 1"]) (simp add: unat_add_bounded)
  then have uj: "unat (of_nat i + low_bit (of_nat i) :: size_t) = j" using up_step [of "of_nat i"] i n j by simp
  then have "of_nat i + low_bit (of_nat i) \<le> n \<longleftrightarrow> j \<le> length xs" using n by (simp add: word_le_unat)
  then show ?thesis using i d uj by (simp add: fenwick_push_def Let_def fenwick_add_to_def)
qed

lemma fenwick_leaves:
  assumes "n \<le> length src"
  shows "for_up 1 (n + 1) (\<lambda>i d. do { v \<leftarrow> at src (i - 1); put_at d i v }) (replicate (n + 1) zero)
    = Some (zero # take n src)"
proof -
  have "yields (for_up 1 (n + 1) (\<lambda>i d. do { v \<leftarrow> at src (i - 1); put_at d i v }) (replicate (n + 1) zero))
      (\<lambda>d. d = zero # take n src)"
  proof (rule for_up_rule [where I = "\<lambda>i d. d = zero # take (i - 1) src @ replicate (n + 1 - i) zero"])
    fix i d assume i: "1 \<le> i" "i < n + 1" and d: "d = zero # take (i - 1) src @ replicate (n + 1 - i) zero"
    obtain q where q: "i = Suc q" using i(1) by (cases i) auto
    have r: "n - q = Suc (n - Suc q)" using i q by simp
    have "d[i := src ! (i - 1)] = zero # take i src @ replicate (n - i) zero"
      unfolding d q using i assms q by (simp add: r list_update_append take_Suc_conv_app_nth)
    then show "yields (do { v \<leftarrow> at src (i - 1); put_at d i v })
        (\<lambda>d. d = zero # take (Suc i - 1) src @ replicate (n + 1 - Suc i) zero)"
      using i assms d by simp
  qed simp_all
  then show ?thesis by (auto simp: yields_iff)
qed

lemma fenwick_build:
  assumes f: "associative f" "commutative f" and n: "unat n = length xs" "length xs < 2 ^ 63"
  shows "yields (for_up 1 (unat n + 1) (fenwick_push f n) (zero # xs)) (\<lambda>d. length d = Suc (length xs) \<and>
    (\<forall>k. 0 < k \<and> k \<le> length xs \<longrightarrow> fen_node f xs d k))"
proof (rule for_up_rule [where I = "build_inv f xs"])
  show "build_inv f xs 1 (zero # xs)" unfolding build_inv_def
    using build_start [of _ xs "zero # xs" f] by (simp add: nth_Cons')
  fix i d assume i: "1 \<le> i" "i < unat n + 1" and inv: "build_inv f xs i d"
  have len: "length d = Suc (length xs)" using inv by (simp add: build_inv_def)
  show "yields (fenwick_push f n i d) (build_inv f xs (Suc i))"
    using build_step [OF f _ _ inv refl] i n fenwick_push_eq [OF n _ _ len refl] by simp
next
  fix d assume inv: "build_inv f xs (unat n + 1) d"
  then show "length d = Suc (length xs) \<and> (\<forall>k. 0 < k \<and> k \<le> length xs \<longrightarrow> fen_node f xs d k)"
    using build_complete [OF _ _ _ _ f(1), of _ xs "unat n + 1" d] n by (simp add: build_inv_def)
qed simp

lemma fenwick_init_spec:
  assumes a: "scl_allocator a" and f: "associative f" "commutative f" and n: "n \<noteq> 0" "unat n \<le> length src" and es: "es \<noteq> 0"
  shows "\<exists>err s'. scl_fenwick_init zero fresh a (Some s) n es (Some src) (Some f) (Some g) = Some (err, Some s') \<and>
    (if err = SCL_OK then fen_inv (take (unat n) src) s' \<and> fw_add s' = f \<and> fw_sub s' = g \<and> fw_n s' = n else alloc_failed err)"
proof (cases "n = SIZE_MAX \<or> calloc_fn a 0 (n + 1) es max_align = None \<or> malloc_fn a 1 es max_align = None")
  case True
  then show ?thesis using n es by (auto simp: scl_fenwick_init_def)
next
  case False
  then obtain b where b: "calloc_fn a 0 (n + 1) es max_align = Some b" by auto
  have "is_object b (unat (n + 1) * unat es)" using scl_allocator.calloc_block [OF a b] by blast
  then have lim: "unat (n + 1) * unat es < 2 ^ 63" by (simp add: is_object_def)
  have n1: "unat (n + 1) = unat n + 1"
    using False unat_Suc_less [of n SIZE_MAX] by (simp add: word_order.not_eq_extremum)
  have "(unat n + 1) * 1 \<le> (unat n + 1) * unat es" using es by (intro mult_le_mono2) (simp add: Suc_leI unat_pos_iff)
  then have small: "unat n < 2 ^ 63" using lim n1 by simp
  let ?xs = "take (unat n) src"
  have len: "unat n = length ?xs" "length ?xs < 2 ^ 63" using n(2) small by simp_all
  from fenwick_build [OF f len, of zero] obtain d where d: "for_up 1 (unat n + 1) (fenwick_push f n) (zero # ?xs) = Some d"
    "length d = Suc (length ?xs)" "\<forall>k. 0 < k \<and> k \<le> length ?xs \<longrightarrow> fen_node f ?xs d k" unfolding yields_iff by blast
  let ?s = "\<lparr>fw_tree = Some d, fw_scratch = Some fresh, fw_n = n, fw_element_size = es, fw_add = f, fw_sub = g\<rparr>"
  have "scl_fenwick_init zero fresh a (Some s) n es (Some src) (Some f) (Some g) = Some (SCL_OK, Some ?s)"
    using False n es fenwick_leaves [OF n(2), of zero] d(1) by (simp add: scl_fenwick_init_def)
  moreover have "fen_inv ?xs ?s" using len d(2,3) f by (simp add: fen_inv_def)
  ultimately show ?thesis by (intro exI [of _ SCL_OK] exI [of _ ?s]) simp
qed

end
