(* ===== verification/Scl_Bloom.thy ===== *)
theory Scl_Bloom
  imports Scl_Alloc Scl_Slots
begin

text \<open>
  The Bloom filter of \<open>libs/structures/bloom/scl_bloom.c\<close> and the hash function it comes with. The hash is
  a callback; what the filter needs of it is the locale \<open>bloom_hash\<close>, which the library's own
  \<open>scl_bloom_hash_murmur\<close> meets. The numbers of bits and hashes come out of a floating-point formula:
  \<open>bits_of\<close> and \<open>hashes_of\<close> stand for it, \<open>None\<close> meaning a rate or a number of bits out of range. What
  the code does to them afterwards, and everything else, is modelled on the bytes.
\<close>

section \<open>The hash function\<close>

definition murmur_step :: "size_t \<Rightarrow> byte \<Rightarrow> size_t" where
  "murmur_step h b = (let h = (h XOR ucast b) * 11400714819323198485 in h XOR drop_bit 47 h)"

definition scl_bloom_hash_murmur :: "block \<Rightarrow> nat \<Rightarrow> size_t \<Rightarrow> size_t ub" where
  "scl_bloom_hash_murmur key len seed = for_up 0 len (\<lambda>i h. do { b \<leftarrow> at key i; Some (murmur_step h b) }) seed"

locale bloom_hash =
  fixes hash :: "block \<Rightarrow> nat \<Rightarrow> size_t \<Rightarrow> size_t ub"
  assumes hash_total: "len \<le> length data \<Longrightarrow> \<exists>h. hash data len seed = Some h"

lemma murmur_fold:
  assumes "len \<le> length key"
  shows "scl_bloom_hash_murmur key len seed = Some (foldl murmur_step seed (take len key))"
proof -
  have "yields (scl_bloom_hash_murmur key len seed) (\<lambda>h. h = foldl murmur_step seed (take len key))"
    unfolding scl_bloom_hash_murmur_def
    by (rule for_up_inv [where I = "\<lambda>i h. h = foldl murmur_step seed (take i key)"])
      (use assms in \<open>simp_all add: take_Suc_conv_app_nth\<close>)
  then show ?thesis by (auto simp: yields_iff)
qed

interpretation murmur: bloom_hash scl_bloom_hash_murmur
  by unfold_locales (simp add: murmur_fold)

text \<open>Every step is a bijection of the state, so different seeds give different hashes of the same data.\<close>

lemma xorshift_inj:
  assumes "(x::size_t) XOR drop_bit 47 x = y XOR drop_bit 47 y"
  shows "x = y"
proof -
  have undo: "(z XOR drop_bit 47 z) XOR drop_bit 47 (z XOR drop_bit 47 z) = z" for z :: size_t
    by (rule bit_word_eqI) (auto simp: bit_simps)
  show ?thesis using undo [of x] undo [of y] assms by simp
qed

lemma multiplier_inj: "(x::size_t) * 11400714819323198485 = y * 11400714819323198485 \<Longrightarrow> x = y"
proof -
  assume "x * 11400714819323198485 = y * 11400714819323198485"
  then have "x * 11400714819323198485 * 17428512612931826493 = y * 11400714819323198485 * 17428512612931826493" by simp
  moreover have "(11400714819323198485::size_t) * 17428512612931826493 = 1" by simp
  ultimately show "x = y" by (simp only: mult.assoc mult_1_right)
qed

lemma murmur_step_inj: "murmur_step x b = murmur_step y b \<Longrightarrow> x = y"
proof -
  assume "murmur_step x b = murmur_step y b"
  then have "(x XOR ucast b) * 11400714819323198485 = (y XOR ucast b) * 11400714819323198485"
    unfolding murmur_step_def Let_def by (rule xorshift_inj)
  then have "x XOR ucast b = y XOR ucast b" by (rule multiplier_inj)
  then have "(x XOR ucast b) XOR ucast b = (y XOR ucast b) XOR ucast b" by simp
  then show "x = y" by (simp add: xor.assoc)
qed

lemma murmur_seeds: "foldl murmur_step s bs = foldl murmur_step t bs \<Longrightarrow> s = t"
  by (induction bs arbitrary: s t) (auto dest: murmur_step_inj)

section \<open>The filter\<close>

record scl_bloom_t =
  bf_bits :: "block ptr"
  bf_bit_count :: size_t
  bf_byte_count :: size_t
  bf_num_hashes :: size_t
  bf_hash_func :: "block \<Rightarrow> nat \<Rightarrow> size_t \<Rightarrow> size_t ub"
  bf_inserted :: size_t

definition scl_bloom_set_bit :: "block \<Rightarrow> size_t \<Rightarrow> block ub" where
  "scl_bloom_set_bit bits idx = do {
     b \<leftarrow> at bits (unat (idx div 8));
     put_at bits (unat (idx div 8)) (b OR push_bit (unat (idx mod 8)) 1)
   }"

definition scl_bloom_test_bit :: "block \<Rightarrow> size_t \<Rightarrow> bool ub" where
  "scl_bloom_test_bit bits idx = do {
     b \<leftarrow> at bits (unat (idx div 8));
     Some (drop_bit (unat (idx mod 8)) b AND 1 \<noteq> 0)
   }"

definition scl_bloom_init ::
    "(size_t \<Rightarrow> 'r \<Rightarrow> size_t option) \<Rightarrow> (size_t \<Rightarrow> size_t \<Rightarrow> size_t) \<Rightarrow> scl_allocator_t \<Rightarrow> scl_bloom_t ptr \<Rightarrow> size_t \<Rightarrow> 'r
     \<Rightarrow> (block \<Rightarrow> nat \<Rightarrow> size_t \<Rightarrow> size_t ub) ptr \<Rightarrow> scl_error_t \<times> scl_bloom_t ptr" where
  "scl_bloom_init bits_of hashes_of a bf expected_items false_positive_rate hash_func =
     (case bf of
        None \<Rightarrow> (SCL_ERR_NULL_PTR, bf)
      | Some s \<Rightarrow>
          (case hash_func of
             None \<Rightarrow> (SCL_ERR_INVALID_ARG, bf)
           | Some h \<Rightarrow>
               if expected_items = 0 then (SCL_ERR_INVALID_ARG, bf)
               else (case bits_of expected_items false_positive_rate of
                   None \<Rightarrow> (SCL_ERR_INVALID_ARG, bf)
                 | Some bits_d \<Rightarrow>
                     let bits = (if bits_d = 0 then 1 else bits_d);
                         n = hashes_of bits expected_items;
                         num_hashes = (if n < 1 then 1 else if 64 < n then 64 else n)
                     in (case scl_add_overflow bits 7 of
                           None \<Rightarrow> (SCL_ERR_SIZE_OVERFLOW, bf)
                         | Some bits_padded \<Rightarrow>
                             let bytes = bits_padded div 8
                             in (case calloc_fn a 0 bytes 1 max_align of
                                   None \<Rightarrow> (SCL_ERR_OUT_OF_MEMORY, Some (s\<lparr>bf_bits := None\<rparr>))
                                 | Some b \<Rightarrow>
                                     (SCL_OK, Some \<lparr>bf_bits = Some b, bf_bit_count = bits, bf_byte_count = bytes,
                                        bf_num_hashes = num_hashes, bf_hash_func = h, bf_inserted = 0\<rparr>))))))"

definition scl_bloom_destroy :: "scl_bloom_t ptr \<Rightarrow> scl_bloom_t ptr" where
  "scl_bloom_destroy bf =
     map_option (\<lambda>s. s\<lparr>bf_bits := None, bf_bit_count := 0, bf_byte_count := 0, bf_inserted := 0\<rparr>) bf"

text \<open>\<open>h % bf->bit_count\<close>; division by zero has no result.\<close>

definition bloom_index :: "scl_bloom_t \<Rightarrow> block \<Rightarrow> nat \<Rightarrow> nat \<Rightarrow> size_t ub" where
  "bloom_index s data len i = do {
     h \<leftarrow> bf_hash_func s data len (of_nat i);
     if bf_bit_count s = 0 then None else Some (h mod bf_bit_count s)
   }"

definition scl_bloom_insert :: "scl_bloom_t ptr \<Rightarrow> block ptr \<Rightarrow> nat \<Rightarrow> (scl_error_t \<times> scl_bloom_t ptr) ub" where
  "scl_bloom_insert bf data len =
     (case (bf, data) of
        (Some s, Some d) \<Rightarrow> do {
          bits \<leftarrow> bf_bits s;
          bits \<leftarrow> for_up 0 (unat (bf_num_hashes s)) (\<lambda>i bits. do {
            idx \<leftarrow> bloom_index s d len i;
            scl_bloom_set_bit bits idx
          }) bits;
          Some (SCL_OK, Some (s\<lparr>bf_bits := Some bits, bf_inserted := bf_inserted s + 1\<rparr>))
        }
      | _ \<Rightarrow> Some (SCL_ERR_NULL_PTR, bf))"

function bloom_probe :: "scl_bloom_t \<Rightarrow> block \<Rightarrow> block \<Rightarrow> nat \<Rightarrow> nat \<Rightarrow> bool ub" where
  "bloom_probe s bits data len i =
     (if i < unat (bf_num_hashes s) then do {
        idx \<leftarrow> bloom_index s data len i;
        t \<leftarrow> scl_bloom_test_bit bits idx;
        if \<not> t then Some False else bloom_probe s bits data len (i + 1)
      } else Some True)"
  by pat_completeness auto
termination by (relation "measure (\<lambda>(s, bits, data, len, i). unat (bf_num_hashes s) - i)") auto

declare bloom_probe.simps [simp del]

definition scl_bloom_maybe_contains :: "scl_bloom_t ptr \<Rightarrow> block ptr \<Rightarrow> nat \<Rightarrow> bool ub" where
  "scl_bloom_maybe_contains bf data len =
     (case (bf, data) of
        (Some s, Some d) \<Rightarrow> do { bits \<leftarrow> bf_bits s; bloom_probe s bits d len 0 }
      | _ \<Rightarrow> Some False)"

definition scl_bloom_clear :: "scl_bloom_t ptr \<Rightarrow> scl_bloom_t ptr ub" where
  "scl_bloom_clear bf =
     (case bf of
        None \<Rightarrow> Some None
      | Some s \<Rightarrow> do {
          bits \<leftarrow> bf_bits s;
          bits \<leftarrow> mem_write bits 0 (replicate (unat (bf_byte_count s)) 0);
          Some (Some (s\<lparr>bf_bits := Some bits, bf_inserted := 0\<rparr>))
        })"

definition scl_bloom_count :: "scl_bloom_t ptr \<Rightarrow> size_t" where
  "scl_bloom_count bf = (case bf of None \<Rightarrow> 0 | Some s \<Rightarrow> bf_inserted s)"

section \<open>Bits\<close>

definition bit_at :: "block \<Rightarrow> size_t \<Rightarrow> bool" where
  "bit_at bits idx \<longleftrightarrow> bit (bits ! (unat idx div 8)) (unat idx mod 8)"

definition holds :: "block \<Rightarrow> size_t \<Rightarrow> bool" where
  "holds bits n \<longleftrightarrow> unat n \<le> 8 * length bits"

lemma byte_in: "holds bits n \<Longrightarrow> idx < n \<Longrightarrow> unat idx div 8 < length bits"
  by (auto simp: holds_def word_less_unat)

lemma unat_div_8: "unat (idx div 8 :: size_t) = unat idx div 8" "unat (idx mod 8 :: size_t) = unat idx mod 8"
  by (simp_all add: unat_div unat_mod)

lemma set_bit_ok:
  assumes "holds bits n" and "idx < n"
  shows "\<exists>bits'. scl_bloom_set_bit bits idx = Some bits' \<and> length bits' = length bits \<and>
    bit_at bits' idx \<and> (\<forall>j. bit_at bits j \<longrightarrow> bit_at bits' j)"
proof -
  let ?k = "unat idx div 8"
  have k: "?k < length bits" using assms by (rule byte_in)
  let ?b = "bits ! ?k OR push_bit (unat idx mod 8) 1"
  have "bit ?b (unat idx mod 8)" by (simp add: bit_simps)
  moreover have "bit ?b m" if "bit (bits ! ?k) m" for m using that by (simp add: bit_or_iff)
  ultimately have "bit_at (bits[?k := ?b]) idx" "\<forall>j. bit_at bits j \<longrightarrow> bit_at (bits[?k := ?b]) j"
    using k by (auto simp: bit_at_def nth_list_update)
  then show ?thesis using k by (simp add: scl_bloom_set_bit_def unat_div_8)
qed

lemma test_bit_ok:
  assumes "holds bits n" and "idx < n"
  shows "scl_bloom_test_bit bits idx = Some (bit_at bits idx)"
proof -
  have "drop_bit k (b::byte) AND 1 \<noteq> 0 \<longleftrightarrow> bit b k" for b k by (simp add: and_one_eq bit_iff_odd_drop_bit odd_iff_mod_2_eq_one)
  then show ?thesis using byte_in [OF assms] by (simp add: scl_bloom_test_bit_def bit_at_def unat_div_8)
qed

section \<open>The contract\<close>

definition bloom_inv :: "scl_bloom_t \<Rightarrow> bool" where
  "bloom_inv s \<longleftrightarrow> bf_bit_count s \<noteq> 0 \<and> 1 \<le> bf_num_hashes s \<and> bf_num_hashes s \<le> 64 \<and>
     (case bf_bits s of None \<Rightarrow> False
      | Some b \<Rightarrow> length b = unat (bf_byte_count s) \<and> holds b (bf_bit_count s))"

text \<open>The filter would answer yes.\<close>

definition bloom_has :: "scl_bloom_t \<Rightarrow> block \<Rightarrow> nat \<Rightarrow> bool" where
  "bloom_has s data len \<longleftrightarrow> (\<forall>i < unat (bf_num_hashes s). \<forall>idx.
     bloom_index s data len i = Some idx \<longrightarrow> bit_at (the (bf_bits s)) idx)"

lemma bloom_init_spec:
  assumes a: "scl_allocator a"
    and init: "scl_bloom_init bits_of hashes_of a (Some s0) n r (Some h) = (SCL_OK, Some s)"
  shows "bloom_inv s" and "bf_hash_func s = h" and "bf_inserted s = 0"
proof -
  from init obtain bits_d where bits_d: "n \<noteq> 0" "bits_of n r = Some bits_d"
    by (auto simp: scl_bloom_init_def split: if_splits option.splits)
  define bits where "bits = (if bits_d = 0 then 1 else bits_d)"
  define k where "k = hashes_of bits n"
  from init bits_d obtain padded b where p: "scl_add_overflow bits 7 = Some padded"
    and b: "calloc_fn a 0 (padded div 8) 1 max_align = Some b"
    and s: "s = \<lparr>bf_bits = Some b, bf_bit_count = bits, bf_byte_count = padded div 8,
      bf_num_hashes = (if k < 1 then 1 else if 64 < k then 64 else k), bf_hash_func = h, bf_inserted = 0\<rparr>"
    by (auto simp: scl_bloom_init_def Let_def bits_def [symmetric] k_def [symmetric] split: option.splits)
  have len: "length b = unat (padded div 8)" using scl_allocator.calloc_block [OF a b] by (simp add: is_object_def)
  have "unat padded = unat bits + 7" using scl_add_overflow_Some [OF p] by simp
  then have "unat bits \<le> 8 * length b" using len by (simp add: unat_div_8)
  moreover have "bits \<noteq> 0" by (simp add: bits_def)
  moreover have "1 \<le> (if k < 1 then 1 else if 64 < k then 64 else k) \<and> (if k < 1 then 1 else if 64 < k then 64 else k) \<le> 64"
    by (auto simp: not_less word_le_unat Suc_le_eq unat_pos_iff)
  ultimately show "bloom_inv s" using len by (auto simp: s bloom_inv_def holds_def)
  show "bf_hash_func s = h" "bf_inserted s = 0" by (simp_all add: s)
qed

lemma bloom_index_ok:
  assumes "bloom_inv s" and "bloom_hash (bf_hash_func s)" and "len \<le> length data"
  shows "\<exists>idx. bloom_index s data len i = Some idx \<and> idx < bf_bit_count s"
proof -
  obtain h where "bf_hash_func s data len (of_nat i) = Some h"
    using bloom_hash.hash_total [OF assms(2,3)] by blast
  then show ?thesis using assms(1)
    by (auto simp: bloom_index_def bloom_inv_def word_less_unat unat_mod unat_pos_iff intro!: mod_less_divisor)
qed

lemma bloom_index_bits: "bloom_index (s\<lparr>bf_bits := b, bf_inserted := n\<rparr>) = bloom_index s"
  by (intro ext) (simp add: bloom_index_def cong: if_cong)

lemma bloom_insert_spec:
  assumes inv: "bloom_inv s" and h: "bloom_hash (bf_hash_func s)" and len: "len \<le> length data"
  shows "\<exists>s'. scl_bloom_insert (Some s) (Some data) len = Some (SCL_OK, Some s') \<and> bloom_inv s' \<and>
    bf_hash_func s' = bf_hash_func s \<and> bf_inserted s' = bf_inserted s + 1 \<and> bloom_has s' data len \<and>
    (\<forall>d l. bloom_has s d l \<longrightarrow> bloom_has s' d l)"
proof -
  obtain bits where bits: "bf_bits s = Some bits" "length bits = unat (bf_byte_count s)" "holds bits (bf_bit_count s)"
    using inv by (auto simp: bloom_inv_def split: option.splits)
  define I where "I k bs \<longleftrightarrow> length bs = length bits \<and> (\<forall>j. bit_at bits j \<longrightarrow> bit_at bs j) \<and>
    (\<forall>i < k. \<forall>idx. bloom_index s data len i = Some idx \<longrightarrow> bit_at bs idx)" for k bs
  have "yields (for_up 0 (unat (bf_num_hashes s)) (\<lambda>i bits. do {
       idx \<leftarrow> bloom_index s data len i; scl_bloom_set_bit bits idx }) bits) (I (unat (bf_num_hashes s)))"
  proof (rule for_up_inv)
    fix i bs assume I: "I i bs"
    then have "holds bs (bf_bit_count s)" using bits(3) by (simp add: I_def holds_def)
    moreover obtain idx where idx: "bloom_index s data len i = Some idx" "idx < bf_bit_count s"
      using bloom_index_ok [OF inv h len] by blast
    ultimately obtain bs' where bs': "scl_bloom_set_bit bs idx = Some bs'" "length bs' = length bs" "bit_at bs' idx"
      "\<forall>j. bit_at bs j \<longrightarrow> bit_at bs' j" using set_bit_ok by blast
    then have "I (Suc i) bs'" using I idx(1) by (auto simp: I_def less_Suc_eq)
    then show "yields (do { idx \<leftarrow> bloom_index s data len i; scl_bloom_set_bit bs idx }) (I (Suc i))"
      using idx(1) bs'(1) by simp
  qed (simp_all add: I_def)
  then obtain bs where bs: "for_up 0 (unat (bf_num_hashes s)) (\<lambda>i bits. do {
       idx \<leftarrow> bloom_index s data len i; scl_bloom_set_bit bits idx }) bits = Some bs" "I (unat (bf_num_hashes s)) bs"
    unfolding yields_iff by blast
  let ?s = "s\<lparr>bf_bits := Some bs, bf_inserted := bf_inserted s + 1\<rparr>"
  have "scl_bloom_insert (Some s) (Some data) len = Some (SCL_OK, Some ?s)"
    using bits(1) bs(1) by (simp add: scl_bloom_insert_def)
  moreover have "bloom_inv ?s" using inv bs(2) bits by (simp add: bloom_inv_def I_def holds_def)
  moreover have "bloom_has ?s data len" using bs(2) by (simp add: bloom_has_def bloom_index_bits I_def)
  moreover have "bloom_has ?s d l" if "bloom_has s d l" for d l
    using that bs(2) bits(1) by (simp add: bloom_has_def bloom_index_bits I_def)
  ultimately show ?thesis by (intro exI [of _ ?s]) simp
qed

lemma bloom_probe_true:
  assumes inv: "bloom_inv s" and h: "bloom_hash (bf_hash_func s)" and len: "len \<le> length data"
    and bits: "bf_bits s = Some bits"
  shows "\<exists>r. bloom_probe s bits data len i = Some r \<and>
    (r \<longleftrightarrow> (\<forall>j. i \<le> j \<longrightarrow> j < unat (bf_num_hashes s) \<longrightarrow> (\<forall>idx. bloom_index s data len j = Some idx \<longrightarrow> bit_at bits idx)))"
proof (induction "unat (bf_num_hashes s) - i" arbitrary: i)
  case 0
  then show ?case by (subst bloom_probe.simps) auto
next
  case (Suc n)
  then have i: "i < unat (bf_num_hashes s)" by simp
  obtain idx where idx: "bloom_index s data len i = Some idx" "idx < bf_bit_count s"
    using bloom_index_ok [OF inv h len] by blast
  have "holds bits (bf_bit_count s)" using inv bits by (simp add: bloom_inv_def)
  then have t: "scl_bloom_test_bit bits idx = Some (bit_at bits idx)" using idx(2) by (rule test_bit_ok)
  show ?case
  proof (cases "bit_at bits idx")
    case False
    then have "bloom_probe s bits data len i = Some False" using i idx t by (subst bloom_probe.simps) simp
    then show ?thesis using False i idx(1) by auto
  next
    case True
    have "n = unat (bf_num_hashes s) - (i + 1)" using Suc.hyps(2) by simp
    then obtain r where r: "bloom_probe s bits data len (i + 1) = Some r"
      "r \<longleftrightarrow> (\<forall>j. i + 1 \<le> j \<longrightarrow> j < unat (bf_num_hashes s) \<longrightarrow> (\<forall>idx. bloom_index s data len j = Some idx \<longrightarrow> bit_at bits idx))"
      using Suc.hyps(1) by blast
    have "bloom_probe s bits data len i = Some r" using i idx t True r(1) by (subst bloom_probe.simps) simp
    moreover have "i \<le> j \<longleftrightarrow> j = i \<or> i + 1 \<le> j" for j by auto
    ultimately show ?thesis using r(2) True idx(1) by auto
  qed
qed

lemma bloom_contains_spec:
  assumes "bloom_inv s" and "bloom_hash (bf_hash_func s)" and "len \<le> length data"
  shows "scl_bloom_maybe_contains (Some s) (Some data) len = Some (bloom_has s data len)"
proof -
  obtain bits where bits: "bf_bits s = Some bits" using assms(1) by (auto simp: bloom_inv_def split: option.splits)
  from bloom_probe_true [OF assms bits, of 0] show ?thesis
    using bits by (auto simp: scl_bloom_maybe_contains_def bloom_has_def)
qed

text \<open>After clearing, everything is absent.\<close>

lemma bloom_clear_spec:
  assumes inv: "bloom_inv s" and h: "bloom_hash (bf_hash_func s)"
  shows "\<exists>s'. scl_bloom_clear (Some s) = Some (Some s') \<and> bloom_inv s' \<and> bf_hash_func s' = bf_hash_func s \<and>
    bf_inserted s' = 0 \<and> (\<forall>d l. l \<le> length d \<longrightarrow> \<not> bloom_has s' d l)"
proof -
  obtain bits where bits: "bf_bits s = Some bits" "length bits = unat (bf_byte_count s)" "holds bits (bf_bit_count s)"
    using inv by (auto simp: bloom_inv_def split: option.splits)
  let ?z = "replicate (length bits) (0::byte)"
  let ?s = "s\<lparr>bf_bits := Some ?z, bf_inserted := 0\<rparr>"
  have run: "scl_bloom_clear (Some s) = Some (Some ?s)"
    using bits by (simp add: scl_bloom_clear_def mem_write_def)
  have inv': "bloom_inv ?s" using inv bits by (simp add: bloom_inv_def holds_def)
  have "\<not> bloom_has ?s d l" if l: "l \<le> length d" for d l
  proof -
    obtain idx where idx: "bloom_index s d l 0 = Some idx" "idx < bf_bit_count s"
      using bloom_index_ok [OF inv h l] by blast
    have "unat idx div 8 < length bits" using byte_in [OF bits(3) idx(2)] .
    then have "\<not> bit_at ?z idx" by (simp add: bit_at_def)
    moreover have "0 < unat (bf_num_hashes s)" using inv by (auto simp: bloom_inv_def unat_pos_iff)
    ultimately show ?thesis using idx(1) unfolding bloom_has_def by (auto simp: bloom_index_bits)
  qed
  then show ?thesis using run inv' by (intro exI [of _ ?s]) simp
qed

end
