(* ===== verification/Scl_Sort_Int.thy ===== *)
theory Scl_Sort_Int
  imports Scl_Typed Scl_Sort_Quick
begin

text \<open>
  The sorts of \<open>int32_t\<close> arrays that do not compare: the radix sort of \<open>libs/sort/scl_sort.c\<close> and
  \<open>radix/scl_radix.c\<close>, and the counting sort of \<open>scl_sort.c\<close> and \<open>counting/scl_counting.c\<close>. An
  \<open>int32_t\<close> is a 32-bit word read with \<open>sint\<close>; the counters are indexed by natural numbers and never
  exceed the number of elements.

  The radix sort distributes by the unsigned bytes of the values, so its order is the unsigned one:
  negative numbers end up behind the others. The counting sorts compute \<open>max - min\<close> in \<open>int\<close>, which
  overflows for arrays that span more than half the range; the model has no result there.
\<close>

section \<open>Distribution by a key\<close>

text \<open>\<open>for (i = 0; i < count; i++) counts[key(base[i])]++;\<close>\<close>

definition tally :: "('a \<Rightarrow> nat ub) \<Rightarrow> nat \<Rightarrow> 'a list \<Rightarrow> nat list \<Rightarrow> nat list ub" where
  "tally key cnt xs counts = for_up 0 cnt (\<lambda>i counts. do {
     v \<leftarrow> at xs i;
     k \<leftarrow> key v;
     n \<leftarrow> at counts k;
     put_at counts k (n + 1)
   }) counts"

text \<open>Counters to starting positions.\<close>

definition radix_starts :: "nat list \<Rightarrow> nat list ub" where
  "radix_starts bucket = map_option fst (for_up 0 256 (\<lambda>i (bucket, tot). do {
     old \<leftarrow> at bucket i;
     bucket \<leftarrow> put_at bucket i tot;
     Some (bucket, tot + old)
   }) (bucket, 0))"

definition radix_digit :: "nat \<Rightarrow> 32 word \<Rightarrow> nat" where
  "radix_digit shift v = unat (ucast (signed_drop_bit shift v) :: byte)"

definition radix_scatter :: "nat \<Rightarrow> nat \<Rightarrow> 32 word list \<Rightarrow> nat list \<Rightarrow> 32 word list \<Rightarrow> 32 word list ub" where
  "radix_scatter shift cnt xs bucket output = map_option snd (for_up 0 cnt (\<lambda>i (bucket, output). do {
     v \<leftarrow> at xs i;
     p \<leftarrow> at bucket (radix_digit shift v);
     bucket \<leftarrow> put_at bucket (radix_digit shift v) (p + 1);
     output \<leftarrow> put_at output p v;
     Some (bucket, output)
   }) (bucket, output))"

definition radix_pass :: "nat \<Rightarrow> nat \<Rightarrow> 32 word list \<times> 32 word list \<Rightarrow> (32 word list \<times> 32 word list) ub" where
  "radix_pass shift cnt st = do {
     bucket \<leftarrow> tally (\<lambda>v. Some (radix_digit shift v)) cnt (fst st) (replicate 256 0);
     bucket \<leftarrow> radix_starts bucket;
     output \<leftarrow> radix_scatter shift cnt (fst st) bucket (snd st);
     Some (take cnt output @ drop cnt (fst st), output)
   }"

text \<open>\<open>for (shift = 0; shift < 32; shift += 8)\<close>\<close>

definition radix_passes :: "nat \<Rightarrow> 32 word list \<times> 32 word list \<Rightarrow> (32 word list \<times> 32 word list) ub" where
  "radix_passes cnt st = for_up 0 4 (\<lambda>k. radix_pass (8 * k) cnt) st"

definition scl_sort_radix :: "scl_allocator_t \<Rightarrow> 32 word list ptr \<Rightarrow> size_t \<Rightarrow> (scl_error_t \<times> 32 word list ptr) ub" where
  "scl_sort_radix a base cnt =
     (case base of
        None \<Rightarrow> Some (SCL_ERR_NULL_PTR, base)
      | Some xs \<Rightarrow>
          if cnt < 2 then Some (SCL_OK, base)
          else (case scl_mul_overflow cnt 4 of
              None \<Rightarrow> Some (SCL_ERR_SIZE_OVERFLOW, base)
            | Some bytes \<Rightarrow>
                (case malloc_fn a 0 bytes max_align of
                   None \<Rightarrow> Some (SCL_ERR_OUT_OF_MEMORY, base)
                 | Some b \<Rightarrow> do {
                     (xs, output) \<leftarrow> radix_passes (unat cnt) (xs, i32_array b);
                     Some (SCL_OK, Some xs)
                   })))"

definition scl_sort_radix_sort :: "scl_allocator_t \<Rightarrow> 32 word list ptr \<Rightarrow> size_t \<Rightarrow> (scl_error_t \<times> 32 word list ptr) ub" where
  "scl_sort_radix_sort a base cnt =
     (case base of
        None \<Rightarrow> Some (SCL_ERR_NULL_PTR, base)
      | Some xs \<Rightarrow>
          if cnt < 2 then Some (SCL_OK, base)
          else (case scl_mul_overflow cnt 4 of
              None \<Rightarrow> Some (SCL_ERR_SIZE_OVERFLOW, base)
            | Some bytes \<Rightarrow>
                (case malloc_fn a 0 bytes max_align of
                   None \<Rightarrow> Some (SCL_ERR_OUT_OF_MEMORY, base)
                 | Some b \<Rightarrow> do {
                     (xs, output) \<leftarrow> radix_passes (unat cnt) (xs, i32_array b);
                     Some (SCL_OK, Some xs)
                   })))"

section \<open>Counting sort\<close>

text \<open>Subtraction of two \<open>int\<close>s; the result has to fit.\<close>

definition int_sub :: "int \<Rightarrow> int \<Rightarrow> int ub" where
  "int_sub x y = (if - (2 ^ 31) \<le> x - y \<and> x - y < 2 ^ 31 then Some (x - y) else None)"

definition int_add :: "int \<Rightarrow> int \<Rightarrow> int ub" where
  "int_add x y = (if - (2 ^ 31) \<le> x + y \<and> x + y < 2 ^ 31 then Some (x + y) else None)"

definition counting_extent :: "nat \<Rightarrow> 32 word list \<Rightarrow> (int \<times> int) ub" where
  "counting_extent cnt xs = do {
     x0 \<leftarrow> at xs 0;
     for_up 1 cnt (\<lambda>i (mn, mx). do {
       v \<leftarrow> at xs i;
       Some (if sint v < mn then sint v else mn, if mx < sint v then sint v else mx)
     }) (sint x0, sint x0)
   }"

text \<open>\<open>counts[(size_t)(base[i] - min_val)]\<close>\<close>

definition counting_key :: "int \<Rightarrow> 32 word \<Rightarrow> nat ub" where
  "counting_key mn v = do { d \<leftarrow> int_sub (sint v) mn; Some (unat (word_of_int d :: size_t)) }"

text \<open>The two loops that write the elements back.\<close>

definition counting_emit :: "(nat \<Rightarrow> 32 word ub) \<Rightarrow> nat \<Rightarrow> nat list \<Rightarrow> 32 word list \<Rightarrow> 32 word list ub" where
  "counting_emit val rng counts xs = map_option snd (for_up 0 rng (\<lambda>i st. do {
     n \<leftarrow> at counts i;
     for_up 0 n (\<lambda>j (idx, xs). do { v \<leftarrow> val i; xs \<leftarrow> put_at xs idx v; Some (idx + 1, xs) }) st
   }) (0, xs))"

definition scl_sort_counting :: "scl_allocator_t \<Rightarrow> 32 word list ptr \<Rightarrow> size_t \<Rightarrow> (scl_error_t \<times> 32 word list ptr) ub" where
  "scl_sort_counting a base cnt =
     (case base of
        None \<Rightarrow> Some (SCL_ERR_NULL_PTR, base)
      | Some xs \<Rightarrow>
          if cnt < 2 then Some (SCL_OK, base)
          else do {
            (mn, mx) \<leftarrow> counting_extent (unat cnt) xs;
            d \<leftarrow> int_sub mx mn;
            case scl_add_overflow (word_of_int d) 1 of
              None \<Rightarrow> Some (SCL_ERR_SIZE_OVERFLOW, base)
            | Some rng \<Rightarrow>
                (case calloc_fn a 0 rng 8 max_align of
                   None \<Rightarrow> Some (SCL_ERR_OUT_OF_MEMORY, base)
                 | Some b \<Rightarrow> do {
                     counts \<leftarrow> tally (counting_key mn) (unat cnt) xs (map unat (u64_array b));
                     ys \<leftarrow> counting_emit (\<lambda>i. Some (ucast (word_of_int mn + of_nat i :: size_t))) (unat rng) counts xs;
                     Some (SCL_OK, Some ys)
                   })
          })"

text \<open>The bins are limited; beyond the limit the array goes to \<open>scl_sort_quick_sort\<close>.\<close>

definition scl_sort_counting_sort :: "scl_allocator_t \<Rightarrow> 32 word list ptr \<Rightarrow> size_t \<Rightarrow> (scl_error_t \<times> 32 word list ptr) ub" where
  "scl_sort_counting_sort a base cnt =
     (case base of
        None \<Rightarrow> Some (SCL_ERR_NULL_PTR, base)
      | Some xs \<Rightarrow>
          if cnt < 2 then Some (SCL_OK, base)
          else do {
            (mn, mx) \<leftarrow> counting_extent (unat cnt) xs;
            d \<leftarrow> int_sub mx mn;
            let rng = (word_of_int d :: size_t) + 1;
            if 1048576 < rng then scl_sort_quick_sort a base (unat cnt) 4 (Some scl_counting_i32_cmp)
            else (case calloc_fn a 0 rng 8 max_align of
                   None \<Rightarrow> Some (SCL_ERR_OUT_OF_MEMORY, base)
                 | Some b \<Rightarrow> do {
                     counts \<leftarrow> tally (counting_key mn) (unat cnt) xs (map unat (u64_array b));
                     ys \<leftarrow> counting_emit (\<lambda>i. map_option word_of_int (int_add mn (int i))) (unat rng) counts xs;
                     Some (SCL_OK, Some ys)
                   })
          })"

section \<open>What distribution computes\<close>

definition class_of :: "('a \<Rightarrow> nat) \<Rightarrow> nat \<Rightarrow> 'a list \<Rightarrow> 'a list" where
  "class_of k d xs = filter (\<lambda>x. k x = d) xs"

lemma class_of_snoc: "class_of k d (xs @ [x]) = class_of k d xs @ (if k x = d then [x] else [])"
  by (simp add: class_of_def)

lemma filter_class: "filter (\<lambda>y. k x = k y) ys = class_of k (k x) ys"
  unfolding class_of_def by (rule filter_cong) auto

lemma class_of_sort: "class_of k d (sort_key k xs) = class_of k d xs"
  unfolding class_of_def by (rule sort_key_stable)

text \<open>The classes in order are the stable sort by the key.\<close>

lemma class_of_classes: "class_of k d (concat (map (\<lambda>i. class_of k i xs) [0..<n])) = (if d < n then class_of k d xs else [])"
proof (induction n)
  case (Suc n)
  have "class_of k d (class_of k n xs) = (if d = n then class_of k n xs else [])"
    by (auto simp: class_of_def filter_empty_conv)
  then show ?case using Suc by (simp add: class_of_def)
qed (simp add: class_of_def)

lemma sorted_classes: "sorted (map k (concat (map (\<lambda>i. class_of k i xs) [0..<n])))"
proof (induction n)
  case (Suc n)
  have "map k (class_of k n xs) = replicate (length (class_of k n xs)) n"
    by (intro replicate_eqI) (auto simp: class_of_def)
  then show ?case using Suc by (auto simp: sorted_append class_of_def)
qed simp

lemma mset_classes: "(\<forall>x \<in> set xs. k x < n) \<Longrightarrow> mset (concat (map (\<lambda>i. class_of k i xs) [0..<n])) = mset xs"
proof (rule multiset_eqI)
  fix x assume k: "\<forall>x \<in> set xs. k x < n"
  let ?c = "concat (map (\<lambda>i. class_of k i xs) [0..<n])"
  have f: "count (mset ys) x = count (mset (class_of k (k x) ys)) x" for ys
    by (induction ys) (auto simp: class_of_def)
  have "class_of k (k x) ?c = class_of k (k x) xs"
    using k by (cases "k x < n") (auto simp: class_of_classes, auto simp: class_of_def empty_filter_conv)
  then show "count (mset ?c) x = count (mset xs) x" using f by metis
qed

lemma classes_sort:
  assumes "\<forall>x \<in> set xs. k x < n"
  shows "concat (map (\<lambda>i. class_of k i xs) [0..<n]) = sort_key k xs"
proof (rule sym, rule properties_for_sort_key)
  show "mset (concat (map (\<lambda>i. class_of k i xs) [0..<n])) = mset xs" using assms by (rule mset_classes)
  then have set: "set (concat (map (\<lambda>i. class_of k i xs) [0..<n])) = set xs" by (metis set_mset_mset)
  show "filter (\<lambda>y. k x = k y) (concat (map (\<lambda>i. class_of k i xs) [0..<n])) = filter (\<lambda>y. k x = k y) xs"
    if "x \<in> set (concat (map (\<lambda>i. class_of k i xs) [0..<n]))" for x
  proof -
    have "k x < n" using that assms unfolding set by blast
    then show ?thesis unfolding filter_class by (simp add: class_of_classes)
  qed
  show "sorted (map k (concat (map (\<lambda>i. class_of k i xs) [0..<n])))" by (rule sorted_classes)
qed

subsection \<open>Sorting by digits\<close>

text \<open>Sorting a list that is sorted by a minor key, by a major key, sorts by both.\<close>

lemma insort_minor:
  fixes f g :: "'a \<Rightarrow> nat"
  assumes "\<forall>y \<in> set ys. f x \<le> f y" and "f x < b" and "\<forall>y \<in> set ys. f y < b"
  shows "insort_key g x ys = insort_key (\<lambda>x. g x * b + f x) x ys"
  using assms(1,3)
proof (induction ys)
  case (Cons y ys)
  have "g x \<le> g y \<longleftrightarrow> g x * b + f x \<le> g y * b + f y"
  proof
    assume "g x \<le> g y"
    then have "g x * b \<le> g y * b" by simp
    then show "g x * b + f x \<le> g y * b + f y" using Cons.prems by (intro add_mono) simp_all
  next
    assume le: "g x * b + f x \<le> g y * b + f y"
    show "g x \<le> g y"
    proof (rule ccontr)
      assume "\<not> g x \<le> g y"
      then have "(g y + 1) * b \<le> g x * b" by (intro mult_le_mono1) simp
      then have "g y * b + b \<le> g x * b" by simp
      moreover have "f y < b" using Cons.prems by simp
      ultimately show False using le by linarith
    qed
  qed
  then show ?case using Cons by simp
qed simp

lemma sort_minor:
  fixes f g :: "'a \<Rightarrow> nat"
  shows "sorted (map f xs) \<Longrightarrow> \<forall>x \<in> set xs. f x < b \<Longrightarrow> sort_key g xs = sort_key (\<lambda>x. g x * b + f x) xs"
proof (induction xs)
  case (Cons x xs)
  then have "insort_key g x (sort_key g xs) = insort_key (\<lambda>x. g x * b + f x) x (sort_key g xs)"
    by (intro insort_minor) simp_all
  then show ?case using Cons by simp
qed simp

lemma sort_by_digits:
  fixes f g :: "'a \<Rightarrow> nat"
  assumes "\<forall>x \<in> set xs. f x < b"
  shows "sort_key g (sort_key f xs) = sort_key (\<lambda>x. g x * b + f x) xs"
proof -
  let ?h = "\<lambda>x. g x * b + f x"
  have eq: "sort_key g (sort_key f xs) = sort_key ?h (sort_key f xs)" using assms by (intro sort_minor) simp_all
  have "sort_key ?h xs = sort_key ?h (sort_key f xs)"
  proof (rule properties_for_sort_key)
    fix x assume "x \<in> set (sort_key ?h (sort_key f xs))"
    then have x: "f x < b" using assms by simp
    have same: "?h y = ?h x \<longleftrightarrow> f y = f x \<and> g y = g x" if "f y < b" for y
    proof
      assume "?h y = ?h x"
      then have "?h y mod b = ?h x mod b" "?h y div b = ?h x div b" by simp_all
      then show "f y = f x \<and> g y = g x" using x that by simp
    qed simp
    have split: "class_of ?h (?h x) ys = class_of g (g x) (class_of f (f x) ys)" if "set ys \<subseteq> set xs" for ys
      unfolding class_of_def filter_filter using assms same that by (intro filter_cong) auto
    show "filter (\<lambda>y. ?h x = ?h y) (sort_key ?h (sort_key f xs)) = filter (\<lambda>y. ?h x = ?h y) xs"
      unfolding filter_class [of ?h] by (simp add: class_of_sort split)
  qed simp_all
  then show ?thesis using eq by simp
qed

subsection \<open>The counters\<close>

definition class_sizes :: "('a \<Rightarrow> nat) \<Rightarrow> nat \<Rightarrow> 'a list \<Rightarrow> nat list" where
  "class_sizes k n xs = map (\<lambda>d. length (class_of k d xs)) [0..<n]"

lemma length_class_sizes [simp]: "length (class_sizes k n xs) = n"
  by (simp add: class_sizes_def)

lemma nth_class_sizes [simp]: "d < n \<Longrightarrow> class_sizes k n xs ! d = length (class_of k d xs)"
  by (simp add: class_sizes_def)

lemma class_sizes_snoc: "class_sizes k n (xs @ [x]) = (class_sizes k n xs)[k x := class_sizes k n xs ! k x + 1]"
  by (intro nth_equalityI) (auto simp: class_of_snoc nth_list_update)

lemma tally_spec:
  assumes key: "\<And>x. x \<in> set xs \<Longrightarrow> key x = Some (k x) \<and> k x < n"
  shows "tally key (length xs) xs (replicate n 0) = Some (class_sizes k n xs)"
proof -
  have "yields (tally key (length xs) xs (replicate n 0)) (\<lambda>c. c = class_sizes k n xs)"
    unfolding tally_def
  proof (rule for_up_rule [where I = "\<lambda>i c. c = class_sizes k n (take i xs)"])
    show "replicate n 0 = class_sizes k n (take 0 xs)" by (intro nth_equalityI) (simp_all add: class_of_def)
    fix i c assume i: "i < length xs" and c: "c = class_sizes k n (take i xs)"
    have "key (xs ! i) = Some (k (xs ! i))" "k (xs ! i) < n" using key i by simp_all
    then show "yields (do { v \<leftarrow> at xs i; k \<leftarrow> key v; n \<leftarrow> at c k; put_at c k (n + 1) })
        (\<lambda>c. c = class_sizes k n (take (Suc i) xs))"
      using i c by (simp add: take_Suc_conv_app_nth class_sizes_snoc)
  qed simp_all
  then show ?thesis by (auto simp: yields_iff)
qed

definition class_start :: "('a \<Rightarrow> nat) \<Rightarrow> nat \<Rightarrow> 'a list \<Rightarrow> nat" where
  "class_start k d xs = length (concat (map (\<lambda>i. class_of k i xs) [0..<d]))"

lemma class_start_Suc: "class_start k (Suc d) xs = class_start k d xs + length (class_of k d xs)"
  by (simp add: class_start_def)

lemma class_start_0 [simp]: "class_start k 0 xs = 0"
  by (simp add: class_start_def)

lemma class_start_mono: "d \<le> e \<Longrightarrow> class_start k d xs \<le> class_start k e xs"
  by (induction e rule: nat_induct_at_least) (simp_all add: class_start_Suc)

lemma class_start_all: "\<forall>x \<in> set xs. k x < n \<Longrightarrow> class_start k n xs = length xs"
  unfolding class_start_def using mset_classes [of xs k n] mset_eq_length by blast

lemma radix_starts_spec:
  "radix_starts (class_sizes k 256 xs) = Some (map (\<lambda>d. class_start k d xs) [0..<256])"
proof -
  let ?b = "class_sizes k 256 xs"
  have "yields (for_up 0 256 (\<lambda>i (bucket, tot). do {
      old \<leftarrow> at bucket i; bucket \<leftarrow> put_at bucket i tot; Some (bucket, tot + old) }) (?b, 0))
    (\<lambda>st. fst st = map (\<lambda>d. class_start k d xs) [0..<256])"
  proof (rule for_up_rule [where I = "\<lambda>i st. st = (map (\<lambda>d. class_start k d xs) [0..<i] @ drop i ?b, class_start k i xs)"])
    fix i :: nat and st assume i: "i < 256" and st: "st = (map (\<lambda>d. class_start k d xs) [0..<i] @ drop i ?b, class_start k i xs)"
    have "drop i ?b = ?b ! i # drop (Suc i) ?b" using i by (simp add: Cons_nth_drop_Suc del: nth_class_sizes)
    then show "yields (case st of (bucket, tot) \<Rightarrow> do {
        old \<leftarrow> at bucket i; bucket \<leftarrow> put_at bucket i tot; Some (bucket, tot + old) })
      (\<lambda>st. st = (map (\<lambda>d. class_start k d xs) [0..<Suc i] @ drop (Suc i) ?b, class_start k (Suc i) xs))"
      using i by (simp add: st at_def put_at_def nth_append list_update_append class_start_Suc)
  qed simp_all
  then show ?thesis unfolding radix_starts_def by (auto simp: yields_iff)
qed

subsection \<open>Scattering\<close>

lemma class_start_less: "d < e \<Longrightarrow> j < length (class_of k d xs) \<Longrightarrow> class_start k d xs + j < class_start k e xs"
  using class_start_mono [of "Suc d" e k xs] by (simp add: class_start_Suc)

lemma class_position:
  assumes "j < length (class_of k d xs)" and "j' < length (class_of k e xs)" and "class_start k d xs + j = class_start k e xs + j'"
  shows "d = e \<and> j = j'"
  using assms class_start_less [of d e j k xs] class_start_less [of e d j' k xs] by (cases d e rule: linorder_cases) auto

lemma class_less: "xs = ys @ x # zs \<Longrightarrow> length (class_of k (k x) ys) < length (class_of k (k x) xs)"
  by (simp add: class_of_def)

lemma class_take_less:
  "i < length xs \<Longrightarrow> length (class_of k (k (xs ! i)) (take i xs)) < length (class_of k (k (xs ! i)) xs)"
  by (rule class_less [OF id_take_nth_drop])

lemma class_take_le: "length (class_of k d (take i xs)) \<le> length (class_of k d xs)"
  unfolding class_of_def by (metis append_take_drop_id filter_append le_add1 length_append)

text \<open>The elements placed so far.\<close>

definition placed :: "('a \<Rightarrow> nat) \<Rightarrow> 'a list \<Rightarrow> nat \<Rightarrow> 'a list \<Rightarrow> bool" where
  "placed k xs i out \<longleftrightarrow> length out = length xs \<and>
     (\<forall>d < 256. \<forall>j < length (class_of k d (take i xs)). out ! (class_start k d xs + j) = class_of k d (take i xs) ! j)"

lemma placed_all:
  assumes out: "placed k xs (length xs) out" and k: "\<forall>x \<in> set xs. k x < 256"
  shows "out = sort_key k xs"
proof -
  have all: "class_start k 256 xs = length xs" using k by (rule class_start_all)
  have "take (class_start k d xs) out = concat (map (\<lambda>i. class_of k i xs) [0..<d])" if "d \<le> 256" for d
    using that
  proof (induction d)
    case (Suc d)
    have le: "class_start k d xs + length (class_of k d xs) \<le> length out"
      using class_start_mono [of "Suc d" 256 k xs] Suc.prems all out by (simp add: class_start_Suc placed_def)
    have "take (length (class_of k d xs)) (drop (class_start k d xs) out) = class_of k d xs"
      using out Suc.prems le by (intro nth_equalityI) (simp_all add: placed_def)
    then show ?case using Suc by (simp add: class_start_Suc take_add)
  qed simp
  then have "take (class_start k 256 xs) out = sort_key k xs" using classes_sort [OF k] by simp
  then show ?thesis using out all by (simp add: placed_def)
qed

lemma placed_step:
  assumes out: "placed k xs i out" and i: "i < length xs" and k: "\<forall>x \<in> set xs. k x < 256"
  shows "placed k xs (Suc i) (out[class_start k (k (xs ! i)) xs + length (class_of k (k (xs ! i)) (take i xs)) := xs ! i])"
    (is "placed k xs (Suc i) (out[?p := xs ! i])")
  unfolding placed_def
proof (intro conjI allI impI)
  let ?d = "k (xs ! i)"
  let ?c = "length (class_of k ?d (take i xs))"
  show "length (out[?p := xs ! i]) = length xs" using out by (simp add: placed_def)
  have lt: "?c < length (class_of k ?d xs)" using i by (rule class_take_less)
  have "?d < 256" using k i by simp
  then have p: "?p < length out"
    using class_start_less [OF _ lt, of 256] class_start_all [OF k] out by (simp add: placed_def)
  fix d j assume d: "d < 256" and j: "j < length (class_of k d (take (Suc i) xs))"
  have snoc: "class_of k d (take (Suc i) xs) = class_of k d (take i xs) @ (if ?d = d then [xs ! i] else [])"
    using i by (simp add: take_Suc_conv_app_nth class_of_snoc)
  show "out[?p := xs ! i] ! (class_start k d xs + j) = class_of k d (take (Suc i) xs) ! j"
  proof (cases "j < length (class_of k d (take i xs))")
    case True
    have j': "j < length (class_of k d xs)" using True class_take_le [of k d i xs] by linarith
    have "class_start k d xs + j \<noteq> ?p"
    proof
      assume "class_start k d xs + j = ?p"
      then have "d = ?d \<and> j = ?c" using class_position [OF j' lt] by blast
      then show False using True by simp
    qed
    then show ?thesis using True out d by (simp add: snoc nth_append placed_def)
  next
    case False
    then have "d = ?d" "j = ?c" using j by (auto simp: snoc split: if_splits)
    then show ?thesis unfolding snoc using p by (simp add: nth_append)
  qed
qed

lemma radix_digit_less: "radix_digit shift v < 256"
  using unsigned_less [of "ucast (signed_drop_bit shift v) :: byte"] by (simp add: radix_digit_def)

lemma radix_scatter_spec:
  assumes "length output = length xs"
  shows "radix_scatter shift (length xs) xs (map (\<lambda>d. class_start (radix_digit shift) d xs) [0..<256]) output
    = Some (sort_key (radix_digit shift) xs)"
proof -
  let ?k = "radix_digit shift"
  have k: "\<forall>x \<in> set xs. ?k x < 256" by (simp add: radix_digit_less)
  let ?b = "\<lambda>i. map (\<lambda>d. class_start ?k d xs + length (class_of ?k d (take i xs))) [0..<256]"
  have "yields (for_up 0 (length xs) (\<lambda>i (bucket, output). do {
       v \<leftarrow> at xs i; p \<leftarrow> at bucket (?k v); bucket \<leftarrow> put_at bucket (?k v) (p + 1);
       output \<leftarrow> put_at output p v; Some (bucket, output) })
      (map (\<lambda>d. class_start ?k d xs) [0..<256], output)) (\<lambda>st. snd st = sort_key ?k xs)"
  proof (rule for_up_rule [where I = "\<lambda>i st. fst st = ?b i \<and> placed ?k xs i (snd st)"])
    show "fst (map (\<lambda>d. class_start ?k d xs) [0..<256], output) = ?b 0 \<and>
        placed ?k xs 0 (snd (map (\<lambda>d. class_start ?k d xs) [0..<256], output))"
      using assms by (simp add: placed_def class_of_def)
    show "snd st = sort_key ?k xs" if "fst st = ?b (length xs) \<and> placed ?k xs (length xs) (snd st)" for st
      using placed_all [OF _ k] that by blast
    fix i and st :: "nat list \<times> 32 word list"
    assume i: "i < length xs" and st: "fst st = ?b i \<and> placed ?k xs i (snd st)"
    let ?d = "?k (xs ! i)"
    let ?p = "class_start ?k ?d xs + length (class_of ?k ?d (take i xs))"
    have d: "?d < 256" by (rule radix_digit_less)
    have "?p < length (snd st)"
      using class_start_less [OF d class_take_less [OF i, of ?k]] class_start_all [OF k] st by (simp add: placed_def)
    moreover have "(?b i)[?d := ?p + 1] = ?b (Suc i)"
      using i by (intro nth_equalityI) (auto simp: take_Suc_conv_app_nth class_of_snoc nth_list_update)
    ultimately show "yields (case st of (bucket, output) \<Rightarrow> do {
       v \<leftarrow> at xs i; p \<leftarrow> at bucket (?k v); bucket \<leftarrow> put_at bucket (?k v) (p + 1);
       output \<leftarrow> put_at output p v; Some (bucket, output) }) (\<lambda>st. fst st = ?b (Suc i) \<and> placed ?k xs (Suc i) (snd st))"
      using i st d placed_step [OF _ i k, of "snd st"] by (cases st) simp
  qed simp
  then show ?thesis unfolding radix_scatter_def by (auto simp: yields_iff)
qed

lemma radix_pass_spec:
  assumes "length output = length xs"
  shows "radix_pass shift (length xs) (xs, output)
    = Some (sort_key (radix_digit shift) xs, sort_key (radix_digit shift) xs)"
proof -
  have "tally (\<lambda>v. Some (radix_digit shift v)) (length xs) xs (replicate 256 0)
      = Some (class_sizes (radix_digit shift) 256 xs)"
    by (rule tally_spec) (simp add: radix_digit_less)
  then show ?thesis using assms by (simp add: radix_pass_def radix_starts_spec radix_scatter_spec)
qed

lemma radix_digit_eq:
  assumes "shift = 0 \<or> shift = 8 \<or> shift = 16 \<or> shift = 24"
  shows "radix_digit shift v = unat v div 2 ^ shift mod 256"
proof -
  have "unat v < 2 ^ LENGTH(32)" by (rule unsigned_less)
  then have v: "unat v mod 4294967296 = unat v" by simp
  have "(ucast (signed_drop_bit shift v) :: byte) = ucast (drop_bit shift v)"
    using assms by (intro bit_word_eqI) (auto simp: bit_signed_drop_bit_iff bit_drop_bit_eq bit_ucast_iff)
  moreover have "unat (ucast (drop_bit shift v) :: byte) = unat v div 2 ^ shift mod 256"
    using v by (simp add: unsigned_ucast_eq take_bit_eq_mod unsigned_drop_bit_eq) (simp add: drop_bit_eq_div)
  ultimately show ?thesis by (simp add: radix_digit_def)
qed

lemma radix_digits:
  "radix_digit 24 v * 16777216 + (radix_digit 16 v * 65536 + (radix_digit 8 v * 256 + radix_digit 0 v)) = unat v"
proof -
  have "unat v < 2 ^ LENGTH(32)" by (rule unsigned_less)
  then have "unat v div 16777216 < 256" by simp
  then have c: "unat v div 256 div 256 div 256 < 256" by (simp flip: div_mult2_eq)
  have "radix_digit 0 v = unat v mod 256" "radix_digit 8 v = unat v div 256 mod 256"
    "radix_digit 16 v = unat v div 256 div 256 mod 256" "radix_digit 24 v = unat v div 256 div 256 div 256"
    using c by (simp_all add: radix_digit_eq flip: div_mult2_eq)
  then show ?thesis
    using div_mult_mod_eq [of "unat v" 256] div_mult_mod_eq [of "unat v div 256" 256]
      div_mult_mod_eq [of "unat v div 256 div 256" 256] by linarith
qed

lemma radix_passes_spec:
  assumes "length output = length xs"
  shows "\<exists>out. radix_passes (length xs) (xs, output) = Some (sort_key unat xs, out)"
proof -
  let ?s = "\<lambda>k. sort_key (radix_digit k)"
  have b: "\<forall>x \<in> set ys. radix_digit k x < 256" for k and ys :: "32 word list" by (simp add: radix_digit_less)
  have p: "radix_pass k (length xs) (ys, out) = Some (?s k ys, ?s k ys)" if "length ys = length xs" "length out = length xs" for k ys out
    using radix_pass_spec [of out ys k] that by simp
  have "radix_passes (length xs) (xs, output)
      = Some (?s 24 (?s 16 (?s 8 (?s 0 xs))), ?s 24 (?s 16 (?s 8 (?s 0 xs))))"
    using assms by (simp add: radix_passes_def for_up_def for_n_numeral p)
  moreover have "?s 24 (?s 16 (?s 8 (?s 0 xs))) = sort_key unat xs"
  proof -
    let ?f = "\<lambda>v. radix_digit 8 v * 256 + radix_digit 0 v"
    let ?g = "\<lambda>v. radix_digit 16 v * 65536 + ?f v"
    have r: "radix_digit k v < 256" for k v by (rule radix_digit_less)
    have "?s 8 (?s 0 xs) = sort_key ?f xs" using b by (rule sort_by_digits)
    moreover have "?s 16 (sort_key ?f xs) = sort_key ?g xs"
    proof (rule sort_by_digits)
      have "?f v < 65536" for v using r [of 8 v] r [of 0 v] by linarith
      then show "\<forall>x \<in> set xs. ?f x < 65536" by blast
    qed
    moreover have "?s 24 (sort_key ?g xs) = sort_key (\<lambda>v. radix_digit 24 v * 16777216 + ?g v) xs"
    proof (rule sort_by_digits, rule ballI)
      fix v show "?g v < 16777216" using r [of 8 v] r [of 0 v] r [of 16 v] by linarith
    qed
    moreover have "(\<lambda>v. radix_digit 24 v * 16777216 + ?g v) = unat"
    proof
      fix v show "radix_digit 24 v * 16777216 + ?g v = unat v" by (rule radix_digits)
    qed
    ultimately show ?thesis by simp
  qed
  ultimately show ?thesis by simp
qed

section \<open>What the radix sorts do\<close>

lemma radix_same: "scl_sort_radix_sort = scl_sort_radix"
  by (intro ext) (simp add: scl_sort_radix_sort_def scl_sort_radix_def)

text \<open>Unsigned order, or an error and the array as it was.\<close>

lemma radix_sort_spec:
  assumes a: "scl_allocator a" and xs: "length xs = unat cnt"
  shows "\<exists>err ys. scl_sort_radix a (Some xs) cnt = Some (err, Some ys) \<and>
    (if err = SCL_OK then ys = sort_key unat xs else alloc_failed err \<and> ys = xs)"
proof (cases "cnt < 2")
  case True
  then have "length xs < 2" using xs by (simp add: word_less_unat)
  then have "xs = [] \<or> (\<exists>x. xs = [x])" by (cases xs; cases "tl xs") auto
  then show ?thesis using True by (auto simp: scl_sort_radix_def)
next
  case False
  show ?thesis
  proof (cases "scl_mul_overflow cnt 4")
    case None
    then show ?thesis using False by (simp add: scl_sort_radix_def)
  next
    case bytes: (Some bytes)
    show ?thesis
    proof (cases "malloc_fn a 0 bytes max_align")
      case None
      then show ?thesis using False bytes by (simp add: scl_sort_radix_def)
    next
      case (Some b)
      have "length b = unat cnt * 4"
        using scl_allocator.malloc_object(1) [OF a Some] scl_mul_overflow_Some [OF bytes] by simp
      then have "length (i32_array b) = length xs" using xs by (simp add: i32_array_def)
      from radix_passes_spec [OF this] obtain out where
        "radix_passes (unat cnt) (xs, i32_array b) = Some (sort_key unat xs, out)" using xs by auto
      then show ?thesis using False bytes Some by (simp add: scl_sort_radix_def)
    qed
  qed
qed

text \<open>For arrays without negative numbers that is the signed order.\<close>

lemma sint_nonneg:
  fixes x :: "32 word"
  assumes "0 \<le> sint x"
  shows "sint x = int (unat x)"
proof -
  have u: "0 \<le> uint x" "uint x < 4294967296" using uint_lt2p [of x] by simp_all
  then have "take_bit 32 (uint x) = uint x" by (simp add: take_bit_int_eq_self)
  then have "sint x = uint x - 4294967296 * of_bool (bit (uint x) 31)"
    by (simp add: sint_uint signed_take_bit_eq_take_bit_minus)
  then have "sint x = uint x" using assms u by (cases "bit (uint x) 31") simp_all
  then show ?thesis by simp
qed

lemma sint_inject: "sint (x :: 32 word) = sint y \<longleftrightarrow> x = y"
  by (auto intro: signed_word_eqI [where 'a = int])

lemma sorted_int: "sorted (map int ys) \<Longrightarrow> sorted ys"
  by (simp add: sorted_map)

lemma narrow_widened: "ucast (scast (x :: 32 word) :: 64 word) = x"
  by (intro bit_word_eqI) (simp add: bit_simps)

lemma radix_nonnegative:
  fixes xs :: "32 word list"
  assumes "\<forall>x \<in> set xs. 0 \<le> sint x"
  shows "sort_key unat xs = sort_key sint xs"
proof (rule properties_for_sort_key)
  show "mset (sort_key sint xs) = mset xs" by simp
  show "filter (\<lambda>y. unat x = unat y) (sort_key sint xs) = filter (\<lambda>y. unat x = unat y) xs" for x :: "32 word"
  proof -
    have "filter (\<lambda>y. unat x = unat y) ys = filter (\<lambda>y. sint y = sint x) ys" for ys :: "32 word list"
      by (rule filter_cong) (auto simp: sint_inject word_unat_eq_iff [symmetric])
    then show ?thesis by (simp add: sort_key_stable)
  qed
  have "map sint (sort_key sint xs) = map int (map unat (sort_key sint xs))"
    using assms by (simp add: sint_nonneg)
  then have "sorted (map int (map unat (sort_key sint xs)))" using sorted_sort_key [of sint xs] by argo
  then show "sorted (map unat (sort_key sint xs))" by (rule sorted_int)
qed

section \<open>What the counting sorts do\<close>

lemma counting_extent_spec:
  assumes "xs \<noteq> []"
  shows "counting_extent (length xs) xs = Some (Min (sint ` set xs), Max (sint ` set xs))"
proof -
  have "yields (for_up 1 (length xs) (\<lambda>i (mn, mx). do {
       v \<leftarrow> at xs i; Some (if sint v < mn then sint v else mn, if mx < sint v then sint v else mx) })
      (sint (xs ! 0), sint (xs ! 0))) (\<lambda>st. st = (Min (sint ` set xs), Max (sint ` set xs)))"
  proof (rule for_up_rule [where I = "\<lambda>i st. st = (Min (sint ` set (take i xs)), Max (sint ` set (take i xs)))"])
    have "take 1 xs = [xs ! 0]" using assms by (cases xs) simp_all
    then show "(sint (xs ! 0), sint (xs ! 0)) = (Min (sint ` set (take 1 xs)), Max (sint ` set (take 1 xs)))" by simp
    show "1 \<le> length xs" using assms by (cases xs) simp_all
    fix i st assume i: "1 \<le> i" "i < length xs" and st: "st = (Min (sint ` set (take i xs)), Max (sint ` set (take i xs)))"
    define A where "A = Min (sint ` set (take i xs))"
    define B where "B = Max (sint ` set (take i xs))"
    have "sint ` set (take i xs) \<noteq> {}" using i by auto
    then have "Min (sint ` set (take (Suc i) xs)) = min (sint (xs ! i)) A"
      "Max (sint ` set (take (Suc i) xs)) = max (sint (xs ! i)) B"
      using i(2) unfolding A_def B_def by (simp_all add: take_Suc_conv_app_nth del: Min_le_iff Max_ge_iff)
    then show "yields (case st of (mn, mx) \<Rightarrow> do {
        v \<leftarrow> at xs i; Some (if sint v < mn then sint v else mn, if mx < sint v then sint v else mx) })
      (\<lambda>st. st = (Min (sint ` set (take (Suc i) xs)), Max (sint ` set (take (Suc i) xs))))"
      using i by (simp add: st min_def max_def flip: A_def B_def)
  qed simp_all
  moreover have "at xs 0 = Some (xs ! 0)" using assms by (simp add: at_def)
  ultimately show ?thesis by (auto simp: counting_extent_def yields_iff)
qed

text \<open>Writing a run of equal values, then all runs.\<close>

lemma emit_run:
  assumes "val i = Some v" and "p + n \<le> length xs"
  shows "for_up 0 n (\<lambda>j (idx, xs). do { v \<leftarrow> val i; xs \<leftarrow> put_at xs idx v; Some (idx + 1, xs) }) (p, xs)
    = Some (p + n, take p xs @ replicate n v @ drop (p + n) xs)"
proof -
  have "yields (for_up 0 n (\<lambda>j (idx, xs). do { v \<leftarrow> val i; xs \<leftarrow> put_at xs idx v; Some (idx + 1, xs) }) (p, xs))
      (\<lambda>st. st = (p + n, take p xs @ replicate n v @ drop (p + n) xs))"
  proof (rule for_up_rule [where I = "\<lambda>j st. st = (p + j, take p xs @ replicate j v @ drop (p + j) xs)"])
    fix j st assume j: "j < n" and st: "st = (p + j, take p xs @ replicate j v @ drop (p + j) xs)"
    have "drop (p + j) xs = xs ! (p + j) # drop (Suc (p + j)) xs" using j assms(2) by (simp add: Cons_nth_drop_Suc)
    then show "yields (case st of (idx, xs) \<Rightarrow> do { v \<leftarrow> val i; xs \<leftarrow> put_at xs idx v; Some (idx + 1, xs) })
        (\<lambda>st. st = (p + Suc j, take p xs @ replicate (Suc j) v @ drop (p + Suc j) xs))"
      using j assms by (simp add: st put_at_def list_update_append replicate_append_same flip: replicate_Suc)
  qed simp_all
  then show ?thesis by (auto simp: yields_iff)
qed

lemma emit_spec:
  assumes k: "\<forall>x \<in> set xs. k x < n" and val: "\<And>x. x \<in> set xs \<Longrightarrow> val (k x) = Some x"
  shows "counting_emit val n (class_sizes k n xs) xs = Some (sort_key k xs)"
proof -
  let ?c = "\<lambda>i. concat (map (\<lambda>i. class_of k i xs) [0..<i])"
  have "yields (for_up 0 n (\<lambda>i st. do {
      m \<leftarrow> at (class_sizes k n xs) i;
      for_up 0 m (\<lambda>j (idx, xs). do { v \<leftarrow> val i; xs \<leftarrow> put_at xs idx v; Some (idx + 1, xs) }) st }) (0, xs))
    (\<lambda>st. snd st = sort_key k xs)"
  proof (rule for_up_rule [where I = "\<lambda>i st. st = (class_start k i xs, ?c i @ drop (class_start k i xs) xs)"])
    fix i st assume i: "i < n" and st: "st = (class_start k i xs, ?c i @ drop (class_start k i xs) xs)"
    have len: "class_start k i xs + length (class_of k i xs) \<le> length xs"
      using class_start_mono [of "Suc i" n k xs] i class_start_all [OF k] by (simp add: class_start_Suc)
    have c: "length (?c i) = class_start k i xs" by (simp add: class_start_def)
    show "yields (do { m \<leftarrow> at (class_sizes k n xs) i;
        for_up 0 m (\<lambda>j (idx, xs). do { v \<leftarrow> val i; xs \<leftarrow> put_at xs idx v; Some (idx + 1, xs) }) st })
      (\<lambda>st. st = (class_start k (Suc i) xs, ?c (Suc i) @ drop (class_start k (Suc i) xs) xs))"
    proof (cases "class_of k i xs")
      case Nil
      then show ?thesis using i by (simp add: st at_def class_start_Suc)
    next
      case (Cons y ys)
      then have "y \<in> set (class_of k i xs)" by simp
      then have v: "val i = Some y" using val by (auto simp: class_of_def)
      have "x = y" if "x \<in> set (class_of k i xs)" for x
        using that val v by (force simp: class_of_def)
      then have rep: "class_of k i xs = replicate (length (class_of k i xs)) y" by (intro replicate_eqI) simp_all
      have "for_up 0 (length (class_of k i xs)) (\<lambda>j (idx, xs). do { v \<leftarrow> val i; xs \<leftarrow> put_at xs idx v; Some (idx + 1, xs) }) st
          = Some (class_start k (Suc i) xs, ?c i @ replicate (length (class_of k i xs)) y @ drop (class_start k (Suc i) xs) xs)"
        unfolding st using len c by (subst emit_run [where val = val, OF v]) (simp_all add: class_start_Suc add.commute)
      then show ?thesis using i rep by (simp add: at_def)
    qed
  qed (use classes_sort [OF k] class_start_all [OF k] in simp_all)
  then show ?thesis unfolding counting_emit_def by (auto simp: yields_iff)
qed

text \<open>The key of the counting sorts: the distance from the minimum.\<close>

definition above :: "int \<Rightarrow> 32 word \<Rightarrow> nat" where
  "above mn v = nat (sint v - mn)"

lemma above_eq:
  assumes "mn \<le> sint v" and "sint v - mn < 2 ^ 31"
  shows "counting_key mn v = Some (above mn v)" and "mn + int (above mn v) = sint v"
  using assms by (simp_all add: counting_key_def int_sub_def above_def unsigned_of_int take_bit_int_eq_self)

lemma sort_above:
  assumes mn: "\<forall>x \<in> set xs. mn \<le> sint x"
  shows "sort_key (above mn) xs = sort_key sint xs"
proof (rule properties_for_sort_key)
  show "mset (sort_key sint xs) = mset xs" by simp
  show "filter (\<lambda>y. above mn x = above mn y) (sort_key sint xs) = filter (\<lambda>y. above mn x = above mn y) xs"
    if "x \<in> set (sort_key sint xs)" for x
  proof -
    have "filter (\<lambda>y. above mn x = above mn y) ys = filter (\<lambda>y. sint y = sint x) ys" if "set ys = set xs" for ys
      using mn \<open>x \<in> set (sort_key sint xs)\<close> that by (intro filter_cong) (auto simp: above_def eq_nat_nat_iff)
    then show ?thesis by (simp add: sort_key_stable)
  qed
  show "sorted (map (above mn) (sort_key sint xs))"
    using sorted_sort_key [of sint xs] by (auto simp: sorted_map above_def elim!: sorted_wrt_mono_rel [rotated])
qed

lemma extent:
  assumes "xs \<noteq> []"
  defines "mn \<equiv> Min (sint ` set xs)" and "mx \<equiv> Max (sint ` set xs)"
  shows "\<forall>x \<in> set xs. mn \<le> sint x \<and> sint x \<le> mx" and "mn \<in> sint ` set xs" and "mx \<in> sint ` set xs"
  unfolding mn_def mx_def using assms(1) by simp_all

text \<open>The counters and the writing, common to both versions.\<close>

lemma counting_core:
  assumes mn: "\<forall>x \<in> set xs. mn \<le> sint x \<and> sint x \<le> mx" and d: "mx - mn < 2 ^ 31"
    and n: "n = nat (mx - mn) + 1" and counts: "counts = replicate n 0"
    and val: "\<And>x. x \<in> set xs \<Longrightarrow> val (above mn x) = Some x"
  shows "(tally (counting_key mn) (length xs) xs counts \<bind> (\<lambda>counts. counting_emit val n counts xs)) = Some (sort_key sint xs)"
proof -
  have key: "counting_key mn x = Some (above mn x) \<and> above mn x < n" if "x \<in> set xs" for x
  proof -
    have "mn \<le> sint x" "sint x \<le> mx" using mn that by auto
    then show ?thesis using above_eq(1) [of mn x] d n by (auto simp: above_def)
  qed
  then have "tally (counting_key mn) (length xs) xs counts = Some (class_sizes (above mn) n xs)"
    unfolding counts by (rule tally_spec)
  moreover have "counting_emit val n (class_sizes (above mn) n xs) xs = Some (sort_key (above mn) xs)"
    using key val by (intro emit_spec) simp_all
  ultimately show ?thesis using mn by (simp add: sort_above)
qed

lemma u64_counts:
  assumes "scl_allocator a" and "calloc_fn a k n 8 al = Some b"
  shows "map unat (u64_array b) = replicate (unat n) 0"
  using scl_allocator.calloc_block [OF assms] by (simp add: u64_array_zeros is_object_def)

lemma counting_sort_spec:
  assumes a: "scl_allocator a" and xs: "length xs = unat cnt"
    and span: "\<forall>x \<in> set xs. \<forall>y \<in> set xs. sint x - sint y < 2 ^ 31"
  shows "\<exists>err ys. scl_sort_counting a (Some xs) cnt = Some (err, Some ys) \<and>
    (if err = SCL_OK then ys = sort_key sint xs else err = SCL_ERR_OUT_OF_MEMORY \<and> ys = xs)"
proof (cases "cnt < 2")
  case True
  then have "length xs < 2" using xs by (simp add: word_less_unat)
  then have "xs = [] \<or> (\<exists>x. xs = [x])" by (cases xs; cases "tl xs") auto
  then show ?thesis using True by (auto simp: scl_sort_counting_def)
next
  case False
  then have "xs \<noteq> []" using xs by (auto simp: word_less_unat)
  define mn where "mn = Min (sint ` set xs)"
  define mx where "mx = Max (sint ` set xs)"
  note e = extent [OF \<open>xs \<noteq> []\<close>, folded mn_def mx_def]
  have d: "0 \<le> mx - mn" "mx - mn < 2 ^ 31" using e span by auto
  have w: "unat (word_of_int (mx - mn) :: size_t) = nat (mx - mn)"
    unfolding unsigned_of_int using d by (simp add: take_bit_int_eq_self)
  define n where "n = (word_of_int (mx - mn) :: size_t) + 1"
  have n: "unat n = nat (mx - mn) + 1"
    unfolding n_def using d w by (subst unat_add_bounded) (simp_all del: of_int_diff)
  have add: "scl_add_overflow (word_of_int (mx - mn)) 1 = Some n"
    using d w by (simp add: scl_add_overflow_eq n_def del: of_int_diff)
  have ext: "counting_extent (unat cnt) xs = Some (mn, mx)"
    using counting_extent_spec [OF \<open>xs \<noteq> []\<close>] xs by (simp add: mn_def mx_def)
  have sub: "int_sub mx mn = Some (mx - mn)" using d by (simp add: int_sub_def)
  show ?thesis
  proof (cases "calloc_fn a 0 n 8 max_align")
    case None
    then show ?thesis using False ext sub add by (simp add: scl_sort_counting_def)
  next
    case (Some b)
    let ?val = "\<lambda>i. Some (ucast (word_of_int mn + of_nat i :: size_t) :: 32 word)"
    have val: "?val (above mn x) = Some x" if "x \<in> set xs" for x
    proof -
      have "mn + int (above mn x) = sint x" using above_eq(2) [of mn x] e(1) d that by fastforce
      then have "(word_of_int mn + of_nat (above mn x) :: size_t) = word_of_int (sint x)"
        by (metis of_int_add of_int_of_nat_eq)
      then show ?thesis by (simp add: narrow_widened)
    qed
    have "(tally (counting_key mn) (length xs) xs (map unat (u64_array b)) \<bind> (\<lambda>counts. counting_emit ?val (unat n) counts xs))
        = Some (sort_key sint xs)"
      using e(1) d(2) n u64_counts [OF a Some] val by (intro counting_core) simp_all
    then show ?thesis using False ext sub add Some xs by (simp add: scl_sort_counting_def bind_eq_Some_conv)
  qed
qed

text \<open>The second version: within the limit the same result, beyond it that of the quick sort.\<close>

lemma counting_limited_spec:
  assumes a: "scl_allocator a" and xs: "length xs = unat cnt" and cnt: "2 \<le> length xs"
    and span: "\<forall>x \<in> set xs. \<forall>y \<in> set xs. sint x - sint y < 1048576"
  shows "\<exists>err ys. scl_sort_counting_sort a (Some xs) cnt = Some (err, Some ys) \<and>
    (if err = SCL_OK then ys = sort_key sint xs else err = SCL_ERR_OUT_OF_MEMORY \<and> ys = xs)"
proof -
  have ge: "\<not> cnt < 2" using cnt xs by (simp add: word_less_unat)
  have "xs \<noteq> []" using cnt by auto
  define mn where "mn = Min (sint ` set xs)"
  define mx where "mx = Max (sint ` set xs)"
  note e = extent [OF \<open>xs \<noteq> []\<close>, folded mn_def mx_def]
  have d: "0 \<le> mx - mn" "mx - mn < 1048576" using e span by auto
  have w: "unat (word_of_int (mx - mn) :: size_t) = nat (mx - mn)"
    unfolding unsigned_of_int using d by (simp add: take_bit_int_eq_self)
  define n where "n = (word_of_int (mx - mn) :: size_t) + 1"
  have n: "unat n = nat (mx - mn) + 1"
    unfolding n_def using d w by (subst unat_add_bounded) (simp_all del: of_int_diff)
  have lim: "\<not> 1048576 < n" using d n by (simp add: word_less_unat)
  have ext: "counting_extent (unat cnt) xs = Some (mn, mx)"
    using counting_extent_spec [OF \<open>xs \<noteq> []\<close>] xs by (simp add: mn_def mx_def)
  have sub: "int_sub mx mn = Some (mx - mn)" using d by (simp add: int_sub_def)
  show ?thesis
  proof (cases "calloc_fn a 0 n 8 max_align")
    case None
    then show ?thesis using ge ext sub lim by (simp add: scl_sort_counting_sort_def n_def Let_def)
  next
    case (Some b)
    let ?val = "\<lambda>i. map_option word_of_int (int_add mn (int i)) :: 32 word ub"
    have val: "?val (above mn x) = Some x" if "x \<in> set xs" for x
    proof -
      have "mn + int (above mn x) = sint x" using above_eq(2) [of mn x] e(1) d that by fastforce
      moreover have "- (2 ^ 31) \<le> sint x \<and> sint x < 2 ^ 31" using sint_lt [of x] sint_ge [of x] by simp
      ultimately show ?thesis by (simp add: int_add_def)
    qed
    have "(tally (counting_key mn) (length xs) xs (map unat (u64_array b)) \<bind> (\<lambda>counts. counting_emit ?val (unat n) counts xs))
        = Some (sort_key sint xs)"
      using e(1) d(2) n u64_counts [OF a Some] val by (intro counting_core) simp_all
    then show ?thesis using ge ext sub lim Some xs
      by (simp add: scl_sort_counting_sort_def n_def Let_def bind_eq_Some_conv)
  qed
qed

lemma counting_falls_back:
  assumes xs: "length xs = unat cnt" "x \<in> set xs" "y \<in> set xs" and wide: "1048576 \<le> sint x - sint y"
    and span: "\<forall>x \<in> set xs. \<forall>y \<in> set xs. sint x - sint y < 2 ^ 31"
  shows "scl_sort_counting_sort a (Some xs) cnt
    = scl_sort_quick_sort a (Some xs) (unat cnt) 4 (Some scl_counting_i32_cmp)"
proof -
  have "x \<noteq> y" using wide by auto
  then have "2 \<le> length xs" using xs(2,3) by (cases xs; cases "tl xs") auto
  then have ge: "\<not> cnt < 2" and "xs \<noteq> []" using xs(1) by (auto simp: word_less_unat)
  define mn where "mn = Min (sint ` set xs)"
  define mx where "mx = Max (sint ` set xs)"
  note e = extent [OF \<open>xs \<noteq> []\<close>, folded mn_def mx_def]
  have "mn \<le> sint y" "sint x \<le> mx" using e(1) xs by auto
  then have d: "1048576 \<le> mx - mn" "mx - mn < 2 ^ 31" using wide e(2,3) span by auto
  have w: "unat (word_of_int (mx - mn) :: size_t) = nat (mx - mn)"
    unfolding unsigned_of_int using d by (simp add: take_bit_int_eq_self)
  have "unat ((word_of_int (mx - mn) :: size_t) + 1) = nat (mx - mn) + 1"
    using d w by (subst unat_add_bounded) (simp_all del: of_int_diff)
  then have lim: "1048576 < (word_of_int (mx - mn) :: size_t) + 1"
    using d(1) by (simp add: word_less_unat del: of_int_diff)
  have ext: "counting_extent (unat cnt) xs = Some (mn, mx)"
    using counting_extent_spec [OF \<open>xs \<noteq> []\<close>] xs(1) by (simp add: mn_def mx_def)
  have sub: "int_sub mx mn = Some (mx - mn)" using d by (simp add: int_sub_def)
  show ?thesis using ge ext sub lim by (simp add: scl_sort_counting_sort_def Let_def del: of_int_diff)
qed

text \<open>Both versions overflow on arrays that span half the range of \<open>int32_t\<close> or more.\<close>

lemma counting_overflows:
  assumes xs: "length xs = unat cnt" "x \<in> set xs" "y \<in> set xs" and wide: "2 ^ 31 \<le> sint x - sint y"
  shows "scl_sort_counting a (Some xs) cnt = None" and "scl_sort_counting_sort a (Some xs) cnt = None"
proof -
  have "x \<noteq> y" using wide by auto
  then have "2 \<le> length xs" using xs(2,3) by (cases xs; cases "tl xs") auto
  then have ge: "\<not> cnt < 2" and "xs \<noteq> []" using xs(1) by (auto simp: word_less_unat)
  define mn where "mn = Min (sint ` set xs)"
  define mx where "mx = Max (sint ` set xs)"
  note e = extent [OF \<open>xs \<noteq> []\<close>, folded mn_def mx_def]
  have "mn \<le> sint y" "sint x \<le> mx" using e(1) xs by auto
  then have sub: "int_sub mx mn = None" using wide by (simp add: int_sub_def)
  have ext: "counting_extent (unat cnt) xs = Some (mn, mx)"
    using counting_extent_spec [OF \<open>xs \<noteq> []\<close>] xs(1) by (simp add: mn_def mx_def)
  show "scl_sort_counting a (Some xs) cnt = None" "scl_sort_counting_sort a (Some xs) cnt = None"
    using ge ext sub by (simp_all add: scl_sort_counting_def scl_sort_counting_sort_def)
qed

end
