(* ===== verification/Scl_Sort_Bucket.thy ===== *)
theory Scl_Sort_Bucket
  imports Scl_Sort_Int
begin

text \<open>
  The bucket sort of \<open>libs/sort/bucket/scl_bucket.c\<close>: at most ten buckets that grow on demand, filled by
  a numeric key, sorted by insertion and concatenated. The key is a \<open>double\<close>; what the code computes from
  it, the clamped product truncated to an index, is the parameter \<open>idx_of\<close>. A bucket is the list of its
  elements with its capacity. The sort is correct when smaller elements have smaller keys, and stable when
  equal ones have equal keys.
\<close>

section \<open>The code\<close>

text \<open>\<open>if (bucket_idx >= bucket_count) bucket_idx = bucket_count - 1;\<close>\<close>

definition bucket_index :: "('a \<Rightarrow> nat \<Rightarrow> nat) \<Rightarrow> nat \<Rightarrow> 'a \<Rightarrow> nat" where
  "bucket_index idx_of bc x = (if bc \<le> idx_of x bc then bc - 1 else idx_of x bc)"

text \<open>Appending to one bucket; the number of allocator calls is counted.\<close>

definition bucket_put ::
    "scl_allocator_t \<Rightarrow> size_t \<Rightarrow> nat \<Rightarrow> 'a \<Rightarrow> 'a list \<times> nat \<Rightarrow> scl_error_t + ('a list \<times> nat) \<times> nat" where
  "bucket_put a es call x bk =
     (if length (fst bk) = snd bk then
        let new_cap = (if snd bk = 0 then 4 else snd bk * 2)
        in (case scl_mul_overflow (of_nat new_cap) es of
              None \<Rightarrow> Inl SCL_ERR_SIZE_OVERFLOW
            | Some new_bytes \<Rightarrow>
                (case malloc_fn a call new_bytes max_align of
                   None \<Rightarrow> Inl SCL_ERR_OUT_OF_MEMORY
                 | Some tmp \<Rightarrow> Inr ((fst bk @ [x], new_cap), call + 1)))
      else Inr ((fst bk @ [x], snd bk), call))"

function bucket_fill ::
    "scl_allocator_t \<Rightarrow> size_t \<Rightarrow> ('a \<Rightarrow> nat) \<Rightarrow> nat \<Rightarrow> 'a list \<Rightarrow> nat \<Rightarrow> nat \<Rightarrow> ('a list \<times> nat) list
     \<Rightarrow> (scl_error_t + ('a list \<times> nat) list) ub" where
  "bucket_fill a es idx cnt xs i call bks =
     (if i < cnt then do {
        x \<leftarrow> at xs i;
        bk \<leftarrow> at bks (idx x);
        case bucket_put a es call x bk of
          Inl err \<Rightarrow> Some (Inl err)
        | Inr (bk', call') \<Rightarrow> do {
            bks' \<leftarrow> put_at bks (idx x) bk';
            bucket_fill a es idx cnt xs (i + 1) call' bks'
          }
      } else Some (Inr bks))"
  by pat_completeness auto
termination by (relation "measure (\<lambda>(a, es, idx, cnt, xs, i, call, bks). cnt - i)") auto

declare bucket_fill.simps [simp del]

text \<open>\<open>scl_memcpy(ptr + pos * element_size, buckets[i], bucket_sizes[i] * element_size)\<close>\<close>

definition write_run :: "'a list \<Rightarrow> nat \<Rightarrow> 'a list \<Rightarrow> 'a list ub" where
  "write_run xs pos ys =
     (if pos + length ys \<le> length xs then Some (take pos xs @ ys @ drop (pos + length ys) xs) else None)"

definition bucket_gather :: "('a \<Rightarrow> 'a \<Rightarrow> int) \<Rightarrow> nat \<Rightarrow> ('a list \<times> nat) list \<Rightarrow> 'a list \<Rightarrow> 'a list ub" where
  "bucket_gather cmp bc bks xs = map_option snd (for_up 0 bc (\<lambda>i (pos, xs). do {
     bk \<leftarrow> at bks i;
     if 0 < length (fst bk) then do {
       ys \<leftarrow> insertion_loop cmp (length (fst bk)) (fst bk);
       xs \<leftarrow> write_run xs pos ys;
       Some (pos + length (fst bk), xs)
     } else Some (pos, xs)
   }) (0, xs))"

definition scl_sort_bucket_sort ::
    "('a \<Rightarrow> nat \<Rightarrow> nat) ptr \<Rightarrow> scl_allocator_t \<Rightarrow> 'a list ptr \<Rightarrow> nat \<Rightarrow> size_t \<Rightarrow> ('a \<Rightarrow> 'a \<Rightarrow> int) ptr
     \<Rightarrow> (scl_error_t \<times> 'a list ptr) ub" where
  "scl_sort_bucket_sort key a base cnt es cmp =
     (case (base, key, cmp) of
        (Some xs, Some idx_of, Some c) \<Rightarrow>
          if cnt < 2 then Some (SCL_OK, base)
          else let bc = (if cnt < 10 then cnt else 10)
            in if calloc_fn a 0 (of_nat bc) 8 max_align = None \<or> calloc_fn a 1 (of_nat bc) 8 max_align = None
                  \<or> calloc_fn a 2 (of_nat bc) 8 max_align = None
               then Some (SCL_ERR_OUT_OF_MEMORY, base)
               else do {
                 r \<leftarrow> bucket_fill a es (bucket_index idx_of bc) cnt xs 0 3 (replicate bc ([], 0));
                 case r of
                   Inl err \<Rightarrow> Some (err, base)
                 | Inr bks \<Rightarrow> do { ys \<leftarrow> bucket_gather c bc bks xs; Some (SCL_OK, Some ys) }
               }
      | _ \<Rightarrow> Some (SCL_ERR_NULL_PTR, base))"

text \<open>The comparator-only entry point is a stub.\<close>

definition scl_sort_bucket :: "'a list ptr \<Rightarrow> nat \<Rightarrow> ('a \<Rightarrow> 'a \<Rightarrow> int) ptr \<Rightarrow> scl_error_t \<times> 'a list ptr" where
  "scl_sort_bucket base cnt cmp = (SCL_ERR_NOT_IMPLEMENTED, base)"

section \<open>Filling\<close>

definition bucket_fits :: "('a \<Rightarrow> nat) \<Rightarrow> nat \<Rightarrow> 'a list \<Rightarrow> ('a list \<times> nat) list \<Rightarrow> bool" where
  "bucket_fits idx bc xs bks \<longleftrightarrow> length bks = bc \<and> (\<forall>d < bc. fst (bks ! d) = class_of idx d xs)"

lemma bucket_put_cases:
  "(\<exists>err. bucket_put a es call x bk = Inl err \<and> alloc_failed err) \<or>
   (\<exists>cap call'. bucket_put a es call x bk = Inr ((fst bk @ [x], cap), call'))"
  by (auto simp: bucket_put_def Let_def split: option.splits)

lemma bucket_fits_snoc:
  assumes "bucket_fits idx bc xs bks" and "idx x < bc"
  shows "bucket_fits idx bc (xs @ [x]) (bks[idx x := (fst (bks ! idx x) @ [x], cap)])"
  using assms by (auto simp: bucket_fits_def nth_list_update class_of_snoc)

lemma bucket_fill_spec:
  assumes idx: "\<And>x. x \<in> set xs \<Longrightarrow> idx x < bc" and fits: "bucket_fits idx bc (take i xs) bks" and i: "i \<le> length xs"
  shows "\<exists>r. bucket_fill a es idx (length xs) xs i call bks = Some r \<and>
    (case r of Inl err \<Rightarrow> alloc_failed err | Inr bks' \<Rightarrow> bucket_fits idx bc xs bks')"
  using fits i
proof (induction "length xs - i" arbitrary: i call bks)
  case 0
  then show ?case by (subst bucket_fill.simps) simp
next
  case (Suc n)
  then have i: "i < length xs" by simp
  have len: "length bks = bc" using Suc.prems(1) by (simp add: bucket_fits_def)
  have x: "idx (xs ! i) < bc" using idx i by simp
  from bucket_put_cases [of a es call "xs ! i" "bks ! idx (xs ! i)"] show ?case
  proof (elim disjE exE conjE)
    fix err assume "bucket_put a es call (xs ! i) (bks ! idx (xs ! i)) = Inl err" "alloc_failed err"
    then show ?thesis using i x len by (subst bucket_fill.simps) simp
  next
    fix cap call'
    assume put: "bucket_put a es call (xs ! i) (bks ! idx (xs ! i)) = Inr ((fst (bks ! idx (xs ! i)) @ [xs ! i], cap), call')"
    let ?bks = "bks[idx (xs ! i) := (fst (bks ! idx (xs ! i)) @ [xs ! i], cap)]"
    have "bucket_fits idx bc (take (i + 1) xs) ?bks"
      using bucket_fits_snoc [OF Suc.prems(1) x] i by (simp add: take_Suc_conv_app_nth)
    moreover have "n = length xs - (i + 1)" "i + 1 \<le> length xs" using Suc.hyps(2) i by simp_all
    ultimately have "\<exists>r. bucket_fill a es idx (length xs) xs (i + 1) call' ?bks = Some r \<and>
        (case r of Inl err \<Rightarrow> alloc_failed err | Inr bks' \<Rightarrow> bucket_fits idx bc xs bks')"
      using Suc.hyps(1) by blast
    then show ?thesis using i x len put by (subst bucket_fill.simps) simp
  qed
qed

section \<open>Gathering\<close>

context comparator
begin

lemma bucket_sorted:
  "yields (insertion_loop cmp (length xs) xs) (\<lambda>ys. mset ys = mset xs \<and> sorted_cmp cmp ys \<and> same_order cmp xs ys)"
proof (cases "xs = []")
  case True
  then show ?thesis by (simp add: insertion_loop_def)
next
  case False
  then show ?thesis using insertion_loop_sorts [of "length xs" xs] by simp
qed

text \<open>The first \<open>i\<close> buckets, sorted, in front; the rest of the array untouched.\<close>

definition gathered :: "('a \<Rightarrow> nat) \<Rightarrow> 'a list \<Rightarrow> nat \<Rightarrow> nat \<times> 'a list \<Rightarrow> bool" where
  "gathered idx xs i st \<longleftrightarrow> fst st = class_start idx i xs \<and> length (snd st) = length xs \<and>
     mset (take (fst st) (snd st)) = mset (concat (map (\<lambda>d. class_of idx d xs) [0..<i])) \<and>
     same_order cmp (concat (map (\<lambda>d. class_of idx d xs) [0..<i])) (take (fst st) (snd st)) \<and>
     sorted_cmp cmp (take (fst st) (snd st))"

lemma gather_step:
  assumes st: "gathered idx xs i (pos, zs)" and i: "i < bc" and bks: "bucket_fits idx bc xs bks"
    and idx: "\<forall>x \<in> set xs. idx x < bc"
    and mono: "\<forall>x \<in> set xs. \<forall>y \<in> set xs. cmp x y < 0 \<longrightarrow> idx x \<le> idx y"
  shows "yields (do {
     bk \<leftarrow> at bks i;
     if 0 < length (fst bk) then do {
       ys \<leftarrow> insertion_loop cmp (length (fst bk)) (fst bk);
       zs \<leftarrow> write_run zs pos ys;
       Some (pos + length (fst bk), zs)
     } else Some (pos, zs) }) (gathered idx xs (Suc i))"
proof -
  let ?c = "class_of idx i xs"
  have len: "length bks = bc" using bks by (simp add: bucket_fits_def)
  have fst: "fst (bks ! i) = ?c"
    using bks i by (simp add: bucket_fits_def)
  have pos: "pos = class_start idx i xs" "length zs = length xs" using st by (simp_all add: gathered_def)
  have fit: "pos + length ?c \<le> length zs"
    using class_start_mono [of "Suc i" bc idx xs] i class_start_all [OF idx] pos by (simp add: class_start_Suc)
  show ?thesis
  proof (cases "?c = []")
    case True
    then show ?thesis using st i len fst by (auto simp: gathered_def class_start_Suc)
  next
    case False
    from bucket_sorted [of ?c] obtain ys where ys: "insertion_loop cmp (length ?c) ?c = Some ys"
      "mset ys = mset ?c" "sorted_cmp cmp ys" "same_order cmp ?c ys" unfolding yields_iff by blast
    have l: "length ys = length ?c" using ys(2) by (rule mset_eq_length)
    let ?zs = "take pos zs @ ys @ drop (pos + length ys) zs"
    have w: "write_run zs pos ys = Some ?zs" using fit l by (simp add: write_run_def)
    have t: "take (pos + length ?c) ?zs = take pos zs @ ys" using fit l by simp
    have "cmp x y \<le> 0" if x: "x \<in> set (take pos zs)" and y: "y \<in> set ys" for x y
    proof -
      have "x \<in> set (concat (map (\<lambda>d. class_of idx d xs) [0..<i]))"
        using st x unfolding gathered_def by (metis fst_conv set_mset_mset snd_conv)
      then have x': "x \<in> set xs" "idx x < i" by (auto simp: class_of_def)
      have "y \<in> set ?c" using y ys(2) by (metis set_mset_mset)
      then have y': "y \<in> set xs" "idx y = i" by (auto simp: class_of_def)
      have "\<not> cmp y x < 0" using mono x' y' by fastforce
      then show ?thesis using cmp_swap [of y x] by linarith
    qed
    then have "gathered idx xs (Suc i) (pos + length ?c, ?zs)"
      using st ys t pos fit l by (auto simp: gathered_def class_start_Suc sorted_append intro: same_order_append)
    then show ?thesis using i len fst False ys(1) w by simp
  qed
qed

end

section \<open>The contract\<close>

lemma bucket_index_min: "0 < bc \<Longrightarrow> bucket_index idx_of bc x = min (idx_of x bc) (bc - 1)"
  by (auto simp: bucket_index_def)

lemma bucket_sort_spec:
  assumes c: "comparator cmp" and a: "scl_allocator a"
    and mono: "\<forall>x \<in> set xs. \<forall>y \<in> set xs. \<forall>n. cmp x y < 0 \<longrightarrow> key x n \<le> key y n"
  shows "\<exists>err ys. scl_sort_bucket_sort (Some key) a (Some xs) (length xs) es (Some cmp) = Some (err, Some ys) \<and>
    (if err = SCL_OK then mset ys = mset xs \<and> sorted_cmp cmp ys else alloc_failed err \<and> ys = xs)"
proof (cases "length xs < 2")
  case True
  then show ?thesis using comparator.short_sorted [OF c] by (simp add: scl_sort_bucket_sort_def)
next
  case False
  define bc where "bc = (if length xs < 10 then length xs else 10)"
  have bc: "0 < bc" using False by (auto simp: bc_def)
  let ?idx = "bucket_index key bc"
  have idx: "?idx x < bc" for x using bc by (auto simp: bucket_index_def)
  have mono': "\<forall>x \<in> set xs. \<forall>y \<in> set xs. cmp x y < 0 \<longrightarrow> ?idx x \<le> ?idx y"
    using mono bc by (simp add: bucket_index_min min.coboundedI1)
  show ?thesis
  proof (cases "calloc_fn a 0 (of_nat bc) 8 max_align = None \<or> calloc_fn a 1 (of_nat bc) 8 max_align = None
      \<or> calloc_fn a 2 (of_nat bc) 8 max_align = None")
    case True
    then show ?thesis using False by (simp add: scl_sort_bucket_sort_def bc_def [symmetric] Let_def)
  next
    case ok: False
    have "bucket_fits ?idx bc (take 0 xs) (replicate bc ([], 0))"
      by (simp add: bucket_fits_def class_of_def)
    from bucket_fill_spec [OF idx this, where a = a and es = es and call = 3] obtain r where
      r: "bucket_fill a es ?idx (length xs) xs 0 3 (replicate bc ([], 0)) = Some r"
      "case r of Inl err \<Rightarrow> alloc_failed err | Inr bks' \<Rightarrow> bucket_fits ?idx bc xs bks'" by auto
    show ?thesis
    proof (cases r)
      case (Inl err)
      then show ?thesis using False ok r
        by (auto simp: scl_sort_bucket_sort_def bc_def [symmetric] Let_def intro!: exI [of _ err] exI [of _ xs])
    next
      case (Inr bks)
      then have bks: "bucket_fits ?idx bc xs bks" using r(2) by simp
      have all: "\<forall>x \<in> set xs. ?idx x < bc" using idx by simp
      have "yields (for_up 0 bc (\<lambda>i (pos, xs). do {
          bk \<leftarrow> at bks i;
          if 0 < length (fst bk) then do {
            ys \<leftarrow> insertion_loop cmp (length (fst bk)) (fst bk);
            xs \<leftarrow> write_run xs pos ys;
            Some (pos + length (fst bk), xs)
          } else Some (pos, xs) }) (0, xs)) (\<lambda>st. mset (snd st) = mset xs \<and> sorted_cmp cmp (snd st))"
      proof (rule for_up_rule [where I = "comparator.gathered cmp ?idx xs"])
        show "comparator.gathered cmp ?idx xs 0 (0, xs)"
          by (simp add: comparator.gathered_def [OF c] comparator.sorted_Nil [OF c])
        show "mset (snd st) = mset xs \<and> sorted_cmp cmp (snd st)" if "comparator.gathered cmp ?idx xs bc st" for st
          using that class_start_all [OF all] mset_classes [OF all] by (auto simp: comparator.gathered_def [OF c])
      qed (use comparator.gather_step [OF c _ _ bks all mono'] in auto)
      then obtain ys where "bucket_gather cmp bc bks xs = Some ys" "mset ys = mset xs" "sorted_cmp cmp ys"
        unfolding bucket_gather_def by (auto simp: yields_iff)
      then show ?thesis using False ok r Inr by (auto simp: scl_sort_bucket_sort_def bc_def [symmetric] Let_def)
    qed
  qed
qed

text \<open>Without a key or a comparator nothing happens.\<close>

lemma bucket_sort_null:
  "base = None \<or> key = None \<or> cmp = None \<Longrightarrow> scl_sort_bucket_sort key a base cnt es cmp = Some (SCL_ERR_NULL_PTR, base)"
  by (auto simp: scl_sort_bucket_sort_def split: option.split)

end
