(* ===== verification/Scl_Sessions.thy ===== *)
theory Scl_Sessions
  imports Scl_Store Scl_Heap Scl_Unionfind Scl_Segtree Scl_Fenwick Scl_Bloom
begin

text \<open>
  Sequences of operations. A binary heap is a priority queue: its histories are those of a multiset from
  which a least element is taken. The segment tree and the Fenwick tree are both lists under point changes
  and range totals, stated once in the locale \<open>range_store\<close>. A union-find structure after a list of unions
  is the equivalence they generate. A Bloom filter knows everything that was ever put in.
\<close>

section \<open>Priority queues\<close>

fun replay_least :: "nat \<Rightarrow> (block \<Rightarrow> block \<Rightarrow> int) \<Rightarrow> block multiset \<Rightarrow> event list \<Rightarrow> block multiset option" where
  "replay_least w cmp q [] = Some q"
| "replay_least w cmp q (Stored e # evs) = replay_least w cmp (add_mset (take w e) q) evs"
| "replay_least w cmp q (Fetched v # evs) =
     (if v \<in># q \<and> (\<forall>x \<in># q. cmp v x \<le> 0) then replay_least w cmp (q - {#v#}) evs else None)"
| "replay_least w cmp q (Failed err # evs) =
     (if err = SCL_ERR_EMPTY \<and> q \<noteq> {#} then None else replay_least w cmp q evs)"

locale priority_store =
  fixes inv :: "'s \<Rightarrow> bool"
    and width :: "'s \<Rightarrow> nat"
    and order :: "'s \<Rightarrow> block \<Rightarrow> block \<Rightarrow> int"
    and contents :: "'s \<Rightarrow> block multiset"
    and put :: "'s \<Rightarrow> block \<Rightarrow> (scl_error_t \<times> 's) ub"
    and get :: "'s \<Rightarrow> (scl_error_t \<times> 's \<times> block) ub"
  assumes put_law: "inv s \<Longrightarrow> width s \<le> length e \<Longrightarrow>
      \<exists>err s'. put s e = Some (err, s') \<and> inv s' \<and> width s' = width s \<and> order s' = order s \<and> err \<noteq> SCL_ERR_EMPTY \<and>
        contents s' = (if err = SCL_OK then add_mset (take (width s) e) (contents s) else contents s)"
    and get_law: "inv s \<Longrightarrow> contents s \<noteq> {#} \<Longrightarrow>
      \<exists>s' v. get s = Some (SCL_OK, s', v) \<and> inv s' \<and> width s' = width s \<and> order s' = order s \<and>
        contents s = add_mset v (contents s') \<and> (\<forall>x \<in># contents s. order s v x \<le> 0)"
    and get_empty_law: "inv s \<Longrightarrow> contents s = {#} \<Longrightarrow> \<exists>v. get s = Some (SCL_ERR_EMPTY, s, v)"
begin

lemma run_least:
  assumes "inv s" and "\<forall>c \<in> set cs. case c of Put e \<Rightarrow> width s \<le> length e | Get \<Rightarrow> True"
  shows "\<exists>s' evs. run_cmds put get s cs = Some (s', evs) \<and> inv s' \<and> length evs = length cs \<and>
    replay_least (width s) (order s) (contents s) evs = Some (contents s')"
  using assms
proof (induction cs arbitrary: s)
  case Nil
  then show ?case by simp
next
  case (Cons c cs)
  show ?case
  proof (cases c)
    case (Put e)
    then obtain err s' where p: "put s e = Some (err, s')" "inv s'" "width s' = width s" "order s' = order s"
      "err \<noteq> SCL_ERR_EMPTY" "contents s' = (if err = SCL_OK then add_mset (take (width s) e) (contents s) else contents s)"
      using put_law [OF Cons.prems(1), of e] Cons.prems(2) by auto
    have rest: "\<forall>c \<in> set cs. case c of Put e \<Rightarrow> width s' \<le> length e | Get \<Rightarrow> True" unfolding p(3) using Cons.prems(2) by simp
    from Cons.IH [OF p(2) rest] obtain s'' evs where
      "run_cmds put get s' cs = Some (s'', evs)" "inv s''" "length evs = length cs"
      "replay_least (width s') (order s') (contents s') evs = Some (contents s'')" by auto
    then show ?thesis using Put p by (auto split: if_splits)
  next
    case Get
    show ?thesis
    proof (cases "contents s = {#}")
      case True
      then obtain v where "get s = Some (SCL_ERR_EMPTY, s, v)" using get_empty_law [OF Cons.prems(1)] by blast
      moreover obtain s'' evs where "run_cmds put get s cs = Some (s'', evs)" "inv s''" "length evs = length cs"
        "replay_least (width s) (order s) (contents s) evs = Some (contents s'')"
        using Cons.IH [OF Cons.prems(1)] Cons.prems(2) by auto
      ultimately show ?thesis using Get True by auto
    next
      case False
      then obtain s' v where p: "get s = Some (SCL_OK, s', v)" "inv s'" "width s' = width s" "order s' = order s"
        "contents s = add_mset v (contents s')" "\<forall>x \<in># contents s. order s v x \<le> 0"
        using get_law [OF Cons.prems(1)] by blast
      have rest: "\<forall>c \<in> set cs. case c of Put e \<Rightarrow> width s' \<le> length e | Get \<Rightarrow> True" unfolding p(3) using Cons.prems(2) by simp
      from Cons.IH [OF p(2) rest] obtain s'' evs where
        "run_cmds put get s' cs = Some (s'', evs)" "inv s''" "length evs = length cs"
        "replay_least (width s') (order s') (contents s') evs = Some (contents s'')" by auto
      then show ?thesis using Get False p by auto
    qed
  qed
qed

end

text \<open>The heap with its allocator, as the commands use it.\<close>

definition heap_put :: "scl_allocator_t \<times> scl_heap_t \<Rightarrow> block \<Rightarrow> (scl_error_t \<times> scl_allocator_t \<times> scl_heap_t) ub" where
  "heap_put s e = do {
     (err, h) \<leftarrow> scl_heap_push (fst s) (Some (snd s)) (Some e);
     h \<leftarrow> h;
     Some (err, fst s, h)
   }"

definition heap_take :: "scl_allocator_t \<times> scl_heap_t \<Rightarrow> (scl_error_t \<times> (scl_allocator_t \<times> scl_heap_t) \<times> block) ub" where
  "heap_take s = do {
     (err, h, v) \<leftarrow> scl_heap_pop (Some (snd s)) (Some (replicate (unat (hp_element_size (snd s))) 0));
     h \<leftarrow> h;
     v \<leftarrow> v;
     Some (err, (fst s, h), v)
   }"

interpretation heap_store: priority_store "\<lambda>s. scl_allocator (fst s) \<and> heap_inv (snd s)"
    "\<lambda>s. unat (hp_element_size (snd s))" "\<lambda>s. hp_cmp (snd s)" "\<lambda>s. mset (heap_list (snd s))" heap_put heap_take
proof
  fix s :: "scl_allocator_t \<times> scl_heap_t" and e :: block
  assume s: "scl_allocator (fst s) \<and> heap_inv (snd s)" and e: "unat (hp_element_size (snd s)) \<le> length e"
  from scl_allocator.heap_push_spec [of "fst s" "snd s" e] s e obtain err h where
    "scl_heap_push (fst s) (Some (snd s)) (Some e) = Some (err, Some h)" "heap_inv h"
    "hp_element_size h = hp_element_size (snd s)" "hp_cmp h = hp_cmp (snd s)"
    "if err = SCL_OK then mset (heap_list h) = add_mset (take (unat (hp_element_size (snd s))) e) (mset (heap_list (snd s)))
     else alloc_failed err \<and> h = snd s" by blast
  then show "\<exists>err s'. heap_put s e = Some (err, s') \<and> (scl_allocator (fst s') \<and> heap_inv (snd s')) \<and>
      unat (hp_element_size (snd s')) = unat (hp_element_size (snd s)) \<and> hp_cmp (snd s') = hp_cmp (snd s) \<and>
      err \<noteq> SCL_ERR_EMPTY \<and> mset (heap_list (snd s')) = (if err = SCL_OK
        then add_mset (take (unat (hp_element_size (snd s))) e) (mset (heap_list (snd s))) else mset (heap_list (snd s)))"
    using s by (auto simp: heap_put_def alloc_failed_def)
next
  fix s :: "scl_allocator_t \<times> scl_heap_t"
  assume s: "scl_allocator (fst s) \<and> heap_inv (snd s)" and ne: "mset (heap_list (snd s)) \<noteq> {#}"
  then have "hp_count (snd s) \<noteq> 0" using length_heap_list [of "snd s"] by (metis list.size(3) mset_zero_iff length_0_conv unat_eq_0_iff)
  from heap_pop_spec [OF _ _ this, of "replicate (unat (hp_element_size (snd s))) 0"] s obtain h v where
    p: "scl_heap_pop (Some (snd s)) (Some (replicate (unat (hp_element_size (snd s))) 0)) = Some (SCL_OK, Some h, Some v)"
    "heap_inv h" "hp_element_size h = hp_element_size (snd s)" "hp_cmp h = hp_cmp (snd s)"
    "mset (heap_list (snd s)) = add_mset v (mset (heap_list h))" "\<forall>x \<in> set (heap_list (snd s)). hp_cmp (snd s) v x \<le> 0" by auto
  have t: "heap_take s = Some (SCL_OK, (fst s, h), v)" by (simp add: heap_take_def p(1))
  show "\<exists>s' v. heap_take s = Some (SCL_OK, s', v) \<and> (scl_allocator (fst s') \<and> heap_inv (snd s')) \<and>
      unat (hp_element_size (snd s')) = unat (hp_element_size (snd s)) \<and> hp_cmp (snd s') = hp_cmp (snd s) \<and>
      mset (heap_list (snd s)) = add_mset v (mset (heap_list (snd s'))) \<and>
      (\<forall>x \<in># mset (heap_list (snd s)). hp_cmp (snd s) v x \<le> 0)"
    by (intro exI [of _ "(fst s, h)"] exI [of _ v] conjI t p(6) [folded set_mset_mset]) (use s p in simp_all)
next
  fix s :: "scl_allocator_t \<times> scl_heap_t"
  assume s: "scl_allocator (fst s) \<and> heap_inv (snd s)" and e: "mset (heap_list (snd s)) = {#}"
  then have "hp_count (snd s) = 0" using length_heap_list [of "snd s"] by simp
  then show "\<exists>v. heap_take s = Some (SCL_ERR_EMPTY, s, v)" by (simp add: heap_take_def scl_heap_pop_def)
qed

section \<open>Lists with range totals\<close>

text \<open>A list whose element at an index is changed by a value, and totals of ranges \<open>[l, r)\<close>.\<close>

fun alter_all :: "('s \<Rightarrow> nat \<Rightarrow> 'a \<Rightarrow> 's ub) \<Rightarrow> 's \<Rightarrow> (nat \<times> 'a) list \<Rightarrow> 's ub" where
  "alter_all alter s [] = Some s"
| "alter_all alter s ((i, v) # ops) = do { s' \<leftarrow> alter s i v; alter_all alter s' ops }"

fun list_alter :: "('a \<Rightarrow> 'a \<Rightarrow> 'a) \<Rightarrow> 'a list \<Rightarrow> (nat \<times> 'a) list \<Rightarrow> 'a list" where
  "list_alter change xs [] = xs"
| "list_alter change xs ((i, v) # ops) = list_alter change (xs[i := change (xs ! i) v]) ops"

lemma length_list_alter [simp]: "length (list_alter change xs ops) = length xs"
  by (induction change xs ops rule: list_alter.induct) simp_all

locale range_store =
  fixes f :: "'a \<Rightarrow> 'a \<Rightarrow> 'a"
    and change :: "'a \<Rightarrow> 'a \<Rightarrow> 'a"
    and inv :: "'s \<Rightarrow> 'a list \<Rightarrow> bool"
    and alter :: "'s \<Rightarrow> nat \<Rightarrow> 'a \<Rightarrow> 's ub"
    and ask :: "'s \<Rightarrow> nat \<Rightarrow> nat \<Rightarrow> 'a ub"
  assumes alter_law: "inv s xs \<Longrightarrow> i < length xs \<Longrightarrow> \<exists>s'. alter s i v = Some s' \<and> inv s' (xs[i := change (xs ! i) v])"
    and ask_law: "inv s xs \<Longrightarrow> l < r \<Longrightarrow> r \<le> length xs \<Longrightarrow> ask s l r = total f (between xs l r)"
begin

lemma alters:
  "inv s xs \<Longrightarrow> \<forall>(i, v) \<in> set ops. i < length xs \<Longrightarrow> \<exists>s'. alter_all alter s ops = Some s' \<and> inv s' (list_alter change xs ops)"
proof (induction ops arbitrary: s xs)
  case (Cons op ops)
  obtain i v where op: "op = (i, v)" by (cases op)
  then obtain s' where s': "alter s i v = Some s'" "inv s' (xs[i := change (xs ! i) v])"
    using alter_law [OF Cons.prems(1), of i v] Cons.prems(2) by auto
  have "\<forall>(j, w) \<in> set ops. j < length (xs[i := change (xs ! i) v])" using Cons.prems(2) by auto
  from Cons.IH [OF s'(2) this] show ?case using op s'(1) by simp
qed simp

lemma alters_ask:
  assumes "inv s xs" and "\<forall>(i, v) \<in> set ops. i < length xs" and "l < r" and "r \<le> length xs"
  shows "\<exists>s'. alter_all alter s ops = Some s' \<and> ask s' l r = total f (between (list_alter change xs ops) l r)"
proof -
  from alters [OF assms(1,2)] obtain s' where "alter_all alter s ops = Some s'" "inv s' (list_alter change xs ops)" by blast
  moreover from ask_law [OF this(2) assms(3)] assms(4) have "ask s' l r = total f (between (list_alter change xs ops) l r)" by simp
  ultimately show ?thesis by blast
qed

end

definition seg_set :: "'a scl_segtree_t \<Rightarrow> nat \<Rightarrow> 'a \<Rightarrow> 'a scl_segtree_t ub" where
  "seg_set t i v = do {
     (err, t) \<leftarrow> scl_segtree_update (Some t) (of_nat i) (Some v);
     if err = SCL_OK then t else None
   }"

definition seg_ask :: "'a \<Rightarrow> 'a scl_segtree_t \<Rightarrow> nat \<Rightarrow> nat \<Rightarrow> 'a ub" where
  "seg_ask old t l r = do {
     (err, out) \<leftarrow> scl_segtree_query (Some t) (of_nat l) (of_nat r) (Some old);
     if err = SCL_OK then out else None
   }"

definition seg_holds :: "('a \<Rightarrow> 'a \<Rightarrow> 'a) \<Rightarrow> 'a scl_segtree_t \<Rightarrow> 'a list \<Rightarrow> bool" where
  "seg_holds f t xs \<longleftrightarrow> seg_inv t \<and> associative f \<and> sg_combine t = f \<and> seg_list t = xs \<and> length xs = unat (sg_n t)"

lemma unat_small: "i \<le> unat (n::size_t) \<Longrightarrow> unat (of_nat i :: size_t) = i"
  using unat_of_nat_less [of i n] by (cases "i = unat n") simp_all

lemma small_less: "i < unat (n::size_t) \<Longrightarrow> of_nat i < n" and small_le: "i \<le> unat n \<Longrightarrow> of_nat i \<le> n"
  using unat_small [of i n] by (simp_all add: word_less_unat word_le_unat)

interpretation segtree: range_store f "\<lambda>old v. v" "seg_holds f" seg_set "seg_ask old" for f :: "'a \<Rightarrow> 'a \<Rightarrow> 'a" and old
proof
  fix t :: "'a scl_segtree_t" and xs i v
  assume t: "seg_holds f t xs" and i: "i < length xs"
  have u: "unat (of_nat i :: size_t) = i" "of_nat i < sg_n t"
    using t i unat_small [of i "sg_n t"] small_less [of i "sg_n t"] by (simp_all add: seg_holds_def)
  from seg_update_spec [OF _ u(2), of v] t obtain t' where
    "scl_segtree_update (Some t) (of_nat i) (Some v) = Some (SCL_OK, Some t')" "seg_inv t'" "seg_list t' = xs[i := v]"
    "sg_combine t' = f" "sg_n t' = sg_n t" by (auto simp: seg_holds_def u(1))
  then show "\<exists>t'. seg_set t i v = Some t' \<and> seg_holds f t' (xs[i := v])" using t by (simp add: seg_set_def seg_holds_def)
next
  fix t :: "'a scl_segtree_t" and xs l r
  assume t: "seg_holds f t xs" and lr: "l < r" "r \<le> length xs"
  have u: "unat (of_nat l :: size_t) = l" "unat (of_nat r :: size_t) = r" "of_nat l < (of_nat r :: size_t)" "of_nat r \<le> sg_n t"
    using t lr unat_small [of l "sg_n t"] unat_small [of r "sg_n t"] small_le [of r "sg_n t"]
    by (simp_all add: seg_holds_def word_less_unat)
  from seg_query_spec [OF _ _ u(3,4), of old] t obtain v where
    "scl_segtree_query (Some t) (of_nat l) (of_nat r) (Some old) = Some (SCL_OK, Some v)" "total f (between xs l r) = Some v"
    by (auto simp: seg_holds_def u(1,2) between_def)
  then show "seg_ask old t l r = total f (between xs l r)" by (simp add: seg_ask_def)
qed

definition fen_add :: "'a scl_fenwick_t \<Rightarrow> nat \<Rightarrow> 'a \<Rightarrow> 'a scl_fenwick_t ub" where
  "fen_add s i v = do {
     (err, s) \<leftarrow> scl_fenwick_update (Some s) (of_nat i) (Some v);
     if err = SCL_OK then s else None
   }"

definition fen_ask :: "'a \<Rightarrow> 'a scl_fenwick_t \<Rightarrow> nat \<Rightarrow> nat \<Rightarrow> 'a ub" where
  "fen_ask old s l r = do {
     (err, s, out) \<leftarrow> scl_fenwick_range_query (Some s) (of_nat l) (of_nat (r - 1)) (Some old);
     if err = SCL_OK then out else None
   }"

definition fen_holds :: "('a \<Rightarrow> 'a \<Rightarrow> 'a) \<Rightarrow> 'a scl_fenwick_t \<Rightarrow> 'a list \<Rightarrow> bool" where
  "fen_holds f s xs \<longleftrightarrow> fen_inv xs s \<and> fw_add s = f \<and> (\<forall>x y. fw_sub s (f x y) x = y)"

interpretation fenwick: range_store f f "fen_holds f" fen_add "fen_ask old" for f :: "'a \<Rightarrow> 'a \<Rightarrow> 'a" and old
proof
  fix s :: "'a scl_fenwick_t" and xs i v
  assume s: "fen_holds f s xs" and i: "i < length xs"
  have u: "unat (of_nat i :: size_t) = i" "of_nat i < fw_n s"
    using s i unat_small [of i "fw_n s"] small_less [of i "fw_n s"] by (simp_all add: fen_holds_def fen_inv_def)
  from fenwick_update_spec [OF _ u(2), of xs v] s show "\<exists>s'. fen_add s i v = Some s' \<and> fen_holds f s' (xs[i := f (xs ! i) v])"
    by (auto simp: fen_holds_def u(1) fen_add_def)
next
  fix s :: "'a scl_fenwick_t" and xs l r
  assume s: "fen_holds f s xs" and lr: "l < r" "r \<le> length xs"
  then have l1: "l \<le> r - 1" "r - 1 < length xs" "Suc (r - 1) = r" by simp_all
  have u: "unat (of_nat l :: size_t) = l" "unat (of_nat (r - 1) :: size_t) = r - 1"
    using s l1 unat_small [of l "fw_n s"] unat_small [of "r - 1" "fw_n s"] by (simp_all add: fen_holds_def fen_inv_def)
  have le: "of_nat l \<le> (of_nat (r - 1) :: size_t)" "of_nat (r - 1) < fw_n s"
    using s l1 u by (simp_all only: word_le_unat word_less_unat fen_holds_def fen_inv_def)
  from fenwick_range_spec [OF _ le, of xs old] s obtain v s' where
    "scl_fenwick_range_query (Some s) (of_nat l) (of_nat (r - 1)) (Some old) = Some (SCL_OK, Some s', Some v)"
    "total f (between xs l r) = Some v" unfolding u l1(3) by (auto simp: fen_holds_def)
  then show "fen_ask old s l r = total f (between xs l r)" by (simp add: fen_ask_def)
qed

section \<open>Unions\<close>

fun uf_unions :: "scl_unionfind_t \<Rightarrow> (size_t \<times> size_t) list \<Rightarrow> scl_unionfind_t ub" where
  "uf_unions u [] = Some u"
| "uf_unions u ((x, y) # ps) = do {
     (err, u) \<leftarrow> scl_unionfind_union (Some u) x y;
     u \<leftarrow> u;
     if err = SCL_OK then uf_unions u ps else None
   }"

text \<open>The equivalence on \<open>{0..<n}\<close> generated by some pairs.\<close>

definition generated :: "nat \<Rightarrow> (nat \<times> nat) set \<Rightarrow> (nat \<times> nat) set" where
  "generated n R = {(i, j). i < n \<and> j < n \<and> (i, j) \<in> (R \<union> R\<inverse>)\<^sup>*}"

lemma generated_insert:
  assumes "x < n" and "y < n"
  shows "(i, j) \<in> generated n (insert (x, y) R) \<longleftrightarrow> (i, j) \<in> generated n R \<or>
    (i, x) \<in> generated n R \<and> (y, j) \<in> generated n R \<or> (i, y) \<in> generated n R \<and> (x, j) \<in> generated n R"
proof -
  let ?S = "R \<union> R\<inverse>"
  have S: "insert (x, y) R \<union> (insert (x, y) R)\<inverse> = insert (x, y) (insert (y, x) ?S)" by auto
  have "(i, j) \<in> (insert (x, y) (insert (y, x) ?S))\<^sup>* \<longleftrightarrow>
      (i, j) \<in> ?S\<^sup>* \<or> (i, x) \<in> ?S\<^sup>* \<and> (y, j) \<in> ?S\<^sup>* \<or> (i, y) \<in> ?S\<^sup>* \<and> (x, j) \<in> ?S\<^sup>*"
    unfolding rtrancl_insert by (auto intro: rtrancl_trans)
  then show ?thesis unfolding generated_def S using assms(1,2) by auto
qed

lemma unions_spec:
  assumes "uf_inv u" and "\<forall>(x, y) \<in> set ps. x < uf_count u \<and> y < uf_count u"
    and "\<And>i j. uf_rel u i j \<longleftrightarrow> (i, j) \<in> generated (unat (uf_count u)) R"
  shows "\<exists>v. uf_unions u ps = Some v \<and> uf_inv v \<and> uf_count v = uf_count u \<and>
    (\<forall>i j. uf_rel v i j \<longleftrightarrow> (i, j) \<in> generated (unat (uf_count u)) (R \<union> (\<lambda>(x, y). (unat x, unat y)) ` set ps))"
  using assms
proof (induction ps arbitrary: u R)
  case Nil
  then show ?case by simp
next
  case (Cons p ps)
  obtain x y where p: "p = (x, y)" by (cases p)
  have xy: "unat x < unat (uf_count u)" "unat y < unat (uf_count u)" using Cons.prems(2) p by (auto simp: word_less_unat)
  from uf_union_spec [OF Cons.prems(1) xy] obtain v where v: "scl_unionfind_union (Some u) x y = Some (SCL_OK, Some v)"
    "uf_inv v" "uf_count v = uf_count u"
    "\<And>i j. uf_rel v i j \<longleftrightarrow> uf_rel u i j \<or> uf_rel u i (unat x) \<and> uf_rel u (unat y) j \<or> uf_rel u i (unat y) \<and> uf_rel u (unat x) j"
    by blast
  let ?R = "insert (unat x, unat y) R"
  have "uf_rel v i j \<longleftrightarrow> (i, j) \<in> generated (unat (uf_count v)) ?R" for i j
    using v(4) Cons.prems(3) generated_insert [OF xy] by (simp add: v(3))
  moreover have "\<forall>(x, y) \<in> set ps. x < uf_count v \<and> y < uf_count v" using Cons.prems(2) v(3) by auto
  ultimately obtain w where "uf_unions v ps = Some w" "uf_inv w" "uf_count w = uf_count u"
    "\<forall>i j. uf_rel w i j \<longleftrightarrow> (i, j) \<in> generated (unat (uf_count u)) (?R \<union> (\<lambda>(x, y). (unat x, unat y)) ` set ps)"
    using Cons.IH [OF v(2), of ?R] v(3) by auto
  then show ?case using v(1) p by simp
qed

section \<open>Filters\<close>

fun bloom_insert_all :: "scl_bloom_t \<Rightarrow> block list \<Rightarrow> scl_bloom_t ub" where
  "bloom_insert_all s [] = Some s"
| "bloom_insert_all s (d # ds) = do {
     (err, s) \<leftarrow> scl_bloom_insert (Some s) (Some d) (length d);
     s \<leftarrow> s;
     if err = SCL_OK then bloom_insert_all s ds else None
   }"

lemma bloom_all_spec:
  assumes "bloom_inv s" and "bloom_hash (bf_hash_func s)"
  shows "\<exists>s'. bloom_insert_all s ds = Some s' \<and> bloom_inv s' \<and> bf_hash_func s' = bf_hash_func s \<and>
    (\<forall>d \<in> set ds. bloom_has s' d (length d)) \<and> (\<forall>d l. bloom_has s d l \<longrightarrow> bloom_has s' d l)"
  using assms
proof (induction ds arbitrary: s)
  case (Cons d ds)
  from bloom_insert_spec [OF Cons.prems order_refl] obtain s1 where s1:
    "scl_bloom_insert (Some s) (Some d) (length d) = Some (SCL_OK, Some s1)" "bloom_inv s1"
    "bf_hash_func s1 = bf_hash_func s" "bloom_has s1 d (length d)" "\<forall>d l. bloom_has s d l \<longrightarrow> bloom_has s1 d l" by blast
  from Cons.IH [OF s1(2)] s1(3) Cons.prems(2) obtain s2 where "bloom_insert_all s1 ds = Some s2" "bloom_inv s2"
    "bf_hash_func s2 = bf_hash_func s" "\<forall>d \<in> set ds. bloom_has s2 d (length d)" "\<forall>d l. bloom_has s1 d l \<longrightarrow> bloom_has s2 d l"
    by auto
  then show ?case using s1 by auto
qed simp

end
