(* ===== verification/Scl_Hash.thy ===== *)
theory Scl_Hash
  imports Scl_Slots Scl_Ring
begin

text \<open>
  The open-addressing hash table of \<open>libs/structures/hash\<close>: keys and values in two flat blocks, one state per
  slot, linear probing with tombstones, growth at two thirds. The probe loops are \<open>for (;;)\<close> loops that end at
  an empty slot, at a match or after a full turn; they are partial functions, and that they end is part of
  what is proved. The hash and the comparison are the caller's functions or the library's own, the seed is
  what \<open>scl_rand\<close> delivered.
\<close>

datatype scl_hash_slot_state_t = SCL_HASH_EMPTY | SCL_HASH_OCCUPIED | SCL_HASH_TOMBSTONE

type_synonym scl_hash_func_t = "block \<Rightarrow> nat \<Rightarrow> size_t ub"
type_synonym scl_hash_eq_func_t = "block \<Rightarrow> block \<Rightarrow> nat \<Rightarrow> bool ub"

record scl_hash_t =
  ht_keys :: "block ptr"
  ht_values :: "block ptr"
  ht_states :: "scl_hash_slot_state_t list ptr"
  ht_capacity :: size_t
  ht_mask :: size_t
  ht_count :: size_t
  ht_hash_func :: scl_hash_func_t
  ht_eq_func :: scl_hash_eq_func_t
  ht_seed :: size_t
  ht_key_size :: size_t
  ht_value_size :: size_t

section \<open>The library's hash and comparison\<close>

definition scl_hash_djb2 :: scl_hash_func_t where
  "scl_hash_djb2 key len = for_up 0 len (\<lambda>i h. do { b \<leftarrow> at key i; Some ((push_bit 5 h + h) + ucast b) }) 5381"

definition scl_hash_eq_mem :: scl_hash_eq_func_t where
  "scl_hash_eq_mem x y key_size = do {
     u \<leftarrow> mem_read x 0 key_size;
     v \<leftarrow> mem_read y 0 key_size;
     Some (u = v)
   }"

section \<open>Growth\<close>

definition hash_index :: "scl_hash_t \<Rightarrow> block \<Rightarrow> size_t \<Rightarrow> size_t ub" where
  "hash_index ht key msk = do {
     h \<leftarrow> ht_hash_func ht key (unat (ht_key_size ht));
     Some ((h XOR ht_seed ht) AND msk)
   }"

text \<open>\<open>while (new_states[idx] == SCL_HASH_OCCUPIED) idx = (idx + 1) & new_mask;\<close>\<close>

partial_function (option) hash_vacant :: "scl_hash_slot_state_t list \<Rightarrow> size_t \<Rightarrow> size_t \<Rightarrow> size_t option" where
  "hash_vacant states msk idx = do {
     st \<leftarrow> at states (unat idx);
     if st = SCL_HASH_OCCUPIED then hash_vacant states msk ((idx + 1) AND msk) else Some idx
   }"

definition hash_move ::
    "scl_hash_t \<Rightarrow> scl_hash_slot_state_t list \<Rightarrow> size_t \<Rightarrow> nat \<Rightarrow> block ptr \<times> block ptr \<times> scl_hash_slot_state_t list
     \<Rightarrow> (block ptr \<times> block ptr \<times> scl_hash_slot_state_t list) ub" where
  "hash_move ht states new_mask i new = (case new of (new_keys, new_vals, new_states) \<Rightarrow> do {
     let ksz = ht_key_size ht;
     let vsz = ht_value_size ht;
     st \<leftarrow> at states i;
     if st = SCL_HASH_OCCUPIED then do {
       key \<leftarrow> load_elem (ht_keys ht) (of_nat i) ksz;
       idx \<leftarrow> hash_index ht key new_mask;
       idx \<leftarrow> hash_vacant new_states new_mask idx;
       new_keys \<leftarrow> scl_memcpy new_keys (unat (idx * ksz)) (ht_keys ht) (unat (of_nat i * ksz)) (unat ksz);
       new_vals \<leftarrow> scl_memcpy new_vals (unat (idx * vsz)) (ht_values ht) (unat (of_nat i * vsz)) (unat vsz);
       new_states \<leftarrow> put_at new_states (unat idx) SCL_HASH_OCCUPIED;
       Some (new_keys, new_vals, new_states)
     } else Some (new_keys, new_vals, new_states)
   })"

definition scl_hash_grow :: "scl_allocator_t \<Rightarrow> scl_hash_t \<Rightarrow> (scl_error_t \<times> scl_hash_t) ub" where
  "scl_hash_grow a ht =
     (if SIZE_MAX div 2 < ht_capacity ht then Some (SCL_ERR_SIZE_OVERFLOW, ht)
      else
        let new_cap = (if ht_capacity ht = 0 then 16 else ht_capacity ht * 2);
            new_mask = new_cap - 1
        in (case (scl_mul_overflow new_cap (ht_key_size ht), scl_mul_overflow new_cap (ht_value_size ht),
                  scl_mul_overflow new_cap 4) of
              (Some ksz_total, Some vsz_total, Some ssz_total) \<Rightarrow>
                (case (malloc_fn a 0 ksz_total max_align, malloc_fn a 1 vsz_total max_align, malloc_fn a 2 ssz_total max_align) of
                   (Some new_keys, Some new_vals, Some _) \<Rightarrow> do {
                     states \<leftarrow> (if ht_capacity ht = 0 then Some [] else ht_states ht);
                     (new_keys, new_vals, new_states) \<leftarrow> for_up 0 (unat (ht_capacity ht)) (hash_move ht states new_mask)
                       (Some new_keys, Some new_vals, replicate (unat new_cap) SCL_HASH_EMPTY);
                     Some (SCL_OK, ht\<lparr>ht_keys := new_keys, ht_values := new_vals, ht_states := Some new_states,
                       ht_capacity := new_cap, ht_mask := new_mask\<rparr>)
                   }
                 | _ \<Rightarrow> Some (SCL_ERR_OUT_OF_MEMORY, ht))
            | _ \<Rightarrow> Some (SCL_ERR_SIZE_OVERFLOW, ht)))"

section \<open>Construction\<close>

definition scl_hash_init ::
    "size_t \<Rightarrow> scl_allocator_t \<Rightarrow> scl_hash_t ptr \<Rightarrow> size_t \<Rightarrow> size_t \<Rightarrow> size_t \<Rightarrow> scl_hash_func_t ptr \<Rightarrow> scl_hash_eq_func_t ptr
     \<Rightarrow> scl_error_t \<times> scl_hash_t ptr" where
  "scl_hash_init seed a ht key_size value_size initial_buckets hf eq =
     (case ht of
        None \<Rightarrow> (SCL_ERR_NULL_PTR, ht)
      | Some t \<Rightarrow>
          if key_size = 0 \<or> value_size = 0 \<or> initial_buckets = 0 \<or> hf = None then (SCL_ERR_INVALID_ARG, ht)
          else
            let cap = scl_bit_ceil_sz initial_buckets;
                keys = calloc_fn a 0 cap key_size max_align;
                vals = calloc_fn a 1 cap value_size max_align;
                states = map_option (\<lambda>_. replicate (unat cap) SCL_HASH_EMPTY) (calloc_fn a 2 cap 4 max_align);
                t = t\<lparr>ht_keys := keys, ht_values := vals, ht_states := states\<rparr>
            in if keys = None \<or> vals = None \<or> states = None then (SCL_ERR_OUT_OF_MEMORY, Some t)
               else (SCL_OK, Some (t\<lparr>ht_capacity := cap, ht_mask := cap - 1, ht_count := 0, ht_hash_func := the hf,
                 ht_eq_func := (case eq of None \<Rightarrow> scl_hash_eq_mem | Some e \<Rightarrow> e), ht_seed := seed,
                 ht_key_size := key_size, ht_value_size := value_size\<rparr>)))"

definition scl_hash_destroy :: "scl_hash_t ptr \<Rightarrow> scl_hash_t ptr" where
  "scl_hash_destroy ht = map_option (\<lambda>t. t\<lparr>ht_keys := None, ht_values := None, ht_states := None,
     ht_capacity := 0, ht_count := 0\<rparr>) ht"

section \<open>Operations\<close>

text \<open>The loop of the insertion: the first slot that is vacant, or holds the key, or neither in a whole turn.\<close>

datatype place = Vacant size_t | Present size_t | Full

partial_function (option) hash_place :: "scl_hash_t \<Rightarrow> scl_hash_slot_state_t list \<Rightarrow> block \<Rightarrow> size_t \<Rightarrow> size_t \<Rightarrow> place option" where
  "hash_place ht states key start idx = do {
     st \<leftarrow> at states (unat idx);
     if st = SCL_HASH_EMPTY \<or> st = SCL_HASH_TOMBSTONE then Some (Vacant idx)
     else do {
       k \<leftarrow> load_elem (ht_keys ht) idx (ht_key_size ht);
       e \<leftarrow> ht_eq_func ht k key (unat (ht_key_size ht));
       if e then Some (Present idx)
       else if (idx + 1) AND ht_mask ht = start then Some Full
       else hash_place ht states key start ((idx + 1) AND ht_mask ht)
     }
   }"

definition scl_hash_insert ::
    "scl_allocator_t \<Rightarrow> scl_hash_t ptr \<Rightarrow> block ptr \<Rightarrow> block ptr \<Rightarrow> (scl_error_t \<times> scl_hash_t ptr) ub" where
  "scl_hash_insert a ht key val =
     (case (ht, key, val) of
        (Some t, Some k, Some v) \<Rightarrow> do {
          (err, t) \<leftarrow> (if ht_capacity t * 2 \<le> ht_count t * 3 then scl_hash_grow a t else Some (SCL_OK, t));
          if err \<noteq> SCL_OK then Some (err, Some t)
          else do {
            let ksz = ht_key_size t;
            let vsz = ht_value_size t;
            states \<leftarrow> ht_states t;
            idx \<leftarrow> hash_index t k (ht_mask t);
            p \<leftarrow> hash_place t states k idx idx;
            (case p of
               Vacant idx \<Rightarrow> do {
                 keys \<leftarrow> scl_memcpy (ht_keys t) (unat (idx * ksz)) key 0 (unat ksz);
                 vals \<leftarrow> scl_memcpy (ht_values t) (unat (idx * vsz)) val 0 (unat vsz);
                 states \<leftarrow> put_at states (unat idx) SCL_HASH_OCCUPIED;
                 Some (SCL_OK, Some (t\<lparr>ht_keys := keys, ht_values := vals, ht_states := Some states,
                   ht_count := ht_count t + 1\<rparr>))
               }
             | Present idx \<Rightarrow> do {
                 vals \<leftarrow> scl_memcpy (ht_values t) (unat (idx * vsz)) val 0 (unat vsz);
                 Some (SCL_OK, Some (t\<lparr>ht_values := vals\<rparr>))
               }
             | Full \<Rightarrow> Some (SCL_ERR_FULL, Some t))
          }
        }
      | _ \<Rightarrow> Some (SCL_ERR_NULL_PTR, ht))"

text \<open>The loop of \<open>scl_hash_get\<close>, \<open>scl_hash_remove\<close> and \<open>scl_hash_contains\<close>.\<close>

partial_function (option) hash_probe :: "scl_hash_t \<Rightarrow> scl_hash_slot_state_t list \<Rightarrow> block \<Rightarrow> size_t \<Rightarrow> size_t \<Rightarrow> size_t option option" where
  "hash_probe ht states key start idx = do {
     st \<leftarrow> at states (unat idx);
     if st = SCL_HASH_EMPTY then Some None
     else do {
       e \<leftarrow> (if st = SCL_HASH_OCCUPIED then do {
               k \<leftarrow> load_elem (ht_keys ht) idx (ht_key_size ht);
               ht_eq_func ht k key (unat (ht_key_size ht))
             } else Some False);
       if e then Some (Some idx)
       else if (idx + 1) AND ht_mask ht = start then Some None
       else hash_probe ht states key start ((idx + 1) AND ht_mask ht)
     }
   }"

definition hash_search :: "scl_hash_t \<Rightarrow> block \<Rightarrow> size_t option ub" where
  "hash_search ht key = do {
     states \<leftarrow> ht_states ht;
     idx \<leftarrow> hash_index ht key (ht_mask ht);
     hash_probe ht states key idx idx
   }"

definition scl_hash_get :: "scl_hash_t ptr \<Rightarrow> block ptr \<Rightarrow> block ptr \<Rightarrow> (scl_error_t \<times> block ptr) ub" where
  "scl_hash_get ht key out =
     (case (ht, key, out) of
        (Some t, Some k, Some _) \<Rightarrow> do {
          r \<leftarrow> hash_search t k;
          (case r of
             None \<Rightarrow> Some (SCL_ERR_NOT_FOUND, out)
           | Some idx \<Rightarrow> do {
               out \<leftarrow> scl_memcpy out 0 (ht_values t) (unat (idx * ht_value_size t)) (unat (ht_value_size t));
               Some (SCL_OK, out)
             })
        }
      | _ \<Rightarrow> Some (SCL_ERR_NULL_PTR, out))"

definition scl_hash_remove :: "scl_hash_t ptr \<Rightarrow> block ptr \<Rightarrow> (scl_error_t \<times> scl_hash_t ptr) ub" where
  "scl_hash_remove ht key =
     (case (ht, key) of
        (Some t, Some k) \<Rightarrow> do {
          r \<leftarrow> hash_search t k;
          (case r of
             None \<Rightarrow> Some (SCL_ERR_NOT_FOUND, ht)
           | Some idx \<Rightarrow> do {
               states \<leftarrow> ht_states t;
               states \<leftarrow> put_at states (unat idx) SCL_HASH_TOMBSTONE;
               Some (SCL_OK, Some (t\<lparr>ht_states := Some states, ht_count := ht_count t - 1\<rparr>))
             })
        }
      | _ \<Rightarrow> Some (SCL_ERR_NULL_PTR, ht))"

definition scl_hash_contains :: "scl_hash_t ptr \<Rightarrow> block ptr \<Rightarrow> bool ub" where
  "scl_hash_contains ht key =
     (case (ht, key) of
        (Some t, Some k) \<Rightarrow> do { r \<leftarrow> hash_search t k; Some (r \<noteq> None) }
      | _ \<Rightarrow> Some False)"

definition scl_hash_count :: "scl_hash_t ptr \<Rightarrow> size_t" where
  "scl_hash_count ht = (case ht of None \<Rightarrow> 0 | Some t \<Rightarrow> ht_count t)"

section \<open>What the table relies on\<close>

text \<open>Hash and comparison read only the first \<open>w\<close> bytes; the comparison is an equivalence, and equal keys have
  equal hashes.\<close>

locale hash_keys =
  fixes hf :: scl_hash_func_t and eq :: scl_hash_eq_func_t and w :: nat
  assumes hash_defined: "w \<le> length k \<Longrightarrow> hf k w \<noteq> None"
    and hash_prefix: "w \<le> length k \<Longrightarrow> hf (take w k) w = hf k w"
    and eq_defined: "w \<le> length x \<Longrightarrow> w \<le> length y \<Longrightarrow> eq x y w \<noteq> None"
    and eq_prefix: "w \<le> length x \<Longrightarrow> w \<le> length y \<Longrightarrow> eq (take w x) y w = eq x y w"
    and eq_refl: "w \<le> length x \<Longrightarrow> eq x x w = Some True"
    and eq_sym: "w \<le> length x \<Longrightarrow> w \<le> length y \<Longrightarrow> eq x y w = Some True \<Longrightarrow> eq y x w = Some True"
    and eq_trans: "w \<le> length x \<Longrightarrow> w \<le> length y \<Longrightarrow> w \<le> length z \<Longrightarrow>
      eq x y w = Some True \<Longrightarrow> eq y z w = Some True \<Longrightarrow> eq x z w = Some True"
    and eq_hash: "w \<le> length x \<Longrightarrow> w \<le> length y \<Longrightarrow> eq x y w = Some True \<Longrightarrow> hf x w = hf y w"

lemma djb2_defined: "len \<le> length key \<Longrightarrow> \<exists>h. scl_hash_djb2 key len = Some h"
proof -
  assume "len \<le> length key"
  then have "yields (scl_hash_djb2 key len) (\<lambda>_. True)"
    unfolding scl_hash_djb2_def by (intro for_up_rule [where I = "\<lambda>_ _. True"]) simp_all
  then show ?thesis by (auto simp: yields_iff)
qed

lemma djb2_cong: "take len x = take len y \<Longrightarrow> len \<le> length x \<Longrightarrow> len \<le> length y \<Longrightarrow> scl_hash_djb2 x len = scl_hash_djb2 y len"
proof -
  assume t: "take len x = take len y" and len: "len \<le> length x" "len \<le> length y"
  have "x ! i = y ! i" if "i < len" for i using t that by (metis nth_take)
  then show ?thesis unfolding scl_hash_djb2_def
    by (intro for_up_cong [where I = "\<lambda>_ _. True"]) (use len in simp_all)
qed

interpretation djb2: hash_keys scl_hash_djb2 scl_hash_eq_mem w for w
proof
  show "scl_hash_djb2 k w \<noteq> None" if "w \<le> length k" for k using djb2_defined [OF that] by auto
  show "scl_hash_djb2 (take w k) w = scl_hash_djb2 k w" if "w \<le> length k" for k
    using that by (intro djb2_cong) simp_all
  show "scl_hash_djb2 x w = scl_hash_djb2 y w"
    if "w \<le> length x" "w \<le> length y" "scl_hash_eq_mem x y w = Some True" for x y
    using that by (intro djb2_cong) (simp_all add: scl_hash_eq_mem_def mem_read_def)
qed (simp_all add: scl_hash_eq_mem_def mem_read_def)

section \<open>Invariant\<close>

definition occupied :: "scl_hash_slot_state_t list \<Rightarrow> nat set" where
  "occupied st = {i. i < length st \<and> st ! i = SCL_HASH_OCCUPIED}"

text \<open>Slot \<open>i\<close> is reached from \<open>h\<close> without passing an empty slot.\<close>

definition chain :: "scl_hash_slot_state_t list \<Rightarrow> nat \<Rightarrow> nat \<Rightarrow> bool" where
  "chain st h i \<longleftrightarrow> (\<exists>d < length st. i = (h + d) mod length st \<and> (\<forall>m < d. st ! ((h + m) mod length st) \<noteq> SCL_HASH_EMPTY))"

definition hash_home :: "scl_hash_t \<Rightarrow> size_t \<Rightarrow> block \<Rightarrow> nat" where
  "hash_home ht cap key = unat ((the (ht_hash_func ht key (unat (ht_key_size ht))) XOR ht_seed ht) AND (cap - 1))"

definition hash_same :: "scl_hash_t \<Rightarrow> block \<Rightarrow> block \<Rightarrow> bool" where
  "hash_same ht x y \<longleftrightarrow> ht_eq_func ht x y (unat (ht_key_size ht)) = Some True"

abbreviation hash_keys_of :: "scl_hash_t \<Rightarrow> bool" where
  "hash_keys_of ht \<equiv> hash_keys (ht_hash_func ht) (ht_eq_func ht) (unat (ht_key_size ht))"

definition hash_table :: "scl_hash_t \<Rightarrow> size_t \<Rightarrow> block ptr \<Rightarrow> block ptr \<Rightarrow> scl_hash_slot_state_t list \<Rightarrow> bool" where
  "hash_table ht cap keys vals st \<longleftrightarrow> pow2_sz cap \<and> buf_ok keys cap (ht_key_size ht) \<and> buf_ok vals cap (ht_value_size ht) \<and>
     length st = unat cap \<and>
     (\<forall>i \<in> occupied st. chain st (hash_home ht cap (slot keys (ht_key_size ht) i)) i) \<and>
     (\<forall>i \<in> occupied st. \<forall>j \<in> occupied st. hash_same ht (slot keys (ht_key_size ht) i) (slot keys (ht_key_size ht) j) \<longrightarrow> i = j)"

definition hash_entry :: "scl_hash_t \<Rightarrow> block ptr \<Rightarrow> block ptr \<Rightarrow> scl_hash_slot_state_t list \<Rightarrow> block \<Rightarrow> block \<Rightarrow> bool" where
  "hash_entry ht keys vals st k v \<longleftrightarrow>
     (\<exists>i \<in> occupied st. hash_same ht (slot keys (ht_key_size ht) i) k \<and> slot vals (ht_value_size ht) i = v)"

definition hash_inv :: "scl_hash_t \<Rightarrow> bool" where
  "hash_inv ht \<longleftrightarrow> hash_keys_of ht \<and> ht_mask ht = ht_capacity ht - 1 \<and> unat (ht_capacity ht) * 4 < object_limit \<and>
     (case ht_states ht of None \<Rightarrow> False
      | Some st \<Rightarrow> hash_table ht (ht_capacity ht) (ht_keys ht) (ht_values ht) st \<and> unat (ht_count ht) = card (occupied st))"

text \<open>The contents: the value under a key.\<close>

definition hash_map :: "scl_hash_t \<Rightarrow> block \<Rightarrow> block option" where
  "hash_map ht k = (case ht_states ht of None \<Rightarrow> None
     | Some st \<Rightarrow> map_option (slot (ht_values ht) (ht_value_size ht))
         (find (\<lambda>i. st ! i = SCL_HASH_OCCUPIED \<and> hash_same ht (slot (ht_keys ht) (ht_key_size ht) i) k) [0..<length st]))"

lemma finite_occupied [simp]: "finite (occupied st)"
  by (simp add: occupied_def)

lemma occupied_less: "i \<in> occupied st \<Longrightarrow> i < length st"
  by (simp add: occupied_def)

text \<open>One turn of a probe loop.\<close>

lemma turn:
  assumes cap: "pow2_sz cap" and h: "unat start < unat cap" and j: "j < unat cap" and idx: "unat idx = (unat start + j) mod unat cap"
  shows "unat ((idx + 1) AND (cap - 1)) = (unat start + Suc j) mod unat cap"
    and "(idx + 1) AND (cap - 1) = start \<longleftrightarrow> Suc j = unat cap"
proof -
  show u: "unat ((idx + 1) AND (cap - 1)) = (unat start + Suc j) mod unat cap"
    unfolding ring_index_one [OF cap] idx by (simp add: mod_Suc_eq)
  have "(unat start + Suc j) mod unat cap = unat start \<longleftrightarrow> Suc j = unat cap"
  proof
    assume "Suc j = unat cap"
    then show "(unat start + Suc j) mod unat cap = unat start" using h by simp
  next
    assume e: "(unat start + Suc j) mod unat cap = unat start"
    show "Suc j = unat cap"
    proof (rule ccontr)
      assume "Suc j \<noteq> unat cap"
      then have "Suc j < unat cap" using j by simp
      from mod_ring_distinct [OF this, of 0 "unat start"] e h show False by simp
    qed
  qed
  then show "(idx + 1) AND (cap - 1) = start \<longleftrightarrow> Suc j = unat cap" by (simp add: word_unat_eq_iff u)
qed

lemma ring_covers:
  assumes "i < (c::nat)" and "h < c"
  obtains d where "d < c" and "i = (h + d) mod c"
proof (cases "h \<le> i")
  case True
  then show thesis using assms by (intro that [of "i - h"]) simp_all
next
  case False
  then show thesis using assms by (intro that [of "c + i - h"]) (simp_all add: mod_add_self1)
qed

section \<open>Probing\<close>

lemma hash_index_home:
  assumes "hash_keys_of ht" and "unat (ht_key_size ht) \<le> length key" and "pow2_sz cap"
  shows "\<exists>idx. hash_index ht key (cap - 1) = Some idx \<and> unat idx = hash_home ht cap key" and "hash_home ht cap key < unat cap"
proof -
  obtain h where "ht_hash_func ht key (unat (ht_key_size ht)) = Some h"
    using hash_keys.hash_defined [OF assms(1,2)] by auto
  then show "\<exists>idx. hash_index ht key (cap - 1) = Some idx \<and> unat idx = hash_home ht cap key"
    by (simp add: hash_index_def hash_home_def)
  show "hash_home ht cap key < unat cap"
    unfolding hash_home_def unat_mask_index [OF assms(3)] using pow2_sz_pos [OF assms(3)] by simp
qed

lemma home_same:
  assumes "hash_keys_of ht" and "unat (ht_key_size ht) \<le> length x" and "unat (ht_key_size ht) \<le> length y" and "hash_same ht x y"
  shows "hash_home ht cap x = hash_home ht cap y"
  using hash_keys.eq_hash [OF assms(1-3)] assms(4) by (simp add: hash_same_def hash_home_def)

lemma table_key:
  "hash_table ht cap keys vals st \<Longrightarrow> i < unat cap \<Longrightarrow> unat (ht_key_size ht) \<le> length (slot keys (ht_key_size ht) i)"
  using length_slot by (fastforce simp: hash_table_def)

text \<open>A comparison of the key in a slot.\<close>

lemma table_compare:
  assumes "hash_keys_of ht" and T: "hash_table ht cap keys vals st" and "idx < cap" and "unat (ht_key_size ht) \<le> length key"
  shows "load_elem keys idx (ht_key_size ht) = Some (slot keys (ht_key_size ht) (unat idx))"
    and "ht_eq_func ht (slot keys (ht_key_size ht) (unat idx)) key (unat (ht_key_size ht))
      = Some (hash_same ht (slot keys (ht_key_size ht) (unat idx)) key)"
proof -
  show "load_elem keys idx (ht_key_size ht) = Some (slot keys (ht_key_size ht) (unat idx))"
    by (rule load_slot [where cap = cap]) (use T assms(3) in \<open>simp_all add: hash_table_def\<close>)
  have "unat idx < unat cap" using assms(3) by (simp add: word_less_unat)
  from hash_keys.eq_defined [OF assms(1) table_key [OF T this] assms(4)]
  show "ht_eq_func ht (slot keys (ht_key_size ht) (unat idx)) key (unat (ht_key_size ht))
      = Some (hash_same ht (slot keys (ht_key_size ht) (unat idx)) key)" by (auto simp: hash_same_def)
qed

text \<open>A key that is somewhere is on the chain from its home.\<close>

lemma table_chain:
  assumes "hash_keys_of ht" and T: "hash_table ht cap keys vals st" and i: "i \<in> occupied st"
    and "hash_same ht (slot keys (ht_key_size ht) i) key" and "unat (ht_key_size ht) \<le> length key"
  shows "\<exists>d < unat cap. i = (hash_home ht cap key + d) mod unat cap \<and>
    (\<forall>m < d. st ! ((hash_home ht cap key + m) mod unat cap) \<noteq> SCL_HASH_EMPTY)"
proof -
  have len: "length st = unat cap" using T by (simp add: hash_table_def)
  have "unat (ht_key_size ht) \<le> length (slot keys (ht_key_size ht) i)"
    using table_key [OF T] occupied_less [OF i] len by simp
  note home = home_same [OF assms(1) this assms(5,4), of cap]
  have "chain st (hash_home ht cap (slot keys (ht_key_size ht) i)) i" using T i by (simp add: hash_table_def)
  then show ?thesis unfolding home by (simp add: chain_def len)
qed

lemma hash_probe_spec:
  assumes hk: "hash_keys_of ht" and T: "hash_table ht cap (ht_keys ht) vals st" and msk: "ht_mask ht = cap - 1"
    and key: "unat (ht_key_size ht) \<le> length key" and start: "unat start = hash_home ht cap key"
  shows "j < unat cap \<Longrightarrow> unat idx = (unat start + j) mod unat cap \<Longrightarrow>
    (\<forall>m < j. let p = (unat start + m) mod unat cap in st ! p \<noteq> SCL_HASH_EMPTY \<and>
       \<not> (st ! p = SCL_HASH_OCCUPIED \<and> hash_same ht (slot (ht_keys ht) (ht_key_size ht) p) key)) \<Longrightarrow>
    yields (hash_probe ht st key start idx) (\<lambda>r. case r of
        None \<Rightarrow> \<forall>i \<in> occupied st. \<not> hash_same ht (slot (ht_keys ht) (ht_key_size ht) i) key
      | Some q \<Rightarrow> unat q \<in> occupied st \<and> hash_same ht (slot (ht_keys ht) (ht_key_size ht) (unat q)) key)"
proof (induction "unat cap - j" arbitrary: j idx)
  case 0
  then show ?case by simp
next
  case (Suc n)
  let ?s = "\<lambda>i. hash_same ht (slot (ht_keys ht) (ht_key_size ht) i) key"
  have cap: "pow2_sz cap" and len: "length st = unat cap" using T by (simp_all add: hash_table_def)
  have h: "unat start < unat cap" using hash_index_home(2) [OF hk key cap] start by simp
  have idx: "unat idx < unat cap" using Suc.prems(2) pow2_sz_pos [OF cap] by simp
  then have lt: "idx < cap" by (simp add: word_less_unat)
  note cmp = table_compare [OF hk T lt key]
  have passed: "\<not> (st ! p \<noteq> SCL_HASH_EMPTY \<and> st ! p = SCL_HASH_OCCUPIED \<and> ?s p)" "st ! p \<noteq> SCL_HASH_EMPTY"
    if "p = (unat start + m) mod unat cap" "m < j" for p m
    using Suc.prems(3) that by (auto simp: Let_def)
  have gone: "\<not> ?s i" if i: "i \<in> occupied st"
    and stop: "st ! unat idx = SCL_HASH_EMPTY \<or> Suc j = unat cap \<and> \<not> (st ! unat idx = SCL_HASH_OCCUPIED \<and> ?s (unat idx))" for i
  proof
    assume "?s i"
    then obtain d where d: "d < unat cap" "i = (unat start + d) mod unat cap"
      "\<And>m. m < d \<Longrightarrow> st ! ((unat start + m) mod unat cap) \<noteq> SCL_HASH_EMPTY"
      using table_chain [OF hk T i _ key] unfolding start by blast
    have occ: "st ! i = SCL_HASH_OCCUPIED" using i by (simp add: occupied_def)
    consider "d < j" | "d = j" | "j < d" by linarith
    then show False
    proof cases
      case 1
      then show False using passed(1) [OF d(2)] occ \<open>?s i\<close> by simp
    next
      case 2
      then show False using stop occ \<open>?s i\<close> d(2) Suc.prems(2) by auto
    next
      case 3
      then show False using d(1) d(3) [OF 3] stop Suc.prems(2) by auto
    qed
  qed
  note turn = turn [OF cap h Suc.prems(1,2)]
  show ?case
  proof (cases "st ! unat idx = SCL_HASH_EMPTY")
    case True
    then show ?thesis using gone idx len by (subst hash_probe.simps) simp
  next
    case False
    show ?thesis
    proof (cases "st ! unat idx = SCL_HASH_OCCUPIED \<and> ?s (unat idx)")
      case True
      then show ?thesis using idx len cmp by (subst hash_probe.simps) (simp add: occupied_def)
    next
      case no: False
      have probe: "hash_probe ht st key start idx = (if Suc j = unat cap then Some None
          else hash_probe ht st key start ((idx + 1) AND (cap - 1)))"
        using False no idx len cmp turn(2) msk by (subst hash_probe.simps) auto
      show ?thesis
      proof (cases "Suc j = unat cap")
        case True
        then show ?thesis using probe gone no by simp
      next
        case False
        have "yields (hash_probe ht st key start ((idx + 1) AND (cap - 1))) (\<lambda>r. case r of
            None \<Rightarrow> \<forall>i \<in> occupied st. \<not> ?s i | Some q \<Rightarrow> unat q \<in> occupied st \<and> ?s (unat q))"
        proof (rule Suc.hyps(1))
          show "n = unat cap - Suc j" "Suc j < unat cap" using Suc.hyps(2) False Suc.prems(1) by simp_all
          show "\<forall>m < Suc j. let p = (unat start + m) mod unat cap in st ! p \<noteq> SCL_HASH_EMPTY \<and>
              \<not> (st ! p = SCL_HASH_OCCUPIED \<and> ?s p)"
            using Suc.prems(2,3) \<open>st ! unat idx \<noteq> SCL_HASH_EMPTY\<close> no by (auto simp: Let_def less_Suc_eq)
        qed (rule turn(1))
        then show ?thesis using probe False by simp
      qed
    qed
  qed
qed

text \<open>Where an insertion ends: behind occupied slots with other keys.\<close>

definition vacant_at :: "scl_hash_t \<Rightarrow> size_t \<Rightarrow> scl_hash_slot_state_t list \<Rightarrow> block \<Rightarrow> nat \<Rightarrow> bool" where
  "vacant_at ht cap st key q \<longleftrightarrow> q < unat cap \<and> st ! q \<noteq> SCL_HASH_OCCUPIED \<and>
     (\<exists>d < unat cap. q = (hash_home ht cap key + d) mod unat cap \<and>
       (\<forall>m < d. st ! ((hash_home ht cap key + m) mod unat cap) = SCL_HASH_OCCUPIED))"

lemma hash_place_spec:
  assumes hk: "hash_keys_of ht" and T: "hash_table ht cap (ht_keys ht) vals st" and msk: "ht_mask ht = cap - 1"
    and key: "unat (ht_key_size ht) \<le> length key" and start: "unat start = hash_home ht cap key"
  shows "j < unat cap \<Longrightarrow> unat idx = (unat start + j) mod unat cap \<Longrightarrow>
    (\<forall>m < j. st ! ((unat start + m) mod unat cap) = SCL_HASH_OCCUPIED \<and>
      \<not> hash_same ht (slot (ht_keys ht) (ht_key_size ht) ((unat start + m) mod unat cap)) key) \<Longrightarrow>
    yields (hash_place ht st key start idx) (\<lambda>p. case p of
        Vacant q \<Rightarrow> vacant_at ht cap st key (unat q) \<and> (st ! unat q = SCL_HASH_EMPTY \<longrightarrow>
          (\<forall>i \<in> occupied st. \<not> hash_same ht (slot (ht_keys ht) (ht_key_size ht) i) key))
      | Present q \<Rightarrow> unat q \<in> occupied st \<and> hash_same ht (slot (ht_keys ht) (ht_key_size ht) (unat q)) key
      | Full \<Rightarrow> occupied st = {..<unat cap})"
proof (induction "unat cap - j" arbitrary: j idx)
  case 0
  then show ?case by simp
next
  case (Suc n)
  let ?s = "\<lambda>i. hash_same ht (slot (ht_keys ht) (ht_key_size ht) i) key"
  have cap: "pow2_sz cap" and len: "length st = unat cap" using T by (simp_all add: hash_table_def)
  have h: "unat start < unat cap" using hash_index_home(2) [OF hk key cap] start by simp
  have idx: "unat idx < unat cap" using Suc.prems(2) pow2_sz_pos [OF cap] by simp
  then have lt: "idx < cap" by (simp add: word_less_unat)
  note cmp = table_compare [OF hk T lt key]
  note turn = turn [OF cap h Suc.prems(1,2)]
  show ?case
  proof (cases "st ! unat idx = SCL_HASH_OCCUPIED")
    case False
    then have run: "hash_place ht st key start idx = Some (Vacant idx)"
      using idx len by (subst hash_place.simps) (cases "st ! unat idx"; simp)
    have "vacant_at ht cap st key (unat idx)"
      unfolding vacant_at_def using False idx Suc.prems start by (metis (no_types, lifting))
    moreover have "\<not> ?s i" if e: "st ! unat idx = SCL_HASH_EMPTY" and i: "i \<in> occupied st" for i
    proof
      assume "?s i"
      then obtain d where d: "d < unat cap" "i = (unat start + d) mod unat cap"
        "\<And>m. m < d \<Longrightarrow> st ! ((unat start + m) mod unat cap) \<noteq> SCL_HASH_EMPTY"
        using table_chain [OF hk T i _ key] unfolding start by blast
      have "st ! i = SCL_HASH_OCCUPIED" using i by (simp add: occupied_def)
      then have "d \<noteq> j" using e d(2) Suc.prems(2) by auto
      moreover have "\<not> d < j" using Suc.prems(3) d(2) \<open>?s i\<close> by blast
      moreover have "\<not> j < d" using d(3) [of j] e Suc.prems(2) by auto
      ultimately show False by linarith
    qed
    ultimately show ?thesis unfolding run by simp
  next
    case occ: True
    show ?thesis
    proof (cases "?s (unat idx)")
      case True
      then show ?thesis using occ idx len cmp by (subst hash_place.simps) (simp add: occupied_def)
    next
      case no: False
      have place: "hash_place ht st key start idx = (if Suc j = unat cap then Some Full
          else hash_place ht st key start ((idx + 1) AND (cap - 1)))"
        using occ no idx len cmp turn(2) msk by (subst hash_place.simps) auto
      have seen: "\<forall>m < Suc j. st ! ((unat start + m) mod unat cap) = SCL_HASH_OCCUPIED \<and> \<not> ?s ((unat start + m) mod unat cap)"
        using Suc.prems(2,3) occ no by (auto simp: less_Suc_eq)
      show ?thesis
      proof (cases "Suc j = unat cap")
        case True
        have "st ! i = SCL_HASH_OCCUPIED" if "i < unat cap" for i
          using ring_covers [OF that h] seen True by metis
        then have "occupied st = {..<unat cap}" using len by (auto simp: occupied_def)
        then show ?thesis using place True by simp
      next
        case False
        moreover have "n = unat cap - Suc j" "Suc j < unat cap" using Suc.hyps(2) Suc.prems(1) False by simp_all
        ultimately show ?thesis using Suc.hyps(1) [OF _ _ turn(1) seen] place by simp
      qed
    qed
  qed
qed

lemma hash_vacant_spec:
  fixes start :: size_t
  assumes cap: "pow2_sz cap" and len: "length st = unat cap" and home: "unat start = hash_home ht cap key" "unat start < unat cap"
    and room: "q < unat cap" "st ! q \<noteq> SCL_HASH_OCCUPIED"
  shows "j < unat cap \<Longrightarrow> unat idx = (unat start + j) mod unat cap \<Longrightarrow>
    (\<forall>m < j. st ! ((unat start + m) mod unat cap) = SCL_HASH_OCCUPIED) \<Longrightarrow>
    yields (hash_vacant st (cap - 1) idx) (\<lambda>q. vacant_at ht cap st key (unat q))"
proof (induction "unat cap - j" arbitrary: j idx)
  case 0
  then show ?case by simp
next
  case (Suc n)
  have idx: "unat idx < unat cap" using Suc.prems(2) pow2_sz_pos [OF cap] by simp
  note turn = turn [OF cap home(2) Suc.prems(1,2)]
  show ?case
  proof (cases "st ! unat idx = SCL_HASH_OCCUPIED")
    case False
    then have "vacant_at ht cap st key (unat idx)"
      unfolding vacant_at_def using idx Suc.prems home(1) by (metis (no_types, lifting))
    then show ?thesis using False idx len by (subst hash_vacant.simps) simp
  next
    case True
    have seen: "\<forall>m < Suc j. st ! ((unat start + m) mod unat cap) = SCL_HASH_OCCUPIED"
      using Suc.prems(2,3) True by (auto simp: less_Suc_eq)
    have "Suc j \<noteq> unat cap" using ring_covers [OF room(1) home(2)] seen room(2) by metis
    then have "n = unat cap - Suc j" "Suc j < unat cap" using Suc.hyps(2) Suc.prems(1) by simp_all
    then have "yields (hash_vacant st (cap - 1) ((idx + 1) AND (cap - 1))) (\<lambda>q. vacant_at ht cap st key (unat q))"
      using Suc.hyps(1) [OF _ _ turn(1) seen] by simp
    then show ?thesis using True idx len by (subst hash_vacant.simps) simp
  qed
qed

section \<open>Filling a slot\<close>

lemma occupied_put [simp]: "q < length st \<Longrightarrow> occupied (st[q := SCL_HASH_OCCUPIED]) = insert q (occupied st)"
  by (auto simp: occupied_def nth_list_update)

lemma chain_update:
  assumes "chain st h i" and "x \<noteq> SCL_HASH_EMPTY"
  shows "chain (st[q := x]) h i"
proof -
  have "st[q := x] ! p \<noteq> SCL_HASH_EMPTY" if "st ! p \<noteq> SCL_HASH_EMPTY" for p
    using that assms(2) by (cases "q = p"; cases "q < length st") (simp_all add: list_update_beyond)
  then show ?thesis using assms(1) unfolding chain_def length_list_update by blast
qed

lemmas chain_put = chain_update [of _ _ _ SCL_HASH_OCCUPIED, simplified]
  and chain_drop = chain_update [of _ _ _ SCL_HASH_TOMBSTONE, simplified]

lemma table_put:
  assumes hk: "hash_keys_of ht" and T: "hash_table ht cap keys vals st" and q: "vacant_at ht cap st key q"
    and key: "unat (ht_key_size ht) \<le> length key"
    and absent: "\<forall>i \<in> occupied st. \<not> hash_same ht (slot keys (ht_key_size ht) i) key"
    and keys': "buf_ok keys' cap (ht_key_size ht)"
      "\<And>j. j < unat cap \<Longrightarrow> slot keys' (ht_key_size ht) j = (if j = q then take (unat (ht_key_size ht)) key else slot keys (ht_key_size ht) j)"
    and vals': "buf_ok vals' cap (ht_value_size ht)"
      "\<And>j. j < unat cap \<Longrightarrow> slot vals' (ht_value_size ht) j = (if j = q then v else slot vals (ht_value_size ht) j)"
  shows "hash_table ht cap keys' vals' (st[q := SCL_HASH_OCCUPIED])"
    and "card (occupied (st[q := SCL_HASH_OCCUPIED])) = Suc (card (occupied st))"
    and "hash_entry ht keys' vals' (st[q := SCL_HASH_OCCUPIED]) k u \<longleftrightarrow>
      (if hash_same ht (take (unat (ht_key_size ht)) key) k \<and> u = v then True else hash_entry ht keys vals st k u)"
proof -
  let ?w = "unat (ht_key_size ht)" and ?st = "st[q := SCL_HASH_OCCUPIED]"
  let ?k = "\<lambda>i. slot keys (ht_key_size ht) i" and ?k' = "\<lambda>i. slot keys' (ht_key_size ht) i"
  have len: "length st = unat cap" and cap: "pow2_sz cap" using T by (simp_all add: hash_table_def)
  have q': "q < length st" "q \<notin> occupied st" using q len by (auto simp: vacant_at_def occupied_def)
  have old: "?k' i = ?k i" "slot vals' (ht_value_size ht) i = slot vals (ht_value_size ht) i" if "i \<in> occupied st" for i
    using keys'(2) [of i] vals'(2) [of i] that q'(2) occupied_less [OF that] len by auto
  have new: "?k' q = take ?w key" "slot vals' (ht_value_size ht) q = v" using keys'(2) vals'(2) q'(1) len by auto
  have kw: "?w \<le> length (take ?w key)" using key by simp
  have home: "hash_home ht cap (take ?w key) = hash_home ht cap key"
    using hash_keys.hash_prefix [OF hk key] by (simp add: hash_home_def)
  have same: "hash_same ht (take ?w key) x \<longleftrightarrow> hash_same ht key x" if "?w \<le> length x" for x
    using hash_keys.eq_prefix [OF hk key that] by (simp add: hash_same_def)
  have sym: "hash_same ht x y \<longleftrightarrow> hash_same ht y x" if "?w \<le> length x" "?w \<le> length y" for x y
    using hash_keys.eq_sym [OF hk] that unfolding hash_same_def by blast
  have apart: "\<not> hash_same ht (?k i) (take ?w key)" "\<not> hash_same ht (take ?w key) (?k i)" if "i \<in> occupied st" for i
  proof -
    have w: "?w \<le> length (?k i)" using table_key [OF T] occupied_less [OF that] len by simp
    show "\<not> hash_same ht (take ?w key) (?k i)" using absent that same [OF w] sym [OF w key] by blast
    then show "\<not> hash_same ht (?k i) (take ?w key)" using sym [OF w kw] by blast
  qed
  have "chain ?st (hash_home ht cap (?k' i)) i" if "i \<in> occupied ?st" for i
  proof (cases "i = q")
    case True
    obtain d where "d < unat cap" "q = (hash_home ht cap key + d) mod unat cap"
      "\<forall>m < d. st ! ((hash_home ht cap key + m) mod unat cap) = SCL_HASH_OCCUPIED"
      using q unfolding vacant_at_def by blast
    then have "chain st (hash_home ht cap key) q" unfolding chain_def len by (intro exI [of _ d]) auto
    then show ?thesis using True new(1) home by (simp add: chain_put)
  next
    case False
    then have "i \<in> occupied st" using that q'(1) by simp
    then show ?thesis using T old(1) by (auto simp: hash_table_def intro: chain_put)
  qed
  moreover have "i = j" if "i \<in> occupied ?st" "j \<in> occupied ?st" "hash_same ht (?k' i) (?k' j)" for i j
  proof -
    have "i = q \<or> i \<in> occupied st" "j = q \<or> j \<in> occupied st" using that(1,2) q'(1) by auto
    then show ?thesis
      using that(3) apart new(1) old(1) T unfolding hash_table_def by metis
  qed
  ultimately show "hash_table ht cap keys' vals' ?st"
    using cap keys'(1) vals'(1) len by (auto simp: hash_table_def)
  show "card (occupied ?st) = Suc (card (occupied st))" using q' by simp
  show "hash_entry ht keys' vals' ?st k u \<longleftrightarrow>
      (if hash_same ht (take ?w key) k \<and> u = v then True else hash_entry ht keys vals st k u)"
    using q'(1) new old unfolding hash_entry_def by auto
qed

section \<open>Growing\<close>

lemma occupied_less_Suc: "i < length st \<Longrightarrow> occupied st \<inter> {..<Suc i} =
    (if st ! i = SCL_HASH_OCCUPIED then insert i (occupied st \<inter> {..<i}) else occupied st \<inter> {..<i})"
  by (auto simp: occupied_def less_Suc_eq)

definition moved :: "scl_hash_t \<Rightarrow> size_t \<Rightarrow> scl_hash_slot_state_t list \<Rightarrow> nat \<Rightarrow> block ptr \<times> block ptr \<times> scl_hash_slot_state_t list \<Rightarrow> bool" where
  "moved ht cap st i = (\<lambda>(nk, nv, ns). hash_table ht cap nk nv ns \<and> card (occupied ns) = card (occupied st \<inter> {..<i}) \<and>
     SCL_HASH_TOMBSTONE \<notin> set ns \<and>
     (\<forall>k v. hash_entry ht nk nv ns k v \<longleftrightarrow> (\<exists>q \<in> occupied st \<inter> {..<i}.
        hash_same ht (slot (ht_keys ht) (ht_key_size ht) q) k \<and> slot (ht_values ht) (ht_value_size ht) q = v)))"

lemma hash_move_spec:
  assumes hk: "hash_keys_of ht" and T: "hash_table ht cap (ht_keys ht) (ht_values ht) st"
    and i: "i < unat cap" and big: "unat cap < unat new_cap" and m: "moved ht new_cap st i new"
  shows "yields (hash_move ht st (new_cap - 1) i new) (moved ht new_cap st (Suc i))"
proof -
  obtain nk nv ns where new: "new = (nk, nv, ns)" by (cases new)
  have len: "length st = unat cap" and buf: "buf_ok (ht_keys ht) cap (ht_key_size ht)" "buf_ok (ht_values ht) cap (ht_value_size ht)"
    using T by (simp_all add: hash_table_def)
  have fresh: "SCL_HASH_TOMBSTONE \<notin> set ns" using m by (simp add: new moved_def)
  have M: "hash_table ht new_cap nk nv ns" "card (occupied ns) = card (occupied st \<inter> {..<i})"
    "\<And>k v. hash_entry ht nk nv ns k v \<longleftrightarrow> (\<exists>q \<in> occupied st \<inter> {..<i}.
        hash_same ht (slot (ht_keys ht) (ht_key_size ht) q) k \<and> slot (ht_values ht) (ht_value_size ht) q = v)"
    using m by (simp_all add: new moved_def)
  show ?thesis
  proof (cases "st ! i = SCL_HASH_OCCUPIED")
    case False
    then show ?thesis using m i len occupied_less_Suc [of i st] by (simp add: hash_move_def new moved_def)
  next
    case True
    let ?key = "slot (ht_keys ht) (ht_key_size ht) i" and ?w = "unat (ht_key_size ht)"
    have klen: "length ?key = ?w" using buf(1) i by (rule length_slot)
    have ncap: "pow2_sz new_cap" "length ns = unat new_cap" "buf_ok nk new_cap (ht_key_size ht)" "buf_ok nv new_cap (ht_value_size ht)"
      using M(1) by (simp_all add: hash_table_def)
    obtain start where start: "hash_index ht ?key (new_cap - 1) = Some start" "unat start = hash_home ht new_cap ?key"
      using hash_index_home(1) [OF hk _ ncap(1), of ?key] klen by auto
    have home: "unat start < unat new_cap" using hash_index_home(2) [OF hk _ ncap(1), of ?key] klen start(2) by simp
    have "card (occupied ns) \<le> card {..<i}" unfolding M(2) by (rule card_mono) auto
    then have "card (occupied ns) < unat new_cap" using i big by simp
    then have "occupied ns \<noteq> {..<unat new_cap}" by (metis card_lessThan less_irrefl)
    then obtain r where r: "r < unat new_cap" "ns ! r \<noteq> SCL_HASH_OCCUPIED" unfolding occupied_def ncap(2) by blast
    have "yields (hash_vacant ns (new_cap - 1) start) (\<lambda>q. vacant_at ht new_cap ns ?key (unat q))"
      by (rule hash_vacant_spec [OF ncap(1,2) start(2) home r, of 0]) (use home in simp_all)
    then obtain q where q: "hash_vacant ns (new_cap - 1) start = Some q" "vacant_at ht new_cap ns ?key (unat q)"
      unfolding yields_iff by blast
    have qlt: "q < new_cap" "unat q < length ns" using q(2) ncap(2) by (simp_all add: vacant_at_def word_less_unat)
    have iw: "unat (of_nat i :: size_t) = i" "of_nat i < cap" using i by (simp_all add: unat_of_nat_less word_less_unat)
    from buf_copy [OF ncap(3) qlt(1) buf(1) iw(2)] obtain nk' where nk':
      "scl_memcpy nk (unat (q * ht_key_size ht)) (ht_keys ht) (unat (of_nat i * ht_key_size ht)) ?w = Some nk'"
      "buf_ok nk' new_cap (ht_key_size ht)"
      "\<And>j. j < unat new_cap \<Longrightarrow> slot nk' (ht_key_size ht) j = (if j = unat q then ?key else slot nk (ht_key_size ht) j)"
      unfolding iw(1) by blast
    from buf_copy [OF ncap(4) qlt(1) buf(2) iw(2)] obtain nv' where nv':
      "scl_memcpy nv (unat (q * ht_value_size ht)) (ht_values ht) (unat (of_nat i * ht_value_size ht)) (unat (ht_value_size ht)) = Some nv'"
      "buf_ok nv' new_cap (ht_value_size ht)"
      "\<And>j. j < unat new_cap \<Longrightarrow> slot nv' (ht_value_size ht) j
        = (if j = unat q then slot (ht_values ht) (ht_value_size ht) i else slot nv (ht_value_size ht) j)"
      unfolding iw(1) by blast
    have run: "hash_move ht st (new_cap - 1) i new = Some (nk', nv', ns[unat q := SCL_HASH_OCCUPIED])"
      using True i len start(1) q(1) nk'(1) nv'(1) load_slot_nat [OF buf(1) i] qlt(2) by (simp add: hash_move_def new)
    have "\<not> hash_same ht (slot nk (ht_key_size ht) p) ?key" if p: "p \<in> occupied ns" for p
    proof
      assume "hash_same ht (slot nk (ht_key_size ht) p) ?key"
      then have "hash_entry ht nk nv ns ?key (slot nv (ht_value_size ht) p)" using p by (auto simp: hash_entry_def)
      then obtain j where "j \<in> occupied st" "j < i" "hash_same ht (slot (ht_keys ht) (ht_key_size ht) j) ?key"
        unfolding M(3) by auto
      moreover have "i \<in> occupied st" using True i len by (simp add: occupied_def)
      ultimately show False using T unfolding hash_table_def by blast
    qed
    then have absent: "\<forall>p \<in> occupied ns. \<not> hash_same ht (slot nk (ht_key_size ht) p) ?key" by blast
    have kw: "?w \<le> length ?key" "take ?w ?key = ?key" using klen by simp_all
    note put = table_put [OF hk M(1) q(2) kw(1) absent nk'(2) _ nv'(2,3), unfolded kw(2), OF nk'(3)]
    have occ: "occupied st \<inter> {..<Suc i} = insert i (occupied st \<inter> {..<i})" using occupied_less_Suc [of i st] i len True by simp
    have "card (occupied st \<inter> {..<Suc i}) = Suc (card (occupied st \<inter> {..<i}))" unfolding occ by simp
    moreover have "SCL_HASH_TOMBSTONE \<notin> set (ns[unat q := SCL_HASH_OCCUPIED])"
      using fresh set_update_subset_insert [of ns "unat q" SCL_HASH_OCCUPIED] by blast
    ultimately show ?thesis using put M(2,3) unfolding run by (auto simp: moved_def occ)
  qed
qed

lemma hash_frame:
  assumes "ht_hash_func ht' = ht_hash_func ht" and "ht_eq_func ht' = ht_eq_func ht" and "ht_seed ht' = ht_seed ht"
    and "ht_key_size ht' = ht_key_size ht" and "ht_value_size ht' = ht_value_size ht"
  shows "hash_table ht' = hash_table ht" and "hash_entry ht' = hash_entry ht"
  using assms by (auto simp: fun_eq_iff hash_table_def hash_entry_def hash_home_def hash_same_def)

lemma hash_map_iff:
  assumes hk: "hash_keys_of ht" and st: "ht_states ht = Some st" and T: "hash_table ht (ht_capacity ht) (ht_keys ht) (ht_values ht) st"
    and k: "unat (ht_key_size ht) \<le> length k"
  shows "hash_map ht k = Some v \<longleftrightarrow> hash_entry ht (ht_keys ht) (ht_values ht) st k v"
proof -
  let ?s = "\<lambda>i. hash_same ht (slot (ht_keys ht) (ht_key_size ht) i) k" and ?v = "slot (ht_values ht) (ht_value_size ht)"
  let ?P = "\<lambda>i. st ! i = SCL_HASH_OCCUPIED \<and> ?s i"
  have len: "length st = unat (ht_capacity ht)" using T by (simp add: hash_table_def)
  have same: "i = j" if "i \<in> occupied st" "j \<in> occupied st" "?s i" "?s j" for i j
  proof -
    have w: "unat (ht_key_size ht) \<le> length (slot (ht_keys ht) (ht_key_size ht) i)"
      "unat (ht_key_size ht) \<le> length (slot (ht_keys ht) (ht_key_size ht) j)"
      using table_key [OF T] occupied_less that(1,2) len by metis+
    have "hash_same ht (slot (ht_keys ht) (ht_key_size ht) i) (slot (ht_keys ht) (ht_key_size ht) j)"
      using hash_keys.eq_trans [OF hk w(1) k w(2)] hash_keys.eq_sym [OF hk w(2) k] that(3,4) by (simp add: hash_same_def)
    then show ?thesis using T that(1,2) by (simp add: hash_table_def)
  qed
  have occ: "i \<in> occupied st \<longleftrightarrow> i < length st \<and> st ! i = SCL_HASH_OCCUPIED" for i by (simp add: occupied_def)
  show ?thesis
  proof (cases "find ?P [0..<length st]")
    case None
    then have "\<not> ?s i" if "i \<in> occupied st" for i using that by (auto simp: find_None_iff occ)
    then show ?thesis using st None by (auto simp: hash_map_def hash_entry_def)
  next
    case (Some i)
    then have i: "i \<in> occupied st" "?s i" by (auto simp: find_Some_iff occ)
    then have "hash_entry ht (ht_keys ht) (ht_values ht) st k v \<longleftrightarrow> ?v i = v" using same unfolding hash_entry_def by blast
    then show ?thesis using st Some by (simp add: hash_map_def)
  qed
qed

lemma hash_invE:
  assumes "hash_inv ht"
  obtains st where "hash_keys_of ht" and "ht_mask ht = ht_capacity ht - 1" and "unat (ht_capacity ht) * 4 < object_limit"
    and "ht_states ht = Some st" and "hash_table ht (ht_capacity ht) (ht_keys ht) (ht_values ht) st"
    and "unat (ht_count ht) = card (occupied st)"
  using assms by (auto simp: hash_inv_def split: option.splits)

text \<open>What an operation leaves alone.\<close>

definition same_functions :: "scl_hash_t \<Rightarrow> scl_hash_t \<Rightarrow> bool" where
  "same_functions ht ht' \<longleftrightarrow> ht_hash_func ht' = ht_hash_func ht \<and> ht_eq_func ht' = ht_eq_func ht \<and> ht_seed ht' = ht_seed ht \<and>
     ht_key_size ht' = ht_key_size ht \<and> ht_value_size ht' = ht_value_size ht"

lemma same_functions_refl [simp]: "same_functions ht ht"
  by (simp add: same_functions_def)

lemma same_functions_trans: "same_functions x y \<Longrightarrow> same_functions y z \<Longrightarrow> same_functions x z"
  by (simp add: same_functions_def)

lemma hash_same_cong: "same_functions ht ht' \<Longrightarrow> hash_same ht' = hash_same ht"
  by (intro ext) (simp add: same_functions_def hash_same_def)

lemma occupied_empty [simp]: "occupied (replicate n SCL_HASH_EMPTY) = {}"
  by (auto simp: occupied_def)

lemma empty_table:
  assumes "pow2_sz cap" and "buf_ok keys cap (ht_key_size ht)" and "buf_ok vals cap (ht_value_size ht)"
  shows "hash_table ht cap keys vals (replicate (unat cap) SCL_HASH_EMPTY)"
  using assms by (simp add: hash_table_def)

lemma hash_grow_spec:
  assumes a: "scl_allocator a" and inv: "hash_inv ht"
  shows "\<exists>err ht'. scl_hash_grow a ht = Some (err, ht') \<and>
    (if err = SCL_OK then hash_inv ht' \<and> same_functions ht ht' \<and> ht_count ht' = ht_count ht \<and>
       unat (ht_capacity ht') = 2 * unat (ht_capacity ht) \<and> SCL_HASH_TOMBSTONE \<notin> set (the (ht_states ht')) \<and>
       (\<forall>k. unat (ht_key_size ht) \<le> length k \<longrightarrow> hash_map ht' k = hash_map ht k)
     else alloc_failed err \<and> ht' = ht)"
proof -
  obtain st where ht: "hash_keys_of ht" "ht_mask ht = ht_capacity ht - 1" "unat (ht_capacity ht) * 4 < object_limit"
    "ht_states ht = Some st" "hash_table ht (ht_capacity ht) (ht_keys ht) (ht_values ht) st"
    "unat (ht_count ht) = card (occupied st)" using inv by (rule hash_invE)
  let ?cap = "ht_capacity ht" and ?new = "ht_capacity ht * 2"
  have cap: "pow2_sz ?cap" and len: "length st = unat ?cap" and es: "ht_key_size ht \<noteq> 0" "ht_value_size ht \<noteq> 0"
    using ht(5) by (auto simp: hash_table_def dest: buf_ok_es)
  have nz: "?cap \<noteq> 0" using pow2_sz_pos [OF cap] by auto
  have u: "unat ?new = 2 * unat ?cap" using ht(3) by (subst unat_double_bounded) simp_all
  have big: "unat ?cap < unat ?new" using u pow2_sz_pos [OF cap] by simp
  obtain k where k: "k < 64" "unat ?cap = 2 ^ k" using cap by (auto simp: pow2_sz_def)
  then have "(2::nat) ^ k < 2 ^ 63" using ht(3) by simp
  then have "Suc k < 64" using power_strict_increasing_iff [of "2::nat" k 63] by simp
  then have pow: "pow2_sz ?new" using k(2) u by (auto simp: pow2_sz_def intro: exI [of _ "Suc k"])
  have lim: "\<not> SIZE_MAX div 2 < ?cap" using ht(3) by (simp add: word_less_unat unat_SIZE_MAX unat_div_distrib)
  consider "scl_mul_overflow ?new (ht_key_size ht) = None \<or> scl_mul_overflow ?new (ht_value_size ht) = None \<or> scl_mul_overflow ?new 4 = None"
    | kt vt bt where "scl_mul_overflow ?new (ht_key_size ht) = Some kt" "scl_mul_overflow ?new (ht_value_size ht) = Some vt"
      "scl_mul_overflow ?new 4 = Some bt" by (metis option.exhaust)
  then show ?thesis
  proof cases
    case 1
    then have "scl_hash_grow a ht = Some (SCL_ERR_SIZE_OVERFLOW, ht)"
      using nz lim by (auto simp: scl_hash_grow_def Let_def split: option.splits)
    then show ?thesis by simp
  next
    case sz: 2
    consider "malloc_fn a 0 kt max_align = None \<or> malloc_fn a 1 vt max_align = None \<or> malloc_fn a 2 bt max_align = None"
      | nk nv ns where "malloc_fn a 0 kt max_align = Some nk" "malloc_fn a 1 vt max_align = Some nv" "malloc_fn a 2 bt max_align = Some ns"
      by (metis option.exhaust)
    then show ?thesis
    proof cases
      case 1
      then have "scl_hash_grow a ht = Some (SCL_ERR_OUT_OF_MEMORY, ht)"
        using nz lim sz by (auto simp: scl_hash_grow_def Let_def split: option.splits)
      then show ?thesis by simp
    next
      case m: 2
      have buf: "buf_ok (Some nk) ?new (ht_key_size ht)" "buf_ok (Some nv) ?new (ht_value_size ht)"
        using scl_allocator.malloc_buf [OF a sz(1) m(1) es(1)] scl_allocator.malloc_buf [OF a sz(2) m(2) es(2)] .
      have lim': "unat ?new * 4 < object_limit"
        using scl_allocator.malloc_object(2) [OF a m(3)] scl_mul_overflow_Some [OF sz(3)] by simp
      let ?e = "replicate (unat ?new) SCL_HASH_EMPTY"
      have "moved ht ?new st 0 (Some nk, Some nv, ?e)"
        using empty_table [OF pow buf] by (simp add: moved_def hash_entry_def)
      then have "yields (for_up 0 (unat ?cap) (hash_move ht st (?new - 1)) (Some nk, Some nv, ?e)) (moved ht ?new st (unat ?cap))"
        by (rule for_up_inv [where I = "moved ht ?new st"]) (use hash_move_spec [OF ht(1,5) _ big] in simp_all)
      then obtain keys vals states where run: "for_up 0 (unat ?cap) (hash_move ht st (?new - 1)) (Some nk, Some nv, ?e) = Some (keys, vals, states)"
        and moved: "moved ht ?new st (unat ?cap) (keys, vals, states)" unfolding yields_iff by auto
      have all: "occupied st \<inter> {..<unat ?cap} = occupied st" using len by (auto simp: occupied_def)
      let ?t = "ht\<lparr>ht_keys := keys, ht_values := vals, ht_states := Some states, ht_capacity := ?new, ht_mask := ?new - 1\<rparr>"
      have M: "hash_table ht ?new keys vals states" "card (occupied states) = card (occupied st)"
        "\<And>k v. hash_entry ht keys vals states k v \<longleftrightarrow> hash_entry ht (ht_keys ht) (ht_values ht) st k v"
        using moved by (simp_all add: moved_def all) (simp add: hash_entry_def [of ht "ht_keys ht"])
      have frame: "hash_table ?t = hash_table ht" "hash_entry ?t = hash_entry ht" by (rule hash_frame; simp)+
      have fresh: "SCL_HASH_TOMBSTONE \<notin> set states" using moved by (simp add: moved_def)
      have inv': "hash_inv ?t" using ht(1,6) M(1,2) lim' frame(1) by (simp add: hash_inv_def)
      have T': "hash_table ?t (ht_capacity ?t) (ht_keys ?t) (ht_values ?t) states" using M(1) frame(1) by simp
      have "hash_map ?t k = hash_map ht k" if "unat (ht_key_size ht) \<le> length k" for k
      proof -
        have "hash_map ?t k = Some v \<longleftrightarrow> hash_map ht k = Some v" for v
          using hash_map_iff [OF _ _ T', of k v] hash_map_iff [OF ht(1,4,5) that, of v] ht(1) that M(3) frame(2) by simp
        then show ?thesis by (metis option.exhaust)
      qed
      moreover have "scl_hash_grow a ht = Some (SCL_OK, ?t)"
        using nz lim sz m ht(4) run by (simp add: scl_hash_grow_def Let_def)
      ultimately show ?thesis using inv' u fresh by (intro exI [of _ SCL_OK] exI [of _ ?t]) (simp add: same_functions_def)
    qed
  qed
qed

section \<open>Operations on the contents\<close>

lemma hash_search_spec:
  assumes inv: "hash_inv ht" and k: "unat (ht_key_size ht) \<le> length k"
  shows "\<exists>r. hash_search ht k = Some r \<and> hash_map ht k = map_option (\<lambda>q. slot (ht_values ht) (ht_value_size ht) (unat q)) r \<and>
    (case r of None \<Rightarrow> True | Some q \<Rightarrow> q < ht_capacity ht \<and> unat q \<in> occupied (the (ht_states ht)) \<and>
      hash_same ht (slot (ht_keys ht) (ht_key_size ht) (unat q)) k)"
proof -
  obtain st where ht: "hash_keys_of ht" "ht_mask ht = ht_capacity ht - 1" "ht_states ht = Some st"
    "hash_table ht (ht_capacity ht) (ht_keys ht) (ht_values ht) st" using inv by (rule hash_invE)
  have cap: "pow2_sz (ht_capacity ht)" and len: "length st = unat (ht_capacity ht)" using ht(4) by (simp_all add: hash_table_def)
  obtain idx where idx: "hash_index ht k (ht_capacity ht - 1) = Some idx" "unat idx = hash_home ht (ht_capacity ht) k"
    using hash_index_home(1) [OF ht(1) k cap] by blast
  have "unat idx < unat (ht_capacity ht)" using hash_index_home(2) [OF ht(1) k cap] idx(2) by simp
  then obtain r where r: "hash_probe ht st k idx idx = Some r" "case r of
        None \<Rightarrow> \<forall>i \<in> occupied st. \<not> hash_same ht (slot (ht_keys ht) (ht_key_size ht) i) k
      | Some q \<Rightarrow> unat q \<in> occupied st \<and> hash_same ht (slot (ht_keys ht) (ht_key_size ht) (unat q)) k"
    using hash_probe_spec [OF ht(1,4,2) k idx(2), of 0 idx] by (auto simp: yields_iff)
  note iff = hash_map_iff [OF ht(1,3,4) k]
  have "hash_map ht k = map_option (\<lambda>q. slot (ht_values ht) (ht_value_size ht) (unat q)) r"
  proof (cases r)
    case None
    then have "hash_map ht k \<noteq> Some v" for v using r(2) unfolding iff by (auto simp: hash_entry_def)
    then show ?thesis using None by (cases "hash_map ht k") auto
  next
    case (Some q)
    then have "hash_map ht k = Some (slot (ht_values ht) (ht_value_size ht) (unat q))"
      using r(2) unfolding iff by (auto simp: hash_entry_def)
    then show ?thesis using Some by simp
  qed
  moreover have "hash_search ht k = Some r" using ht(2,3) idx(1) r(1) by (simp add: hash_search_def)
  ultimately show ?thesis using r(2) ht(3) len occupied_less by (fastforce simp: word_less_unat split: option.splits)
qed

lemma hash_get_spec:
  assumes inv: "hash_inv ht" and k: "unat (ht_key_size ht) \<le> length k" and out: "unat (ht_value_size ht) \<le> length out"
  shows "scl_hash_get (Some ht) (Some k) (Some out) = Some (case hash_map ht k of
      None \<Rightarrow> (SCL_ERR_NOT_FOUND, Some out) | Some v \<Rightarrow> (SCL_OK, Some (v @ drop (unat (ht_value_size ht)) out)))"
proof -
  obtain r where r: "hash_search ht k = Some r"
    "hash_map ht k = map_option (\<lambda>q. slot (ht_values ht) (ht_value_size ht) (unat q)) r"
    "case r of None \<Rightarrow> True | Some q \<Rightarrow> q < ht_capacity ht" using hash_search_spec [OF inv k] by (auto split: option.splits)
  have buf: "buf_ok (ht_values ht) (ht_capacity ht) (ht_value_size ht)" using inv by (elim hash_invE) (simp add: hash_table_def)
  show ?thesis using r buf_read [OF buf _ out] by (cases r) (auto simp: scl_hash_get_def)
qed

lemma hash_contains_spec:
  assumes "hash_inv ht" and "unat (ht_key_size ht) \<le> length k"
  shows "scl_hash_contains (Some ht) (Some k) = Some (hash_map ht k \<noteq> None)"
  using hash_search_spec [OF assms] by (auto simp: scl_hash_contains_def)

lemma occupied_drop: "occupied (st[q := SCL_HASH_TOMBSTONE]) = occupied st - {q}"
  by (cases "q < length st") (auto simp: occupied_def nth_list_update)

lemma hash_remove_spec:
  assumes inv: "hash_inv ht" and k: "unat (ht_key_size ht) \<le> length k"
  shows "\<exists>ht'. scl_hash_remove (Some ht) (Some k) = Some (if hash_map ht k = None then SCL_ERR_NOT_FOUND else SCL_OK, Some ht') \<and>
    hash_inv ht' \<and> same_functions ht ht' \<and>
    (\<forall>x. unat (ht_key_size ht) \<le> length x \<longrightarrow> hash_map ht' x = (if hash_same ht k x then None else hash_map ht x))"
proof -
  obtain st where ht: "hash_keys_of ht" "ht_mask ht = ht_capacity ht - 1" "unat (ht_capacity ht) * 4 < object_limit"
    "ht_states ht = Some st" "hash_table ht (ht_capacity ht) (ht_keys ht) (ht_values ht) st"
    "unat (ht_count ht) = card (occupied st)" using inv by (rule hash_invE)
  let ?w = "unat (ht_key_size ht)" and ?k = "\<lambda>i. slot (ht_keys ht) (ht_key_size ht) i"
  obtain r where r: "hash_search ht k = Some r"
    "hash_map ht k = map_option (\<lambda>q. slot (ht_values ht) (ht_value_size ht) (unat q)) r"
    "case r of None \<Rightarrow> True | Some q \<Rightarrow> q < ht_capacity ht \<and> unat q \<in> occupied st \<and> hash_same ht (?k (unat q)) k"
    using hash_search_spec [OF inv k, unfolded ht(4) option.sel] by blast
  note iff = hash_map_iff [OF ht(1,4,5)]
  have kw: "?w \<le> length (?k i)" if "i \<in> occupied st" for i
    using table_key [OF ht(5)] occupied_less [OF that] ht(5) by (simp add: hash_table_def)
  have sym: "hash_same ht x y \<Longrightarrow> hash_same ht y x" if "?w \<le> length x" "?w \<le> length y" for x y
    using hash_keys.eq_sym [OF ht(1)] that unfolding hash_same_def by blast
  have trans: "hash_same ht x y \<Longrightarrow> hash_same ht y z \<Longrightarrow> hash_same ht x z"
    if "?w \<le> length x" "?w \<le> length y" "?w \<le> length z" for x y z
    using hash_keys.eq_trans [OF ht(1)] that unfolding hash_same_def by blast
  show ?thesis
  proof (cases r)
    case None
    have "hash_map ht x = None" if x: "?w \<le> length x" "hash_same ht k x" for x
    proof (rule ccontr)
      assume "hash_map ht x \<noteq> None"
      then obtain v i where "i \<in> occupied st" "hash_same ht (?k i) x"
        using iff [OF x(1)] unfolding hash_entry_def by blast
      then have "hash_same ht (?k i) k" using trans [OF kw x(1) k] sym [OF k x(1)] x(2) by blast
      then have "hash_map ht k = Some (slot (ht_values ht) (ht_value_size ht) i)"
        unfolding iff [OF k] hash_entry_def using \<open>i \<in> occupied st\<close> by blast
      then show False using r(2) None by simp
    qed
    then show ?thesis using None r inv by (auto simp: scl_hash_remove_def)
  next
    case (Some q)
    then have q: "unat q \<in> occupied st" "hash_same ht (?k (unat q)) k" using r(3) by simp_all
    let ?st = "st[unat q := SCL_HASH_TOMBSTONE]"
    let ?t = "ht\<lparr>ht_states := Some ?st, ht_count := ht_count ht - 1\<rparr>"
    have frame: "hash_table ?t = hash_table ht" "hash_entry ?t = hash_entry ht" by (rule hash_frame; simp)+
    have T': "hash_table ht (ht_capacity ht) (ht_keys ht) (ht_values ht) ?st"
      using ht(5) chain_drop unfolding hash_table_def occupied_drop by auto
    have "card (occupied st) \<noteq> 0" using q(1) by auto
    then have "ht_count ht \<noteq> 0" using ht(6) by auto
    then have "unat (ht_count ht - 1) = card (occupied ?st)" using ht(6) q(1) by (simp add: unat_pred occupied_drop)
    then have inv': "hash_inv ?t" using ht(1-3) T' frame by (simp add: hash_inv_def)
    have "hash_map ?t x = (if hash_same ht k x then None else hash_map ht x)" if x: "?w \<le> length x" for x
    proof -
      have here: "hash_same ht (?k (unat q)) x \<longleftrightarrow> hash_same ht k x"
        using trans sym q(2) kw [OF q(1)] k x by blast
      have only: "i = unat q" if "i \<in> occupied st" "hash_same ht (?k i) x" "hash_same ht k x" for i
      proof -
        have "hash_same ht (?k i) (?k (unat q))"
          using trans [OF kw [OF that(1)] x kw [OF q(1)]] sym [OF kw [OF q(1)] x] here that(2,3) by blast
        then show ?thesis using ht(5) that(1) q(1) unfolding hash_table_def by blast
      qed
      have "hash_map ?t x = Some v \<longleftrightarrow> \<not> hash_same ht k x \<and> hash_map ht x = Some v" for v
        using hash_map_iff [of ?t ?st x v] iff [OF x] ht(1) T' frame x here only
        by (auto simp: hash_entry_def occupied_drop)
      then show ?thesis by (metis option.exhaust)
    qed
    moreover have "unat q < length st" using occupied_less [OF q(1)] .
    then have "scl_hash_remove (Some ht) (Some k) = Some (SCL_OK, Some ?t)"
      using Some r(1) ht(4) by (simp add: scl_hash_remove_def)
    ultimately show ?thesis using inv' r(2) Some by (intro exI [of _ ?t]) (simp add: same_functions_def)
  qed
qed

section \<open>Insertion\<close>

text \<open>The load factor of the code, in numbers.\<close>

lemma hash_load:
  assumes "hash_inv ht"
  shows "ht_capacity ht * 2 \<le> ht_count ht * 3 \<longleftrightarrow> 2 * unat (ht_capacity ht) \<le> 3 * unat (ht_count ht)"
    and "unat (ht_count ht) \<le> unat (ht_capacity ht)"
proof -
  obtain st where ht: "unat (ht_capacity ht) * 4 < object_limit" "hash_table ht (ht_capacity ht) (ht_keys ht) (ht_values ht) st"
    "unat (ht_count ht) = card (occupied st)" using assms by (rule hash_invE)
  have "card (occupied st) \<le> card {..<length st}" by (rule card_mono) (auto simp: occupied_def)
  then show le: "unat (ht_count ht) \<le> unat (ht_capacity ht)" using ht by (simp add: hash_table_def)
  have "unat (ht_capacity ht * 2) = unat (ht_capacity ht) * 2" "unat (ht_count ht * 3) = unat (ht_count ht) * 3"
    using ht(1) le by (simp_all add: unat_mult_bounded [of _ "unat (ht_capacity ht)"])
  then show "ht_capacity ht * 2 \<le> ht_count ht * 3 \<longleftrightarrow> 2 * unat (ht_capacity ht) \<le> 3 * unat (ht_count ht)"
    by (simp add: word_le_nat_alt mult.commute)
qed

text \<open>Insertion into a table with room. The key must be new unless there are no tombstones: the code takes the
  first tombstone on the chain without looking for the key behind it.\<close>

lemma hash_store_spec:
  assumes inv: "hash_inv ht" and k: "unat (ht_key_size ht) \<le> length k" and v: "unat (ht_value_size ht) \<le> length v"
    and room: "3 * unat (ht_count ht) < 2 * unat (ht_capacity ht)"
    and clean: "SCL_HASH_TOMBSTONE \<notin> set (the (ht_states ht)) \<or> hash_map ht k = None"
  shows "\<exists>ht'. scl_hash_insert a (Some ht) (Some k) (Some v) = Some (SCL_OK, Some ht') \<and> hash_inv ht' \<and> same_functions ht ht' \<and>
    (SCL_HASH_TOMBSTONE \<notin> set (the (ht_states ht)) \<longrightarrow> SCL_HASH_TOMBSTONE \<notin> set (the (ht_states ht'))) \<and>
    (\<forall>x. unat (ht_key_size ht) \<le> length x \<longrightarrow>
      hash_map ht' x = (if hash_same ht k x then Some (take (unat (ht_value_size ht)) v) else hash_map ht x))"
proof -
  obtain st where ht: "hash_keys_of ht" "ht_mask ht = ht_capacity ht - 1" "unat (ht_capacity ht) * 4 < object_limit"
    "ht_states ht = Some st" "hash_table ht (ht_capacity ht) (ht_keys ht) (ht_values ht) st"
    "unat (ht_count ht) = card (occupied st)" using inv by (rule hash_invE)
  let ?w = "unat (ht_key_size ht)" and ?k = "\<lambda>i. slot (ht_keys ht) (ht_key_size ht) i" and ?v = "take (unat (ht_value_size ht)) v"
  let ?cap = "ht_capacity ht"
  have cap: "pow2_sz ?cap" and len: "length st = unat ?cap" and buf: "buf_ok (ht_keys ht) ?cap (ht_key_size ht)" "buf_ok (ht_values ht) ?cap (ht_value_size ht)"
    using ht(5) by (simp_all add: hash_table_def)
  have nogrow: "\<not> ?cap * 2 \<le> ht_count ht * 3" using hash_load(1) [OF inv] room by simp
  obtain idx where idx: "hash_index ht k (?cap - 1) = Some idx" "unat idx = hash_home ht ?cap k"
    using hash_index_home(1) [OF ht(1) k cap] by blast
  have "unat idx < unat ?cap" using hash_index_home(2) [OF ht(1) k cap] idx(2) by simp
  then obtain p where p: "hash_place ht st k idx idx = Some p" "case p of
        Vacant q \<Rightarrow> vacant_at ht ?cap st k (unat q) \<and> (st ! unat q = SCL_HASH_EMPTY \<longrightarrow>
          (\<forall>i \<in> occupied st. \<not> hash_same ht (?k i) k))
      | Present q \<Rightarrow> unat q \<in> occupied st \<and> hash_same ht (?k (unat q)) k
      | Full \<Rightarrow> occupied st = {..<unat ?cap}"
    using hash_place_spec [OF ht(1,5,2) k idx(2), of 0 idx] by (auto simp: yields_iff)
  note iff = hash_map_iff [OF ht(1,4,5)]
  have sym: "hash_same ht x y \<Longrightarrow> hash_same ht y x" if "?w \<le> length x" "?w \<le> length y" for x y
    using hash_keys.eq_sym [OF ht(1)] that unfolding hash_same_def by blast
  have trans: "hash_same ht x y \<Longrightarrow> hash_same ht y z \<Longrightarrow> hash_same ht x z"
    if "?w \<le> length x" "?w \<le> length y" "?w \<le> length z" for x y z
    using hash_keys.eq_trans [OF ht(1)] that unfolding hash_same_def by blast
  show ?thesis
  proof (cases p)
    case Full
    then have "card (occupied st) = unat ?cap" using p(2) by simp
    then show ?thesis using room ht(6) by simp
  next
    case (Vacant q)
    then have q: "vacant_at ht ?cap st k (unat q)" "st ! unat q = SCL_HASH_EMPTY \<Longrightarrow> \<forall>i \<in> occupied st. \<not> hash_same ht (?k i) k"
      using p(2) by simp_all
    have qlt: "q < ?cap" "unat q < length st" using q(1) len by (simp_all add: vacant_at_def word_less_unat)
    have absent: "\<forall>i \<in> occupied st. \<not> hash_same ht (?k i) k"
    proof (cases "st ! unat q = SCL_HASH_EMPTY")
      case True
      then show ?thesis by (rule q(2))
    next
      case False
      then have "st ! unat q = SCL_HASH_TOMBSTONE" using q(1) by (cases "st ! unat q") (simp_all add: vacant_at_def)
      then have "hash_map ht k = None" using clean nth_mem [OF qlt(2)] ht(4) by auto
      then show ?thesis using iff [OF k] by (auto simp: hash_entry_def)
    qed
    from buf_write [OF buf(1) qlt(1) k] obtain keys where keys:
      "scl_memcpy (ht_keys ht) (unat (q * ht_key_size ht)) (Some k) 0 ?w = Some keys" "buf_ok keys ?cap (ht_key_size ht)"
      "\<And>j. j < unat ?cap \<Longrightarrow> slot keys (ht_key_size ht) j = (if j = unat q then take ?w k else ?k j)" by blast
    from buf_write [OF buf(2) qlt(1) v] obtain vals where vals:
      "scl_memcpy (ht_values ht) (unat (q * ht_value_size ht)) (Some v) 0 (unat (ht_value_size ht)) = Some vals"
      "buf_ok vals ?cap (ht_value_size ht)"
      "\<And>j. j < unat ?cap \<Longrightarrow> slot vals (ht_value_size ht) j = (if j = unat q then ?v else slot (ht_values ht) (ht_value_size ht) j)" by blast
    let ?st = "st[unat q := SCL_HASH_OCCUPIED]"
    let ?t = "ht\<lparr>ht_keys := keys, ht_values := vals, ht_states := Some ?st, ht_count := ht_count ht + 1\<rparr>"
    have frame: "hash_table ?t = hash_table ht" "hash_entry ?t = hash_entry ht" by (rule hash_frame; simp)+
    note put = table_put [OF ht(1,5) q(1) k absent keys(2,3) vals(2,3)]
    have "unat (ht_count ht + 1) = Suc (unat (ht_count ht))" by (rule unat_Suc_less [of _ ?cap]) (use room in \<open>simp add: word_less_unat\<close>)
    then have inv': "hash_inv ?t" using ht(1-3,6) put(1,2) frame(1) by (simp add: hash_inv_def)
    have "hash_map ?t x = (if hash_same ht k x then Some ?v else hash_map ht x)" if x: "?w \<le> length x" for x
    proof -
      have same: "hash_same ht (take ?w k) x \<longleftrightarrow> hash_same ht k x"
        using hash_keys.eq_prefix [OF ht(1) k x] by (simp add: hash_same_def)
      have old: "\<not> hash_same ht k x \<or> \<not> hash_entry ht (ht_keys ht) (ht_values ht) st x u" for u
      proof (rule ccontr)
        assume "\<not> ?thesis"
        then obtain i where i: "i \<in> occupied st" "hash_same ht (?k i) x" "hash_same ht k x" by (auto simp: hash_entry_def)
        have "?w \<le> length (?k i)" using table_key [OF ht(5)] occupied_less [OF i(1)] len by simp
        then show False using absent i trans [OF _ x k] sym [OF k x] by blast
      qed
      have "hash_map ?t x = Some u \<longleftrightarrow> (if hash_same ht k x then u = ?v else hash_map ht x = Some u)" for u
        using hash_map_iff [of ?t ?st x u] ht(1) put(1) put(3) [of x u] frame x same old iff [OF x] by auto
      then show ?thesis by (metis option.exhaust)
    qed
    moreover have "scl_hash_insert a (Some ht) (Some k) (Some v) = Some (SCL_OK, Some ?t)"
      using nogrow ht(2,4) idx(1) p(1) Vacant keys(1) vals(1) qlt(2) by (simp add: scl_hash_insert_def)
    moreover have "SCL_HASH_TOMBSTONE \<notin> set st \<Longrightarrow> SCL_HASH_TOMBSTONE \<notin> set ?st"
      using set_update_subset_insert [of st "unat q" SCL_HASH_OCCUPIED] by blast
    ultimately show ?thesis using inv' ht(4) by (intro exI [of _ ?t]) (simp add: same_functions_def)
  next
    case (Present q)
    then have q: "unat q \<in> occupied st" "hash_same ht (?k (unat q)) k" using p(2) by simp_all
    have qlt: "q < ?cap" using occupied_less [OF q(1)] len by (simp add: word_less_unat)
    from buf_write [OF buf(2) qlt v] obtain vals where vals:
      "scl_memcpy (ht_values ht) (unat (q * ht_value_size ht)) (Some v) 0 (unat (ht_value_size ht)) = Some vals"
      "buf_ok vals ?cap (ht_value_size ht)"
      "\<And>j. j < unat ?cap \<Longrightarrow> slot vals (ht_value_size ht) j = (if j = unat q then ?v else slot (ht_values ht) (ht_value_size ht) j)" by blast
    let ?t = "ht\<lparr>ht_values := vals\<rparr>"
    have frame: "hash_table ?t = hash_table ht" "hash_entry ?t = hash_entry ht" by (rule hash_frame; simp)+
    have T': "hash_table ht ?cap (ht_keys ht) vals st" using ht(5) vals(2) by (simp add: hash_table_def)
    have inv': "hash_inv ?t" using ht T' frame(1) by (simp add: hash_inv_def)
    have "hash_map ?t x = (if hash_same ht k x then Some ?v else hash_map ht x)" if x: "?w \<le> length x" for x
    proof -
      have kw: "?w \<le> length (?k i)" if "i \<in> occupied st" for i
        using table_key [OF ht(5)] occupied_less [OF that] len by simp
      have here: "hash_same ht (?k (unat q)) x \<longleftrightarrow> hash_same ht k x"
        using trans sym q(2) kw [OF q(1)] k x by blast
      have only: "i = unat q \<longleftrightarrow> hash_same ht k x" if i: "i \<in> occupied st" "hash_same ht (?k i) x" for i
      proof -
        have "hash_same ht (?k i) (?k (unat q))" if "hash_same ht k x"
          using trans [OF kw [OF i(1)] x kw [OF q(1)]] sym [OF kw [OF q(1)] x] here i(2) that by blast
        then show ?thesis using ht(5) i q(1) here unfolding hash_table_def by blast
      qed
      have val: "slot vals (ht_value_size ht) i = (if i = unat q then ?v else slot (ht_values ht) (ht_value_size ht) i)"
        if "i \<in> occupied st" for i using vals(3) occupied_less [OF that] len by simp
      have "hash_entry ht (ht_keys ht) vals st x u \<longleftrightarrow>
          (if hash_same ht k x then u = ?v else hash_entry ht (ht_keys ht) (ht_values ht) st x u)" for u
      proof (cases "hash_same ht k x")
        case True
        then have "hash_entry ht (ht_keys ht) vals st x u \<longleftrightarrow> slot vals (ht_value_size ht) (unat q) = u"
          unfolding hash_entry_def using only q(1) here by blast
        then show ?thesis using True val [OF q(1)] by auto
      next
        case False
        then have "slot vals (ht_value_size ht) i = slot (ht_values ht) (ht_value_size ht) i"
          if "i \<in> occupied st" "hash_same ht (?k i) x" for i using val [OF that(1)] only [OF that] by simp
        then show ?thesis unfolding hash_entry_def using False by metis
      qed
      then have "hash_map ?t x = Some u \<longleftrightarrow> (if hash_same ht k x then u = ?v else hash_map ht x = Some u)" for u
        using hash_map_iff [of ?t st x u] ht(1,4) T' frame x iff [OF x] by simp
      then show ?thesis by (metis option.exhaust)
    qed
    moreover have "scl_hash_insert a (Some ht) (Some k) (Some v) = Some (SCL_OK, Some ?t)"
      using nogrow ht(2,4) idx(1) p(1) Present vals(1) by (simp add: scl_hash_insert_def)
    ultimately show ?thesis using inv' by (intro exI [of _ ?t]) (simp add: same_functions_def)
  qed
qed

lemma hash_insert_spec:
  assumes a: "scl_allocator a" and inv: "hash_inv ht" and k: "unat (ht_key_size ht) \<le> length k" and v: "unat (ht_value_size ht) \<le> length v"
    and clean: "SCL_HASH_TOMBSTONE \<notin> set (the (ht_states ht)) \<or> hash_map ht k = None"
  shows "\<exists>err ht'. scl_hash_insert a (Some ht) (Some k) (Some v) = Some (err, Some ht') \<and> hash_inv ht' \<and> same_functions ht ht' \<and>
    (SCL_HASH_TOMBSTONE \<notin> set (the (ht_states ht)) \<longrightarrow> SCL_HASH_TOMBSTONE \<notin> set (the (ht_states ht'))) \<and>
    (if err = SCL_OK then \<forall>x. unat (ht_key_size ht) \<le> length x \<longrightarrow>
        hash_map ht' x = (if hash_same ht k x then Some (take (unat (ht_value_size ht)) v) else hash_map ht x)
     else alloc_failed err \<and> ht' = ht)"
proof (cases "ht_capacity ht * 2 \<le> ht_count ht * 3")
  case False
  then have "3 * unat (ht_count ht) < 2 * unat (ht_capacity ht)" using hash_load(1) [OF inv] by simp
  from hash_store_spec [OF inv k v this clean, of a] show ?thesis by (elim exE) (rule exI [of _ SCL_OK], auto)
next
  case True
  obtain err t where g: "scl_hash_grow a ht = Some (err, t)" "if err = SCL_OK then hash_inv t \<and> same_functions ht t \<and> ht_count t = ht_count ht \<and>
       unat (ht_capacity t) = 2 * unat (ht_capacity ht) \<and> SCL_HASH_TOMBSTONE \<notin> set (the (ht_states t)) \<and>
       (\<forall>k. unat (ht_key_size ht) \<le> length k \<longrightarrow> hash_map t k = hash_map ht k)
     else alloc_failed err \<and> t = ht" using hash_grow_spec [OF a inv] by blast
  show ?thesis
  proof (cases "err = SCL_OK")
    case False
    then show ?thesis using g True inv by (auto simp: scl_hash_insert_def)
  next
    case ok: True
    then have t: "hash_inv t" "same_functions ht t" "ht_count t = ht_count ht" "unat (ht_capacity t) = 2 * unat (ht_capacity ht)"
      "SCL_HASH_TOMBSTONE \<notin> set (the (ht_states t))"
      "\<And>x. unat (ht_key_size ht) \<le> length x \<Longrightarrow> hash_map t x = hash_map ht x" using g(2) by simp_all
    have pos: "0 < unat (ht_capacity ht)" using inv by (elim hash_invE) (simp add: hash_table_def pow2_sz_pos)
    then have room: "3 * unat (ht_count t) < 2 * unat (ht_capacity t)"
      using hash_load(2) [OF inv] t(3,4) by simp
    have eq: "scl_hash_insert a (Some ht) (Some k) (Some v) = scl_hash_insert a (Some t) (Some k) (Some v)"
      using True g(1) ok hash_load(1) [OF t(1)] room by (simp add: scl_hash_insert_def)
    have sizes: "ht_key_size t = ht_key_size ht" "ht_value_size t = ht_value_size ht" using t(2) by (simp_all add: same_functions_def)
    from hash_store_spec [OF t(1) _ _ room, of k v a] k v t(5) sizes obtain ht' where ht':
      "scl_hash_insert a (Some t) (Some k) (Some v) = Some (SCL_OK, Some ht')" "hash_inv ht'" "same_functions t ht'"
      "SCL_HASH_TOMBSTONE \<notin> set (the (ht_states ht'))"
      "\<forall>x. unat (ht_key_size ht) \<le> length x \<longrightarrow>
        hash_map ht' x = (if hash_same t k x then Some (take (unat (ht_value_size ht)) v) else hash_map t x)" by auto
    then show ?thesis using eq t(2,6) hash_same_cong [OF t(2)] same_functions_trans
      by (intro exI [of _ SCL_OK] exI [of _ ht']) auto
  qed
qed

section \<open>Histories\<close>

lemma hash_init_spec:
  assumes a: "scl_allocator a" and n: "unat n \<le> 2 ^ 63"
    and hk: "hash_keys hf (case eq of None \<Rightarrow> scl_hash_eq_mem | Some e \<Rightarrow> e) (unat ksz)"
    and init: "scl_hash_init seed a (Some t0) ksz vsz n (Some hf) eq = (SCL_OK, Some t)"
  shows "hash_inv t" and "SCL_HASH_TOMBSTONE \<notin> set (the (ht_states t))" and "hash_map t k = None"
    and "ht_key_size t = ksz" and "ht_value_size t = vsz"
    and "ht_eq_func t = (case eq of None \<Rightarrow> scl_hash_eq_mem | Some e \<Rightarrow> e)"
proof -
  let ?cap = "scl_bit_ceil_sz n" and ?eq = "case eq of None \<Rightarrow> scl_hash_eq_mem | Some e \<Rightarrow> e"
  have nz: "ksz \<noteq> 0" "vsz \<noteq> 0" "n \<noteq> 0" using init by (auto simp: scl_hash_init_def split: if_splits)
  obtain keys vals b where m: "calloc_fn a 0 ?cap ksz max_align = Some keys" "calloc_fn a 1 ?cap vsz max_align = Some vals"
    "calloc_fn a 2 ?cap 4 max_align = Some b"
    using init nz by (auto simp: scl_hash_init_def Let_def split: if_splits)
  have t: "t = t0\<lparr>ht_keys := Some keys, ht_values := Some vals, ht_states := Some (replicate (unat ?cap) SCL_HASH_EMPTY),
      ht_capacity := ?cap, ht_mask := ?cap - 1, ht_count := 0, ht_hash_func := hf, ht_eq_func := ?eq, ht_seed := seed,
      ht_key_size := ksz, ht_value_size := vsz\<rparr>"
    using init nz m by (simp add: scl_hash_init_def Let_def)
  have cap: "pow2_sz ?cap" using n by (rule pow2_scl_bit_ceil_sz)
  have buf: "buf_ok (Some keys) ?cap ksz" "buf_ok (Some vals) ?cap vsz"
    using scl_allocator.calloc_block [OF a m(1)] scl_allocator.calloc_block [OF a m(2)] nz by (simp_all add: buf_ok_def)
  have "unat ?cap * 4 < object_limit"
    using scl_allocator.calloc_block [OF a m(3)] by (simp add: is_object_def)
  then show "hash_inv t"
    using hk empty_table [OF cap, of "Some keys" t "Some vals"] buf by (simp add: hash_inv_def t)
  show "SCL_HASH_TOMBSTONE \<notin> set (the (ht_states t))" by (simp add: t)
  show "hash_map t k = None" by (auto simp: t hash_map_def find_None_iff)
qed (use init in \<open>auto simp: scl_hash_init_def Let_def split: if_splits\<close>)

datatype map_cmd = Insert_key block block | Remove_key block | Lookup_key block

definition hash_exec :: "scl_allocator_t \<Rightarrow> scl_hash_t \<Rightarrow> map_cmd \<Rightarrow> ((scl_error_t \<times> block) \<times> scl_hash_t) ub" where
  "hash_exec a ht c = (case c of
     Insert_key k v \<Rightarrow> do {
       (err, t) \<leftarrow> scl_hash_insert a (Some ht) (Some k) (Some v);
       t \<leftarrow> t;
       Some ((err, []), t)
     }
   | Remove_key k \<Rightarrow> do {
       (err, t) \<leftarrow> scl_hash_remove (Some ht) (Some k);
       t \<leftarrow> t;
       Some ((err, []), t)
     }
   | Lookup_key k \<Rightarrow> do {
       (err, v) \<leftarrow> scl_hash_get (Some ht) (Some k) (Some (replicate (unat (ht_value_size ht)) 0));
       v \<leftarrow> v;
       Some ((err, if err = SCL_OK then v else []), ht)
     })"

fun hash_run :: "scl_allocator_t \<Rightarrow> scl_hash_t \<Rightarrow> map_cmd list \<Rightarrow> ((scl_error_t \<times> block) list \<times> scl_hash_t) ub" where
  "hash_run a ht [] = Some ([], ht)"
| "hash_run a ht (c # cs) = do {
     (r, t) \<leftarrow> hash_exec a ht c;
     (rs, t) \<leftarrow> hash_run a t cs;
     Some (r # rs, t)
   }"

text \<open>What a map would have answered: \<open>same\<close> tells which keys are equal, values are cut to \<open>w\<close> bytes, an insertion
  that failed for want of memory has no effect.\<close>

fun map_replay ::
    "(block \<Rightarrow> block \<Rightarrow> bool) \<Rightarrow> nat \<Rightarrow> (block \<Rightarrow> block option) \<Rightarrow> map_cmd list \<Rightarrow> (scl_error_t \<times> block) list \<Rightarrow> bool" where
  "map_replay same w m [] [] = True"
| "map_replay same w m (Insert_key k v # cs) ((err, u) # rs) =
     (if err = SCL_OK then map_replay same w (\<lambda>x. if same k x then Some (take w v) else m x) cs rs
      else alloc_failed err \<and> map_replay same w m cs rs)"
| "map_replay same w m (Remove_key k # cs) ((err, u) # rs) =
     (err = (if m k = None then SCL_ERR_NOT_FOUND else SCL_OK) \<and>
      map_replay same w (\<lambda>x. if same k x then None else m x) cs rs)"
| "map_replay same w m (Lookup_key k # cs) (r # rs) =
     (r = (case m k of None \<Rightarrow> (SCL_ERR_NOT_FOUND, []) | Some v \<Rightarrow> (SCL_OK, v)) \<and> map_replay same w m cs rs)"
| "map_replay same w m cs rs = False"

fun cmd_sizes :: "nat \<Rightarrow> nat \<Rightarrow> map_cmd \<Rightarrow> bool" where
  "cmd_sizes kw vw (Insert_key k v) \<longleftrightarrow> kw \<le> length k \<and> vw \<le> length v"
| "cmd_sizes kw vw (Remove_key k) \<longleftrightarrow> kw \<le> length k"
| "cmd_sizes kw vw (Lookup_key k) \<longleftrightarrow> kw \<le> length k"

definition removes :: "map_cmd \<Rightarrow> bool" where
  "removes c \<longleftrightarrow> (case c of Remove_key k \<Rightarrow> True | _ \<Rightarrow> False)"

text \<open>No key is inserted twice.\<close>

fun inserted_once :: "(block \<Rightarrow> block \<Rightarrow> bool) \<Rightarrow> map_cmd list \<Rightarrow> bool" where
  "inserted_once same [] = True"
| "inserted_once same (Insert_key k v # cs) \<longleftrightarrow> (\<forall>c \<in> set cs. case c of Insert_key x _ \<Rightarrow> \<not> same k x | _ \<Rightarrow> True) \<and> inserted_once same cs"
| "inserted_once same (c # cs) \<longleftrightarrow> inserted_once same cs"

definition hash_history_ok :: "scl_hash_t \<Rightarrow> map_cmd list \<Rightarrow> bool" where
  "hash_history_ok ht cs \<longleftrightarrow>
     SCL_HASH_TOMBSTONE \<notin> set (the (ht_states ht)) \<and> (\<forall>c \<in> set cs. \<not> removes c) \<or>
     inserted_once (hash_same ht) cs \<and> (\<forall>c \<in> set cs. case c of Insert_key k _ \<Rightarrow> hash_map ht k = None | _ \<Rightarrow> True)"

lemma map_replay_cong:
  "(\<And>x. kw \<le> length x \<Longrightarrow> m x = m' x) \<Longrightarrow> \<forall>c \<in> set cs. cmd_sizes kw vw c \<Longrightarrow>
   map_replay same w m cs rs = map_replay same w m' cs rs"
proof (induction cs arbitrary: m m' rs)
  case Nil
  then show ?case by (cases rs) simp_all
next
  case (Cons c cs)
  have cs: "\<forall>c \<in> set cs. cmd_sizes kw vw c" using Cons.prems(2) by simp
  have upd: "map_replay same w (\<lambda>x. if same k x then y else m x) cs rs' = map_replay same w (\<lambda>x. if same k x then y else m' x) cs rs'"
    for k y rs' using Cons.prems(1) by (intro Cons.IH [OF _ cs]) simp
  have keep: "map_replay same w m cs rs' = map_replay same w m' cs rs'" for rs' using Cons.prems(1) by (intro Cons.IH [OF _ cs])
  show ?case
  proof (cases rs)
    case Nil
    then show ?thesis by (cases c) simp_all
  next
    case (Cons r rs')
    obtain err u where r: "r = (err, u)" by (cases r)
    show ?thesis using upd keep Cons.prems Cons r by (cases c) simp_all
  qed
qed

lemma hash_exec_spec:
  assumes a: "scl_allocator a" and inv: "hash_inv ht"
    and sizes: "\<forall>d \<in> set (c # cs). cmd_sizes (unat (ht_key_size ht)) (unat (ht_value_size ht)) d"
    and ok: "hash_history_ok ht (c # cs)"
  shows "\<exists>r t. hash_exec a ht c = Some (r, t) \<and> hash_inv t \<and> same_functions ht t \<and> hash_history_ok t cs \<and>
    (\<forall>rs. map_replay (hash_same ht) (unat (ht_value_size ht)) (hash_map t) cs rs \<longrightarrow>
     map_replay (hash_same ht) (unat (ht_value_size ht)) (hash_map ht) (c # cs) (r # rs))"
proof -
  let ?kw = "unat (ht_key_size ht)" and ?vw = "unat (ht_value_size ht)"
  have cs: "\<forall>d \<in> set cs. cmd_sizes ?kw ?vw d" using sizes by simp
  have replay: "map_replay (hash_same ht) ?vw m cs rs = map_replay (hash_same ht) ?vw m' cs rs"
    if "\<And>x. ?kw \<le> length x \<Longrightarrow> m x = m' x" for m m' rs using that cs by (rule map_replay_cong)
  have later: "?kw \<le> length k" if "Insert_key k v \<in> set cs" for k v using cs that by force
  show ?thesis
  proof (cases c)
    case (Lookup_key k)
    have k: "?kw \<le> length k" using sizes Lookup_key by simp
    show ?thesis using hash_get_spec [OF inv k, of "replicate ?vw 0"] inv ok Lookup_key
      by (auto simp: hash_exec_def hash_history_ok_def removes_def split: option.splits)
  next
    case (Remove_key k)
    have k: "?kw \<le> length k" using sizes Remove_key by simp
    from hash_remove_spec [OF inv k] obtain t where t:
      "scl_hash_remove (Some ht) (Some k) = Some (if hash_map ht k = None then SCL_ERR_NOT_FOUND else SCL_OK, Some t)"
      "hash_inv t" "same_functions ht t"
      "\<And>x. ?kw \<le> length x \<Longrightarrow> hash_map t x = (if hash_same ht k x then None else hash_map ht x)" by blast
    have once: "inserted_once (hash_same ht) cs" and none: "\<forall>d \<in> set cs. case d of Insert_key x _ \<Rightarrow> hash_map ht x = None | _ \<Rightarrow> True"
      using ok Remove_key by (auto simp: hash_history_ok_def removes_def)
    have "hash_map t x = None" if "Insert_key x y \<in> set cs" for x y
      using t(4) [OF later [OF that]] none that by fastforce
    then have "\<forall>d \<in> set cs. case d of Insert_key x _ \<Rightarrow> hash_map t x = None | _ \<Rightarrow> True" by (auto split: map_cmd.splits)
    then have "hash_history_ok t cs" using once hash_same_cong [OF t(3)] by (simp add: hash_history_ok_def)
    moreover have "hash_exec a ht c = Some ((if hash_map ht k = None then SCL_ERR_NOT_FOUND else SCL_OK, []), t)"
      using t(1) Remove_key by (simp add: hash_exec_def)
    ultimately show ?thesis using t(2,3) Remove_key replay [OF t(4)] by (intro exI conjI) auto
  next
    case (Insert_key k v)
    have kv: "?kw \<le> length k" "?vw \<le> length v" using sizes Insert_key by simp_all
    have "SCL_HASH_TOMBSTONE \<notin> set (the (ht_states ht)) \<or> hash_map ht k = None"
      using ok Insert_key by (auto simp: hash_history_ok_def)
    from hash_insert_spec [OF a inv kv this] obtain err t where t:
      "scl_hash_insert a (Some ht) (Some k) (Some v) = Some (err, Some t)" "hash_inv t" "same_functions ht t"
      "SCL_HASH_TOMBSTONE \<notin> set (the (ht_states ht)) \<longrightarrow> SCL_HASH_TOMBSTONE \<notin> set (the (ht_states t))"
      "if err = SCL_OK then \<forall>x. ?kw \<le> length x \<longrightarrow> hash_map t x = (if hash_same ht k x then Some (take ?vw v) else hash_map ht x)
       else alloc_failed err \<and> t = ht" by blast
    have "hash_history_ok t cs"
      using ok unfolding hash_history_ok_def
    proof (elim disjE conjE)
      assume "SCL_HASH_TOMBSTONE \<notin> set (the (ht_states ht))" "\<forall>d \<in> set (c # cs). \<not> removes d"
      then show "SCL_HASH_TOMBSTONE \<notin> set (the (ht_states t)) \<and> (\<forall>d \<in> set cs. \<not> removes d) \<or>
        inserted_once (hash_same t) cs \<and> (\<forall>d \<in> set cs. case d of Insert_key x _ \<Rightarrow> hash_map t x = None | _ \<Rightarrow> True)"
        using t(4) by simp
    next
      assume once: "inserted_once (hash_same ht) (c # cs)"
        and none: "\<forall>d \<in> set (c # cs). case d of Insert_key x _ \<Rightarrow> hash_map ht x = None | _ \<Rightarrow> True"
      have "hash_map t x = None" if "Insert_key x y \<in> set cs" for x y
      proof -
        have "\<not> hash_same ht k x" "hash_map ht x = None" using once none that Insert_key by fastforce+
        then show ?thesis using t(5) later [OF that] by (cases "err = SCL_OK") simp_all
      qed
      then have "\<forall>d \<in> set cs. case d of Insert_key x _ \<Rightarrow> hash_map t x = None | _ \<Rightarrow> True" by (auto split: map_cmd.splits)
      then show "SCL_HASH_TOMBSTONE \<notin> set (the (ht_states t)) \<and> (\<forall>d \<in> set cs. \<not> removes d) \<or>
        inserted_once (hash_same t) cs \<and> (\<forall>d \<in> set cs. case d of Insert_key x _ \<Rightarrow> hash_map t x = None | _ \<Rightarrow> True)"
        using once hash_same_cong [OF t(3)] Insert_key by simp
    qed
    moreover have "hash_exec a ht c = Some ((err, []), t)" using t(1) Insert_key by (simp add: hash_exec_def)
    moreover have "map_replay (hash_same ht) ?vw (hash_map t) cs rs \<longrightarrow>
        map_replay (hash_same ht) ?vw (hash_map ht) (c # cs) ((err, []) # rs)" for rs
    proof (cases "err = SCL_OK")
      case True
      then have "\<And>x. ?kw \<le> length x \<Longrightarrow> hash_map t x = (if hash_same ht k x then Some (take ?vw v) else hash_map ht x)" using t(5) by simp
      from replay [OF this] show ?thesis using True Insert_key by simp
    qed (use t(5) Insert_key in simp)
    ultimately show ?thesis using t(2,3) by blast
  qed
qed

text \<open>A table answers like a map, as long as nothing is removed or no key is inserted twice.\<close>

lemma hash_run_spec:
  assumes "scl_allocator a" and "hash_inv ht"
    and "\<forall>c \<in> set cs. cmd_sizes (unat (ht_key_size ht)) (unat (ht_value_size ht)) c" and "hash_history_ok ht cs"
  shows "\<exists>rs t. hash_run a ht cs = Some (rs, t) \<and> hash_inv t \<and>
    map_replay (hash_same ht) (unat (ht_value_size ht)) (hash_map ht) cs rs"
  using assms(2-)
proof (induction cs arbitrary: ht)
  case Nil
  then show ?case by simp
next
  case (Cons c cs)
  from hash_exec_spec [OF assms(1) Cons.prems] obtain r t where t: "hash_exec a ht c = Some (r, t)" "hash_inv t"
    "same_functions ht t" "hash_history_ok t cs"
    "\<And>rs. map_replay (hash_same ht) (unat (ht_value_size ht)) (hash_map t) cs rs \<Longrightarrow>
      map_replay (hash_same ht) (unat (ht_value_size ht)) (hash_map ht) (c # cs) (r # rs)" by blast
  have sizes: "ht_key_size t = ht_key_size ht" "ht_value_size t = ht_value_size ht" using t(3) by (simp_all add: same_functions_def)
  have "\<forall>c \<in> set cs. cmd_sizes (unat (ht_key_size t)) (unat (ht_value_size t)) c" using Cons.prems(2) sizes by simp
  from Cons.IH [OF t(2) this t(4)] obtain rs u where "hash_run a t cs = Some (rs, u)" "hash_inv u"
    "map_replay (hash_same t) (unat (ht_value_size t)) (hash_map t) cs rs" by blast
  then show ?case using t sizes hash_same_cong [OF t(3)] by auto
qed

text \<open>Otherwise it need not: with two keys on one chain, removing the first and inserting the second again stores
  the second twice, and the older value comes back when it is removed.\<close>

lemma hash_resurrects:
  "hash_run a \<lparr>ht_keys = Some [0, 0, 0, 0], ht_values = Some [0, 0, 0, 0],
      ht_states = Some [SCL_HASH_EMPTY, SCL_HASH_EMPTY, SCL_HASH_EMPTY, SCL_HASH_EMPTY],
      ht_capacity = 4, ht_mask = 3, ht_count = 0, ht_hash_func = (\<lambda>k n. Some 0), ht_eq_func = scl_hash_eq_mem, ht_seed = 0,
      ht_key_size = 1, ht_value_size = 1\<rparr>
    [Insert_key [1] [10], Insert_key [2] [20], Remove_key [1], Insert_key [2] [21], Remove_key [2], Lookup_key [2]]
   = Some ([(SCL_OK, []), (SCL_OK, []), (SCL_OK, []), (SCL_OK, []), (SCL_OK, []), (SCL_OK, [20])],
      \<lparr>ht_keys = Some [2, 2, 0, 0], ht_values = Some [21, 20, 0, 0],
      ht_states = Some [SCL_HASH_TOMBSTONE, SCL_HASH_OCCUPIED, SCL_HASH_EMPTY, SCL_HASH_EMPTY],
      ht_capacity = 4, ht_mask = 3, ht_count = 1, ht_hash_func = (\<lambda>k n. Some 0), ht_eq_func = scl_hash_eq_mem, ht_seed = 0,
      ht_key_size = 1, ht_value_size = 1\<rparr>)"
  by (simp add: hash_exec_def scl_hash_insert_def scl_hash_remove_def scl_hash_get_def hash_search_def hash_index_def
      hash_place.simps hash_probe.simps scl_hash_eq_mem_def load_elem_def mem_read_def scl_memcpy_def mem_write_def)

end
