(* ===== verification/Scl_Match.thy ===== *)
theory Scl_Match
  imports Scl_Typed
begin

text \<open>
  What the substring searches of \<open>libs/search\<close> share: the places where a pattern occurs in a text, the
  callback that is told about them, and the contract of the searches for the first place. A callback is
  a function of the position and of what its \<open>user\<close> pointer points to; it says whether to go on and leaves
  the new contents. Texts and patterns are the bytes the pointers point to.
\<close>

section \<open>Occurrences\<close>

definition occurs_at :: "'a list \<Rightarrow> 'a list \<Rightarrow> nat \<Rightarrow> bool" where
  "occurs_at pat text p \<longleftrightarrow> p + length pat \<le> length text \<and> take (length pat) (drop p text) = pat"

definition occurrences :: "'a list \<Rightarrow> 'a list \<Rightarrow> nat list" where
  "occurrences pat text = filter (occurs_at pat text) [0..<Suc (length text) - length pat]"

lemma occurs_at_iff:
  "occurs_at pat text p \<longleftrightarrow>
     p + length pat \<le> length text \<and> (\<forall>m < length pat. text ! (p + m) = pat ! m)"
  by (auto simp: occurs_at_def list_eq_iff_nth_eq min_def)

lemma set_occurrences [simp]: "set (occurrences pat text) = Collect (occurs_at pat text)"
  by (auto simp: occurrences_def occurs_at_def)

lemma sorted_occurrences [simp]: "sorted_wrt (<) (occurrences pat text)"
  by (simp add: occurrences_def sorted_wrt_filter del: upt_Suc)

text \<open>Occurrences are the ways to write the text around the pattern.\<close>

lemma occurs_at_append: "occurs_at pat text p \<longleftrightarrow> (\<exists>xs ys. text = xs @ pat @ ys \<and> length xs = p)"
proof
  assume "occurs_at pat text p"
  then have "text = take p text @ pat @ drop (p + length pat) text" "length (take p text) = p"
    by (auto simp: occurs_at_def) (metis append_take_drop_id drop_drop add.commute)
  then show "\<exists>xs ys. text = xs @ pat @ ys \<and> length xs = p" by blast
qed (auto simp: occurs_at_def)

text \<open>The occurrences at or after a position, which is how far a scan has still to go.\<close>

definition matches_from :: "'a list \<Rightarrow> 'a list \<Rightarrow> nat \<Rightarrow> nat list" where
  "matches_from pat text i = filter (occurs_at pat text) [i..<Suc (length text) - length pat]"

lemma matches_from_0: "matches_from pat text 0 = occurrences pat text"
  by (simp add: matches_from_def occurrences_def)

lemma matches_from_end: "length text - length pat < i \<Longrightarrow> matches_from pat text i = []"
  by (auto simp: matches_from_def)

lemma matches_from_hit:
  assumes "occurs_at pat text i"
  shows "matches_from pat text i = i # matches_from pat text (Suc i)"
proof -
  have "[i..<Suc (length text) - length pat] = i # [Suc i..<Suc (length text) - length pat]"
    using assms by (intro upt_conv_Cons) (auto simp: occurs_at_def)
  then show ?thesis using assms by (simp add: matches_from_def)
qed

lemma matches_from_skip:
  assumes "i \<le> k" and "\<And>p. i \<le> p \<Longrightarrow> p < k \<Longrightarrow> \<not> occurs_at pat text p"
  shows "matches_from pat text i = matches_from pat text k"
proof (cases "k \<le> Suc (length text) - length pat")
  case True
  then have "[i..<Suc (length text) - length pat] = [i..<k] @ [k..<Suc (length text) - length pat]"
    using assms(1) by (metis le_Suc_ex upt_add_eq_append)
  then show ?thesis using assms(2) by (simp add: matches_from_def filter_empty_conv)
next
  case False
  then show ?thesis using assms by (auto simp: matches_from_def filter_empty_conv)
qed

section \<open>Callbacks\<close>

type_synonym 'u match_cb = "(nat \<Rightarrow> 'u \<Rightarrow> bool \<times> 'u) ptr"

text \<open>\<open>if (cb && !cb(pos, user)) break;\<close>\<close>

definition offer :: "'u match_cb \<Rightarrow> nat \<Rightarrow> 'u \<Rightarrow> bool \<times> 'u" where
  "offer cb p u = (case cb of None \<Rightarrow> (True, u) | Some f \<Rightarrow> f p u)"

text \<open>What a search leaves that offers the positions of a list in turn: how many it offered, and \<open>user\<close>.\<close>

fun report :: "'u match_cb \<Rightarrow> 'u \<Rightarrow> nat list \<Rightarrow> nat \<times> 'u" where
  "report cb u [] = (0, u)"
| "report cb u (p # ps) =
     (let (go, u') = offer cb p u
      in if go then (let (n, u'') = report cb u' ps in (Suc n, u'')) else (1, u'))"

lemma report_all: "report None u ps = (length ps, u)"
  by (induction ps arbitrary: u) (simp_all add: offer_def)

lemma report_pos: "0 < fst (report cb u ps) \<longleftrightarrow> ps \<noteq> []"
  by (cases ps) (simp_all split: prod.split)

text \<open>What a scan delivers that has counted \<open>cnt\<close> matches so far and has a list of them to go.\<close>

definition scan_result :: "'u match_cb \<Rightarrow> nat list \<Rightarrow> nat \<Rightarrow> scl_error_t \<Rightarrow> 'u \<Rightarrow> scl_error_t \<times> nat \<times> 'u" where
  "scan_result cb ps cnt result u =
     (if ps = [] then result else SCL_OK, cnt + fst (report cb u ps), snd (report cb u ps))"

lemma scan_result_Nil [simp]: "scan_result cb [] cnt result u = (result, cnt, u)"
  by (simp add: scan_result_def)

lemma scan_result_Cons: "scan_result cb (p # ps) cnt result u =
  (let (go, u') = offer cb p u in if go then scan_result cb ps (cnt + 1) SCL_OK u' else (SCL_OK, cnt + 1, u'))"
  by (simp add: scan_result_def split: prod.split)

text \<open>The result of a search for all matches: the callback saw the occurrences in order, up to the
  one at which it asked to stop.\<close>

definition core_result :: "byte list \<Rightarrow> byte list \<Rightarrow> 'u match_cb \<Rightarrow> 'u \<Rightarrow> nat ptr \<Rightarrow> scl_error_t \<times> nat ptr \<times> 'u" where
  "core_result text pat cb u out_count =
     (let (n, u') = report cb u (occurrences pat text)
      in (if n = 0 then SCL_ERR_NOT_FOUND else SCL_OK, map_option (\<lambda>_. n) out_count, u'))"

lemma core_result_scan:
  "core_result text pat cb u oc =
     (case scan_result cb (occurrences pat text) 0 SCL_ERR_NOT_FOUND u of (r, n, u') \<Rightarrow> (r, map_option (\<lambda>_. n) oc, u'))"
  using report_pos [of cb u "occurrences pat text"]
  by (auto simp: core_result_def scan_result_def split: prod.split)

text \<open>The adapter of the searches for the first match.\<close>

definition first_cb :: "nat \<Rightarrow> nat \<Rightarrow> bool \<times> nat" where
  "first_cb p u = (False, p)"

lemma report_first: "report (Some first_cb) u ps = (case ps of [] \<Rightarrow> (0, u) | p # _ \<Rightarrow> (1, p))"
  by (cases ps) (simp_all add: offer_def first_cb_def)

lemma core_result_first:
  "core_result text pat (Some first_cb) u oc = (case occurrences pat text of
     [] \<Rightarrow> (SCL_ERR_NOT_FOUND, map_option (\<lambda>_. 0) oc, u) | p # _ \<Rightarrow> (SCL_OK, map_option (\<lambda>_. 1) oc, p))"
  by (simp add: core_result_def report_first split: list.split)

lemma unat_of_length: "length xs < object_limit \<Longrightarrow> unat (of_nat (length xs) :: size_t) = length xs"
  by (simp add: unat_of_nat)

section \<open>The contract of a search for the first match\<close>

definition first_match :: "byte list \<Rightarrow> byte list \<Rightarrow> scl_error_t \<times> nat ptr \<Rightarrow> nat \<Rightarrow> bool" where
  "first_match pat text r old \<longleftrightarrow>
     (case occurrences pat text of
        [] \<Rightarrow> r = (SCL_ERR_NOT_FOUND, Some old)
      | p # _ \<Rightarrow> r = (SCL_OK, Some p))"

locale substring_search =
  fixes search :: "byte list \<Rightarrow> byte list \<Rightarrow> nat \<Rightarrow> (scl_error_t \<times> nat ptr) ub"
    and fits :: "byte list \<Rightarrow> byte list \<Rightarrow> bool"
  assumes search_first: "fits pat text \<Longrightarrow> yields (search text pat old) (\<lambda>r. first_match pat text r old)"
begin

lemma search_result:
  "fits pat text \<Longrightarrow> search text pat old = Some (case occurrences pat text of
     [] \<Rightarrow> (SCL_ERR_NOT_FOUND, Some old) | p # _ \<Rightarrow> (SCL_OK, Some p))"
  using search_first [of pat "text" old]
  by (auto simp: yields_iff first_match_def split: list.splits)

text \<open>The position found is the least one, and nothing is found only when there is none.\<close>

lemma search_least:
  assumes "fits pat text"
  shows "yields (search text pat old) (\<lambda>(e, q).
    e = SCL_OK \<and> (\<exists>p. q = Some p \<and> occurs_at pat text p \<and> (\<forall>p' < p. \<not> occurs_at pat text p')) \<or>
    e = SCL_ERR_NOT_FOUND \<and> q = Some old \<and> (\<forall>p. \<not> occurs_at pat text p))"
proof (cases "occurrences pat text")
  case Nil
  then have "\<forall>p. \<not> occurs_at pat text p" by (metis set_occurrences mem_Collect_eq list.set(1) empty_iff)
  then show ?thesis using search_result [OF assms, of old] Nil by simp
next
  case (Cons p ps)
  then have "occurs_at pat text p" by (metis list.set_intros(1) mem_Collect_eq set_occurrences)
  moreover have "\<forall>p' < p. \<not> occurs_at pat text p'"
  proof (intro allI impI notI)
    fix p' assume "p' < p" "occurs_at pat text p'"
    then have "p' \<in> set (p # ps)" using Cons by (metis mem_Collect_eq set_occurrences)
    moreover have "sorted_wrt (<) (p # ps)" using Cons by (metis sorted_occurrences)
    ultimately show False using \<open>p' < p\<close> by auto
  qed
  ultimately show ?thesis using search_result [OF assms, of old] Cons by auto
qed

end

text \<open>Two searches under the contract agree wherever both may be called.\<close>

lemma searches_agree:
  assumes "substring_search s f" and "substring_search t g" and "f pat text" and "g pat text"
  shows "s text pat old = t text pat old"
  using substring_search.search_result [OF assms(1,3)] substring_search.search_result [OF assms(2,4)] by simp

end
