(* ===== verification/Scl_Kmp.thy ===== *)
theory Scl_Kmp
  imports Scl_Match
begin

text \<open>
  The Knuth-Morris-Pratt search of \<open>libs/search/kmp/scl_kmp.c\<close>. The table \<open>lps\<close> holds for every prefix of the
  pattern the length of its longest proper border. The core reports the occurrences of the pattern, the
  overlapping ones too, in increasing order.
\<close>

section \<open>The code\<close>

partial_function (option) kmp_table :: "byte list \<Rightarrow> nat \<Rightarrow> nat \<Rightarrow> nat \<Rightarrow> nat list \<Rightarrow> nat list ub" where
  [code]: "kmp_table pat plen len i lps =
     (if i < plen then do {
        x \<leftarrow> at pat i;
        y \<leftarrow> at pat len;
        if x = y then do { lps \<leftarrow> put_at lps i (len + 1); kmp_table pat plen (len + 1) (i + 1) lps }
        else if len \<noteq> 0 then do { len \<leftarrow> at lps (len - 1); kmp_table pat plen len i lps }
        else do { lps \<leftarrow> put_at lps i 0; kmp_table pat plen len (i + 1) lps }
      } else Some lps)"

partial_function (option) kmp_scan ::
    "byte list \<Rightarrow> nat \<Rightarrow> byte list \<Rightarrow> nat \<Rightarrow> nat list \<Rightarrow> 'u match_cb \<Rightarrow> nat \<Rightarrow> nat \<Rightarrow> nat \<Rightarrow> scl_error_t \<Rightarrow> 'u
     \<Rightarrow> (scl_error_t \<times> nat \<times> 'u) ub" where
  [code]: "kmp_scan text tlen pat plen lps cb i j cnt result u =
     (if i < tlen then do {
        x \<leftarrow> at pat j;
        y \<leftarrow> at text i;
        if x = y then
          let i = i + 1; j = j + 1
          in if j = plen then
               let cnt = cnt + 1; (go, u) = offer cb (i - j) u
               in if \<not> go then Some (SCL_OK, cnt, u)
                  else do { j \<leftarrow> at lps (j - 1); kmp_scan text tlen pat plen lps cb i j cnt SCL_OK u }
             else kmp_scan text tlen pat plen lps cb i j cnt result u
        else if j \<noteq> 0 then do { j \<leftarrow> at lps (j - 1); kmp_scan text tlen pat plen lps cb i j cnt result u }
        else kmp_scan text tlen pat plen lps cb (i + 1) j cnt result u
      } else Some (result, cnt, u))"

text \<open>The counter \<open>out_count\<close> is written only when the scan has run.\<close>

definition kmp_core ::
    "scl_allocator_t \<Rightarrow> byte list ptr \<Rightarrow> size_t \<Rightarrow> byte list ptr \<Rightarrow> size_t \<Rightarrow> 'u match_cb \<Rightarrow> 'u \<Rightarrow> nat ptr
     \<Rightarrow> (scl_error_t \<times> nat ptr \<times> 'u) ub" where
  "kmp_core a text tlen pat plen cb u out_count =
     (case (text, pat) of
        (Some text, Some pat) \<Rightarrow>
          if tlen = 0 then Some (SCL_ERR_EMPTY, out_count, u)
          else if plen = 0 then Some (SCL_ERR_INVALID_ARG, out_count, u)
          else if tlen < plen then Some (SCL_ERR_NOT_FOUND, out_count, u)
          else if scl_mul_overflow plen 8 = None then Some (SCL_ERR_SIZE_OVERFLOW, out_count, u)
          else (case calloc_fn a 0 plen 8 max_align of
              None \<Rightarrow> Some (SCL_ERR_OUT_OF_MEMORY, out_count, u)
            | Some b \<Rightarrow> do {
                lps \<leftarrow> kmp_table pat (unat plen) 0 1 (map unat (u64_array b));
                (result, cnt, u) \<leftarrow> kmp_scan text (unat tlen) pat (unat plen) lps cb 0 0 0 SCL_ERR_NOT_FOUND u;
                Some (result, map_option (\<lambda>_. cnt) out_count, u)
              })
      | _ \<Rightarrow> Some (SCL_ERR_NULL_PTR, out_count, u))"

definition scl_search_kmp ::
    "scl_allocator_t \<Rightarrow> byte list ptr \<Rightarrow> size_t \<Rightarrow> byte list ptr \<Rightarrow> size_t \<Rightarrow> nat ptr \<Rightarrow> (scl_error_t \<times> nat ptr) ub" where
  "scl_search_kmp a text tlen pat plen pos =
     (if pos = None then Some (SCL_ERR_NULL_PTR, pos)
      else do {
        (r, _, found) \<leftarrow> kmp_core a text tlen pat plen (Some first_cb) 0 None;
        Some (r, if r = SCL_OK then Some found else pos)
      })"

definition scl_search_kmp_all ::
    "scl_allocator_t \<Rightarrow> byte list ptr \<Rightarrow> size_t \<Rightarrow> byte list ptr \<Rightarrow> size_t \<Rightarrow> 'u match_cb \<Rightarrow> 'u \<Rightarrow> nat ptr
     \<Rightarrow> (scl_error_t \<times> nat ptr \<times> 'u) ub" where
  "scl_search_kmp_all a text tlen pat plen cb u out_count = kmp_core a text tlen pat plen cb u out_count"

section \<open>Prefixes lined up with a text\<close>

text \<open>The first \<open>k\<close> bytes of the pattern are the last \<open>k\<close> of the first \<open>i\<close> of the text.\<close>

definition lined :: "'a list \<Rightarrow> 'a list \<Rightarrow> nat \<Rightarrow> nat \<Rightarrow> bool" where
  "lined pat text k i \<longleftrightarrow> k \<le> i \<and> (\<forall>m < k. pat ! m = text ! (i - k + m))"

lemma lined_0 [simp]: "lined pat text 0 i"
  by (simp add: lined_def)

lemma lined_Suc: "lined pat text (Suc k) (Suc i) \<longleftrightarrow> lined pat text k i \<and> pat ! k = text ! i"
  by (auto simp: lined_def less_Suc_eq)

lemma lined_border:
  assumes "lined pat text j i" and "k \<le> j"
  shows "lined pat text k i \<longleftrightarrow> lined pat pat k j"
proof -
  have "pat ! (j - k + m) = text ! (i - k + m)" if "m < k" for m
  proof -
    have "j - k + m < j" using that assms(2) by simp
    moreover have "i - j + (j - k + m) = i - k + m" using assms by (simp add: lined_def)
    ultimately show ?thesis using assms(1) unfolding lined_def by metis
  qed
  then show ?thesis using assms by (auto simp: lined_def)
qed

lemma lined_occurs: "occurs_at pat text p \<longleftrightarrow> p + length pat \<le> length text \<and> lined pat text (length pat) (p + length pat)"
  by (auto simp: occurs_at_iff lined_def)

text \<open>\<open>j\<close> is lined up, and nothing longer (below a bound) can be extended by the next byte.\<close>

definition best :: "'a list \<Rightarrow> 'a list \<Rightarrow> nat \<Rightarrow> nat \<Rightarrow> nat \<Rightarrow> bool" where
  "best pat text bound j i \<longleftrightarrow> j < bound \<and> lined pat text j i \<and>
     (\<forall>k. j < k \<and> k < bound \<and> lined pat text k i \<longrightarrow> pat ! k \<noteq> text ! i)"

definition border :: "'a list \<Rightarrow> nat \<Rightarrow> nat \<Rightarrow> bool" where
  "border pat n b \<longleftrightarrow> b < n \<and> lined pat pat b n \<and> (\<forall>k. k < n \<and> lined pat pat k n \<longrightarrow> k \<le> b)"

definition lps_ok :: "'a list \<Rightarrow> nat list \<Rightarrow> nat \<Rightarrow> bool" where
  "lps_ok pat lps n \<longleftrightarrow> n \<le> length lps \<and> (\<forall>m. 0 < m \<and> m \<le> n \<longrightarrow> border pat m (lps ! (m - 1)))"

lemma lps_at:
  assumes "lps_ok pat lps n" and "0 < j" and "j \<le> n"
  shows "at lps (j - 1) = Some (lps ! (j - 1))" and "border pat j (lps ! (j - 1))"
  using assms by (auto simp: lps_ok_def)

text \<open>After a mismatch the longest border is the next candidate.\<close>

lemma best_fall:
  assumes "best pat text bound j i" and "border pat j b" and "pat ! j \<noteq> text ! i"
  shows "best pat text bound b i"
proof -
  have j: "lined pat text j i" "j < bound" using assms(1) by (simp_all add: best_def)
  have b: "b < j" "lined pat pat b j" using assms(2) by (simp_all add: border_def)
  have "pat ! k \<noteq> text ! i" if "b < k" "k < bound" "lined pat text k i" for k
  proof (cases "k < j")
    case True
    then have "lined pat pat k j" using lined_border [OF j(1), of k] that(3) by simp
    then show ?thesis using assms(2) True that(1) by (auto simp: border_def)
  next
    case False
    then show ?thesis using assms that by (cases "k = j") (auto simp: best_def)
  qed
  then show ?thesis using b j lined_border [OF j(1), of b] by (auto simp: best_def)
qed

lemma best_miss:
  assumes "best pat text bound 0 i" and "pat ! 0 \<noteq> text ! i" and "bound \<le> n"
  shows "lined pat text k (Suc i) \<Longrightarrow> k \<le> n \<Longrightarrow> k \<le> bound \<Longrightarrow> k = 0"
proof (cases k)
  case (Suc k')
  assume k: "lined pat text k (Suc i)" "k \<le> bound"
  then have "lined pat text k' i" "pat ! k' = text ! i" by (simp_all add: Suc lined_Suc)
  then show ?thesis using assms k Suc by (cases "k' = 0") (auto simp: best_def)
qed

lemma best_hit:
  assumes "best pat text bound j i" and "pat ! j = text ! i"
  shows "lined pat text (Suc j) (Suc i)"
    and "lined pat text k (Suc i) \<Longrightarrow> k \<le> bound \<Longrightarrow> k \<le> Suc j"
proof -
  show "lined pat text (Suc j) (Suc i)" using assms by (simp add: best_def lined_Suc)
  assume k: "lined pat text k (Suc i)" "k \<le> bound"
  show "k \<le> Suc j"
  proof (cases k)
    case (Suc k')
    then have "lined pat text k' i" "pat ! k' = text ! i" using k by (simp_all add: lined_Suc)
    then have "\<not> j < k'" using assms(1) k(2) Suc by (auto simp: best_def)
    then show ?thesis using Suc by simp
  qed simp
qed

section \<open>The table\<close>

lemma lps_ok_extend:
  assumes "lps_ok pat lps i" and "i < length lps" and "border pat (Suc i) b"
  shows "lps_ok pat (lps[i := b]) (Suc i)"
  using assms by (auto simp: lps_ok_def nth_list_update le_Suc_eq)

lemma border_best: "border pat i b \<Longrightarrow> best pat pat i b i"
  by (auto simp: best_def border_def)

lemma best_hit_border:
  assumes "best pat pat i len i" and "pat ! i = pat ! len"
  shows "border pat (Suc i) (Suc len)"
  using best_hit [OF assms(1)] assms by (auto simp: border_def best_def)

lemma best_miss_border:
  assumes "best pat pat i 0 i" and "pat ! i \<noteq> pat ! 0"
  shows "border pat (Suc i) 0"
  using best_miss [OF assms(1), of i] assms(2) by (auto simp: border_def)

lemma kmp_table_ok:
  assumes "lps_ok pat lps i" and "best pat pat i len i" and "i \<le> length pat" and "length lps = length pat"
  shows "yields (kmp_table pat (length pat) len i lps) (\<lambda>lps. lps_ok pat lps (length pat))"
  using assms
proof (induction "2 * (length pat - i) + len" arbitrary: len i lps rule: less_induct)
  case less
  note b = less.prems(2)
  have len: "len < i" using b by (simp add: best_def)
  show ?case
  proof (cases "i < length pat")
    case False
    then show ?thesis using less.prems by (subst kmp_table.simps) simp
  next
    case True
    have step: "yields (kmp_table pat (length pat) b (Suc i) (lps[i := b])) (\<lambda>lps. lps_ok pat lps (length pat))"
      if "border pat (Suc i) b" "b \<le> Suc len" for b
      using that less.prems True len
      by (intro less.hyps lps_ok_extend border_best) simp_all
    consider (hit) "pat ! i = pat ! len" | (fall) "pat ! i \<noteq> pat ! len" "len \<noteq> 0"
      | (miss) "pat ! i \<noteq> pat ! len" "len = 0" by blast
    then show ?thesis
    proof cases
      case hit
      then show ?thesis
        using step [OF best_hit_border [OF b hit]] less.prems(4) True len by (simp add: kmp_table.simps [of pat _ _ i])
    next
      case fall
      note l = lps_at [OF less.prems(1) _ less_imp_le [OF len]]
      have "border pat len (lps ! (len - 1))" using l fall by simp
      then have "best pat pat i (lps ! (len - 1)) i" "lps ! (len - 1) < len"
        using best_fall [OF b] fall(1) by (simp_all add: border_def)
      then have "yields (kmp_table pat (length pat) (lps ! (len - 1)) i lps) (\<lambda>lps. lps_ok pat lps (length pat))"
        using less.prems by (intro less.hyps) simp_all
      then show ?thesis
        using l fall True len by (simp add: kmp_table.simps [of pat _ len])
    next
      case miss
      then show ?thesis
        using step [OF best_miss_border] b less.prems(4) True len less_trans [OF len True]
        by (simp add: kmp_table.simps [of pat _ _ i])
    qed
  qed
qed

lemma kmp_table_start:
  assumes "pat \<noteq> []" and "lps = replicate (length pat) 0"
  shows "yields (kmp_table pat (length pat) 0 1 lps) (\<lambda>lps. lps_ok pat lps (length pat))"
proof (rule kmp_table_ok)
  have "border pat 1 0" by (simp add: border_def)
  then show "lps_ok pat lps 1" using assms by (cases pat) (auto simp: lps_ok_def le_Suc_eq [of _ 0] Suc_le_eq)
  show "best pat pat 1 0 1" by (simp add: best_def)
qed (use assms in \<open>cases pat; simp\<close>)+

section \<open>The scan\<close>

text \<open>The occurrences that end after the first \<open>i\<close> bytes.\<close>

definition later :: "'a list \<Rightarrow> 'a list \<Rightarrow> nat \<Rightarrow> nat list" where
  "later pat text i = matches_from pat text (Suc i - length pat)"

lemma later_0: "pat \<noteq> [] \<Longrightarrow> later pat text 0 = occurrences pat text"
  by (cases pat) (simp_all add: later_def matches_from_0)

lemma later_end: "later pat text (length text) = []"
  by (simp add: later_def matches_from_def)

lemma later_step:
  assumes "i < length text" and "pat \<noteq> []"
  shows "later pat text i =
    (if lined pat text (length pat) (Suc i) then [Suc i - length pat] else []) @ later pat text (Suc i)"
proof (cases "length pat \<le> Suc i")
  case True
  then have "[Suc i - length pat..<Suc (length text) - length pat]
      = (Suc i - length pat) # [Suc (Suc i) - length pat..<Suc (length text) - length pat]"
    using assms by (subst upt_conv_Cons) (simp_all add: Suc_diff_le)
  moreover have "occurs_at pat text (Suc i - length pat) \<longleftrightarrow> lined pat text (length pat) (Suc i)"
    using True assms(1) by (simp add: lined_occurs)
  ultimately show ?thesis by (simp add: later_def matches_from_def)
next
  case False
  then have "\<not> lined pat text (length pat) (Suc i)" by (simp add: lined_def)
  then show ?thesis using False by (simp add: later_def)
qed

lemma kmp_scan_ok:
  assumes "lps_ok pat lps (length pat)" and "best pat text (length pat) j i" and "i \<le> length text"
  shows "kmp_scan text (length text) pat (length pat) lps cb i j cnt result u
    = Some (scan_result cb (later pat text i) cnt result u)"
  using assms(2,3)
proof (induction "2 * (length text - i) + j" arbitrary: i j cnt result u rule: less_induct)
  case less
  note b = less.prems(1)
  have j: "j < length pat" using b by (simp add: best_def)
  then have pat: "pat \<noteq> []" by auto
  show ?case
  proof (cases "i < length text")
    case False
    then have "i = length text" using less.prems(2) by simp
    then show ?thesis by (subst kmp_scan.simps) (simp add: later_end)
  next
    case True
    note step = later_step [OF True pat]
    consider (hit) "pat ! j = text ! i" | (fall) "pat ! j \<noteq> text ! i" "j \<noteq> 0"
      | (miss) "pat ! j \<noteq> text ! i" "j = 0" by blast
    then show ?thesis
    proof cases
      case hit
      note h = best_hit [OF b hit]
      show ?thesis
      proof (cases "Suc j = length pat")
        case full: True
        note l = lps_at [OF assms(1), of "length pat"]
        have lin: "lined pat text (length pat) (Suc i)" using h(1) full by simp
        let ?b = "lps ! (length pat - 1)"
        have bd: "border pat (length pat) ?b" using l(2) pat by simp
        then have "?b < length pat" by (simp add: border_def)
        have "best pat text (length pat) ?b (Suc i)"
          using bd lined_border [OF lin] by (auto simp: best_def border_def)
        then have "kmp_scan text (length text) pat (length pat) lps cb (Suc i) ?b (cnt + 1) SCL_OK u'
            = Some (scan_result cb (later pat text (Suc i)) (cnt + 1) SCL_OK u')" for u'
          using True full \<open>?b < length pat\<close> by (intro less.hyps) simp_all
        then show ?thesis
          using l(1) True hit full lin pat j
          by (simp add: kmp_scan.simps [of _ _ _ _ _ _ i] step scan_result_Cons split: prod.split)
      next
        case False
        then have "best pat text (length pat) (Suc j) (Suc i)"
          using h j by (auto simp: best_def) (metis Suc_leI le_antisym less_imp_le linorder_not_less)
        then have "kmp_scan text (length text) pat (length pat) lps cb (Suc i) (Suc j) cnt result u
            = Some (scan_result cb (later pat text (Suc i)) cnt result u)"
          using True by (intro less.hyps) simp_all
        moreover have "\<not> lined pat text (length pat) (Suc i)" using h(2) [of "length pat"] False j by auto
        ultimately show ?thesis
          using True hit False j by (simp add: kmp_scan.simps [of _ _ _ _ _ _ i] step)
      qed
    next
      case fall
      note l = lps_at [OF assms(1), of j]
      have "border pat j (lps ! (j - 1))" using l fall j by simp
      then have "best pat text (length pat) (lps ! (j - 1)) i" "lps ! (j - 1) < j"
        using best_fall [OF b] fall(1) by (simp_all add: border_def)
      then have "kmp_scan text (length text) pat (length pat) lps cb i (lps ! (j - 1)) cnt result u
          = Some (scan_result cb (later pat text i) cnt result u)"
        using less.prems by (intro less.hyps) simp_all
      then show ?thesis
        using l fall True j by (simp add: kmp_scan.simps [of _ _ _ _ _ _ i j])
    next
      case miss
      note m = best_miss [of pat "text" "length pat" i "length pat"]
      have "best pat text (length pat) 0 (Suc i)"
        using m b miss pat by (auto simp: best_def) (metis less_imp_le not_less0)
      then have "kmp_scan text (length text) pat (length pat) lps cb (Suc i) 0 cnt result u
          = Some (scan_result cb (later pat text (Suc i)) cnt result u)"
        using True miss by (intro less.hyps) simp_all
      moreover have "\<not> lined pat text (length pat) (Suc i)" using m [of "length pat"] b miss pat by auto
      ultimately show ?thesis
        using True miss j by (simp add: kmp_scan.simps [of _ _ _ _ _ _ i] step)
    qed
  qed
qed

section \<open>The core\<close>

lemma kmp_core_ok:
  assumes a: "scl_allocator a" and "length text = unat tlen" and "length pat = unat plen"
    and "0 < plen" and "plen \<le> tlen" and mem: "calloc_fn a 0 plen 8 max_align \<noteq> None"
  shows "kmp_core a (Some text) tlen (Some pat) plen cb u out_count = Some (core_result text pat cb u out_count)"
proof -
  obtain b where b: "calloc_fn a 0 plen 8 max_align = Some b" using mem by blast
  have z: "length b = unat plen * 8" "set b \<subseteq> {0}" "unat plen * 8 < object_limit"
    using scl_allocator.calloc_block [OF a b] by (simp_all add: is_object_def)
  have ov: "scl_mul_overflow plen 8 \<noteq> None" using z(3) by (simp add: scl_mul_overflow_None)
  have pat: "pat \<noteq> []" "plen \<noteq> 0" "tlen \<noteq> 0" "\<not> tlen < plen" using assms(3-5) by auto
  have "map unat (u64_array b) = replicate (length pat) 0"
    using z assms(3) by (simp add: u64_array_zeros)
  from kmp_table_start [OF pat(1) this] obtain lps where
    l: "kmp_table pat (length pat) 0 1 (map unat (u64_array b)) = Some lps" "lps_ok pat lps (length pat)"
    by (auto simp: yields_iff)
  have "best pat text (length pat) 0 0" using pat(1) by (auto simp: best_def lined_def)
  from kmp_scan_ok [OF l(2) this, of cb 0 SCL_ERR_NOT_FOUND u]
  have "kmp_scan text (unat tlen) pat (unat plen) lps cb 0 0 0 SCL_ERR_NOT_FOUND u
      = Some (scan_result cb (occurrences pat text) 0 SCL_ERR_NOT_FOUND u)"
    using assms(2,3) pat(1) by (simp add: later_0)
  then show ?thesis
    using pat ov l(1) assms(2,3)
    by (auto simp: kmp_core_def b core_result_scan split: prod.split)
qed

lemma kmp_core_errors:
  "kmp_core a None tlen pat plen cb u oc = Some (SCL_ERR_NULL_PTR, oc, u)"
  "kmp_core a text tlen None plen cb u oc = Some (SCL_ERR_NULL_PTR, oc, u)"
  "kmp_core a (Some t) 0 (Some p) plen cb u oc = Some (SCL_ERR_EMPTY, oc, u)"
  "tlen \<noteq> 0 \<Longrightarrow> kmp_core a (Some t) tlen (Some p) 0 cb u oc = Some (SCL_ERR_INVALID_ARG, oc, u)"
  "tlen \<noteq> 0 \<Longrightarrow> plen \<noteq> 0 \<Longrightarrow> tlen < plen \<Longrightarrow> kmp_core a (Some t) tlen (Some p) plen cb u oc = Some (SCL_ERR_NOT_FOUND, oc, u)"
  "plen \<noteq> 0 \<Longrightarrow> plen \<le> tlen \<Longrightarrow> scl_mul_overflow plen 8 = Some n \<Longrightarrow> calloc_fn a 0 plen 8 max_align = None \<Longrightarrow>
     kmp_core a (Some t) tlen (Some p) plen cb u oc = Some (SCL_ERR_OUT_OF_MEMORY, oc, u)"
  by (auto simp: kmp_core_def split: option.split)

definition kmp_fits :: "scl_allocator_t \<Rightarrow> byte list \<Rightarrow> byte list \<Rightarrow> bool" where
  "kmp_fits a pat text \<longleftrightarrow> pat \<noteq> [] \<and> length pat \<le> length text \<and> length text < object_limit \<and>
     calloc_fn a 0 (of_nat (length pat)) 8 max_align \<noteq> None"

lemma kmp_first:
  assumes "scl_allocator a" and "kmp_fits a pat text"
  shows "yields (scl_search_kmp a (Some text) (of_nat (length text)) (Some pat) (of_nat (length pat)) (Some old))
    (\<lambda>r. first_match pat text r old)"
proof -
  have len: "unat (of_nat (length text) :: size_t) = length text" "unat (of_nat (length pat) :: size_t) = length pat"
    using assms(2) by (auto simp: kmp_fits_def intro!: unat_of_length)
  have "0 < (of_nat (length pat) :: size_t)" "(of_nat (length pat) :: size_t) \<le> of_nat (length text)"
    using assms(2) len by (auto simp: kmp_fits_def word_less_unat word_le_unat)
  from kmp_core_ok [OF assms(1) len(1) [symmetric] len(2) [symmetric] this, of "Some first_cb" 0 None] assms(2)
  show ?thesis
    by (simp add: scl_search_kmp_def core_result_def report_first kmp_fits_def first_match_def split: list.split)
qed

interpretation kmp: substring_search
    "\<lambda>text pat old. scl_search_kmp a (Some text) (of_nat (length text)) (Some pat) (of_nat (length pat)) (Some old)"
    "\<lambda>pat text. scl_allocator a \<and> kmp_fits a pat text" for a
  by unfold_locales (blast intro: kmp_first)

end
