(* ===== verification/Scl_Rabin_Karp.thy ===== *)
theory Scl_Rabin_Karp
  imports Scl_Match "HOL-Library.Signed_Division"
begin

text \<open>
  The Rabin-Karp search of \<open>libs/search/rabin_karp/scl_rabin_karp.c\<close>. The hash of a window is its value as
  a number to the base \<open>rk_base\<close>, modulo \<open>RK_MOD\<close>, and is rolled from one window to the next in signed 64-bit
  arithmetic. Equal windows have equal hashes, so no occurrence is missed; a comparison of the bytes rules
  out collisions.
\<close>

abbreviation RK_MOD :: "'a::numeral" where
  "RK_MOD \<equiv> 2147483647"

section \<open>The code\<close>

text \<open>The static variable \<open>rk_base\<close> is 256 until the program seeds it.\<close>

definition scl_rabin_karp_seed :: "64 word \<Rightarrow> 64 word" where
  "scl_rabin_karp_seed seed = (seed AND 0xFFFF) + 256"

definition rk_step :: "64 word \<Rightarrow> 64 word \<Rightarrow> byte \<Rightarrow> 64 word" where
  "rk_step base h c = (h * base + ucast c) mod RK_MOD"

text \<open>Signed subtraction of 64-bit values; undefined when the result does not fit.\<close>

definition int64_sub :: "int \<Rightarrow> int \<Rightarrow> int ub" where
  "int64_sub x y = (if - (2 ^ 63) \<le> x - y \<and> x - y < 2 ^ 63 then Some (x - y) else None)"

definition rk_roll :: "64 word \<Rightarrow> 64 word \<Rightarrow> 64 word \<Rightarrow> byte \<Rightarrow> byte \<Rightarrow> 64 word ub" where
  "rk_roll base h text_hash c d = do {
     diff \<leftarrow> int64_sub (sint text_hash) (sint (ucast c * h));
     let sub = diff smod RK_MOD;
     let sub = (if sub < 0 then sub + RK_MOD else sub);
     Some (rk_step base (word_of_int sub) d)
   }"

function rk_same :: "byte list \<Rightarrow> byte list \<Rightarrow> nat \<Rightarrow> nat \<Rightarrow> nat \<Rightarrow> bool ub" where
  "rk_same text pat plen i j =
     (if j < plen then do {
        x \<leftarrow> at text (i + j);
        y \<leftarrow> at pat j;
        if x \<noteq> y then Some False else rk_same text pat plen i (j + 1)
      } else Some True)"
  by pat_completeness auto
termination by (relation "measure (\<lambda>(text, pat, plen, i, j). plen - j)") auto

declare rk_same.simps [simp del]

function rk_scan ::
    "byte list \<Rightarrow> nat \<Rightarrow> byte list \<Rightarrow> nat \<Rightarrow> 64 word \<Rightarrow> 64 word \<Rightarrow> 64 word \<Rightarrow> nat \<Rightarrow> 64 word \<Rightarrow> nat option ub" where
  "rk_scan text tlen pat plen base h pat_hash i text_hash =
     (if i \<le> tlen - plen then do {
        same \<leftarrow> (if pat_hash = text_hash then rk_same text pat plen i 0 else Some False);
        if same then Some (Some i)
        else do {
          text_hash \<leftarrow> (if i < tlen - plen then do {
              c \<leftarrow> at text i;
              d \<leftarrow> at text (i + plen);
              rk_roll base h text_hash c d
            } else Some text_hash);
          rk_scan text tlen pat plen base h pat_hash (i + 1) text_hash
        }
      } else Some None)"
  by pat_completeness auto
termination by (relation "measure (\<lambda>(text, tlen, pat, plen, base, h, pat_hash, i, text_hash). Suc (tlen - plen) - i)") auto

declare rk_scan.simps [simp del]

definition scl_search_rabin_karp ::
    "64 word \<Rightarrow> byte list ptr \<Rightarrow> size_t \<Rightarrow> byte list ptr \<Rightarrow> size_t \<Rightarrow> nat ptr \<Rightarrow> (scl_error_t \<times> nat ptr) ub" where
  "scl_search_rabin_karp rk_base text tlen pat plen pos =
     (case (text, pat, pos) of
        (Some text, Some pat, Some _) \<Rightarrow>
          if tlen = 0 then Some (SCL_ERR_EMPTY, pos)
          else if plen = 0 then Some (SCL_ERR_INVALID_ARG, pos)
          else if tlen < plen then Some (SCL_ERR_NOT_FOUND, pos)
          else do {
            h \<leftarrow> for_up 0 (unat plen - 1) (\<lambda>i h. Some ((h * rk_base) mod RK_MOD)) 1;
            (pat_hash, text_hash) \<leftarrow> for_up 0 (unat plen) (\<lambda>i (ph, th). do {
              x \<leftarrow> at pat i;
              y \<leftarrow> at text i;
              Some (rk_step rk_base ph x, rk_step rk_base th y)
            }) (0, 0);
            r \<leftarrow> rk_scan text (unat tlen) pat (unat plen) rk_base h pat_hash 0 text_hash;
            Some (case r of Some i \<Rightarrow> (SCL_OK, Some i) | None \<Rightarrow> (SCL_ERR_NOT_FOUND, pos))
          }
      | _ \<Rightarrow> Some (SCL_ERR_NULL_PTR, pos))"

section \<open>The hash as a number\<close>

definition base_ok :: "64 word \<Rightarrow> bool" where
  "base_ok b \<longleftrightarrow> unat b < 2 ^ 17"

definition number :: "nat \<Rightarrow> byte list \<Rightarrow> nat" where
  "number b xs = foldl (\<lambda>h c. h * b + unat c) 0 xs"

lemma number_Nil [simp]: "number b [] = 0"
  by (simp add: number_def)

lemma number_snoc: "number b (xs @ [c]) = number b xs * b + unat c"
  by (simp add: number_def)

lemma foldl_number: "foldl (\<lambda>h c. h * b + unat c) k xs = k * b ^ length xs + foldl (\<lambda>h c. h * b + unat c) 0 xs"
  for xs :: "byte list"
proof (induction xs rule: rev_induct)
  case (snoc c xs)
  then show ?case by (simp add: algebra_simps)
qed simp

lemma number_Cons: "number b (c # xs) = unat c * b ^ length xs + number b xs"
  using foldl_number [of b "unat c" xs] by (simp add: number_def)

lemma seed_base_ok: "base_ok (scl_rabin_karp_seed seed)" "base_ok 256"
proof -
  have m: "(0xFFFF :: 64 word) = mask 16" by (simp add: mask_eq_exp_minus_1)
  have "unat (seed AND 0xFFFF) < 2 ^ 16" unfolding m
    using take_bit_nat_less_exp [of 16 "unat seed"] by (simp add: take_bit_eq_mask [symmetric] unsigned_take_bit_eq)
  then show "base_ok (scl_rabin_karp_seed seed)"
    by (simp add: base_ok_def scl_rabin_karp_seed_def) (subst unat_add_bounded, simp_all)
qed (simp add: base_ok_def)

lemma unat_ucast_byte: "unat (ucast (c :: byte) :: 64 word) = unat c" "unat (c :: byte) < 256"
  using unsigned_less [of c, where 'a = nat] by (simp_all add: unsigned_ucast_eq take_bit_nat_eq_self)

lemma unat_mod_RK: "unat (x mod RK_MOD :: 64 word) = unat x mod RK_MOD"
  by (simp add: unat_mod)

lemma rk_step_value:
  assumes "base_ok b" and "unat h < RK_MOD"
  shows "unat (rk_step b h c) = (unat h * unat b + unat c) mod RK_MOD"
proof -
  have "unat h * unat b \<le> RK_MOD * 2 ^ 17" using assms by (intro mult_le_mono) (simp_all add: base_ok_def)
  then have "unat h * unat b + unat c < 2 ^ 64" using unat_ucast_byte(2) [of c] by simp
  then show ?thesis
    by (simp add: rk_step_def unat_mod_RK unat_ucast_byte unat_word_ariths)
qed

lemma rk_step_bound: "unat (rk_step b h c) < RK_MOD"
  by (simp add: rk_step_def unat_mod_RK)

lemma mod_step: "x mod m = y mod m \<Longrightarrow> (x * b + c) mod m = (y * b + c) mod (m::nat)"
  by (metis mod_add_left_eq mod_mult_left_eq)

definition hash_of :: "64 word \<Rightarrow> byte list \<Rightarrow> 64 word \<Rightarrow> bool" where
  "hash_of b xs h \<longleftrightarrow> unat h = number (unat b) xs mod RK_MOD"

lemma hash_of_unique: "hash_of b xs h \<Longrightarrow> hash_of b xs k \<Longrightarrow> h = k"
  by (simp add: hash_of_def word_unat_eq_iff)

lemma hash_of_bound: "hash_of b xs h \<Longrightarrow> unat h < RK_MOD"
  by (simp add: hash_of_def)

lemma rk_step_hash:
  assumes "base_ok b" and "hash_of b xs h"
  shows "hash_of b (xs @ [c]) (rk_step b h c)"
  using assms rk_step_value [OF assms(1) hash_of_bound [OF assms(2)]]
    mod_step [of "unat h" RK_MOD "number (unat b) xs"]
  by (simp add: hash_of_def number_snoc)

text \<open>Rolling the hash removes the first byte of the window and appends the next one.\<close>

lemma smod_fix:
  fixes x m :: int
  assumes "0 < m"
  shows "(let sub = x smod m in if sub < 0 then sub + m else sub) = x mod m"
proof (cases "0 \<le> x")
  case True
  then have "x smod m = x mod m" using assms by (cases "x = 0") (simp_all add: smod_int_alt_def)
  then show ?thesis using assms by (simp add: Let_def not_less)
next
  case False
  then have s: "x smod m = - ((- x) mod m)" using assms by (simp add: smod_int_alt_def)
  have nn: "0 \<le> (- x) mod m" using assms by simp
  have "x mod m = (if (- x) mod m = 0 then 0 else m - (- x) mod m)"
    using zmod_zminus1_eq_if [of "- x" m] by simp
  then show ?thesis using nn by (simp add: s Let_def)
qed

lemma sint_small:
  assumes "unat (x :: 64 word) < 2 ^ 63"
  shows "sint x = int (unat x)"
proof -
  have "int (unat x) < int (2 ^ 63)" using assms by (simp only: of_nat_less_iff)
  then have "uint x < 2 ^ 63" by simp
  moreover have "- (2 ^ 63) \<le> uint x" using uint_ge_0 [of x] by (metis order_trans neg_le_0_iff_le zero_le_numeral zero_le_power)
  ultimately have "signed_take_bit 63 (uint x) = uint x" by (intro signed_take_bit_int_eq_self)
  then show ?thesis by (simp add: sint_uint)
qed

lemma int64_sub_nat: "m < 2 ^ 63 \<Longrightarrow> n < 2 ^ 63 \<Longrightarrow> int64_sub (int m) (int n) = Some (int m - int n)"
  by (simp add: int64_sub_def)

lemma rk_roll_hash:
  assumes b: "base_ok b" and h: "unat h = unat b ^ length w mod RK_MOD" and th: "hash_of b (c # w) th"
  shows "yields (rk_roll b h th c d) (hash_of b (w @ [d]))"
proof -
  let ?M = "RK_MOD :: nat"
  have hb: "unat h < ?M" and tb: "unat th < ?M" using h hash_of_bound [OF th] by simp_all
  have prod: "unat c * unat h \<le> 256 * ?M" using unat_ucast_byte(2) [of c] hb by (intro mult_le_mono) simp_all
  have u: "unat (ucast c * h :: 64 word) = unat c * unat h"
    using prod by (simp add: unat_word_ariths unat_ucast_byte)
  have s: "sint (ucast c * h :: 64 word) = int (unat c * unat h)" "sint th = int (unat th)"
    using prod tb by (simp_all add: sint_small u)
  have d: "int64_sub (sint th) (sint (ucast c * h :: 64 word)) = Some (int (unat th) - int (unat c * unat h))"
    unfolding s using prod tb by (intro int64_sub_nat) simp_all
  let ?k = "number (unat b) w mod ?M"
  have "int (unat th) mod RK_MOD = int (number (unat b) (c # w)) mod RK_MOD"
    using th by (simp add: hash_of_def zmod_int)
  moreover have "int (unat c * unat h) mod RK_MOD = int (unat c * unat b ^ length w) mod RK_MOD"
    using h by (simp add: zmod_int mod_mult_right_eq)
  ultimately have "(int (unat th) - int (unat c * unat h)) mod RK_MOD
      = (int (number (unat b) (c # w)) - int (unat c * unat b ^ length w)) mod RK_MOD"
    by (rule mod_diff_cong)
  also have "\<dots> = int ?k" by (simp add: number_Cons zmod_int)
  finally have k: "(int (unat th) - int (unat c * unat h)) mod RK_MOD = int ?k" .
  have "?k < ?M" by simp
  have f: "(let sub = (int (unat th) - int (unat c * unat h)) smod RK_MOD in if sub < 0 then sub + RK_MOD else sub) = int ?k"
    unfolding k [symmetric] by (rule smod_fix) simp
  have "unat (word_of_int (int ?k) :: 64 word) = ?k"
    using \<open>?k < ?M\<close> by (simp add: unat_of_nat)
  then have "hash_of b w (word_of_int (int ?k))" by (simp add: hash_of_def)
  from rk_step_hash [OF b this, of d] show ?thesis
    using f by (simp add: rk_roll_def d Let_def)
qed

section \<open>The search\<close>

lemma rk_same_eq:
  assumes "i + length pat \<le> length text" and "j \<le> length pat"
  shows "rk_same text pat (length pat) i j = Some (\<forall>m. j \<le> m \<and> m < length pat \<longrightarrow> text ! (i + m) = pat ! m)"
  using assms
proof (induction "length pat - j" arbitrary: j)
  case 0
  then show ?case by (subst rk_same.simps) auto
next
  case (Suc n)
  have ih: "rk_same text pat (length pat) i (Suc j) = Some (\<forall>m. Suc j \<le> m \<and> m < length pat \<longrightarrow> text ! (i + m) = pat ! m)"
    using Suc by (intro Suc.hyps(1)) simp_all
  show ?case
  proof (cases "text ! (i + j) = pat ! j")
    case True
    then have "(\<forall>m. Suc j \<le> m \<and> m < length pat \<longrightarrow> text ! (i + m) = pat ! m) \<longleftrightarrow>
        (\<forall>m. j \<le> m \<and> m < length pat \<longrightarrow> text ! (i + m) = pat ! m)"
      by (metis Suc_leD le_neq_implies_less Suc_leI)
    moreover have "j < length pat" using Suc.hyps(2) by simp
    ultimately show ?thesis using Suc.prems ih True by (subst rk_same.simps) simp
  next
    case False
    then show ?thesis using Suc by (subst rk_same.simps) auto
  qed
qed

lemma rk_same_occurs:
  "i + length pat \<le> length text \<Longrightarrow> rk_same text pat (length pat) i 0 = Some (occurs_at pat text i)"
  by (simp add: rk_same_eq occurs_at_iff)

definition window :: "'a list \<Rightarrow> nat \<Rightarrow> nat \<Rightarrow> 'a list" where
  "window text n i = take n (drop i text)"

lemma window_next:
  assumes "i + n < length text" and "0 < n"
  obtains w where "window text n i = text ! i # w" "window text n (Suc i) = w @ [text ! (i + n)]" "length w = n - 1"
proof
  let ?w = "take (n - 1) (drop (Suc i) text)"
  have "drop i text = text ! i # drop (Suc i) text" using assms by (simp add: Cons_nth_drop_Suc)
  then show "window text n i = text ! i # ?w" using assms(2) by (cases n) (simp_all add: window_def)
  have "window text n (Suc i) = take (Suc (n - 1)) (drop (Suc i) text)" using assms(2) by (simp add: window_def)
  also have "\<dots> = ?w @ [drop (Suc i) text ! (n - 1)]" using assms by (intro take_Suc_conv_app_nth) simp
  finally show "window text n (Suc i) = ?w @ [text ! (i + n)]" using assms by simp
  show "length ?w = n - 1" using assms by simp
qed

definition found_from :: "byte list \<Rightarrow> byte list \<Rightarrow> nat \<Rightarrow> nat option" where
  "found_from pat text i =
     (case matches_from pat text i of [] \<Rightarrow> None | p # _ \<Rightarrow> Some p)"

lemma rk_scan_ok:
  assumes b: "base_ok b" and pat: "0 < length pat" "length pat \<le> length text"
    and h: "unat h = unat b ^ (length pat - 1) mod RK_MOD" and ph: "hash_of b pat ph"
    and "i \<le> length text - length pat \<Longrightarrow> hash_of b (window text (length pat) i) th"
  shows "rk_scan text (length text) pat (length pat) b h ph i th = Some (found_from pat text i)"
  using assms(6)
proof (induction "Suc (length text - length pat) - i" arbitrary: i th)
  case 0
  then have "\<not> i \<le> length text - length pat" by simp
  then show ?case using pat by (subst rk_scan.simps) (simp add: found_from_def matches_from_end)
next
  case (Suc n)
  then have i: "i \<le> length text - length pat" by simp
  then have il: "i + length pat \<le> length text" using pat by simp
  have th: "hash_of b (window text (length pat) i) th" using Suc.prems i by simp
  have same: "(if ph = th then rk_same text pat (length pat) i 0 else Some False) = Some (occurs_at pat text i)"
  proof (cases "occurs_at pat text i")
    case True
    then have "window text (length pat) i = pat" by (simp add: occurs_at_def window_def)
    then have "ph = th" using hash_of_unique [OF ph] th by simp
    then show ?thesis by (simp add: rk_same_occurs [OF il])
  qed (simp add: rk_same_occurs [OF il])
  show ?case
  proof (cases "occurs_at pat text i")
    case True
    then show ?thesis using i same by (subst rk_scan.simps) (simp add: found_from_def matches_from_hit)
  next
    case False
    then have ff: "found_from pat text i = found_from pat text (Suc i)" using matches_from_skip [of i "Suc i" pat "text"] by (simp add: found_from_def le_less_Suc_eq)
    show ?thesis
    proof (cases "i < length text - length pat")
      case True
      then have lt: "i + length pat < length text" by simp
      obtain w where w: "window text (length pat) i = text ! i # w"
        "window text (length pat) (Suc i) = w @ [text ! (i + length pat)]" "length w = length pat - 1"
        by (rule window_next [OF lt pat(1)])
      obtain th' where th': "rk_roll b h th (text ! i) (text ! (i + length pat)) = Some th'"
        "hash_of b (window text (length pat) (Suc i)) th'"
        using rk_roll_hash [OF b, of h w "text ! i" th] h th w by (auto simp: yields_iff)
      have "rk_scan text (length text) pat (length pat) b h ph (Suc i) th' = Some (found_from pat text (Suc i))"
        using Suc.hyps th'(2) by (intro Suc.hyps(1)) simp_all
      then show ?thesis using False same i lt th'(1) ff True by (subst rk_scan.simps) simp
    next
      case last: False
      have "rk_scan text (length text) pat (length pat) b h ph (Suc i) th = Some (found_from pat text (Suc i))"
        using Suc.hyps last by (intro Suc.hyps(1)) simp_all
      then show ?thesis using False same i ff last by (subst rk_scan.simps) simp
    qed
  qed
qed

lemma rk_power:
  assumes "base_ok b"
  shows "yields (for_up 0 n (\<lambda>i h. Some ((h * b) mod RK_MOD)) 1) (\<lambda>h. unat h = unat b ^ n mod RK_MOD)"
proof (rule for_up_inv [where I = "\<lambda>i h. unat h = unat b ^ i mod RK_MOD"])
  fix i and h :: "64 word" assume h: "unat h = unat b ^ i mod RK_MOD"
  have "unat h * unat b \<le> RK_MOD * 2 ^ 17" using h assms by (intro mult_le_mono) (simp_all add: base_ok_def)
  then have "unat (h * b mod RK_MOD) = (unat h * unat b) mod RK_MOD" by (simp add: unat_mod_RK unat_word_ariths)
  then show "yields (Some (h * b mod RK_MOD)) (\<lambda>h. unat h = unat b ^ Suc i mod RK_MOD)"
    using h by (simp add: mod_mult_right_eq mult.commute)
qed simp_all

lemma rk_hashes:
  assumes "base_ok b" and "length pat \<le> length text"
  shows "yields (for_up 0 (length pat) (\<lambda>i (ph, th). do {
      x \<leftarrow> at pat i; y \<leftarrow> at text i; Some (rk_step b ph x, rk_step b th y) }) (0, 0))
    (\<lambda>(ph, th). hash_of b pat ph \<and> hash_of b (window text (length pat) 0) th)"
proof (rule for_up_rule [where I = "\<lambda>i (ph, th). hash_of b (take i pat) ph \<and> hash_of b (take i text) th"])
  fix i s assume i: "i < length pat" and s: "case s of (ph, th) \<Rightarrow> hash_of b (take i pat) ph \<and> hash_of b (take i text) th"
  obtain ph th where [simp]: "s = (ph, th)" by (cases s)
  have "hash_of b (take (Suc i) pat) (rk_step b ph (pat ! i))" "hash_of b (take (Suc i) text) (rk_step b th (text ! i))"
    using s i assms rk_step_hash [OF assms(1)] by (simp_all add: take_Suc_conv_app_nth)
  then show "yields (case s of (ph, th) \<Rightarrow> do { x \<leftarrow> at pat i; y \<leftarrow> at text i; Some (rk_step b ph x, rk_step b th y) })
    (\<lambda>(ph, th). hash_of b (take (Suc i) pat) ph \<and> hash_of b (take (Suc i) text) th)"
    using i assms(2) by simp
qed (auto simp: hash_of_def window_def)

definition rk_fits :: "64 word \<Rightarrow> byte list \<Rightarrow> byte list \<Rightarrow> bool" where
  "rk_fits b pat text \<longleftrightarrow> base_ok b \<and> pat \<noteq> [] \<and> length pat \<le> length text \<and> length text < object_limit"

lemma rk_first:
  assumes "rk_fits b pat text"
  shows "yields (scl_search_rabin_karp b (Some text) (of_nat (length text)) (Some pat) (of_nat (length pat)) (Some old))
    (\<lambda>r. first_match pat text r old)"
proof -
  have b: "base_ok b" "0 < length pat" "length pat \<le> length text" using assms by (simp_all add: rk_fits_def)
  have len: "unat (of_nat (length text) :: size_t) = length text" "unat (of_nat (length pat) :: size_t) = length pat"
    using assms by (auto simp: rk_fits_def unat_of_nat)
  then have c: "(of_nat (length text) :: size_t) \<noteq> 0" "(of_nat (length pat) :: size_t) \<noteq> 0"
    "\<not> (of_nat (length text) :: size_t) < of_nat (length pat)"
    using b by (auto simp: word_less_unat simp flip: unat_eq_0_iff simp del: unat_eq_0_iff)
  obtain h where h: "for_up 0 (length pat - 1) (\<lambda>i h. Some ((h * b) mod RK_MOD)) 1 = Some h"
    "unat h = unat b ^ (length pat - 1) mod RK_MOD"
    using rk_power [OF b(1)] by (auto simp: yields_iff)
  obtain ph th where p: "for_up 0 (length pat) (\<lambda>i (ph, th). do {
      x \<leftarrow> at pat i; y \<leftarrow> at text i; Some (rk_step b ph x, rk_step b th y) }) (0, 0) = Some (ph, th)"
    "hash_of b pat ph" "hash_of b (window text (length pat) 0) th"
    using rk_hashes [OF b(1,3)] by auto
  have "rk_scan text (length text) pat (length pat) b h ph 0 th = Some (found_from pat text 0)"
    using p by (intro rk_scan_ok b h(2)) simp_all
  then show ?thesis
    using c h(1) p(1)
    by (simp add: scl_search_rabin_karp_def len first_match_def found_from_def matches_from_0 split: list.split)
qed

interpretation rabin_karp: substring_search
    "\<lambda>text pat old. scl_search_rabin_karp b (Some text) (of_nat (length text)) (Some pat) (of_nat (length pat)) (Some old)"
    "rk_fits b" for b
  by unfold_locales (rule rk_first)

end
