(* ===== verification/Scl_Boyer_Moore.thy ===== *)
theory Scl_Boyer_Moore
  imports Scl_Match
begin

text \<open>
  The Boyer-Moore search of \<open>libs/search/boyer_moore/scl_boyer_moore.c\<close>, with the bad-character table and the
  good-suffix table built through the table \<open>suffix\<close> of common suffixes. Indices that the code keeps in \<open>int\<close>
  are integers, and an access with a negative index is undefined. For patterns of two or more bytes the
  search reports exactly the occurrences; for a single byte the last loop of the table construction runs to
  \<open>plen - 2\<close>, which wraps, and stores in front of the table.
\<close>

section \<open>The code\<close>

definition at_int :: "'a list \<Rightarrow> int \<Rightarrow> 'a ub" where
  "at_int xs i = (if 0 \<le> i then at xs (nat i) else None)"

definition put_int :: "'a list \<Rightarrow> int \<Rightarrow> 'a \<Rightarrow> 'a list ub" where
  "put_int xs i v = (if 0 \<le> i then put_at xs (nat i) v else None)"

definition bm_bad_char :: "byte list \<Rightarrow> nat \<Rightarrow> int list ub" where
  "bm_bad_char pat plen =
     for_up 0 (plen - 1) (\<lambda>i tab. do { c \<leftarrow> at pat i; put_at tab (unat c) (int plen - 1 - int i) })
       (replicate 256 (int plen))"

function bm_slide :: "byte list \<Rightarrow> int \<Rightarrow> int \<Rightarrow> int \<Rightarrow> int ub" where
  "bm_slide pat plen f g =
     (if 0 \<le> g then do {
        x \<leftarrow> at_int pat g;
        y \<leftarrow> at_int pat (plen - 1 - f + g);
        if x = y then bm_slide pat plen f (g - 1) else Some g
      } else Some g)"
  by pat_completeness auto
termination by (relation "measure (\<lambda>(pat, plen, f, g). nat (g + 1))") auto

declare bm_slide.simps [simp del]

text \<open>The \<open>else\<close> branch of the loop over \<open>i\<close>, and the loop body.\<close>

definition bm_suffix_slide :: "byte list \<Rightarrow> int \<Rightarrow> int \<Rightarrow> int \<times> int \<times> int list \<Rightarrow> (int \<times> int \<times> int list) ub" where
  "bm_suffix_slide pat plen i = (\<lambda>(g, f, suffix). do {
     let g = (if i < g then i else g);
     let f = i;
     g \<leftarrow> bm_slide pat plen f g;
     suffix \<leftarrow> put_int suffix i (f - g);
     Some (g, f, suffix)
   })"

definition bm_suffix_step :: "byte list \<Rightarrow> int \<Rightarrow> int \<Rightarrow> int \<times> int \<times> int list \<Rightarrow> (int \<times> int \<times> int list) ub" where
  "bm_suffix_step pat plen i = (\<lambda>(g, f, suffix).
     if g < i then do {
       k \<leftarrow> at_int suffix (plen - 1 - f + i);
       if k < i - g then do { suffix \<leftarrow> put_int suffix i k; Some (g, f, suffix) }
       else bm_suffix_slide pat plen i (g, f, suffix)
     } else bm_suffix_slide pat plen i (g, f, suffix))"

definition bm_suffixes :: "byte list \<Rightarrow> nat \<Rightarrow> int list \<Rightarrow> int list ub" where
  "bm_suffixes pat plen suffix = do {
     suffix \<leftarrow> put_at suffix (plen - 1) (int plen);
     (g, f, suffix) \<leftarrow> for_down (plen - 1) (\<lambda>k. bm_suffix_step pat (int plen) (int k - 1))
        (int plen - 1, int plen - 1, suffix);
     Some suffix
   }"

text \<open>A border \<open>pat[0..i]\<close> of the pattern allows the shift \<open>plen - 1 - i\<close> wherever no smaller one is known.\<close>

definition bm_border_fill :: "nat \<Rightarrow> nat \<Rightarrow> int list \<Rightarrow> int list ub" where
  "bm_border_fill plen i gs =
     for_up 0 (plen - 1 - i) (\<lambda>j gs. do {
       v \<leftarrow> at gs j;
       if v = int plen then put_at gs j (int plen - 1 - int i) else Some gs
     }) gs"

definition bm_good_suffix :: "size_t \<Rightarrow> int list \<Rightarrow> int list \<Rightarrow> int list ub" where
  "bm_good_suffix plen suffix gs = do {
     let n = unat plen;
     gs \<leftarrow> for_up 0 (n + 1) (\<lambda>i gs. put_at gs i (int n)) gs;
     gs \<leftarrow> for_down n (\<lambda>k gs. do {
        s \<leftarrow> at suffix (k - 1);
        if s = int k then bm_border_fill n (k - 1) gs else Some gs
      }) gs;
     for_up 0 (Suc (unat (plen - 2))) (\<lambda>i gs. do {
        s \<leftarrow> at suffix i;
        put_int gs (int n - 1 - s) (int n - 1 - int i)
      }) gs
   }"

function bm_compare :: "byte list \<Rightarrow> byte list \<Rightarrow> nat \<Rightarrow> int \<Rightarrow> int ub" where
  "bm_compare text pat i j =
     (if 0 \<le> j then do {
        x \<leftarrow> at_int pat j;
        y \<leftarrow> at_int text (int i + j);
        if x = y then bm_compare text pat i (j - 1) else Some j
      } else Some j)"
  by pat_completeness auto
termination by (relation "measure (\<lambda>(text, pat, i, j). nat (j + 1))") auto

declare bm_compare.simps [simp del]

definition bm_shift :: "byte list \<Rightarrow> nat \<Rightarrow> int list \<Rightarrow> int list \<Rightarrow> nat \<Rightarrow> int \<Rightarrow> nat ub" where
  "bm_shift text plen bad_char gs i j = do {
     c \<leftarrow> at_int text (int i + j);
     b \<leftarrow> at bad_char (unat c);
     let shift_bc = b - (int plen - 1 - j);
     let shift_bc = (if shift_bc < 1 then 1 else shift_bc);
     shift_gs \<leftarrow> at_int gs j;
     Some (if shift_gs < shift_bc then nat shift_bc else nat shift_gs)
   }"

partial_function (option) bm_scan ::
    "byte list \<Rightarrow> nat \<Rightarrow> byte list \<Rightarrow> nat \<Rightarrow> int list \<Rightarrow> int list \<Rightarrow> int \<Rightarrow> 'u match_cb \<Rightarrow> nat \<Rightarrow> nat \<Rightarrow> scl_error_t \<Rightarrow> 'u
     \<Rightarrow> (scl_error_t \<times> nat \<times> 'u) ub" where
  [code]: "bm_scan text tlen pat plen bad_char gs match_shift cb i cnt result u =
     (if i \<le> tlen - plen then do {
        j \<leftarrow> bm_compare text pat i (int plen - 1);
        if j < 0 then
          let cnt = cnt + 1; (go, u) = offer cb i u
          in if \<not> go then Some (SCL_OK, cnt, u)
             else bm_scan text tlen pat plen bad_char gs match_shift cb (i + nat match_shift) cnt SCL_OK u
        else do {
          shift \<leftarrow> bm_shift text plen bad_char gs i j;
          bm_scan text tlen pat plen bad_char gs match_shift cb (i + shift) cnt result u
        }
      } else Some (result, cnt, u))"

definition bm_core ::
    "scl_allocator_t \<Rightarrow> byte list ptr \<Rightarrow> size_t \<Rightarrow> byte list ptr \<Rightarrow> size_t \<Rightarrow> 'u match_cb \<Rightarrow> 'u \<Rightarrow> nat ptr
     \<Rightarrow> (scl_error_t \<times> nat ptr \<times> 'u) ub" where
  "bm_core a text tlen pat plen cb u out_count =
     (case (text, pat) of
        (Some text, Some pat) \<Rightarrow>
          if tlen = 0 then Some (SCL_ERR_EMPTY, out_count, u)
          else if plen = 0 then Some (SCL_ERR_INVALID_ARG, out_count, u)
          else if 0x7FFFFFFF < plen then Some (SCL_ERR_SIZE_OVERFLOW, out_count, u)
          else if tlen < plen then Some (SCL_ERR_NOT_FOUND, out_count, u)
          else do {
            bad_char \<leftarrow> bm_bad_char pat (unat plen);
            (case scl_mul_overflow (plen + 1) 4 of
               None \<Rightarrow> Some (SCL_ERR_SIZE_OVERFLOW, out_count, u)
             | Some tbytes \<Rightarrow>
                 (case (malloc_fn a 0 tbytes max_align, malloc_fn a 1 tbytes max_align) of
                    (Some s, Some g) \<Rightarrow> do {
                      suffix \<leftarrow> bm_suffixes pat (unat plen) (map sint (i32_array s));
                      gs \<leftarrow> bm_good_suffix plen suffix (map sint (i32_array g));
                      g0 \<leftarrow> at gs 0;
                      let match_shift = (if g0 < 1 then 1 else g0);
                      (result, cnt, u) \<leftarrow>
                        bm_scan text (unat tlen) pat (unat plen) bad_char gs match_shift cb 0 0 SCL_ERR_NOT_FOUND u;
                      Some (result, map_option (\<lambda>_. cnt) out_count, u)
                    }
                  | _ \<Rightarrow> Some (SCL_ERR_OUT_OF_MEMORY, out_count, u)))
          }
      | _ \<Rightarrow> Some (SCL_ERR_NULL_PTR, out_count, u))"

definition scl_search_boyer_moore ::
    "scl_allocator_t \<Rightarrow> byte list ptr \<Rightarrow> size_t \<Rightarrow> byte list ptr \<Rightarrow> size_t \<Rightarrow> nat ptr
     \<Rightarrow> (scl_error_t \<times> nat ptr) ub" where
  "scl_search_boyer_moore a text tlen pat plen pos =
     (if pos = None then Some (SCL_ERR_NULL_PTR, pos)
      else do {
        (r, _, found) \<leftarrow> bm_core a text tlen pat plen (Some first_cb) 0 None;
        Some (r, if r = SCL_OK then Some found else pos)
      })"

definition scl_search_boyer_moore_all ::
    "scl_allocator_t \<Rightarrow> byte list ptr \<Rightarrow> size_t \<Rightarrow> byte list ptr \<Rightarrow> size_t \<Rightarrow> 'u match_cb \<Rightarrow> 'u \<Rightarrow> nat ptr
     \<Rightarrow> (scl_error_t \<times> nat ptr \<times> 'u) ub" where
  "scl_search_boyer_moore_all a text tlen pat plen cb u out_count = bm_core a text tlen pat plen cb u out_count"

section \<open>Common suffixes\<close>

text \<open>The longest common suffix of the pattern and its prefix that ends at \<open>i\<close> has \<open>k\<close> bytes.\<close>

definition common :: "'a list \<Rightarrow> int \<Rightarrow> int \<Rightarrow> bool" where
  "common pat i k \<longleftrightarrow> 0 \<le> k \<and> k \<le> i + 1 \<and>
     (\<forall>m. 0 \<le> m \<and> m < k \<longrightarrow> pat ! nat (i - m) = pat ! nat (int (length pat) - 1 - m)) \<and>
     (k \<le> i \<longrightarrow> pat ! nat (i - k) \<noteq> pat ! nat (int (length pat) - 1 - k))"

lemma common_unique:
  assumes "common pat i k" and "common pat i l"
  shows "k = l"
proof (rule ccontr)
  have less: False if "common pat i k" "common pat i l" "k < l" for k l
  proof -
    have "k \<le> i" "0 \<le> k" using that by (auto simp: common_def)
    then show False using that unfolding common_def by metis
  qed
  assume "k \<noteq> l"
  then show False using less assms by (metis linorder_neqE_linordered_idom)
qed

lemma at_int_in [simp]: "0 \<le> i \<Longrightarrow> i < int (length xs) \<Longrightarrow> at_int xs i = Some (xs ! nat i)"
  by (simp add: at_int_def nat_less_iff)

lemma put_int_in [simp]: "0 \<le> i \<Longrightarrow> i < int (length xs) \<Longrightarrow> put_int xs i v = Some (xs[nat i := v])"
  by (simp add: put_int_def nat_less_iff)

text \<open>The bytes in \<open>(g, f]\<close> match the end of the pattern, and the one at \<open>g\<close> does not.\<close>

definition window :: "'a list \<Rightarrow> int \<Rightarrow> int \<Rightarrow> bool" where
  "window pat g f \<longleftrightarrow> - 1 \<le> g \<and> g \<le> f \<and> f < int (length pat) \<and>
     (\<forall>x. g < x \<and> x \<le> f \<longrightarrow> pat ! nat x = pat ! nat (int (length pat) - 1 - f + x)) \<and>
     (0 \<le> g \<longrightarrow> pat ! nat g \<noteq> pat ! nat (int (length pat) - 1 - f + g))"

lemma window_common:
  assumes "window pat g f"
  shows "common pat f (f - g)"
  unfolding common_def
proof (intro conjI allI impI)
  let ?n = "int (length pat)"
  show "pat ! nat (f - m) = pat ! nat (?n - 1 - m)" if "0 \<le> m \<and> m < f - g" for m
  proof -
    have "pat ! nat (f - m) = pat ! nat (?n - 1 - f + (f - m))"
      using assms that by (simp add: window_def)
    also have "?n - 1 - f + (f - m) = ?n - 1 - m" by simp
    finally show ?thesis .
  qed
  have e: "?n - 1 - (f - g) = ?n - 1 - f + g" "f - (f - g) = g" by simp_all
  show "pat ! nat (f - (f - g)) \<noteq> pat ! nat (?n - 1 - (f - g))" if "f - g \<le> f"
    using assms that unfolding e by (simp add: window_def)
qed (use assms in \<open>auto simp: window_def\<close>)

lemma bm_slide_ok:
  assumes "- 1 \<le> g" and "g \<le> f" and "f < int (length pat)"
    and "\<forall>x. g < x \<and> x \<le> f \<longrightarrow> pat ! nat x = pat ! nat (int (length pat) - 1 - f + x)"
  shows "yields (bm_slide pat (int (length pat)) f g) (\<lambda>g'. g' \<le> g \<and> window pat g' f)"
  using assms(1,2,4)
proof (induction "nat (g + 1)" arbitrary: g)
  case 0
  then have "g = - 1" by simp
  then show ?case using 0 assms(3) by (subst bm_slide.simps) (simp add: window_def)
next
  case (Suc k)
  then have g: "0 \<le> g" by simp
  let ?y = "int (length pat) - 1 - f + g"
  have in_range: "g < int (length pat)" "0 \<le> ?y" "?y < int (length pat)" using Suc.prems g assms(3) by simp_all
  show ?case
  proof (cases "pat ! nat g = pat ! nat ?y")
    case True
    have "yields (bm_slide pat (int (length pat)) f (g - 1)) (\<lambda>g'. g' \<le> g - 1 \<and> window pat g' f)"
    proof (rule Suc.hyps(1))
      show "\<forall>x. g - 1 < x \<and> x \<le> f \<longrightarrow> pat ! nat x = pat ! nat (int (length pat) - 1 - f + x)"
      proof (intro allI impI)
        fix x assume "g - 1 < x \<and> x \<le> f"
        then have "x = g \<or> g < x \<and> x \<le> f" by linarith
        then show "pat ! nat x = pat ! nat (int (length pat) - 1 - f + x)" using True Suc.prems(3) by blast
      qed
    qed (use Suc g in simp_all)
    then have "yields (bm_slide pat (int (length pat)) f (g - 1)) (\<lambda>g'. g' \<le> g \<and> window pat g' f)"
      by (rule yields_mono) simp
    then show ?thesis using g in_range True by (subst bm_slide.simps) simp
  next
    case False
    then have "window pat g f" using Suc.prems assms(3) by (simp add: window_def)
    then show ?thesis using g in_range False by (subst bm_slide.simps) simp
  qed
qed

definition suffix_ok :: "'a list \<Rightarrow> int list \<Rightarrow> int \<Rightarrow> bool" where
  "suffix_ok pat suf i \<longleftrightarrow> length pat \<le> length suf \<and>
     (\<forall>x. i < x \<and> 0 \<le> x \<and> x < int (length pat) \<longrightarrow> common pat x (suf ! nat x))"

lemma suffix_ok_put:
  assumes "suffix_ok pat suf i" and "0 \<le> i" and "i < int (length pat)" and "common pat i k"
  shows "suffix_ok pat (suf[nat i := k]) (i - 1)"
  unfolding suffix_ok_def
proof (intro conjI allI impI)
  fix x assume x: "i - 1 < x \<and> 0 \<le> x \<and> x < int (length pat)"
  then have "x = i \<or> i < x" by linarith
  then show "common pat x (suf[nat i := k] ! nat x)"
  proof
    assume "x = i"
    then show ?thesis using assms by (simp add: suffix_ok_def nat_less_iff)
  next
    assume "i < x"
    then have "nat x \<noteq> nat i" using assms(2) by simp
    then show ?thesis using assms(1) x \<open>i < x\<close> by (simp add: suffix_ok_def)
  qed
qed (use assms in \<open>simp add: suffix_ok_def\<close>)

definition suffix_inv :: "'a list \<Rightarrow> int \<Rightarrow> int \<times> int \<times> int list \<Rightarrow> bool" where
  "suffix_inv pat i = (\<lambda>(g, f, suf). suffix_ok pat suf i \<and>
     (i \<le> g \<and> g < int (length pat) \<or> window pat g f \<and> i < f \<and> f \<le> int (length pat) - 2))"

lemma bm_suffix_slide_ok:
  assumes "suffix_ok pat suf i" and "0 \<le> i" and "i \<le> int (length pat) - 2"
    and "i \<le> g \<or> - 1 \<le> g \<and> (\<forall>x. g < x \<and> x \<le> i \<longrightarrow> pat ! nat x = pat ! nat (int (length pat) - 1 - i + x))"
  shows "yields (bm_suffix_slide pat (int (length pat)) i (g, f, suf)) (suffix_inv pat (i - 1))"
proof -
  let ?g = "if i < g then i else g"
  have "yields (bm_slide pat (int (length pat)) i ?g) (\<lambda>g'. g' \<le> ?g \<and> window pat g' i)"
    using assms by (intro bm_slide_ok) (auto split: if_splits)
  then obtain g' where g': "bm_slide pat (int (length pat)) i ?g = Some g'" "window pat g' i"
    by (auto simp: yields_iff)
  have "i < int (length suf)" using assms(1,3) by (simp add: suffix_ok_def)
  moreover have "suffix_ok pat (suf[nat i := i - g']) (i - 1)"
    using assms g'(2) by (intro suffix_ok_put window_common) simp_all
  ultimately show ?thesis
    using g' assms(2,3) by (simp add: bm_suffix_slide_def suffix_inv_def Let_def)
qed

lemma window_copy:
  assumes w: "window pat g f" and i: "g < i" "i < f"
    and c: "common pat (int (length pat) - 1 - f + i) k"
  shows "k < i - g \<Longrightarrow> common pat i k"
    and "i - g \<le> k \<Longrightarrow> g < x \<Longrightarrow> x \<le> i \<Longrightarrow> pat ! nat x = pat ! nat (int (length pat) - 1 - i + x)"
proof -
  let ?n = "int (length pat)" and ?y = "int (length pat) - 1 - f + i"
  have win: "pat ! nat (i - m) = pat ! nat (?y - m)" if "0 \<le> m" "m < i - g" for m
  proof -
    have "pat ! nat (i - m) = pat ! nat (?n - 1 - f + (i - m))" using w that i by (simp add: window_def)
    also have "?n - 1 - f + (i - m) = ?y - m" by simp
    finally show ?thesis .
  qed
  show "common pat i k" if "k < i - g"
    unfolding common_def
  proof (intro conjI allI impI)
    show "0 \<le> k" using c by (simp add: common_def)
    show "k \<le> i + 1" using that w by (simp add: window_def)
    show "pat ! nat (i - m) = pat ! nat (?n - 1 - m)" if "0 \<le> m \<and> m < k" for m
      using win [of m] that \<open>k < i - g\<close> c by (simp add: common_def)
    have "k \<le> ?y" using that w i by (simp add: window_def)
    then show "pat ! nat (i - k) \<noteq> pat ! nat (?n - 1 - k)"
      using win [of k] that c by (simp add: common_def)
  qed
  show "pat ! nat x = pat ! nat (?n - 1 - i + x)" if "i - g \<le> k" "g < x" "x \<le> i"
  proof -
    have "pat ! nat (i - (i - x)) = pat ! nat (?y - (i - x))" using win [of "i - x"] that by simp
    also have "\<dots> = pat ! nat (?n - 1 - (i - x))"
    proof -
      have "\<forall>m. 0 \<le> m \<and> m < k \<longrightarrow> pat ! nat (?y - m) = pat ! nat (?n - 1 - m)" using c unfolding common_def by blast
      then show ?thesis using that by (metis diff_ge_0_iff_ge diff_strict_left_mono order_less_le_trans)
    qed
    also have "?n - 1 - (i - x) = ?n - 1 - i + x" by simp
    finally show ?thesis by simp
  qed
qed

lemma bm_suffix_step_ok:
  assumes "suffix_inv pat i st" and "0 \<le> i" and "i \<le> int (length pat) - 2"
  shows "yields (bm_suffix_step pat (int (length pat)) i st) (suffix_inv pat (i - 1))"
proof -
  obtain g f suf where st: "st = (g, f, suf)" by (cases st)
  have ok: "suffix_ok pat suf i" using assms(1) by (simp add: st suffix_inv_def)
  show ?thesis
  proof (cases "g < i")
    case False
    then show ?thesis using ok assms(2,3) bm_suffix_slide_ok [of pat suf i g f]
      by (simp add: st bm_suffix_step_def)
  next
    case True
    then have w: "window pat g f" "i < f" "f \<le> int (length pat) - 2"
      using assms(1) by (auto simp: st suffix_inv_def)
    let ?y = "int (length pat) - 1 - f + i"
    have y: "i < ?y" "0 \<le> ?y" "?y < int (length pat)" using w assms(2) by simp_all
    have len: "length pat \<le> length suf" using ok by (simp add: suffix_ok_def)
    have c: "common pat ?y (suf ! nat ?y)" using ok y by (simp add: suffix_ok_def)
    show ?thesis
    proof (cases "suf ! nat ?y < i - g")
      case less: True
      have "suffix_ok pat (suf[nat i := suf ! nat ?y]) (i - 1)"
        using ok assms(2,3) window_copy(1) [OF w(1) True w(2) c less] by (intro suffix_ok_put) simp_all
      then show ?thesis
        using True less y len assms(2) w by (simp add: st bm_suffix_step_def suffix_inv_def)
    next
      case False
      have "- 1 \<le> g" using w(1) by (simp add: window_def)
      then show ?thesis
        using True False y len bm_suffix_slide_ok [OF ok assms(2,3), of g f]
          window_copy(2) [OF w(1) True w(2) c] by (simp add: st bm_suffix_step_def)
    qed
  qed
qed

lemma common_whole: "common pat (int (length pat) - 1) (int (length pat))"
  by (simp add: common_def)

lemma bm_suffixes_ok:
  assumes "pat \<noteq> []" and "length pat \<le> length suf"
  shows "yields (bm_suffixes pat (length pat) suf) (\<lambda>suf. suffix_ok pat suf (- 1))"
proof -
  let ?n = "length pat" and ?s = "suf[length pat - 1 := int (length pat)]"
  have n: "0 < ?n" using assms(1) by simp
  have "suffix_inv pat (int (?n - 1) - 1) (int ?n - 1, int ?n - 1, ?s)"
  proof -
    have "common pat x (?s ! nat x)" if "int (?n - 1) - 1 < x \<and> 0 \<le> x \<and> x < int ?n" for x
    proof -
      have x: "x = int ?n - 1" "nat x = ?n - 1" using that n by linarith+
      have "?n - 1 < length suf" using assms(2) n by linarith
      then have "?s ! nat x = int ?n" unfolding x(2) by (rule nth_list_update_eq)
      then show ?thesis using common_whole [of pat] x(1) by simp
    qed
    then have ok: "suffix_ok pat ?s (int (?n - 1) - 1)" unfolding suffix_ok_def using assms(2) by auto
    have "int (?n - 1) - 1 \<le> int ?n - 1" "int ?n - 1 < int ?n" by linarith+
    then show ?thesis unfolding suffix_inv_def prod.case using ok by blast
  qed
  then have "yields (for_down (?n - 1) (\<lambda>k. bm_suffix_step pat (int ?n) (int k - 1)) (int ?n - 1, int ?n - 1, ?s))
      (suffix_inv pat (int 0 - 1))"
  proof (rule for_down_inv [where I = "\<lambda>k. suffix_inv pat (int k - 1)", rotated])
    fix i st assume "0 < i" "i \<le> ?n - 1" "suffix_inv pat (int i - 1) st"
    then show "yields (bm_suffix_step pat (int ?n) (int i - 1) st) (suffix_inv pat (int (i - 1) - 1))"
      using bm_suffix_step_ok [of pat "int i - 1" st] by (simp add: of_nat_diff)
  qed
  moreover have "?n - 1 < length suf" using assms(2) n by linarith
  ultimately show ?thesis by (auto simp: bm_suffixes_def yields_iff suffix_inv_def)
qed

section \<open>The shift tables\<close>

text \<open>After a mismatch at \<open>j\<close> a shift by \<open>s\<close> can only lead to a match when the pattern, moved by \<open>s\<close>, agrees with
  what was matched and differs at \<open>j\<close>.\<close>

definition allows :: "'a list \<Rightarrow> nat \<Rightarrow> nat \<Rightarrow> bool" where
  "allows pat j s \<longleftrightarrow> 0 < s \<and> s < length pat \<and>
     (\<forall>m. j < m \<and> s \<le> m \<and> m < length pat \<longrightarrow> pat ! (m - s) = pat ! m) \<and>
     (s \<le> j \<longrightarrow> pat ! (j - s) \<noteq> pat ! j)"

text \<open>Such a shift is recorded in the table of common suffixes.\<close>

lemma allows_common:
  assumes "allows pat j s" and "j < length pat"
  shows "common pat (int (length pat) - 1 - int s) (if s \<le> j then int (length pat) - 1 - int j else int (length pat) - int s)"
proof -
  let ?n = "int (length pat)" and ?k = "if s \<le> j then int (length pat) - 1 - int j else int (length pat) - int s"
  have s: "0 < s" "s < length pat" using assms(1) by (simp_all add: allows_def)
  have "pat ! nat (?n - 1 - int s - m) = pat ! nat (?n - 1 - m)" if m: "0 \<le> m" "m < ?k" for m
  proof -
    let ?x = "nat (?n - 1 - m)"
    have x: "j < ?x" "s \<le> ?x" "?x < length pat" using m s by (auto split: if_splits)
    have "nat (?n - 1 - int s - m) = ?x - s" using m s by (auto split: if_splits)
    then show ?thesis using assms(1) x by (simp add: allows_def)
  qed
  moreover have "pat ! nat (?n - 1 - int s - ?k) \<noteq> pat ! nat (?n - 1 - ?k)" if "?k \<le> ?n - 1 - int s"
  proof -
    have j: "s \<le> j" using that by (auto split: if_splits)
    then have "nat (?n - 1 - int s - ?k) = j - s" "nat (?n - 1 - ?k) = j" using assms(2) by simp_all
    then show ?thesis using assms(1) j by (simp add: allows_def)
  qed
  ultimately show ?thesis using s assms(2) unfolding common_def by auto
qed

definition gs_ok :: "'a list \<Rightarrow> int list \<Rightarrow> bool" where
  "gs_ok pat gs \<longleftrightarrow> length pat < length gs \<and>
     (\<forall>j < length pat. 1 \<le> gs ! j \<and> gs ! j \<le> int (length pat) \<and> (\<forall>s. allows pat j s \<longrightarrow> gs ! j \<le> int s))"

text \<open>Below, \<open>suf\<close> is the finished table of common suffixes.\<close>

definition border_shift :: "int list \<Rightarrow> nat \<Rightarrow> nat \<Rightarrow> bool" where
  "border_shift suf n s \<longleftrightarrow> 0 < s \<and> s < n \<and> suf ! (n - 1 - s) = int (n - s)"

definition border_inv :: "int list \<Rightarrow> nat \<Rightarrow> nat \<Rightarrow> int list \<Rightarrow> bool" where
  "border_inv suf n k gs \<longleftrightarrow> n < length gs \<and> (\<forall>j < n. int j < gs ! j \<and> gs ! j \<le> int n \<and>
     (gs ! j = int n \<or> gs ! j < int (n - k)) \<and>
     (\<forall>s. border_shift suf n s \<and> j < s \<and> s < n - k \<longrightarrow> gs ! j \<le> int s))"

lemma bm_border_fill_ok:
  assumes "i < n" and "n < length gs"
  shows "yields (bm_border_fill n i gs) (\<lambda>gs'. length gs' = length gs \<and>
    (\<forall>j < length gs. gs' ! j = (if j < n - 1 - i \<and> gs ! j = int n then int n - 1 - int i else gs ! j)))"
  unfolding bm_border_fill_def
proof (rule for_up_inv [where I = "\<lambda>k gs'. length gs' = length gs \<and>
    (\<forall>j < length gs. gs' ! j = (if j < k \<and> gs ! j = int n then int n - 1 - int i else gs ! j))"])
  fix k gs' assume k: "k < n - 1 - i" and inv: "length gs' = length gs \<and>
    (\<forall>j < length gs. gs' ! j = (if j < k \<and> gs ! j = int n then int n - 1 - int i else gs ! j))"
  then have "k < length gs'" using assms by simp
  then show "yields (do { v \<leftarrow> at gs' k; if v = int n then put_at gs' k (int n - 1 - int i) else Some gs' })
    (\<lambda>gs'. length gs' = length gs \<and>
      (\<forall>j < length gs. gs' ! j = (if j < Suc k \<and> gs ! j = int n then int n - 1 - int i else gs ! j)))"
    using inv by (auto simp: nth_list_update less_Suc_eq)
qed simp_all

lemma border_step_ok:
  assumes "border_inv suf n k gs" and "0 < k" and "k \<le> n" and "n \<le> length suf"
  shows "yields (do { s \<leftarrow> at suf (k - 1); if s = int k then bm_border_fill n (k - 1) gs else Some gs })
    (border_inv suf n (k - 1))"
proof -
  have k1: "k - 1 < length suf" using assms by simp
  have eq: "s < n - (k - 1) \<longleftrightarrow> s < n - k \<or> s = n - k" for s using assms(2,3) by linarith
  show ?thesis
  proof (cases "suf ! (k - 1) = int k")
    case False
    have "\<not> border_shift suf n (n - k)"
      using False assms(2,3) by (auto simp: border_shift_def)
    then have "border_shift suf n s \<and> j < s \<and> s < n - (k - 1) \<Longrightarrow> border_shift suf n s \<and> j < s \<and> s < n - k" for s j
      using eq by blast
    moreover have "v < int (n - k) \<Longrightarrow> v < int (n - (k - 1))" for v by linarith
    ultimately have "border_inv suf n (k - 1) gs"
      using assms(1) unfolding border_inv_def by metis
    then show ?thesis using False k1 by simp
  next
    case True
    have len: "n < length gs" using assms(1) by (simp add: border_inv_def)
    have k: "k - 1 < n" "n - 1 - (k - 1) = n - k" "int n - 1 - int (k - 1) = int (n - k)"
      using assms(2,3) by (simp_all add: of_nat_diff)
    have inv: "border_inv suf n (k - 1) gs'" if g: "length gs' = length gs"
      "\<forall>j < length gs. gs' ! j = (if j < n - k \<and> gs ! j = int n then int (n - k) else gs ! j)" for gs'
      unfolding border_inv_def
    proof (intro conjI allI impI)
      fix j assume j: "j < n"
      then have gj: "gs' ! j = (if j < n - k \<and> gs ! j = int n then int (n - k) else gs ! j)" using g len by simp
      have old: "int j < gs ! j" "gs ! j \<le> int n" "gs ! j = int n \<or> gs ! j < int (n - k)"
        "\<And>s. border_shift suf n s \<Longrightarrow> j < s \<Longrightarrow> s < n - k \<Longrightarrow> gs ! j \<le> int s"
        using assms(1) j by (auto simp: border_inv_def)
      show "int j < gs' ! j" "gs' ! j \<le> int n" using old gj by auto
      show "gs' ! j = int n \<or> gs' ! j < int (n - (k - 1))" using old(3) gj assms(2,3) by auto
      fix s assume s: "border_shift suf n s \<and> j < s \<and> s < n - (k - 1)"
      show "gs' ! j \<le> int s"
      proof (cases "s < n - k")
        case True
        then have "gs ! j \<le> int s" using old(4) s by blast
        then show ?thesis using gj True by (auto split: if_splits)
      next
        case False
        then have "s = n - k" using s eq by blast
        then show ?thesis using gj old(3) s by auto
      qed
    qed (use g len in simp)
    have "yields (bm_border_fill n (k - 1) gs) (border_inv suf n (k - 1))"
      using bm_border_fill_ok [OF k(1) len] unfolding k(2,3) by (rule yields_mono) (use inv in blast)
    then show ?thesis using True k1 by simp
  qed
qed

definition shift_inv :: "int list \<Rightarrow> nat \<Rightarrow> nat \<Rightarrow> int list \<Rightarrow> bool" where
  "shift_inv suf n i gs \<longleftrightarrow> n < length gs \<and> (\<forall>j < n. 1 \<le> gs ! j \<and> gs ! j \<le> int n \<and>
     (\<forall>s. border_shift suf n s \<and> j < s \<longrightarrow> gs ! j \<le> int s) \<and>
     (\<forall>s. 0 < s \<and> s < n \<and> n - 1 - s < i \<and> suf ! (n - 1 - s) = int n - 1 - int j \<longrightarrow> gs ! j \<le> int s))"

lemma shift_step_ok:
  assumes "shift_inv suf (length pat) i gs" and "suffix_ok pat suf (- 1)" and "Suc i < length pat"
  shows "yields (do { s \<leftarrow> at suf i; put_int gs (int (length pat) - 1 - s) (int (length pat) - 1 - int i) })
    (shift_inv suf (length pat) (Suc i))"
proof -
  let ?n = "length pat" and ?z = "int (length pat) - 1 - suf ! i"
  have len: "?n \<le> length suf" and c: "common pat (int i) (suf ! i)"
    using assms(2,3) by (auto simp: suffix_ok_def dest: spec [of _ "int i"])
  then have s: "0 \<le> suf ! i" "suf ! i \<le> int i + 1" by (simp_all add: common_def)
  define z where "z = nat ?z"
  have z: "?z = int z" "z < ?n" using s assms(3) unfolding z_def by linarith+
  have inv: "shift_inv suf ?n (Suc i) (gs[z := int ?n - 1 - int i])"
    unfolding shift_inv_def
  proof (intro conjI allI impI)
    let ?gs = "gs[z := int ?n - 1 - int i]"
    show "?n < length ?gs" using assms(1) by (simp add: shift_inv_def)
    fix j assume j: "j < ?n"
    then have zl: "z < length gs" "j < length gs" using z assms(1) by (simp_all add: shift_inv_def)
    have old: "1 \<le> gs ! j" "gs ! j \<le> int ?n"
      "\<And>s. border_shift suf ?n s \<Longrightarrow> j < s \<Longrightarrow> gs ! j \<le> int s"
      "\<And>s. 0 < s \<Longrightarrow> s < ?n \<Longrightarrow> ?n - 1 - s < i \<Longrightarrow> suf ! (?n - 1 - s) = int ?n - 1 - int j \<Longrightarrow> gs ! j \<le> int s"
      using assms(1) j by (auto simp: shift_inv_def)
    have nj: "?gs ! j = (if j = z then int ?n - 1 - int i else gs ! j)" using zl by simp
    show "1 \<le> ?gs ! j" "?gs ! j \<le> int ?n" using old(1,2) nj assms(3) by auto
    show "?gs ! j \<le> int s" if "border_shift suf ?n s \<and> j < s" for s
    proof (cases "j = z")
      case True
      have "int ?n - 1 - int i \<le> int z + 1" using z(1) s(2) by linarith
      then show ?thesis using nj True that by simp
    next
      case False
      then show ?thesis using nj old(3) that by simp
    qed
    show "?gs ! j \<le> int s" if s': "0 < s \<and> s < ?n \<and> ?n - 1 - s < Suc i \<and> suf ! (?n - 1 - s) = int ?n - 1 - int j" for s
    proof (cases "?n - 1 - s = i")
      case True
      then have "suf ! i = int ?n - 1 - int j" using s' by blast
      then have "j = z" using z(1) by linarith
      then show ?thesis using nj s' True by simp
    next
      case False
      then have lt: "?n - 1 - s < i" using s' by linarith
      show ?thesis
      proof (cases "j = z")
        case True
        then show ?thesis using nj lt by simp
      next
        case False
        then show ?thesis using nj old(4) s' lt by simp
      qed
    qed
  qed
  have "z < length gs" using z assms(1) by (simp add: shift_inv_def)
  moreover have "i < length suf" using assms(3) len by simp
  ultimately show ?thesis using inv by (simp add: z(1))
qed

lemma bm_good_suffix_ok:
  assumes "suffix_ok pat suf (- 1)" and "length pat < length gs" and "unat plen = length pat" and "2 \<le> length pat"
  shows "yields (bm_good_suffix plen suf gs) (gs_ok pat)"
proof -
  let ?n = "length pat"
  have len: "?n \<le> length suf" using assms(1) by (simp add: suffix_ok_def)
  have bound: "Suc (unat (plen - 2)) = ?n - 1"
  proof -
    have "(2::size_t) \<le> plen" using assms(3,4) by (simp add: word_le_unat)
    then show ?thesis using assms(3,4) by (simp add: unat_diff_le)
  qed
  have "yields (for_up 0 (?n + 1) (\<lambda>i gs. put_at gs i (int ?n)) gs) (border_inv suf ?n ?n)"
  proof (rule for_up_rule [where I = "\<lambda>i gs. ?n < length gs \<and> (\<forall>j < i. gs ! j = int ?n)"])
    fix i gs assume "i < ?n + 1" "?n < length gs \<and> (\<forall>j < i. gs ! j = int ?n)"
    then show "yields (put_at gs i (int ?n)) (\<lambda>gs. ?n < length gs \<and> (\<forall>j < Suc i. gs ! j = int ?n))"
      by (auto simp: nth_list_update less_Suc_eq)
  qed (use assms(2) in \<open>auto simp: border_inv_def\<close>)
  then obtain g1 where g1: "for_up 0 (?n + 1) (\<lambda>i gs. put_at gs i (int ?n)) gs = Some g1" "border_inv suf ?n ?n g1"
    by (auto simp: yields_iff)
  from g1(2) have "yields (for_down ?n (\<lambda>k gs. do {
      s \<leftarrow> at suf (k - 1); if s = int k then bm_border_fill ?n (k - 1) gs else Some gs }) g1) (border_inv suf ?n 0)"
    by (rule for_down_inv [rotated]) (rule border_step_ok, use len in simp_all)
  then obtain g2 where g2: "for_down ?n (\<lambda>k gs. do {
      s \<leftarrow> at suf (k - 1); if s = int k then bm_border_fill ?n (k - 1) gs else Some gs }) g1 = Some g2" "border_inv suf ?n 0 g2"
    by (auto simp: yields_iff)
  have "shift_inv suf ?n 0 g2" using g2(2) by (fastforce simp: border_inv_def shift_inv_def border_shift_def)
  then have "yields (for_up 0 (?n - 1) (\<lambda>i gs. do {
      s \<leftarrow> at suf i; put_int gs (int ?n - 1 - s) (int ?n - 1 - int i) }) g2) (shift_inv suf ?n (?n - 1))"
  proof (rule for_up_inv)
    fix i gs assume "i < ?n - 1" "shift_inv suf ?n i gs"
    then show "yields (do { s \<leftarrow> at suf i; put_int gs (int ?n - 1 - s) (int ?n - 1 - int i) }) (shift_inv suf ?n (Suc i))"
      using assms(1) by (intro shift_step_ok) simp_all
  qed simp
  then obtain g3 where g3: "for_up 0 (?n - 1) (\<lambda>i gs. do {
      s \<leftarrow> at suf i; put_int gs (int ?n - 1 - s) (int ?n - 1 - int i) }) g2 = Some g3" "shift_inv suf ?n (?n - 1) g3"
    by (auto simp: yields_iff)
  have "gs_ok pat g3"
    unfolding gs_ok_def
  proof (intro conjI allI impI)
    fix j assume j: "j < ?n"
    show "1 \<le> g3 ! j" "g3 ! j \<le> int ?n" using g3(2) j by (auto simp: shift_inv_def)
    fix s assume a: "allows pat j s"
    then have s: "0 < s" "s < ?n" by (simp_all add: allows_def)
    have x: "nat (int ?n - 1 - int s) = ?n - 1 - s" using s by linarith
    have "common pat (int ?n - 1 - int s) (suf ! (?n - 1 - s))"
      using assms(1) s unfolding suffix_ok_def x [symmetric] by auto
    from common_unique [OF this allows_common [OF a j]]
    have v: "suf ! (?n - 1 - s) = (if s \<le> j then int ?n - 1 - int j else int ?n - int s)" .
    show "g3 ! j \<le> int s"
    proof (cases "s \<le> j")
      case True
      then have "suf ! (?n - 1 - s) = int ?n - 1 - int j" "?n - 1 - s < ?n - 1" using v s by simp_all
      then show ?thesis using g3(2) j s unfolding shift_inv_def by blast
    next
      case False
      then have "border_shift suf ?n s" using v s by (simp add: border_shift_def of_nat_diff)
      then show ?thesis using g3(2) j False unfolding shift_inv_def by (meson not_le)
    qed
  qed (use g3(2) in \<open>simp add: shift_inv_def\<close>)
  then show ?thesis
    using g1(1) g2(1) g3(1) by (simp add: bm_good_suffix_def assms(3) bound Let_def)
qed

text \<open>No entry of the bad-character table exceeds the distance to any earlier occurrence of the byte.\<close>

definition bc_ok :: "byte list \<Rightarrow> int list \<Rightarrow> bool" where
  "bc_ok pat tab \<longleftrightarrow> length tab = 256 \<and> (\<forall>c. tab ! unat (c :: byte) \<le> int (length pat) \<and>
     (\<forall>x. x < length pat - 1 \<and> pat ! x = c \<longrightarrow> tab ! unat c \<le> int (length pat) - 1 - int x))"

lemma unat_byte [simp]: "unat (c :: byte) < 256"
  using unsigned_less [of c, where 'a = nat] by simp

lemma bm_bad_char_ok: "yields (bm_bad_char pat (length pat)) (bc_ok pat)"
  unfolding bm_bad_char_def
proof (rule for_up_rule [where I = "\<lambda>i tab. length tab = 256 \<and> (\<forall>c. tab ! unat (c :: byte) \<le> int (length pat) \<and>
     (\<forall>x. x < i \<and> pat ! x = c \<longrightarrow> tab ! unat c \<le> int (length pat) - 1 - int x))"])
  fix i tab assume "i < length pat - 1" and "length tab = 256 \<and> (\<forall>c. tab ! unat (c :: byte) \<le> int (length pat) \<and>
     (\<forall>x. x < i \<and> pat ! x = c \<longrightarrow> tab ! unat c \<le> int (length pat) - 1 - int x))"
  then show "yields (do { c \<leftarrow> at pat i; put_at tab (unat c) (int (length pat) - 1 - int i) })
    (\<lambda>tab. length tab = 256 \<and> (\<forall>c. tab ! unat (c :: byte) \<le> int (length pat) \<and>
     (\<forall>x. x < Suc i \<and> pat ! x = c \<longrightarrow> tab ! unat c \<le> int (length pat) - 1 - int x)))"
    by (auto simp: nth_list_update less_Suc_eq word_unat_eq_iff)
qed (auto simp: bc_ok_def)

section \<open>The scan\<close>

lemma bm_compare_ok:
  assumes "i + length pat \<le> length text" and "j < int (length pat)" and "- 1 \<le> j"
    and "\<forall>m. j < int m \<and> m < length pat \<longrightarrow> text ! (i + m) = pat ! m"
  shows "yields (bm_compare text pat i j) (\<lambda>j. - 1 \<le> j \<and> j < int (length pat) \<and>
    (\<forall>m. j < int m \<and> m < length pat \<longrightarrow> text ! (i + m) = pat ! m) \<and>
    (0 \<le> j \<longrightarrow> text ! (i + nat j) \<noteq> pat ! nat j))"
  using assms(2-)
proof (induction "nat (j + 1)" arbitrary: j)
  case 0
  then show ?case by (subst bm_compare.simps) simp
next
  case (Suc k)
  then have j: "0 \<le> j" by simp
  have r: "int i + j < int (length text)" "nat (int i + j) = i + nat j" using Suc.prems assms(1) j by linarith+
  show ?case
  proof (cases "pat ! nat j = text ! (i + nat j)")
    case True
    have "text ! (i + m) = pat ! m" if "j - 1 < int m" "m < length pat" for m
    proof (cases "int m = j")
      case eq: True
      then have "m = nat j" by simp
      then show ?thesis using True by simp
    qed (use that Suc.prems in simp)
    then have "yields (bm_compare text pat i (j - 1)) (\<lambda>j. - 1 \<le> j \<and> j < int (length pat) \<and>
      (\<forall>m. j < int m \<and> m < length pat \<longrightarrow> text ! (i + m) = pat ! m) \<and>
      (0 \<le> j \<longrightarrow> text ! (i + nat j) \<noteq> pat ! nat j))"
      using Suc j by (intro Suc.hyps(1)) auto
    then show ?thesis using j r True Suc.prems by (subst bm_compare.simps) simp
  next
    case False
    then show ?thesis using j r Suc.prems by (subst bm_compare.simps) auto
  qed
qed

text \<open>Both tables give shifts that pass no occurrence.\<close>

lemma shift_allows:
  assumes "occurs_at pat text (i + s)" and "0 < s" and "s < length pat" and "j < length pat"
    and "\<forall>m. j < m \<and> m < length pat \<longrightarrow> text ! (i + m) = pat ! m"
    and "s \<le> j \<Longrightarrow> text ! (i + j) \<noteq> pat ! j"
  shows "allows pat j s"
  unfolding allows_def
proof (intro conjI allI impI)
  have occ: "text ! (i + m) = pat ! (m - s)" if "s \<le> m" "m < length pat" for m
  proof -
    have "\<forall>k < length pat. text ! (i + s + k) = pat ! k" using assms(1) by (simp add: occurs_at_iff)
    moreover have "m - s < length pat" "i + s + (m - s) = i + m" using that by simp_all
    ultimately show ?thesis by metis
  qed
  show "pat ! (m - s) = pat ! m" if "j < m \<and> s \<le> m \<and> m < length pat" for m
    using occ [of m] assms(5) that by simp
  show "pat ! (j - s) \<noteq> pat ! j" if "s \<le> j" using occ [of j] assms(4,6) that by simp
qed (use assms in auto)

lemma bm_shift_ok:
  assumes "bc_ok pat tab" and "gs_ok pat gs" and i: "i + length pat \<le> length text" and j: "0 \<le> j" "j < int (length pat)"
    and m: "\<forall>m. j < int m \<and> m < length pat \<longrightarrow> text ! (i + m) = pat ! m" and d: "text ! (i + nat j) \<noteq> pat ! nat j"
  shows "yields (bm_shift text (length pat) tab gs i j)
    (\<lambda>s. 0 < s \<and> (\<forall>p. i \<le> p \<and> p < i + s \<longrightarrow> \<not> occurs_at pat text p))"
proof -
  let ?j = "nat j" and ?c = "text ! (i + nat j)"
  have jl: "?j < length pat" "int ?j = j" "nat (int i + j) = i + ?j" using j by linarith+
  have tab: "length tab = 256" "tab ! unat ?c \<le> int (length pat)" using assms(1) by (simp_all add: bc_ok_def)
  have gs: "?j < length gs" "1 \<le> gs ! ?j" "gs ! ?j \<le> int (length pat)" using assms(2) jl(1) by (auto simp: gs_ok_def)
  let ?b = "tab ! unat ?c - (int (length pat) - 1 - j)"
  let ?b' = "if ?b < 1 then 1 else ?b"
  let ?s = "if gs ! ?j < ?b' then nat ?b' else nat (gs ! ?j)"
  have run: "bm_shift text (length pat) tab gs i j = Some ?s"
  proof -
    have "0 \<le> int i + j" "int i + j < int (length text)" using i j by linarith+
    then have "at_int text (int i + j) = Some ?c" using jl(3) at_int_in [of "int i + j" "text"] by simp
    moreover have "at tab (unat ?c) = Some (tab ! unat ?c)" using tab(1) by simp
    moreover have "at_int gs j = Some (gs ! ?j)" using j gs(1) by (simp add: nat_less_iff)
    ultimately show ?thesis by (simp only: bm_shift_def Let_def bind.bind_lunit)
  qed
  have bl: "?b' \<le> j + 1" using tab(2) j by auto
  have none: "\<not> occurs_at pat text p" if p: "i \<le> p" "p < i + ?s" for p
  proof
    assume occ: "occurs_at pat text p"
    define s where "s = p - i"
    have ps: "p = i + s" using p(1) s_def by simp
    have "s \<noteq> 0"
    proof
      assume "s = 0"
      then have "text ! (i + ?j) = pat ! ?j" using occ ps jl(1) by (simp add: occurs_at_iff)
      then show False using d by contradiction
    qed
    then have s0: "0 < s" by simp
    have bs: "int s < ?b' \<or> int s < gs ! ?j" using p(2) ps by (auto split: if_splits)
    have sl: "s < length pat" using bs bl gs(3) j by auto
    have al: "allows pat ?j s"
      using occ s0 sl jl(1) m d unfolding ps by (intro shift_allows) (auto simp: zless_nat_eq_int_zless nat_less_iff)
    then have "gs ! ?j \<le> int s" using assms(2) jl(1) by (simp add: gs_ok_def)
    then have lt: "int s < ?b'" using bs by simp
    then have "s \<le> ?j" "int s < ?b" using s0 bl j by (auto split: if_splits)
    have "pat ! (?j - s) = ?c"
    proof -
      have "\<forall>k < length pat. text ! (p + k) = pat ! k" using occ by (simp add: occurs_at_iff)
      moreover have "?j - s < length pat" "p + (?j - s) = i + ?j" using jl(1) \<open>s \<le> ?j\<close> ps by simp_all
      ultimately show ?thesis by metis
    qed
    moreover have "?j - s < length pat - 1" using s0 jl(1) \<open>s \<le> ?j\<close> by simp
    ultimately have "tab ! unat ?c \<le> int (length pat) - 1 - int (?j - s)" using assms(1) by (simp add: bc_ok_def)
    then show False using \<open>int s < ?b\<close> \<open>s \<le> ?j\<close> jl(2) by linarith
  qed
  have "0 < ?s" using gs(2) by auto
  then show ?thesis using none run by simp
qed

lemma bm_scan_ok:
  assumes bc: "bc_ok pat tab" and gs: "gs_ok pat gs" and n: "0 < length pat" "length pat \<le> length text"
  shows "bm_scan text (length text) pat (length pat) tab gs (gs ! 0) cb i cnt result u
    = Some (scan_result cb (matches_from pat text i) cnt result u)"
proof (induction "Suc (length text - length pat) - i" arbitrary: i cnt result u rule: less_induct)
  case less
  show ?case
  proof (cases "i \<le> length text - length pat")
    case False
    then show ?thesis by (subst bm_scan.simps) (simp add: matches_from_end)
  next
    case True
    then have i: "i + length pat \<le> length text" using n(2) by simp
    have "yields (bm_compare text pat i (int (length pat) - 1)) (\<lambda>j. - 1 \<le> j \<and> j < int (length pat) \<and>
      (\<forall>m. j < int m \<and> m < length pat \<longrightarrow> text ! (i + m) = pat ! m) \<and>
      (0 \<le> j \<longrightarrow> text ! (i + nat j) \<noteq> pat ! nat j))"
      using i by (intro bm_compare_ok) auto
    then obtain j where j: "bm_compare text pat i (int (length pat) - 1) = Some j" "- 1 \<le> j" "j < int (length pat)"
      "\<forall>m. j < int m \<and> m < length pat \<longrightarrow> text ! (i + m) = pat ! m" "0 \<le> j \<Longrightarrow> text ! (i + nat j) \<noteq> pat ! nat j"
      by (auto simp: yields_iff)
    have step: "bm_scan text (length text) pat (length pat) tab gs (gs ! 0) cb (i + s) cnt' r u'
        = Some (scan_result cb (matches_from pat text (i + s)) cnt' r u')" if "0 < s" for s cnt' r u'
      using True that by (intro less.hyps) simp
    show ?thesis
    proof (cases "j < 0")
      case True
      then have all: "\<forall>m < length pat. text ! (i + m) = pat ! m" using j(4) by simp
      then have occ: "occurs_at pat text i" using i by (simp add: occurs_at_iff)
      have g0: "1 \<le> gs ! 0" "gs ! 0 \<le> int (length pat)" using gs n(1) by (auto simp: gs_ok_def)
      have "matches_from pat text (Suc i) = matches_from pat text (i + nat (gs ! 0))"
      proof (rule matches_from_skip)
        show "Suc i \<le> i + nat (gs ! 0)" using g0(1) by linarith
        fix p assume p: "Suc i \<le> p" "p < i + nat (gs ! 0)"
        show "\<not> occurs_at pat text p"
        proof
          assume "occurs_at pat text p"
          then have "allows pat 0 (p - i)"
            using all p g0(2) n(1) by (intro shift_allows [of pat "text" i]) auto
          then have "gs ! 0 \<le> int (p - i)" using gs n(1) by (simp add: gs_ok_def)
          then show False using p by linarith
        qed
      qed
      then have "matches_from pat text i = i # matches_from pat text (i + nat (gs ! 0))"
        using matches_from_hit [OF occ] by simp
      then show ?thesis
        using j(1) True \<open>i \<le> length text - length pat\<close> step [of "nat (gs ! 0)"] g0(1)
        by (subst bm_scan.simps) (simp add: scan_result_Cons split: prod.split)
    next
      case False
      then have j0: "0 \<le> j" by simp
      obtain s where s: "bm_shift text (length pat) tab gs i j = Some s" "0 < s"
        "\<And>p. i \<le> p \<Longrightarrow> p < i + s \<Longrightarrow> \<not> occurs_at pat text p"
        using bm_shift_ok [OF bc gs i j0 j(3,4) j(5) [OF j0]] by (auto simp: yields_iff)
      have "matches_from pat text i = matches_from pat text (i + s)"
        using s(3) by (intro matches_from_skip) simp_all
      then show ?thesis
        using j(1) False True s(1) step [OF s(2)] by (subst bm_scan.simps) simp
    qed
  qed
qed

section \<open>The core\<close>

text \<open>The requests for the two tables are granted.\<close>

definition bm_memory :: "scl_allocator_t \<Rightarrow> size_t \<Rightarrow> bool" where
  "bm_memory a plen \<longleftrightarrow> (\<forall>k < 2. malloc_fn a k ((plen + 1) * 4) max_align \<noteq> None)"

lemma bm_tables:
  assumes a: "scl_allocator a" and p: "plen \<le> 0x7FFFFFFF" and mem: "bm_memory a plen"
  obtains s g where "scl_mul_overflow (plen + 1) 4 = Some ((plen + 1) * 4)"
    and "malloc_fn a 0 ((plen + 1) * 4) max_align = Some s" and "malloc_fn a 1 ((plen + 1) * 4) max_align = Some g"
    and "length (i32_array s) = unat plen + 1" and "length (i32_array g) = unat plen + 1"
proof -
  have pl: "unat plen \<le> 0x7FFFFFFF" using p by (simp add: word_le_unat)
  have u: "unat (plen + 1) = unat plen + 1" using pl by (subst unat_add_bounded) simp_all
  then have t: "unat ((plen + 1) * 4) = (unat plen + 1) * 4" using pl by (subst unat_mult_bounded) auto
  have ov: "scl_mul_overflow (plen + 1) 4 = Some ((plen + 1) * 4)" using pl by (simp add: scl_mul_overflow_def u)
  obtain s g where sg: "malloc_fn a 0 ((plen + 1) * 4) max_align = Some s" "malloc_fn a 1 ((plen + 1) * 4) max_align = Some g"
    using mem unfolding bm_memory_def by (metis not_None_eq one_less_numeral_iff semiring_norm(76) zero_less_numeral)
  have "length s = (unat plen + 1) * 4" "length g = (unat plen + 1) * 4"
    using scl_allocator.malloc_object(1) [OF a sg(1)] scl_allocator.malloc_object(1) [OF a sg(2)] t by metis+
  then have "length (i32_array s) = unat plen + 1" "length (i32_array g) = unat plen + 1"
    unfolding length_i32_array by (metis nonzero_mult_div_cancel_right zero_neq_numeral)+
  then show thesis by (rule that [OF ov sg])
qed

lemma bm_core_ok:
  assumes a: "scl_allocator a" and t: "length text = unat tlen" and pt: "length pat = unat plen"
    and "2 \<le> plen" and "plen \<le> 0x7FFFFFFF" and "plen \<le> tlen" and mem: "bm_memory a plen"
  shows "bm_core a (Some text) tlen (Some pat) plen cb u out_count = Some (core_result text pat cb u out_count)"
proof -
  have p: "2 \<le> length pat" "length pat \<le> length text" using assms by (simp_all add: word_le_unat)
  have c: "tlen \<noteq> 0" "plen \<noteq> 0" "\<not> tlen < plen" "\<not> 0x7FFFFFFF < plen" using p assms by auto
  obtain s g where sg: "scl_mul_overflow (plen + 1) 4 = Some ((plen + 1) * 4)"
    "malloc_fn a 0 ((plen + 1) * 4) max_align = Some s" "malloc_fn a 1 ((plen + 1) * 4) max_align = Some g"
    "length (i32_array s) = unat plen + 1" "length (i32_array g) = unat plen + 1"
    by (rule bm_tables [OF a assms(5) mem])
  obtain tab where tab: "bm_bad_char pat (unat plen) = Some tab" "bc_ok pat tab"
    using bm_bad_char_ok [of pat] unfolding pt yields_iff by blast
  obtain suf where suf: "bm_suffixes pat (unat plen) (map sint (i32_array s)) = Some suf" "suffix_ok pat suf (- 1)"
  proof -
    have "pat \<noteq> []" using p(1) by (cases pat) simp_all
    moreover have "length pat \<le> length (map sint (i32_array s))" using pt sg(4) by simp
    ultimately have "pat \<noteq> []" "length pat \<le> length (map sint (i32_array s))" .
    from bm_suffixes_ok [OF this] show thesis using that unfolding pt yields_iff by blast
  qed
  obtain gs where gs: "bm_good_suffix plen suf (map sint (i32_array g)) = Some gs" "gs_ok pat gs"
  proof -
    have "length pat < length (map sint (i32_array g))" using pt sg(5) by simp
    from bm_good_suffix_ok [OF suf(2) this pt [symmetric] p(1)] show thesis using that unfolding yields_iff by blast
  qed
  have g0: "0 < length gs" "\<not> gs ! 0 < 1"
  proof -
    have "0 < length pat" using p(1) by linarith
    then show "0 < length gs" "\<not> gs ! 0 < 1" using gs(2) by (auto simp: gs_ok_def)
  qed
  have "bm_scan text (unat tlen) pat (unat plen) tab gs (gs ! 0) cb 0 0 SCL_ERR_NOT_FOUND u
      = Some (scan_result cb (occurrences pat text) 0 SCL_ERR_NOT_FOUND u)"
    using bm_scan_ok [OF tab(2) gs(2), of "text" cb 0 0 SCL_ERR_NOT_FOUND u] p t pt by (simp add: matches_from_0)
  then show ?thesis
    using c sg(1-3) tab(1) suf(1) gs(1) g0
    by (simp add: bm_core_def Let_def core_result_scan split: prod.split)
qed

text \<open>A pattern of one byte: whatever the text holds, the table construction stores at index \<open>- 1\<close>.\<close>

lemma bm_core_single:
  assumes a: "scl_allocator a" and "tlen \<noteq> 0" and mem: "bm_memory a 1"
  shows "bm_core a (Some text) tlen (Some [c]) 1 cb u out_count = None"
proof -
  have c: "\<not> tlen < 1" "(1::size_t) \<le> 0x7FFFFFFF" "\<not> (0x7FFFFFFF::size_t) < 1"
    using assms(2) by (simp_all add: word_less_unat word_le_unat Suc_le_eq unat_pos_iff)
  obtain s g where sg: "scl_mul_overflow (1 + 1) 4 = Some ((1 + 1) * 4)"
    "malloc_fn a 0 ((1 + 1) * 4) max_align = Some s" "malloc_fn a 1 ((1 + 1) * 4) max_align = Some g"
    "length (i32_array s) = unat (1::size_t) + 1" "length (i32_array g) = unat (1::size_t) + 1"
    by (rule bm_tables [OF a c(2) mem])
  have sl: "length (i32_array s) = 2" "length (i32_array g) = 2" using sg(4,5) by simp_all
  obtain s0 s1 where s: "map sint (i32_array s) = [s0, s1]"
    using sl(1) by (cases "i32_array s"; cases "tl (i32_array s)") auto
  obtain g0 g1 where g: "map sint (i32_array g) = [g0, g1]"
    using sl(2) by (cases "i32_array g"; cases "tl (i32_array g)") auto
  have "bm_good_suffix 1 [1, s1] [g0, g1] = None"
    by (simp add: bm_good_suffix_def bm_border_fill_def for_up_def put_int_def Let_def)
  moreover have "bm_suffixes [c] (unat (1::size_t)) [s0, s1] = Some [1, s1]"
    by (simp add: bm_suffixes_def)
  moreover have "bm_bad_char [c] (unat (1::size_t)) \<noteq> None" by (simp add: bm_bad_char_def)
  ultimately show ?thesis
    using c(1,3) sg(1-3) assms(2) s g by (auto simp: bm_core_def)
qed

definition bm_fits :: "scl_allocator_t \<Rightarrow> byte list \<Rightarrow> byte list \<Rightarrow> bool" where
  "bm_fits a pat text \<longleftrightarrow> 2 \<le> length pat \<and> length pat \<le> 0x7FFFFFFF \<and> length pat \<le> length text \<and>
     length text < object_limit \<and> bm_memory a (of_nat (length pat))"

lemma bm_first:
  assumes "scl_allocator a" and "bm_fits a pat text"
  shows "yields (scl_search_boyer_moore a (Some text) (of_nat (length text)) (Some pat) (of_nat (length pat)) (Some old))
    (\<lambda>r. first_match pat text r old)"
proof -
  have len: "unat (of_nat (length text) :: size_t) = length text" "unat (of_nat (length pat) :: size_t) = length pat"
    using assms(2) by (auto simp: bm_fits_def intro!: unat_of_length)
  have "bm_core a (Some text) (of_nat (length text)) (Some pat) (of_nat (length pat)) (Some first_cb) 0 None
      = Some (core_result text pat (Some first_cb) 0 None)"
    using assms len by (intro bm_core_ok) (simp_all add: bm_fits_def word_le_unat)
  then show ?thesis
    by (simp add: scl_search_boyer_moore_def core_result_first first_match_def split: list.split)
qed

interpretation boyer_moore: substring_search
    "\<lambda>text pat old. scl_search_boyer_moore a (Some text) (of_nat (length text)) (Some pat) (of_nat (length pat)) (Some old)"
    "\<lambda>pat text. scl_allocator a \<and> bm_fits a pat text" for a
  by unfold_locales (blast intro: bm_first)

end
