(* ===== verification/Scl_Layout.thy ===== *)
theory Scl_Layout
  imports Scl_Typed
begin

text \<open>
  Integers as bytes of a struct: little-endian encodings of \<open>size_t\<close> and \<open>int\<close> that \<open>u64_of\<close> and
  \<open>i32_of\<close> read back, and the fields of an element.
\<close>

definition u64_bytes :: "size_t \<Rightarrow> block" where
  "u64_bytes x = map (\<lambda>i. ucast (drop_bit (8 * i) x)) [0..<8]"

definition i32_bytes :: "32 word \<Rightarrow> block" where
  "i32_bytes x = map (\<lambda>i. ucast (drop_bit (8 * i) x)) [0..<4]"

lemma length_u64_bytes [simp]: "length (u64_bytes x) = 8"
  by (simp add: u64_bytes_def)

lemma length_i32_bytes [simp]: "length (i32_bytes x) = 4"
  by (simp add: i32_bytes_def)

lemma horner_sum_digits:
  "horner_sum (\<lambda>i. take_bit 8 (drop_bit (8 * i) z)) 256 [0..<n] = take_bit (8 * n) (z :: int)"
proof (induction n)
  case (Suc n)
  have "take_bit (8 * Suc n) z = take_bit (8 * n) z + push_bit (8 * n) (take_bit 8 (drop_bit (8 * n) z))"
    using bits_ident [of "8 * n" "take_bit (8 * Suc n) z"]
    by (simp add: drop_bit_take_bit min_def)
  then show ?case using Suc
    by (simp add: horner_sum_append push_bit_eq_mult power_mult)
qed simp

lemma take_bit_uint: "take_bit LENGTH('a) (uint (x :: 'a::len word)) = uint x"
  by transfer simp

lemma uint_byte_digit: "uint (ucast (drop_bit k (x :: 'a::len word)) :: byte) = take_bit 8 (drop_bit k (uint x))"
  by (simp add: unsigned_ucast_eq unsigned_drop_bit_eq take_bit_uint)

lemma horner_map: "horner_sum f a (map g xs) = horner_sum (f \<circ> g) a xs"
  by (induction xs) simp_all

lemma u64_of_bytes [simp]: "u64_of (u64_bytes x) = x"
proof -
  have "horner_sum uint 256 (u64_bytes x) = take_bit 64 (uint x)"
    using horner_sum_digits [of "uint x" 8] by (simp add: u64_bytes_def horner_map comp_def uint_byte_digit)
  then show ?thesis using take_bit_uint [of x] by (simp add: u64_of_def)
qed

lemma i32_of_bytes [simp]: "i32_of (i32_bytes x) = x"
proof -
  have "horner_sum uint 256 (i32_bytes x) = take_bit 32 (uint x)"
    using horner_sum_digits [of "uint x" 4] by (simp add: i32_bytes_def horner_map comp_def uint_byte_digit)
  then show ?thesis using take_bit_uint [of x] by (simp add: i32_of_def)
qed

section \<open>Fields\<close>

definition field :: "nat \<Rightarrow> nat \<Rightarrow> block \<Rightarrow> block" where
  "field off n b = take n (drop off b)"

definition put_field :: "nat \<Rightarrow> block \<Rightarrow> block \<Rightarrow> block" where
  "put_field off v b = take off b @ v @ drop (off + length v) b"

lemma length_put_field [simp]: "off + length v \<le> length b \<Longrightarrow> length (put_field off v b) = length b"
  by (simp add: put_field_def)

lemma field_put_same: "off + length v \<le> length b \<Longrightarrow> n = length v \<Longrightarrow> field off n (put_field off v b) = v"
  by (simp add: field_def put_field_def)

lemma field_put_other:
  assumes "off + length v \<le> length b" and "off' + n \<le> off \<or> off + length v \<le> off'"
  shows "field off' n (put_field off v b) = field off' n b"
  using assms(2)
proof
  assume "off' + n \<le> off"
  then show ?thesis using assms(1) by (simp add: field_def put_field_def take_drop min_def)
next
  assume "off + length v \<le> off'"
  then have "drop off' (put_field off v b) = drop off' b"
    using assms(1) by (simp add: put_field_def)
  then show ?thesis by (simp add: field_def)
qed

end
