(* ===== verification/Scl_Graph.thy ===== *)
theory Scl_Graph
  imports Scl_Array Scl_Layout
begin

text \<open>
  The graph of \<open>libs/structures/graph/scl_graph.c\<close>: vertices and edges are elements of two arrays of
  \<open>Scl_Array\<close>, the edges of a vertex are a chain of indices into the edge array, and removed edges are kept
  on a free list through the same field. The abstraction is the list of adjacency lists. The invariant says
  that the chains and the free list partition the edge array.
\<close>

section \<open>Records in the arrays\<close>

abbreviation GRAPH_NIL :: size_t where
  "GRAPH_NIL \<equiv> - 1"

record scl_graph_edge_t =
  edge_to :: size_t
  edge_weight :: "32 word"
  edge_next :: size_t

text \<open>Four bytes of padding follow the weight; the value an initialiser leaves there is never read.\<close>

definition edge_block :: "scl_graph_edge_t \<Rightarrow> block" where
  "edge_block e = u64_bytes (edge_to e) @ i32_bytes (edge_weight e) @ replicate 4 0 @ u64_bytes (edge_next e)"

definition edge_of :: "block \<Rightarrow> scl_graph_edge_t" where
  "edge_of b = \<lparr>edge_to = u64_of (field 0 8 b), edge_weight = i32_of (field 8 4 b), edge_next = u64_of (field 16 8 b)\<rparr>"

record scl_graph_t =
  gr_nodes :: scl_array_t
  gr_edges :: scl_array_t
  gr_vertex_count :: size_t
  gr_edge_count :: size_t
  gr_free_head :: size_t

text \<open>Reading and overwriting the element at \<open>data + i * es\<close>, without the bounds check of the array's own
  operations.\<close>

definition array_peek :: "scl_array_t \<Rightarrow> size_t \<Rightarrow> block ub" where
  "array_peek s i = load_elem (arr_data s) i (arr_element_size s)"

definition array_poke :: "scl_array_t \<Rightarrow> size_t \<Rightarrow> block \<Rightarrow> scl_array_t ub" where
  "array_poke s i e = do {
     d \<leftarrow> scl_memcpy (arr_data s) (unat (i * arr_element_size s)) (Some e) 0 (unat (arr_element_size s));
     Some (s\<lparr>arr_data := d\<rparr>)
   }"

definition edge_set_next :: "scl_graph_t \<Rightarrow> size_t \<Rightarrow> size_t \<Rightarrow> scl_graph_t ub" where
  "edge_set_next g e v = do {
     b \<leftarrow> array_peek (gr_edges g) e;
     edges \<leftarrow> array_poke (gr_edges g) e (put_field 16 (u64_bytes v) b);
     Some (g\<lparr>gr_edges := edges\<rparr>)
   }"

definition node_set_head :: "scl_graph_t \<Rightarrow> size_t \<Rightarrow> size_t \<Rightarrow> scl_graph_t ub" where
  "node_set_head g v e = do {
     nodes \<leftarrow> array_poke (gr_nodes g) v (u64_bytes e);
     Some (g\<lparr>gr_nodes := nodes\<rparr>)
   }"

section \<open>The operations\<close>

fun graph_fill :: "scl_allocator_t \<Rightarrow> nat \<Rightarrow> scl_array_t \<Rightarrow> (scl_error_t \<times> scl_array_t) ub" where
  "graph_fill a 0 nodes = Some (SCL_OK, nodes)"
| "graph_fill a (Suc k) nodes = do {
     (err, n) \<leftarrow> scl_array_push a (Some nodes) (Some (u64_bytes GRAPH_NIL));
     nodes \<leftarrow> n;
     if err \<noteq> SCL_OK then Some (err, nodes) else graph_fill a k nodes
   }"

definition scl_graph_init_ex ::
    "scl_allocator_t \<Rightarrow> scl_graph_t ptr \<Rightarrow> size_t \<Rightarrow> size_t \<Rightarrow> (scl_error_t \<times> scl_graph_t ptr) ub" where
  "scl_graph_init_ex a gp vertex_count shard_len =
     (case gp of
        None \<Rightarrow> Some (SCL_ERR_NULL_PTR, gp)
      | Some g \<Rightarrow>
          if vertex_count = 0 then Some (SCL_ERR_INVALID_ARG, gp)
          else do {
            let shard_len = (if shard_len = 0 then 256 else shard_len);
            let g = g\<lparr>gr_vertex_count := vertex_count, gr_edge_count := 0, gr_free_head := GRAPH_NIL\<rparr>;
            let (err, n) = scl_array_init a (Some (gr_nodes g)) 8 shard_len;
            nodes \<leftarrow> n;
            let g = g\<lparr>gr_nodes := nodes\<rparr>;
            if err \<noteq> SCL_OK then Some (err, Some (g\<lparr>gr_vertex_count := 0\<rparr>))
            else do {
              let (err, e) = scl_array_init a (Some (gr_edges g)) 24 shard_len;
              edges \<leftarrow> e;
              dead_nodes \<leftarrow> scl_array_destroy (Some nodes);
              let g = g\<lparr>gr_edges := edges\<rparr>;
              if err \<noteq> SCL_OK then Some (err, Some (g\<lparr>gr_nodes := dead_nodes, gr_vertex_count := 0\<rparr>))
              else do {
                (err, nodes) \<leftarrow> graph_fill a (unat vertex_count) nodes;
                dead_nodes \<leftarrow> scl_array_destroy (Some nodes);
                dead_edges \<leftarrow> scl_array_destroy (Some edges);
                if err \<noteq> SCL_OK
                then Some (SCL_ERR_OUT_OF_MEMORY, Some (g\<lparr>gr_nodes := dead_nodes, gr_edges := dead_edges\<rparr>))
                else Some (SCL_OK, Some (g\<lparr>gr_nodes := nodes\<rparr>))
              }
            }
          })"

definition scl_graph_init ::
    "scl_allocator_t \<Rightarrow> scl_graph_t ptr \<Rightarrow> size_t \<Rightarrow> (scl_error_t \<times> scl_graph_t ptr) ub" where
  "scl_graph_init a gp vertex_count = scl_graph_init_ex a gp vertex_count 256"

definition scl_graph_destroy :: "scl_graph_t ptr \<Rightarrow> scl_graph_t ptr" where
  "scl_graph_destroy gp =
     map_option (\<lambda>g. g\<lparr>gr_nodes := the (scl_array_destroy (Some (gr_nodes g))),
       gr_edges := the (scl_array_destroy (Some (gr_edges g))),
       gr_vertex_count := 0, gr_edge_count := 0, gr_free_head := GRAPH_NIL\<rparr>) gp"

definition scl_graph_add_edge ::
    "scl_allocator_t \<Rightarrow> scl_graph_t ptr \<Rightarrow> size_t \<Rightarrow> size_t \<Rightarrow> 32 word \<Rightarrow> (scl_error_t \<times> scl_graph_t ptr) ub" where
  "scl_graph_add_edge a gp src dst weight =
     (case gp of
        None \<Rightarrow> Some (SCL_ERR_NULL_PTR, gp)
      | Some g \<Rightarrow>
          if gr_vertex_count g \<le> src \<or> gr_vertex_count g \<le> dst then Some (SCL_ERR_INVALID_INDEX, gp)
          else do {
            nb \<leftarrow> array_peek (gr_nodes g) src;
            (err, idx, g) \<leftarrow> (if gr_free_head g \<noteq> GRAPH_NIL then do {
                let idx = gr_free_head g;
                b \<leftarrow> array_peek (gr_edges g) idx;
                let g = g\<lparr>gr_free_head := edge_next (edge_of b)\<rparr>;
                let b = put_field 0 (u64_bytes dst) b;
                let b = put_field 8 (i32_bytes weight) b;
                let b = put_field 16 (u64_bytes (u64_of nb)) b;
                edges \<leftarrow> array_poke (gr_edges g) idx b;
                Some (SCL_OK, idx, g\<lparr>gr_edges := edges\<rparr>)
              } else do {
                let e = \<lparr>edge_to = dst, edge_weight = weight, edge_next = u64_of nb\<rparr>;
                (err, es) \<leftarrow> scl_array_push a (Some (gr_edges g)) (Some (edge_block e));
                edges \<leftarrow> es;
                Some (err, arr_count edges - 1, g\<lparr>gr_edges := edges\<rparr>)
              });
            if err \<noteq> SCL_OK then Some (err, Some g)
            else do {
              g \<leftarrow> node_set_head g src idx;
              Some (SCL_OK, Some (g\<lparr>gr_edge_count := gr_edge_count g + 1\<rparr>))
            }
          })"

text \<open>\<open>link\<close> points to the head of the vertex or to the \<open>next\<close> field of an edge.\<close>

datatype graph_link = Head_of size_t | Next_of size_t

definition set_link :: "scl_graph_t \<Rightarrow> graph_link \<Rightarrow> size_t \<Rightarrow> scl_graph_t ub" where
  "set_link g link v = (case link of Head_of n \<Rightarrow> node_set_head g n v | Next_of e \<Rightarrow> edge_set_next g e v)"

partial_function (option) graph_unlink ::
    "scl_graph_t \<Rightarrow> size_t \<Rightarrow> graph_link \<Rightarrow> size_t \<Rightarrow> (scl_error_t \<times> scl_graph_t) ub" where
  [code]: "graph_unlink g dst link e =
     (if e \<noteq> GRAPH_NIL then do {
        b \<leftarrow> array_peek (gr_edges g) e;
        if edge_to (edge_of b) = dst then do {
          g \<leftarrow> set_link g link (edge_next (edge_of b));
          g \<leftarrow> edge_set_next g e (gr_free_head g);
          Some (SCL_OK, g\<lparr>gr_free_head := e, gr_edge_count := gr_edge_count g - 1\<rparr>)
        } else graph_unlink g dst (Next_of e) (edge_next (edge_of b))
      } else Some (SCL_ERR_NOT_FOUND, g))"

definition scl_graph_remove_edge ::
    "scl_graph_t ptr \<Rightarrow> size_t \<Rightarrow> size_t \<Rightarrow> (scl_error_t \<times> scl_graph_t ptr) ub" where
  "scl_graph_remove_edge gp src dst =
     (case gp of
        None \<Rightarrow> Some (SCL_ERR_NULL_PTR, gp)
      | Some g \<Rightarrow>
          if gr_vertex_count g \<le> src \<or> gr_vertex_count g \<le> dst then Some (SCL_ERR_INVALID_INDEX, gp)
          else do {
            nb \<leftarrow> array_peek (gr_nodes g) src;
            (err, g) \<leftarrow> graph_unlink g dst (Head_of src) (u64_of nb);
            Some (err, Some g)
          })"

definition scl_graph_adj_head :: "scl_graph_t \<Rightarrow> size_t \<Rightarrow> size_t ub" where
  "scl_graph_adj_head g v =
     (if arr_count (gr_nodes g) \<le> v then Some GRAPH_NIL
      else do { b \<leftarrow> array_peek (gr_nodes g) v; Some (u64_of b) })"

definition scl_graph_edge :: "scl_graph_t \<Rightarrow> size_t \<Rightarrow> scl_graph_edge_t ptr ub" where
  "scl_graph_edge g e =
     (if arr_count (gr_edges g) \<le> e then Some None
      else do { b \<leftarrow> array_peek (gr_edges g) e; Some (Some (edge_of b)) })"

text \<open>The loop every traversal uses: \<open>for (e = head; e != NIL;) { ed = scl_graph_edge(g, e); \<dots>; e = ed->next; }\<close>. The body
  leaves the loop with \<open>Inl\<close>; the callers dereference \<open>ed\<close> unchecked.\<close>

partial_function (option) for_edges ::
    "scl_graph_t \<Rightarrow> size_t \<Rightarrow> (scl_graph_edge_t \<Rightarrow> 's \<Rightarrow> ('r + 's) ub) \<Rightarrow> 's \<Rightarrow> ('r + 's) ub" where
  [code]: "for_edges g e body s =
     (if e \<noteq> GRAPH_NIL then do {
        p \<leftarrow> scl_graph_edge g e;
        ed \<leftarrow> p;
        r \<leftarrow> body ed s;
        (case r of Inl x \<Rightarrow> Some (Inl x) | Inr s \<Rightarrow> for_edges g (edge_next ed) body s)
      } else Some (Inr s))"

definition scl_graph_has_edge :: "scl_graph_t ptr \<Rightarrow> size_t \<Rightarrow> size_t \<Rightarrow> bool ub" where
  "scl_graph_has_edge gp src dst =
     (case gp of
        None \<Rightarrow> Some False
      | Some g \<Rightarrow>
          if gr_vertex_count g \<le> src \<or> gr_vertex_count g \<le> dst then Some False
          else do {
            e \<leftarrow> scl_graph_adj_head g src;
            r \<leftarrow> for_edges g e (\<lambda>ed s. Some (if edge_to ed = dst then Inl () else Inr ())) ();
            Some (case r of Inl _ \<Rightarrow> True | Inr _ \<Rightarrow> False)
          })"

definition scl_graph_vertex_count :: "scl_graph_t ptr \<Rightarrow> size_t" where
  "scl_graph_vertex_count gp = (case gp of None \<Rightarrow> 0 | Some g \<Rightarrow> gr_vertex_count g)"

definition scl_graph_edge_count :: "scl_graph_t ptr \<Rightarrow> size_t" where
  "scl_graph_edge_count gp = (case gp of None \<Rightarrow> 0 | Some g \<Rightarrow> gr_edge_count g)"

section \<open>Elements of the arrays\<close>

lemma length_edge_block [simp]: "length (edge_block e) = 24"
  by (simp add: edge_block_def)

lemma edge_of_block [simp]: "edge_of (edge_block e) = e"
  by (simp add: edge_of_def edge_block_def field_def)

lemma edge_of_put:
  assumes "length b = 24"
  shows "edge_of (put_field 0 (u64_bytes v) b) = (edge_of b)\<lparr>edge_to := v\<rparr>"
    and "edge_of (put_field 8 (i32_bytes w) b) = (edge_of b)\<lparr>edge_weight := w\<rparr>"
    and "edge_of (put_field 16 (u64_bytes v) b) = (edge_of b)\<lparr>edge_next := v\<rparr>"
  using assms by (simp_all add: edge_of_def field_put_same field_put_other)

definition elements :: "(block \<Rightarrow> 'a) \<Rightarrow> scl_array_t \<Rightarrow> 'a list" where
  "elements f s = map f (array_list s)"

lemma length_elements [simp]: "length (elements f s) = unat (arr_count s)"
  by (simp add: elements_def)

lemma array_elem_length: "array_inv s \<Longrightarrow> j < unat (arr_count s) \<Longrightarrow> length (array_list s ! j) = unat (arr_element_size s)"
  unfolding array_list_def
  using array_inv_buf [of s] length_slot [of "arr_data s" "arr_capacity s" "arr_element_size s" j]
  by (simp add: array_inv_def word_le_unat)

lemma array_peek_spec:
  assumes "array_inv s" and "unat i < unat (arr_count s)"
  shows "\<exists>b. array_peek s i = Some b \<and> b = array_list s ! unat i \<and> length b = unat (arr_element_size s)"
  using array_load [OF assms] array_elem_length [OF assms] by (simp add: array_peek_def)

lemma array_poke_spec:
  assumes "array_inv s" and "unat i < unat (arr_count s)" and "length e = unat (arr_element_size s)"
  shows "\<exists>s'. array_poke s i e = Some s' \<and> array_inv s' \<and> array_list s' = (array_list s)[unat i := e] \<and>
    arr_element_size s' = arr_element_size s \<and> arr_count s' = arr_count s"
proof -
  have i: "i < arr_count s" using assms(2) by (simp add: word_less_unat)
  from set_spec [OF assms(1) _ i, of e] assms(3) obtain s' where
    "scl_array_set (Some s) i (Some e) = Some (SCL_OK, Some s')" "array_inv s'"
    "array_list s' = (array_list s)[unat i := e]" "arr_element_size s' = arr_element_size s" by auto
  moreover have "\<not> arr_count s \<le> i" using i by simp
  ultimately show ?thesis by (auto simp: scl_array_set_def array_poke_def Let_def bind_eq_Some_conv)
qed

section \<open>Chains\<close>

fun chain :: "scl_graph_edge_t list \<Rightarrow> size_t \<Rightarrow> nat list \<Rightarrow> bool" where
  "chain es e [] \<longleftrightarrow> e = GRAPH_NIL"
| "chain es e (i # is) \<longleftrightarrow> e \<noteq> GRAPH_NIL \<and> i = unat e \<and> i < length es \<and> chain es (edge_next (es ! i)) is"

lemma chain_bound: "chain es e is \<Longrightarrow> i \<in> set is \<Longrightarrow> i < length es"
  by (induction "is" arbitrary: e) auto

lemma chain_update_other: "i \<notin> set is \<Longrightarrow> chain (es[i := x]) e is \<longleftrightarrow> chain es e is"
  by (induction "is" arbitrary: e) auto

lemma chain_snoc: "chain es e is \<Longrightarrow> chain (es @ [x]) e is"
  by (induction "is" arbitrary: e) (auto simp: nth_append)

lemma chain_unique: "chain es e is \<Longrightarrow> chain es e js \<Longrightarrow> is = js"
proof (induction "is" arbitrary: e js)
  case Nil
  then show ?case by (cases js) auto
next
  case (Cons i "is")
  then show ?case by (cases js) auto
qed

lemma chain_cong_next:
  "chain es e is \<Longrightarrow> length es' = length es \<Longrightarrow> (\<And>i. i \<in> set is \<Longrightarrow> edge_next (es' ! i) = edge_next (es ! i)) \<Longrightarrow> chain es' e is"
  by (induction "is" arbitrary: e) auto

text \<open>Taking an edge out of the middle of a chain.\<close>

lemma chain_unlink:
  assumes "chain es e (pre @ p # i # post)" and "distinct (pre @ p # i # post)"
  shows "chain (es[p := (es ! p)\<lparr>edge_next := edge_next (es ! i)\<rparr>]) e (pre @ p # post)"
  using assms
proof (induction pre arbitrary: e)
  case Nil
  then have "p < length es" "p \<notin> set post" "chain es (edge_next (es ! i)) post" by auto
  then show ?case using Nil by (simp add: chain_update_other)
next
  case (Cons q pre)
  then show ?case by auto
qed

text \<open>The indices of a chain, by following it for at most as many steps as there are edges.\<close>

fun follow :: "nat \<Rightarrow> scl_graph_edge_t list \<Rightarrow> size_t \<Rightarrow> nat list" where
  "follow 0 es e = []"
| "follow (Suc n) es e = (if e = GRAPH_NIL \<or> length es \<le> unat e then [] else unat e # follow n es (edge_next (es ! unat e)))"

lemma follow_chain: "chain es e is \<Longrightarrow> length is \<le> n \<Longrightarrow> follow n es e = is"
proof (induction n arbitrary: e "is")
  case 0
  then show ?case by simp
next
  case (Suc n)
  then show ?case by (cases "is") auto
qed

section \<open>Invariant and abstraction\<close>

definition heads :: "scl_graph_t \<Rightarrow> size_t list" where
  "heads g = elements u64_of (gr_nodes g)"

definition edge_list :: "scl_graph_t \<Rightarrow> scl_graph_edge_t list" where
  "edge_list g = elements edge_of (gr_edges g)"

text \<open>\<open>cs\<close> are the chains of the vertices, \<open>fr\<close> is the free list.\<close>

definition chains_ok :: "size_t list \<Rightarrow> scl_graph_edge_t list \<Rightarrow> size_t \<Rightarrow> nat list list \<Rightarrow> nat list \<Rightarrow> bool" where
  "chains_ok hs es fh cs fr \<longleftrightarrow> length cs = length hs \<and> (\<forall>v < length hs. chain es (hs ! v) (cs ! v)) \<and> chain es fh fr \<and>
     mset (concat cs @ fr) = mset [0..<length es] \<and> (\<forall>i \<in> set (concat cs). unat (edge_to (es ! i)) < length hs)"

definition arrays_ok :: "scl_graph_t \<Rightarrow> bool" where
  "arrays_ok g \<longleftrightarrow> array_inv (gr_nodes g) \<and> arr_element_size (gr_nodes g) = 8 \<and>
     array_inv (gr_edges g) \<and> arr_element_size (gr_edges g) = 24 \<and> arr_count (gr_nodes g) = gr_vertex_count g"

definition graph_inv :: "scl_graph_t \<Rightarrow> bool" where
  "graph_inv g \<longleftrightarrow> arrays_ok g \<and> (\<exists>cs fr. chains_ok (heads g) (edge_list g) (gr_free_head g) cs fr \<and>
     unat (gr_edge_count g) = length (concat cs))"

type_synonym arc = "nat \<times> int"

definition arc_of :: "scl_graph_edge_t \<Rightarrow> arc" where
  "arc_of ed = (unat (edge_to ed), sint (edge_weight ed))"

definition graph_adj :: "scl_graph_t \<Rightarrow> arc list list" where
  "graph_adj g = map (\<lambda>h. map (\<lambda>i. arc_of (edge_list g ! i)) (follow (length (edge_list g)) (edge_list g) h)) (heads g)"

definition graph_rep :: "scl_graph_t \<Rightarrow> nat list list \<Rightarrow> nat list \<Rightarrow> bool" where
  "graph_rep g cs fr \<longleftrightarrow> arrays_ok g \<and> chains_ok (heads g) (edge_list g) (gr_free_head g) cs fr \<and>
     unat (gr_edge_count g) = length (concat cs)"

lemma graph_inv_rep: "graph_inv g \<longleftrightarrow> (\<exists>cs fr. graph_rep g cs fr)"
  by (auto simp: graph_inv_def graph_rep_def)

lemma graph_inv_arrays: "graph_inv g \<Longrightarrow> arrays_ok g"
  by (simp add: graph_inv_def)

lemma chains_distinct: "chains_ok hs es fh cs fr \<Longrightarrow> distinct (concat cs @ fr)"
  unfolding chains_ok_def using mset_eq_imp_distinct_iff distinct_upt by blast

lemma chains_member: "chains_ok hs es fh cs fr \<Longrightarrow> v < length hs \<Longrightarrow> i \<in> set (cs ! v) \<Longrightarrow> i \<in> set (concat cs)"
  unfolding chains_ok_def by (metis UN_I nth_mem set_concat)

lemma chain_distinct:
  assumes "chains_ok hs es fh cs fr" and "v < length hs"
  shows "distinct (cs ! v)"
proof -
  have "distinct (concat cs)" using chains_distinct [OF assms(1)] by simp
  then show ?thesis using assms by (simp add: distinct_concat_iff chains_ok_def)
qed

lemma chain_length:
  assumes "chains_ok hs es fh cs fr" and "v < length hs"
  shows "length (cs ! v) \<le> length es"
proof -
  have "set (cs ! v) \<subseteq> {..<length es}" using assms chain_bound by (auto simp: chains_ok_def)
  then have "card (set (cs ! v)) \<le> length es" using card_mono [of "{..<length es}"] by fastforce
  then show ?thesis using chain_distinct [OF assms] by (simp add: distinct_card)
qed

lemma graph_adj_rep:
  assumes "graph_rep g cs fr"
  shows "graph_adj g = map (map (\<lambda>i. arc_of (edge_list g ! i))) cs"
proof -
  have ok: "chains_ok (heads g) (edge_list g) (gr_free_head g) cs fr" using assms by (simp add: graph_rep_def)
  then have len: "length cs = length (heads g)" by (simp add: chains_ok_def)
  have "follow (length (edge_list g)) (edge_list g) (heads g ! v) = cs ! v" if "v < length (heads g)" for v
    using ok chain_length [OF ok that] that by (intro follow_chain) (auto simp: chains_ok_def)
  then show ?thesis using len by (intro nth_equalityI) (simp_all add: graph_adj_def)
qed

lemma length_heads: "arrays_ok g \<Longrightarrow> length (heads g) = unat (gr_vertex_count g)"
  by (simp add: heads_def arrays_ok_def)

lemma length_graph_adj: "arrays_ok g \<Longrightarrow> length (graph_adj g) = unat (gr_vertex_count g)"
  by (simp add: graph_adj_def length_heads)

lemma length_edge_list [simp]: "length (edge_list g) = unat (arr_count (gr_edges g))"
  by (simp add: edge_list_def)

text \<open>All edge indices are below the end marker.\<close>

lemma edges_below_nil: "arrays_ok g \<Longrightarrow> length (edge_list g) < 2 ^ 63"
proof -
  assume a: "arrays_ok g"
  then have "buf_ok (arr_data (gr_edges g)) (arr_capacity (gr_edges g)) 24" "arr_count (gr_edges g) \<le> arr_capacity (gr_edges g)"
    by (metis arrays_ok_def array_inv_def)+
  then show ?thesis using buf_ok_bound(2) by (fastforce simp: word_le_unat)
qed

subsection \<open>Access by index\<close>

lemma node_peek:
  assumes "arrays_ok g" and "v < gr_vertex_count g"
  shows "\<exists>b. array_peek (gr_nodes g) v = Some b \<and> u64_of b = heads g ! unat v"
  using assms array_peek_spec [of "gr_nodes g" v]
  by (auto simp: arrays_ok_def heads_def elements_def word_less_unat)

lemma edge_peek:
  assumes "arrays_ok g" and "unat e < length (edge_list g)"
  shows "\<exists>b. array_peek (gr_edges g) e = Some b \<and> length b = 24 \<and> edge_of b = edge_list g ! unat e"
  using assms array_peek_spec [of "gr_edges g" e]
  by (auto simp: arrays_ok_def edge_list_def elements_def)

lemma edge_poke:
  assumes "arrays_ok g" and "unat e < length (edge_list g)" and "length b = 24"
  shows "\<exists>s. array_poke (gr_edges g) e b = Some s \<and> arrays_ok (g\<lparr>gr_edges := s\<rparr>) \<and>
    edge_list (g\<lparr>gr_edges := s\<rparr>) = (edge_list g)[unat e := edge_of b]"
  using assms array_poke_spec [of "gr_edges g" e b]
  by (auto simp: arrays_ok_def edge_list_def elements_def map_update)

lemma node_set_head_spec:
  assumes "arrays_ok g" and "v < gr_vertex_count g"
  shows "\<exists>s. node_set_head g v e = Some (g\<lparr>gr_nodes := s\<rparr>) \<and> arrays_ok (g\<lparr>gr_nodes := s\<rparr>) \<and>
    heads (g\<lparr>gr_nodes := s\<rparr>) = (heads g)[unat v := e]"
  using assms array_poke_spec [of "gr_nodes g" v "u64_bytes e"]
  by (auto simp: node_set_head_def arrays_ok_def heads_def elements_def map_update word_less_unat)

lemma edge_set_next_spec:
  assumes "arrays_ok g" and "unat e < length (edge_list g)"
  shows "\<exists>s. edge_set_next g e v = Some (g\<lparr>gr_edges := s\<rparr>) \<and> arrays_ok (g\<lparr>gr_edges := s\<rparr>) \<and>
    edge_list (g\<lparr>gr_edges := s\<rparr>) = (edge_list g)[unat e := (edge_list g ! unat e)\<lparr>edge_next := v\<rparr>]"
proof -
  obtain b where b: "array_peek (gr_edges g) e = Some b" "length b = 24" "edge_of b = edge_list g ! unat e"
    using edge_peek [OF assms] by blast
  then have "length (put_field 16 (u64_bytes v) b) = 24" by simp
  from edge_poke [OF assms this] b show ?thesis by (auto simp: edge_set_next_def edge_of_put)
qed

lemma heads_update [simp]:
  "heads (g\<lparr>gr_edges := s\<rparr>) = heads g" "heads (g\<lparr>gr_free_head := f\<rparr>) = heads g" "heads (g\<lparr>gr_edge_count := c\<rparr>) = heads g"
  "edge_list (g\<lparr>gr_nodes := n\<rparr>) = edge_list g" "edge_list (g\<lparr>gr_free_head := f\<rparr>) = edge_list g"
  "edge_list (g\<lparr>gr_edge_count := c\<rparr>) = edge_list g"
  by (simp_all add: heads_def edge_list_def)

lemma arrays_ok_update [simp]:
  "arrays_ok (g\<lparr>gr_free_head := f\<rparr>) = arrays_ok g" "arrays_ok (g\<lparr>gr_edge_count := c\<rparr>) = arrays_ok g"
  by (simp_all add: arrays_ok_def)

section \<open>Adding an edge\<close>

lemma concat_update:
  assumes "v < length cs"
  shows "mset (concat (cs[v := xs])) + mset (cs ! v) = mset (concat cs) + mset xs"
proof -
  have "cs = take v cs @ cs ! v # drop (Suc v) cs" using assms by (rule id_take_nth_drop)
  then have "mset (concat cs) = mset (concat (take v cs)) + mset (cs ! v) + mset (concat (drop (Suc v) cs))"
    by (metis concat.simps(2) concat_append mset_append union_assoc)
  then show ?thesis using assms by (simp add: upd_conv_take_nth_drop)
qed

lemma concat_cons:
  assumes "v < length cs"
  shows "mset (concat (cs[v := i # cs ! v])) = add_mset i (mset (concat cs))"
  using concat_update [OF assms, of "i # cs ! v"] by simp

text \<open>The new edge is the head of its vertex's chain; its index comes off the free list or is the new end.\<close>

lemma chains_ok_add:
  assumes ok: "chains_ok hs es fh cs fr" and v: "v < length hs" "unat (edge_to ed) < length hs"
    and nx: "edge_next ed = hs ! v" and i: "unat i < length es'" "i \<noteq> GRAPH_NIL"
    and es': "es' ! unat i = ed" "\<And>k. k < length es \<Longrightarrow> k \<noteq> unat i \<Longrightarrow> es' ! k = es ! k" "length es \<le> length es'"
    and fr': "chain es' fh' fr'" and m: "mset (concat cs @ unat i # fr') = mset [0..<length es']"
    and new: "unat i \<notin> set (concat cs)"
  shows "chains_ok (hs[v := i]) es' fh' (cs[v := unat i # cs ! v]) fr'"
proof -
  have len: "length cs = length hs" using ok by (simp add: chains_ok_def)
  have old: "chain es' e ks" if c: "chain es e ks" and sub: "set ks \<subseteq> set (concat cs)" for e ks
    using c sub
  proof (induction ks arbitrary: e)
    case (Cons k ks)
    then have "k \<noteq> unat i" "k < length es" using new by auto
    then show ?case using Cons es' by auto
  qed simp
  have sub: "set (cs ! w) \<subseteq> set (concat cs)" if "w < length hs" for w
    using chains_member [OF ok that] by blast
  have ch: "chain es' (hs[v := i] ! w) (cs[v := unat i # cs ! v] ! w)" if w: "w < length hs" for w
  proof (cases "w = v")
    case True
    then show ?thesis using w len i es'(1) nx old [OF _ sub [OF v(1)]] ok v(1) by (simp add: chains_ok_def)
  next
    case False
    then show ?thesis using w old [OF _ sub [OF w]] ok by (simp add: chains_ok_def)
  qed
  have "mset (concat (cs[v := unat i # cs ! v]) @ fr') = mset [0..<length es']"
    using m concat_cons [of v cs "unat i"] v(1) len by simp
  moreover have "unat (edge_to (es' ! k)) < length hs" if "k \<in> set (concat (cs[v := unat i # cs ! v]))" for k
  proof -
    have "k \<in># add_mset (unat i) (mset (concat cs))" using that concat_cons [of v cs "unat i"] v(1) len by (metis set_mset_mset)
    then have k: "k = unat i \<or> k \<in> set (concat cs)" by auto
    show ?thesis
    proof (cases "k = unat i")
      case True
      then show ?thesis using v(2) es'(1) by simp
    next
      case False
      then have kc: "k \<in> set (concat cs)" using k by blast
      then have "k < length es" using ok unfolding chains_ok_def
        by (metis Un_iff atLeastLessThan_iff mset_eq_setD set_append set_upt)
      moreover have "\<forall>k \<in> set (concat cs). unat (edge_to (es ! k)) < length hs" using ok unfolding chains_ok_def by blast
      ultimately show ?thesis using kc es'(2) False by metis
    qed
  qed
  ultimately show ?thesis using ch len fr' by (simp add: chains_ok_def)
qed

text \<open>What an insertion changes in the abstraction.\<close>

lemma adj_add:
  assumes ok: "chains_ok hs es fh cs fr" and v: "v < length hs" and i: "i \<notin> set (concat cs)"
    and es': "es' ! i = ed" "\<And>k. k < length es \<Longrightarrow> k \<noteq> i \<Longrightarrow> es' ! k = es ! k"
  shows "map (map (\<lambda>i. arc_of (es' ! i))) (cs[v := i # cs ! v])
    = (map (map (\<lambda>i. arc_of (es ! i))) cs)[v := arc_of ed # map (map (\<lambda>i. arc_of (es ! i))) cs ! v]"
proof -
  have len: "length cs = length hs" using ok by (simp add: chains_ok_def)
  have same: "map (\<lambda>i. arc_of (es' ! i)) (cs ! w) = map (\<lambda>i. arc_of (es ! i)) (cs ! w)" if w: "w < length hs" for w
  proof (rule map_cong [OF refl])
    fix k assume k: "k \<in> set (cs ! w)"
    then have "k \<noteq> i" using i chains_member [OF ok w] by blast
    moreover have "k < length es" using ok w k chain_bound by (auto simp: chains_ok_def)
    ultimately show "arc_of (es' ! k) = arc_of (es ! k)" using es'(2) by simp
  qed
  show ?thesis
  proof (rule nth_equalityI)
    fix w assume "w < length (map (map (\<lambda>i. arc_of (es' ! i))) (cs[v := i # cs ! v]))"
    then have w: "w < length hs" using len by simp
    show "map (map (\<lambda>i. arc_of (es' ! i))) (cs[v := i # cs ! v]) ! w
      = (map (map (\<lambda>i. arc_of (es ! i))) cs)[v := arc_of ed # map (map (\<lambda>i. arc_of (es ! i))) cs ! v] ! w"
      using len v w same [OF w] es'(1) by (cases "w = v") simp_all
  qed simp
qed

lemma free_head_cases:
  assumes "chain es fh fr"
  shows "fh = GRAPH_NIL \<and> fr = [] \<or> (\<exists>fr'. fh \<noteq> GRAPH_NIL \<and> fr = unat fh # fr' \<and> unat fh < length es \<and>
    chain es (edge_next (es ! unat fh)) fr')"
  using assms by (cases fr) auto

lemma edge_push:
  assumes a: "scl_allocator a" and g: "arrays_ok g"
  shows "\<exists>err s. scl_array_push a (Some (gr_edges g)) (Some (edge_block ed)) = Some (err, Some s) \<and>
    (if err = SCL_OK then arrays_ok (g\<lparr>gr_edges := s\<rparr>) \<and> edge_list (g\<lparr>gr_edges := s\<rparr>) = edge_list g @ [ed]
     else alloc_failed err \<and> s = gr_edges g)"
proof -
  have es: "arr_element_size (gr_edges g) = 24" and inv: "array_inv (gr_edges g)" using g by (simp_all add: arrays_ok_def)
  from scl_allocator.push_spec [OF a inv, of "edge_block ed"] es obtain err s where
    p: "scl_array_push a (Some (gr_edges g)) (Some (edge_block ed)) = Some (err, Some s)" "array_inv s"
    "arr_element_size s = arr_element_size (gr_edges g)"
    "if err = SCL_OK then array_list s = array_list (gr_edges g) @ [edge_block ed] else alloc_failed err \<and> s = gr_edges g"
    by auto
  then show ?thesis using g es by (auto simp: arrays_ok_def edge_list_def elements_def)
qed

lemma count_pred:
  assumes "unat c = Suc n"
  shows "unat (c - 1 :: size_t) = n"
  using assms by (metis diff_Suc_1 unat_eq_zero unat_pred nat.simps(3))

lemma word_not_nil: "unat (i :: size_t) < 2 ^ 63 \<Longrightarrow> i \<noteq> GRAPH_NIL"
  by (auto simp: unat_SIZE_MAX)

lemma edges_total: "chains_ok hs es fh cs fr \<Longrightarrow> length (concat cs) + length fr = length es"
  unfolding chains_ok_def by (metis length_append size_mset length_upt minus_nat.diff_0)

lemma edge_count_step:
  assumes g: "arrays_ok g" and "unat (c :: size_t) = n" and "Suc n \<le> length (edge_list g)"
  shows "unat (c + 1) = Suc n"
  using assms edges_below_nil [OF g] by (subst unat_add_bounded) simp_all

text \<open>The state before the edge count is raised.\<close>

definition added :: "scl_graph_t \<Rightarrow> size_t \<Rightarrow> size_t \<Rightarrow> 32 word \<Rightarrow> scl_graph_t \<Rightarrow> bool" where
  "added g u v w g' \<longleftrightarrow> graph_inv (g'\<lparr>gr_edge_count := gr_edge_count g + 1\<rparr>) \<and>
     gr_vertex_count g' = gr_vertex_count g \<and> gr_edge_count g' = gr_edge_count g \<and>
     unat (gr_edge_count g + 1) = Suc (unat (gr_edge_count g)) \<and>
     graph_adj (g'\<lparr>gr_edge_count := gr_edge_count g + 1\<rparr>)
       = (graph_adj g)[unat u := (unat v, sint w) # graph_adj g ! unat u]"

lemma add_edge_spec:
  assumes a: "scl_allocator a" and inv: "graph_inv g" and u: "u < gr_vertex_count g" and v: "v < gr_vertex_count g"
  shows "\<exists>err g'. scl_graph_add_edge a (Some g) u v w = Some (err, Some g') \<and> graph_inv g' \<and>
    gr_vertex_count g' = gr_vertex_count g \<and>
    (if err = SCL_OK
     then graph_adj g' = (graph_adj g)[unat u := (unat v, sint w) # graph_adj g ! unat u] \<and>
       unat (gr_edge_count g') = Suc (unat (gr_edge_count g))
     else alloc_failed err \<and> g' = g)"
proof -
  obtain cs fr where rep: "graph_rep g cs fr" using inv by (auto simp: graph_inv_rep)
  then have ar: "arrays_ok g" and ok: "chains_ok (heads g) (edge_list g) (gr_free_head g) cs fr"
    and cnt: "unat (gr_edge_count g) = length (concat cs)" by (simp_all add: graph_rep_def)
  let ?es = "edge_list g" and ?hs = "heads g"
  have len: "length ?hs = unat (gr_vertex_count g)" using ar by (rule length_heads)
  have uv: "unat u < length ?hs" "unat v < length ?hs" using u v by (simp_all add: len word_less_unat)
  have cl: "length cs = length ?hs" using ok by (simp add: chains_ok_def)
  obtain nb where nb: "array_peek (gr_nodes g) u = Some nb" "u64_of nb = ?hs ! unat u" using node_peek [OF ar u] by blast
  let ?ed = "\<lparr>edge_to = v, edge_weight = w, edge_next = ?hs ! unat u\<rparr>"
  have guard: "\<not> (gr_vertex_count g \<le> u \<or> gr_vertex_count g \<le> v)" using u v by auto
  have finish: "\<exists>g'. node_set_head g1 u i = Some g' \<and> added g u v w g'"
    if g1: "arrays_ok g1" "heads g1 = ?hs" "gr_vertex_count g1 = gr_vertex_count g" "gr_edge_count g1 = gr_edge_count g"
      and i: "unat i < length (edge_list g1)" and new: "unat i \<notin> set (concat cs)"
      and e1: "edge_list g1 ! unat i = ?ed" "\<And>k. k < length ?es \<Longrightarrow> k \<noteq> unat i \<Longrightarrow> edge_list g1 ! k = ?es ! k"
        "length ?es \<le> length (edge_list g1)"
      and f1: "chain (edge_list g1) (gr_free_head g1) fr'" and m: "mset (concat cs @ unat i # fr') = mset [0..<length (edge_list g1)]"
    for g1 i fr'
  proof -
    have inil: "i \<noteq> GRAPH_NIL" using i edges_below_nil [OF g1(1)] by (intro word_not_nil) simp
    obtain s where s: "node_set_head g1 u i = Some (g1\<lparr>gr_nodes := s\<rparr>)" "arrays_ok (g1\<lparr>gr_nodes := s\<rparr>)"
      "heads (g1\<lparr>gr_nodes := s\<rparr>) = ?hs[unat u := i]"
      using node_set_head_spec [OF g1(1), of u i] u g1(2,3) by auto
    have ok': "chains_ok (?hs[unat u := i]) (edge_list g1) (gr_free_head g1) (cs[unat u := unat i # cs ! unat u]) fr'"
      using chains_ok_add [OF ok uv(1) _ _ i inil e1 f1 m new] uv(2) by simp
    have "mset (concat (cs[unat u := unat i # cs ! unat u])) = add_mset (unat i) (mset (concat cs))"
      using concat_cons [of "unat u" cs "unat i"] uv(1) cl by simp
    then have lc: "length (concat (cs[unat u := unat i # cs ! unat u])) = Suc (length (concat cs))"
      by (metis size_add_mset size_mset)
    have ec: "unat (gr_edge_count g + 1) = Suc (length (concat cs))"
    proof (rule edge_count_step [OF g1(1) cnt])
      show "Suc (length (concat cs)) \<le> length (edge_list g1)" using edges_total [OF ok'] lc by linarith
    qed
    let ?g' = "g1\<lparr>gr_nodes := s, gr_edge_count := gr_edge_count g + 1\<rparr>"
    have rep': "graph_rep ?g' (cs[unat u := unat i # cs ! unat u]) fr'"
      using s(2,3) ok' ec lc by (simp add: graph_rep_def)
    have "graph_adj ?g' = (graph_adj g)[unat u := arc_of ?ed # graph_adj g ! unat u]"
      unfolding graph_adj_rep [OF rep'] graph_adj_rep [OF rep]
      using adj_add [OF ok uv(1) new e1(1,2)] by simp
    then have "graph_adj ?g' = (graph_adj g)[unat u := (unat v, sint w) # graph_adj g ! unat u]" by (simp add: arc_of_def)
    moreover have "graph_inv ?g'" using rep' by (auto simp: graph_inv_rep)
    ultimately show ?thesis using s(1) g1(3,4) ec cnt by (simp add: added_def)
  qed
  from free_head_cases [of ?es "gr_free_head g" fr] ok have
    "gr_free_head g = GRAPH_NIL \<and> fr = [] \<or> (\<exists>fr'. gr_free_head g \<noteq> GRAPH_NIL \<and> fr = unat (gr_free_head g) # fr' \<and>
      unat (gr_free_head g) < length ?es \<and> chain ?es (edge_next (?es ! unat (gr_free_head g))) fr')"
    by (simp add: chains_ok_def)
  then show ?thesis
  proof (elim disjE exE conjE)
    assume nil: "gr_free_head g = GRAPH_NIL" "fr = []"
    obtain err s where p: "scl_array_push a (Some (gr_edges g)) (Some (edge_block ?ed)) = Some (err, Some s)"
      "if err = SCL_OK then arrays_ok (g\<lparr>gr_edges := s\<rparr>) \<and> edge_list (g\<lparr>gr_edges := s\<rparr>) = ?es @ [?ed]
       else alloc_failed err \<and> s = gr_edges g"
      using edge_push [OF a ar] by blast
    show ?thesis
    proof (cases "err = SCL_OK")
      case False
      then have "scl_graph_add_edge a (Some g) u v w = Some (err, Some g)"
        using guard nb nil(1) p by (simp add: scl_graph_add_edge_def Let_def)
      then show ?thesis using False p(2) inv by auto
    next
      case True
      let ?g1 = "g\<lparr>gr_edges := s\<rparr>"
      have g1: "arrays_ok ?g1" "edge_list ?g1 = ?es @ [?ed]" using p(2) True by simp_all
      have i: "unat (arr_count s - 1) = length ?es"
      proof (rule count_pred)
        have "length (edge_list ?g1) = unat (arr_count s)" by simp
        then show "unat (arr_count s) = Suc (length ?es)" using g1(2) by (metis length_append_singleton)
      qed
      have m: "mset (concat cs) = mset [0..<length ?es]" using ok nil(2) by (simp add: chains_ok_def)
      have new: "length ?es \<notin> set (concat cs)" using m by (metis atLeastLessThan_iff less_irrefl mset_eq_setD set_upt)
      have m': "mset (concat cs @ length ?es # []) = mset [0..<length (edge_list ?g1)]"
        unfolding g1(2) using m by (simp only: mset_append length_append_singleton upt_Suc_append le0 list.size)
      have nth: "edge_list ?g1 ! length ?es = ?ed" "\<And>k. k < length ?es \<Longrightarrow> edge_list ?g1 ! k = ?es ! k"
        unfolding g1(2) by (simp_all add: nth_append)
      have "\<exists>g'. node_set_head ?g1 u (arr_count s - 1) = Some g' \<and> added g u v w g'"
      proof (rule finish)
        show "chain (edge_list ?g1) (gr_free_head ?g1) []" using nil(1) by simp
        show "unat (arr_count s - 1) < length (edge_list ?g1)" "length ?es \<le> length (edge_list ?g1)"
          unfolding i g1(2) by simp_all
      qed (use g1(1) i new nth m' in simp_all)
      then obtain g' where g': "node_set_head ?g1 u (arr_count s - 1) = Some g'" "added g u v w g'" by blast
      then have "scl_graph_add_edge a (Some g) u v w = Some (SCL_OK, Some (g'\<lparr>gr_edge_count := gr_edge_count g' + 1\<rparr>))"
        using True guard nb nil(1) p(1) by (simp add: scl_graph_add_edge_def Let_def)
      then show ?thesis using g'(2) by (simp add: added_def)
    qed
  next
    fix fr' assume f: "gr_free_head g \<noteq> GRAPH_NIL" "fr = unat (gr_free_head g) # fr'"
      "unat (gr_free_head g) < length ?es" "chain ?es (edge_next (?es ! unat (gr_free_head g))) fr'"
    let ?i = "gr_free_head g"
    obtain b where b: "array_peek (gr_edges g) ?i = Some b" "length b = 24" "edge_of b = ?es ! unat ?i"
      using edge_peek [OF ar f(3)] by blast
    let ?b = "put_field 16 (u64_bytes (?hs ! unat u)) (put_field 8 (i32_bytes w) (put_field 0 (u64_bytes v) b))"
    have b': "length ?b = 24" "edge_of ?b = ?ed" using b(2) by (simp_all add: edge_of_put)
    obtain s where s: "array_poke (gr_edges g) ?i ?b = Some s" "arrays_ok (g\<lparr>gr_edges := s\<rparr>)"
      "edge_list (g\<lparr>gr_edges := s\<rparr>) = ?es[unat ?i := ?ed]"
      using edge_poke [OF ar f(3) b'(1)] b'(2) by auto
    let ?g1 = "g\<lparr>gr_free_head := edge_next (?es ! unat ?i), gr_edges := s\<rparr>"
    have g1: "arrays_ok ?g1" "edge_list ?g1 = ?es[unat ?i := ?ed]"
      using s(2,3) by (simp_all add: edge_list_def arrays_ok_def)
    have d: "distinct (concat cs @ unat ?i # fr')" using chains_distinct [OF ok] f(2) by simp
    have m: "mset (concat cs @ unat ?i # fr') = mset [0..<length ?es]" using ok f(2) by (simp add: chains_ok_def)
    have "\<exists>g'. node_set_head ?g1 u ?i = Some g' \<and> added g u v w g'"
    proof (rule finish)
      show "chain (edge_list ?g1) (gr_free_head ?g1) fr'"
        unfolding g1(2) using f(4) d by (simp add: chain_update_other)
      show "mset (concat cs @ unat ?i # fr') = mset [0..<length (edge_list ?g1)]" unfolding g1(2) using m by simp
      show "unat ?i \<notin> set (concat cs)" using d by simp
      show "edge_list ?g1 ! unat ?i = ?ed" unfolding g1(2) using f(3) by simp
      show "edge_list ?g1 ! k = ?es ! k" if "k \<noteq> unat ?i" for k unfolding g1(2) using that by simp
      show "unat ?i < length (edge_list ?g1)" "length ?es \<le> length (edge_list ?g1)" unfolding g1(2) using f(3) by simp_all
    qed (use g1(1) in \<open>simp_all add: heads_def\<close>)
    then obtain g' where g': "node_set_head ?g1 u ?i = Some g'" "added g u v w g'" by blast
    then have "scl_graph_add_edge a (Some g) u v w = Some (SCL_OK, Some (g'\<lparr>gr_edge_count := gr_edge_count g' + 1\<rparr>))"
      using guard nb f(1) b s(1) by (simp add: scl_graph_add_edge_def Let_def)
    then show ?thesis using g'(2) by (simp add: added_def)
  qed
qed

section \<open>Initialisation\<close>

lemma graph_fill_spec:
  assumes a: "scl_allocator a"
  shows "array_inv s \<Longrightarrow> arr_element_size s = 8 \<Longrightarrow> \<exists>err s'. graph_fill a k s = Some (err, s') \<and> array_inv s' \<and>
    arr_element_size s' = 8 \<and> (err = SCL_OK \<longrightarrow> elements u64_of s' = elements u64_of s @ replicate k GRAPH_NIL)"
proof (induction k arbitrary: s)
  case 0
  then show ?case by simp
next
  case (Suc k)
  from scl_allocator.push_spec [OF a Suc.prems(1), of "u64_bytes GRAPH_NIL"] Suc.prems(2) obtain err s1 where
    p: "scl_array_push a (Some s) (Some (u64_bytes GRAPH_NIL)) = Some (err, Some s1)" "array_inv s1" "arr_element_size s1 = 8"
    "err = SCL_OK \<Longrightarrow> array_list s1 = array_list s @ [u64_bytes GRAPH_NIL]" by auto
  show ?case
  proof (cases "err = SCL_OK")
    case True
    from Suc.IH [OF p(2,3)] obtain err' s' where r: "graph_fill a k s1 = Some (err', s')" "array_inv s'" "arr_element_size s' = 8"
      "err' = SCL_OK \<longrightarrow> elements u64_of s' = elements u64_of s1 @ replicate k GRAPH_NIL" by blast
    have "elements u64_of s1 = elements u64_of s @ [GRAPH_NIL]" using p(4) True by (simp add: elements_def)
    then show ?thesis using p(1) r True by simp
  next
    case False
    then show ?thesis using p by simp
  qed
qed

lemma array_init_some: "\<exists>err s. scl_array_init a (Some x) es cap = (err, Some s)"
  by (auto simp: scl_array_init_def Let_def split: option.split)

text \<open>The stages of the initialisation: every one returns, and the last decides the result.\<close>

lemma graph_init_stages:
  assumes "scl_array_init a (Some (gr_nodes g0)) 8 (if sl = 0 then 256 else sl) = (e1, Some nodes)"
    and "scl_array_init a (Some (gr_edges g0)) 24 (if sl = 0 then 256 else sl) = (e2, Some edges)"
    and "n \<noteq> 0"
    and "graph_fill a (unat n) nodes = Some (e3, s3)"
    and "scl_graph_init_ex a (Some g0) n sl = Some (SCL_OK, Some g)"
  shows "e1 = SCL_OK \<and> e2 = SCL_OK \<and> e3 = SCL_OK \<and>
    g = g0\<lparr>gr_vertex_count := n, gr_edge_count := 0, gr_free_head := GRAPH_NIL, gr_edges := edges, gr_nodes := s3\<rparr>"
  using assms(5)
  by (cases "e1 = SCL_OK"; cases "e2 = SCL_OK"; cases "e3 = SCL_OK")
    (simp_all add: scl_graph_init_ex_def Let_def scl_array_destroy_def assms(1-4))

lemma graph_init_ok:
  assumes a: "scl_allocator a" and r: "scl_graph_init_ex a (Some g0) n sl = Some (SCL_OK, Some g)"
  shows "graph_inv g \<and> graph_adj g = replicate (unat n) [] \<and> gr_vertex_count g = n \<and> gr_edge_count g = 0"
proof -
  obtain e1 nodes where i1: "scl_array_init a (Some (gr_nodes g0)) 8 (if sl = 0 then 256 else sl) = (e1, Some nodes)"
    using array_init_some by blast
  obtain e2 edges where i2: "scl_array_init a (Some (gr_edges g0)) 24 (if sl = 0 then 256 else sl) = (e2, Some edges)"
    using array_init_some by blast
  have n0: "n \<noteq> 0"
  proof
    assume "n = 0"
    then show False using r by (simp add: scl_graph_init_ex_def)
  qed
  have e1: "e1 = SCL_OK"
  proof (rule ccontr)
    assume "e1 \<noteq> SCL_OK"
    then show False using r n0 by (simp add: scl_graph_init_ex_def Let_def i1)
  qed
  note A = array_init_ok [OF a i1 [unfolded e1]]
  obtain e3 s3 where f: "graph_fill a (unat n) nodes = Some (e3, s3)" "array_inv s3" "arr_element_size s3 = 8"
    "e3 = SCL_OK \<longrightarrow> elements u64_of s3 = elements u64_of nodes @ replicate (unat n) GRAPH_NIL"
    using graph_fill_spec [OF a, of nodes "unat n"] A by blast
  from graph_init_stages [OF i1 i2 n0 f(1) r] have ok: "e3 = SCL_OK" "e2 = SCL_OK"
    and g: "g = g0\<lparr>gr_vertex_count := n, gr_edge_count := 0, gr_free_head := GRAPH_NIL, gr_edges := edges, gr_nodes := s3\<rparr>" by blast+
  note B = array_init_ok [OF a i2 [unfolded ok(2)]]
  have nodes: "gr_nodes g = s3" "gr_edges g = edges" by (simp_all add: g)
  have fields: "gr_free_head g = GRAPH_NIL" "gr_edge_count g = 0" "gr_vertex_count g = n" by (simp_all add: g)
  have hs: "heads g = replicate (unat n) GRAPH_NIL" using f(4) ok A by (simp add: nodes heads_def elements_def)
  have es: "edge_list g = []" using B by (simp add: nodes edge_list_def elements_def)
  have "unat (arr_count s3) = unat n" using hs unfolding heads_def nodes by (metis length_elements length_replicate)
  then have "arr_count s3 = n" by (simp only: word_unat_eq_iff)
  then have ar: "arrays_ok g" using f(2,3) B by (simp add: arrays_ok_def nodes fields)
  have rep: "graph_rep g (replicate (unat n) []) []"
    using ar by (simp add: graph_rep_def chains_ok_def hs es fields del: length_edge_list)
  have "graph_adj g = replicate (unat n) []" using graph_adj_rep [OF rep] by simp
  moreover have "graph_inv g" unfolding graph_inv_rep using rep by blast
  ultimately show ?thesis using fields by simp
qed

section \<open>Removing an edge\<close>

lemma distinct_concat_disjoint:
  assumes "distinct (concat cs)" and "w < u" and "u < length cs"
  shows "set (cs ! w) \<inter> set (cs ! u) = {}"
proof -
  have "cs = take u cs @ cs ! u # drop (Suc u) cs" using assms(3) by (rule id_take_nth_drop)
  then have "distinct (concat (take u cs) @ cs ! u @ concat (drop (Suc u) cs))"
    using assms(1) by (metis concat.simps(2) concat_append)
  moreover have "take u cs ! w \<in> set (take u cs)" using assms(2,3) by (intro nth_mem) simp
  then have "set (cs ! w) \<subseteq> set (concat (take u cs))" using assms(2) by auto
  ultimately show ?thesis by auto
qed

lemma chains_ok_remove:
  assumes ok: "chains_ok hs es fh cs fr" and u: "u < length hs" "cs ! u = pre @ unat e # post"
    and len: "length es' = length es" and dst: "\<And>k. k < length es \<Longrightarrow> edge_to (es' ! k) = edge_to (es ! k)"
    and ch: "chain es' h (pre @ post)" and e: "e \<noteq> GRAPH_NIL" "edge_next (es' ! unat e) = fh"
    and same: "\<And>k. k < length es \<Longrightarrow> k \<notin> set (cs ! u) \<Longrightarrow> edge_next (es' ! k) = edge_next (es ! k)"
  shows "chains_ok (hs[u := h]) es' e (cs[u := pre @ post]) (unat e # fr)"
proof -
  have lc: "length cs = length hs" using ok by (simp add: chains_ok_def)
  have d: "distinct (concat cs @ fr)" using ok by (rule chains_distinct)
  have other: "chain es' (hs ! w) (cs ! w)" if w: "w < length hs" "w \<noteq> u" for w
  proof (rule chain_cong_next)
    show "chain es (hs ! w) (cs ! w)" using ok w(1) by (simp add: chains_ok_def)
    fix k assume k: "k \<in> set (cs ! w)"
    have "set (cs ! w) \<inter> set (cs ! u) = {}"
      using distinct_concat_disjoint [of cs w u] distinct_concat_disjoint [of cs u w] d w u(1) lc
      by (cases w u rule: linorder_cases) auto
    then show "edge_next (es' ! k) = edge_next (es ! k)"
      using same k chain_bound [OF \<open>chain es (hs ! w) (cs ! w)\<close> k] by blast
  qed (rule len)
  have ch': "chain es' (hs[u := h] ! w) (cs[u := pre @ post] ! w)" if "w < length hs" for w
    using that other [OF that] ch lc u(1) by (cases "w = u") simp_all
  have ef: "unat e < length es" using u ok chain_bound [of es "hs ! u" "cs ! u" "unat e"] by (auto simp: chains_ok_def)
  have fr: "chain es' e (unat e # fr)"
  proof -
    have "chain es' fh fr"
    proof (rule chain_cong_next)
      show "chain es fh fr" using ok by (simp add: chains_ok_def)
      fix k assume k: "k \<in> set fr"
      have "k \<notin> set (concat cs)" using d k by auto
      then have "k \<notin> set (cs ! u)" using chains_member [OF ok u(1)] by blast
      then show "edge_next (es' ! k) = edge_next (es ! k)" using same k chain_bound [OF \<open>chain es fh fr\<close> k] by blast
    qed (rule len)
    then show ?thesis using e ef len by simp
  qed
  have m: "mset (concat cs) = add_mset (unat e) (mset (concat (cs[u := pre @ post])))"
    using concat_update [of u cs "pre @ post"] u lc by simp
  have "mset (concat (cs[u := pre @ post]) @ unat e # fr) = mset [0..<length es']"
    using m ok len by (simp add: chains_ok_def)
  moreover have "unat (edge_to (es' ! k)) < length hs" if k: "k \<in> set (concat (cs[u := pre @ post]))" for k
  proof -
    have kc: "k \<in> set (concat cs)" using k m by (metis insertI2 set_mset_add_mset_insert set_mset_mset)
    moreover have "k < length es" using kc ok unfolding chains_ok_def
      by (metis Un_iff atLeastLessThan_iff mset_eq_setD set_append set_upt)
    moreover have "\<forall>k \<in> set (concat cs). unat (edge_to (es ! k)) < length hs" using ok unfolding chains_ok_def by blast
    ultimately show ?thesis using dst by metis
  qed
  ultimately show ?thesis using ch' fr lc by (simp add: chains_ok_def)
qed

lemma fst_arcs: "unat v \<in> fst ` set (map (\<lambda>i. arc_of (f i)) xs) \<longleftrightarrow> (\<exists>k \<in> set xs. edge_to (f k) = v)"
  by (induction xs) (auto simp: arc_of_def word_unat_eq_iff)

text \<open>Where the pointer \<open>link\<close> stands after the edges \<open>pre\<close> have been passed.\<close>

definition link_after :: "size_t \<Rightarrow> nat list \<Rightarrow> graph_link \<Rightarrow> bool" where
  "link_after u pre link \<longleftrightarrow> (if pre = [] then link = Head_of u else \<exists>p. link = Next_of p \<and> unat p = last pre)"

text \<open>The first arc to a vertex leaves the list.\<close>

fun drop_arc :: "nat \<Rightarrow> arc list \<Rightarrow> arc list" where
  "drop_arc v [] = []"
| "drop_arc v ((w, c) # xs) = (if w = v then xs else (w, c) # drop_arc v xs)"

lemma drop_arc_split: "\<forall>x \<in> set xs. fst x \<noteq> v \<Longrightarrow> drop_arc v (xs @ (v, c) # ys) = xs @ ys"
  by (induction xs) auto

definition unlinked :: "scl_graph_t \<Rightarrow> size_t \<Rightarrow> size_t \<Rightarrow> scl_graph_t \<Rightarrow> bool" where
  "unlinked g u v g' \<longleftrightarrow> graph_inv g' \<and> gr_vertex_count g' = gr_vertex_count g \<and>
     unat (gr_edge_count g) = Suc (unat (gr_edge_count g')) \<and>
     graph_adj g' = (graph_adj g)[unat u := drop_arc (unat v) (graph_adj g ! unat u)]"

text \<open>Bending the link around an edge: the vertex's head and the edges afterwards.\<close>

lemma set_link_spec:
  assumes ar: "arrays_ok g" and u: "u < gr_vertex_count g" and l: "link_after u pre link"
    and pre: "\<forall>k \<in> set pre. k < length (edge_list g)"
  shows "\<exists>g1. set_link g link x = Some g1 \<and> arrays_ok g1 \<and> gr_vertex_count g1 = gr_vertex_count g \<and>
    gr_edge_count g1 = gr_edge_count g \<and> gr_free_head g1 = gr_free_head g \<and>
    heads g1 = (heads g)[unat u := (if pre = [] then x else heads g ! unat u)] \<and>
    edge_list g1 = (if pre = [] then edge_list g
      else (edge_list g)[last pre := (edge_list g ! last pre)\<lparr>edge_next := x\<rparr>])"
proof (cases "pre = []")
  case True
  then show ?thesis using node_set_head_spec [OF ar u, of x] l by (auto simp: set_link_def link_after_def)
next
  case False
  then obtain p where p: "link = Next_of p" "unat p = last pre" using l by (auto simp: link_after_def)
  have "unat p < length (edge_list g)" using pre False p(2) by simp
  from edge_set_next_spec [OF ar this, of x] obtain s where
    "edge_set_next g p x = Some (g\<lparr>gr_edges := s\<rparr>)" "arrays_ok (g\<lparr>gr_edges := s\<rparr>)"
    "edge_list (g\<lparr>gr_edges := s\<rparr>) = (edge_list g)[last pre := (edge_list g ! last pre)\<lparr>edge_next := x\<rparr>]"
    unfolding p(2) by blast
  then show ?thesis using False p(1) by (auto simp: set_link_def)
qed

lemma chain_bend:
  assumes "chain es h (pre @ unat e # post)" and "distinct (pre @ unat e # post)"
  shows "chain (if pre = [] then es else es[last pre := (es ! last pre)\<lparr>edge_next := edge_next (es ! unat e)\<rparr>])
    (if pre = [] then edge_next (es ! unat e) else h) (pre @ post)"
proof (cases pre rule: rev_cases)
  case Nil
  then show ?thesis using assms by auto
next
  case (snoc q p)
  then show ?thesis using assms chain_unlink [of es h q p "unat e" post] by simp
qed

lemma nth_next_update:
  "edge_to (es[i := (es ! i)\<lparr>edge_next := x\<rparr>] ! k) = edge_to (es ! k) \<and>
   edge_weight (es[i := (es ! i)\<lparr>edge_next := x\<rparr>] ! k) = edge_weight (es ! k)"
proof (cases "i = k \<and> i < length es")
  case True
  then show ?thesis by simp
next
  case False
  then have "es[i := (es ! i)\<lparr>edge_next := x\<rparr>] ! k = es ! k" by (cases "i < length es") (simp_all add: list_update_beyond)
  then show ?thesis by simp
qed

lemma unlink_here:
  assumes rep: "graph_rep g cs fr" and u: "u < gr_vertex_count g" and l: "link_after u pre link"
    and c: "cs ! unat u = pre @ unat e # post" and e: "e \<noteq> GRAPH_NIL"
    and pre: "\<forall>k \<in> set pre. edge_to (edge_list g ! k) \<noteq> v" and v: "edge_to (edge_list g ! unat e) = v"
  shows "\<exists>g1 g2. set_link g link (edge_next (edge_list g ! unat e)) = Some g1 \<and>
    edge_set_next g1 e (gr_free_head g1) = Some g2 \<and>
    unlinked g u v (g2\<lparr>gr_free_head := e, gr_edge_count := gr_edge_count g2 - 1\<rparr>)"
proof -
  let ?es = "edge_list g" and ?hs = "heads g"
  let ?nx = "edge_next (?es ! unat e)"
  have ar: "arrays_ok g" and ok: "chains_ok ?hs ?es (gr_free_head g) cs fr"
    and cnt: "unat (gr_edge_count g) = length (concat cs)" using rep by (simp_all add: graph_rep_def)
  have uh: "unat u < length ?hs" using u length_heads [OF ar] by (simp add: word_less_unat)
  have ch: "chain ?es (?hs ! unat u) (pre @ unat e # post)" using ok uh c unfolding chains_ok_def by metis
  have d: "distinct (pre @ unat e # post)" using chain_distinct [OF ok uh] c by simp
  have below: "\<forall>k \<in> set (pre @ unat e # post). k < length ?es" using chain_bound [OF ch] by blast
  obtain g1 where g1: "set_link g link ?nx = Some g1" "arrays_ok g1" "gr_vertex_count g1 = gr_vertex_count g"
    "gr_edge_count g1 = gr_edge_count g" "gr_free_head g1 = gr_free_head g"
    "heads g1 = ?hs[unat u := (if pre = [] then ?nx else ?hs ! unat u)]"
    "edge_list g1 = (if pre = [] then ?es else ?es[last pre := (?es ! last pre)\<lparr>edge_next := ?nx\<rparr>])"
    using set_link_spec [OF ar u l, of ?nx] below by auto
  have l1: "length (edge_list g1) = length ?es" unfolding g1(7) by (simp split: if_splits)
  then have "unat e < length (edge_list g1)" using below by simp
  from edge_set_next_spec [OF g1(2) this, of "gr_free_head g1"] obtain s where
    s: "edge_set_next g1 e (gr_free_head g1) = Some (g1\<lparr>gr_edges := s\<rparr>)" "arrays_ok (g1\<lparr>gr_edges := s\<rparr>)"
      "edge_list (g1\<lparr>gr_edges := s\<rparr>) = (edge_list g1)[unat e := (edge_list g1 ! unat e)\<lparr>edge_next := gr_free_head g1\<rparr>]"
    by blast
  define es' where "es' = (edge_list g1)[unat e := (edge_list g1 ! unat e)\<lparr>edge_next := gr_free_head g1\<rparr>]"
  let ?h = "if pre = [] then ?nx else ?hs ! unat u"
  have dst: "edge_to (es' ! k) = edge_to (?es ! k) \<and> edge_weight (es' ! k) = edge_weight (?es ! k)" if "k < length ?es" for k
    using that l1 unfolding es'_def g1(7) by (simp add: nth_next_update)
  have ch': "chain es' ?h (pre @ post)"
    unfolding es'_def using chain_bend [OF ch d] d g1(7) by (simp add: chain_update_other)
  have ok': "chains_ok (?hs[unat u := ?h]) es' e (cs[unat u := pre @ post]) (unat e # fr)"
  proof (rule chains_ok_remove [OF ok uh c _ _ ch' e])
    show "length es' = length ?es" using l1 by (simp add: es'_def)
    show "edge_next (es' ! unat e) = gr_free_head g" using l1 below g1(5) by (simp add: es'_def)
    fix k assume k: "k < length ?es"
    show "edge_to (es' ! k) = edge_to (?es ! k)" using dst [OF k] by simp
    assume "k \<notin> set (cs ! unat u)"
    then have "k \<noteq> unat e" "pre \<noteq> [] \<Longrightarrow> k \<noteq> last pre" using c last_in_set by auto
    then show "edge_next (es' ! k) = edge_next (?es ! k)"
      unfolding es'_def g1(7) using k by (cases "pre = []") simp_all
  qed
  have len: "length (concat cs) = Suc (length (concat (cs[unat u := pre @ post])))"
  proof -
    have "unat u < length cs" using ok uh by (simp add: chains_ok_def)
    from concat_update [OF this, of "pre @ post"] c
    have "size (mset (concat cs)) = size (add_mset (unat e) (mset (concat (cs[unat u := pre @ post]))))" by simp
    then show ?thesis by simp
  qed
  let ?g = "g1\<lparr>gr_edges := s, gr_free_head := e, gr_edge_count := gr_edge_count g1 - 1\<rparr>"
  have ec: "unat (gr_edge_count g1 - 1) = length (concat (cs[unat u := pre @ post]))"
    using cnt len g1(4) by (intro count_pred) simp
  have rep': "graph_rep ?g (cs[unat u := pre @ post]) (unat e # fr)"
    using s(2,3) ok' ec g1(6) by (simp add: graph_rep_def es'_def)
  have same: "map (\<lambda>i. arc_of (es' ! i)) ks = map (\<lambda>i. arc_of (?es ! i)) ks" if "\<forall>k \<in> set ks. k < length ?es" for ks
    using that dst by (auto simp: arc_of_def)
  have sub: "\<forall>k \<in> set (cs ! w). k < length ?es" if "w < length ?hs" for w
  proof -
    have "chain ?es (?hs ! w) (cs ! w)" using ok that unfolding chains_ok_def by blast
    then show ?thesis using chain_bound by blast
  qed
  have drop: "map (\<lambda>i. arc_of (?es ! i)) (pre @ post) = drop_arc (unat v) (map (\<lambda>i. arc_of (?es ! i)) (pre @ unat e # post))"
  proof -
    have "\<forall>x \<in> set (map (\<lambda>i. arc_of (?es ! i)) pre). fst x \<noteq> unat v"
      using pre by (auto simp: arc_of_def word_unat_eq_iff)
    from drop_arc_split [OF this] v show ?thesis by (simp add: arc_of_def)
  qed
  have "graph_adj ?g = (graph_adj g)[unat u := drop_arc (unat v) (graph_adj g ! unat u)]"
    unfolding graph_adj_rep [OF rep'] graph_adj_rep [OF rep]
  proof (rule nth_equalityI)
    fix w assume "w < length (map (map (\<lambda>i. arc_of (edge_list ?g ! i))) (cs[unat u := pre @ post]))"
    then have w: "w < length cs" "w < length ?hs" using ok by (simp_all add: chains_ok_def)
    have es: "edge_list ?g = es'" using s(3) by (simp add: es'_def)
    show "map (map (\<lambda>i. arc_of (edge_list ?g ! i))) (cs[unat u := pre @ post]) ! w =
        (map (map (\<lambda>i. arc_of (?es ! i))) cs)[unat u := drop_arc (unat v) (map (map (\<lambda>i. arc_of (?es ! i))) cs ! unat u)] ! w"
    proof (cases "w = unat u")
      case True
      then show ?thesis using w c drop same [of "pre @ post"] below unfolding es by simp
    next
      case False
      then show ?thesis using w same [OF sub [OF w(2)]] unfolding es by simp
    qed
  qed simp
  then have "unlinked g u v ?g"
    using rep' g1(3,4) ec cnt len by (auto simp: unlinked_def graph_inv_rep)
  then show ?thesis using g1(1) s(1) by simp
qed

lemma graph_unlink_spec:
  assumes rep: "graph_rep g cs fr" and u: "u < gr_vertex_count g" and l: "link_after u pre link"
    and c: "cs ! unat u = pre @ ks" and ch: "chain (edge_list g) e ks"
    and pre: "\<forall>k \<in> set pre. edge_to (edge_list g ! k) \<noteq> v"
  shows "\<exists>err g'. graph_unlink g v link e = Some (err, g') \<and>
    (if \<exists>k \<in> set ks. edge_to (edge_list g ! k) = v then err = SCL_OK \<and> unlinked g u v g'
     else err = SCL_ERR_NOT_FOUND \<and> g' = g)"
  using l c ch pre
proof (induction ks arbitrary: e pre link)
  case Nil
  then show ?case by (subst graph_unlink.simps) simp
next
  case (Cons i ks)
  have ar: "arrays_ok g" using rep by (simp add: graph_rep_def)
  have e: "e \<noteq> GRAPH_NIL" "i = unat e" "unat e < length (edge_list g)" "chain (edge_list g) (edge_next (edge_list g ! unat e)) ks"
    using Cons.prems(3) by auto
  obtain b where b: "array_peek (gr_edges g) e = Some b" "edge_of b = edge_list g ! unat e"
    using edge_peek [OF ar e(3)] by blast
  show ?case
  proof (cases "edge_to (edge_list g ! unat e) = v")
    case True
    obtain g1 g2 where g: "set_link g link (edge_next (edge_list g ! unat e)) = Some g1"
      "edge_set_next g1 e (gr_free_head g1) = Some g2"
      "unlinked g u v (g2\<lparr>gr_free_head := e, gr_edge_count := gr_edge_count g2 - 1\<rparr>)"
      using unlink_here [OF rep u Cons.prems(1) _ e(1) Cons.prems(4) True] Cons.prems(2) e(2) by blast
    then have "graph_unlink g v link e
        = Some (SCL_OK, g2\<lparr>gr_free_head := e, gr_edge_count := gr_edge_count g2 - 1\<rparr>)"
      using e(1) b True by (subst graph_unlink.simps) simp
    then show ?thesis using g(3) True e(2) by simp
  next
    case False
    have "\<exists>err g'. graph_unlink g v (Next_of e) (edge_next (edge_list g ! unat e)) = Some (err, g') \<and>
      (if \<exists>k \<in> set ks. edge_to (edge_list g ! k) = v then err = SCL_OK \<and> unlinked g u v g'
       else err = SCL_ERR_NOT_FOUND \<and> g' = g)"
      using Cons.prems(2,4) e False
      by (intro Cons.IH [of "pre @ [unat e]"]) (auto simp: link_after_def)
    then show ?thesis using e b False by (subst graph_unlink.simps) simp
  qed
qed

lemma remove_edge_spec:
  assumes inv: "graph_inv g" and u: "u < gr_vertex_count g" and v: "v < gr_vertex_count g"
  shows "\<exists>err g'. scl_graph_remove_edge (Some g) u v = Some (err, Some g') \<and>
    (if unat v \<in> fst ` set (graph_adj g ! unat u) then err = SCL_OK \<and> unlinked g u v g'
     else err = SCL_ERR_NOT_FOUND \<and> g' = g)"
proof -
  obtain cs fr where rep: "graph_rep g cs fr" using inv by (auto simp: graph_inv_rep)
  then have ar: "arrays_ok g" and ok: "chains_ok (heads g) (edge_list g) (gr_free_head g) cs fr" by (simp_all add: graph_rep_def)
  have uh: "unat u < length (heads g)" using u length_heads [OF ar] by (simp add: word_less_unat)
  obtain nb where nb: "array_peek (gr_nodes g) u = Some nb" "u64_of nb = heads g ! unat u" using node_peek [OF ar u] by blast
  have "chain (edge_list g) (heads g ! unat u) (cs ! unat u)" using ok uh by (simp add: chains_ok_def)
  from graph_unlink_spec [OF rep u _ _ this, of "[]" "Head_of u" v] obtain err g' where r:
    "graph_unlink g v (Head_of u) (heads g ! unat u) = Some (err, g')"
    "if \<exists>k \<in> set (cs ! unat u). edge_to (edge_list g ! k) = v then err = SCL_OK \<and> unlinked g u v g'
     else err = SCL_ERR_NOT_FOUND \<and> g' = g" by (auto simp: link_after_def)
  have "graph_adj g ! unat u = map (\<lambda>i. arc_of (edge_list g ! i)) (cs ! unat u)"
    using graph_adj_rep [OF rep] uh ok by (simp add: chains_ok_def)
  then have "unat v \<in> fst ` set (graph_adj g ! unat u) \<longleftrightarrow> (\<exists>k \<in> set (cs ! unat u). edge_to (edge_list g ! k) = v)"
    by (simp only: fst_arcs)
  moreover have "\<not> (gr_vertex_count g \<le> u \<or> gr_vertex_count g \<le> v)" using u v by auto
  ultimately show ?thesis using nb r by (simp add: scl_graph_remove_edge_def)
qed

section \<open>Walking along the edges of a vertex\<close>

fun walk :: "('e \<Rightarrow> 's \<Rightarrow> ('r + 's) ub) \<Rightarrow> 'e list \<Rightarrow> 's \<Rightarrow> ('r + 's) ub" where
  "walk body [] s = Some (Inr s)"
| "walk body (x # xs) s = do { r \<leftarrow> body x s; case r of Inl y \<Rightarrow> Some (Inl y) | Inr s \<Rightarrow> walk body xs s }"

lemma graph_edge_in:
  assumes "arrays_ok g" and "unat e < length (edge_list g)"
  shows "scl_graph_edge g e = Some (Some (edge_list g ! unat e))"
  using edge_peek [OF assms] assms(2) by (auto simp: scl_graph_edge_def word_le_unat)

lemma for_edges_walk:
  assumes ar: "arrays_ok g"
  shows "chain (edge_list g) e ks \<Longrightarrow> for_edges g e body s = walk body (map ((!) (edge_list g)) ks) s"
proof (induction ks arbitrary: e s)
  case Nil
  then show ?case by (subst for_edges.simps) simp
next
  case (Cons k ks)
  then have "scl_graph_edge g e = Some (Some (edge_list g ! k))" "e \<noteq> GRAPH_NIL" using graph_edge_in [OF ar, of e] by auto
  moreover have "for_edges g (edge_next (edge_list g ! k)) body = walk body (map ((!) (edge_list g)) ks)"
    using Cons.prems by (intro ext Cons.IH) auto
  ultimately show ?case by (subst for_edges.simps) simp
qed

text \<open>The edge records of a vertex; their arcs are its adjacency list.\<close>

definition edges_of :: "scl_graph_t \<Rightarrow> nat \<Rightarrow> scl_graph_edge_t list" where
  "edges_of g v = map ((!) (edge_list g)) (follow (length (edge_list g)) (edge_list g) (heads g ! v))"

lemma adj_edges_of: "v < length (heads g) \<Longrightarrow> graph_adj g ! v = map arc_of (edges_of g v)"
  by (simp add: graph_adj_def edges_of_def)

lemma walk_vertex:
  assumes inv: "graph_inv g" and v: "v < gr_vertex_count g"
  shows "\<exists>e. scl_graph_adj_head g v = Some e \<and> for_edges g e body s = walk body (edges_of g (unat v)) s"
proof -
  obtain cs fr where rep: "graph_rep g cs fr" using inv by (auto simp: graph_inv_rep)
  then have ar: "arrays_ok g" and ok: "chains_ok (heads g) (edge_list g) (gr_free_head g) cs fr" by (simp_all add: graph_rep_def)
  have vh: "unat v < length (heads g)" using v length_heads [OF ar] by (simp add: word_less_unat)
  have ch: "chain (edge_list g) (heads g ! unat v) (cs ! unat v)" using ok vh by (simp add: chains_ok_def)
  have "follow (length (edge_list g)) (edge_list g) (heads g ! unat v) = cs ! unat v"
    using ch chain_length [OF ok vh] by (rule follow_chain)
  then have eo: "edges_of g (unat v) = map ((!) (edge_list g)) (cs ! unat v)" by (simp add: edges_of_def)
  obtain b where "array_peek (gr_nodes g) v = Some b" "u64_of b = heads g ! unat v" using node_peek [OF ar v] by blast
  moreover have "\<not> arr_count (gr_nodes g) \<le> v" using ar v by (simp add: arrays_ok_def)
  ultimately have "scl_graph_adj_head g v = Some (heads g ! unat v)" by (simp add: scl_graph_adj_head_def)
  then show ?thesis using for_edges_walk [OF ar ch] eo by simp
qed

lemma edges_of_bound:
  assumes inv: "graph_inv g" and v: "v < length (heads g)" and ed: "ed \<in> set (edges_of g v)"
  shows "edge_to ed < gr_vertex_count g"
proof -
  obtain cs fr where rep: "graph_rep g cs fr" using inv by (auto simp: graph_inv_rep)
  then have ar: "arrays_ok g" and ok: "chains_ok (heads g) (edge_list g) (gr_free_head g) cs fr" by (simp_all add: graph_rep_def)
  have "chain (edge_list g) (heads g ! v) (cs ! v)" using ok v by (simp add: chains_ok_def)
  then have "follow (length (edge_list g)) (edge_list g) (heads g ! v) = cs ! v"
    using chain_length [OF ok v] by (rule follow_chain)
  then obtain k where "k \<in> set (cs ! v)" "ed = edge_list g ! k" using ed by (auto simp: edges_of_def)
  moreover have "\<forall>k \<in> set (concat cs). unat (edge_to (edge_list g ! k)) < length (heads g)"
    using ok unfolding chains_ok_def by blast
  ultimately have "unat (edge_to ed) < length (heads g)" using chains_member [OF ok v] by blast
  then show ?thesis by (simp add: length_heads [OF ar] word_less_unat)
qed

lemma has_edge_spec:
  assumes inv: "graph_inv g" and u: "u < gr_vertex_count g" and v: "v < gr_vertex_count g"
  shows "scl_graph_has_edge (Some g) u v = Some (unat v \<in> fst ` set (graph_adj g ! unat u))"
proof -
  let ?body = "\<lambda>ed s. Some (if edge_to ed = v then Inl () else Inr ())"
  obtain e where e: "scl_graph_adj_head g u = Some e" "for_edges g e ?body () = walk ?body (edges_of g (unat u)) ()"
    using walk_vertex [OF inv u, of ?body "()"] by blast
  have w: "walk ?body xs () = Some (if \<exists>x \<in> set xs. edge_to x = v then Inl () else Inr ())" for xs :: "scl_graph_edge_t list"
    by (induction xs) auto
  have "unat u < length (heads g)" using length_heads [OF graph_inv_arrays [OF inv]] u by (simp add: word_less_unat)
  then have "unat v \<in> fst ` set (graph_adj g ! unat u) \<longleftrightarrow> (\<exists>x \<in> set (edges_of g (unat u)). edge_to x = v)"
    using fst_arcs [of v "\<lambda>x. x" "edges_of g (unat u)"] by (simp add: adj_edges_of)
  moreover have "\<not> (gr_vertex_count g \<le> u \<or> gr_vertex_count g \<le> v)" using u v by auto
  ultimately show ?thesis using e w by (simp add: scl_graph_has_edge_def)
qed

end
