(* ===== verification/Scl_Graph_Session.thy ===== *)
theory Scl_Graph_Session
  imports Scl_Graph
begin

text \<open>
  Command sequences on a graph and the same commands on a list of adjacency lists. A new edge is put in front
  of its list, and removing an edge takes the first one to the vertex away, so parallel edges are a stack.
\<close>

datatype graph_cmd = Add_edge size_t size_t "32 word" | Remove_edge size_t size_t | Has_edge size_t size_t

text \<open>\<open>Has_edge\<close> reports \<open>SCL_OK\<close> for an edge that is there and \<open>SCL_ERR_NOT_FOUND\<close> for one that is not.\<close>

definition graph_exec :: "scl_allocator_t \<Rightarrow> scl_graph_t \<Rightarrow> graph_cmd \<Rightarrow> (scl_error_t \<times> scl_graph_t) ub" where
  "graph_exec a g c =
     (case c of
        Add_edge u v w \<Rightarrow> do {
          (err, g') \<leftarrow> scl_graph_add_edge a (Some g) u v w;
          g' \<leftarrow> g';
          Some (err, g')
        }
      | Remove_edge u v \<Rightarrow> do {
          (err, g') \<leftarrow> scl_graph_remove_edge (Some g) u v;
          g' \<leftarrow> g';
          Some (err, g')
        }
      | Has_edge u v \<Rightarrow> do {
          found \<leftarrow> scl_graph_has_edge (Some g) u v;
          Some (if found then SCL_OK else SCL_ERR_NOT_FOUND, g)
        })"

fun graph_run :: "scl_allocator_t \<Rightarrow> scl_graph_t \<Rightarrow> graph_cmd list \<Rightarrow> (scl_graph_t \<times> scl_error_t list) ub" where
  "graph_run a g [] = Some (g, [])"
| "graph_run a g (c # cs) = do {
     (err, g) \<leftarrow> graph_exec a g c;
     (g, rs) \<leftarrow> graph_run a g cs;
     Some (g, err # rs)
   }"

text \<open>The adjacency lists after a command that reported \<open>err\<close>: \<open>None\<close> if they could not have answered that way.\<close>

fun adj_step :: "arc list list \<Rightarrow> graph_cmd \<Rightarrow> scl_error_t \<Rightarrow> arc list list option" where
  "adj_step adj (Add_edge u v w) err =
     (if length adj \<le> unat u \<or> length adj \<le> unat v then (if err = SCL_ERR_INVALID_INDEX then Some adj else None)
      else if err = SCL_OK then Some (adj[unat u := (unat v, sint w) # adj ! unat u])
      else if alloc_failed err then Some adj else None)"
| "adj_step adj (Remove_edge u v) err =
     (if length adj \<le> unat u \<or> length adj \<le> unat v then (if err = SCL_ERR_INVALID_INDEX then Some adj else None)
      else if unat v \<in> fst ` set (adj ! unat u)
      then (if err = SCL_OK then Some (adj[unat u := drop_arc (unat v) (adj ! unat u)]) else None)
      else if err = SCL_ERR_NOT_FOUND then Some adj else None)"
| "adj_step adj (Has_edge u v) err =
     (if (err = SCL_OK) = (unat u < length adj \<and> unat v < length adj \<and> unat v \<in> fst ` set (adj ! unat u)) \<and>
         err \<in> {SCL_OK, SCL_ERR_NOT_FOUND}
      then Some adj else None)"

fun adj_run :: "arc list list \<Rightarrow> graph_cmd list \<Rightarrow> scl_error_t list \<Rightarrow> arc list list option" where
  "adj_run adj [] [] = Some adj"
| "adj_run adj (c # cs) (r # rs) = do { adj \<leftarrow> adj_step adj c r; adj_run adj cs rs }"
| "adj_run adj _ _ = None"

lemma graph_exec_spec:
  assumes a: "scl_allocator a" and inv: "graph_inv g"
  shows "\<exists>err g'. graph_exec a g c = Some (err, g') \<and> graph_inv g' \<and> gr_vertex_count g' = gr_vertex_count g \<and>
    adj_step (graph_adj g) c err = Some (graph_adj g')"
proof -
  have len: "length (graph_adj g) = unat (gr_vertex_count g)" using length_graph_adj graph_inv_arrays [OF inv] by blast
  have out: "length (graph_adj g) \<le> unat u \<or> length (graph_adj g) \<le> unat v
      \<longleftrightarrow> gr_vertex_count g \<le> u \<or> gr_vertex_count g \<le> v" for u v :: size_t
    by (simp add: len word_le_unat)
  show ?thesis
  proof (cases c)
    case (Add_edge u v w)
    show ?thesis
    proof (cases "gr_vertex_count g \<le> u \<or> gr_vertex_count g \<le> v")
      case True
      then show ?thesis using Add_edge inv out [of u v] by (simp add: graph_exec_def scl_graph_add_edge_def)
    next
      case False
      then have "u < gr_vertex_count g" "v < gr_vertex_count g" by auto
      from add_edge_spec [OF a inv this, of w] False show ?thesis using Add_edge out [of u v]
        by (auto simp: graph_exec_def split: if_splits)
    qed
  next
    case (Remove_edge u v)
    show ?thesis
    proof (cases "gr_vertex_count g \<le> u \<or> gr_vertex_count g \<le> v")
      case True
      then show ?thesis using Remove_edge inv out [of u v] by (simp add: graph_exec_def scl_graph_remove_edge_def)
    next
      case False
      then have "u < gr_vertex_count g" "v < gr_vertex_count g" by auto
      from remove_edge_spec [OF inv this] False show ?thesis using Remove_edge inv out [of u v]
        by (auto simp: graph_exec_def unlinked_def split: if_splits)
    qed
  next
    case (Has_edge u v)
    show ?thesis
    proof (cases "gr_vertex_count g \<le> u \<or> gr_vertex_count g \<le> v")
      case True
      then show ?thesis using Has_edge inv out [of u v] by (auto simp: graph_exec_def scl_graph_has_edge_def)
    next
      case False
      then have "u < gr_vertex_count g" "v < gr_vertex_count g" by auto
      from has_edge_spec [OF inv this] False show ?thesis using Has_edge inv out [of u v]
        by (auto simp: graph_exec_def)
    qed
  qed
qed

lemma graph_run_spec:
  assumes a: "scl_allocator a"
  shows "graph_inv g \<Longrightarrow> \<exists>g' rs. graph_run a g cs = Some (g', rs) \<and> graph_inv g' \<and>
    gr_vertex_count g' = gr_vertex_count g \<and> adj_run (graph_adj g) cs rs = Some (graph_adj g')"
proof (induction cs arbitrary: g)
  case Nil
  then show ?case by simp
next
  case (Cons c cs)
  from graph_exec_spec [OF a Cons.prems, of c] obtain err g1 where
    1: "graph_exec a g c = Some (err, g1)" "graph_inv g1" "gr_vertex_count g1 = gr_vertex_count g"
    "adj_step (graph_adj g) c err = Some (graph_adj g1)" by blast
  from Cons.IH [OF 1(2)] obtain g2 rs where
    "graph_run a g1 cs = Some (g2, rs)" "graph_inv g2" "gr_vertex_count g2 = gr_vertex_count g1"
    "adj_run (graph_adj g1) cs rs = Some (graph_adj g2)" by blast
  then show ?case using 1 by auto
qed

text \<open>The edge count is the number of arcs.\<close>

lemma graph_edge_total: "graph_inv g \<Longrightarrow> unat (scl_graph_edge_count (Some g)) = length (concat (graph_adj g))"
proof -
  assume "graph_inv g"
  then obtain cs fr where rep: "graph_rep g cs fr" by (auto simp: graph_inv_rep)
  show ?thesis using rep
    by (simp add: graph_adj_rep [OF rep] graph_rep_def scl_graph_edge_count_def length_concat comp_def)
qed

section \<open>A graph to try the operations on\<close>

definition blank_graph :: scl_graph_t where
  "blank_graph =
     \<lparr>gr_nodes = \<lparr>arr_data = None, arr_element_size = 0, arr_capacity = 0, arr_count = 0\<rparr>,
      gr_edges = \<lparr>arr_data = None, arr_element_size = 0, arr_capacity = 0, arr_count = 0\<rparr>,
      gr_vertex_count = 0, gr_edge_count = 0, gr_free_head = 0\<rparr>"

lemma demo_graph: "\<exists>g. scl_graph_init_ex demo_alloc (Some blank_graph) 2 2 = Some (SCL_OK, Some g)"
proof -
  have two: "graph_fill a 2 n = graph_fill a (Suc (Suc 0)) n" for a n by (simp add: numeral_2_eq_2)
  have sixteen: "replicate 16 x = [x,x,x,x,x,x,x,x,x,x,x,x,x,x,x,x]" for x :: byte
    by (simp add: numeral_eq_Suc)
  show ?thesis
    by (simp add: blank_graph_def scl_graph_init_ex_def scl_array_init_def Let_def two sixteen scl_array_destroy_def
        demo_alloc_def scl_allocator_default_def def_malloc_def limited_heap_def scl_mul_overflow_def
        scl_array_push_def array_make_room_def scl_memcpy_def mem_read_def mem_write_def)
qed

end
