(* ===== verification/Scl_Graph_Walk.thy ===== *)
theory Scl_Graph_Walk
  imports Scl_Graph
begin

text \<open>
  The traversals: \<open>scl_graph_dfs\<close> and \<open>scl_graph_bfs\<close>, and the searches of \<open>libs/search/depth_first\<close> and
  \<open>libs/search/breadth_first\<close>, which are copies of them over \<open>int\<close> vertices that fill the caller's \<open>visited\<close>.
  A vertex is marked when it is put on the stack or queue, which is why an array of one slot per vertex is
  enough. All four visit the vertices that can be reached from the start, each once; breadth-first search
  visits them by their distance.
\<close>

section \<open>The code\<close>

text \<open>The body of the loop over the edges. \<open>conv\<close> is the conversion of a vertex to the element type of the
  stack or queue: the identity, or the cast to \<open>int\<close>; \<open>lim\<close> is the largest value of the type of the index \<open>k\<close>, which
  is \<open>size_t\<close> or \<open>int\<close>.\<close>

definition push_unvisited ::
    "nat \<Rightarrow> (size_t \<Rightarrow> 'a) \<Rightarrow> scl_graph_edge_t \<Rightarrow> bool list \<times> 'a list \<times> nat \<Rightarrow> (unit + bool list \<times> 'a list \<times> nat) ub" where
  "push_unvisited lim conv ed = (\<lambda>(visited, buf, k). do {
     seen \<leftarrow> at visited (unat (edge_to ed));
     if seen then Some (Inr (visited, buf, k))
     else do {
       visited \<leftarrow> put_at visited (unat (edge_to ed)) True;
       buf \<leftarrow> put_at buf k (conv (edge_to ed));
       if k < lim then Some (Inr (visited, buf, k + 1)) else None
     }
   })"

text \<open>A loop whose body never leaves it.\<close>

definition stayed :: "unit + 's \<Rightarrow> 's ub" where
  "stayed r = (case r of Inl _ \<Rightarrow> None | Inr s \<Rightarrow> Some s)"

text \<open>\<open>back\<close> converts a stack slot back to \<open>size_t\<close>.\<close>

partial_function (option) dfs_loop ::
    "scl_graph_t \<Rightarrow> nat \<Rightarrow> (size_t \<Rightarrow> 'a) \<Rightarrow> ('a \<Rightarrow> size_t) \<Rightarrow> (size_t \<Rightarrow> 'c \<Rightarrow> 'c) \<Rightarrow> bool list \<Rightarrow> 'a list \<Rightarrow> nat \<Rightarrow> 'c
     \<Rightarrow> (bool list \<times> 'c) ub" where
  [code]: "dfs_loop g lim conv back visit visited stack sp ctx =
     (if 0 < sp then do {
        v \<leftarrow> at stack (sp - 1);
        let ctx = visit (back v) ctx;
        e \<leftarrow> scl_graph_adj_head g (back v);
        r \<leftarrow> for_edges g e (push_unvisited lim conv) (visited, stack, sp - 1);
        (visited, stack, sp) \<leftarrow> stayed r;
        dfs_loop g lim conv back visit visited stack sp ctx
      } else Some (visited, ctx))"

partial_function (option) bfs_loop ::
    "scl_graph_t \<Rightarrow> nat \<Rightarrow> (size_t \<Rightarrow> 'a) \<Rightarrow> ('a \<Rightarrow> size_t) \<Rightarrow> (size_t \<Rightarrow> 'c \<Rightarrow> 'c) \<Rightarrow> bool list \<Rightarrow> 'a list \<Rightarrow> nat \<Rightarrow> nat \<Rightarrow> 'c
     \<Rightarrow> (bool list \<times> 'c) ub" where
  [code]: "bfs_loop g lim conv back visit visited queue qh qt ctx =
     (if qh < qt then do {
        v \<leftarrow> at queue qh;
        let ctx = visit (back v) ctx;
        e \<leftarrow> scl_graph_adj_head g (back v);
        r \<leftarrow> for_edges g e (push_unvisited lim conv) (visited, queue, qt);
        (visited, queue, qt) \<leftarrow> stayed r;
        bfs_loop g lim conv back visit visited queue (qh + 1) qt ctx
      } else Some (visited, ctx))"

text \<open>A block of \<open>bool\<close>s, as \<open>calloc\<close> makes it.\<close>

definition bool_array :: "block \<Rightarrow> bool list" where
  "bool_array b = map (\<lambda>x. x \<noteq> 0) b"

text \<open>What the two traversals of the graph do before their loop, and the loop as a parameter.\<close>

definition graph_traverse ::
    "(scl_graph_t \<Rightarrow> (size_t \<Rightarrow> 'c \<Rightarrow> 'c) \<Rightarrow> bool list \<Rightarrow> size_t list \<Rightarrow> 'c \<Rightarrow> (bool list \<times> 'c) ub) \<Rightarrow>
     scl_allocator_t \<Rightarrow> scl_graph_t ptr \<Rightarrow> size_t \<Rightarrow> (size_t \<Rightarrow> 'c \<Rightarrow> 'c) ptr \<Rightarrow> 'c \<Rightarrow> (scl_error_t \<times> 'c) ub" where
  "graph_traverse loop a gp start visit ctx =
     (case (gp, visit) of
        (Some g, Some visit) \<Rightarrow>
          if gr_vertex_count g \<le> start then Some (SCL_ERR_INVALID_INDEX, ctx)
          else (case calloc_fn a 0 (gr_vertex_count g) 1 max_align of
              None \<Rightarrow> Some (SCL_ERR_OUT_OF_MEMORY, ctx)
            | Some vb \<Rightarrow>
                (case scl_mul_overflow (gr_vertex_count g) 8 of
                   None \<Rightarrow> Some (SCL_ERR_SIZE_OVERFLOW, ctx)
                 | Some sz \<Rightarrow>
                     (case malloc_fn a 1 sz max_align of
                        None \<Rightarrow> Some (SCL_ERR_OUT_OF_MEMORY, ctx)
                      | Some b \<Rightarrow> do {
                          visited \<leftarrow> put_at (bool_array vb) (unat start) True;
                          buf \<leftarrow> put_at (u64_array b) 0 start;
                          (visited, ctx) \<leftarrow> loop g visit visited buf ctx;
                          Some (SCL_OK, ctx)
                        })))
      | _ \<Rightarrow> Some (SCL_ERR_NULL_PTR, ctx))"

definition scl_graph_dfs ::
    "scl_allocator_t \<Rightarrow> scl_graph_t ptr \<Rightarrow> size_t \<Rightarrow> (size_t \<Rightarrow> 'c \<Rightarrow> 'c) ptr \<Rightarrow> 'c \<Rightarrow> (scl_error_t \<times> 'c) ub" where
  "scl_graph_dfs = graph_traverse (\<lambda>g visit visited stack ctx. dfs_loop g (2 ^ 64 - 1) id id visit visited stack 1 ctx)"

definition scl_graph_bfs ::
    "scl_allocator_t \<Rightarrow> scl_graph_t ptr \<Rightarrow> size_t \<Rightarrow> (size_t \<Rightarrow> 'c \<Rightarrow> 'c) ptr \<Rightarrow> 'c \<Rightarrow> (scl_error_t \<times> 'c) ub" where
  "scl_graph_bfs = graph_traverse (\<lambda>g visit visited queue ctx. bfs_loop g (2 ^ 64 - 1) id id visit visited queue 0 1 ctx)"

text \<open>The searches work on \<open>int\<close> vertices and mark in the array of the caller.\<close>

definition search_traverse ::
    "(scl_graph_t \<Rightarrow> bool list \<Rightarrow> 32 word list \<Rightarrow> (bool list \<times> unit) ub) \<Rightarrow>
     scl_allocator_t \<Rightarrow> scl_graph_t ptr \<Rightarrow> 32 word \<Rightarrow> bool list ptr \<Rightarrow> (scl_error_t \<times> bool list ptr) ub" where
  "search_traverse loop a gp start visited =
     (case (gp, visited) of
        (Some g, Some vis) \<Rightarrow>
          if arr_data (gr_nodes g) = None then Some (SCL_ERR_INVALID_ARG, visited)
          else if sint start < 0 \<or> gr_vertex_count g \<le> scast start then Some (SCL_ERR_INVALID_INDEX, visited)
          else if gr_vertex_count g = 0 then Some (SCL_ERR_EMPTY, visited)
          else (case scl_mul_overflow (gr_vertex_count g) 4 of
              None \<Rightarrow> Some (SCL_ERR_SIZE_OVERFLOW, visited)
            | Some bytes \<Rightarrow>
                (case malloc_fn a 0 bytes max_align of
                   None \<Rightarrow> Some (SCL_ERR_OUT_OF_MEMORY, visited)
                 | Some b \<Rightarrow> do {
                     vis \<leftarrow> put_at vis (unat (scast start :: size_t)) True;
                     buf \<leftarrow> put_at (i32_array b) 0 start;
                     (vis, _) \<leftarrow> loop g vis buf;
                     Some (SCL_OK, Some vis)
                   }))
      | _ \<Rightarrow> Some (SCL_ERR_NULL_PTR, visited))"

definition scl_search_depth_first_search ::
    "scl_allocator_t \<Rightarrow> scl_graph_t ptr \<Rightarrow> 32 word \<Rightarrow> bool list ptr \<Rightarrow> (scl_error_t \<times> bool list ptr) ub" where
  "scl_search_depth_first_search =
     search_traverse (\<lambda>g visited stack. dfs_loop g (2 ^ 31 - 1) ucast scast (\<lambda>v u. u) visited stack 1 ())"

definition scl_search_breadth_first_search ::
    "scl_allocator_t \<Rightarrow> scl_graph_t ptr \<Rightarrow> 32 word \<Rightarrow> bool list ptr \<Rightarrow> (scl_error_t \<times> bool list ptr) ub" where
  "scl_search_breadth_first_search =
     search_traverse (\<lambda>g visited queue. bfs_loop g (2 ^ 31 - 1) ucast scast (\<lambda>v u. u) visited queue 0 1 ())"

section \<open>Marking the successors\<close>

text \<open>The unmarked vertices of a list in the order in which they are found.\<close>

fun discover :: "bool list \<Rightarrow> nat list \<Rightarrow> nat list" where
  "discover vis [] = []"
| "discover vis (t # ts) = (if vis ! t then discover vis ts else t # discover (vis[t := True]) ts)"

definition marked :: "bool list \<Rightarrow> nat set" where
  "marked vis = {v. v < length vis \<and> vis ! v}"

lemma marked_update: "t < length vis \<Longrightarrow> marked (vis[t := True]) = insert t (marked vis)"
  by (auto simp: marked_def nth_list_update split: if_splits)

lemma discover_spec:
  "set ts \<subseteq> {..<length vis} \<Longrightarrow> distinct (discover vis ts) \<and> set (discover vis ts) = set ts - marked vis"
proof (induction ts arbitrary: vis)
  case (Cons t ts)
  then have t: "t < length vis" by simp
  show ?case
  proof (cases "vis ! t")
    case True
    then have "t \<in> marked vis" using t by (simp add: marked_def)
    moreover have "distinct (discover vis ts) \<and> set (discover vis ts) = set ts - marked vis"
      using Cons by (intro Cons.IH) simp
    ultimately show ?thesis using True by simp
  next
    case False
    have "distinct (discover (vis[t := True]) ts) \<and> set (discover (vis[t := True]) ts) = set ts - marked (vis[t := True])"
      using Cons.prems by (intro Cons.IH) simp
    moreover have "t \<notin> marked vis" using False by (simp add: marked_def)
    ultimately show ?thesis using False by (simp add: marked_update [OF t]) blast
  qed
qed simp

lemma push_unvisited_apply:
  assumes "unat (edge_to ed) < length vis" and "length buf \<le> lim"
  shows "push_unvisited lim conv ed (vis, buf, k) =
    (if vis ! unat (edge_to ed) then Some (Inr (vis, buf, k))
     else do { buf \<leftarrow> put_at buf k (conv (edge_to ed)); Some (Inr (vis[unat (edge_to ed) := True], buf, k + 1)) })"
  using assms by (cases "k < length buf") (auto simp: push_unvisited_def put_at_def)

text \<open>One pass over the edges marks what it discovers and writes it behind the buffer's first \<open>k\<close> slots.\<close>

lemma push_walk:
  assumes "\<forall>ed \<in> set eds. unat (edge_to ed) < length vis"
    and "k + length (discover vis (map (\<lambda>ed. unat (edge_to ed)) eds)) \<le> length buf"
    and "length buf \<le> lim"
  shows "\<exists>vis' buf'. walk (push_unvisited lim conv) eds (vis, buf, k) =
      Some (Inr (vis', buf', k + length (discover vis (map (\<lambda>ed. unat (edge_to ed)) eds)))) \<and>
    length vis' = length vis \<and> length buf' = length buf \<and>
    marked vis' = marked vis \<union> (\<lambda>ed. unat (edge_to ed)) ` set eds \<and>
    take (k + length (discover vis (map (\<lambda>ed. unat (edge_to ed)) eds))) buf'
      = take k buf @ map (\<lambda>t. conv (of_nat t)) (discover vis (map (\<lambda>ed. unat (edge_to ed)) eds))"
  using assms
proof (induction eds arbitrary: vis buf k)
  case Nil
  then show ?case by simp
next
  case (Cons ed eds)
  let ?t = "unat (edge_to ed)" and ?ts = "map (\<lambda>ed. unat (edge_to ed)) eds"
  have t: "?t < length vis" using Cons.prems(1) by simp
  note push = push_unvisited_apply [OF t Cons.prems(3)]
  show ?case
  proof (cases "vis ! ?t")
    case True
    then have "insert ?t (marked vis) = marked vis" using t by (auto simp: marked_def)
    then show ?thesis using Cons.IH [of vis k buf] Cons.prems True t by (auto simp: push)
  next
    case False
    let ?vis = "vis[?t := True]" and ?buf = "buf[k := conv (edge_to ed)]"
    have k: "k < length buf" using Cons.prems(2) False by simp
    have "\<exists>vis' buf'. walk (push_unvisited lim conv) eds (?vis, ?buf, k + 1) =
        Some (Inr (vis', buf', k + 1 + length (discover ?vis ?ts))) \<and>
      length vis' = length ?vis \<and> length buf' = length ?buf \<and>
      marked vis' = marked ?vis \<union> (\<lambda>ed. unat (edge_to ed)) ` set eds \<and>
      take (k + 1 + length (discover ?vis ?ts)) buf' = take (k + 1) ?buf @ map (\<lambda>t. conv (of_nat t)) (discover ?vis ?ts)"
      using Cons.prems False by (intro Cons.IH) auto
    moreover have "take (k + 1) ?buf = take k buf @ [conv (edge_to ed)]"
      using k by (simp add: take_Suc_conv_app_nth)
    ultimately show ?thesis using t k False by (auto simp: push marked_update)
  qed
qed

section \<open>Reachability\<close>

definition arcs :: "scl_graph_t \<Rightarrow> (nat \<times> nat) set" where
  "arcs g = {(u, v). u < length (graph_adj g) \<and> v \<in> fst ` set (graph_adj g ! u)}"

text \<open>The vertices that can be reached from \<open>s\<close> without entering \<open>P\<close>.\<close>

definition reach :: "scl_graph_t \<Rightarrow> nat set \<Rightarrow> nat \<Rightarrow> nat set" where
  "reach g P s = {v. (s, v) \<in> (arcs g \<inter> UNIV \<times> - P)\<^sup>*}"

lemma reach_start [simp]: "s \<in> reach g P s"
  by (simp add: reach_def)

lemma reach_step: "u \<in> reach g P s \<Longrightarrow> (u, v) \<in> arcs g \<Longrightarrow> v \<notin> P \<Longrightarrow> v \<in> reach g P s"
  unfolding reach_def by (auto intro: rtrancl_into_rtrancl)

lemma reach_least:
  assumes "s \<in> S" and "\<And>u v. u \<in> S \<Longrightarrow> (u, v) \<in> arcs g \<Longrightarrow> v \<notin> P \<Longrightarrow> v \<in> S"
  shows "reach g P s \<subseteq> S"
proof
  fix v assume "v \<in> reach g P s"
  then have "(s, v) \<in> (arcs g \<inter> UNIV \<times> - P)\<^sup>*" by (simp add: reach_def)
  then show "v \<in> S" by (induction rule: rtrancl_induct) (use assms in auto)
qed

lemma length_adj_vertices: "graph_inv g \<Longrightarrow> length (graph_adj g) = unat (gr_vertex_count g)"
  using length_graph_adj graph_inv_arrays by blast

lemma targets_of:
  assumes inv: "graph_inv g" and v: "v < unat (gr_vertex_count g)"
  shows "(\<lambda>ed. unat (edge_to ed)) ` set (edges_of g v) = arcs g `` {v}"
    and "\<forall>ed \<in> set (edges_of g v). unat (edge_to ed) < unat (gr_vertex_count g)"
proof -
  have vh: "v < length (heads g)" using v length_heads [OF graph_inv_arrays [OF inv]] by simp
  then show "(\<lambda>ed. unat (edge_to ed)) ` set (edges_of g v) = arcs g `` {v}"
    using v length_adj_vertices [OF inv] by (simp add: arcs_def adj_edges_of image_image arc_of_def)
  show "\<forall>ed \<in> set (edges_of g v). unat (edge_to ed) < unat (gr_vertex_count g)"
    using edges_of_bound [OF inv vh] by (simp add: word_less_unat)
qed

lemma arcs_bound: "graph_inv g \<Longrightarrow> (u, v) \<in> arcs g \<Longrightarrow> u < unat (gr_vertex_count g) \<and> v < unat (gr_vertex_count g)"
proof -
  assume inv: "graph_inv g" and uv: "(u, v) \<in> arcs g"
  then have u: "u < unat (gr_vertex_count g)" using length_adj_vertices [OF inv] by (simp add: arcs_def)
  have "v \<in> (\<lambda>ed. unat (edge_to ed)) ` set (edges_of g u)" using targets_of(1) [OF inv u] uv by simp
  then show ?thesis using targets_of(2) [OF inv u] u by auto
qed

section \<open>The two loops\<close>

text \<open>\<open>D\<close> has been visited, \<open>W\<close> is waiting; \<open>P\<close> was marked from the start.\<close>

definition traversal :: "scl_graph_t \<Rightarrow> nat set \<Rightarrow> nat \<Rightarrow> bool list \<Rightarrow> nat list \<Rightarrow> nat list \<Rightarrow> bool" where
  "traversal g P s vis D W \<longleftrightarrow> length vis = unat (gr_vertex_count g) \<and> marked vis = P \<union> set (D @ W) \<and>
     distinct (D @ W) \<and> set (D @ W) \<inter> P = {} \<and> s \<in> set (D @ W) \<and> set (D @ W) \<subseteq> reach g P s \<and>
     (\<forall>u \<in> set D. arcs g `` {u} \<subseteq> marked vis)"

lemma traversal_bound: "traversal g P s vis D W \<Longrightarrow> set (D @ W) \<subseteq> {..<unat (gr_vertex_count g)}"
  by (auto simp: traversal_def marked_def)

lemma distinct_bound: "distinct xs \<Longrightarrow> set xs \<subseteq> {..<n} \<Longrightarrow> length xs \<le> (n::nat)"
  using card_mono [of "{..<n}" "set xs"] by (simp add: distinct_card)

lemma traversal_end:
  assumes "traversal g P s vis D []"
  shows "set D = reach g P s" and "marked vis = P \<union> reach g P s"
proof -
  have m: "marked vis = P \<union> set D" "s \<in> set D" "set D \<subseteq> reach g P s" "\<forall>u \<in> set D. arcs g `` {u} \<subseteq> marked vis"
    using assms unfolding traversal_def append_Nil2 by blast+
  have "reach g P s \<subseteq> set D"
  proof (rule reach_least [OF m(2)])
    fix u v assume "u \<in> set D" "(u, v) \<in> arcs g" "v \<notin> P"
    then show "v \<in> set D" using m(1,4) by blast
  qed
  then show "set D = reach g P s" using m(3) by blast
  then show "marked vis = P \<union> reach g P s" using m(1) by simp
qed

text \<open>Visiting one of the waiting vertices.\<close>

lemma traversal_visit:
  assumes inv: "graph_inv g" and t: "traversal g P s vis D (W1 @ v # W2)"
    and ns: "ns = discover vis (map (\<lambda>ed. unat (edge_to ed)) (edges_of g v))"
    and m: "marked vis' = marked vis \<union> (\<lambda>ed. unat (edge_to ed)) ` set (edges_of g v)" "length vis' = length vis"
    and W: "set W = set (W1 @ W2) \<union> set ns" "length W = length (W1 @ W2) + length ns"
  shows "traversal g P s vis' (D @ [v]) W"
    and "length D + 1 + length W \<le> unat (gr_vertex_count g)"
    and "set ns = arcs g `` {v} - marked vis" and "distinct ns"
proof -
  have v: "v < unat (gr_vertex_count g)" using traversal_bound [OF t] by simp
  note tg = targets_of [OF inv v]
  have sub: "set (map (\<lambda>ed. unat (edge_to ed)) (edges_of g v)) \<subseteq> {..<length vis}"
    using tg(2) t by (auto simp: traversal_def)
  from discover_spec [OF this] have d: "distinct ns" "set ns = arcs g `` {v} - marked vis"
    using tg(1) ns by auto
  show "set ns = arcs g `` {v} - marked vis" "distinct ns" using d by simp_all
  have mk: "marked vis = P \<union> set (D @ W1 @ v # W2)" using t by (simp add: traversal_def)
  have dd: "distinct (D @ (W1 @ v # W2))" using t by (simp add: traversal_def)
  have "card (set W) = length W"
  proof -
    have "set (W1 @ W2) \<inter> set ns = {}" using d(2) mk by auto
    then have "card (set W) = card (set (W1 @ W2)) + card (set ns)" unfolding W(1) by (intro card_Un_disjoint) simp_all
    also have "\<dots> = length W" using W(2) d(1) dd distinct_card [of "W1 @ W2"] distinct_card [of ns] by simp
    finally show ?thesis .
  qed
  then have dW: "distinct W" by (simp add: card_distinct)
  have disj: "set (D @ [v]) \<inter> set W = {}" using dd d(2) mk unfolding W(1) by auto
  have dist: "distinct ((D @ [v]) @ W)" using dd dW disj by auto
  have new: "set ns \<inter> P = {}" using d(2) mk by auto
  have vr: "v \<in> reach g P s" using t by (simp add: traversal_def)
  have nr: "set ns \<subseteq> reach g P s"
    using d(2) new reach_step [OF vr] by blast
  have all: "set ((D @ [v]) @ W) = set (D @ W1 @ v # W2) \<union> set ns" using W(1) by auto
  have mk': "marked vis' = P \<union> set ((D @ [v]) @ W)" unfolding all m(1) mk tg(1) d(2) by auto
  show tv: "traversal g P s vis' (D @ [v]) W"
    unfolding traversal_def
  proof (intro conjI)
    show "\<forall>u \<in> set (D @ [v]). arcs g `` {u} \<subseteq> marked vis'"
    proof
      fix u assume "u \<in> set (D @ [v])"
      then have "u \<in> set D \<or> u = v" by auto
      then show "arcs g `` {u} \<subseteq> marked vis'"
      proof
        assume "u \<in> set D"
        then have "arcs g `` {u} \<subseteq> marked vis" using t unfolding traversal_def by blast
        then show ?thesis using m(1) by blast
      next
        assume "u = v"
        then show ?thesis using m(1) tg(1) by blast
      qed
    qed
    show "set ((D @ [v]) @ W) \<inter> P = {}" unfolding all using t new by (auto simp: traversal_def)
    show "s \<in> set ((D @ [v]) @ W)" unfolding all using t by (auto simp: traversal_def)
    show "set ((D @ [v]) @ W) \<subseteq> reach g P s" unfolding all using t nr by (auto simp: traversal_def)
  qed (use dist mk' m(2) t in \<open>simp_all add: traversal_def\<close>)
  have "length ((D @ [v]) @ W) \<le> unat (gr_vertex_count g)"
    using distinct_bound [OF dist traversal_bound [OF tv]] .
  then show "length D + 1 + length W \<le> unat (gr_vertex_count g)" by simp
qed

text \<open>Vertices survive the conversion to a slot and back.\<close>

definition slots_ok :: "scl_graph_t \<Rightarrow> nat \<Rightarrow> (size_t \<Rightarrow> 'a) \<Rightarrow> ('a \<Rightarrow> size_t) \<Rightarrow> bool" where
  "slots_ok g lim conv back \<longleftrightarrow> unat (gr_vertex_count g) \<le> lim \<and> (\<forall>v < gr_vertex_count g. back (conv v) = v)"

lemma vertex_word:
  assumes "v < unat (c :: size_t)"
  shows "unat (of_nat v :: size_t) = v" and "(of_nat v :: size_t) < c"
  using assms unat_of_nat_less [OF assms] by (simp_all add: word_less_unat)

text \<open>One round of a loop: the vertex popped is converted back, and its edges are walked.\<close>

lemma traversal_round:
  assumes inv: "graph_inv g" and so: "slots_ok g lim conv back" and t: "traversal g P s vis D (W1 @ v # W2)"
    and buf: "k + length (discover vis (map (\<lambda>ed. unat (edge_to ed)) (edges_of g v))) \<le> length buf"
    and lb: "length buf = unat (gr_vertex_count g)"
  shows "back (conv (of_nat v)) = of_nat v"
    and "\<exists>e vis' buf' ns. scl_graph_adj_head g (of_nat v) = Some e \<and>
      for_edges g e (push_unvisited lim conv) (vis, buf, k) = Some (Inr (vis', buf', k + length ns)) \<and>
      ns = discover vis (map (\<lambda>ed. unat (edge_to ed)) (edges_of g v)) \<and>
      length vis' = length vis \<and> length buf' = length buf \<and>
      marked vis' = marked vis \<union> (\<lambda>ed. unat (edge_to ed)) ` set (edges_of g v) \<and>
      take (k + length ns) buf' = take k buf @ map (\<lambda>t. conv (of_nat t)) ns"
proof -
  have v: "v < unat (gr_vertex_count g)" using traversal_bound [OF t] by simp
  note vw = vertex_word [OF v]
  show "back (conv (of_nat v)) = of_nat v" using so vw by (simp add: slots_ok_def)
  obtain e where e: "scl_graph_adj_head g (of_nat v) = Some e"
    "for_edges g e (push_unvisited lim conv) (vis, buf, k) = walk (push_unvisited lim conv) (edges_of g v) (vis, buf, k)"
    using walk_vertex [OF inv vw(2), of "push_unvisited lim conv" "(vis, buf, k)"] vw(1) by auto
  have "\<forall>ed \<in> set (edges_of g v). unat (edge_to ed) < length vis"
    using targets_of(2) [OF inv v] t by (simp add: traversal_def)
  moreover have "length buf \<le> lim" using lb so by (simp add: slots_ok_def)
  ultimately have pw: "\<exists>vis' buf'. walk (push_unvisited lim conv) (edges_of g v) (vis, buf, k) =
      Some (Inr (vis', buf', k + length (discover vis (map (\<lambda>ed. unat (edge_to ed)) (edges_of g v))))) \<and>
    length vis' = length vis \<and> length buf' = length buf \<and>
    marked vis' = marked vis \<union> (\<lambda>ed. unat (edge_to ed)) ` set (edges_of g v) \<and>
    take (k + length (discover vis (map (\<lambda>ed. unat (edge_to ed)) (edges_of g v)))) buf'
      = take k buf @ map (\<lambda>t. conv (of_nat t)) (discover vis (map (\<lambda>ed. unat (edge_to ed)) (edges_of g v)))"
    using buf by (intro push_walk)
  from pw e show "\<exists>e vis' buf' ns. scl_graph_adj_head g (of_nat v) = Some e \<and>
      for_edges g e (push_unvisited lim conv) (vis, buf, k) = Some (Inr (vis', buf', k + length ns)) \<and>
      ns = discover vis (map (\<lambda>ed. unat (edge_to ed)) (edges_of g v)) \<and>
      length vis' = length vis \<and> length buf' = length buf \<and>
      marked vis' = marked vis \<union> (\<lambda>ed. unat (edge_to ed)) ` set (edges_of g v) \<and>
      take (k + length ns) buf' = take k buf @ map (\<lambda>t. conv (of_nat t)) ns"
    by (metis (no_types, lifting))
qed

lemma new_fits:
  assumes inv: "graph_inv g" and t: "traversal g P s vis D (W1 @ v # W2)"
  shows "length D + 1 + length (W1 @ W2) + length (discover vis (map (\<lambda>ed. unat (edge_to ed)) (edges_of g v)))
    \<le> unat (gr_vertex_count g)"
proof -
  define ns where "ns = discover vis (map (\<lambda>ed. unat (edge_to ed)) (edges_of g v))"
  have v: "v < unat (gr_vertex_count g)" using traversal_bound [OF t] by simp
  have tg: "\<forall>ed \<in> set (edges_of g v). unat (edge_to ed) < length vis"
    using targets_of(2) [OF inv v] t by (simp add: traversal_def)
  let ?vis = "foldl (\<lambda>vis t. vis[t := True]) vis (map (\<lambda>ed. unat (edge_to ed)) (edges_of g v))"
  have fold: "length (foldl (\<lambda>vis t. vis[t := True]) vis ts) = length vis \<and>
      (set ts \<subseteq> {..<length vis} \<longrightarrow> marked (foldl (\<lambda>vis t. vis[t := True]) vis ts) = marked vis \<union> set ts)" for vis ts
    by (induction ts arbitrary: vis) (auto simp: marked_update)
  have m: "marked ?vis = marked vis \<union> (\<lambda>ed. unat (edge_to ed)) ` set (edges_of g v)" "length ?vis = length vis"
    using fold [of vis "map (\<lambda>ed. unat (edge_to ed)) (edges_of g v)"] tg by auto
  have "length D + 1 + length ((W1 @ W2) @ ns) \<le> unat (gr_vertex_count g)"
    by (rule traversal_visit(2) [OF inv t ns_def m]) auto
  then show ?thesis by (simp add: ns_def)
qed

section \<open>Depth first\<close>

abbreviation slot_of :: "(size_t \<Rightarrow> 'a) \<Rightarrow> nat \<Rightarrow> 'a" where
  "slot_of conv v \<equiv> conv (of_nat v)"

lemma take_snoc_nth:
  assumes "take (Suc k) xs = ys @ [y]" and "k < length xs"
  shows "xs ! k = y" and "take k xs = ys"
  using assms by (simp_all add: take_Suc_conv_app_nth)

lemma dfs_loop_spec:
  assumes inv: "graph_inv g" and so: "slots_ok g lim conv back"
    and t: "traversal g P s vis D W" and st: "length stack = unat (gr_vertex_count g)"
    and top: "take (length W) stack = map (slot_of conv) W"
  shows "\<exists>vis' D'. dfs_loop g lim conv back visit vis stack (length W) ctx
      = Some (vis', fold (\<lambda>v. visit (of_nat v)) (drop (length D) D') ctx) \<and>
    traversal g P s vis' D' [] \<and> take (length D) D' = D"
  using t st top
proof (induction "unat (gr_vertex_count g) - length D" arbitrary: vis D W stack ctx rule: less_induct)
  case less
  show ?case
  proof (cases W rule: rev_cases)
    case Nil
    then show ?thesis using less.prems(1) by (subst dfs_loop.simps) (auto intro!: exI [of _ D])
  next
    case (snoc W1 v)
    let ?k = "length W1"
    have t: "traversal g P s vis D (W1 @ v # [])" using less.prems(1) snoc by simp
    define ns where "ns = discover vis (map (\<lambda>ed. unat (edge_to ed)) (edges_of g v))"
    have fits: "length D + 1 + ?k + length ns \<le> unat (gr_vertex_count g)"
      using new_fits [OF inv t] by (simp add: ns_def)
    have pop: "stack ! ?k = slot_of conv v" "take ?k stack = map (slot_of conv) W1"
      using less.prems(2,3) fits snoc take_snoc_nth [of ?k stack "map (slot_of conv) W1" "slot_of conv v"] by simp_all
    have room: "?k + length (discover vis (map (\<lambda>ed. unat (edge_to ed)) (edges_of g v))) \<le> length stack"
      using fits less.prems(2) by (simp add: ns_def)
    note r = traversal_round [OF inv so t room less.prems(2)]
    obtain e vis' stack' where r2: "scl_graph_adj_head g (of_nat v) = Some e"
      "for_edges g e (push_unvisited lim conv) (vis, stack, ?k) = Some (Inr (vis', stack', ?k + length ns))"
      "length vis' = length vis" "length stack' = length stack"
      "marked vis' = marked vis \<union> (\<lambda>ed. unat (edge_to ed)) ` set (edges_of g v)"
      "take (?k + length ns) stack' = take ?k stack @ map (slot_of conv) ns"
      using r(2) unfolding ns_def by blast
    have t': "traversal g P s vis' (D @ [v]) (W1 @ ns)"
      by (rule traversal_visit(1) [OF inv t ns_def r2(5,3)]) auto
    have "\<exists>vis'' D'. dfs_loop g lim conv back visit vis' stack' (length (W1 @ ns)) (visit (of_nat v) ctx)
        = Some (vis'', fold (\<lambda>v. visit (of_nat v)) (drop (length (D @ [v])) D') (visit (of_nat v) ctx)) \<and>
      traversal g P s vis'' D' [] \<and> take (length (D @ [v])) D' = D @ [v]"
    proof (rule less.hyps [OF _ t'])
      show "unat (gr_vertex_count g) - length (D @ [v]) < unat (gr_vertex_count g) - length D" using fits by simp
      show "length stack' = unat (gr_vertex_count g)" using r2(4) less.prems(2) by simp
      show "take (length (W1 @ ns)) stack' = map (slot_of conv) (W1 @ ns)" using r2(6) pop(2) by simp
    qed
    then obtain vis'' D' where f: "dfs_loop g lim conv back visit vis' stack' (?k + length ns) (visit (of_nat v) ctx)
        = Some (vis'', fold (\<lambda>v. visit (of_nat v)) (drop (Suc (length D)) D') (visit (of_nat v) ctx))"
      "traversal g P s vis'' D' []" "take (Suc (length D)) D' = D @ [v]" by auto
    have len: "length D < length D'" using f(3) by (metis length_append_singleton length_take lessI min_less_iff_conj)
    note n = take_snoc_nth [OF f(3) len]
    have d: "drop (length D) D' = v # drop (Suc (length D)) D'" using Cons_nth_drop_Suc [OF len] n(1) by simp
    have "?k < length stack" using fits less.prems(2) by simp
    then have "dfs_loop g lim conv back visit vis stack (length W) ctx
        = Some (vis'', fold (\<lambda>v. visit (of_nat v)) (drop (length D) D') ctx)"
      using f(1) d r(1) r2(1,2) pop(1) snoc by (subst dfs_loop.simps) (simp add: stayed_def)
    then show ?thesis using f(2) n(2) by blast
  qed
qed

section \<open>Breadth first\<close>

text \<open>The distance from the start, where there is one.\<close>

definition hops :: "scl_graph_t \<Rightarrow> nat set \<Rightarrow> nat \<Rightarrow> nat \<Rightarrow> nat" where
  "hops g P s v = (LEAST k. (s, v) \<in> (arcs g \<inter> UNIV \<times> - P) ^^ k)"

lemma hops_path: "v \<in> reach g P s \<Longrightarrow> (s, v) \<in> (arcs g \<inter> UNIV \<times> - P) ^^ hops g P s v"
  unfolding reach_def hops_def using rtrancl_imp_relpow LeastI_ex by (metis (mono_tags, lifting) mem_Collect_eq)

lemma hops_le: "(s, v) \<in> (arcs g \<inter> UNIV \<times> - P) ^^ k \<Longrightarrow> hops g P s v \<le> k"
  unfolding hops_def by (rule Least_le)

lemma hops_start [simp]: "hops g P s s = 0"
  using hops_le [of s s 0 g P] by simp

lemma hops_step:
  assumes "u \<in> reach g P s" and "(u, v) \<in> arcs g" and "v \<notin> P"
  shows "hops g P s v \<le> Suc (hops g P s u)"
  using hops_path [OF assms(1)] assms(2,3) by (intro hops_le) auto

lemma hops_pred:
  assumes "v \<in> reach g P s" and "hops g P s v = Suc k"
  shows "\<exists>u. u \<in> reach g P s \<and> (u, v) \<in> arcs g \<and> v \<notin> P \<and> hops g P s u = k"
proof -
  have "(s, v) \<in> (arcs g \<inter> UNIV \<times> - P) ^^ Suc k" using hops_path [OF assms(1)] assms(2) by simp
  then obtain u where u: "(s, u) \<in> (arcs g \<inter> UNIV \<times> - P) ^^ k" "(u, v) \<in> arcs g" "v \<notin> P" by auto
  have ur: "u \<in> reach g P s" using u(1) relpow_imp_rtrancl by (auto simp: reach_def)
  have "hops g P s u \<le> k" using u(1) by (rule hops_le)
  moreover have "Suc k \<le> Suc (hops g P s u)" using hops_step [OF ur u(2,3)] assms(2) by simp
  ultimately show ?thesis using u ur by (intro exI [of _ u]) simp
qed

text \<open>The queue holds vertices of one distance, or of two that are adjacent.\<close>

definition levels :: "scl_graph_t \<Rightarrow> nat set \<Rightarrow> nat \<Rightarrow> nat list \<Rightarrow> nat list \<Rightarrow> bool" where
  "levels g P s D W \<longleftrightarrow> sorted (map (hops g P s) (D @ W)) \<and>
     (\<forall>x W'. W = x # W' \<longrightarrow> (\<forall>w \<in> set W'. hops g P s w \<le> Suc (hops g P s x)) \<and>
        (\<forall>v \<in> reach g P s. hops g P s v \<le> hops g P s x \<longrightarrow> v \<in> set (D @ W)))"

lemma levels_visit:
  assumes lv: "levels g P s D (v # W)" and t: "traversal g P s vis D (v # W)"
    and t': "traversal g P s vis' (D @ [v]) (W @ ns)" and ns: "set ns = arcs g `` {v} - marked vis"
  shows "levels g P s (D @ [v]) (W @ ns)"
proof -
  let ?h = "hops g P s"
  have vr: "v \<in> reach g P s" using t by (simp add: traversal_def)
  have all: "\<And>u. u \<in> reach g P s \<Longrightarrow> ?h u \<le> ?h v \<Longrightarrow> u \<in> set (D @ v # W)"
    and up: "\<And>w. w \<in> set W \<Longrightarrow> ?h w \<le> Suc (?h v)" and so: "sorted (map ?h (D @ v # W))"
    using lv by (auto simp: levels_def)
  have mk: "marked vis = P \<union> set (D @ v # W)" using t by (simp add: traversal_def)
  have new: "?h n = Suc (?h v)" if "n \<in> set ns" for n
  proof -
    have n: "(v, n) \<in> arcs g" "n \<notin> P" "n \<notin> set (D @ v # W)" using that ns mk by auto
    have "n \<in> reach g P s" using vr n(1,2) by (rule reach_step)
    then have "\<not> ?h n \<le> ?h v" using all n(3) by blast
    then show ?thesis using hops_step [OF vr n(1,2)] by simp
  qed
  have so': "sorted (map ?h ((D @ [v]) @ W @ ns))"
  proof -
    have "\<forall>w \<in> set (D @ v # W). ?h w \<le> Suc (?h v)"
      using so up by (auto simp: sorted_append)
    moreover have "sorted (map ?h ns)" using new by (auto simp: sorted_wrt_map intro: sorted_wrt_mono_rel [of _ "\<lambda>_ _. True"])
    ultimately show ?thesis using so new by (auto simp: sorted_append)
  qed
  have "(\<forall>w \<in> set W'. ?h w \<le> Suc (?h x)) \<and> (\<forall>u \<in> reach g P s. ?h u \<le> ?h x \<longrightarrow> u \<in> set ((D @ [v]) @ W @ ns))"
    if w: "W @ ns = x # W'" for x W'
  proof -
    have "x \<in> set W \<or> x \<in> set ns" using w by (metis Un_iff list.set_intros(1) set_append)
    then have hx: "?h v \<le> ?h x" "?h x \<le> Suc (?h v)" using so up new by (auto simp: sorted_append)
    have "set W' \<subseteq> set W \<union> set ns" using w by (metis set_append set_subset_Cons)
    then have "\<forall>w \<in> set W'. ?h w \<le> Suc (?h v)" using up new by fastforce
    then have one: "\<forall>w \<in> set W'. ?h w \<le> Suc (?h x)" using hx(1) by fastforce
    have "u \<in> set ((D @ [v]) @ W @ ns)" if u: "u \<in> reach g P s" "?h u \<le> ?h x" for u
    proof (cases "?h u \<le> ?h v")
      case True
      then show ?thesis using all [OF u(1)] by auto
    next
      case False
      then have hu: "?h u = Suc (?h v)" "?h x = Suc (?h v)" using u(2) hx by linarith+
      obtain p where p: "p \<in> reach g P s" "(p, u) \<in> arcs g" "u \<notin> P" "?h p = ?h v" using hops_pred [OF u(1) hu(1)] by blast
      have "p \<in> set (D @ v # W)" using all p by simp
      moreover have "p \<notin> set W"
      proof
        assume "p \<in> set W"
        moreover have "sorted (map ?h (W @ ns))" using so' by (simp add: sorted_append)
        ultimately have "?h x \<le> ?h p" using w by (cases W) auto
        then show False using hu(2) p(4) by simp
      qed
      ultimately have "p \<in> set (D @ [v])" by auto
      then have "arcs g `` {p} \<subseteq> marked vis'" using t' unfolding traversal_def by blast
      then show ?thesis using p(2,3) t' unfolding traversal_def by blast
    qed
    then show ?thesis using one by blast
  qed
  then show ?thesis using so' by (simp add: levels_def)
qed

lemma bfs_loop_spec:
  assumes inv: "graph_inv g" and so: "slots_ok g lim conv back"
    and t: "traversal g P s vis D W" and lv: "levels g P s D W" and q: "length queue = unat (gr_vertex_count g)"
    and top: "take (length (D @ W)) queue = map (slot_of conv) (D @ W)"
  shows "\<exists>vis' D'. bfs_loop g lim conv back visit vis queue (length D) (length (D @ W)) ctx
      = Some (vis', fold (\<lambda>v. visit (of_nat v)) (drop (length D) D') ctx) \<and>
    traversal g P s vis' D' [] \<and> take (length D) D' = D \<and> sorted (map (hops g P s) D')"
  using t lv q top
proof (induction "unat (gr_vertex_count g) - length D" arbitrary: vis D W queue ctx rule: less_induct)
  case less
  show ?case
  proof (cases W)
    case Nil
    then show ?thesis using less.prems(1,2) by (subst bfs_loop.simps) (auto simp: levels_def intro!: exI [of _ D])
  next
    case (Cons v W2)
    have t: "traversal g P s vis D ([] @ v # W2)" using less.prems(1) Cons by simp
    let ?k = "length (D @ W)"
    define ns where "ns = discover vis (map (\<lambda>ed. unat (edge_to ed)) (edges_of g v))"
    have fits: "?k + length ns \<le> unat (gr_vertex_count g)"
      using new_fits [OF inv t] Cons by (simp add: ns_def)
    have room: "?k + length (discover vis (map (\<lambda>ed. unat (edge_to ed)) (edges_of g v))) \<le> length queue"
      using fits less.prems(3) by (simp add: ns_def)
    have "take ?k queue ! length D = map (slot_of conv) (D @ W) ! length D" using less.prems(4) by simp
    then have pop: "queue ! length D = slot_of conv v" "length D < length queue" using Cons fits less.prems(3) by (simp_all add: nth_append)
    note r = traversal_round [OF inv so t room less.prems(3)]
    obtain e vis' queue' where r2: "scl_graph_adj_head g (of_nat v) = Some e"
      "for_edges g e (push_unvisited lim conv) (vis, queue, ?k) = Some (Inr (vis', queue', ?k + length ns))"
      "length vis' = length vis" "length queue' = length queue"
      "marked vis' = marked vis \<union> (\<lambda>ed. unat (edge_to ed)) ` set (edges_of g v)"
      "take (?k + length ns) queue' = take ?k queue @ map (slot_of conv) ns"
      using r(2) unfolding ns_def by blast
    have W: "set (W2 @ ns) = set ([] @ W2) \<union> set ns" "length (W2 @ ns) = length ([] @ W2) + length ns" by simp_all
    note tv = traversal_visit [OF inv t ns_def r2(5,3) W]
    have l': "levels g P s (D @ [v]) (W2 @ ns)"
      using less.prems(1,2) Cons tv by (intro levels_visit) simp_all
    have "\<exists>vis'' D'. bfs_loop g lim conv back visit vis' queue' (length (D @ [v])) (length ((D @ [v]) @ W2 @ ns)) (visit (of_nat v) ctx)
        = Some (vis'', fold (\<lambda>v. visit (of_nat v)) (drop (length (D @ [v])) D') (visit (of_nat v) ctx)) \<and>
      traversal g P s vis'' D' [] \<and> take (length (D @ [v])) D' = D @ [v] \<and> sorted (map (hops g P s) D')"
    proof (rule less.hyps [OF _ tv(1) l'])
      show "unat (gr_vertex_count g) - length (D @ [v]) < unat (gr_vertex_count g) - length D" using fits Cons by simp
      show "length queue' = unat (gr_vertex_count g)" using r2(4) less.prems(3) by simp
      show "take (length ((D @ [v]) @ W2 @ ns)) queue' = map (slot_of conv) ((D @ [v]) @ W2 @ ns)"
        using r2(6) less.prems(4) Cons by (simp add: add.assoc)
    qed
    then obtain vis'' D' where f: "bfs_loop g lim conv back visit vis' queue' (Suc (length D)) (?k + length ns) (visit (of_nat v) ctx)
        = Some (vis'', fold (\<lambda>v. visit (of_nat v)) (drop (Suc (length D)) D') (visit (of_nat v) ctx))"
      "traversal g P s vis'' D' []" "take (Suc (length D)) D' = D @ [v]" "sorted (map (hops g P s) D')"
      using Cons by (auto simp: add.assoc)
    have len: "length D < length D'" using f(3) by (metis length_append_singleton length_take lessI min_less_iff_conj)
    note n = take_snoc_nth [OF f(3) len]
    have d: "drop (length D) D' = v # drop (Suc (length D)) D'" using Cons_nth_drop_Suc [OF len] n(1) by simp
    have "bfs_loop g lim conv back visit vis queue (length D) (length (D @ W)) ctx
        = Some (vis'', fold (\<lambda>v. visit (of_nat v)) (drop (length D) D') ctx)"
      using f(1) d r(1) r2(1,2) pop Cons by (subst bfs_loop.simps) (simp add: stayed_def)
    then show ?thesis using f(2,4) n(2) by blast
  qed
qed

section \<open>The functions\<close>

lemma traversal_start:
  assumes "length vis = unat (gr_vertex_count g)" and "s < unat (gr_vertex_count g)"
  shows "traversal g (marked vis - {s}) s (vis[s := True]) [] [s]" and "levels g (marked vis - {s}) s [] [s]"
proof -
  show "traversal g (marked vis - {s}) s (vis[s := True]) [] [s]"
    using assms by (auto simp: traversal_def marked_update)
  have "v = s" if "v \<in> reach g P s" "hops g P s v = 0" for v P
    using hops_path [OF that(1)] that(2) by simp
  then show "levels g (marked vis - {s}) s [] [s]" by (auto simp: levels_def)
qed

lemma bool_array_zero: "set b \<subseteq> {0} \<Longrightarrow> marked (bool_array b) = {}"
  by (auto simp: marked_def bool_array_def dest: nth_mem)

text \<open>The two traversals differ in the order of the visits only.\<close>

lemma graph_traverse_spec:
  assumes a: "scl_allocator a" and inv: "graph_inv g" and s: "start < gr_vertex_count g"
    and mem: "calloc_fn a 0 (gr_vertex_count g) 1 max_align \<noteq> None" "malloc_fn a 1 (gr_vertex_count g * 8) max_align \<noteq> None"
      "unat (gr_vertex_count g) * 8 < 2 ^ 64"
    and loop: "\<And>vis buf. length vis = unat (gr_vertex_count g) \<Longrightarrow> marked vis = {} \<Longrightarrow> length buf = unat (gr_vertex_count g) \<Longrightarrow>
      buf ! 0 = start \<Longrightarrow>
      \<exists>vis' vs. loop g visit (vis[unat start := True]) buf ctx = Some (vis', fold (\<lambda>v. visit (of_nat v)) vs ctx) \<and> Q vs"
  shows "\<exists>vs. graph_traverse loop a (Some g) start (Some visit) ctx = Some (SCL_OK, fold (\<lambda>v. visit (of_nat v)) vs ctx) \<and> Q vs"
proof -
  obtain vb b where b: "calloc_fn a 0 (gr_vertex_count g) 1 max_align = Some vb"
    "malloc_fn a 1 (gr_vertex_count g * 8) max_align = Some b" using mem by auto
  have ov: "scl_mul_overflow (gr_vertex_count g) 8 = Some (gr_vertex_count g * 8)"
    using mem(3) by (simp add: scl_mul_overflow_def)
  have sz: "unat (gr_vertex_count g * 8) = unat (gr_vertex_count g) * 8"
    using mem(3) by (subst unat_mult_bounded) auto
  have vb: "length vb = unat (gr_vertex_count g)" "set vb \<subseteq> {0}"
    using scl_allocator.calloc_block [OF a b(1)] by (simp_all add: is_object_def)
  have "length b = unat (gr_vertex_count g) * 8" using scl_allocator.malloc_object(1) [OF a b(2)] sz by simp
  then have lb: "length (u64_array b) = unat (gr_vertex_count g)" by simp
  have su: "unat start < unat (gr_vertex_count g)" using s by (simp add: word_less_unat)
  have "0 < length (u64_array b)" using lb su by linarith
  then have b0: "put_at (u64_array b) 0 start = Some ((u64_array b)[0 := start])" "(u64_array b)[0 := start] ! 0 = start"
    by simp_all
  have v0: "put_at (bool_array vb) (unat start) True = Some ((bool_array vb)[unat start := True])"
    using vb(1) su by (simp add: bool_array_def)
  have "\<exists>vis' vs. loop g visit ((bool_array vb)[unat start := True]) ((u64_array b)[0 := start]) ctx
      = Some (vis', fold (\<lambda>v. visit (of_nat v)) vs ctx) \<and> Q vs"
    using vb lb b0(2) bool_array_zero [OF vb(2)] by (intro loop) (simp_all add: bool_array_def)
  moreover have "\<not> gr_vertex_count g \<le> start" using s by simp
  ultimately show ?thesis using b ov b0(1) v0 by (auto simp: graph_traverse_def)
qed

definition graph_memory :: "scl_allocator_t \<Rightarrow> size_t \<Rightarrow> bool" where
  "graph_memory a n \<longleftrightarrow> calloc_fn a 0 n 1 max_align \<noteq> None \<and> malloc_fn a 1 (n * 8) max_align \<noteq> None \<and> unat n * 8 < 2 ^ 64"

lemma slots_ok_id: "slots_ok g (2 ^ 64 - 1) id id"
proof -
  have "gr_vertex_count g \<le> SIZE_MAX" by (simp add: word_order.extremum)
  then have "unat (gr_vertex_count g) \<le> 2 ^ 64 - 1" by (simp only: word_le_nat_alt unat_SIZE_MAX)
  then show ?thesis by (simp add: slots_ok_def)
qed

lemma dfs_spec:
  assumes a: "scl_allocator a" and inv: "graph_inv g" and s: "start < gr_vertex_count g"
    and mem: "graph_memory a (gr_vertex_count g)"
  shows "\<exists>vs. scl_graph_dfs a (Some g) start (Some visit) ctx = Some (SCL_OK, fold (\<lambda>v. visit (of_nat v)) vs ctx) \<and>
    distinct vs \<and> set vs = reach g {} (unat start)"
  unfolding scl_graph_dfs_def
proof (rule graph_traverse_spec [OF a inv s])
  show "calloc_fn a 0 (gr_vertex_count g) 1 max_align \<noteq> None" "malloc_fn a 1 (gr_vertex_count g * 8) max_align \<noteq> None"
    "unat (gr_vertex_count g) * 8 < 2 ^ 64" using mem by (simp_all add: graph_memory_def)
  fix vis :: "bool list" and buf :: "size_t list"
  assume v: "length vis = unat (gr_vertex_count g)" "marked vis = {}" and b: "length buf = unat (gr_vertex_count g)" "buf ! 0 = start"
  have su: "unat start < unat (gr_vertex_count g)" using s by (simp add: word_less_unat)
  have "take (length [unat start]) buf = map (slot_of id) [unat start]" using b su by (cases buf) auto
  from dfs_loop_spec [OF inv slots_ok_id traversal_start(1) [OF v(1) su] b(1) this, of visit ctx]
  obtain vis' D' where D: "dfs_loop g (2 ^ 64 - 1) id id visit (vis[unat start := True]) buf 1 ctx = Some (vis', fold (\<lambda>v. visit (of_nat v)) D' ctx)"
    "traversal g {} (unat start) vis' D' []"
    by (simp only: v(2) Diff_empty list.size drop_0 One_nat_def empty_Diff add_0) metis
  have E: "distinct D' \<and> set D' = reach g {} (unat start)"
    using D(2) traversal_end(1) [OF D(2)] by (simp add: traversal_def)
  show "\<exists>vis' vs. dfs_loop g (2 ^ 64 - 1) id id visit (vis[unat start := True]) buf 1 ctx
      = Some (vis', fold (\<lambda>v. visit (of_nat v)) vs ctx) \<and> distinct vs \<and> set vs = reach g {} (unat start)"
    using D E by metis
qed

lemma bfs_spec:
  assumes a: "scl_allocator a" and inv: "graph_inv g" and s: "start < gr_vertex_count g"
    and mem: "graph_memory a (gr_vertex_count g)"
  shows "\<exists>vs. scl_graph_bfs a (Some g) start (Some visit) ctx = Some (SCL_OK, fold (\<lambda>v. visit (of_nat v)) vs ctx) \<and>
    distinct vs \<and> set vs = reach g {} (unat start) \<and> sorted (map (hops g {} (unat start)) vs)"
  unfolding scl_graph_bfs_def
proof (rule graph_traverse_spec [OF a inv s])
  show "calloc_fn a 0 (gr_vertex_count g) 1 max_align \<noteq> None" "malloc_fn a 1 (gr_vertex_count g * 8) max_align \<noteq> None"
    "unat (gr_vertex_count g) * 8 < 2 ^ 64" using mem by (simp_all add: graph_memory_def)
  fix vis :: "bool list" and buf :: "size_t list"
  assume v: "length vis = unat (gr_vertex_count g)" "marked vis = {}" and b: "length buf = unat (gr_vertex_count g)" "buf ! 0 = start"
  have su: "unat start < unat (gr_vertex_count g)" using s by (simp add: word_less_unat)
  have "take (length ([] @ [unat start])) buf = map (slot_of id) ([] @ [unat start])" using b su by (cases buf) auto
  from bfs_loop_spec [OF inv slots_ok_id traversal_start [OF v(1) su] b(1) this, of visit ctx]
  obtain vis' D' where D: "bfs_loop g (2 ^ 64 - 1) id id visit (vis[unat start := True]) buf 0 1 ctx = Some (vis', fold (\<lambda>v. visit (of_nat v)) D' ctx)"
    "traversal g {} (unat start) vis' D' []" "sorted (map (hops g {} (unat start)) D')"
    by (simp only: v(2) append_Nil Diff_empty list.size drop_0 One_nat_def empty_Diff add_0) metis
  have E: "distinct D' \<and> set D' = reach g {} (unat start)"
    using D(2) traversal_end(1) [OF D(2)] by (simp add: traversal_def)
  show "\<exists>vis' vs. bfs_loop g (2 ^ 64 - 1) id id visit (vis[unat start := True]) buf 0 1 ctx
      = Some (vis', fold (\<lambda>v. visit (of_nat v)) vs ctx) \<and> distinct vs \<and> set vs = reach g {} (unat start) \<and>
      sorted (map (hops g {} (unat start)) vs)"
    using D E by metis
qed

subsection \<open>The searches over \<open>int\<close> vertices\<close>

text \<open>Below \<open>2 ^ 31\<close> a vertex survives the cast to \<open>int\<close> and back.\<close>

lemma scast_ucast_vertex: "unat (v :: size_t) < 2 ^ 31 \<Longrightarrow> scast (ucast v :: 32 word) = v"
proof -
  assume v: "unat v < 2 ^ 31"
  have "int (unat v) < int (2 ^ 31)" using v by (simp only: of_nat_less_iff)
  then have u: "uint v < 2 ^ 31" by simp
  have "uint (ucast v :: 32 word) = uint v"
    using u by (simp add: unsigned_ucast_eq take_bit_int_eq_self)
  then have "sint (ucast v :: 32 word) = uint v"
    using u order_trans [OF _ uint_ge_0 [of v], of "- (2 ^ 31)"] signed_take_bit_int_eq_self [of 31 "uint v"]
    by (subst sint_uint) simp
  then show ?thesis by (metis scast_eq word_of_int_uint)
qed

lemma slots_ok_int: "unat (gr_vertex_count g) < 2 ^ 31 \<Longrightarrow> slots_ok g (2 ^ 31 - 1) ucast (scast :: 32 word \<Rightarrow> size_t)"
  unfolding slots_ok_def by (auto intro!: scast_ucast_vertex simp: word_less_unat)

definition search_memory :: "scl_allocator_t \<Rightarrow> size_t \<Rightarrow> bool" where
  "search_memory a n \<longleftrightarrow> malloc_fn a 0 (n * 4) max_align \<noteq> None"

text \<open>The vertex an \<open>int\<close> argument names, when it passes the checks.\<close>

lemma start_vertex:
  assumes "unat n < 2 ^ 31" and "\<not> sint (start :: 32 word) < 0" and "\<not> n \<le> (scast start :: size_t)"
  shows "unat (scast start :: size_t) < unat n" and "ucast (scast start :: size_t) = start"
proof -
  show "unat (scast start :: size_t) < unat n" using assms(3) by (simp add: word_le_nat_alt)
  show "ucast (scast start :: size_t) = start"
  proof (rule bit_word_eqI)
    fix n assume "n < LENGTH(32)"
    then show "bit (ucast (scast start :: size_t) :: 32 word) n = bit start n"
      by (cases "n = 31") (auto simp: bit_ucast_iff bit_simps min_def)
  qed
qed

lemma search_traverse_spec:
  assumes a: "scl_allocator a" and inv: "graph_inv g" and n: "unat (gr_vertex_count g) < 2 ^ 31"
    and s: "\<not> sint start < 0" "\<not> gr_vertex_count g \<le> scast start" and data: "arr_data (gr_nodes g) \<noteq> None"
    and vis: "length vis = unat (gr_vertex_count g)" and mem: "search_memory a (gr_vertex_count g)"
    and loop: "\<And>buf. length buf = unat (gr_vertex_count g) \<Longrightarrow> buf ! 0 = start \<Longrightarrow>
      \<exists>vis' u. loop g (vis[unat (scast start :: size_t) := True]) buf = Some (vis', u) \<and> Q vis'"
  shows "\<exists>vis'. search_traverse loop a (Some g) start (Some vis) = Some (SCL_OK, Some vis') \<and> Q vis'"
proof -
  let ?s = "scast start :: size_t"
  note sv = start_vertex [OF n s]
  obtain b where b: "malloc_fn a 0 (gr_vertex_count g * 4) max_align = Some b" using mem by (auto simp: search_memory_def)
  have ov: "scl_mul_overflow (gr_vertex_count g) 4 = Some (gr_vertex_count g * 4)"
    using n by (simp add: scl_mul_overflow_def)
  have "unat (gr_vertex_count g * 4) = unat (gr_vertex_count g) * 4" using n by (subst unat_mult_bounded) auto
  then have "length b = unat (gr_vertex_count g) * 4" using scl_allocator.malloc_object(1) [OF a b] by simp
  then have lb: "length (i32_array b) = unat (gr_vertex_count g)" by simp
  have "0 < length (i32_array b)" using lb sv(1) by linarith
  then have b0: "put_at (i32_array b) 0 start = Some ((i32_array b)[0 := start])" "(i32_array b)[0 := start] ! 0 = start"
    by simp_all
  have v0: "put_at vis (unat ?s) True = Some (vis[unat ?s := True])" using vis sv(1) by simp
  have "\<exists>vis' u. loop g (vis[unat ?s := True]) ((i32_array b)[0 := start]) = Some (vis', u) \<and> Q vis'"
    using lb b0(2) by (intro loop) simp_all
  moreover have "gr_vertex_count g \<noteq> 0" using sv(1) by auto
  ultimately show ?thesis using b ov b0(1) v0 s data by (auto simp: search_traverse_def)
qed

text \<open>Marked afterwards: what was marked before, and what can be reached around it.\<close>

definition search_result :: "scl_graph_t \<Rightarrow> nat \<Rightarrow> bool list \<Rightarrow> bool list \<Rightarrow> bool" where
  "search_result g s vis vis' \<longleftrightarrow> length vis' = length vis \<and> marked vis' = marked vis \<union> reach g (marked vis - {s}) s"

lemma search_result_end:
  assumes "traversal g (marked vis - {s}) s vis' D []" and "length vis = unat (gr_vertex_count g)"
  shows "search_result g s vis vis'"
  using traversal_end(2) [OF assms(1)] assms(2) assms(1) reach_start [of s g "marked vis - {s}"]
  by (auto simp: search_result_def traversal_def)

text \<open>The test of \<open>nodes.data\<close> never fails on a graph with a vertex.\<close>

lemma buf_ok_no_data: "buf_ok None cap es \<Longrightarrow> cap = 0"
  by (simp add: buf_ok_def)

lemma graph_inv_data: "graph_inv g \<Longrightarrow> gr_vertex_count g \<noteq> 0 \<Longrightarrow> arr_data (gr_nodes g) \<noteq> None"
  using graph_inv_arrays [of g] by (cases "arr_data (gr_nodes g)") (auto simp: arrays_ok_def array_inv_def dest: buf_ok_no_data)

lemma search_dfs_spec:
  assumes a: "scl_allocator a" and inv: "graph_inv g" and n: "unat (gr_vertex_count g) < 2 ^ 31"
    and s: "\<not> sint start < 0" "\<not> gr_vertex_count g \<le> scast start" and data: "arr_data (gr_nodes g) \<noteq> None"
    and vis: "length vis = unat (gr_vertex_count g)" and mem: "search_memory a (gr_vertex_count g)"
  shows "\<exists>vis'. scl_search_depth_first_search a (Some g) start (Some vis) = Some (SCL_OK, Some vis') \<and>
    search_result g (unat (scast start :: size_t)) vis vis'"
  unfolding scl_search_depth_first_search_def
proof (rule search_traverse_spec [OF assms])
  fix buf :: "32 word list" assume b: "length buf = unat (gr_vertex_count g)" "buf ! 0 = start"
  let ?s = "unat (scast start :: size_t)"
  note sv = start_vertex [OF n s]
  have "take (length [?s]) buf = map (slot_of ucast) [?s]" using b sv by (cases buf) auto
  from dfs_loop_spec [OF inv slots_ok_int [OF n] traversal_start(1) [OF vis sv(1)] b(1) this, of "\<lambda>v u. u" "()"]
  show "\<exists>vis' u. dfs_loop g (2 ^ 31 - 1) ucast scast (\<lambda>v u. u) (vis[?s := True]) buf 1 () = Some (vis', u) \<and>
      search_result g ?s vis vis'"
    using search_result_end [OF _ vis] by auto
qed

lemma search_bfs_spec:
  assumes a: "scl_allocator a" and inv: "graph_inv g" and n: "unat (gr_vertex_count g) < 2 ^ 31"
    and s: "\<not> sint start < 0" "\<not> gr_vertex_count g \<le> scast start" and data: "arr_data (gr_nodes g) \<noteq> None"
    and vis: "length vis = unat (gr_vertex_count g)" and mem: "search_memory a (gr_vertex_count g)"
  shows "\<exists>vis'. scl_search_breadth_first_search a (Some g) start (Some vis) = Some (SCL_OK, Some vis') \<and>
    search_result g (unat (scast start :: size_t)) vis vis'"
  unfolding scl_search_breadth_first_search_def
proof (rule search_traverse_spec [OF assms])
  fix buf :: "32 word list" assume b: "length buf = unat (gr_vertex_count g)" "buf ! 0 = start"
  let ?s = "unat (scast start :: size_t)"
  note sv = start_vertex [OF n s]
  have "take (length ([] @ [?s])) buf = map (slot_of ucast) ([] @ [?s])" using b sv by (cases buf) auto
  from bfs_loop_spec [OF inv slots_ok_int [OF n] traversal_start [OF vis sv(1)] b(1) this, of "\<lambda>v u. u" "()"]
  show "\<exists>vis' u. bfs_loop g (2 ^ 31 - 1) ucast scast (\<lambda>v u. u) (vis[?s := True]) buf 0 1 () = Some (vis', u) \<and>
      search_result g ?s vis vis'"
    using search_result_end [OF _ vis] by auto
qed

end
