(* ===== verification/Scl_Nodes.thy ===== *)
theory Scl_Nodes
  imports Scl_Store
begin

text \<open>
  The memory of the pointer structures: a map from addresses to nodes. An address is a \<open>size_t\<close>, 0 is \<open>NULL\<close>. Where
  \<open>malloc\<close> puts a node is a parameter, a \<open>site\<close>, which may also fail; the locale \<open>node_place\<close> states what is
  documented, that the address is not in use. Reading or writing a node that is not there, because the
  pointer is \<open>NULL\<close> or the node was freed, is undefined, and so is freeing it again.
  A field that holds an address makes the memory a graph; \<open>path\<close> says which nodes a pointer leads through.
\<close>

section \<open>Memory\<close>

type_synonym 'n mem = "size_t \<Rightarrow> 'n option"

definition deref :: "'n mem \<Rightarrow> size_t \<Rightarrow> 'n ub" where
  "deref h p = (if p = 0 then None else h p)"

definition assign :: "'n mem \<Rightarrow> size_t \<Rightarrow> 'n \<Rightarrow> 'n mem ub" where
  "assign h p n = (if p = 0 \<or> h p = None then None else Some (h(p := Some n)))"

text \<open>\<open>free(NULL)\<close> does nothing.\<close>

definition node_free :: "'n mem \<Rightarrow> size_t \<Rightarrow> 'n mem ub" where
  "node_free h p = (if p = 0 then Some h else if h p = None then None else Some (h(p := None)))"

text \<open>The address of a new object of that many bytes, or \<open>None\<close> when there is no memory.\<close>

type_synonym 'n site = "'n mem \<Rightarrow> size_t \<Rightarrow> size_t ptr"

locale node_place =
  fixes place :: "'n site"
  assumes fresh_place: "place h sz = Some p \<Longrightarrow> p \<noteq> 0 \<and> h p = None"

text \<open>A memory with the addresses below a limit, the first free one being taken.\<close>

definition first_free :: "nat \<Rightarrow> 'n mem \<Rightarrow> size_t \<Rightarrow> size_t ptr" where
  "first_free n h sz = find (\<lambda>p. p \<noteq> 0 \<and> h p = None) (map of_nat [1..<n])"

lemma find_holds: "find P xs = Some x \<Longrightarrow> P x"
  by (induction xs) (auto split: if_splits)

interpretation first_free: node_place "first_free n" for n
  by unfold_locales (auto simp: first_free_def dest: find_holds)

section \<open>Paths\<close>

text \<open>One field of the nodes; a field that holds an address makes links.\<close>

definition links :: "('n \<Rightarrow> 'v) \<Rightarrow> 'n mem \<Rightarrow> size_t \<Rightarrow> 'v option" where
  "links f h x = map_option f (h x)"

lemma links_upd [simp]: "links f (h(x := Some n)) = (links f h)(x := Some (f n))"
  by (auto simp: links_def)

lemma links_free [simp]: "links f (h(x := None)) = (links f h)(x := None)"
  by (auto simp: links_def)

lemma links_Some: "links f h x = Some v \<longleftrightarrow> (\<exists>n. h x = Some n \<and> v = f n)"
  by (auto simp: links_def)

lemma links_at [simp]: "h x = Some n \<Longrightarrow> links f h x = Some (f n)"
  by (simp add: links_def)

lemma links_same: "h x = Some n \<Longrightarrow> v = f n \<Longrightarrow> (links f h)(x := Some v) = links f h"
  by (auto simp: links_def)

fun path :: "(size_t \<Rightarrow> size_t option) \<Rightarrow> size_t \<Rightarrow> size_t list \<Rightarrow> size_t \<Rightarrow> bool" where
  "path L p [] q \<longleftrightarrow> p = q"
| "path L p (x # xs) q \<longleftrightarrow> p = x \<and> x \<noteq> 0 \<and> (\<exists>y. L x = Some y \<and> path L y xs q)"

lemma path_append: "path L p (xs @ ys) q \<longleftrightarrow> (\<exists>r. path L p xs r \<and> path L r ys q)"
  by (induction xs arbitrary: p) auto

lemma path_upd [simp]: "x \<notin> set xs \<Longrightarrow> path (L(x := v)) p xs q = path L p xs q"
  by (induction xs arbitrary: p) auto

lemma path_snoc: "path L p (xs @ [x]) q \<longleftrightarrow> path L p xs x \<and> x \<noteq> 0 \<and> L x = Some q"
  by (auto simp: path_append)

lemma path_from_null [simp]: "path L 0 xs q \<longleftrightarrow> xs = [] \<and> q = 0"
  by (cases xs) auto

lemma path_not_null: "path L p xs q \<Longrightarrow> 0 \<notin> set xs"
  by (induction xs arbitrary: p) auto

lemma path_live: "path L p xs q \<Longrightarrow> x \<in> set xs \<Longrightarrow> L x \<noteq> None"
  by (induction xs arbitrary: p) auto

lemma path_start: "path L p xs q \<Longrightarrow> p = (if xs = [] then q else hd xs)"
  by (cases xs) auto

lemma path_unique: "path L p xs 0 \<Longrightarrow> path L p ys 0 \<Longrightarrow> xs = ys"
proof (induction xs arbitrary: p ys)
  case Nil
  then show ?case by simp
next
  case (Cons x xs)
  then show ?case by (cases ys) auto
qed

lemma path_distinct: "path L p xs 0 \<Longrightarrow> distinct xs"
proof (induction xs arbitrary: p)
  case (Cons x xs)
  then obtain y where y: "L x = Some y" "path L y xs 0" by auto
  have "x \<notin> set xs"
  proof
    assume "x \<in> set xs"
    then obtain us vs where s: "xs = us @ x # vs" by (meson split_list)
    then have "path L y (us @ x # vs) 0" using y(2) by simp
    then have "path L y vs 0" using y(1) by (auto simp: path_append)
    then have "vs = xs" using y(2) path_unique by blast
    then show False using arg_cong [OF s, of length] by simp
  qed
  then show ?case using Cons.IH [OF y(2)] by simp
qed simp

lemma path_length: "path L p xs 0 \<Longrightarrow> length xs < 2 ^ 64"
proof -
  assume p: "path L p xs 0"
  have "card (set xs) < card (UNIV :: size_t set)"
    using path_not_null [OF p] by (intro psubset_card_mono) auto
  then show ?thesis using distinct_card [OF path_distinct [OF p]] by (simp add: card_word)
qed

text \<open>One node taken out of a path.\<close>

lemma path_unlink:
  assumes "path L p (us @ x # vs) 0"
  obtains y where "L x = Some y" and "path L y vs 0" and "path L p us x" and "x \<notin> set us" and "x \<notin> set vs" and "x \<noteq> 0"
    and "us \<noteq> [] \<Longrightarrow> L (last us) = Some x" and "y = (if vs = [] then 0 else hd vs)"
proof -
  from assms obtain y where y: "path L p us x" "x \<noteq> 0" "L x = Some y" "path L y vs 0" by (auto simp: path_append)
  have "distinct (us @ x # vs)" using assms by (rule path_distinct)
  moreover have "L (last us) = Some x" if "us \<noteq> []"
    using y(1) that by (cases us rule: rev_cases) (auto simp: path_snoc)
  ultimately show thesis using y path_start [OF y(4)] by (intro that [of y]) auto
qed

text \<open>Bending the link that leads to a node.\<close>

lemma path_bend:
  assumes "path L p us x" and "us \<noteq> []" and "distinct us"
  shows "path (L(last us := Some y)) p us y"
  using assms by (cases us rule: rev_cases) (auto simp: path_snoc)

text \<open>What is stored along a path.\<close>

definition along :: "('n \<Rightarrow> 'v) \<Rightarrow> 'n mem \<Rightarrow> size_t list \<Rightarrow> 'v list" where
  "along f h xs = map (\<lambda>x. f (the (h x))) xs"

lemma along_simps [simp]:
  "along f h [] = []" "along f h (x # xs) = f (the (h x)) # along f h xs" "along f h (xs @ ys) = along f h xs @ along f h ys"
  "length (along f h xs) = length xs"
  by (simp_all add: along_def)

lemma along_upd [simp]: "x \<notin> set xs \<Longrightarrow> along f (h(x := v)) xs = along f h xs"
  by (auto simp: along_def)

lemma along_cong: "(\<And>x. x \<in> set xs \<Longrightarrow> map_option f (h' x) = map_option f (h x)) \<Longrightarrow> (\<And>x. x \<in> set xs \<Longrightarrow> h x \<noteq> None) \<Longrightarrow>
  along f h' xs = along f h xs"
  by (force simp: along_def)

lemma along_same: "h x = Some n \<Longrightarrow> f m = f n \<Longrightarrow> along f (h(x := Some m)) xs = along f h xs"
  by (auto simp: along_def)

lemma deref_live [simp]: "h p = Some n \<Longrightarrow> p \<noteq> 0 \<Longrightarrow> deref h p = Some n"
  by (simp add: deref_def)

lemma assign_live [simp]: "h p = Some n \<Longrightarrow> p \<noteq> 0 \<Longrightarrow> assign h p m = Some (h(p := Some m))"
  by (simp add: assign_def)

lemma free_live [simp]: "h p = Some n \<Longrightarrow> p \<noteq> 0 \<Longrightarrow> node_free h p = Some (h(p := None))"
  by (simp add: node_free_def)

text \<open>Changing a node, if there is one.\<close>

definition modify :: "'n mem \<Rightarrow> size_t \<Rightarrow> ('n \<Rightarrow> 'n) \<Rightarrow> 'n mem" where
  "modify h p f = (if p = 0 then h else h(p := map_option f (h p)))"

definition update :: "'n mem \<Rightarrow> size_t \<Rightarrow> ('n \<Rightarrow> 'n) \<Rightarrow> 'n mem ub" where
  "update h p f = do { n \<leftarrow> deref h p; assign h p (f n) }"

lemma update_live [simp]: "h p \<noteq> None \<Longrightarrow> p \<noteq> 0 \<Longrightarrow> update h p f = Some (modify h p f)"
  by (auto simp: update_def modify_def deref_def assign_def)

lemma modify_null [simp]: "modify h 0 f = h"
  by (simp add: modify_def)

lemma modify_none [simp]: "modify h p f x = None \<longleftrightarrow> h x = None"
  by (simp add: modify_def)

lemma modify_other [simp]: "x \<noteq> p \<Longrightarrow> modify h p f x = h x"
  by (simp add: modify_def)

lemma links_modify_other: "(\<And>n. g (f n) = g n) \<Longrightarrow> links g (modify h p f) = links g h"
  by (auto simp: modify_def links_def fun_eq_iff option.map_comp comp_def)

lemma links_modify: "p \<noteq> 0 \<Longrightarrow> h p \<noteq> None \<Longrightarrow> (\<And>n. g (f n) = v) \<Longrightarrow> links g (modify h p f) = (links g h)(p := Some v)"
  by (auto simp: modify_def links_def fun_eq_iff)

lemma along_links: "(\<And>x. x \<in> set xs \<Longrightarrow> links f h' x = links f h x) \<Longrightarrow> (\<And>x. x \<in> set xs \<Longrightarrow> h x \<noteq> None) \<Longrightarrow>
  along f h' xs = along f h xs"
  by (rule along_cong) (auto simp: links_def)

text \<open>An operation touches only what is in a set of addresses.\<close>

definition frame :: "'n mem \<Rightarrow> size_t set \<Rightarrow> 'n mem \<Rightarrow> bool" where
  "frame h X h' \<longleftrightarrow> (\<forall>x. h x \<noteq> None \<longrightarrow> x \<notin> X \<longrightarrow> h' x = h x)"

lemma frame_refl [simp]: "frame h X h"
  by (simp add: frame_def)

lemma frame_upd: "x \<in> X \<or> h x = None \<Longrightarrow> frame h X (h(x := v))"
  by (auto simp: frame_def)

lemma frame_upds: "frame h X h' \<Longrightarrow> x \<in> X \<or> h x = None \<Longrightarrow> frame h X (h'(x := v))"
  by (auto simp: frame_def)

lemma frame_path: "frame h X h' \<Longrightarrow> set xs \<inter> X = {} \<Longrightarrow> path (links f h) p xs q \<Longrightarrow> path (links f h') p xs q"
proof (induction xs arbitrary: p)
  case (Cons x xs)
  then have "h' x = h x" by (auto simp: frame_def links_def)
  then show ?case using Cons by (auto simp: links_def)
qed simp

lemma fresh_not_in_path: "path (links f h) p xs q \<Longrightarrow> h x = None \<Longrightarrow> x \<notin> set xs"
  using path_live [of "links f h" p xs q x] by (auto simp: links_def)

lemma count_room: "path L p (x # xs) 0 \<Longrightarrow> unat (c :: size_t) = length xs \<Longrightarrow> unat (c + 1) = Suc (length xs)"
  using path_length [of L p "x # xs"] by (subst unat_add_bounded) simp_all

lemma memcpy_all: "length v = n \<Longrightarrow> n \<le> length out \<Longrightarrow> scl_memcpy (Some out) 0 (Some v) 0 n = Some (Some (v @ drop n out))"
  by (simp add: scl_memcpy_def mem_read_def mem_write_def)

text \<open>The list without the first element that compares equal.\<close>

fun drop_first :: "('v \<Rightarrow> bool) \<Rightarrow> 'v list \<Rightarrow> 'v list" where
  "drop_first P [] = []"
| "drop_first P (x # xs) = (if P x then xs else x # drop_first P xs)"

lemma drop_first_skip: "\<forall>x \<in> set us. \<not> P x \<Longrightarrow> drop_first P (us @ vs) = us @ drop_first P vs"
  by (induction us) auto

section \<open>Paths in both directions\<close>

text \<open>A doubly linked list: the nodes in order from its head, and in reverse from its tail.\<close>

definition dpath ::
    "(size_t \<Rightarrow> size_t option) \<Rightarrow> (size_t \<Rightarrow> size_t option) \<Rightarrow> size_t \<Rightarrow> size_t \<Rightarrow> size_t list \<Rightarrow> bool" where
  "dpath L M p q xs \<longleftrightarrow> path L p xs 0 \<and> path M q (rev xs) 0"

definition first_of :: "size_t list \<Rightarrow> size_t" where
  "first_of xs = (if xs = [] then 0 else hd xs)"

definition last_of :: "size_t list \<Rightarrow> size_t" where
  "last_of xs = (if xs = [] then 0 else last xs)"

lemma ends_simps [simp]:
  "first_of [] = 0" "first_of (x # xs) = x" "last_of [] = 0" "last_of [x] = x" "last_of (xs @ [x]) = x" "first_of (rev xs) = last_of xs"
  "last_of (xs @ y # ys) = last_of (y # ys)"
  by (simp_all add: first_of_def last_of_def hd_rev)

lemma dpath_ends: "dpath L M p q xs \<Longrightarrow> p = first_of xs \<and> q = last_of xs"
  using path_start [of L p xs 0] path_start [of M q "rev xs" 0] by (auto simp: dpath_def first_of_def last_of_def hd_rev)

lemma dpath_distinct: "dpath L M p q xs \<Longrightarrow> distinct xs"
  using path_distinct [of L p xs] by (simp add: dpath_def)

lemma dpath_null: "dpath L M p q xs \<Longrightarrow> 0 \<notin> set xs"
  using path_not_null [of L p xs 0] by (simp add: dpath_def)

lemma dpath_first_null [simp]: "dpath L M p q xs \<Longrightarrow> first_of xs = 0 \<longleftrightarrow> xs = []"
  using dpath_null [of L M p q xs] by (cases xs) auto

lemma dpath_last_null [simp]: "dpath L M p q xs \<Longrightarrow> last_of xs = 0 \<longleftrightarrow> xs = []"
  using dpath_null [of L M p q xs] by (cases xs rule: rev_cases) auto

lemma dpath_at:
  assumes "dpath L M p q (us @ x # vs)"
  shows "L x = Some (first_of vs)" and "M x = Some (last_of us)"
proof -
  have l: "path L p (us @ x # vs) 0" "path M q (rev vs @ x # rev us) 0" using assms by (simp_all add: dpath_def)
  show "L x = Some (first_of vs)" by (rule path_unlink [OF l(1)]) (simp add: first_of_def)
  show "M x = Some (last_of us)" by (rule path_unlink [OF l(2)]) (simp add: last_of_def hd_rev)
qed

text \<open>Taking a node out of one direction, and putting one in.\<close>

lemma path_without:
  assumes p: "path L p (us @ x # vs) 0"
  shows "path ((if us = [] then L else L(last us := Some (first_of vs)))(x := None)) (if us = [] then first_of vs else p) (us @ vs) 0"
proof -
  have d: "distinct (us @ x # vs)" using p by (rule path_distinct)
  obtain y where y: "path L y vs 0" "path L p us x" "x \<notin> set us" "x \<notin> set vs" "y = first_of vs"
    using path_unlink [OF p] by (metis first_of_def)
  show ?thesis
  proof (cases us rule: rev_cases)
    case Nil
    then show ?thesis using y by simp
  next
    case (snoc ws w)
    have "path (L(w := Some y)) p (ws @ [w]) y" using path_bend [OF y(2)] d snoc by simp
    moreover have "w \<notin> set vs" using d snoc by simp
    ultimately show ?thesis using y snoc d by (auto simp: path_append fun_upd_twist)
  qed
qed

lemma path_with:
  assumes p: "path L p (us @ vs) 0" and x: "x \<noteq> 0" "x \<notin> set us" "x \<notin> set vs"
  shows "path ((if us = [] then L else L(last us := Some x))(x := Some (first_of vs))) (if us = [] then x else p) (us @ x # vs) 0"
proof -
  have d: "distinct (us @ vs)" using p by (rule path_distinct)
  obtain r where r: "path L p us r" "path L r vs 0" using p by (auto simp: path_append)
  then have v: "path L (first_of vs) vs 0" using path_start [OF r(2)] by (simp add: first_of_def)
  show ?thesis
  proof (cases us rule: rev_cases)
    case Nil
    then show ?thesis using v x by simp
  next
    case (snoc ws w)
    have "path (L(w := Some x)) p (ws @ [w]) x" using path_bend [OF r(1)] d snoc by simp
    moreover have "w \<notin> set vs" using d snoc by simp
    ultimately show ?thesis using v snoc x by (auto simp: path_append)
  qed
qed

lemma dpath_without:
  assumes "dpath L M p q (us @ x # vs)"
  shows "dpath ((if us = [] then L else L(last us := Some (first_of vs)))(x := None))
    ((if vs = [] then M else M(hd vs := Some (last_of us)))(x := None))
    (if us = [] then first_of vs else p) (if vs = [] then last_of us else q) (us @ vs)"
  using path_without [of L p us x vs] path_without [of M q "rev vs" x "rev us"] assms
  by (cases "vs = []") (auto simp: dpath_def last_rev)

lemma dpath_with:
  assumes "dpath L M p q (us @ vs)" and "x \<noteq> 0" and "x \<notin> set us" and "x \<notin> set vs"
  shows "dpath ((if us = [] then L else L(last us := Some x))(x := Some (first_of vs)))
    ((if vs = [] then M else M(hd vs := Some x))(x := Some (last_of us)))
    (if us = [] then x else p) (if vs = [] then x else q) (us @ x # vs)"
  using path_with [of L p us vs x] path_with [of M q "rev vs" "rev us" x] assms
  by (cases "vs = []") (auto simp: dpath_def last_rev)

end
