(* ===== verification/Scl_Slist.thy ===== *)
theory Scl_Slist
  imports Scl_Nodes
begin

text \<open>
  The singly linked list of \<open>libs/structures/slist/scl_slist.c\<close>. Appending to it and removing at its front make it a
  queue, inserting and removing at its front a stack.
\<close>

record scl_slist_node_t =
  sn_next :: size_t
  sn_data :: block

record scl_slist_t =
  sl_head :: size_t
  sl_tail :: size_t
  sl_element_size :: size_t
  sl_count :: size_t

type_synonym slist_mem = "scl_slist_node_t mem"
type_synonym slist_place = "scl_slist_node_t site"

section \<open>The operations\<close>

definition scl_slist_init :: "scl_slist_t ptr \<Rightarrow> size_t \<Rightarrow> scl_error_t \<times> scl_slist_t ptr" where
  "scl_slist_init lst element_size =
     (case lst of
        None \<Rightarrow> (SCL_ERR_NULL_PTR, lst)
      | Some _ \<Rightarrow>
          if element_size = 0 then (SCL_ERR_INVALID_ARG, lst)
          else (SCL_OK, Some \<lparr>sl_head = 0, sl_tail = 0, sl_element_size = element_size, sl_count = 0\<rparr>))"

partial_function (option) slist_free_all :: "slist_mem \<Rightarrow> size_t \<Rightarrow> slist_mem ub" where
  [code]: "slist_free_all h cur =
     (if cur \<noteq> 0 then do {
        n \<leftarrow> deref h cur;
        h \<leftarrow> node_free h cur;
        slist_free_all h (sn_next n)
      } else Some h)"

definition scl_slist_destroy :: "slist_mem \<Rightarrow> scl_slist_t ptr \<Rightarrow> (scl_slist_t ptr \<times> slist_mem) ub" where
  "scl_slist_destroy h lst =
     (case lst of
        None \<Rightarrow> Some (lst, h)
      | Some l \<Rightarrow> do {
          h \<leftarrow> slist_free_all h (sl_head l);
          Some (Some (l\<lparr>sl_head := 0, sl_tail := 0, sl_count := 0\<rparr>), h)
        })"

text \<open>The node is 8 bytes for the link and the element behind it.\<close>

definition scl_slist_create_node ::
    "slist_place \<Rightarrow> slist_mem \<Rightarrow> block \<Rightarrow> size_t \<Rightarrow> (scl_error_t \<times> size_t \<times> slist_mem) ub" where
  "scl_slist_create_node place h data element_size =
     (case scl_add_overflow 8 element_size of
        None \<Rightarrow> Some (SCL_ERR_SIZE_OVERFLOW, 0, h)
      | Some node_sz \<Rightarrow>
          (case place h node_sz of
             None \<Rightarrow> Some (SCL_ERR_OUT_OF_MEMORY, 0, h)
           | Some node \<Rightarrow> do {
               v \<leftarrow> mem_read data 0 (unat element_size);
               Some (SCL_OK, node, h(node := Some \<lparr>sn_next = 0, sn_data = v\<rparr>))
             }))"

definition slist_set_next :: "slist_mem \<Rightarrow> size_t \<Rightarrow> size_t \<Rightarrow> slist_mem ub" where
  "slist_set_next h p q = do { n \<leftarrow> deref h p; assign h p (n\<lparr>sn_next := q\<rparr>) }"

definition scl_slist_push_front ::
    "slist_place \<Rightarrow> slist_mem \<Rightarrow> scl_slist_t ptr \<Rightarrow> block ptr \<Rightarrow> (scl_error_t \<times> scl_slist_t ptr \<times> slist_mem) ub" where
  "scl_slist_push_front place h lst element =
     (case (lst, element) of
        (Some l, Some e) \<Rightarrow> do {
          (err, node, h) \<leftarrow> scl_slist_create_node place h e (sl_element_size l);
          if err \<noteq> SCL_OK then Some (err, lst, h)
          else do {
            h \<leftarrow> slist_set_next h node (sl_head l);
            let l = l\<lparr>sl_head := node\<rparr>;
            let l = (if sl_tail l = 0 then l\<lparr>sl_tail := node\<rparr> else l);
            Some (SCL_OK, Some (l\<lparr>sl_count := sl_count l + 1\<rparr>), h)
          }
        }
      | _ \<Rightarrow> Some (SCL_ERR_NULL_PTR, lst, h))"

definition scl_slist_push_back ::
    "slist_place \<Rightarrow> slist_mem \<Rightarrow> scl_slist_t ptr \<Rightarrow> block ptr \<Rightarrow> (scl_error_t \<times> scl_slist_t ptr \<times> slist_mem) ub" where
  "scl_slist_push_back place h lst element =
     (case (lst, element) of
        (Some l, Some e) \<Rightarrow> do {
          (err, node, h) \<leftarrow> scl_slist_create_node place h e (sl_element_size l);
          if err \<noteq> SCL_OK then Some (err, lst, h)
          else do {
            (l, h) \<leftarrow> (if sl_tail l \<noteq> 0 then do { h \<leftarrow> slist_set_next h (sl_tail l) node; Some (l, h) }
                       else Some (l\<lparr>sl_head := node\<rparr>, h));
            let l = l\<lparr>sl_tail := node\<rparr>;
            Some (SCL_OK, Some (l\<lparr>sl_count := sl_count l + 1\<rparr>), h)
          }
        }
      | _ \<Rightarrow> Some (SCL_ERR_NULL_PTR, lst, h))"

definition scl_slist_pop_front ::
    "slist_mem \<Rightarrow> scl_slist_t ptr \<Rightarrow> block ptr \<Rightarrow> (scl_error_t \<times> scl_slist_t ptr \<times> slist_mem \<times> block ptr) ub" where
  "scl_slist_pop_front h lst out =
     (case (lst, out) of
        (Some l, Some _) \<Rightarrow>
          if sl_head l = 0 then Some (SCL_ERR_EMPTY, lst, h, out)
          else do {
            n \<leftarrow> deref h (sl_head l);
            out \<leftarrow> scl_memcpy out 0 (Some (sn_data n)) 0 (unat (sl_element_size l));
            let node = sl_head l;
            let l = l\<lparr>sl_head := sn_next n\<rparr>;
            let l = (if sl_head l = 0 then l\<lparr>sl_tail := 0\<rparr> else l);
            h \<leftarrow> node_free h node;
            Some (SCL_OK, Some (l\<lparr>sl_count := sl_count l - 1\<rparr>), h, out)
          }
      | _ \<Rightarrow> Some (SCL_ERR_NULL_PTR, lst, h, out))"

text \<open>\<open>front\<close> and \<open>back\<close> differ in the end they look at.\<close>

definition slist_read_end ::
    "(scl_slist_t \<Rightarrow> size_t) \<Rightarrow> slist_mem \<Rightarrow> scl_slist_t ptr \<Rightarrow> block ptr \<Rightarrow> (scl_error_t \<times> block ptr) ub" where
  "slist_read_end which h lst out =
     (case (lst, out) of
        (Some l, Some _) \<Rightarrow>
          if which l = 0 then Some (SCL_ERR_EMPTY, out)
          else do {
            n \<leftarrow> deref h (which l);
            out \<leftarrow> scl_memcpy out 0 (Some (sn_data n)) 0 (unat (sl_element_size l));
            Some (SCL_OK, out)
          }
      | _ \<Rightarrow> Some (SCL_ERR_NULL_PTR, out))"

definition scl_slist_front :: "slist_mem \<Rightarrow> scl_slist_t ptr \<Rightarrow> block ptr \<Rightarrow> (scl_error_t \<times> block ptr) ub" where
  "scl_slist_front = slist_read_end sl_head"

definition scl_slist_back :: "slist_mem \<Rightarrow> scl_slist_t ptr \<Rightarrow> block ptr \<Rightarrow> (scl_error_t \<times> block ptr) ub" where
  "scl_slist_back = slist_read_end sl_tail"

definition scl_slist_count :: "scl_slist_t ptr \<Rightarrow> size_t" where
  "scl_slist_count lst = (case lst of Some l \<Rightarrow> sl_count l | None \<Rightarrow> 0)"

definition scl_slist_empty :: "scl_slist_t ptr \<Rightarrow> bool" where
  "scl_slist_empty lst = (case lst of Some l \<Rightarrow> sl_count l = 0 | None \<Rightarrow> True)"

partial_function (option) slist_remove_loop ::
    "(block \<Rightarrow> block \<Rightarrow> int) \<Rightarrow> block \<Rightarrow> scl_slist_t \<Rightarrow> slist_mem \<Rightarrow> size_t \<Rightarrow> size_t \<Rightarrow> (scl_error_t \<times> scl_slist_t \<times> slist_mem) ub" where
  [code]: "slist_remove_loop cmp element l h prev cur =
     (if cur \<noteq> 0 then do {
        n \<leftarrow> deref h cur;
        if cmp (sn_data n) element = 0 then do {
          (l, h) \<leftarrow> (if prev \<noteq> 0 then do { h \<leftarrow> slist_set_next h prev (sn_next n); Some (l, h) }
                     else Some (l\<lparr>sl_head := sn_next n\<rparr>, h));
          let l = (if cur = sl_tail l then l\<lparr>sl_tail := prev\<rparr> else l);
          h \<leftarrow> node_free h cur;
          Some (SCL_OK, l\<lparr>sl_count := sl_count l - 1\<rparr>, h)
        } else slist_remove_loop cmp element l h cur (sn_next n)
      } else Some (SCL_ERR_NOT_FOUND, l, h))"

definition scl_slist_remove ::
    "slist_mem \<Rightarrow> scl_slist_t ptr \<Rightarrow> block ptr \<Rightarrow> (block \<Rightarrow> block \<Rightarrow> int) ptr \<Rightarrow> (scl_error_t \<times> scl_slist_t ptr \<times> slist_mem) ub" where
  "scl_slist_remove h lst element cmp =
     (case (lst, element, cmp) of
        (Some l, Some e, Some c) \<Rightarrow> do {
          (err, l, h) \<leftarrow> slist_remove_loop c e l h 0 (sl_head l);
          Some (err, Some l, h)
        }
      | _ \<Rightarrow> Some (SCL_ERR_NULL_PTR, lst, h))"

partial_function (option) slist_search_loop ::
    "(block \<Rightarrow> block \<Rightarrow> int) \<Rightarrow> block \<Rightarrow> size_t \<Rightarrow> block \<Rightarrow> slist_mem \<Rightarrow> size_t \<Rightarrow> (scl_error_t \<times> block ptr) ub" where
  [code]: "slist_search_loop cmp key esz out h cur =
     (if cur \<noteq> 0 then do {
        n \<leftarrow> deref h cur;
        if cmp (sn_data n) key = 0 then do {
          out \<leftarrow> scl_memcpy (Some out) 0 (Some (sn_data n)) 0 (unat esz);
          Some (SCL_OK, out)
        } else slist_search_loop cmp key esz out h (sn_next n)
      } else Some (SCL_ERR_NOT_FOUND, Some out))"

definition scl_slist_search ::
    "slist_mem \<Rightarrow> scl_slist_t ptr \<Rightarrow> block ptr \<Rightarrow> (block \<Rightarrow> block \<Rightarrow> int) ptr \<Rightarrow> block ptr \<Rightarrow> (scl_error_t \<times> block ptr) ub" where
  "scl_slist_search h lst key cmp out =
     (case (lst, key, cmp, out) of
        (Some l, Some k, Some c, Some o') \<Rightarrow> slist_search_loop c k (sl_element_size l) o' h (sl_head l)
      | _ \<Rightarrow> Some (SCL_ERR_NULL_PTR, out))"

section \<open>Invariant and contents\<close>

definition slist_rep :: "scl_slist_t \<Rightarrow> slist_mem \<Rightarrow> size_t list \<Rightarrow> bool" where
  "slist_rep l h xs \<longleftrightarrow> path (links sn_next h) (sl_head l) xs 0 \<and> sl_tail l = (if xs = [] then 0 else last xs) \<and>
     unat (sl_count l) = length xs \<and> sl_element_size l \<noteq> 0 \<and>
     (\<forall>v \<in> set (along sn_data h xs). length v = unat (sl_element_size l))"

definition slist_inv :: "scl_slist_t \<Rightarrow> slist_mem \<Rightarrow> bool" where
  "slist_inv l h \<longleftrightarrow> (\<exists>xs. slist_rep l h xs)"

text \<open>The nodes of a list, found by following it; the count is enough fuel.\<close>

fun slist_nodes :: "nat \<Rightarrow> slist_mem \<Rightarrow> size_t \<Rightarrow> size_t list" where
  "slist_nodes 0 h p = []"
| "slist_nodes (Suc k) h p = (case h p of None \<Rightarrow> [] | Some n \<Rightarrow> p # slist_nodes k h (sn_next n))"

definition slist_list :: "scl_slist_t \<Rightarrow> slist_mem \<Rightarrow> block list" where
  "slist_list l h = along sn_data h (slist_nodes (unat (sl_count l)) h (sl_head l))"

lemma slist_nodes_path: "path (links sn_next h) p xs 0 \<Longrightarrow> slist_nodes (length xs) h p = xs"
  by (induction xs arbitrary: p) (auto simp: links_Some)

lemma slist_rep_list: "slist_rep l h xs \<Longrightarrow> slist_list l h = along sn_data h xs"
  by (simp add: slist_rep_def slist_list_def slist_nodes_path)

lemma slist_init_ok:
  "scl_slist_init (Some l0) es = (SCL_OK, Some l) \<Longrightarrow> slist_rep l h [] \<and> sl_element_size l = es"
  by (auto simp: scl_slist_init_def slist_rep_def split: if_splits)

text \<open>A node of the list.\<close>

lemma slist_node:
  assumes "slist_rep l h (us @ x # vs)"
  obtains n where "h x = Some n" and "x \<noteq> 0" and "length (sn_data n) = unat (sl_element_size l)"
    and "sn_next n = (if vs = [] then 0 else hd vs)" and "path (links sn_next h) (sn_next n) vs 0"
    and "path (links sn_next h) (sl_head l) us x" and "x \<notin> set us" and "x \<notin> set vs"
proof -
  have p: "path (links sn_next h) (sl_head l) (us @ x # vs) 0" using assms by (simp add: slist_rep_def)
  from p obtain y where y: "links sn_next h x = Some y" "path (links sn_next h) y vs 0" "path (links sn_next h) (sl_head l) us x"
    "x \<notin> set us" "x \<notin> set vs" "x \<noteq> 0" "y = (if vs = [] then 0 else hd vs)" by (rule path_unlink)
  then obtain n where n: "h x = Some n" "sn_next n = y" by (auto simp: links_Some)
  then have "length (sn_data n) = unat (sl_element_size l)" using assms by (simp add: slist_rep_def)
  then show thesis using n y by (intro that) auto
qed

lemma slist_head: "slist_rep l h xs \<Longrightarrow> sl_head l = (if xs = [] then 0 else hd xs)"
  using path_start [of "links sn_next h" "sl_head l" xs 0] by (simp add: slist_rep_def)

lemma slist_tail: "slist_rep l h xs \<Longrightarrow> sl_tail l = (if xs = [] then 0 else last xs)"
  by (simp add: slist_rep_def)

lemma slist_end_live:
  assumes "slist_rep l h xs" and "xs \<noteq> []"
  shows "last xs \<noteq> 0" and "\<exists>n. h (last xs) = Some n \<and> sn_next n = 0 \<and> length (sn_data n) = unat (sl_element_size l)"
    and "hd xs \<noteq> 0"
proof -
  obtain ys x where xs: "xs = ys @ [x]" using assms(2) by (cases xs rule: rev_cases) auto
  obtain n where "h x = Some n" "x \<noteq> 0" "length (sn_data n) = unat (sl_element_size l)" "sn_next n = 0"
    using slist_node [of l h ys x "[]"] assms(1) xs by auto
  then show "last xs \<noteq> 0" "\<exists>n. h (last xs) = Some n \<and> sn_next n = 0 \<and> length (sn_data n) = unat (sl_element_size l)"
    using xs by auto
  show "hd xs \<noteq> 0" using path_not_null [of "links sn_next h" "sl_head l" xs 0] assms by (cases xs) (auto simp: slist_rep_def)
qed

section \<open>Adding\<close>

lemma slist_create:
  assumes "node_place place" and "unat es \<le> length e"
  shows "\<exists>err p. scl_slist_create_node place h e es
      = Some (err, p, if err = SCL_OK then h(p := Some \<lparr>sn_next = 0, sn_data = take (unat es) e\<rparr>) else h) \<and>
    (if err = SCL_OK then p \<noteq> 0 \<and> h p = None else alloc_failed err)"
  using assms node_place.fresh_place [OF assms(1), of h]
  by (auto simp: scl_slist_create_node_def mem_read_def alloc_failed_def split: option.split)

lemma slist_push_front_spec:
  assumes pl: "node_place place" and rep: "slist_rep l h xs" and e: "unat (sl_element_size l) \<le> length e"
  shows "\<exists>err l' h' ys. scl_slist_push_front place h (Some l) (Some e) = Some (err, Some l', h') \<and> slist_rep l' h' ys \<and>
    sl_element_size l' = sl_element_size l \<and> frame h (set xs) h' \<and>
    (if err = SCL_OK then along sn_data h' ys = take (unat (sl_element_size l)) e # along sn_data h xs
     else alloc_failed err \<and> l' = l \<and> h' = h \<and> ys = xs)"
proof -
  obtain err p where c: "scl_slist_create_node place h e (sl_element_size l) = Some (err, p, if err = SCL_OK
      then h(p := Some \<lparr>sn_next = 0, sn_data = take (unat (sl_element_size l)) e\<rparr>) else h)"
    "if err = SCL_OK then p \<noteq> 0 \<and> h p = None else alloc_failed err" using slist_create [OF pl e] by blast
  show ?thesis
  proof (cases "err = SCL_OK")
    case False
    then show ?thesis using c rep by (auto simp: scl_slist_push_front_def)
  next
    case True
    then have p: "p \<noteq> 0" "h p = None" using c(2) by auto
    let ?n = "\<lparr>sn_next = sl_head l, sn_data = take (unat (sl_element_size l)) e\<rparr>"
    let ?l = "l\<lparr>sl_head := p, sl_tail := if sl_tail l = 0 then p else sl_tail l, sl_count := sl_count l + 1\<rparr>"
    have xs: "path (links sn_next h) (sl_head l) xs 0" using rep by (simp add: slist_rep_def)
    have new: "p \<notin> set xs" using fresh_not_in_path [OF xs p(2)] .
    have path: "path (links sn_next (h(p := Some ?n))) p (p # xs) 0" using p new xs by simp
    have "slist_rep ?l (h(p := Some ?n)) (p # xs)"
      using rep path new e count_room [OF path] slist_end_live(1) [OF rep] by (auto simp: slist_rep_def)
    moreover have "scl_slist_push_front place h (Some l) (Some e) = Some (SCL_OK, Some ?l, h(p := Some ?n))"
      using c(1) p True by (simp add: scl_slist_push_front_def slist_set_next_def deref_def assign_def)
    ultimately show ?thesis using new p
      by (intro exI [of _ SCL_OK] exI [of _ ?l] exI [of _ "h(p := Some ?n)"] exI [of _ "p # xs"]) (auto intro: frame_upd)
  qed
qed

lemma slist_push_back_spec:
  assumes pl: "node_place place" and rep: "slist_rep l h xs" and e: "unat (sl_element_size l) \<le> length e"
  shows "\<exists>err l' h' ys. scl_slist_push_back place h (Some l) (Some e) = Some (err, Some l', h') \<and> slist_rep l' h' ys \<and>
    sl_element_size l' = sl_element_size l \<and> frame h (set xs) h' \<and>
    (if err = SCL_OK then along sn_data h' ys = along sn_data h xs @ [take (unat (sl_element_size l)) e]
     else alloc_failed err \<and> l' = l \<and> h' = h \<and> ys = xs)"
proof -
  obtain err p where c: "scl_slist_create_node place h e (sl_element_size l) = Some (err, p, if err = SCL_OK
      then h(p := Some \<lparr>sn_next = 0, sn_data = take (unat (sl_element_size l)) e\<rparr>) else h)"
    "if err = SCL_OK then p \<noteq> 0 \<and> h p = None else alloc_failed err" using slist_create [OF pl e] by blast
  show ?thesis
  proof (cases "err = SCL_OK")
    case False
    then show ?thesis using c rep by (auto simp: scl_slist_push_back_def)
  next
    case True
    then have p: "p \<noteq> 0" "h p = None" using c(2) by auto
    let ?n = "\<lparr>sn_next = 0, sn_data = take (unat (sl_element_size l)) e\<rparr>"
    have path: "path (links sn_next h) (sl_head l) xs 0" using rep by (simp add: slist_rep_def)
    have new: "p \<notin> set xs" using fresh_not_in_path [OF path p(2)] .
    show ?thesis
    proof (cases xs rule: rev_cases)
      case Nil
      let ?l = "l\<lparr>sl_head := p, sl_tail := p, sl_count := sl_count l + 1\<rparr>"
      have "slist_rep ?l (h(p := Some ?n)) [p]"
        using rep p e Nil by (auto simp: slist_rep_def unat_eq_0_iff)
      moreover have "scl_slist_push_back place h (Some l) (Some e) = Some (SCL_OK, Some ?l, h(p := Some ?n))"
        using c(1) True rep Nil by (simp add: scl_slist_push_back_def slist_rep_def)
      ultimately show ?thesis using Nil p
        by (intro exI [of _ SCL_OK] exI [of _ ?l] exI [of _ "h(p := Some ?n)"] exI [of _ "[p]"]) (auto intro: frame_upd)
    next
      case (snoc ys x)
      obtain m where m: "h x = Some m" "x \<noteq> 0" "length (sn_data m) = unat (sl_element_size l)" "sn_next m = 0"
        "path (links sn_next h) (sl_head l) ys x" "x \<notin> set ys" using slist_node [of l h ys x "[]"] rep snoc by auto
      let ?l = "l\<lparr>sl_tail := p, sl_count := sl_count l + 1\<rparr>"
      let ?h = "h(p := Some ?n, x := Some (m\<lparr>sn_next := p\<rparr>))"
      have px: "x \<noteq> p" using m(1) p(2) by auto
      have path': "path (links sn_next ?h) (sl_head l) (xs @ [p]) 0"
        using m p px new snoc by (auto simp: path_append)
      have "unat (sl_count l + 1) = Suc (length xs)"
        using path_length [OF path'] rep by (subst unat_add_bounded) (simp_all add: slist_rep_def)
      then have "slist_rep ?l ?h (xs @ [p])"
        using rep path' new e m px snoc by (auto simp: slist_rep_def)
      moreover have "scl_slist_push_back place h (Some l) (Some e) = Some (SCL_OK, Some ?l, ?h)"
        using c(1) True slist_tail [OF rep] snoc m px
        by (simp add: scl_slist_push_back_def slist_set_next_def deref_def assign_def)
      moreover have "along sn_data ?h (xs @ [p]) = along sn_data h xs @ [take (unat (sl_element_size l)) e]"
        using snoc new m px by simp
      ultimately show ?thesis using p snoc
        by (intro exI [of _ SCL_OK] exI [of _ ?l] exI [of _ ?h] exI [of _ "xs @ [p]"]) (auto intro!: frame_upds frame_upd)
    qed
  qed
qed

section \<open>Reading and removing\<close>

lemma slist_pop_front_spec:
  assumes rep: "slist_rep l h (x # xs)" and o: "unat (sl_element_size l) \<le> length out"
  shows "\<exists>l' h'. scl_slist_pop_front h (Some l) (Some out)
      = Some (SCL_OK, Some l', h', Some (hd (along sn_data h (x # xs)) @ drop (unat (sl_element_size l)) out)) \<and>
    slist_rep l' h' xs \<and> sl_element_size l' = sl_element_size l \<and> h' = h(x := None) \<and> along sn_data h' xs = along sn_data h xs"
proof -
  obtain n where n: "h x = Some n" "x \<noteq> 0" "length (sn_data n) = unat (sl_element_size l)"
    "sn_next n = (if xs = [] then 0 else hd xs)" "path (links sn_next h) (sn_next n) xs 0" "x \<notin> set xs"
    using slist_node [of l h "[]" x xs] rep by auto
  have hd: "sl_head l = x" using slist_head [OF rep] by simp
  let ?l = "l\<lparr>sl_head := sn_next n, sl_tail := if sn_next n = 0 then 0 else sl_tail l, sl_count := sl_count l - 1\<rparr>"
  have c: "sl_count l \<noteq> 0" using rep by (auto simp: slist_rep_def)
  have nz: "sn_next n = 0 \<longleftrightarrow> xs = []" using path_not_null [OF n(5)] n(4) by (cases xs) auto
  have "slist_rep ?l (h(x := None)) xs"
    using rep n(5,6) nz unat_pred [OF c] by (auto simp: slist_rep_def)
  moreover have "scl_slist_pop_front h (Some l) (Some out)
      = Some (SCL_OK, Some ?l, h(x := None), Some (sn_data n @ drop (unat (sl_element_size l)) out))"
    using n(1-3) hd memcpy_all [OF n(3) o] by (simp add: scl_slist_pop_front_def Let_def)
  ultimately show ?thesis using n(1,6) by auto
qed

lemma slist_read_end_spec:
  assumes rep: "slist_rep l h xs" and o: "unat (sl_element_size l) \<le> length out"
  shows "scl_slist_front h (Some l) (Some out) = Some (if xs = [] then (SCL_ERR_EMPTY, Some out)
      else (SCL_OK, Some (hd (along sn_data h xs) @ drop (unat (sl_element_size l)) out)))"
    and "scl_slist_back h (Some l) (Some out) = Some (if xs = [] then (SCL_ERR_EMPTY, Some out)
      else (SCL_OK, Some (last (along sn_data h xs) @ drop (unat (sl_element_size l)) out)))"
proof -
  show "scl_slist_front h (Some l) (Some out) = Some (if xs = [] then (SCL_ERR_EMPTY, Some out)
      else (SCL_OK, Some (hd (along sn_data h xs) @ drop (unat (sl_element_size l)) out)))"
  proof (cases xs)
    case (Cons x ys)
    obtain n where n: "h x = Some n" "x \<noteq> 0" "length (sn_data n) = unat (sl_element_size l)"
      using slist_node [of l h "[]" x ys] rep Cons by auto
    then show ?thesis using slist_head [OF rep] Cons memcpy_all [OF n(3) o] by (simp add: scl_slist_front_def slist_read_end_def)
  qed (use slist_head [OF rep] in \<open>simp add: scl_slist_front_def slist_read_end_def\<close>)
  show "scl_slist_back h (Some l) (Some out) = Some (if xs = [] then (SCL_ERR_EMPTY, Some out)
      else (SCL_OK, Some (last (along sn_data h xs) @ drop (unat (sl_element_size l)) out)))"
  proof (cases xs rule: rev_cases)
    case (snoc ys x)
    obtain n where n: "h x = Some n" "x \<noteq> 0" "length (sn_data n) = unat (sl_element_size l)"
      using slist_node [of l h ys x "[]"] rep snoc by auto
    then show ?thesis using slist_tail [OF rep] snoc memcpy_all [OF n(3) o] by (simp add: scl_slist_back_def slist_read_end_def)
  qed (use slist_tail [OF rep] in \<open>simp add: scl_slist_back_def slist_read_end_def\<close>)
qed

lemma slist_count_spec: "slist_rep l h xs \<Longrightarrow> unat (scl_slist_count (Some l)) = length xs \<and> (scl_slist_empty (Some l) \<longleftrightarrow> xs = [])"
  by (auto simp: slist_rep_def scl_slist_count_def scl_slist_empty_def unat_eq_0_iff)

lemma slist_search_spec:
  assumes "path (links sn_next h) p xs 0" and "\<forall>v \<in> set (along sn_data h xs). length v = unat es" and o: "unat es \<le> length out"
  shows "slist_search_loop cmp k es out h p = Some (case find (\<lambda>v. cmp v k = 0) (along sn_data h xs) of
      None \<Rightarrow> (SCL_ERR_NOT_FOUND, Some out) | Some v \<Rightarrow> (SCL_OK, Some (v @ drop (unat es) out)))"
  using assms(1,2)
proof (induction xs arbitrary: p)
  case Nil
  then show ?case by (subst slist_search_loop.simps) simp
next
  case (Cons x xs)
  then obtain n where n: "h x = Some n" "x \<noteq> 0" "p = x" "path (links sn_next h) (sn_next n) xs 0" by (auto simp: links_Some)
  then have "length (sn_data n) = unat es" using Cons.prems(2) by simp
  then show ?case using n Cons.IH [OF n(4)] Cons.prems(2) memcpy_all [OF _ o, of "sn_data n"]
    by (subst slist_search_loop.simps) simp
qed

lemma slist_remove_here:
  assumes rep: "slist_rep l h (us @ x # vs)" and eq: "cmp (sn_data (the (h x))) e = 0"
  shows "\<exists>l' h'. slist_remove_loop cmp e l h (if us = [] then 0 else last us) x = Some (SCL_OK, l', h') \<and>
    slist_rep l' h' (us @ vs) \<and> sl_element_size l' = sl_element_size l \<and>
    along sn_data h' (us @ vs) = along sn_data h us @ along sn_data h vs \<and> frame h (set (us @ x # vs)) h'"
proof -
  obtain n where n: "h x = Some n" "x \<noteq> 0" "length (sn_data n) = unat (sl_element_size l)"
    "sn_next n = (if vs = [] then 0 else hd vs)" "path (links sn_next h) (sn_next n) vs 0"
    "path (links sn_next h) (sl_head l) us x" "x \<notin> set us" "x \<notin> set vs" by (rule slist_node [OF rep])
  have d: "distinct (us @ x # vs)" using rep path_distinct unfolding slist_rep_def by blast
  have c: "sl_count l \<noteq> 0" using rep by (auto simp: slist_rep_def)
  have tl: "x = sl_tail l \<longleftrightarrow> vs = []"
    using slist_tail [OF rep] n(8) by (cases vs rule: rev_cases) auto
  show ?thesis
  proof (cases us rule: rev_cases)
    case Nil
    let ?l = "l\<lparr>sl_head := sn_next n, sl_tail := if x = sl_tail l then 0 else sl_tail l, sl_count := sl_count l - 1\<rparr>"
    have "slist_remove_loop cmp e l h 0 x = Some (SCL_OK, ?l, h(x := None))"
      using n(1,2) eq by (subst slist_remove_loop.simps) (simp add: Let_def)
    moreover have "slist_rep ?l (h(x := None)) vs"
      using rep n(5,8) tl unat_pred [OF c] Nil by (auto simp: slist_rep_def)
    ultimately show ?thesis using Nil n(8) by (auto intro: frame_upd)
  next
    case (snoc ws y)
    have "slist_rep l h (ws @ y # x # vs)" using rep snoc by simp
    then obtain m where m: "h y = Some m" "y \<noteq> 0" "length (sn_data m) = unat (sl_element_size l)" "sn_next m = x"
      "path (links sn_next h) (sl_head l) ws y" "y \<notin> set ws" using slist_node [of l h ws y "x # vs"] by auto
    have y: "y \<noteq> x" "y \<notin> set vs" using d snoc by auto
    let ?l = "l\<lparr>sl_tail := if x = sl_tail l then y else sl_tail l, sl_count := sl_count l - 1\<rparr>"
    let ?h = "h(y := Some (m\<lparr>sn_next := sn_next n\<rparr>), x := None)"
    have "slist_remove_loop cmp e l h y x = Some (SCL_OK, ?l, ?h)"
      using n(1,2) eq m(1,2) y by (subst slist_remove_loop.simps) (simp add: slist_set_next_def)
    moreover have "slist_rep ?l ?h (us @ vs)"
      using rep n(5-8) m y tl unat_pred [OF c] snoc d by (auto simp: slist_rep_def path_append)
    moreover have "along sn_data ?h (us @ vs) = along sn_data h us @ along sn_data h vs"
      using snoc n(7,8) m y by (simp add: fun_upd_twist)
    ultimately show ?thesis using snoc by (auto intro!: frame_upds frame_upd)
  qed
qed

lemma slist_remove_loop_spec:
  assumes "slist_rep l h (us @ vs)" and "\<forall>v \<in> set (along sn_data h us). cmp v e \<noteq> 0"
  shows "\<exists>err l' h' ys. slist_remove_loop cmp e l h (if us = [] then 0 else last us) (if vs = [] then 0 else hd vs) = Some (err, l', h') \<and>
    slist_rep l' h' ys \<and> sl_element_size l' = sl_element_size l \<and> frame h (set (us @ vs)) h' \<and>
    along sn_data h' ys = drop_first (\<lambda>v. cmp v e = 0) (along sn_data h (us @ vs)) \<and>
    err = (if \<exists>v \<in> set (along sn_data h vs). cmp v e = 0 then SCL_OK else SCL_ERR_NOT_FOUND)"
  using assms
proof (induction vs arbitrary: us)
  case Nil
  then have "drop_first (\<lambda>v. cmp v e = 0) (along sn_data h us) = along sn_data h us"
    using drop_first_skip [of "along sn_data h us" "\<lambda>v. cmp v e = 0" "[]"] by simp
  then show ?case using Nil by (subst slist_remove_loop.simps) auto
next
  case (Cons x vs)
  show ?case
  proof (cases "cmp (sn_data (the (h x))) e = 0")
    case True
    have "drop_first (\<lambda>v. cmp v e = 0) (along sn_data h (us @ x # vs)) = along sn_data h us @ along sn_data h vs"
      using Cons.prems(2) True by (simp add: drop_first_skip)
    moreover obtain l' h' where "slist_remove_loop cmp e l h (if us = [] then 0 else last us) x = Some (SCL_OK, l', h')"
      "slist_rep l' h' (us @ vs)" "sl_element_size l' = sl_element_size l"
      "along sn_data h' (us @ vs) = along sn_data h us @ along sn_data h vs" "frame h (set (us @ x # vs)) h'"
      using slist_remove_here [of l h us x vs cmp e, OF Cons.prems(1) True] by blast
    ultimately show ?thesis using True
      by (intro exI [of _ SCL_OK] exI [of _ l'] exI [of _ h'] exI [of _ "us @ vs"]) simp
  next
    case False
    obtain n where n: "h x = Some n" "x \<noteq> 0" "sn_next n = (if vs = [] then 0 else hd vs)"
      by (rule slist_node [OF Cons.prems(1)])
    have "slist_rep l h ((us @ [x]) @ vs)" "\<forall>v \<in> set (along sn_data h (us @ [x])). cmp v e \<noteq> 0"
      using Cons.prems False by simp_all
    note ih = Cons.IH [OF this]
    have "slist_remove_loop cmp e l h (if us = [] then 0 else last us) x
        = slist_remove_loop cmp e l h x (if vs = [] then 0 else hd vs)"
      using n False by (subst slist_remove_loop.simps) simp
    then show ?thesis using ih False by simp
  qed
qed

lemma slist_remove_spec:
  assumes rep: "slist_rep l h xs"
  shows "\<exists>err l' h' ys. scl_slist_remove h (Some l) (Some e) (Some cmp) = Some (err, Some l', h') \<and> slist_rep l' h' ys \<and>
    sl_element_size l' = sl_element_size l \<and> frame h (set xs) h' \<and>
    along sn_data h' ys = drop_first (\<lambda>v. cmp v e = 0) (along sn_data h xs) \<and>
    err = (if \<exists>v \<in> set (along sn_data h xs). cmp v e = 0 then SCL_OK else SCL_ERR_NOT_FOUND)"
  using slist_remove_loop_spec [of l h "[]" xs cmp e] rep slist_head [OF rep] by (fastforce simp: scl_slist_remove_def)

text \<open>Destroying a list frees its nodes and nothing else.\<close>

lemma slist_free_all_spec: "path (links sn_next h) p xs 0 \<Longrightarrow> slist_free_all h p = Some (\<lambda>x. if x \<in> set xs then None else h x)"
proof (induction xs arbitrary: p h)
  case Nil
  then show ?case by (subst slist_free_all.simps) simp
next
  case (Cons x xs)
  then obtain n where n: "h x = Some n" "x \<noteq> 0" "p = x" "path (links sn_next h) (sn_next n) xs 0" by (auto simp: links_Some)
  have "x \<notin> set xs" using path_distinct [OF Cons.prems] by simp
  then have "path (links sn_next (h(x := None))) (sn_next n) xs 0" using n(4) by simp
  note ih = Cons.IH [OF this]
  have step: "slist_free_all h p = slist_free_all (h(x := None)) (sn_next n)" using n by (subst slist_free_all.simps) simp
  have eq: "(\<lambda>y. if y \<in> set xs then None else (h(x := None)) y) = (\<lambda>y. if y \<in> set (x # xs) then None else h y)" by auto
  show ?case unfolding step ih eq ..
qed

lemma slist_destroy_spec:
  assumes "slist_rep l h xs"
  shows "\<exists>l'. scl_slist_destroy h (Some l) = Some (Some l', \<lambda>x. if x \<in> set xs then None else h x) \<and>
    slist_rep l' (\<lambda>x. if x \<in> set xs then None else h x) []"
  using assms slist_free_all_spec [of h "sl_head l" xs] by (simp add: scl_slist_destroy_def slist_rep_def)

section \<open>The list as a queue and as a stack\<close>

text \<open>The state of a session: the places at which its commands find memory, how many have been used, the list and
  the memory.\<close>

type_synonym slist_state = "(nat \<Rightarrow> slist_place) \<times> nat \<times> scl_slist_t \<times> slist_mem"

definition slist_put ::
    "(slist_place \<Rightarrow> slist_mem \<Rightarrow> scl_slist_t ptr \<Rightarrow> block ptr \<Rightarrow> (scl_error_t \<times> scl_slist_t ptr \<times> slist_mem) ub)
     \<Rightarrow> slist_state \<Rightarrow> block \<Rightarrow> (scl_error_t \<times> slist_state) ub" where
  "slist_put push s e = (case s of (pl, k, l, h) \<Rightarrow> do {
     (err, l, h) \<leftarrow> push (pl k) h (Some l) (Some e);
     l \<leftarrow> l;
     Some (err, pl, k + 1, l, h)
   })"

definition slist_take :: "slist_state \<Rightarrow> (scl_error_t \<times> slist_state \<times> block) ub" where
  "slist_take s = (case s of (pl, k, l, h) \<Rightarrow> do {
     (err, l, h, v) \<leftarrow> scl_slist_pop_front h (Some l) (Some (replicate (unat (sl_element_size l)) 0));
     l \<leftarrow> l;
     v \<leftarrow> v;
     Some (err, (pl, k, l, h), v)
   })"

definition slist_ok :: "slist_state \<Rightarrow> bool" where
  "slist_ok s = (case s of (pl, k, l, h) \<Rightarrow> (\<forall>i. node_place (pl i)) \<and> slist_inv l h)"

definition slist_width :: "slist_state \<Rightarrow> nat" where
  "slist_width s = (case s of (pl, k, l, h) \<Rightarrow> unat (sl_element_size l))"

definition slist_elems :: "slist_state \<Rightarrow> block list" where
  "slist_elems s = (case s of (pl, k, l, h) \<Rightarrow> slist_list l h)"

lemmas slist_state_simps = slist_ok_def slist_width_def slist_elems_def slist_inv_def

lemma slist_put_law:
  assumes "slist_ok s" and "slist_width s \<le> length e"
  shows "\<exists>err s'. slist_put scl_slist_push_back s e = Some (err, s') \<and> slist_ok s' \<and> slist_width s' = slist_width s \<and>
      err \<noteq> SCL_ERR_EMPTY \<and>
      slist_elems s' = (if err = SCL_OK then slist_elems s @ [take (slist_width s) e] else slist_elems s)"
    and "\<exists>err s'. slist_put scl_slist_push_front s e = Some (err, s') \<and> slist_ok s' \<and> slist_width s' = slist_width s \<and>
      err \<noteq> SCL_ERR_EMPTY \<and>
      slist_elems s' = (if err = SCL_OK then take (slist_width s) e # slist_elems s else slist_elems s)"
proof -
  obtain pl k l h where s: "s = (pl, k, l, h)" by (cases s)
  obtain xs where rep: "slist_rep l h xs" and pl: "\<forall>i. node_place (pl i)" using assms(1) s by (auto simp: slist_state_simps)
  have e: "unat (sl_element_size l) \<le> length e" using assms(2) s by (simp add: slist_state_simps)
  from slist_push_back_spec [OF pl [rule_format, of k] rep e] obtain err l' h' ys where
    "scl_slist_push_back (pl k) h (Some l) (Some e) = Some (err, Some l', h')" "slist_rep l' h' ys"
    "sl_element_size l' = sl_element_size l"
    "if err = SCL_OK then along sn_data h' ys = along sn_data h xs @ [take (unat (sl_element_size l)) e]
     else alloc_failed err \<and> l' = l \<and> h' = h \<and> ys = xs" by blast
  then show "\<exists>err s'. slist_put scl_slist_push_back s e = Some (err, s') \<and> slist_ok s' \<and> slist_width s' = slist_width s \<and>
      err \<noteq> SCL_ERR_EMPTY \<and>
      slist_elems s' = (if err = SCL_OK then slist_elems s @ [take (slist_width s) e] else slist_elems s)"
    using s rep pl slist_rep_list [of l' h' ys] slist_rep_list [OF rep]
    by (auto simp: slist_put_def slist_state_simps alloc_failed_def split: if_splits)
  from slist_push_front_spec [OF pl [rule_format, of k] rep e] obtain err l' h' ys where
    "scl_slist_push_front (pl k) h (Some l) (Some e) = Some (err, Some l', h')" "slist_rep l' h' ys"
    "sl_element_size l' = sl_element_size l"
    "if err = SCL_OK then along sn_data h' ys = take (unat (sl_element_size l)) e # along sn_data h xs
     else alloc_failed err \<and> l' = l \<and> h' = h \<and> ys = xs" by blast
  then show "\<exists>err s'. slist_put scl_slist_push_front s e = Some (err, s') \<and> slist_ok s' \<and> slist_width s' = slist_width s \<and>
      err \<noteq> SCL_ERR_EMPTY \<and>
      slist_elems s' = (if err = SCL_OK then take (slist_width s) e # slist_elems s else slist_elems s)"
    using s rep pl slist_rep_list [of l' h' ys] slist_rep_list [OF rep]
    by (auto simp: slist_put_def slist_state_simps alloc_failed_def split: if_splits)
qed

lemma slist_take_law:
  assumes "slist_ok s"
  shows "slist_elems s \<noteq> [] \<Longrightarrow> \<exists>s'. slist_take s = Some (SCL_OK, s', hd (slist_elems s)) \<and> slist_ok s' \<and>
      slist_width s' = slist_width s \<and> slist_elems s' = tl (slist_elems s)"
    and "slist_elems s = [] \<Longrightarrow> \<exists>v. slist_take s = Some (SCL_ERR_EMPTY, s, v)"
proof -
  obtain pl k l h where s: "s = (pl, k, l, h)" by (cases s)
  obtain xs where rep: "slist_rep l h xs" and pl: "\<forall>i. node_place (pl i)" using assms(1) s by (auto simp: slist_state_simps)
  note list = slist_rep_list [OF rep]
  show "\<exists>s'. slist_take s = Some (SCL_OK, s', hd (slist_elems s)) \<and> slist_ok s' \<and>
      slist_width s' = slist_width s \<and> slist_elems s' = tl (slist_elems s)" if ne: "slist_elems s \<noteq> []"
  proof -
    from ne list s obtain x ys where xs: "xs = x # ys" by (cases xs) (auto simp: slist_state_simps)
    from slist_pop_front_spec [of l h x ys "replicate (unat (sl_element_size l)) 0"] rep xs obtain l' h' where
      "scl_slist_pop_front h (Some l) (Some (replicate (unat (sl_element_size l)) 0))
        = Some (SCL_OK, Some l', h', Some (hd (along sn_data h xs)))" "slist_rep l' h' ys"
      "sl_element_size l' = sl_element_size l" "along sn_data h' ys = along sn_data h ys" by auto
    then show ?thesis using s pl list xs slist_rep_list [of l' h' ys] by (auto simp: slist_take_def slist_state_simps)
  qed
  show "\<exists>v. slist_take s = Some (SCL_ERR_EMPTY, s, v)" if "slist_elems s = []"
  proof -
    have "xs = []" using that list s by (cases xs) (auto simp: slist_state_simps)
    then show ?thesis using s slist_head [OF rep] by (simp add: slist_take_def scl_slist_pop_front_def)
  qed
qed

interpretation slist_queue: fifo_store slist_ok slist_width slist_elems "slist_put scl_slist_push_back" slist_take
  by unfold_locales (fact slist_put_law(1) slist_take_law)+

lemma slist_stack_laws:
  "slist_ok s \<Longrightarrow> slist_width s \<le> length e \<Longrightarrow>
    \<exists>err s'. slist_put scl_slist_push_front s e = Some (err, s') \<and> slist_ok s' \<and> slist_width s' = slist_width s \<and>
      err \<noteq> SCL_ERR_EMPTY \<and>
      rev (slist_elems s') = (if err = SCL_OK then rev (slist_elems s) @ [take (slist_width s) e] else rev (slist_elems s))"
  "slist_ok s \<Longrightarrow> rev (slist_elems s) \<noteq> [] \<Longrightarrow>
    \<exists>s'. slist_take s = Some (SCL_OK, s', last (rev (slist_elems s))) \<and> slist_ok s' \<and>
      slist_width s' = slist_width s \<and> rev (slist_elems s') = butlast (rev (slist_elems s))"
  "slist_ok s \<Longrightarrow> rev (slist_elems s) = [] \<Longrightarrow> \<exists>v. slist_take s = Some (SCL_ERR_EMPTY, s, v)"
  using slist_put_law(2) [of s e] slist_take_law [of s] by (fastforce simp: last_rev)+

interpretation slist_stack: lifo_store slist_ok slist_width "\<lambda>s. rev (slist_elems s)" "slist_put scl_slist_push_front" slist_take
  by unfold_locales (fact slist_stack_laws)+

end
