(* ===== verification/Scl_Dlist.thy ===== *)
theory Scl_Dlist
  imports Scl_Nodes
begin

text \<open>
  The doubly linked list of \<open>libs/structures/dlist/scl_dlist.c\<close>, with insertion and removal at both ends, at an index
  (reached from the nearer end) and by value.
\<close>

record scl_dlist_node_t =
  dn_prev :: size_t
  dn_next :: size_t
  dn_data :: block

record scl_dlist_t =
  dl_head :: size_t
  dl_tail :: size_t
  dl_element_size :: size_t
  dl_count :: size_t

type_synonym dlist_mem = "scl_dlist_node_t mem"
type_synonym dlist_place = "scl_dlist_node_t site"

section \<open>The operations\<close>

definition scl_dlist_init :: "scl_dlist_t ptr \<Rightarrow> size_t \<Rightarrow> scl_error_t \<times> scl_dlist_t ptr" where
  "scl_dlist_init lst element_size =
     (case lst of
        None \<Rightarrow> (SCL_ERR_NULL_PTR, lst)
      | Some _ \<Rightarrow>
          if element_size = 0 then (SCL_ERR_INVALID_ARG, lst)
          else (SCL_OK, Some \<lparr>dl_head = 0, dl_tail = 0, dl_element_size = element_size, dl_count = 0\<rparr>))"

partial_function (option) dlist_free_all :: "dlist_mem \<Rightarrow> size_t \<Rightarrow> dlist_mem ub" where
  [code]: "dlist_free_all h cur =
     (if cur \<noteq> 0 then do {
        n \<leftarrow> deref h cur;
        h \<leftarrow> node_free h cur;
        dlist_free_all h (dn_next n)
      } else Some h)"

definition scl_dlist_destroy :: "dlist_mem \<Rightarrow> scl_dlist_t ptr \<Rightarrow> (scl_dlist_t ptr \<times> dlist_mem) ub" where
  "scl_dlist_destroy h lst =
     (case lst of
        None \<Rightarrow> Some (lst, h)
      | Some l \<Rightarrow> do {
          h \<leftarrow> dlist_free_all h (dl_head l);
          Some (Some (l\<lparr>dl_head := 0, dl_tail := 0, dl_count := 0\<rparr>), h)
        })"

definition scl_dlist_create_node ::
    "dlist_place \<Rightarrow> dlist_mem \<Rightarrow> block \<Rightarrow> size_t \<Rightarrow> (scl_error_t \<times> size_t \<times> dlist_mem) ub" where
  "scl_dlist_create_node place h data element_size =
     (case scl_add_overflow 16 element_size of
        None \<Rightarrow> Some (SCL_ERR_SIZE_OVERFLOW, 0, h)
      | Some node_sz \<Rightarrow>
          (case place h node_sz of
             None \<Rightarrow> Some (SCL_ERR_OUT_OF_MEMORY, 0, h)
           | Some node \<Rightarrow> do {
               v \<leftarrow> mem_read data 0 (unat element_size);
               Some (SCL_OK, node, h(node := Some \<lparr>dn_prev = 0, dn_next = 0, dn_data = v\<rparr>))
             }))"

definition dlist_set_next :: "dlist_mem \<Rightarrow> size_t \<Rightarrow> size_t \<Rightarrow> dlist_mem ub" where
  "dlist_set_next h p q = do { n \<leftarrow> deref h p; assign h p (n\<lparr>dn_next := q\<rparr>) }"

definition dlist_set_prev :: "dlist_mem \<Rightarrow> size_t \<Rightarrow> size_t \<Rightarrow> dlist_mem ub" where
  "dlist_set_prev h p q = do { n \<leftarrow> deref h p; assign h p (n\<lparr>dn_prev := q\<rparr>) }"

definition scl_dlist_push_front ::
    "dlist_place \<Rightarrow> dlist_mem \<Rightarrow> scl_dlist_t ptr \<Rightarrow> block ptr \<Rightarrow> (scl_error_t \<times> scl_dlist_t ptr \<times> dlist_mem) ub" where
  "scl_dlist_push_front place h lst element =
     (case (lst, element) of
        (Some l, Some e) \<Rightarrow> do {
          (err, node, h) \<leftarrow> scl_dlist_create_node place h e (dl_element_size l);
          if err \<noteq> SCL_OK then Some (err, lst, h)
          else do {
            h \<leftarrow> dlist_set_next h node (dl_head l);
            (l, h) \<leftarrow> (if dl_head l \<noteq> 0 then do { h \<leftarrow> dlist_set_prev h (dl_head l) node; Some (l, h) }
                       else Some (l\<lparr>dl_tail := node\<rparr>, h));
            Some (SCL_OK, Some (l\<lparr>dl_head := node, dl_count := dl_count l + 1\<rparr>), h)
          }
        }
      | _ \<Rightarrow> Some (SCL_ERR_NULL_PTR, lst, h))"

definition scl_dlist_push_back ::
    "dlist_place \<Rightarrow> dlist_mem \<Rightarrow> scl_dlist_t ptr \<Rightarrow> block ptr \<Rightarrow> (scl_error_t \<times> scl_dlist_t ptr \<times> dlist_mem) ub" where
  "scl_dlist_push_back place h lst element =
     (case (lst, element) of
        (Some l, Some e) \<Rightarrow> do {
          (err, node, h) \<leftarrow> scl_dlist_create_node place h e (dl_element_size l);
          if err \<noteq> SCL_OK then Some (err, lst, h)
          else do {
            h \<leftarrow> dlist_set_prev h node (dl_tail l);
            (l, h) \<leftarrow> (if dl_tail l \<noteq> 0 then do { h \<leftarrow> dlist_set_next h (dl_tail l) node; Some (l, h) }
                       else Some (l\<lparr>dl_head := node\<rparr>, h));
            Some (SCL_OK, Some (l\<lparr>dl_tail := node, dl_count := dl_count l + 1\<rparr>), h)
          }
        }
      | _ \<Rightarrow> Some (SCL_ERR_NULL_PTR, lst, h))"

definition scl_dlist_pop_front ::
    "dlist_mem \<Rightarrow> scl_dlist_t ptr \<Rightarrow> block ptr \<Rightarrow> (scl_error_t \<times> scl_dlist_t ptr \<times> dlist_mem \<times> block ptr) ub" where
  "scl_dlist_pop_front h lst out =
     (case (lst, out) of
        (Some l, Some _) \<Rightarrow>
          if dl_head l = 0 then Some (SCL_ERR_EMPTY, lst, h, out)
          else do {
            let node = dl_head l;
            n \<leftarrow> deref h node;
            out \<leftarrow> scl_memcpy out 0 (Some (dn_data n)) 0 (unat (dl_element_size l));
            let l = l\<lparr>dl_head := dn_next n\<rparr>;
            (l, h) \<leftarrow> (if dl_head l \<noteq> 0 then do { h \<leftarrow> dlist_set_prev h (dl_head l) 0; Some (l, h) }
                       else Some (l\<lparr>dl_tail := 0\<rparr>, h));
            h \<leftarrow> node_free h node;
            Some (SCL_OK, Some (l\<lparr>dl_count := dl_count l - 1\<rparr>), h, out)
          }
      | _ \<Rightarrow> Some (SCL_ERR_NULL_PTR, lst, h, out))"

definition scl_dlist_pop_back ::
    "dlist_mem \<Rightarrow> scl_dlist_t ptr \<Rightarrow> block ptr \<Rightarrow> (scl_error_t \<times> scl_dlist_t ptr \<times> dlist_mem \<times> block ptr) ub" where
  "scl_dlist_pop_back h lst out =
     (case (lst, out) of
        (Some l, Some _) \<Rightarrow>
          if dl_tail l = 0 then Some (SCL_ERR_EMPTY, lst, h, out)
          else do {
            let node = dl_tail l;
            n \<leftarrow> deref h node;
            out \<leftarrow> scl_memcpy out 0 (Some (dn_data n)) 0 (unat (dl_element_size l));
            let l = l\<lparr>dl_tail := dn_prev n\<rparr>;
            (l, h) \<leftarrow> (if dl_tail l \<noteq> 0 then do { h \<leftarrow> dlist_set_next h (dl_tail l) 0; Some (l, h) }
                       else Some (l\<lparr>dl_head := 0\<rparr>, h));
            h \<leftarrow> node_free h node;
            Some (SCL_OK, Some (l\<lparr>dl_count := dl_count l - 1\<rparr>), h, out)
          }
      | _ \<Rightarrow> Some (SCL_ERR_NULL_PTR, lst, h, out))"

definition dlist_read_end ::
    "(scl_dlist_t \<Rightarrow> size_t) \<Rightarrow> dlist_mem \<Rightarrow> scl_dlist_t ptr \<Rightarrow> block ptr \<Rightarrow> (scl_error_t \<times> block ptr) ub" where
  "dlist_read_end which h lst out =
     (case (lst, out) of
        (Some l, Some _) \<Rightarrow>
          if which l = 0 then Some (SCL_ERR_EMPTY, out)
          else do {
            n \<leftarrow> deref h (which l);
            out \<leftarrow> scl_memcpy out 0 (Some (dn_data n)) 0 (unat (dl_element_size l));
            Some (SCL_OK, out)
          }
      | _ \<Rightarrow> Some (SCL_ERR_NULL_PTR, out))"

definition scl_dlist_front :: "dlist_mem \<Rightarrow> scl_dlist_t ptr \<Rightarrow> block ptr \<Rightarrow> (scl_error_t \<times> block ptr) ub" where
  "scl_dlist_front = dlist_read_end dl_head"

definition scl_dlist_back :: "dlist_mem \<Rightarrow> scl_dlist_t ptr \<Rightarrow> block ptr \<Rightarrow> (scl_error_t \<times> block ptr) ub" where
  "scl_dlist_back = dlist_read_end dl_tail"

text \<open>Following a link a number of times.\<close>

fun dlist_steps :: "(scl_dlist_node_t \<Rightarrow> size_t) \<Rightarrow> dlist_mem \<Rightarrow> nat \<Rightarrow> size_t \<Rightarrow> size_t ub" where
  "dlist_steps link h 0 cur = Some cur"
| "dlist_steps link h (Suc k) cur = do { n \<leftarrow> deref h cur; dlist_steps link h k (link n) }"

definition dlist_seek :: "dlist_mem \<Rightarrow> scl_dlist_t \<Rightarrow> size_t \<Rightarrow> size_t \<Rightarrow> size_t ub" where
  "dlist_seek h l index cnt =
     (if index \<le> cnt div 2 then dlist_steps dn_next h (unat index) (dl_head l)
      else dlist_steps dn_prev h (unat (cnt - 1) - unat index) (dl_tail l))"

definition scl_dlist_insert_at ::
    "dlist_place \<Rightarrow> dlist_mem \<Rightarrow> scl_dlist_t ptr \<Rightarrow> size_t \<Rightarrow> block ptr \<Rightarrow> (scl_error_t \<times> scl_dlist_t ptr \<times> dlist_mem) ub" where
  "scl_dlist_insert_at place h lst index element =
     (case (lst, element) of
        (Some l, Some e) \<Rightarrow>
          if dl_count l < index then Some (SCL_ERR_INVALID_INDEX, lst, h)
          else if index = 0 then scl_dlist_push_front place h lst element
          else if index = dl_count l then scl_dlist_push_back place h lst element
          else do {
            cur \<leftarrow> dlist_seek h l index (dl_count l);
            (err, node, h) \<leftarrow> scl_dlist_create_node place h e (dl_element_size l);
            if err \<noteq> SCL_OK then Some (err, lst, h)
            else do {
              c \<leftarrow> deref h cur;
              h \<leftarrow> dlist_set_prev h node (dn_prev c);
              h \<leftarrow> dlist_set_next h node cur;
              h \<leftarrow> dlist_set_next h (dn_prev c) node;
              h \<leftarrow> dlist_set_prev h cur node;
              Some (SCL_OK, Some (l\<lparr>dl_count := dl_count l + 1\<rparr>), h)
            }
          }
      | _ \<Rightarrow> Some (SCL_ERR_NULL_PTR, lst, h))"

definition scl_dlist_remove_at ::
    "dlist_mem \<Rightarrow> scl_dlist_t ptr \<Rightarrow> size_t \<Rightarrow> block ptr \<Rightarrow> (scl_error_t \<times> scl_dlist_t ptr \<times> dlist_mem \<times> block ptr) ub" where
  "scl_dlist_remove_at h lst index out =
     (case (lst, out) of
        (Some l, Some _) \<Rightarrow>
          if dl_count l \<le> index then Some (SCL_ERR_INVALID_INDEX, lst, h, out)
          else if index = 0 then scl_dlist_pop_front h lst out
          else if index = dl_count l - 1 then scl_dlist_pop_back h lst out
          else do {
            cur \<leftarrow> dlist_seek h l index (dl_count l);
            c \<leftarrow> deref h cur;
            out \<leftarrow> scl_memcpy out 0 (Some (dn_data c)) 0 (unat (dl_element_size l));
            h \<leftarrow> dlist_set_next h (dn_prev c) (dn_next c);
            h \<leftarrow> dlist_set_prev h (dn_next c) (dn_prev c);
            h \<leftarrow> node_free h cur;
            Some (SCL_OK, Some (l\<lparr>dl_count := dl_count l - 1\<rparr>), h, out)
          }
      | _ \<Rightarrow> Some (SCL_ERR_NULL_PTR, lst, h, out))"

partial_function (option) dlist_remove_loop ::
    "(block \<Rightarrow> block \<Rightarrow> int) \<Rightarrow> block \<Rightarrow> scl_dlist_t \<Rightarrow> dlist_mem \<Rightarrow> size_t \<Rightarrow> (scl_error_t \<times> scl_dlist_t \<times> dlist_mem) ub" where
  [code]: "dlist_remove_loop cmp element l h cur =
     (if cur \<noteq> 0 then do {
        n \<leftarrow> deref h cur;
        if cmp (dn_data n) element = 0 then do {
          (l, h) \<leftarrow> (if dn_prev n \<noteq> 0 then do { h \<leftarrow> dlist_set_next h (dn_prev n) (dn_next n); Some (l, h) }
                     else Some (l\<lparr>dl_head := dn_next n\<rparr>, h));
          (l, h) \<leftarrow> (if dn_next n \<noteq> 0 then do { h \<leftarrow> dlist_set_prev h (dn_next n) (dn_prev n); Some (l, h) }
                     else Some (l\<lparr>dl_tail := dn_prev n\<rparr>, h));
          h \<leftarrow> node_free h cur;
          Some (SCL_OK, l\<lparr>dl_count := dl_count l - 1\<rparr>, h)
        } else dlist_remove_loop cmp element l h (dn_next n)
      } else Some (SCL_ERR_NOT_FOUND, l, h))"

definition scl_dlist_remove ::
    "dlist_mem \<Rightarrow> scl_dlist_t ptr \<Rightarrow> block ptr \<Rightarrow> (block \<Rightarrow> block \<Rightarrow> int) ptr \<Rightarrow> (scl_error_t \<times> scl_dlist_t ptr \<times> dlist_mem) ub" where
  "scl_dlist_remove h lst element cmp =
     (case (lst, element, cmp) of
        (Some l, Some e, Some c) \<Rightarrow> do {
          (err, l, h) \<leftarrow> dlist_remove_loop c e l h (dl_head l);
          Some (err, Some l, h)
        }
      | _ \<Rightarrow> Some (SCL_ERR_NULL_PTR, lst, h))"

partial_function (option) dlist_search_loop ::
    "(block \<Rightarrow> block \<Rightarrow> int) \<Rightarrow> block \<Rightarrow> size_t \<Rightarrow> block \<Rightarrow> dlist_mem \<Rightarrow> size_t \<Rightarrow> (scl_error_t \<times> block ptr) ub" where
  [code]: "dlist_search_loop cmp key esz out h cur =
     (if cur \<noteq> 0 then do {
        n \<leftarrow> deref h cur;
        if cmp (dn_data n) key = 0 then do {
          out \<leftarrow> scl_memcpy (Some out) 0 (Some (dn_data n)) 0 (unat esz);
          Some (SCL_OK, out)
        } else dlist_search_loop cmp key esz out h (dn_next n)
      } else Some (SCL_ERR_NOT_FOUND, Some out))"

definition scl_dlist_search ::
    "dlist_mem \<Rightarrow> scl_dlist_t ptr \<Rightarrow> block ptr \<Rightarrow> (block \<Rightarrow> block \<Rightarrow> int) ptr \<Rightarrow> block ptr \<Rightarrow> (scl_error_t \<times> block ptr) ub" where
  "scl_dlist_search h lst key cmp out =
     (case (lst, key, cmp, out) of
        (Some l, Some k, Some c, Some o') \<Rightarrow> dlist_search_loop c k (dl_element_size l) o' h (dl_head l)
      | _ \<Rightarrow> Some (SCL_ERR_NULL_PTR, out))"

definition scl_dlist_count :: "scl_dlist_t ptr \<Rightarrow> size_t" where
  "scl_dlist_count lst = (case lst of Some l \<Rightarrow> dl_count l | None \<Rightarrow> 0)"

definition scl_dlist_empty :: "scl_dlist_t ptr \<Rightarrow> bool" where
  "scl_dlist_empty lst = (case lst of Some l \<Rightarrow> dl_count l = 0 | None \<Rightarrow> True)"

section \<open>Invariant and contents\<close>

definition dlist_rep :: "scl_dlist_t \<Rightarrow> dlist_mem \<Rightarrow> size_t list \<Rightarrow> bool" where
  "dlist_rep l h xs \<longleftrightarrow> dpath (links dn_next h) (links dn_prev h) (dl_head l) (dl_tail l) xs \<and>
     unat (dl_count l) = length xs \<and> dl_element_size l \<noteq> 0 \<and>
     (\<forall>v \<in> set (along dn_data h xs). length v = unat (dl_element_size l))"

definition dlist_inv :: "scl_dlist_t \<Rightarrow> dlist_mem \<Rightarrow> bool" where
  "dlist_inv l h \<longleftrightarrow> (\<exists>xs. dlist_rep l h xs)"

fun dlist_nodes :: "nat \<Rightarrow> dlist_mem \<Rightarrow> size_t \<Rightarrow> size_t list" where
  "dlist_nodes 0 h p = []"
| "dlist_nodes (Suc k) h p = (case h p of None \<Rightarrow> [] | Some n \<Rightarrow> p # dlist_nodes k h (dn_next n))"

definition dlist_list :: "scl_dlist_t \<Rightarrow> dlist_mem \<Rightarrow> block list" where
  "dlist_list l h = along dn_data h (dlist_nodes (unat (dl_count l)) h (dl_head l))"

lemma dlist_nodes_path: "path (links dn_next h) p xs 0 \<Longrightarrow> dlist_nodes (length xs) h p = xs"
  by (induction xs arbitrary: p) (auto simp: links_Some)

lemma dlist_rep_list: "dlist_rep l h xs \<Longrightarrow> dlist_list l h = along dn_data h xs"
  by (simp add: dlist_rep_def dlist_list_def dpath_def dlist_nodes_path)

lemma dlist_init_ok: "scl_dlist_init (Some l0) es = (SCL_OK, Some l) \<Longrightarrow> dlist_rep l h [] \<and> dl_element_size l = es"
  by (auto simp: scl_dlist_init_def dlist_rep_def dpath_def split: if_splits)

lemma dlist_ends: "dlist_rep l h xs \<Longrightarrow> dl_head l = first_of xs \<and> dl_tail l = last_of xs"
  using dpath_ends by (auto simp: dlist_rep_def)

lemma dlist_node:
  assumes "dlist_rep l h (us @ x # vs)"
  obtains n where "h x = Some n" and "x \<noteq> 0" and "length (dn_data n) = unat (dl_element_size l)"
    and "dn_next n = first_of vs" and "dn_prev n = last_of us" and "x \<notin> set us" and "x \<notin> set vs"
proof -
  have p: "dpath (links dn_next h) (links dn_prev h) (dl_head l) (dl_tail l) (us @ x # vs)" using assms by (simp add: dlist_rep_def)
  obtain n where n: "h x = Some n" "dn_next n = first_of vs" using dpath_at(1) [OF p] by (auto simp: links_Some)
  moreover have "dn_prev n = last_of us" using dpath_at(2) [OF p] n(1) by simp
  moreover have "length (dn_data n) = unat (dl_element_size l)" using assms n by (simp add: dlist_rep_def)
  ultimately show thesis using dpath_distinct [OF p] dpath_null [OF p] by (intro that) auto
qed

lemma dlist_count_spec: "dlist_rep l h xs \<Longrightarrow> unat (scl_dlist_count (Some l)) = length xs \<and> (scl_dlist_empty (Some l) \<longleftrightarrow> xs = [])"
  by (auto simp: dlist_rep_def scl_dlist_count_def scl_dlist_empty_def unat_eq_0_iff)

section \<open>Putting a node in\<close>

lemma dlist_create:
  assumes "node_place place" and "unat es \<le> length e"
  shows "\<exists>err p. scl_dlist_create_node place h e es
      = Some (err, p, if err = SCL_OK then h(p := Some \<lparr>dn_prev = 0, dn_next = 0, dn_data = take (unat es) e\<rparr>) else h) \<and>
    (if err = SCL_OK then p \<noteq> 0 \<and> h p = None else alloc_failed err)"
  using assms node_place.fresh_place [OF assms(1), of h]
  by (auto simp: scl_dlist_create_node_def mem_read_def alloc_failed_def split: option.split)

text \<open>Changing one link of a node, if there is a node.\<close>

definition set_next :: "dlist_mem \<Rightarrow> size_t \<Rightarrow> size_t \<Rightarrow> dlist_mem" where
  "set_next h p q = (if p = 0 then h else h(p := map_option (\<lambda>n. n\<lparr>dn_next := q\<rparr>) (h p)))"

definition set_prev :: "dlist_mem \<Rightarrow> size_t \<Rightarrow> size_t \<Rightarrow> dlist_mem" where
  "set_prev h p q = (if p = 0 then h else h(p := map_option (\<lambda>n. n\<lparr>dn_prev := q\<rparr>) (h p)))"

lemma set_links [simp]:
  "links dn_prev (set_next h p q) = links dn_prev h" "links dn_data (set_next h p q) = links dn_data h"
  "links dn_next (set_prev h p q) = links dn_next h" "links dn_data (set_prev h p q) = links dn_data h"
  by (auto simp: links_def set_next_def set_prev_def fun_eq_iff option.map_comp o_def)

lemma set_next_links: "p \<noteq> 0 \<Longrightarrow> h p \<noteq> None \<Longrightarrow> links dn_next (set_next h p q) = (links dn_next h)(p := Some q)"
  by (auto simp: links_def set_next_def fun_eq_iff)

lemma set_prev_links: "p \<noteq> 0 \<Longrightarrow> h p \<noteq> None \<Longrightarrow> links dn_prev (set_prev h p q) = (links dn_prev h)(p := Some q)"
  by (auto simp: links_def set_prev_def fun_eq_iff)

lemma set_null [simp]: "set_next h 0 q = h" "set_prev h 0 q = h"
  by (simp_all add: set_next_def set_prev_def)

lemma set_none [simp]: "set_next h p q x = None \<longleftrightarrow> h x = None" "set_prev h p q x = None \<longleftrightarrow> h x = None"
  by (auto simp: set_next_def set_prev_def)

lemma set_frame: "frame h X h' \<Longrightarrow> p = 0 \<or> p \<in> X \<Longrightarrow> frame h X (set_next h' p q)"
    "frame h X h' \<Longrightarrow> p = 0 \<or> p \<in> X \<Longrightarrow> frame h X (set_prev h' p q)"
  by (auto simp: frame_def set_next_def set_prev_def)

lemma dlist_set_next_live [simp]: "h p \<noteq> None \<Longrightarrow> p \<noteq> 0 \<Longrightarrow> dlist_set_next h p q = Some (set_next h p q)"
  by (auto simp: dlist_set_next_def set_next_def deref_def assign_def)

lemma dlist_set_prev_live [simp]: "h p \<noteq> None \<Longrightarrow> p \<noteq> 0 \<Longrightarrow> dlist_set_prev h p q = Some (set_prev h p q)"
  by (auto simp: dlist_set_prev_def set_prev_def deref_def assign_def)

lemma dlist_live: "dlist_rep l h xs \<Longrightarrow> x \<in> set xs \<Longrightarrow> h x \<noteq> None \<and> x \<noteq> 0"
  by (metis dlist_node option.distinct(1) split_list)

lemma dlist_end_live:
  assumes "dlist_rep l h (us @ vs)"
  shows "us \<noteq> [] \<Longrightarrow> h (last us) \<noteq> None \<and> last us \<noteq> 0 \<and> last_of us = last us"
    and "vs \<noteq> [] \<Longrightarrow> h (hd vs) \<noteq> None \<and> hd vs \<noteq> 0 \<and> first_of vs = hd vs"
  using dlist_live [OF assms] by (auto simp: last_of_def first_of_def)

text \<open>The memory with a new node \<open>p\<close> between \<open>us\<close> and \<open>vs\<close>, and the list that has it.\<close>

definition dlist_linked :: "dlist_mem \<Rightarrow> size_t list \<Rightarrow> size_t \<Rightarrow> block \<Rightarrow> size_t list \<Rightarrow> dlist_mem" where
  "dlist_linked h us p v vs = set_prev (set_next
     (h(p := Some \<lparr>dn_prev = last_of us, dn_next = first_of vs, dn_data = v\<rparr>)) (last_of us) p) (first_of vs) p"

definition dlist_with :: "scl_dlist_t \<Rightarrow> size_t list \<Rightarrow> size_t \<Rightarrow> size_t list \<Rightarrow> scl_dlist_t" where
  "dlist_with l us p vs =
     (let l = (if us = [] then l\<lparr>dl_head := p\<rparr> else l); l = (if vs = [] then l\<lparr>dl_tail := p\<rparr> else l)
      in l\<lparr>dl_count := dl_count l + 1\<rparr>)"

lemma dlist_with_simps [simp]:
  "dl_head (dlist_with l us p vs) = (if us = [] then p else dl_head l)"
  "dl_tail (dlist_with l us p vs) = (if vs = [] then p else dl_tail l)"
  "dl_count (dlist_with l us p vs) = dl_count l + 1" "dl_element_size (dlist_with l us p vs) = dl_element_size l"
  by (simp_all add: dlist_with_def Let_def)

lemma dlist_linked_rep:
  assumes rep: "dlist_rep l h (us @ vs)" and p: "p \<noteq> 0" "h p = None" and v: "length v = unat (dl_element_size l)"
  shows "dlist_rep (dlist_with l us p vs) (dlist_linked h us p v vs) (us @ p # vs)"
    and "along dn_data (dlist_linked h us p v vs) (us @ p # vs) = along dn_data h us @ v # along dn_data h vs"
    and "frame h (set (us @ vs)) (dlist_linked h us p v vs)"
proof -
  let ?h = "dlist_linked h us p v vs"
  have dp: "dpath (links dn_next h) (links dn_prev h) (dl_head l) (dl_tail l) (us @ vs)" using rep by (simp add: dlist_rep_def)
  have new: "p \<notin> set us" "p \<notin> set vs" using dlist_live [OF rep, of p] p(2) by auto
  note live = dlist_end_live [OF rep]
  have up: "us \<noteq> [] \<Longrightarrow> last us \<noteq> p" and vp: "vs \<noteq> [] \<Longrightarrow> hd vs \<noteq> p" using new by (metis last_in_set, metis hd_in_set)
  have ln: "links dn_next ?h = (if us = [] then links dn_next h else (links dn_next h)(last us := Some p))(p := Some (first_of vs))"
    using live up by (cases "us = []") (simp_all add: dlist_linked_def set_next_links fun_upd_twist)
  have lp: "links dn_prev ?h = (if vs = [] then links dn_prev h else (links dn_prev h)(hd vs := Some p))(p := Some (last_of us))"
    using live vp by (cases "vs = []") (simp_all add: dlist_linked_def set_prev_links fun_upd_twist)
  have ld: "links dn_data ?h = (links dn_data h)(p := Some v)" by (simp add: dlist_linked_def)
  have al: "along dn_data ?h xs = along dn_data h xs" if "set xs \<subseteq> set (us @ vs)" for xs
    using that new dlist_live [OF rep] unfolding ld [symmetric] by (intro along_links) (auto simp: ld)
  obtain n where n: "?h p = Some n" "dn_data n = v" using fun_cong [OF ld, of p] by (auto simp: links_Some)
  show a: "along dn_data ?h (us @ p # vs) = along dn_data h us @ v # along dn_data h vs" using al n by simp
  have path: "dpath (links dn_next ?h) (links dn_prev ?h) (if us = [] then p else dl_head l) (if vs = [] then p else dl_tail l) (us @ p # vs)"
    unfolding ln lp by (rule dpath_with [OF dp p(1) new])
  then have "length (us @ p # vs) < 2 ^ 64" using path_length by (auto simp only: dpath_def)
  then have "unat (dl_count l + 1) = Suc (length (us @ vs))"
    using rep by (subst unat_add_bounded) (simp_all add: dlist_rep_def)
  moreover have "\<forall>w \<in> set (along dn_data ?h (us @ p # vs)). length w = unat (dl_element_size l)"
    unfolding a using rep v by (auto simp: dlist_rep_def)
  ultimately show "dlist_rep (dlist_with l us p vs) ?h (us @ p # vs)"
    using rep path unfolding dlist_rep_def dlist_with_simps by simp
  have "last_of us = 0 \<or> last_of us \<in> set (us @ vs)" "first_of vs = 0 \<or> first_of vs \<in> set (us @ vs)"
    by (auto simp: last_of_def first_of_def)
  then show "frame h (set (us @ vs)) ?h" unfolding dlist_linked_def using p(2) by (intro set_frame frame_upd) auto
qed

lemma dlist_push_front_spec:
  assumes pl: "node_place place" and rep: "dlist_rep l h xs" and e: "unat (dl_element_size l) \<le> length e"
  shows "\<exists>err l' h' ys. scl_dlist_push_front place h (Some l) (Some e) = Some (err, Some l', h') \<and> dlist_rep l' h' ys \<and>
    dl_element_size l' = dl_element_size l \<and> frame h (set xs) h' \<and>
    (if err = SCL_OK then along dn_data h' ys = take (unat (dl_element_size l)) e # along dn_data h xs
     else alloc_failed err \<and> l' = l \<and> h' = h \<and> ys = xs)"
proof -
  let ?v = "take (unat (dl_element_size l)) e"
  obtain err p where c: "scl_dlist_create_node place h e (dl_element_size l)
      = Some (err, p, if err = SCL_OK then h(p := Some \<lparr>dn_prev = 0, dn_next = 0, dn_data = ?v\<rparr>) else h)"
    "if err = SCL_OK then p \<noteq> 0 \<and> h p = None else alloc_failed err" using dlist_create [OF pl e] by blast
  show ?thesis
  proof (cases "err = SCL_OK")
    case False
    then show ?thesis using c rep by (auto simp: scl_dlist_push_front_def)
  next
    case True
    then have p: "p \<noteq> 0" "h p = None" using c(2) by auto
    have rep': "dlist_rep l h ([] @ xs)" using rep by simp
    note new = dlist_linked_rep [OF rep' p, of ?v]
    note live = dlist_end_live(2) [OF rep'] and ends = dlist_ends [OF rep, THEN conjunct1]
    have "set_next (h(p := Some \<lparr>dn_prev = 0, dn_next = 0, dn_data = ?v\<rparr>)) p (first_of xs)
        = h(p := Some \<lparr>dn_prev = 0, dn_next = first_of xs, dn_data = ?v\<rparr>)" using p by (simp add: set_next_def)
    then have "scl_dlist_push_front place h (Some l) (Some e) = Some (SCL_OK, Some (dlist_with l [] p xs), dlist_linked h [] p ?v xs)"
      using c(1) True p live ends by (cases "xs = []") (simp_all add: scl_dlist_push_front_def dlist_with_def dlist_linked_def Let_def)
    moreover have "dl_element_size (dlist_with l [] p xs) = dl_element_size l" by simp
    ultimately show ?thesis using new e
      by (intro exI [of _ SCL_OK] exI [of _ "dlist_with l [] p xs"] exI [of _ "dlist_linked h [] p ?v xs"] exI [of _ "p # xs"]) auto
  qed
qed

lemma dlist_push_back_spec:
  assumes pl: "node_place place" and rep: "dlist_rep l h xs" and e: "unat (dl_element_size l) \<le> length e"
  shows "\<exists>err l' h' ys. scl_dlist_push_back place h (Some l) (Some e) = Some (err, Some l', h') \<and> dlist_rep l' h' ys \<and>
    dl_element_size l' = dl_element_size l \<and> frame h (set xs) h' \<and>
    (if err = SCL_OK then along dn_data h' ys = along dn_data h xs @ [take (unat (dl_element_size l)) e]
     else alloc_failed err \<and> l' = l \<and> h' = h \<and> ys = xs)"
proof -
  let ?v = "take (unat (dl_element_size l)) e"
  obtain err p where c: "scl_dlist_create_node place h e (dl_element_size l)
      = Some (err, p, if err = SCL_OK then h(p := Some \<lparr>dn_prev = 0, dn_next = 0, dn_data = ?v\<rparr>) else h)"
    "if err = SCL_OK then p \<noteq> 0 \<and> h p = None else alloc_failed err" using dlist_create [OF pl e] by blast
  show ?thesis
  proof (cases "err = SCL_OK")
    case False
    then show ?thesis using c rep by (auto simp: scl_dlist_push_back_def)
  next
    case True
    then have p: "p \<noteq> 0" "h p = None" using c(2) by auto
    have rep': "dlist_rep l h (xs @ [])" using rep by simp
    note new = dlist_linked_rep [OF rep' p, of ?v]
    note live = dlist_end_live(1) [OF rep'] and ends = dlist_ends [OF rep, THEN conjunct2]
    have "set_prev (h(p := Some \<lparr>dn_prev = 0, dn_next = 0, dn_data = ?v\<rparr>)) p (last_of xs)
        = h(p := Some \<lparr>dn_prev = last_of xs, dn_next = 0, dn_data = ?v\<rparr>)" using p by (simp add: set_prev_def)
    then have "scl_dlist_push_back place h (Some l) (Some e) = Some (SCL_OK, Some (dlist_with l xs p []), dlist_linked h xs p ?v [])"
      using c(1) True p live ends by (cases "xs = []") (simp_all add: scl_dlist_push_back_def dlist_with_def dlist_linked_def Let_def)
    moreover have "dl_element_size (dlist_with l xs p []) = dl_element_size l" by simp
    ultimately show ?thesis using new e
      by (intro exI [of _ SCL_OK] exI [of _ "dlist_with l xs p []"] exI [of _ "dlist_linked h xs p ?v []"] exI [of _ "xs @ [p]"]) auto
  qed
qed

text \<open>Either end leads to the node at an index.\<close>

lemma dlist_steps_path:
  "path (links f h) p (xs @ y # ys) 0 \<Longrightarrow> dlist_steps f h (length xs) p = Some y"
  by (induction xs arbitrary: p) (auto simp: links_Some)

lemma dlist_seek_spec:
  assumes rep: "dlist_rep l h (us @ x # vs)" and i: "unat i = length us"
  shows "dlist_seek h l i (dl_count l) = Some x"
proof (cases "i \<le> dl_count l div 2")
  case True
  then show ?thesis using dlist_steps_path [of dn_next h "dl_head l" us x vs] rep i
    by (simp add: dlist_seek_def dlist_rep_def dpath_def)
next
  case False
  have c: "unat (dl_count l) = Suc (length us + length vs)" using rep by (simp add: dlist_rep_def)
  then have "dl_count l \<noteq> 0" by auto
  then have "unat (dl_count l - 1) - unat i = length (rev vs)" using unat_pred [of "dl_count l"] c i by simp
  then show ?thesis using False dlist_steps_path [of dn_prev h "dl_tail l" "rev vs" x "rev us"] rep
    by (simp add: dlist_seek_def dlist_rep_def dpath_def)
qed

lemma dlist_insert_between:
  assumes pl: "node_place place" and rep: "dlist_rep l h (us @ x # vs)" and us: "us \<noteq> []"
    and e: "unat (dl_element_size l) \<le> length e" and i: "unat i = length us"
  shows "\<exists>err l' h' ys. scl_dlist_insert_at place h (Some l) i (Some e) = Some (err, Some l', h') \<and> dlist_rep l' h' ys \<and>
    dl_element_size l' = dl_element_size l \<and> frame h (set (us @ x # vs)) h' \<and>
    (if err = SCL_OK
     then along dn_data h' ys = along dn_data h us @ take (unat (dl_element_size l)) e # along dn_data h (x # vs)
     else alloc_failed err \<and> l' = l \<and> h' = h \<and> ys = us @ x # vs)"
proof -
  let ?v = "take (unat (dl_element_size l)) e"
  have cnt: "unat (dl_count l) = Suc (length us + length vs)" using rep by (simp add: dlist_rep_def)
  have idx: "\<not> dl_count l < i" "i \<noteq> 0" "i \<noteq> dl_count l" using i us cnt by (auto simp: word_less_unat)
  obtain err p where c: "scl_dlist_create_node place h e (dl_element_size l)
      = Some (err, p, if err = SCL_OK then h(p := Some \<lparr>dn_prev = 0, dn_next = 0, dn_data = ?v\<rparr>) else h)"
    "if err = SCL_OK then p \<noteq> 0 \<and> h p = None else alloc_failed err" using dlist_create [OF pl e] by blast
  show ?thesis
  proof (cases "err = SCL_OK")
    case False
    then show ?thesis using c rep idx dlist_seek_spec [OF rep i] by (auto simp: scl_dlist_insert_at_def)
  next
    case True
    then have p: "p \<noteq> 0" "h p = None" using c(2) by auto
    note new = dlist_linked_rep [OF rep p, of ?v]
    note live = dlist_end_live [OF rep]
    obtain n where n: "h x = Some n" "x \<noteq> 0" "dn_prev n = last_of us" by (rule dlist_node [OF rep])
    have px: "p \<noteq> x" using n(1) p(2) by auto
    have "set_next (set_prev (h(p := Some \<lparr>dn_prev = 0, dn_next = 0, dn_data = ?v\<rparr>)) p (last_of us)) p x
        = h(p := Some \<lparr>dn_prev = last_of us, dn_next = x, dn_data = ?v\<rparr>)" using p by (simp add: set_prev_def set_next_def)
    then have "scl_dlist_insert_at place h (Some l) i (Some e)
        = Some (SCL_OK, Some (dlist_with l us p (x # vs)), dlist_linked h us p ?v (x # vs))"
      using c(1) True p n px live(1) us idx dlist_seek_spec [OF rep i]
      by (simp add: scl_dlist_insert_at_def dlist_with_def dlist_linked_def deref_def Let_def)
    moreover have "dl_element_size (dlist_with l us p (x # vs)) = dl_element_size l" by simp
    ultimately show ?thesis using new e
      by (intro exI [of _ SCL_OK] exI [of _ "dlist_with l us p (x # vs)"] exI [of _ "dlist_linked h us p ?v (x # vs)"]
          exI [of _ "us @ p # x # vs"]) auto
  qed
qed

text \<open>Insertion at any index.\<close>

lemma dlist_insert_at_spec:
  assumes pl: "node_place place" and rep: "dlist_rep l h xs" and e: "unat (dl_element_size l) \<le> length e"
    and i: "i \<le> dl_count l"
  shows "\<exists>err l' h' ys. scl_dlist_insert_at place h (Some l) i (Some e) = Some (err, Some l', h') \<and> dlist_rep l' h' ys \<and>
    dl_element_size l' = dl_element_size l \<and> frame h (set xs) h' \<and>
    (if err = SCL_OK
     then along dn_data h' ys = take (unat i) (along dn_data h xs) @ take (unat (dl_element_size l)) e # drop (unat i) (along dn_data h xs)
     else alloc_failed err \<and> l' = l \<and> h' = h \<and> ys = xs)"
proof -
  have cnt: "unat (dl_count l) = length xs" using rep by (simp add: dlist_rep_def)
  consider "i = 0" | "i \<noteq> 0" "i = dl_count l" | "i \<noteq> 0" "i < dl_count l" using i by fastforce
  then show ?thesis
  proof cases
    case 1
    have t: "take (unat i) (along dn_data h xs) = []" "drop (unat i) (along dn_data h xs) = along dn_data h xs" using 1 by simp_all
    have "scl_dlist_insert_at place h (Some l) i (Some e) = scl_dlist_push_front place h (Some l) (Some e)"
      using 1 by (simp add: scl_dlist_insert_at_def)
    then show ?thesis unfolding t append_Nil using dlist_push_front_spec [OF pl rep e] by metis
  next
    case 2
    have t: "take (unat i) (along dn_data h xs) = along dn_data h xs" "drop (unat i) (along dn_data h xs) = []"
      using 2 cnt by simp_all
    have "scl_dlist_insert_at place h (Some l) i (Some e) = scl_dlist_push_back place h (Some l) (Some e)"
      using 2 by (simp add: scl_dlist_insert_at_def)
    then show ?thesis unfolding t using dlist_push_back_spec [OF pl rep e] by metis
  next
    case 3
    let ?k = "unat i"
    have k: "?k < length xs" "0 < ?k" using 3 cnt by (simp_all add: word_less_unat unat_pos_iff)
    obtain us x vs where s: "xs = us @ x # vs" "unat i = length us"
      using id_take_nth_drop [OF k(1)] k(1) by (metis length_take less_imp_le_nat min.absorb2 min.commute)
    have t: "take ?k (along dn_data h xs) = along dn_data h us" "drop ?k (along dn_data h xs) = along dn_data h (x # vs)"
      using s by simp_all
    have "us \<noteq> []" using k(2) s(2) by auto
    from dlist_insert_between [OF pl rep [unfolded s(1)] this e s(2)] show ?thesis unfolding t unfolding s(1) .
  qed
qed

section \<open>Taking a node out\<close>

definition dlist_unlinked :: "dlist_mem \<Rightarrow> size_t list \<Rightarrow> size_t \<Rightarrow> size_t list \<Rightarrow> dlist_mem" where
  "dlist_unlinked h us x vs = (set_prev (set_next h (last_of us) (first_of vs)) (first_of vs) (last_of us))(x := None)"

definition dlist_without :: "scl_dlist_t \<Rightarrow> size_t list \<Rightarrow> size_t list \<Rightarrow> scl_dlist_t" where
  "dlist_without l us vs =
     (let l = (if us = [] then l\<lparr>dl_head := first_of vs\<rparr> else l); l = (if vs = [] then l\<lparr>dl_tail := last_of us\<rparr> else l)
      in l\<lparr>dl_count := dl_count l - 1\<rparr>)"

lemma dlist_without_simps [simp]:
  "dl_head (dlist_without l us vs) = (if us = [] then first_of vs else dl_head l)"
  "dl_tail (dlist_without l us vs) = (if vs = [] then last_of us else dl_tail l)"
  "dl_count (dlist_without l us vs) = dl_count l - 1" "dl_element_size (dlist_without l us vs) = dl_element_size l"
  by (simp_all add: dlist_without_def Let_def)

lemma dlist_unlinked_rep:
  assumes rep: "dlist_rep l h (us @ x # vs)"
  shows "dlist_rep (dlist_without l us vs) (dlist_unlinked h us x vs) (us @ vs)"
    and "along dn_data (dlist_unlinked h us x vs) (us @ vs) = along dn_data h us @ along dn_data h vs"
    and "frame h (set (us @ x # vs)) (dlist_unlinked h us x vs)"
proof -
  let ?h = "dlist_unlinked h us x vs"
  have dp: "dpath (links dn_next h) (links dn_prev h) (dl_head l) (dl_tail l) (us @ x # vs)" using rep by (simp add: dlist_rep_def)
  have d: "x \<notin> set us" "x \<notin> set vs" using dpath_distinct [OF dp] by auto
  have rep': "dlist_rep l h ((us @ [x]) @ vs)" using rep by simp
  note live = dlist_end_live(1) [OF rep] dlist_end_live(2) [OF rep']
  have ln: "links dn_next ?h = (if us = [] then links dn_next h else (links dn_next h)(last us := Some (first_of vs)))(x := None)"
    using live by (cases "us = []") (simp_all add: dlist_unlinked_def set_next_links)
  have lp: "links dn_prev ?h = (if vs = [] then links dn_prev h else (links dn_prev h)(hd vs := Some (last_of us)))(x := None)"
    using live by (cases "vs = []") (simp_all add: dlist_unlinked_def set_prev_links)
  have ld: "links dn_data ?h = (links dn_data h)(x := None)" by (simp add: dlist_unlinked_def)
  have "along dn_data ?h ys = along dn_data h ys" if "set ys \<subseteq> set (us @ vs)" for ys
    using that d dlist_live [OF rep] by (intro along_links) (auto simp: ld)
  then show a: "along dn_data ?h (us @ vs) = along dn_data h us @ along dn_data h vs" by simp
  have path: "dpath (links dn_next ?h) (links dn_prev ?h) (if us = [] then first_of vs else dl_head l)
      (if vs = [] then last_of us else dl_tail l) (us @ vs)" unfolding ln lp by (rule dpath_without [OF dp])
  have "dl_count l \<noteq> 0" using rep by (auto simp: dlist_rep_def)
  then have "unat (dl_count l - 1) = length (us @ vs)" using unat_pred [of "dl_count l"] rep by (simp add: dlist_rep_def)
  moreover have "\<forall>w \<in> set (along dn_data ?h (us @ vs)). length w = unat (dl_element_size l)"
    unfolding a using rep by (auto simp: dlist_rep_def)
  ultimately show "dlist_rep (dlist_without l us vs) ?h (us @ vs)"
    using rep path unfolding dlist_rep_def dlist_without_simps by simp
  have "last_of us = 0 \<or> last_of us \<in> set (us @ x # vs)" "first_of vs = 0 \<or> first_of vs \<in> set (us @ x # vs)"
    by (auto simp: last_of_def first_of_def)
  then show "frame h (set (us @ x # vs)) ?h" unfolding dlist_unlinked_def by (intro frame_upds set_frame) auto
qed

lemma dlist_pop_front_spec:
  assumes rep: "dlist_rep l h (x # xs)" and o: "unat (dl_element_size l) \<le> length out"
  shows "\<exists>l' h'. scl_dlist_pop_front h (Some l) (Some out)
      = Some (SCL_OK, Some l', h', Some (hd (along dn_data h (x # xs)) @ drop (unat (dl_element_size l)) out)) \<and>
    dlist_rep l' h' xs \<and> dl_element_size l' = dl_element_size l \<and> along dn_data h' xs = along dn_data h xs \<and>
    frame h (set (x # xs)) h'"
proof -
  have rep': "dlist_rep l h ([] @ x # xs)" using rep by simp
  note new = dlist_unlinked_rep [OF rep']
  obtain n where n: "h x = Some n" "x \<noteq> 0" "length (dn_data n) = unat (dl_element_size l)" "dn_next n = first_of xs" "x \<notin> set xs"
    by (rule dlist_node [OF rep'])
  have live: "xs \<noteq> [] \<Longrightarrow> h (hd xs) \<noteq> None \<and> hd xs \<noteq> 0 \<and> first_of xs = hd xs"
    using dlist_end_live(2) [of l h "[x]" xs] rep by simp
  have hx: "dl_head l = x" using dlist_ends [OF rep] by simp
  have "hd xs \<noteq> x" if "xs \<noteq> []" using n(5) that by auto
  then have "scl_dlist_pop_front h (Some l) (Some out)
      = Some (SCL_OK, Some (dlist_without l [] xs), dlist_unlinked h [] x xs, Some (dn_data n @ drop (unat (dl_element_size l)) out))"
    using n live hx memcpy_all [OF n(3) o]
    by (cases "xs = []") (simp_all add: scl_dlist_pop_front_def Let_def dlist_without_def dlist_unlinked_def node_free_def set_prev_def)
  then show ?thesis using new n(1) by auto
qed

lemma dlist_pop_back_spec:
  assumes rep: "dlist_rep l h (xs @ [x])" and o: "unat (dl_element_size l) \<le> length out"
  shows "\<exists>l' h'. scl_dlist_pop_back h (Some l) (Some out)
      = Some (SCL_OK, Some l', h', Some (last (along dn_data h (xs @ [x])) @ drop (unat (dl_element_size l)) out)) \<and>
    dlist_rep l' h' xs \<and> dl_element_size l' = dl_element_size l \<and> along dn_data h' xs = along dn_data h xs \<and>
    frame h (set (xs @ [x])) h'"
proof -
  note new = dlist_unlinked_rep [OF rep]
  obtain n where n: "h x = Some n" "x \<noteq> 0" "length (dn_data n) = unat (dl_element_size l)" "dn_prev n = last_of xs" "x \<notin> set xs"
    by (rule dlist_node [OF rep])
  have live: "xs \<noteq> [] \<Longrightarrow> h (last xs) \<noteq> None \<and> last xs \<noteq> 0 \<and> last_of xs = last xs"
    using dlist_end_live(1) [of l h xs "[x]"] rep by simp
  have tx: "dl_tail l = x" using dlist_ends [OF rep] by simp
  have "last xs \<noteq> x" if "xs \<noteq> []" using n(5) that by auto
  then have "scl_dlist_pop_back h (Some l) (Some out)
      = Some (SCL_OK, Some (dlist_without l xs []), dlist_unlinked h xs x [], Some (dn_data n @ drop (unat (dl_element_size l)) out))"
    using n live tx memcpy_all [OF n(3) o]
    by (cases "xs = []") (simp_all add: scl_dlist_pop_back_def Let_def dlist_without_def dlist_unlinked_def node_free_def set_next_def)
  then show ?thesis using new n(1) by auto
qed

lemma dlist_remove_between:
  assumes rep: "dlist_rep l h (us @ x # vs)" and us: "us \<noteq> []" and vs: "vs \<noteq> []" and i: "unat i = length us"
    and o: "unat (dl_element_size l) \<le> length out"
  shows "\<exists>l' h'. scl_dlist_remove_at h (Some l) i (Some out)
      = Some (SCL_OK, Some l', h', Some (dn_data (the (h x)) @ drop (unat (dl_element_size l)) out)) \<and>
    dlist_rep l' h' (us @ vs) \<and> dl_element_size l' = dl_element_size l \<and>
    along dn_data h' (us @ vs) = along dn_data h us @ along dn_data h vs \<and> frame h (set (us @ x # vs)) h'"
proof -
  note new = dlist_unlinked_rep [OF rep]
  obtain n where n: "h x = Some n" "x \<noteq> 0" "length (dn_data n) = unat (dl_element_size l)" "dn_next n = first_of vs"
    "dn_prev n = last_of us" "x \<notin> set us" "x \<notin> set vs" by (rule dlist_node [OF rep])
  have live: "h (last us) \<noteq> None" "last us \<noteq> 0" "last_of us = last us" "h (hd vs) \<noteq> None" "hd vs \<noteq> 0" "first_of vs = hd vs"
    using dlist_end_live(1) [OF rep us] dlist_end_live(2) [of l h "us @ [x]" vs] rep vs by simp_all
  have ne: "last us \<noteq> x" "hd vs \<noteq> x" using n(6,7) us vs by auto
  have cnt: "unat (dl_count l) = Suc (length us + length vs)" using rep by (simp add: dlist_rep_def)
  then have c1: "unat (dl_count l - 1) = length us + length vs" using unat_pred [of "dl_count l"] by (cases "dl_count l = 0") auto
  have idx: "\<not> dl_count l \<le> i" "i \<noteq> 0" "i \<noteq> dl_count l - 1" using cnt c1 i us vs by (auto simp: word_le_unat)
  have "scl_dlist_remove_at h (Some l) i (Some out)
      = Some (SCL_OK, Some (dlist_without l us vs), dlist_unlinked h us x vs, Some (dn_data n @ drop (unat (dl_element_size l)) out))"
    using n live ne idx us vs memcpy_all [OF n(3) o] dlist_seek_spec [OF rep i]
    by (simp add: scl_dlist_remove_at_def dlist_without_def dlist_unlinked_def node_free_def set_next_def set_prev_def)
  then show ?thesis using new n(1) by auto
qed

lemma dlist_remove_at_spec:
  assumes rep: "dlist_rep l h xs" and i: "i < dl_count l" and o: "unat (dl_element_size l) \<le> length out"
  shows "\<exists>l' h' ys. scl_dlist_remove_at h (Some l) i (Some out)
      = Some (SCL_OK, Some l', h', Some (along dn_data h xs ! unat i @ drop (unat (dl_element_size l)) out)) \<and>
    dlist_rep l' h' ys \<and> dl_element_size l' = dl_element_size l \<and>
    along dn_data h' ys = take (unat i) (along dn_data h xs) @ drop (Suc (unat i)) (along dn_data h xs) \<and> frame h (set xs) h'"
proof -
  let ?k = "unat i"
  have cnt: "unat (dl_count l) = length xs" using rep by (simp add: dlist_rep_def)
  have k: "?k < length xs" using i cnt by (simp add: word_less_unat)
  then obtain us x vs where s: "xs = us @ x # vs" "unat i = length us"
    using id_take_nth_drop [OF k] k by (metis length_take less_imp_le_nat min.absorb2 min.commute)
  have "dl_count l \<noteq> 0" using i by auto
  then have c1: "unat (dl_count l - 1) = length xs - 1" using unat_pred [of "dl_count l"] cnt by simp
  have nb: "\<not> dl_count l \<le> i" using i by auto
  consider "i = 0" | "i \<noteq> 0" "i = dl_count l - 1" | "i \<noteq> 0" "i \<noteq> dl_count l - 1" by blast
  then show ?thesis
  proof cases
    case 1
    then obtain x ys where s1: "xs = x # ys" using k by (cases xs) auto
    have "scl_dlist_remove_at h (Some l) i (Some out) = scl_dlist_pop_front h (Some l) (Some out)"
      using 1 nb by (simp add: scl_dlist_remove_at_def)
    then show ?thesis using dlist_pop_front_spec [of l h x ys out] rep o s1 1 by auto
  next
    case 2
    then obtain x ys where s1: "xs = ys @ [x]" using k by (cases xs rule: rev_cases) auto
    have u: "?k = length ys" using 2 c1 s1 by simp
    have "scl_dlist_remove_at h (Some l) i (Some out) = scl_dlist_pop_back h (Some l) (Some out)"
      using 2 nb by (simp add: scl_dlist_remove_at_def)
    moreover have "along dn_data h xs ! ?k = last (along dn_data h (ys @ [x]))" "take ?k (along dn_data h xs) = along dn_data h ys"
      "drop (Suc ?k) (along dn_data h xs) = []" using u s1 by (simp_all add: nth_append)
    ultimately show ?thesis using dlist_pop_back_spec [of l h ys x out] rep o s1 by auto
  next
    case 3
    have "?k \<noteq> length xs - 1" using 3(2) c1 by (metis word_unat_eq_iff)
    then have "us \<noteq> []" "vs \<noteq> []" using 3(1) s by (auto simp: unat_eq_0_iff)
    from dlist_remove_between [OF rep [unfolded s(1)] this s(2) o] obtain l' h' where
      r: "scl_dlist_remove_at h (Some l) i (Some out)
        = Some (SCL_OK, Some l', h', Some (dn_data (the (h x)) @ drop (unat (dl_element_size l)) out))"
      "dlist_rep l' h' (us @ vs)" "dl_element_size l' = dl_element_size l"
      "along dn_data h' (us @ vs) = along dn_data h us @ along dn_data h vs" "frame h (set xs) h'" unfolding s(1) by blast
    have "along dn_data h xs ! ?k = dn_data (the (h x))" "take ?k (along dn_data h xs) @ drop (Suc ?k) (along dn_data h xs)
        = along dn_data h us @ along dn_data h vs" using s by (simp_all add: nth_append)
    then show ?thesis using r by metis
  qed
qed

lemma dlist_remove_here:
  assumes rep: "dlist_rep l h (us @ x # vs)" and eq: "cmp (dn_data (the (h x))) e = 0"
  shows "dlist_remove_loop cmp e l h x = Some (SCL_OK, dlist_without l us vs, dlist_unlinked h us x vs)"
proof -
  obtain n where n: "h x = Some n" "x \<noteq> 0" "dn_next n = first_of vs" "dn_prev n = last_of us" "x \<notin> set us" "x \<notin> set vs"
    by (rule dlist_node [OF rep])
  have live: "us \<noteq> [] \<Longrightarrow> h (last us) \<noteq> None \<and> last us \<noteq> 0 \<and> last_of us = last us"
    "vs \<noteq> [] \<Longrightarrow> h (hd vs) \<noteq> None \<and> hd vs \<noteq> 0 \<and> first_of vs = hd vs"
    using dlist_end_live(1) [OF rep] dlist_end_live(2) [of l h "us @ [x]" vs] rep by simp_all
  have ne: "us \<noteq> [] \<Longrightarrow> last us \<noteq> x" "vs \<noteq> [] \<Longrightarrow> hd vs \<noteq> x" using n(5,6) by auto
  show ?thesis
    using n live ne eq by (subst dlist_remove_loop.simps, cases "us = []"; cases "vs = []")
      (simp_all add: Let_def dlist_without_def dlist_unlinked_def node_free_def set_next_def set_prev_def)
qed

lemma dlist_remove_loop_spec:
  assumes "dlist_rep l h (us @ vs)" and "\<forall>v \<in> set (along dn_data h us). cmp v e \<noteq> 0"
  shows "\<exists>err l' h' ys. dlist_remove_loop cmp e l h (first_of vs) = Some (err, l', h') \<and>
    dlist_rep l' h' ys \<and> dl_element_size l' = dl_element_size l \<and> frame h (set (us @ vs)) h' \<and>
    along dn_data h' ys = drop_first (\<lambda>v. cmp v e = 0) (along dn_data h (us @ vs)) \<and>
    err = (if \<exists>v \<in> set (along dn_data h vs). cmp v e = 0 then SCL_OK else SCL_ERR_NOT_FOUND)"
  using assms
proof (induction vs arbitrary: us)
  case Nil
  then have "drop_first (\<lambda>v. cmp v e = 0) (along dn_data h us) = along dn_data h us"
    using drop_first_skip [of "along dn_data h us" "\<lambda>v. cmp v e = 0" "[]"] by simp
  then show ?case using Nil by (subst dlist_remove_loop.simps) auto
next
  case (Cons x vs)
  show ?case
  proof (cases "cmp (dn_data (the (h x))) e = 0")
    case True
    have "drop_first (\<lambda>v. cmp v e = 0) (along dn_data h (us @ x # vs)) = along dn_data h us @ along dn_data h vs"
      using Cons.prems(2) True by (simp add: drop_first_skip)
    then show ?thesis using dlist_remove_here [of l h us x vs cmp e, OF Cons.prems(1) True] dlist_unlinked_rep [OF Cons.prems(1)] True
      by (intro exI [of _ SCL_OK] exI [of _ "dlist_without l us vs"] exI [of _ "dlist_unlinked h us x vs"] exI [of _ "us @ vs"]) simp
  next
    case False
    obtain n where n: "h x = Some n" "x \<noteq> 0" "dn_next n = first_of vs" by (rule dlist_node [OF Cons.prems(1)])
    have "dlist_rep l h ((us @ [x]) @ vs)" "\<forall>v \<in> set (along dn_data h (us @ [x])). cmp v e \<noteq> 0"
      using Cons.prems False by simp_all
    note ih = Cons.IH [OF this]
    have "dlist_remove_loop cmp e l h x = dlist_remove_loop cmp e l h (first_of vs)"
      using n False by (subst dlist_remove_loop.simps) simp
    then show ?thesis using ih False by simp
  qed
qed

lemma dlist_remove_spec:
  assumes rep: "dlist_rep l h xs"
  shows "\<exists>err l' h' ys. scl_dlist_remove h (Some l) (Some e) (Some cmp) = Some (err, Some l', h') \<and> dlist_rep l' h' ys \<and>
    dl_element_size l' = dl_element_size l \<and> frame h (set xs) h' \<and>
    along dn_data h' ys = drop_first (\<lambda>v. cmp v e = 0) (along dn_data h xs) \<and>
    err = (if \<exists>v \<in> set (along dn_data h xs). cmp v e = 0 then SCL_OK else SCL_ERR_NOT_FOUND)"
proof -
  from dlist_remove_loop_spec [of l h "[]" xs cmp e] rep obtain err l' h' ys where
    r: "dlist_remove_loop cmp e l h (first_of xs) = Some (err, l', h')" "dlist_rep l' h' ys" "dl_element_size l' = dl_element_size l"
    "frame h (set xs) h'" "along dn_data h' ys = drop_first (\<lambda>v. cmp v e = 0) (along dn_data h xs)"
    "err = (if \<exists>v \<in> set (along dn_data h xs). cmp v e = 0 then SCL_OK else SCL_ERR_NOT_FOUND)" by auto
  have "scl_dlist_remove h (Some l) (Some e) (Some cmp) = Some (err, Some l', h')"
    using r(1) dlist_ends [OF rep] by (simp add: scl_dlist_remove_def)
  then show ?thesis using r(2-) by blast
qed

section \<open>Reading and freeing\<close>

lemma dlist_read_end_spec:
  assumes rep: "dlist_rep l h xs" and o: "unat (dl_element_size l) \<le> length out"
  shows "scl_dlist_front h (Some l) (Some out) = Some (if xs = [] then (SCL_ERR_EMPTY, Some out)
      else (SCL_OK, Some (hd (along dn_data h xs) @ drop (unat (dl_element_size l)) out)))"
    and "scl_dlist_back h (Some l) (Some out) = Some (if xs = [] then (SCL_ERR_EMPTY, Some out)
      else (SCL_OK, Some (last (along dn_data h xs) @ drop (unat (dl_element_size l)) out)))"
proof -
  show "scl_dlist_front h (Some l) (Some out) = Some (if xs = [] then (SCL_ERR_EMPTY, Some out)
      else (SCL_OK, Some (hd (along dn_data h xs) @ drop (unat (dl_element_size l)) out)))"
  proof (cases xs)
    case (Cons x ys)
    obtain n where n: "h x = Some n" "x \<noteq> 0" "length (dn_data n) = unat (dl_element_size l)"
      using dlist_node [of l h "[]" x ys] rep Cons by auto
    then show ?thesis using dlist_ends [OF rep] Cons memcpy_all [OF n(3) o] by (simp add: scl_dlist_front_def dlist_read_end_def)
  qed (use dlist_ends [OF rep] in \<open>simp add: scl_dlist_front_def dlist_read_end_def\<close>)
  show "scl_dlist_back h (Some l) (Some out) = Some (if xs = [] then (SCL_ERR_EMPTY, Some out)
      else (SCL_OK, Some (last (along dn_data h xs) @ drop (unat (dl_element_size l)) out)))"
  proof (cases xs rule: rev_cases)
    case (snoc ys x)
    obtain n where n: "h x = Some n" "x \<noteq> 0" "length (dn_data n) = unat (dl_element_size l)"
      using dlist_node [of l h ys x "[]"] rep snoc by auto
    then show ?thesis using dlist_ends [OF rep] snoc memcpy_all [OF n(3) o] by (simp add: scl_dlist_back_def dlist_read_end_def)
  qed (use dlist_ends [OF rep] in \<open>simp add: scl_dlist_back_def dlist_read_end_def\<close>)
qed

lemma dlist_search_spec:
  assumes "path (links dn_next h) p xs 0" and "\<forall>v \<in> set (along dn_data h xs). length v = unat es" and o: "unat es \<le> length out"
  shows "dlist_search_loop cmp k es out h p = Some (case find (\<lambda>v. cmp v k = 0) (along dn_data h xs) of
      None \<Rightarrow> (SCL_ERR_NOT_FOUND, Some out) | Some v \<Rightarrow> (SCL_OK, Some (v @ drop (unat es) out)))"
  using assms(1,2)
proof (induction xs arbitrary: p)
  case Nil
  then show ?case by (subst dlist_search_loop.simps) simp
next
  case (Cons x xs)
  then obtain n where n: "h x = Some n" "x \<noteq> 0" "p = x" "path (links dn_next h) (dn_next n) xs 0" by (auto simp: links_Some)
  then have "length (dn_data n) = unat es" using Cons.prems(2) by simp
  then show ?case using n Cons.IH [OF n(4)] Cons.prems(2) memcpy_all [OF _ o, of "dn_data n"]
    by (subst dlist_search_loop.simps) simp
qed

lemma dlist_free_all_spec: "path (links dn_next h) p xs 0 \<Longrightarrow> dlist_free_all h p = Some (\<lambda>x. if x \<in> set xs then None else h x)"
proof (induction xs arbitrary: p h)
  case Nil
  then show ?case by (subst dlist_free_all.simps) simp
next
  case (Cons x xs)
  then obtain n where n: "h x = Some n" "x \<noteq> 0" "p = x" "path (links dn_next h) (dn_next n) xs 0" by (auto simp: links_Some)
  have "x \<notin> set xs" using path_distinct [OF Cons.prems] by simp
  then have "path (links dn_next (h(x := None))) (dn_next n) xs 0" using n(4) by simp
  note ih = Cons.IH [OF this]
  have step: "dlist_free_all h p = dlist_free_all (h(x := None)) (dn_next n)" using n by (subst dlist_free_all.simps) simp
  have eq: "(\<lambda>y. if y \<in> set xs then None else (h(x := None)) y) = (\<lambda>y. if y \<in> set (x # xs) then None else h y)" by auto
  show ?case unfolding step ih eq ..
qed

lemma dlist_destroy_spec:
  assumes "dlist_rep l h xs"
  shows "\<exists>l'. scl_dlist_destroy h (Some l) = Some (Some l', \<lambda>x. if x \<in> set xs then None else h x) \<and>
    dlist_rep l' (\<lambda>x. if x \<in> set xs then None else h x) []"
  using assms dlist_free_all_spec [of h "dl_head l" xs] by (simp add: scl_dlist_destroy_def dlist_rep_def dpath_def)

end
