(* ===== verification/Scl_Dlist_Session.thy ===== *)
theory Scl_Dlist_Session
  imports Scl_Dlist
begin

text \<open>
  Command sequences on a doubly linked list, and the same commands on a list of elements. Each command finds
  memory at a place of its own, so an insertion may fail at any moment; it then changes nothing.
\<close>

datatype dlist_cmd = Add_front block | Add_back block | Add_at size_t block
  | Take_front | Take_back | Take_at size_t | Remove_value block

definition dlist_exec ::
    "(block \<Rightarrow> block \<Rightarrow> int) \<Rightarrow> dlist_place \<Rightarrow> scl_dlist_t \<times> dlist_mem \<Rightarrow> dlist_cmd
     \<Rightarrow> (scl_error_t \<times> block \<times> scl_dlist_t \<times> dlist_mem) ub" where
  "dlist_exec cmp pl s c = (case s of (l, h) \<Rightarrow>
     let out = Some (replicate (unat (dl_element_size l)) 0);
         put = (\<lambda>m. do { (err, l, h) \<leftarrow> m; l \<leftarrow> l; Some (err, [], l, h) });
         get = (\<lambda>m. do { (err, l, h, v) \<leftarrow> m; l \<leftarrow> l; v \<leftarrow> v; Some (err, v, l, h) })
     in (case c of
         Add_front e \<Rightarrow> put (scl_dlist_push_front pl h (Some l) (Some e))
       | Add_back e \<Rightarrow> put (scl_dlist_push_back pl h (Some l) (Some e))
       | Add_at i e \<Rightarrow> put (scl_dlist_insert_at pl h (Some l) i (Some e))
       | Take_front \<Rightarrow> get (scl_dlist_pop_front h (Some l) out)
       | Take_back \<Rightarrow> get (scl_dlist_pop_back h (Some l) out)
       | Take_at i \<Rightarrow> get (scl_dlist_remove_at h (Some l) i out)
       | Remove_value e \<Rightarrow> put (scl_dlist_remove h (Some l) (Some e) (Some cmp))))"

fun dlist_run ::
    "(block \<Rightarrow> block \<Rightarrow> int) \<Rightarrow> scl_dlist_t \<times> dlist_mem \<Rightarrow> (dlist_place \<times> dlist_cmd) list
     \<Rightarrow> ((scl_error_t \<times> block) list \<times> scl_dlist_t \<times> dlist_mem) ub" where
  "dlist_run cmp s [] = Some ([], s)"
| "dlist_run cmp s ((pl, c) # cs) = do {
     (err, v, s) \<leftarrow> dlist_exec cmp pl s c;
     (rs, s) \<leftarrow> dlist_run cmp s cs;
     Some ((err, v) # rs, s)
   }"

text \<open>The list after a command with that result, or \<open>None\<close> if a list could not have given it.\<close>

definition put_step :: "scl_error_t \<Rightarrow> 'v list \<Rightarrow> 'v list \<Rightarrow> 'v list option" where
  "put_step err xs ys = (if err = SCL_OK then Some ys else if alloc_failed err then Some xs else None)"

definition get_step :: "scl_error_t \<Rightarrow> 'v \<Rightarrow> 'v list \<Rightarrow> nat \<Rightarrow> 'v list option" where
  "get_step err v xs i = (if err = SCL_OK \<and> i < length xs \<and> v = xs ! i then Some (take i xs @ drop (Suc i) xs) else None)"

fun seq_step :: "(block \<Rightarrow> block \<Rightarrow> int) \<Rightarrow> nat \<Rightarrow> block list \<Rightarrow> dlist_cmd \<Rightarrow> scl_error_t \<times> block \<Rightarrow> block list option" where
  "seq_step cmp w xs (Add_front e) (err, v) = put_step err xs (take w e # xs)"
| "seq_step cmp w xs (Add_back e) (err, v) = put_step err xs (xs @ [take w e])"
| "seq_step cmp w xs (Add_at i e) (err, v) =
     (if length xs < unat i then (if err = SCL_ERR_INVALID_INDEX then Some xs else None)
      else put_step err xs (take (unat i) xs @ take w e # drop (unat i) xs))"
| "seq_step cmp w xs Take_front (err, v) =
     (if xs = [] then (if err = SCL_ERR_EMPTY then Some xs else None) else get_step err v xs 0)"
| "seq_step cmp w xs Take_back (err, v) =
     (if xs = [] then (if err = SCL_ERR_EMPTY then Some xs else None) else get_step err v xs (length xs - 1))"
| "seq_step cmp w xs (Take_at i) (err, v) =
     (if length xs \<le> unat i then (if err = SCL_ERR_INVALID_INDEX then Some xs else None) else get_step err v xs (unat i))"
| "seq_step cmp w xs (Remove_value e) (err, v) =
     (if err = (if \<exists>x \<in> set xs. cmp x e = 0 then SCL_OK else SCL_ERR_NOT_FOUND) then Some (drop_first (\<lambda>x. cmp x e = 0) xs) else None)"

fun seq_run :: "(block \<Rightarrow> block \<Rightarrow> int) \<Rightarrow> nat \<Rightarrow> block list \<Rightarrow> dlist_cmd list \<Rightarrow> (scl_error_t \<times> block) list \<Rightarrow> block list option" where
  "seq_run cmp w xs [] [] = Some xs"
| "seq_run cmp w xs (c # cs) (r # rs) = do { xs \<leftarrow> seq_step cmp w xs c r; seq_run cmp w xs cs rs }"
| "seq_run cmp w xs _ _ = None"

definition cmd_wide :: "nat \<Rightarrow> dlist_cmd \<Rightarrow> bool" where
  "cmd_wide w c = (case c of Add_front e \<Rightarrow> w \<le> length e | Add_back e \<Rightarrow> w \<le> length e | Add_at i e \<Rightarrow> w \<le> length e | _ \<Rightarrow> True)"

lemma dlist_exec_put:
  assumes "m = Some (err, Some l', h')" and "dlist_rep l' h' ys" and "dl_element_size l' = es"
    and "if err = SCL_OK then along dn_data h' ys = zs else alloc_failed err \<and> l' = l \<and> h' = h \<and> ys = xs"
    and "dlist_rep l h xs"
  shows "do { (err, l, h) \<leftarrow> m; l \<leftarrow> l; Some (err, [] :: block, l, h) } = Some (err, [], l', h')"
    and "dlist_list l' h' = along dn_data h' ys" and "put_step err (dlist_list l h) zs = Some (dlist_list l' h')"
proof -
  show "do { (err, l, h) \<leftarrow> m; l \<leftarrow> l; Some (err, [] :: block, l, h) } = Some (err, [], l', h')" using assms(1) by simp
  show "dlist_list l' h' = along dn_data h' ys" using assms(2) by (rule dlist_rep_list)
  then show "put_step err (dlist_list l h) zs = Some (dlist_list l' h')"
    using assms(4,5) dlist_rep_list [OF assms(5)] by (auto simp: put_step_def split: if_splits)
qed

lemma dlist_exec_spec:
  assumes pl: "node_place pl" and inv: "dlist_inv l h" and w: "cmd_wide (unat (dl_element_size l)) c"
  shows "\<exists>err v l' h'. dlist_exec cmp pl (l, h) c = Some (err, v, l', h') \<and> dlist_inv l' h' \<and>
    dl_element_size l' = dl_element_size l \<and>
    seq_step cmp (unat (dl_element_size l)) (dlist_list l h) c (err, v) = Some (dlist_list l' h')"
proof -
  obtain xs where rep: "dlist_rep l h xs" using inv by (auto simp: dlist_inv_def)
  note list = dlist_rep_list [OF rep]
  have cnt: "unat (dl_count l) = length xs" using rep by (simp add: dlist_rep_def)
  have ends: "xs = [] \<Longrightarrow> dl_head l = 0 \<and> dl_tail l = 0" using dlist_ends [OF rep] by simp
  let ?es = "unat (dl_element_size l)"
  show ?thesis
  proof (cases c)
    case (Add_front e)
    then have "?es \<le> length e" using w by (simp add: cmd_wide_def)
    from dlist_push_front_spec [OF pl rep this] obtain err l' h' ys where
      r: "scl_dlist_push_front pl h (Some l) (Some e) = Some (err, Some l', h')" "dlist_rep l' h' ys"
      "dl_element_size l' = dl_element_size l"
      "if err = SCL_OK then along dn_data h' ys = take ?es e # along dn_data h xs else alloc_failed err \<and> l' = l \<and> h' = h \<and> ys = xs"
      by blast
    from dlist_exec_put [OF r rep] r(2,3) Add_front list show ?thesis by (auto simp: dlist_exec_def dlist_inv_def Let_def)
  next
    case (Add_back e)
    then have "?es \<le> length e" using w by (simp add: cmd_wide_def)
    from dlist_push_back_spec [OF pl rep this] obtain err l' h' ys where
      r: "scl_dlist_push_back pl h (Some l) (Some e) = Some (err, Some l', h')" "dlist_rep l' h' ys"
      "dl_element_size l' = dl_element_size l"
      "if err = SCL_OK then along dn_data h' ys = along dn_data h xs @ [take ?es e] else alloc_failed err \<and> l' = l \<and> h' = h \<and> ys = xs"
      by blast
    from dlist_exec_put [OF r rep] r(2,3) Add_back list show ?thesis by (auto simp: dlist_exec_def dlist_inv_def Let_def)
  next
    case (Add_at i e)
    then have e: "?es \<le> length e" using w by (simp add: cmd_wide_def)
    show ?thesis
    proof (cases "i \<le> dl_count l")
      case True
      from dlist_insert_at_spec [OF pl rep e True] obtain err l' h' ys where
        r: "scl_dlist_insert_at pl h (Some l) i (Some e) = Some (err, Some l', h')" "dlist_rep l' h' ys"
        "dl_element_size l' = dl_element_size l"
        "if err = SCL_OK then along dn_data h' ys = take (unat i) (along dn_data h xs) @ take ?es e # drop (unat i) (along dn_data h xs)
         else alloc_failed err \<and> l' = l \<and> h' = h \<and> ys = xs" by blast
      have "\<not> length xs < unat i" using True cnt by (simp add: word_le_unat)
      with dlist_exec_put [OF r rep] r(2,3) Add_at list show ?thesis by (auto simp: dlist_exec_def dlist_inv_def Let_def)
    next
      case False
      then have "dl_count l < i" by simp
      moreover from this have "length xs < unat i" using cnt by (simp add: word_less_unat)
      ultimately show ?thesis using Add_at list rep
        by (auto simp: dlist_exec_def dlist_inv_def Let_def scl_dlist_insert_at_def)
    qed
  next
    case Take_front
    show ?thesis
    proof (cases xs)
      case Nil
      then show ?thesis using Take_front list ends inv by (simp add: dlist_exec_def scl_dlist_pop_front_def)
    next
      case (Cons x ys)
      from dlist_pop_front_spec [of l h x ys "replicate ?es 0"] rep Cons obtain l' h' where
        "scl_dlist_pop_front h (Some l) (Some (replicate ?es 0)) = Some (SCL_OK, Some l', h', Some (hd (along dn_data h xs)))"
        "dlist_rep l' h' ys" "dl_element_size l' = dl_element_size l" "along dn_data h' ys = along dn_data h ys" by auto
      then show ?thesis using Take_front list Cons dlist_rep_list [of l' h' ys]
        by (auto simp: dlist_exec_def dlist_inv_def get_step_def)
    qed
  next
    case Take_back
    show ?thesis
    proof (cases xs rule: rev_cases)
      case Nil
      then show ?thesis using Take_back list ends inv by (simp add: dlist_exec_def scl_dlist_pop_back_def)
    next
      case (snoc ys x)
      from dlist_pop_back_spec [of l h ys x "replicate ?es 0"] rep snoc obtain l' h' where
        "scl_dlist_pop_back h (Some l) (Some (replicate ?es 0)) = Some (SCL_OK, Some l', h', Some (last (along dn_data h xs)))"
        "dlist_rep l' h' ys" "dl_element_size l' = dl_element_size l" "along dn_data h' ys = along dn_data h ys" by auto
      then show ?thesis using Take_back list snoc dlist_rep_list [of l' h' ys]
        by (auto simp: dlist_exec_def dlist_inv_def get_step_def nth_append)
    qed
  next
    case (Take_at i)
    show ?thesis
    proof (cases "i < dl_count l")
      case True
      from dlist_remove_at_spec [OF rep True, of "replicate ?es 0"] obtain l' h' ys where
        "scl_dlist_remove_at h (Some l) i (Some (replicate ?es 0)) = Some (SCL_OK, Some l', h', Some (along dn_data h xs ! unat i))"
        "dlist_rep l' h' ys" "dl_element_size l' = dl_element_size l"
        "along dn_data h' ys = take (unat i) (along dn_data h xs) @ drop (Suc (unat i)) (along dn_data h xs)" by auto
      moreover have "unat i < length xs" using True cnt by (simp add: word_less_unat)
      ultimately show ?thesis using Take_at list dlist_rep_list [of l' h' ys]
        by (auto simp: dlist_exec_def dlist_inv_def get_step_def)
    next
      case False
      then have "dl_count l \<le> i" by simp
      moreover from this have "length xs \<le> unat i" using cnt by (simp add: word_le_unat)
      ultimately show ?thesis using Take_at list inv by (simp add: dlist_exec_def scl_dlist_remove_at_def)
    qed
  next
    case (Remove_value e)
    from dlist_remove_spec [OF rep, of e cmp] obtain err l' h' ys where
      "scl_dlist_remove h (Some l) (Some e) (Some cmp) = Some (err, Some l', h')" "dlist_rep l' h' ys"
      "dl_element_size l' = dl_element_size l" "along dn_data h' ys = drop_first (\<lambda>v. cmp v e = 0) (along dn_data h xs)"
      "err = (if \<exists>v \<in> set (along dn_data h xs). cmp v e = 0 then SCL_OK else SCL_ERR_NOT_FOUND)" by blast
    then show ?thesis using Remove_value list dlist_rep_list [of l' h' ys] by (auto simp: dlist_exec_def dlist_inv_def)
  qed
qed

lemma dlist_run_spec:
  "dlist_inv l h \<Longrightarrow> (\<forall>(pl, c) \<in> set cs. node_place pl \<and> cmd_wide (unat (dl_element_size l)) c) \<Longrightarrow>
   \<exists>rs l' h'. dlist_run cmp (l, h) cs = Some (rs, l', h') \<and> dlist_inv l' h' \<and> dl_element_size l' = dl_element_size l \<and>
     seq_run cmp (unat (dl_element_size l)) (dlist_list l h) (map snd cs) rs = Some (dlist_list l' h')"
proof (induction cs arbitrary: l h)
  case Nil
  then show ?case by simp
next
  case (Cons pc cs)
  obtain pl c where pc: "pc = (pl, c)" by (cases pc)
  then have "node_place pl" "cmd_wide (unat (dl_element_size l)) c" using Cons.prems(2) by auto
  from dlist_exec_spec [OF this(1) Cons.prems(1) this(2), of cmp] obtain err v l1 h1 where
    1: "dlist_exec cmp pl (l, h) c = Some (err, v, l1, h1)" "dlist_inv l1 h1" "dl_element_size l1 = dl_element_size l"
    "seq_step cmp (unat (dl_element_size l)) (dlist_list l h) c (err, v) = Some (dlist_list l1 h1)" by blast
  have "\<forall>(pl, c) \<in> set cs. node_place pl \<and> cmd_wide (unat (dl_element_size l1)) c" using Cons.prems(2) 1(3) by auto
  from Cons.IH [OF 1(2) this] obtain rs l2 h2 where
    "dlist_run cmp (l1, h1) cs = Some (rs, l2, h2)" "dlist_inv l2 h2" "dl_element_size l2 = dl_element_size l"
    "seq_run cmp (unat (dl_element_size l)) (dlist_list l1 h1) (map snd cs) rs = Some (dlist_list l2 h2)" using 1(3) by auto
  then show ?case using 1 pc by auto
qed

end
