(* ===== verification/Spec2Isabelle.thy ===== *)
theory Spec2Isabelle
  imports Scl_Array Scl_Stack Scl_Deque Scl_Ringbuf Scl_Sort_Heap Scl_Sort_Merge Scl_Sort_Quick Scl_Search Scl_Search_Range
    Scl_Search_Probe Scl_Search_String Scl_Quickselect Scl_Heap Scl_Unionfind Scl_Segtree Scl_Sparse Scl_Fenwick Scl_Bloom
    Scl_Sort_Int Scl_Sort_Bucket Scl_Sessions Scl_Hash Scl_Kmp Scl_Rabin_Karp Scl_Boyer_Moore
    Scl_Graph_Session Scl_Graph_Walk Scl_Slist Scl_Dlist_Session
begin

text \<open>
  A model of the sequential core of the secure-c-lib C library: the allocator interface and its default
  implementation, the containers of \<open>libs/structures\<close>, the sorts of \<open>libs/sort\<close> and the searches of
  \<open>libs/search\<close>. The properties of this theory are theorems about the definitions of the other theories,
  which translate the C functions of the same names.

  \<^bold>\<open>How C is modelled\<close> (\<open>Scl_Prelude\<close>, \<open>Scl_Slots\<close>, \<open>Scl_Buffer\<close>).
  \<open>size_t\<close> is \<open>64 word\<close> and wraps; \<open>int32_t\<close> and \<open>int64_t\<close> are words read by \<open>sint\<close>. A function that can run into
  undefined behaviour returns \<open>'a ub\<close>, an option: \<open>None\<close> is an access outside an object, an overflowing signed
  operation, a shift by the width or a loop modelled by \<open>partial_function\<close> that does not end, so a theorem that
  the result is \<open>Some\<close> includes safety. A pointer that may be \<open>NULL\<close> is \<open>'a ptr\<close>, also an option. A function that
  stores through a pointer returns the new contents beside its \<open>scl_error_t\<close>, on every branch.
  Objects are shorter than \<open>2 ^ 63\<close> bytes (\<open>object_limit\<close>, the \<open>PTRDIFF_MAX\<close> of the C implementations).
  The containers over raw memory (array, stack, queue, deque, ring buffer, heap, Bloom filter, hash table, graph) are byte
  blocks with the offset arithmetic of the code. The sorts, the searches, segment tree, sparse table and
  Fenwick tree, which only move whole elements, are lists of elements with the index arithmetic of the code;
  the byte-wise exchange of two elements is modelled and proved in \<open>Scl_Sort\<close> and \<open>Scl_Heap\<close>.
  Loops with a bound are \<open>for_up\<close> or terminating functions. Loops that need not end carry a number of
  iterations (\<open>iterate\<close>, \<open>Running\<close> when it is used up): properties state how many iterations are
  enough, or that no number is.

  \<^bold>\<open>Parts\<close>.
  \<open>Scl_Common\<close>: \<open>core/scl_common.h\<close> and \<open>common/scl_common.c\<close> (error codes and messages, checked arithmetic,
  alignment, bit utilities, bounded strings).
  \<open>Scl_Alloc\<close>: the allocator record and \<open>scl_alloc\<close>, \<open>scl_calloc\<close>, \<open>scl_realloc\<close> with the default allocator over a
  libc heap. The locale \<open>libc_heap\<close> states what is documented of \<open>malloc\<close>, \<open>realloc\<close> and \<open>posix_memalign\<close>; the
  locale \<open>scl_allocator\<close> is the contract the containers rely on, and the default allocator satisfies it.
  \<open>Scl_Array\<close>, \<open>Scl_Stack\<close>, \<open>Scl_Queue\<close>, \<open>Scl_Deque\<close>, \<open>Scl_Ringbuf\<close> (over \<open>Scl_Ring\<close>): the directories of the same
  names. \<open>Scl_Store\<close> states their contracts as the locales \<open>lifo_store\<close> and \<open>fifo_store\<close>, whose lemmas about
  command sequences every container interprets.
  \<open>Scl_Heap\<close>, \<open>Scl_Unionfind\<close>, \<open>Scl_Segtree\<close>, \<open>Scl_Sparse\<close>, \<open>Scl_Fenwick\<close> (over \<open>Scl_Fold\<close>), \<open>Scl_Bloom\<close>: the directories
  of the same names. \<open>Scl_Sessions\<close> holds their command sequences, with the locales \<open>priority_store\<close> and
  \<open>range_store\<close>.
  \<open>Scl_Sort\<close>, \<open>Scl_Sort_Simple\<close>, \<open>Scl_Sort_Heap\<close>, \<open>Scl_Sort_Merge\<close>, \<open>Scl_Sort_Quick\<close>: the comparison sorts, under
  the locale \<open>in_place_sorter\<close> and its stable extension. \<open>Scl_Sort_Int\<close>, \<open>Scl_Sort_Bucket\<close>: radix, counting and
  bucket sort. The threads of the parallel mergesort are a plan that says which worker sorts which half.
  \<open>Scl_Search\<close>, \<open>Scl_Search_Range\<close>, \<open>Scl_Search_Probe\<close>, \<open>Scl_Search_String\<close>, \<open>Scl_Quickselect\<close>: the searches over arrays
  and strings, under the locale \<open>searcher\<close>.
  \<open>Scl_Match\<close> with \<open>Scl_Kmp\<close>, \<open>Scl_Rabin_Karp\<close>, \<open>Scl_Boyer_Moore\<close>: the substring searches, under the locale
  \<open>substring_search\<close>.
  \<open>Scl_Hash\<close>: the hash table, with the locale \<open>hash_keys\<close> for its two function pointers.
  \<open>Scl_Nodes\<close>: the memory of the pointer structures, nodes under addresses, with the contract of the allocator
  (locale \<open>node_place\<close>) and the lemmas about paths. \<open>Scl_Slist\<close>, \<open>Scl_Dlist\<close>, \<open>Scl_Dlist_Session\<close>: the linked lists;
  freeing removes the node, so use after free and double free are undefined in these models.
  \<open>Scl_Layout\<close>: structs as byte blocks. \<open>Scl_Graph\<close>: the graph over two arrays of such structs;
  \<open>Scl_Graph_Session\<close>: its command sequences; \<open>Scl_Graph_Walk\<close>: the traversals of \<open>scl_graph.c\<close> and of
  \<open>libs/search/depth_first\<close> and \<open>libs/search/breadth_first\<close>.
  \<open>Scl_Cmp\<close>: what the code relies on in a comparison function (locale \<open>comparator\<close>), with the comparators of
  the library as interpretations.

  \<^bold>\<open>What the lemmas show\<close>.
  Every container has an invariant, a function to the abstract list or multiset, and for each operation a
  lemma that gives its result on every branch, error branches included, and keeps the invariant. The
  session properties run arbitrary command sequences from the initialised container. The sorts return a
  sorted permutation, the stable ones the stable one; the searches find a key exactly when it is there, and
  the two exceptions (\<open>range_searches_hang\<close>, \<open>fibonacci_misses\<close>) are proved as such, like the sorts that do
  not sort (\<open>quick_sort_breaks_order\<close>, \<open>radix_sort_unsigned\<close>).

  \<^bold>\<open>Parameters\<close>.
  Results of floating-point code are arguments of the definitions: the integer square root of the jump
  search, the interpolation fraction, the bucket of a key, the size of a Bloom filter. So are the contents
  of fresh memory (\<open>fresh\<close>) and the element whose bytes are zero (\<open>zero\<close>).

  \<^bold>\<open>Not modelled\<close>.
  Freeing a block has no effect in the models of the flat containers, which have no addresses, so leaks and double
  frees of blocks are outside them. The
  concurrent variants need the C memory model; the allocators, which cut raw address ranges, are replaced by
  the contract. Sockets, threads, files, SIMD and floating-point libraries (\<open>net\<close>, \<open>threadpool\<close>, \<open>ml\<close>,
  \<open>random\<close>, the document parsers and \<open>compress\<close>) are not part of this core.
  Of the structures, the LRU cache, the search trees, the skip list, the trie and the sharded array are left
  out; of the searches, the shortest paths (Bellman-Ford, Dijkstra, Floyd-Warshall, A*) and the hash and trie
  indexes.
\<close>

section \<open>Containers\<close>



text \<open>C2. Inserting at any position and removing at the same position gives back the element and leaves the
  contents as they were, whether or not the insertion had to grow the block.\<close>

theorem array_insert_remove:
  assumes "scl_allocator a" and "array_inv s" and "i \<le> arr_count s"
    and "unat (arr_element_size s) \<le> length e" and "unat (arr_element_size s) \<le> length out"
    and "scl_array_insert a (Some s) i (Some e) = Some (SCL_OK, Some s')"
  shows "\<exists>s''. scl_array_remove (Some s') i (Some out)
      = Some (SCL_OK, Some s'', Some (take (unat (arr_element_size s)) e @ drop (unat (arr_element_size s)) out)) \<and>
    array_inv s'' \<and> array_list s'' = array_list s"
proof -
  let ?l = "array_list s" and ?es = "unat (arr_element_size s)"
  have s': "array_inv s'" "arr_element_size s' = arr_element_size s"
    "array_list s' = take (unat i) ?l @ [take ?es e] @ drop (unat i) ?l"
    using scl_allocator.insert_spec [OF assms(1,2,3,4)] assms(6) by auto
  have i: "unat i \<le> length ?l" using assms(3) by (simp add: word_le_unat)
  then have "length (array_list s') = Suc (length ?l)" by (simp add: s'(3))
  then have "i < arr_count s'" using i by (simp add: word_less_unat)
  then show ?thesis using remove_spec [OF s'(1), of out i] assms(5) s' i
    by (auto simp: nth_append min_def)
qed

theorem array_insert_remove_witness:
  "\<exists>s''. scl_array_remove (Some \<lparr>arr_data = Some [7, 9, 8, 0xAA], arr_element_size = 1, arr_capacity = 4, arr_count = 3\<rparr>) 1 (Some [0])
      = Some (SCL_OK, Some s'', Some [9]) \<and>
    array_inv s'' \<and> array_list s'' = [[7], [8]]"
proof -
  let ?s = "\<lparr>arr_data = Some [7, 8, 0xAA, 0xAA], arr_element_size = 1, arr_capacity = 4, arr_count = 2\<rparr>"
  have "array_inv ?s" by (simp add: array_inv_def buf_ok_def is_object_def)
  moreover have "array_list ?s = [[7], [8]]"
    by (simp add: array_list_def slots_def slot_def elem_def upt_rec)
  moreover have "scl_array_insert demo_alloc (Some ?s) 1 (Some [9])
      = Some (SCL_OK, Some \<lparr>arr_data = Some [7, 9, 8, 0xAA], arr_element_size = 1, arr_capacity = 4, arr_count = 3\<rparr>)"
    by (simp add: scl_array_insert_def array_make_room_def scl_memmove_def scl_memcpy_def mem_read_def mem_write_def Let_def)
  ultimately show ?thesis
    using array_insert_remove [OF demo.scl_allocator_axioms, of ?s 1 "[9]" "[0]"] by simp
qed

text \<open>The comparator of the witness orders single bytes.\<close>

definition byte_cmp :: "block \<Rightarrow> block \<Rightarrow> int" where
  "byte_cmp x y = int_cmp (uint (hd x)) (uint (hd y))"

lemma byte_cmp_comparator: "comparator byte_cmp"
  by unfold_locales (auto simp: byte_cmp_def int_cmp_def)

text \<open>C3. A queue made by \<open>scl_queue_init\<close> conserves its elements in order under every sequence of
  enqueues and dequeues: what came out, followed by what is still in it, is what went in. Growing the
  ring while it is wrapped around keeps the order.\<close>

theorem queue_session:
  assumes "scl_allocator a" and "scl_queue_init a (Some q0) es cap = (SCL_OK, Some q)"
    and "\<forall>c \<in> set cs. case c of Put e \<Rightarrow> unat es \<le> length e | Get \<Rightarrow> True"
  shows "\<exists>q' evs. run_cmds queue_put queue_take (a, q) cs = Some (q', evs) \<and> queue_inv (snd q') \<and>
    fetched evs @ queue_list (snd q') = stored (unat es) evs"
proof -
  note q = queue_init_ok [OF assms(1,2)]
  have "element_store.fits (unat es) cs" using assms(3) by (simp add: queue_store.fits_def)
  then show ?thesis using queue_store.run_conserves [of "(a, q)" cs] q assms(1) by auto
qed

theorem queue_session_witness:
  "\<exists>q' evs. run_cmds queue_put queue_take
      (demo_alloc, \<lparr>que_data = None, que_element_size = 1, que_capacity = 0, que_mask = 0, que_head = 0,
        que_tail = 0, que_count = 0\<rparr>) [Put [1], Put [2], Get, Put [3]] = Some (q', evs) \<and> queue_inv (snd q') \<and>
    fetched evs @ queue_list (snd q') = stored 1 evs"
  using queue_session [OF demo.scl_allocator_axioms, of
      "\<lparr>que_data = None, que_element_size = 0, que_capacity = 0, que_mask = 0, que_head = 0, que_tail = 0, que_count = 0\<rparr>"
      1 0 "\<lparr>que_data = None, que_element_size = 1, que_capacity = 0, que_mask = 0, que_head = 0,
        que_tail = 0, que_count = 0\<rparr>" "[Put [1], Put [2], Get, Put [3]]"]
  by (simp add: scl_queue_init_def del: run_cmds.simps split_paired_Ex)

text \<open>C4. A deque made by \<open>scl_deque_init\<close> refines a list under every mix of operations at both ends: each
  result and each removed element is the one the list gives, and a push that fails for want of memory
  changes nothing.\<close>

theorem deque_session:
  assumes "scl_allocator a" and "scl_deque_init a (Some q0) es cap = (SCL_OK, Some q)"
    and "\<forall>c \<in> set cs. cmd_fits (unat es) c"
  shows "\<exists>q' rs. deque_run a q cs = Some (q', rs) \<and> deque_inv q' \<and>
    list_run (unat es) [] cs rs = Some (deque_list q')"
  using deque_run_spec [OF assms(1), of q cs] deque_init_ok [OF assms(1,2)] assms(3) by auto

theorem deque_session_witness:
  "\<exists>q' rs. deque_run demo_alloc
      \<lparr>deq_data = None, deq_element_size = 1, deq_capacity = 0, deq_mask = 0, deq_head = 0, deq_count = 0\<rparr>
      [Push_front [1], Push_back [2], Push_front [3], Pop_back, Pop_front] = Some (q', rs) \<and> deque_inv q' \<and>
    list_run 1 [] [Push_front [1], Push_back [2], Push_front [3], Pop_back, Pop_front] rs = Some (deque_list q')"
  using deque_session [OF demo.scl_allocator_axioms, of
      "\<lparr>deq_data = None, deq_element_size = 0, deq_capacity = 0, deq_mask = 0, deq_head = 0, deq_count = 0\<rparr>" 1 0
      "\<lparr>deq_data = None, deq_element_size = 1, deq_capacity = 0, deq_mask = 0, deq_head = 0, deq_count = 0\<rparr>"
      "[Push_front [1], Push_back [2], Push_front [3], Pop_back, Pop_front]"]
  by (simp add: scl_deque_init_def del: deque_run.simps)

text \<open>C5. An overwriting ring buffer made by \<open>scl_ringbuf_init\<close> holds, after any number of pushes, exactly the
  last \<open>capacity\<close> elements in order, where the capacity is at least the requested one.\<close>

theorem ringbuf_keeps_newest:
  assumes "scl_allocator a" and "unat cap \<le> 2 ^ 63"
    and "scl_ringbuf_init a (Some r0) es cap True = (SCL_OK, Some r)"
    and "\<forall>e \<in> set xs. unat es \<le> length e"
  shows "\<exists>r'. ringbuf_push_all r xs = Some r' \<and> ringbuf_inv r' \<and> cap \<le> rb_capacity r \<and>
    ringbuf_list r' = last_n (unat (rb_capacity r)) (map (take (unat es)) xs)"
  using ringbuf_keeps_last [of r xs] ringbuf_init_ok [OF assms(1,2,3)] assms(4) by auto

theorem ringbuf_keeps_newest_witness:
  "\<exists>r'. ringbuf_push_all \<lparr>rb_data = Some [0xAA, 0xAA], rb_element_size = 1, rb_capacity = 2, rb_mask = 1,
      rb_head = 0, rb_count = 0, rb_overwrite = True\<rparr> [[1], [2], [3]] = Some r' \<and> ringbuf_inv r' \<and> (2::size_t) \<le> 2 \<and>
    ringbuf_list r' = [[2], [3]]"
proof -
  have two: "replicate 2 x = [x, x]" for x :: byte by (simp add: numeral_2_eq_2)
  have "scl_bit_ceil_sz 2 = 2" by (simp add: scl_bit_ceil_sz_def smear_def Let_def)
  then have "scl_ringbuf_init demo_alloc
      (Some \<lparr>rb_data = None, rb_element_size = 0, rb_capacity = 0, rb_mask = 0, rb_head = 0, rb_count = 0, rb_overwrite = False\<rparr>)
      1 2 True = (SCL_OK, Some \<lparr>rb_data = Some [0xAA, 0xAA], rb_element_size = 1, rb_capacity = 2, rb_mask = 1,
      rb_head = 0, rb_count = 0, rb_overwrite = True\<rparr>)"
    by (simp add: scl_ringbuf_init_def demo_alloc_def scl_allocator_default_def def_malloc_def limited_heap_def
        scl_mul_overflow_def two)
  from ringbuf_keeps_newest [OF demo.scl_allocator_axioms _ this, of "[[1], [2], [3]]"]
  show ?thesis by (simp add: last_n_def del: ringbuf_push_all.simps)
qed

section \<open>Sorting\<close>



text \<open>C7. The in-place sorts of the library never fail, never leave the array and return a sorted
  permutation of it: insertion, bubble, selection, Shell and heap sort in both of their versions, and the
  quicksort of \<open>scl_sort.c\<close>, whose fixed stack of ranges always suffices.\<close>

theorem in_place_sorts:
  fixes xs :: "'a list"
  assumes "comparator cmp" and "length xs < object_limit"
  shows "\<forall>f \<in> {scl_sort_insertion, scl_sort_insertion_sort, scl_sort_bubble, scl_sort_bubble_sort,
      scl_sort_selection, scl_sort_selection_sort, scl_sort_shell, scl_sort_shell_sort,
      scl_sort_heap, scl_sort_heap_sort, scl_sort_quick}.
    \<exists>ys. f (Some xs) (length xs) (Some cmp) = Some (SCL_OK, Some ys) \<and> mset ys = mset xs \<and> sorted_cmp cmp ys"
proof -
  have "\<exists>ys. f (Some xs) (length xs) (Some cmp) = Some (SCL_OK, Some ys) \<and> mset ys = mset xs \<and> sorted_cmp cmp ys"
    if "in_place_sorter f" for f
    using in_place_sorter.sorts [OF that assms] by metis
  moreover have "\<forall>f \<in> {scl_sort_insertion, scl_sort_insertion_sort, scl_sort_bubble, scl_sort_bubble_sort,
      scl_sort_selection, scl_sort_selection_sort, scl_sort_shell, scl_sort_shell_sort,
      scl_sort_heap, scl_sort_heap_sort, scl_sort_quick :: 'a list ptr \<Rightarrow> _}. in_place_sorter f"
    using insertion.in_place_sorter_axioms insertion_sort.in_place_sorter_axioms bubble.in_place_sorter_axioms
      bubble_sort.in_place_sorter_axioms selection.in_place_sorter_axioms selection_sort.in_place_sorter_axioms
      shell.in_place_sorter_axioms shell_sort.in_place_sorter_axioms heap_sorter.in_place_sorter_axioms
      heap_sort.in_place_sorter_axioms quick.in_place_sorter_axioms by simp
  ultimately show ?thesis by blast
qed

theorem in_place_sorts_witness:
  "(\<exists>ys. scl_sort_shell_sort (Some [2, 1]) (length [2, 1 :: int]) (Some int_cmp) = Some (SCL_OK, Some ys) \<and>
      mset ys = mset [2, 1] \<and> sorted_cmp int_cmp ys) \<and>
   (\<exists>ys. scl_sort_quick (Some [2, 1]) (length [2, 1 :: int]) (Some int_cmp) = Some (SCL_OK, Some ys) \<and>
      mset ys = mset [2, 1] \<and> sorted_cmp int_cmp ys)"
  using in_place_sorts [OF int_order.comparator_axioms, of "[2, 1]"] by simp




section \<open>Allocation and arithmetic\<close>

text \<open>C10. Over any libc heap that behaves as documented, \<open>realloc\<close> through the default allocator either
  reports failure or returns a block of the requested size that starts with the old contents, also for
  alignments libc's \<open>realloc\<close> does not support; a zero-size request never returns a block.\<close>

theorem default_realloc:
  assumes "libc_heap h" and "old_size_ok p old"
  shows "\<exists>r. scl_realloc (scl_allocator_default h) None k p old new al = Some r \<and>
    (case r of None \<Rightarrow> True | Some b \<Rightarrow> new \<noteq> 0 \<and> is_object b (unat new) \<and> keeps_prefix p b)"
proof -
  have "def_realloc h k p old 0 al = Some None" by (simp add: def_realloc_def)
  then show ?thesis using libc_heap.def_realloc_block [OF assms, of k new al]
    by (auto simp: scl_realloc_def scl_resolve_def scl_allocator_default_def split: option.split)
qed

theorem default_realloc_witness:
  "\<exists>r. scl_realloc (scl_allocator_default (limited_heap 100)) None 0 (Some [1, 2]) 2 4 64 = Some r \<and>
    (case r of None \<Rightarrow> True
     | Some b \<Rightarrow> (4::size_t) \<noteq> 0 \<and> is_object b (unat (4::size_t)) \<and> keeps_prefix (Some [1, 2]) b)"
  by (rule default_realloc [OF limited.libc_heap_axioms]) (simp add: old_size_ok_def)

text \<open>C11. The checked multiplication reports overflow exactly when the product does not fit \<open>size_t\<close>, and the
  division-based fallback for other compilers computes the same function.\<close>

theorem checked_multiplication:
  "(case scl_mul_overflow a b of None \<Rightarrow> 2 ^ 64 \<le> unat a * unat b | Some p \<Rightarrow> unat p = unat a * unat b) \<and>
   scl_mul_overflow_portable a b = scl_mul_overflow a b"
  using scl_mul_overflow_None [of a b] scl_mul_overflow_Some [of a b] scl_mul_overflow_portable_eq [of a b]
  by (auto split: option.split)

text \<open>C12. The check for untrusted lengths accepts a range exactly when it lies inside the buffer, also where
  offset plus length wraps around, and the clamp returns the longest prefix that does.\<close>

theorem untrusted_ranges:
  "(scl_range_in_bounds tot off n \<longleftrightarrow> unat off + unat n \<le> unat tot) \<and>
   unat (scl_clamp_len tot off n) = min (unat n) (unat tot - unat off)"
  by (simp add: scl_range_in_bounds_iff unat_scl_clamp_len)

section \<open>Strings\<close>

text \<open>C13. \<open>scl_strlcpy\<close> copies the longest prefix that leaves room for the terminator, terminates it, leaves
  the bytes behind it alone and returns the length of the source.\<close>

theorem strlcpy_copies:
  assumes "cstring src s" and "0 < dsize" and "dsize \<le> length dst"
  shows "scl_strlcpy dst src dsize
    = Some (length s, take (dsize - 1) s @ 0 # drop (Suc (min (length s) (dsize - 1))) dst)"
  using assms by (rule scl_strlcpy_cstring)

theorem strlcpy_copies_witness:
  "scl_strlcpy [9, 9, 9] [65, 66, 67, 0] 3 = Some (length [65, 66, 67 :: byte],
    take (3 - 1) [65, 66, 67] @ 0 # drop (Suc (min (length [65, 66, 67 :: byte]) (3 - 1))) [9, 9, 9])"
proof (rule strlcpy_copies [of "[65, 66, 67, 0]" "[65, 66, 67]" 3 "[9, 9, 9]"])
  show "cstring [65, 66, 67, 0] [65, 66, 67]"
    unfolding cstring_def by (intro conjI exI [of _ "[]"]) simp_all
qed simp_all

text \<open>C14. \<open>scl_strlcat\<close> appends and terminates like the function it is named after, but returns the number of
  copied bytes too much: the length of the result plus the length of the source, where the promised
  value is the length it tried to create.\<close>

theorem strlcat_overcounts:
  assumes "cstring dst d" and "cstring src s" and "length d < dsize" and "dsize \<le> length dst"
  shows "\<exists>r. scl_strlcat dst src dsize = Some (length d + length s + min (length s) (dsize - 1 - length d), r) \<and>
    cstring r (d @ take (dsize - 1 - length d) s)"
proof -
  let ?k = "min (length s) (dsize - 1 - length d)"
  let ?t = "take (dsize - 1 - length d) s" and ?rest = "drop (Suc (length d + ?k)) dst"
  have k: "take ?k s = ?t" by (simp add: min_def)
  have "0 \<notin> set (d @ ?t)" using assms(1,2) by (auto simp: cstring_def dest: in_set_takeD)
  then have "cstring (d @ ?t @ 0 # ?rest) (d @ ?t)"
    unfolding cstring_def by (intro conjI exI [of _ ?rest]) simp_all
  moreover have "scl_strlcat dst src dsize = Some (length d + ?k + length s, d @ ?t @ 0 # ?rest)"
    using scl_strlcat_cstring [OF assms] unfolding k .
  moreover have "length d + ?k + length s = length d + length s + ?k" by simp
  ultimately show ?thesis by metis
qed

theorem strlcat_overcounts_witness:
  "\<exists>r. scl_strlcat [65, 0, 9, 9] [66, 0] 4 = Some (Suc (Suc (Suc 0)), r) \<and> cstring r [65, 66]"
  using strlcat_overcounts [of "[65, 0, 9, 9]" "[65]" "[66, 0]" "[66]" 4] by (simp add: cstring_def)

section \<open>Searching\<close>

text \<open>C15. Linear, binary and jump search on a sorted array return the index of an element that compares equal
  to the key, or \<open>SCL_ERR_NOT_FOUND\<close> with the index left alone when there is none; whatever integer square
  root the jump search works with.\<close>

theorem array_searches:
  fixes xs :: "'a list"
  assumes "comparator cmp" and "sorted_cmp cmp xs" and "0 < length xs" and "length xs < object_limit"
  shows "\<forall>f \<in> {scl_search_linear_search, scl_search_binary_search, scl_search_jump_search sqrt_sz}.
    (\<exists>j. f (Some xs) (length xs) (Some k) (Some cmp) (Some i) = Some (SCL_OK, Some j) \<and> j < length xs \<and> cmp (xs ! j) k = 0) \<or>
    f (Some xs) (length xs) (Some k) (Some cmp) (Some i) = Some (SCL_ERR_NOT_FOUND, Some i) \<and> (\<forall>x \<in> set xs. cmp x k \<noteq> 0)"
  using linear.finds [OF assms(1) TrueI assms(3,4)] binary.finds [OF assms] jump.finds [OF assms] by blast

theorem array_searches_witness:
  "scl_search_binary_search (Some [3, 5, 9]) (length [3, 5, 9 :: int]) (Some 5) (Some int_cmp) (Some 7) = Some (SCL_OK, Some 1) \<and>
   scl_search_jump_search (\<lambda>n. 1) (Some [3, 5, 9]) (length [3, 5, 9 :: int]) (Some 4) (Some int_cmp) (Some 7)
     = Some (SCL_ERR_NOT_FOUND, Some 7)"
proof -
  have "sorted_cmp int_cmp [3, 5, 9]"
    by (simp add: int_order.sorted_Cons int_order.sorted_Nil int_cmp_def)
  note * = array_searches [OF int_order.comparator_axioms this, of "\<lambda>n. 1" _ 7, unfolded ball_simps]
  show ?thesis using * [of 5] * [of 4] by (auto simp: int_cmp_def nth_Cons' split: if_splits)
qed

text \<open>C16. Exponential, ternary and unbounded search on a sorted array end within \<open>n + 1\<close> iterations of their
  loops with the right answer, as long as the key is not below the first element.\<close>

theorem range_searches_terminate:
  assumes c: "comparator cmp" and xs: "sorted_cmp cmp xs" and k: "cmp (xs ! 0) k \<le> 0"
    and len: "0 < length xs" "length xs < object_limit"
  shows "(\<exists>r. scl_search_exponential_search (Suc (length xs)) (Some xs) (length xs) (Some k) (Some cmp) (Some i)
      = Some (Returns (case r of None \<Rightarrow> (SCL_ERR_NOT_FOUND, Some i) | Some j \<Rightarrow> (SCL_OK, Some j))) \<and> hit cmp xs k r) \<and>
    (\<exists>r. scl_search_ternary_search (Suc (length xs)) (Some xs) (length xs) (Some k) (Some cmp) (Some i)
      = Some (Returns (case r of None \<Rightarrow> (SCL_ERR_NOT_FOUND, Some i) | Some j \<Rightarrow> (SCL_OK, Some j))) \<and> hit cmp xs k r) \<and>
    (\<exists>r. scl_search_unbounded_binary_search (Suc (length xs)) (Some cmp) (Some k) (Some i) (Some (getter_of xs)) (length xs)
      = Some (Returns (case r of None \<Rightarrow> (SCL_ERR_NOT_FOUND, Some i) | Some j \<Rightarrow> (SCL_OK, Some j))) \<and> hit cmp xs k r)"
proof -
  have ends: "m = Some (Returns x)" if "finished m = Some x" for m :: "'r run ub" and x
    using that by (auto simp: finished_def split: option.splits run.splits)
  show ?thesis
    using exponential.search_law [OF c _ len, of k i] ternary.search_law [OF c _ len, of k i] xs k
      unbounded_finds [OF c xs k len(1) order_refl _ lessI, of i] len(2)
    by (auto dest!: ends)
qed

theorem range_searches_terminate_witness:
  "(\<exists>r. scl_search_exponential_search (Suc (length [1, 4 :: int])) (Some [1, 4]) (length [1, 4 :: int]) (Some 2) (Some int_cmp) (Some 7)
      = Some (Returns (case r of None \<Rightarrow> (SCL_ERR_NOT_FOUND, Some 7) | Some j \<Rightarrow> (SCL_OK, Some j))) \<and> hit int_cmp [1, 4] 2 r) \<and>
    (\<exists>r. scl_search_ternary_search (Suc (length [1, 4 :: int])) (Some [1, 4]) (length [1, 4 :: int]) (Some 2) (Some int_cmp) (Some 7)
      = Some (Returns (case r of None \<Rightarrow> (SCL_ERR_NOT_FOUND, Some 7) | Some j \<Rightarrow> (SCL_OK, Some j))) \<and> hit int_cmp [1, 4] 2 r)"
proof -
  have "sorted_cmp int_cmp [1, 4]" by (simp add: int_order.sorted_Cons int_order.sorted_Nil int_cmp_def)
  from range_searches_terminate [OF int_order.comparator_axioms this, of 2 7] show ?thesis by (simp add: int_cmp_def)
qed

text \<open>C17. With a key below the first element the same three searches never return: after any number of
  iterations they are still in the loop, at the range that has shrunk to the first slot.\<close>

theorem range_searches_hang:
  assumes "comparator cmp" and "sorted_cmp cmp xs" and "1 < length xs" and "0 < cmp (xs ! 0) k"
  shows "scl_search_exponential_search n (Some xs) (length xs) (Some k) (Some cmp) (Some i) = Some Running \<and>
    scl_search_ternary_search n (Some xs) (length xs) (Some k) (Some cmp) (Some i) = Some Running \<and>
    scl_search_unbounded_binary_search n (Some cmp) (Some k) (Some i) (Some (getter_of xs)) (length xs) = Some Running"
proof -
  have "0 < length xs" using assms(3) by linarith
  then show ?thesis
    using exponential_hangs [OF assms] ternary_hangs [OF assms(1,2) _ assms(4)] unbounded_hangs [OF assms(1,2,4)] by blast
qed

theorem range_searches_hang_witness:
  "scl_search_exponential_search 1000 (Some [5, 8]) (length [5, 8 :: int]) (Some 1) (Some int_cmp) (Some 7) = Some Running \<and>
    scl_search_ternary_search 1000 (Some [5, 8]) (length [5, 8 :: int]) (Some 1) (Some int_cmp) (Some 7) = Some Running \<and>
    scl_search_unbounded_binary_search 1000 (Some int_cmp) (Some 1) (Some 7) (Some (getter_of [5, 8 :: int])) (length [5, 8 :: int])
      = Some Running"
proof -
  have "sorted_cmp int_cmp [5, 8]" by (simp add: int_order.sorted_Cons int_order.sorted_Nil int_cmp_def)
  from range_searches_hang [OF int_order.comparator_axioms this, of 1 1000 7] show ?thesis by (simp add: int_cmp_def)
qed

text \<open>C18. Fibonacci search ends on every array and with every comparison, and an index it returns is one of a
  matching element: it never reads outside the array and never reports a wrong position.\<close>

theorem fibonacci_terminates:
  assumes "0 < length xs"
  shows "\<exists>n r. scl_search_fibonacci_search n (Some xs) (length xs) (Some k) (Some cmp) (Some i)
      = Some (Returns (case r of None \<Rightarrow> (SCL_ERR_NOT_FOUND, Some i) | Some j \<Rightarrow> (SCL_OK, Some j))) \<and>
    (case r of None \<Rightarrow> True | Some j \<Rightarrow> j < length xs \<and> cmp (xs ! j) k = 0)"
  using assms by (rule fibonacci_sound)

theorem fibonacci_terminates_witness:
  "\<exists>n r. scl_search_fibonacci_search n (Some [2, 4, 6]) (length [2, 4, 6 :: int]) (Some 4) (Some int_cmp) (Some 7)
      = Some (Returns (case r of None \<Rightarrow> (SCL_ERR_NOT_FOUND, Some 7) | Some j \<Rightarrow> (SCL_OK, Some j))) \<and>
    (case r of None \<Rightarrow> True | Some j \<Rightarrow> j < length [2, 4, 6 :: int] \<and> int_cmp ([2, 4, 6] ! j) 4 = 0)"
  by (rule fibonacci_terminates) simp

text \<open>C19. Fibonacci search misses elements that are there: in every array of two elements whose second one is
  above the key it reports that the first one, which matches, was not found.\<close>

theorem fibonacci_misses:
  assumes "0 < cmp x1 k" and "cmp x0 k = 0"
  shows "scl_search_fibonacci_search 2 (Some [x0, x1]) 2 (Some k) (Some cmp) (Some i) = Some (Returns (SCL_ERR_NOT_FOUND, Some i))"
  using assms by (rule fibonacci_misses_first)

theorem fibonacci_misses_witness:
  "scl_search_fibonacci_search 2 (Some [1, 2]) 2 (Some 1) (Some int_cmp) (Some 7) = Some (Returns (SCL_ERR_NOT_FOUND, Some 7))"
  by (rule fibonacci_misses) (simp_all add: int_cmp_def)

text \<open>C20. The three string searches are the array searches under \<open>strcmp\<close>: same error code, same index, same
  behaviour where the loop does not end. Linear search compares only the strings that are not \<open>NULL\<close>.\<close>

theorem string_searches:
  "scl_search_linear_string strings cnt key idx = scl_search_linear_search strings cnt key (Some string_match) idx \<and>
   scl_search_binary_string (Some (map Some strs)) cnt key idx = scl_search_binary_search (Some strs) cnt key (Some strcmp) idx \<and>
   scl_search_exponential_string n (Some (map Some strs)) cnt (Some k) (Some i)
     = scl_search_exponential_search n (Some strs) cnt (Some k) (Some strcmp) (Some i)"
  using linear_string_eq binary_string_eq exponential_string_eq by blast

text \<open>C21. Quickselect delivers the element of rank \<open>k\<close> (at most \<open>k\<close> elements are smaller, more than \<open>k\<close> are not
  larger) from a private copy, or an error of the allocation with the output left alone.\<close>

theorem quickselect:
  assumes "scl_allocator a" and "comparator cmp" and "length xs = unat cnt" and "k < cnt"
  shows "\<exists>err v. scl_search_quickselect a (Some xs) cnt es (Some cmp) k (Some old) = Some (err, Some v) \<and>
    (if err = SCL_OK then has_rank cmp xs (unat k) v else alloc_failed err \<and> v = old)"
  using assms by (rule quickselect_rank)

theorem quickselect_witness:
  "\<exists>err v. scl_search_quickselect demo_alloc (Some [7, 1, 5]) 3 4 (Some int_cmp) 1 (Some 0) = Some (err, Some v) \<and>
    (if err = SCL_OK then has_rank int_cmp [7, 1, 5] (unat (1 :: size_t)) v else alloc_failed err \<and> v = 0)"
  by (rule quickselect [OF demo.scl_allocator_axioms int_order.comparator_axioms]) simp_all

section \<open>Trees and filters\<close>

text \<open>C22. A heap made by \<open>scl_heap_init\<close> is a priority queue under every sequence of pushes and pops: what each
  pop returns is least among the elements present at that moment, nothing is lost or invented, and a push
  that fails changes nothing.\<close>

theorem heap_session:
  assumes "scl_allocator a" and "comparator cmp" and "scl_heap_init a (Some h0) es cap (Some cmp) = (SCL_OK, Some h)"
    and "\<forall>c \<in> set cs. case c of Put e \<Rightarrow> unat es \<le> length e | Get \<Rightarrow> True"
  shows "\<exists>h' evs. run_cmds heap_put heap_take (a, h) cs = Some (h', evs) \<and> heap_inv (snd h') \<and> length evs = length cs \<and>
    replay_least (unat es) cmp {#} evs = Some (mset (heap_list (snd h')))"
proof -
  note h = heap_init_ok [OF assms(1-3)]
  then have "\<forall>c \<in> set cs. case c of Put e \<Rightarrow> unat (hp_element_size (snd (a, h))) \<le> length e | Get \<Rightarrow> True"
    using assms(4) by (auto split: cmd.splits)
  from heap_store.run_least [of "(a, h)" cs, OF _ this] h assms(1) show ?thesis by auto
qed

theorem heap_session_witness:
  "\<exists>h' evs. run_cmds heap_put heap_take
      (demo_alloc, \<lparr>hp_data = None, hp_element_size = 1, hp_capacity = 0, hp_count = 0, hp_cmp = byte_cmp\<rparr>)
      [Put [4], Put [2], Get, Get] = Some (h', evs) \<and> heap_inv (snd h') \<and> length evs = Suc (Suc (Suc (Suc 0))) \<and>
    replay_least 1 byte_cmp {#} evs = Some (mset (heap_list (snd h')))"
  using heap_session [OF demo.scl_allocator_axioms byte_cmp_comparator, of
      "\<lparr>hp_data = None, hp_element_size = 0, hp_capacity = 0, hp_count = 0, hp_cmp = byte_cmp\<rparr>" 1 0
      "\<lparr>hp_data = None, hp_element_size = 1, hp_capacity = 0, hp_count = 0, hp_cmp = byte_cmp\<rparr>"
      "[Put [4], Put [2], Get, Get]"]
  by (simp add: scl_heap_init_def del: run_cmds.simps split_paired_Ex)

text \<open>C23. A union-find structure after any list of unions answers \<open>connected\<close> by the equivalence the unions
  generate, however far the paths have been compressed.\<close>

theorem unionfind_session:
  assumes "scl_allocator a" and "scl_unionfind_init a (Some u0) cnt = Some (SCL_OK, Some u)" and "cnt \<noteq> 0"
    and "\<forall>(x, y) \<in> set ps. x < cnt \<and> y < cnt" and "x < cnt" and "y < cnt"
  shows "\<exists>v w. uf_unions u ps = Some v \<and> uf_inv v \<and>
    scl_unionfind_connected (Some v) x y
      = Some ((unat x, unat y) \<in> generated (unat cnt) ((\<lambda>(x, y). (unat x, unat y)) ` set ps), Some w)"
proof -
  have u: "uf_inv u" "uf_count u = cnt" "\<And>i j. uf_rel u i j \<longleftrightarrow> i < unat cnt \<and> j = i"
    using uf_init_spec [OF assms(1,3), of u0] assms(2) by simp_all
  have "uf_rel u i j \<longleftrightarrow> (i, j) \<in> generated (unat (uf_count u)) {}" for i j
    using u(2,3) by (auto simp: generated_def)
  from unions_spec [OF u(1) _ this, of ps] assms(4) u(2) obtain v where v: "uf_unions u ps = Some v" "uf_inv v" "uf_count v = cnt"
    "\<forall>i j. uf_rel v i j \<longleftrightarrow> (i, j) \<in> generated (unat cnt) ((\<lambda>(x, y). (unat x, unat y)) ` set ps)" by auto
  have "unat x < unat (uf_count v)" "unat y < unat (uf_count v)" using assms(5,6) v(3) by (simp_all add: word_less_unat)
  from uf_connected_spec [OF v(2) this] v show ?thesis by auto
qed

theorem unionfind_session_witness:
  "\<exists>u v w. scl_unionfind_init demo_alloc (Some \<lparr>uf_parent = None, uf_rank = None, uf_count = 0, uf_sets = 0\<rparr>) 4 = Some (SCL_OK, Some u) \<and>
    uf_unions u [(0, 1), (2, 1)] = Some v \<and> uf_inv v \<and> scl_unionfind_connected (Some v) 2 0
      = Some ((unat (2 :: size_t), unat (0 :: size_t)) \<in> generated (unat (4 :: size_t)) ((\<lambda>(x, y). (unat x, unat y)) ` set [(0 :: size_t, 1 :: size_t), (2, 1)]), Some w)"
proof -
  let ?u = "\<lparr>uf_parent = None, uf_rank = None, uf_count = 0, uf_sets = 0\<rparr> :: scl_unionfind_t"
  have "malloc_fn demo_alloc 0 (4 * 8) max_align \<noteq> None" "calloc_fn demo_alloc 1 4 8 max_align \<noteq> None"
    by (simp_all add: demo_alloc_def scl_allocator_default_def def_malloc_def def_calloc_def limited_heap_def scl_mul_overflow_def)
  then have "\<not> scl_unionfind_init demo_alloc (Some ?u) 4 = Some (SCL_ERR_OUT_OF_MEMORY, Some v)" for v
    by (auto simp: scl_unionfind_init_def split: option.splits bind_splits)
  then obtain u where u: "scl_unionfind_init demo_alloc (Some ?u) 4 = Some (SCL_OK, Some u)"
    using uf_init_spec [OF demo.scl_allocator_axioms, of 4 ?u] by (auto split: if_splits)
  from unionfind_session [OF demo.scl_allocator_axioms this, of "[(0, 1), (2, 1)]" 2 0] show ?thesis using u by auto
qed

text \<open>C24. A segment tree made by \<open>scl_segtree_init\<close> and changed at any points answers every range query with
  the combination, in order, of the elements the list would then have in that range.\<close>

theorem segtree_session:
  assumes "scl_allocator a" and "associative f" and "n \<noteq> 0" and "unat n \<le> length src" and "es \<noteq> 0"
    and "scl_segtree_init zero a (Some t0) n es (Some src) (Some f) = Some (SCL_OK, Some t)"
    and "\<forall>(i, v) \<in> set ops. i < unat n" and "l < r" and "r \<le> unat n"
  shows "\<exists>t'. alter_all seg_set t ops = Some t' \<and>
    seg_ask old t' l r = total f (between (list_alter (\<lambda>x v. v) (take (unat n) src) ops) l r)"
proof -
  have "seg_holds f t (take (unat n) src)"
    using seg_init_spec [OF assms(1,3-5), of zero t0 f] assms(2,4,6) by (simp add: seg_holds_def)
  from segtree.alters_ask [OF this, of ops l r old] assms(4,7-9) show ?thesis by simp
qed

theorem segtree_session_witness:
  "\<exists>t t'. scl_segtree_init 0 demo_alloc (Some \<lparr>sg_data = None, sg_n = 0, sg_size = 0, sg_element_size = 0, sg_combine = (+)\<rparr>)
      2 8 (Some [3, 4]) (Some (+)) = Some (SCL_OK, Some t) \<and>
    alter_all seg_set t [(0, 5 :: nat)] = Some t' \<and> seg_ask 0 t' 0 2 = Some 9"
proof -
  have two: "seg_round 2 1 = Some 2" by (subst seg_round.simps, simp, subst seg_round.simps, simp)
  obtain b where b: "calloc_fn demo_alloc 0 (of_nat (2 * 2)) 8 max_align = Some b" "length b = 32"
    by (simp add: demo_alloc_def scl_allocator_default_def def_malloc_def def_calloc_def limited_heap_def scl_mul_overflow_def)
  let ?t = "\<lparr>sg_data = None, sg_n = 0, sg_size = 0, sg_element_size = 0, sg_combine = (+)\<rparr> :: nat scl_segtree_t"
  obtain err t where t: "scl_segtree_init 0 demo_alloc (Some ?t) 2 8 (Some [3, 4]) (Some (+)) = Some (err, Some t)"
    "if err = SCL_OK then seg_inv t \<and> seg_list t = take (unat (2 :: size_t)) [3, 4] \<and> sg_combine t = (+) \<and> sg_n t = 2 else alloc_failed err"
    using seg_init_spec [OF demo.scl_allocator_axioms, of 2 "[3, 4]" 8 0 ?t "(+)"] by auto
  have "err = SCL_OK" using t(1) two b by (auto simp: scl_segtree_init_def split: bind_splits)
  then show ?thesis
    using segtree_session [OF demo.scl_allocator_axioms, of "(+)" 2 "[3, 4]" 8 0 ?t t "[(0, 5)]" 0 2 0] t
    by (auto simp: associative_def between_def)
qed

text \<open>C25. A Fenwick tree over a commutative operation with its inverse answers every range query with the sum
  of the elements the list would have after the same point updates.\<close>

theorem fenwick_session:
  assumes "scl_allocator a" and "associative f" and "commutative f" and "\<forall>x y. g (f x y) x = y"
    and "n \<noteq> 0" and "unat n \<le> length src" and "es \<noteq> 0"
    and "scl_fenwick_init zero fresh a (Some s0) n es (Some src) (Some f) (Some g) = Some (SCL_OK, Some s)"
    and "\<forall>(i, v) \<in> set ops. i < unat n" and "l < r" and "r \<le> unat n"
  shows "\<exists>s'. alter_all fen_add s ops = Some s' \<and>
    fen_ask old s' l r = total f (between (list_alter f (take (unat n) src) ops) l r)"
proof -
  have "fen_holds f s (take (unat n) src)"
    using fenwick_init_spec [OF assms(1-3,5-7), of zero fresh s0 g] assms(4,8) by (simp add: fen_holds_def)
  from fenwick.alters_ask [OF this, of ops l r old] assms(6,9-11) show ?thesis by simp
qed

theorem fenwick_session_witness:
  "\<exists>s s'. scl_fenwick_init 0 0 demo_alloc (Some \<lparr>fw_tree = None, fw_scratch = None, fw_n = 0, fw_element_size = 0, fw_add = (+), fw_sub = (-)\<rparr>)
      3 8 (Some [1, 2, 3]) (Some (+)) (Some (-)) = Some (SCL_OK, Some s) \<and>
    alter_all fen_add s [(1, 5 :: int)] = Some s' \<and> fen_ask 0 s' 1 3 = Some 10"
proof -
  let ?s = "\<lparr>fw_tree = None, fw_scratch = None, fw_n = 0, fw_element_size = 0, fw_add = (+), fw_sub = (-)\<rparr> :: int scl_fenwick_t"
  obtain err s where s: "scl_fenwick_init 0 0 demo_alloc (Some ?s) 3 8 (Some [1, 2, 3]) (Some (+)) (Some (-)) = Some (err, Some s)"
    "if err = SCL_OK then True else alloc_failed err"
    using fenwick_init_spec [OF demo.scl_allocator_axioms, of "(+)" 3 "[1, 2, 3]" 8 0 0 ?s "(-)"]
    by (auto simp: associative_def commutative_def split: if_splits)
  have "calloc_fn demo_alloc 0 (3 + 1) 8 max_align \<noteq> None" "malloc_fn demo_alloc 1 8 max_align \<noteq> None"
    by (simp_all add: demo_alloc_def scl_allocator_default_def def_malloc_def def_calloc_def limited_heap_def scl_mul_overflow_def)
  then have "err = SCL_OK" using s by (auto simp: scl_fenwick_init_def split: bind_splits)
  then show ?thesis
    using fenwick_session [OF demo.scl_allocator_axioms, of "(+)" "(-)" 3 "[1, 2, 3]" 8 0 0 ?s s "[(1, 5)]" 1 3 0] s
    by (auto simp: associative_def commutative_def between_def)
qed

text \<open>C26. A sparse table over an idempotent associative operation answers every query with the combination of
  the whole range, from two overlapping precomputed ranges.\<close>

theorem sparse_table_query:
  assumes "scl_allocator a" and "associative f" and "idempotent f" and "n \<noteq> 0" and "unat n < 2 ^ 63"
    and "unat n \<le> length src" and "es \<noteq> 0"
    and "scl_sparse_init fresh a (Some s0) n es (Some src) (Some f) = Some (SCL_OK, Some s)" and "l \<le> r" and "r < n"
  shows "\<exists>v s'. scl_sparse_query (Some s) l r (Some old) = Some (SCL_OK, Some s', Some v) \<and>
    total f (stretch (take (unat n) src) (unat l) (unat r + 1 - unat l)) = Some v"
proof -
  have "sparse_inv (take (unat n) src) s" "sp_n s = n" "sp_combine s = f"
    using sparse_init_spec [OF assms(1,2,4-7), of fresh s0] assms(8) by simp_all
  with sparse_query_spec [OF this(1), of l r old] assms(2,3,9,10) show ?thesis by auto
qed

theorem sparse_table_query_witness:
  "\<exists>s s'. scl_sparse_init 0 demo_alloc (Some \<lparr>sp_levels = None, sp_scratch = None, sp_n = 0, sp_levels_count = 0, sp_element_size = 0, sp_combine = min\<rparr>)
      3 8 (Some [5, 2, 7]) (Some min) = Some (SCL_OK, Some s) \<and>
    scl_sparse_query (Some s) 0 2 (Some 0) = Some (SCL_OK, Some s', Some (2 :: int))"
proof -
  let ?s = "\<lparr>sp_levels = None, sp_scratch = None, sp_n = 0, sp_levels_count = 0, sp_element_size = 0, sp_combine = min\<rparr> :: int scl_sparse_t"
  have ai: "associative (min :: int \<Rightarrow> int \<Rightarrow> int)" "idempotent (min :: int \<Rightarrow> int \<Rightarrow> int)"
    by (simp_all add: associative_def idempotent_def min.assoc)
  obtain err s where s: "scl_sparse_init 0 demo_alloc (Some ?s) 3 8 (Some [5, 2, 7]) (Some min) = Some (err, Some s)"
    "if err = SCL_OK then True else alloc_failed err"
    using sparse_init_spec [OF demo.scl_allocator_axioms ai(1), of 3 "[5, 2, 7]" 8 0 ?s] by (auto split: if_splits)
  have lv: "sparse_levels 3 0 = Some (Suc (Suc 0))"
    by (subst sparse_levels.simps, simp, subst sparse_levels.simps, simp, subst sparse_levels.simps, simp)
  have m: "scl_mul_overflow 3 8 = Some (24 :: size_t)" by (simp add: scl_mul_overflow_def)
  have "calloc_fn demo_alloc 0 (of_nat (Suc (Suc 0))) 8 max_align \<noteq> None" "malloc_fn demo_alloc 1 8 max_align \<noteq> None"
    "alloc_levels demo_alloc (0 :: int) 2 24 3 (Suc (Suc 0)) \<noteq> None"
    by (simp_all add: demo_alloc_def scl_allocator_default_def def_malloc_def def_calloc_def limited_heap_def scl_mul_overflow_def)
  then have "err = SCL_OK" using s lv m by (auto simp: scl_sparse_init_def simp del: alloc_levels.simps split: bind_splits)
  then show ?thesis
    using sparse_table_query [OF demo.scl_allocator_axioms ai, of 3 "[5, 2, 7]" 8 0 ?s s 0 2 0] s
    by (auto simp: stretch_def)
qed

text \<open>C27. A Bloom filter has no false negatives: after any insertions every inserted key is reported as
  present, and the invariant (a non-zero bit count inside the block, 1 to 64 hashes) holds.\<close>

theorem bloom_no_false_negatives:
  assumes "scl_allocator a"
    and "scl_bloom_init bits_of hashes_of a (Some s0) n r (Some scl_bloom_hash_murmur) = (SCL_OK, Some s)"
    and "d \<in> set ds"
  shows "\<exists>s'. bloom_insert_all s ds = Some s' \<and> bloom_inv s' \<and> scl_bloom_maybe_contains (Some s') (Some d) (length d) = Some True"
proof -
  note s = bloom_init_spec [OF assms(1,2)]
  have h: "bloom_hash (bf_hash_func s)" unfolding s(2) by (rule murmur.bloom_hash_axioms)
  from bloom_all_spec [OF s(1) h, of ds] obtain s' where s': "bloom_insert_all s ds = Some s'" "bloom_inv s'"
    "bf_hash_func s' = bf_hash_func s" "\<forall>d \<in> set ds. bloom_has s' d (length d)" by blast
  from bloom_contains_spec [OF s'(2), of "length d" d] h s' assms(3) show ?thesis by simp
qed

theorem bloom_no_false_negatives_witness:
  "\<exists>s'. bloom_insert_all \<lparr>bf_bits = Some [0, 0], bf_bit_count = 10, bf_byte_count = 2, bf_num_hashes = 3,
      bf_hash_func = scl_bloom_hash_murmur, bf_inserted = 0\<rparr> [[1, 2], [7]] = Some s' \<and> bloom_inv s' \<and>
    scl_bloom_maybe_contains (Some s') (Some [7]) (length [7 :: byte]) = Some True"
proof -
  have two: "replicate 2 x = [x, x]" for x :: byte by (simp add: numeral_2_eq_2)
  have "scl_bloom_init (\<lambda>n r. Some 10) (\<lambda>b n. 3) demo_alloc
      (Some \<lparr>bf_bits = None, bf_bit_count = 0, bf_byte_count = 0, bf_num_hashes = 0,
        bf_hash_func = scl_bloom_hash_murmur, bf_inserted = 0\<rparr>) 1 () (Some scl_bloom_hash_murmur)
    = (SCL_OK, Some \<lparr>bf_bits = Some [0, 0], bf_bit_count = 10, bf_byte_count = 2, bf_num_hashes = 3,
      bf_hash_func = scl_bloom_hash_murmur, bf_inserted = 0\<rparr>)"
    by (simp add: scl_bloom_init_def demo_alloc_def scl_allocator_default_def def_malloc_def def_calloc_def
        limited_heap_def scl_mul_overflow_def scl_add_overflow_def two)
  from bloom_no_false_negatives [OF demo.scl_allocator_axioms this, of "[7]" "[[1, 2], [7]]"]
  show ?thesis by (simp del: bloom_insert_all.simps)
qed

section \<open>Hash table\<close>

text \<open>C28. A hash table made by \<open>scl_hash_init\<close> answers every history of insertions, removals and lookups like a
  map, through every growth and whatever the seed is, provided that nothing is removed or no key is inserted
  twice: no probe leaves the table or turns for ever, and an insertion fails only for want of memory.\<close>

theorem hash_session:
  assumes "scl_allocator a" and "hash_keys hf eq (unat ksz)" and "unat n \<le> 2 ^ 63"
    and "scl_hash_init seed a (Some t0) ksz vsz n (Some hf) (Some eq) = (SCL_OK, Some t)"
    and "\<forall>c \<in> set cs. cmd_sizes (unat ksz) (unat vsz) c"
    and "(\<forall>c \<in> set cs. \<not> removes c) \<or> inserted_once (\<lambda>x y. eq x y (unat ksz) = Some True) cs"
  shows "\<exists>rs t'. hash_run a t cs = Some (rs, t') \<and> hash_inv t' \<and>
    map_replay (\<lambda>x y. eq x y (unat ksz) = Some True) (unat vsz) (\<lambda>k. None) cs rs"
proof -
  have hk: "hash_keys hf (case Some eq of None \<Rightarrow> scl_hash_eq_mem | Some e \<Rightarrow> e) (unat ksz)" using assms(2) by simp
  note t = hash_init_spec [OF assms(1,3) hk assms(4)]
  have same: "hash_same t = (\<lambda>x y. eq x y (unat ksz) = Some True)" using t(4,6) by (intro ext) (simp add: hash_same_def)
  have none: "hash_map t = (\<lambda>k. None)" using t(3) by (intro ext) simp
  have "hash_history_ok t cs" using assms(6) t(2) unfolding hash_history_ok_def same none by (auto split: map_cmd.split)
  from hash_run_spec [OF assms(1) t(1) _ this] show ?thesis using assms(5) t(4,5) same none by simp
qed

theorem hash_session_witness:
  "\<exists>t rs t'. scl_hash_init 7 demo_alloc (Some \<lparr>ht_keys = None, ht_values = None, ht_states = None, ht_capacity = 0, ht_mask = 0,
      ht_count = 0, ht_hash_func = scl_hash_djb2, ht_eq_func = scl_hash_eq_mem, ht_seed = 0, ht_key_size = 0, ht_value_size = 0\<rparr>)
      1 1 2 (Some scl_hash_djb2) (Some scl_hash_eq_mem) = (SCL_OK, Some t) \<and>
    hash_run demo_alloc t [Insert_key [1] [5], Insert_key [1] [6], Lookup_key [1]] = Some (rs, t') \<and> hash_inv t' \<and>
    map_replay (\<lambda>x y. scl_hash_eq_mem x y 1 = Some True) 1 (\<lambda>k. None) [Insert_key [1] [5], Insert_key [1] [6], Lookup_key [1]] rs"
proof -
  let ?t = "\<lparr>ht_keys = None, ht_values = None, ht_states = None, ht_capacity = 0, ht_mask = 0,
      ht_count = 0, ht_hash_func = scl_hash_djb2, ht_eq_func = scl_hash_eq_mem, ht_seed = 0, ht_key_size = 0, ht_value_size = 0\<rparr>"
  have "scl_bit_ceil_sz 2 = 2" by (simp add: scl_bit_ceil_sz_def smear_def Let_def)
  moreover have "calloc_fn demo_alloc 0 2 1 max_align \<noteq> None" "calloc_fn demo_alloc 1 2 1 max_align \<noteq> None"
    "calloc_fn demo_alloc 2 2 4 max_align \<noteq> None"
    by (simp_all add: demo_alloc_def scl_allocator_default_def def_malloc_def def_calloc_def limited_heap_def scl_mul_overflow_def)
  ultimately obtain t where t: "scl_hash_init 7 demo_alloc (Some ?t) 1 1 2 (Some scl_hash_djb2) (Some scl_hash_eq_mem) = (SCL_OK, Some t)"
    by (auto simp: scl_hash_init_def Let_def)
  have "hash_keys scl_hash_djb2 scl_hash_eq_mem (unat (1 :: size_t))" by (rule djb2.hash_keys_axioms)
  from hash_session [OF demo.scl_allocator_axioms this _ t, of "[Insert_key [1] [5], Insert_key [1] [6], Lookup_key [1]]"]
  show ?thesis using t by (auto simp: removes_def simp del: hash_run.simps map_replay.simps)
qed


section \<open>Distribution sorts\<close>



text \<open>C31. Counting sort orders signed integers whose span fits an \<open>int\<close>; a wider span makes \<open>max - min\<close> overflow,
  which is undefined.\<close>

theorem counting_sort:
  assumes "scl_allocator a" and "length xs = unat cnt"
  shows "if \<exists>x \<in> set xs. \<exists>y \<in> set xs. 2 ^ 31 \<le> sint x - sint y then scl_sort_counting a (Some xs) cnt = None
    else \<exists>err ys. scl_sort_counting a (Some xs) cnt = Some (err, Some ys) \<and>
      (if err = SCL_OK then ys = sort_key sint xs else err = SCL_ERR_OUT_OF_MEMORY \<and> ys = xs)"
  using counting_sort_spec [OF assms] counting_overflows(1) [OF assms(2)] by (auto simp: not_le)

theorem counting_sort_witness:
  "(\<exists>err ys. scl_sort_counting demo_alloc (Some [4, - 2, 1]) 3 = Some (err, Some ys) \<and>
      (if err = SCL_OK then ys = [- 2, 1, 4] else err = SCL_ERR_OUT_OF_MEMORY \<and> ys = [4, - 2, 1])) \<and>
    scl_sort_counting demo_alloc (Some [2147483647, 2147483648]) 2 = None"
proof -
  have "sort_key sint [4, - 2, 1 :: 32 word] = [- 2, 1, 4]" by (simp add: sort_key_simps)
  from counting_sort [OF demo.scl_allocator_axioms, of "[4, - 2, 1]" 3, unfolded this]
    counting_sort [OF demo.scl_allocator_axioms, of "[2147483647, 2147483648]" 2] show ?thesis by simp
qed



section \<open>Substring searches\<close>





text \<open>C35. With a pattern of one byte Boyer-Moore builds its good suffix table with a loop to \<open>plen - 2\<close>, which wraps, so
  it reads and writes outside its tables: the behaviour is undefined for every non-empty text.\<close>

theorem boyer_moore_single_byte:
  assumes "scl_allocator a" and "tlen \<noteq> 0" and "\<forall>k < 2. malloc_fn a k 8 max_align \<noteq> None"
  shows "scl_search_boyer_moore a (Some text) tlen (Some [c]) 1 (Some old) = None"
proof -
  have "bm_memory a 1" using assms(3) by (simp add: bm_memory_def)
  then show ?thesis using bm_core_single [OF assms(1,2), where cb = "Some first_cb" and u = "0 :: nat"]
    by (simp add: scl_search_boyer_moore_def)
qed

theorem boyer_moore_single_byte_witness:
  "scl_search_boyer_moore demo_alloc (Some [5, 6]) 2 (Some [6]) 1 (Some 0) = None"
  by (rule boyer_moore_single_byte [OF demo.scl_allocator_axioms])
    (simp_all add: demo_alloc_def scl_allocator_default_def def_malloc_def limited_heap_def)

section \<open>Graphs\<close>

text \<open>C36. A graph made by \<open>scl_graph_init_ex\<close> behaves under every sequence of insertions, removals and lookups of edges
  like a list of adjacency lists: the chains of edge indices and the free list stay a partition of the edge
  array, no access leaves the arrays, and the edge count is the number of edges.\<close>

theorem graph_session:
  assumes "scl_allocator a" and "scl_graph_init_ex a (Some g0) n shard_len = Some (SCL_OK, Some g)"
  shows "\<exists>g' rs. graph_run a g cs = Some (g', rs) \<and> graph_inv g' \<and>
    adj_run (replicate (unat n) []) cs rs = Some (graph_adj g') \<and>
    unat (scl_graph_edge_count (Some g')) = length (concat (graph_adj g'))"
  using graph_init_ok [OF assms] graph_run_spec [OF assms(1), of g cs] graph_edge_total by fastforce

theorem graph_session_witness:
  "\<exists>g g' rs. scl_graph_init_ex demo_alloc (Some blank_graph) 2 2 = Some (SCL_OK, Some g) \<and>
    graph_run demo_alloc g [Add_edge 0 1 7, Has_edge 0 1, Remove_edge 0 1, Add_edge 1 0 3] = Some (g', rs) \<and> graph_inv g' \<and>
    adj_run (replicate 2 []) [Add_edge 0 1 7, Has_edge 0 1, Remove_edge 0 1, Add_edge 1 0 3] rs = Some (graph_adj g') \<and>
    unat (scl_graph_edge_count (Some g')) = length (concat (graph_adj g'))"
proof -
  obtain g where g: "scl_graph_init_ex demo_alloc (Some blank_graph) 2 2 = Some (SCL_OK, Some g)" using demo_graph by blast
  from graph_session [OF demo.scl_allocator_axioms g, of "[Add_edge 0 1 7, Has_edge 0 1, Remove_edge 0 1, Add_edge 1 0 3]"] g
  show ?thesis by auto
qed

text \<open>C37. Depth-first and breadth-first traversal visit exactly the vertices that can be reached from the start, each
  once, and breadth-first traversal in the order of their distance. Their buffers of one slot per vertex
  always suffice.\<close>

theorem graph_traversals:
  assumes "scl_allocator a" and "graph_inv g" and "start < gr_vertex_count g" and "graph_memory a (gr_vertex_count g)"
  shows "(\<exists>vs. scl_graph_dfs a (Some g) start (Some visit) ctx = Some (SCL_OK, fold (\<lambda>v. visit (of_nat v)) vs ctx) \<and>
      distinct vs \<and> set vs = {v. (unat start, v) \<in> (arcs g)\<^sup>*}) \<and>
    (\<exists>vs. scl_graph_bfs a (Some g) start (Some visit) ctx = Some (SCL_OK, fold (\<lambda>v. visit (of_nat v)) vs ctx) \<and>
      distinct vs \<and> set vs = {v. (unat start, v) \<in> (arcs g)\<^sup>*} \<and>
      sorted (map (\<lambda>v. LEAST k. (unat start, v) \<in> arcs g ^^ k) vs))"
  using dfs_spec [OF assms, of visit ctx] bfs_spec [OF assms, of visit ctx] by (simp add: reach_def hops_def [abs_def])

theorem graph_traversals_witness:
  "\<exists>g. scl_graph_init_ex demo_alloc (Some blank_graph) 2 2 = Some (SCL_OK, Some g) \<and>
    (\<exists>vs. scl_graph_dfs demo_alloc (Some g) 1 (Some (#)) [] = Some (SCL_OK, fold (\<lambda>v. (#) (of_nat v)) vs []) \<and>
      distinct vs \<and> set vs = {v. (1, v) \<in> (arcs g)\<^sup>*})"
proof -
  obtain g where g: "scl_graph_init_ex demo_alloc (Some blank_graph) 2 2 = Some (SCL_OK, Some g)" using demo_graph by blast
  note i = graph_init_ok [OF demo.scl_allocator_axioms g]
  have "graph_memory demo_alloc (gr_vertex_count g)"
    using i by (simp add: graph_memory_def demo_alloc_def scl_allocator_default_def def_malloc_def def_calloc_def limited_heap_def scl_mul_overflow_def)
  from graph_traversals [OF demo.scl_allocator_axioms _ _ this, of 1 "(#)" "[]"] i g show ?thesis by auto
qed

text \<open>C38. The two graph searches mark, beside what the caller had marked, exactly the vertices that can be reached
  from the start without passing through a marked one, for every graph whose vertices fit an \<open>int\<close>.\<close>

theorem graph_searches:
  assumes "scl_allocator a" and "graph_inv g" and "unat (gr_vertex_count g) < 2 ^ 31"
    and "\<not> sint start < 0" and "\<not> gr_vertex_count g \<le> scast start"
    and "length vis = unat (gr_vertex_count g)" and "malloc_fn a 0 (gr_vertex_count g * 4) max_align \<noteq> None"
  shows "\<forall>search \<in> {scl_search_depth_first_search, scl_search_breadth_first_search}.
    \<exists>vis'. search a (Some g) start (Some vis) = Some (SCL_OK, Some vis') \<and> length vis' = length vis \<and>
      marked vis' = marked vis \<union> reach g (marked vis - {unat (scast start :: size_t)}) (unat (scast start :: size_t))"
proof -
  have "search_memory a (gr_vertex_count g)" using assms(7) by (simp add: search_memory_def)
  moreover have "arr_data (gr_nodes g) \<noteq> None" using graph_inv_data [OF assms(2)] assms(5) by fastforce
  ultimately show ?thesis
    using search_dfs_spec [OF assms(1-5) _ assms(6)] search_bfs_spec [OF assms(1-5) _ assms(6)] by (auto simp: search_result_def)
qed

theorem graph_searches_witness:
  "\<exists>g vis'. scl_graph_init_ex demo_alloc (Some blank_graph) 2 2 = Some (SCL_OK, Some g) \<and>
    scl_search_depth_first_search demo_alloc (Some g) 1 (Some [False, False]) = Some (SCL_OK, Some vis') \<and>
    length vis' = 2 \<and> marked vis' = marked [False, False] \<union> reach g (marked [False, False] - {1}) 1"
proof -
  obtain g where g: "scl_graph_init_ex demo_alloc (Some blank_graph) 2 2 = Some (SCL_OK, Some g)" using demo_graph by blast
  note i = graph_init_ok [OF demo.scl_allocator_axioms g]
  have "malloc_fn demo_alloc 0 (gr_vertex_count g * 4) max_align \<noteq> None"
    using i by (simp add: demo_alloc_def scl_allocator_default_def def_malloc_def limited_heap_def)
  from graph_searches [OF demo.scl_allocator_axioms _ _ _ _ _ this, of 1 "[False, False]"] i g show ?thesis by (auto simp: not_le word_less_unat)
qed

section \<open>Linked lists\<close>



text \<open>C40. A doubly linked list refines a list of elements under every sequence of insertions and removals, at both ends,
  at an index reached from the nearer end, and by value: each result and each removed element is the one the
  list gives, and an insertion that finds no memory changes nothing.\<close>

theorem dlist_session:
  assumes "scl_dlist_init (Some l0) es = (SCL_OK, Some l)"
    and "\<forall>(pl, c) \<in> set cs. node_place pl \<and> cmd_wide (unat es) c"
  shows "\<exists>rs l' h'. dlist_run cmp (l, h) cs = Some (rs, l', h') \<and> dlist_inv l' h' \<and>
    seq_run cmp (unat es) [] (map snd cs) rs = Some (dlist_list l' h')"
proof -
  have l: "dlist_rep l h []" "dl_element_size l = es" using dlist_init_ok [OF assms(1), of h] by simp_all
  then have "dlist_inv l h" "dlist_list l h = []" using dlist_rep_list [OF l(1)] by (auto simp: dlist_inv_def)
  then show ?thesis using dlist_run_spec [of l h cs cmp] assms(2) l(2) by auto
qed

theorem dlist_session_witness:
  "\<exists>rs l' h'. dlist_run byte_cmp (\<lparr>dl_head = 0, dl_tail = 0, dl_element_size = 1, dl_count = 0\<rparr>, \<lambda>p. None)
      [(first_free 9, Add_front [4]), (first_free 9, Add_at 1 [7]), (first_free 1, Add_back [8]), (first_free 9, Remove_value [4])]
        = Some (rs, l', h') \<and> dlist_inv l' h' \<and>
    seq_run byte_cmp 1 [] [Add_front [4], Add_at 1 [7], Add_back [8], Remove_value [4]] rs = Some (dlist_list l' h')"
  using dlist_session [of "\<lparr>dl_head = 0, dl_tail = 0, dl_element_size = 0, dl_count = 0\<rparr>" 1
      "\<lparr>dl_head = 0, dl_tail = 0, dl_element_size = 1, dl_count = 0\<rparr>"
      "[(first_free 9, Add_front [4]), (first_free 9, Add_at 1 [7]), (first_free 1, Add_back [8]), (first_free 9, Remove_value [4])]"
      byte_cmp "\<lambda>p. None"]
  by (simp add: scl_dlist_init_def cmd_wide_def first_free.node_place_axioms del: dlist_run.simps seq_run.simps)

end
